(* ===== verification/Prelude.thy ===== *)
theory Prelude
  imports Main "HOL-Library.Word"
begin

unbundle bit_operations_syntax

text \<open>
  Shared vocabulary of the development: the C++ fixed-width integer types, the collections of
  rewrite rules the component theories extend, and the generic facts on words, bits and lists
  that several components use (shifting a byte in and out most significant bit first, little
  endian reads, in-place updates of buffers).
\<close>

section \<open>Fixed-width integers\<close>

text \<open>Shifts stay shifts: the library would rewrite a shift by a literal into a multiplication or
  a division, which hides the bits the code works with.\<close>

declare push_bit_Suc [simp del]
declare drop_bit_Suc [simp del]

type_synonym u8 = "8 word"
type_synonym u16 = "16 word"
type_synonym u32 = "32 word"
type_synonym u64 = "64 word"

named_theorems crc_simps \<open>one-step equations of the checksum loops\<close>
named_theorems spi_simps \<open>what one SPI clock or one SPI byte does to a device model\<close>
named_theorems sd_simps \<open>byte-level behaviour of the microSD card model\<close>
named_theorems fs_simps \<open>equations of the FAT32 layer\<close>
named_theorems i2c_simps \<open>what one sample of the I2C lines does\<close>

lemma word_xor_eq_0_iff: "(x :: 'a::len word) XOR y = 0 \<longleftrightarrow> x = y"
  by (auto simp: bit_eq_iff bit_xor_iff)

lemma word_xor_right_cancel: "(x :: 'a::len word) XOR z = y XOR z \<longleftrightarrow> x = y"
  by (auto simp: bit_eq_iff bit_xor_iff)

lemma ucast_u8_u32_u8 [simp]: "ucast (ucast (x :: u8) :: u32) = x"
  by (rule bit_word_eqI) (simp add: bit_simps)

lemma unat_ucast_u16_u32 [simp]: "unat (ucast (x :: u16) :: u32) = unat x"
  by (simp add: unsigned_ucast_eq take_bit_nat_eq_self unsigned_less [THEN less_le_trans])

lemma unat_ucast_u8_u16: "unat (ucast (b :: u8) :: u16) = unat b"
  by (simp add: unsigned_ucast_eq take_bit_nat_eq_self unsigned_less [THEN less_le_trans])

section \<open>Bits of a byte, most significant first\<close>

definition shift_in :: "u8 \<Rightarrow> bool \<Rightarrow> u8" where
  "shift_in w b = push_bit 1 w OR of_bool b"

definition msb_first :: "u8 \<Rightarrow> bool list" where
  "msb_first w = map (bit w) [7, 6, 5, 4, 3, 2, 1, 0]"

lemma length_msb_first [simp]: "length (msb_first w) = 8"
  by (simp add: msb_first_def)

lemma nat_less_8_cases:
  "n < (8::nat) \<longleftrightarrow> n = 0 \<or> n = 1 \<or> n = 2 \<or> n = 3 \<or> n = 4 \<or> n = 5 \<or> n = 6 \<or> n = 7"
  by auto

lemma bit_shift_in:
  "bit (shift_in w b) n \<longleftrightarrow> n < 8 \<and> (if n = 0 then b else bit w (n - 1))"
  by (auto simp: shift_in_def bit_or_iff bit_push_bit_iff bit_of_bool_iff)

text \<open>Eight bits shifted in most significant bit first are the byte, whatever was there before.\<close>

lemma foldl_shift_in_msb_first: "foldl shift_in w (msb_first b) = b"
proof (rule bit_word_eqI)
  fix n
  assume "n < LENGTH(8)"
  then have "n \<in> {0, 1, 2, 3, 4, 5, 6, 7}" by auto
  then show "bit (foldl shift_in w (msb_first b)) n \<longleftrightarrow> bit b n"
    by (elim insertE) (simp_all add: msb_first_def bit_shift_in)
qed

lemma msb_first_inject [simp]: "msb_first a = msb_first b \<longleftrightarrow> a = b"
  by (metis foldl_shift_in_msb_first)

section \<open>Little endian reads\<close>

definition le16 :: "u8 \<Rightarrow> u8 \<Rightarrow> u16" where
  "le16 a b = ucast a OR push_bit 8 (ucast b)"

definition le32 :: "u8 \<Rightarrow> u8 \<Rightarrow> u8 \<Rightarrow> u8 \<Rightarrow> u32" where
  "le32 a b c d = ucast a OR push_bit 8 (ucast b) OR push_bit 16 (ucast c) OR push_bit 24 (ucast d)"

section \<open>In-place updates of a buffer\<close>

text \<open>\<open>blit dst off src\<close> stores \<open>src\<close> at index \<open>off\<close> of \<open>dst\<close>; what does not fit is dropped.\<close>

definition blit :: "'a list \<Rightarrow> nat \<Rightarrow> 'a list \<Rightarrow> 'a list" where
  "blit dst off src = take (length dst) (take off dst @ src @ drop (off + length src) dst)"

lemma length_blit: "off + length src \<le> length dst \<Longrightarrow> length (blit dst off src) = length dst"
  by (simp add: blit_def)

lemma blit_Nil [simp]: "blit dst off [] = dst"
  by (simp add: blit_def)

lemma length_blit_id [simp]: "length (blit dst off src) = length dst"
  by (simp add: blit_def)

lemma nth_blit:
  "i < length dst \<Longrightarrow> blit dst off src ! i = (if off \<le> i \<and> i < off + length src then src ! (i - off) else dst ! i)"
  by (auto simp: blit_def nth_append min_def)

lemma take_blit: "i + length w \<le> length dst \<Longrightarrow> take (i + length w) (blit dst i w) = take i dst @ w"
  by (simp add: blit_def)

lemma drop_blit: "off + length src \<le> n \<Longrightarrow> drop n (blit dst off src) = drop n dst"
  by (rule nth_equalityI) (auto simp: nth_blit)

end
