(* ===== verification/Crc.thy ===== *)
theory Crc
  imports Prelude
begin

unbundle bit_operations_syntax

text \<open>
  The checksums of the SD protocol, twice in the code: as the driver computes them
  (\<open>SdCard::calc_crc7\<close>, \<open>SdCard::calc_crc16\<close> in \<open>sdcard-utils.hh\<close>) and as the simulated card does
  (\<open>spi_microsd::update_crc7\<close>, \<open>spi_microsd::update_crc16\<close> in \<open>spi_microsd.cc\<close>). Each side is a
  translation of its own loops. The theory shows that the two sides agree, however the card's bytes are cut
  into calls, that the CRC16 is the remainder of the long division of polynomials that defines it, that a block
  followed by its CRC16 has residue zero, and that the CRC16 tells apart any two blocks that differ only within
  two adjacent bytes.
\<close>

section \<open>The loops of the driver\<close>

text \<open>The body of the inner loop over the bits of a byte, for each width.\<close>

definition crc7_step :: "u8 \<Rightarrow> u8 \<Rightarrow> u8" where
  "crc7_step crc d = push_bit 1 crc XOR (if (crc XOR d) AND 0x80 \<noteq> 0 then 0x12 else 0)"

definition crc16_step :: "u16 \<Rightarrow> u16 \<Rightarrow> u16" where
  "crc16_step crc d = push_bit 1 crc XOR (if (crc XOR d) AND 0x8000 \<noteq> 0 then 0x1021 else 0)"

text \<open>\<open>for (unsigned b = 0u; b < 8u; b++)\<close>, counting the iterations that are left.\<close>

fun crc7_bits :: "nat \<Rightarrow> u8 \<Rightarrow> u8 \<Rightarrow> u8" where
  "crc7_bits 0 crc d = crc"
| "crc7_bits (Suc b) crc d = crc7_bits b (crc7_step crc d) (push_bit 1 d)"

fun crc16_bits :: "nat \<Rightarrow> u16 \<Rightarrow> u16 \<Rightarrow> u16" where
  "crc16_bits 0 crc d = crc"
| "crc16_bits (Suc b) crc d = crc16_bits b (crc16_step crc d) (push_bit 1 d)"

text \<open>\<open>while (len-- > 0u)\<close> over the bytes of the buffer.\<close>

fun crc7_loop :: "u8 \<Rightarrow> u8 list \<Rightarrow> u8" where
  "crc7_loop crc [] = crc"
| "crc7_loop crc (d # data) = crc7_loop (crc7_bits 8 crc d) data"

fun crc16_loop :: "u16 \<Rightarrow> u8 list \<Rightarrow> u16" where
  "crc16_loop crc [] = crc"
| "crc16_loop crc (d # data) = crc16_loop (crc16_bits 8 crc (push_bit 8 (ucast d))) data"

text \<open>The driver's functions.\<close>

definition calc_crc7 :: "u8 list \<Rightarrow> u8" where
  "calc_crc7 data = drop_bit 1 (crc7_loop 0 data)"

definition calc_crc16 :: "u8 list \<Rightarrow> u16" where
  "calc_crc16 data = crc16_loop 0 data"

section \<open>The loops of the card\<close>

text \<open>
  The card's own loops, in the order of the source: the inner loop over the bits of a byte, its register and
  its byte both shifted in place, and the outer loop over the bytes.
\<close>

fun card_crc7_bits :: "nat \<Rightarrow> u8 \<Rightarrow> u8 \<Rightarrow> u8" where
  "card_crc7_bits 0 crc d = crc"
| "card_crc7_bits (Suc b) crc d =
     (let crc = push_bit 1 crc XOR (if (crc XOR d) AND 0x80 \<noteq> 0 then 0x12 else 0);
          d = push_bit 1 d
      in card_crc7_bits b crc d)"

fun card_crc7_bytes :: "u8 \<Rightarrow> u8 list \<Rightarrow> u8" where
  "card_crc7_bytes crc [] = crc"
| "card_crc7_bytes crc (d # data) = card_crc7_bytes (card_crc7_bits 8 crc d) data"

definition update_crc7 :: "u8 \<Rightarrow> u8 list \<Rightarrow> u8" where
  "update_crc7 crc data = card_crc7_bytes crc data OR 1"

fun card_crc16_bits :: "nat \<Rightarrow> u16 \<Rightarrow> u16 \<Rightarrow> u16" where
  "card_crc16_bits 0 crc d = crc"
| "card_crc16_bits (Suc b) crc d =
     (let crc = push_bit 1 crc XOR (if (crc XOR d) AND 0x8000 \<noteq> 0 then 0x1021 else 0);
          d = push_bit 1 d
      in card_crc16_bits b crc d)"

fun card_crc16_bytes :: "u16 \<Rightarrow> u8 list \<Rightarrow> u16" where
  "card_crc16_bytes crc [] = crc"
| "card_crc16_bytes crc (d # data) =
     (let d = push_bit 8 (ucast d) in card_crc16_bytes (card_crc16_bits 8 crc d) data)"

definition update_crc16 :: "u16 \<Rightarrow> u8 list \<Rightarrow> u16" where
  "update_crc16 crc data = card_crc16_bytes crc data"

text \<open>The card's loops compute what the driver's do.\<close>

lemma card_crc7_bits_eq: "card_crc7_bits n crc d = crc7_bits n crc d"
  by (induction n arbitrary: crc d) (simp_all add: crc7_step_def Let_def)

lemma card_crc7_bytes_eq: "card_crc7_bytes crc data = crc7_loop crc data"
  by (induction data arbitrary: crc) (simp_all add: card_crc7_bits_eq)

lemma card_crc16_bits_eq: "card_crc16_bits n crc d = crc16_bits n crc d"
  by (induction n arbitrary: crc d) (simp_all add: crc16_step_def Let_def)

lemma update_crc16_eq: "update_crc16 crc data = crc16_loop crc data"
  unfolding update_crc16_def
  by (induction data arbitrary: crc) (simp_all add: card_crc16_bits_eq Let_def)

section \<open>Composition\<close>

lemma crc7_loop_append: "crc7_loop c (xs @ ys) = crc7_loop (crc7_loop c xs) ys"
  by (induction xs arbitrary: c) auto

lemma crc16_loop_append: "crc16_loop c (xs @ ys) = crc16_loop (crc16_loop c xs) ys"
  by (induction xs arbitrary: c) auto

lemma update_crc16_Nil [simp]: "update_crc16 c [] = c"
  by (simp add: update_crc16_eq)

lemma update_crc16_append: "update_crc16 c (xs @ ys) = update_crc16 (update_crc16 c xs) ys"
  by (simp add: update_crc16_eq crc16_loop_append)

section \<open>The CRC7 register keeps its low bit clear\<close>

lemma even_crc7_step: "\<not> bit (crc7_step c d) 0"
  by (simp add: crc7_step_def bit_xor_iff bit_push_bit_iff)

lemma even_crc7_bits: "\<not> bit c 0 \<Longrightarrow> \<not> bit (crc7_bits n c d) 0"
  by (induction n arbitrary: c d) (simp_all add: even_crc7_step)

lemma even_crc7_loop: "\<not> bit c 0 \<Longrightarrow> \<not> bit (crc7_loop c xs) 0"
  by (induction xs arbitrary: c) (simp_all add: even_crc7_bits)

lemma drop_push_or_1: "\<not> bit (w :: u8) 0 \<Longrightarrow> 1 OR push_bit 1 (drop_bit 1 w) = w OR 1"
  by (rule bit_word_eqI) (auto simp: bit_simps le_less Suc_le_eq)

section \<open>The CRC16 register as a linear map\<close>

text \<open>One step on the register once the message bit has been added to its top bit.\<close>

definition crc16_shift :: "u16 \<Rightarrow> u16" where
  "crc16_shift x = push_bit 1 x XOR (if bit x 15 then 0x1021 else 0)"

lemma and_0x8000: "(x :: u16) AND 0x8000 \<noteq> 0 \<longleftrightarrow> bit x 15"
  using and_exp_eq_0_iff_not_bit [of x 15] by simp

lemma crc16_step_shift: "crc16_step c d = crc16_shift (c XOR d) XOR push_bit 1 d"
  by (simp add: crc16_step_def crc16_shift_def and_0x8000 push_bit_xor ac_simps)

lemma crc16_bits_shift: "crc16_bits n c d = (crc16_shift ^^ n) (c XOR d) XOR push_bit n d"
proof (induction n arbitrary: c d)
  case (Suc n)
  have "crc16_step c d XOR push_bit (Suc 0) d = crc16_shift (c XOR d)"
    by (simp add: crc16_step_shift xor.assoc)
  then show ?case
    by (simp add: Suc.IH funpow_swap1)
qed (simp add: xor.assoc)

lemma crc16_shift_xor: "crc16_shift (x XOR y) = crc16_shift x XOR crc16_shift y"
  by (simp add: crc16_shift_def bit_xor_iff push_bit_xor xor.assoc xor.left_commute xor.commute)

lemma crc16_shift_0 [simp]: "crc16_shift 0 = 0"
  by (simp add: crc16_shift_def)

lemma crc16_shift_eq_0: "crc16_shift x = 0 \<Longrightarrow> x = 0"
proof -
  assume 0: "crc16_shift x = 0"
  have "bit (crc16_shift x) 0 \<longleftrightarrow> bit x 15"
    by (simp add: crc16_shift_def bit_xor_iff bit_push_bit_iff)
  with 0 have no15: "\<not> bit x 15" by simp
  with 0 have p: "push_bit 1 x = 0" by (simp add: crc16_shift_def)
  show "x = 0"
  proof (rule bit_word_eqI)
    fix n
    assume "n < LENGTH(16)"
    then have "n < 15 \<or> n = 15" by auto
    moreover have "n < 15 \<Longrightarrow> bit x n = bit (push_bit 1 x) (Suc n)"
      by (simp add: bit_push_bit_iff)
    ultimately show "bit x n = bit 0 n"
      using p no15 by auto
  qed
qed

lemma crc16_shifts_xor: "(crc16_shift ^^ n) (x XOR y) = (crc16_shift ^^ n) x XOR (crc16_shift ^^ n) y"
  by (induction n) (simp_all add: crc16_shift_xor)

lemma crc16_shifts_0 [simp]: "(crc16_shift ^^ n) 0 = 0"
  by (induction n) simp_all

lemma crc16_shifts_eq_0: "(crc16_shift ^^ n) x = 0 \<Longrightarrow> x = 0"
  by (induction n) (auto dest: crc16_shift_eq_0)

lemma crc16_shifts_inject: "(crc16_shift ^^ n) x = (crc16_shift ^^ n) y \<longleftrightarrow> x = y"
proof
  assume "(crc16_shift ^^ n) x = (crc16_shift ^^ n) y"
  then have "(crc16_shift ^^ n) (x XOR y) = 0" by (simp add: crc16_shifts_xor)
  then have "x XOR y = 0" by (rule crc16_shifts_eq_0)
  then show "x = y" by (simp add: word_xor_eq_0_iff)
qed simp

lemma crc16_byte: "crc16_bits 8 c (push_bit 8 (ucast d)) = (crc16_shift ^^ 8) (c XOR push_bit 8 (ucast (d :: u8)))"
proof -
  have "push_bit 8 (push_bit 8 (ucast d :: u16)) = 0"
    by (rule bit_word_eqI) (simp add: bit_simps)
  then show ?thesis by (simp only: crc16_bits_shift xor.right_neutral)
qed

lemma crc16_shifts_low: "n \<le> 8 \<Longrightarrow> (crc16_shift ^^ n) (ucast (d :: u8)) = push_bit n (ucast d)"
proof (induction n)
  case (Suc n)
  have "\<not> bit (push_bit n (ucast d :: u16)) 15"
    using Suc.prems by (auto simp: bit_simps dest: bit_imp_le_length)
  with Suc show ?case by (simp add: crc16_shift_def)
qed simp

lemma crc16_two_bytes:
  "crc16_loop c [a, b] = (crc16_shift ^^ 16) (c XOR push_bit 8 (ucast a) XOR ucast b)"
proof -
  have "(crc16_shift ^^ 8) ((crc16_shift ^^ 8) (c XOR push_bit 8 (ucast a)) XOR push_bit 8 (ucast b))
      = (crc16_shift ^^ 8) ((crc16_shift ^^ 8) (c XOR push_bit 8 (ucast a) XOR ucast b))"
    by (simp add: crc16_shifts_xor crc16_shifts_low xor.assoc)
  also have "\<dots> = (crc16_shift ^^ (8 + 8)) (c XOR push_bit 8 (ucast a) XOR ucast b)"
    by (simp only: funpow_add comp_apply)
  finally show ?thesis by (simp add: crc16_byte)
qed

lemma crc16_loop_inject: "crc16_loop c xs = crc16_loop c' xs \<longleftrightarrow> c = c'"
  by (induction xs arbitrary: c c') (simp_all add: crc16_byte crc16_shifts_inject word_xor_right_cancel)

text \<open>The two bytes of a 16-bit value, high byte first, as the driver and the card send it.\<close>

definition be16_bytes :: "u16 \<Rightarrow> u8 list" where
  "be16_bytes w = [ucast (drop_bit 8 w), ucast w]"

lemma xor_be16: "push_bit 8 (ucast (ucast (drop_bit 8 w) :: u8)) XOR ucast (ucast w :: u8) = (w :: u16)"
  by (rule bit_word_eqI) (auto simp: bit_simps)

lemma crc16_loop_residue: "crc16_loop c (be16_bytes c) = 0"
  by (simp add: be16_bytes_def crc16_two_bytes xor_be16 xor.assoc del: crc16_loop.simps)

lemma be16_xor_inject:
  "push_bit 8 (ucast (a :: u8)) XOR ucast b = (push_bit 8 (ucast a') XOR ucast b' :: u16)
   \<longleftrightarrow> a = a' \<and> b = (b' :: u8)" (is "?l = ?r \<longleftrightarrow> _")
proof
  assume eq: "?l = ?r"
  have "a = ucast (drop_bit 8 ?l)" "b = ucast ?l"
    by (rule bit_word_eqI, auto simp: bit_simps dest: bit_imp_le_length)+
  moreover have "a' = ucast (drop_bit 8 ?r)" "b' = ucast ?r"
    by (rule bit_word_eqI, auto simp: bit_simps dest: bit_imp_le_length)+
  ultimately show "a = a' \<and> b = b'" using eq by simp
qed simp

lemma be16_value: "push_bit 8 (ucast (be16_bytes w ! 0)) OR ucast (be16_bytes w ! Suc 0) = (w :: u16)"
  by (rule bit_word_eqI) (auto simp: be16_bytes_def bit_simps)

text \<open>Two blocks that differ within two adjacent bytes differ in their CRC16.\<close>

lemma crc16_burst_differs:
  assumes "(a, b) \<noteq> (a', b')"
  shows "calc_crc16 (pre @ [a, b] @ post) \<noteq> calc_crc16 (pre @ [a', b'] @ post)"
proof
  let ?c = "crc16_loop 0 pre"
  assume "calc_crc16 (pre @ [a, b] @ post) = calc_crc16 (pre @ [a', b'] @ post)"
  then have "crc16_loop ?c [a, b] = crc16_loop ?c [a', b']"
    by (simp only: calc_crc16_def crc16_loop_append crc16_loop_inject)
  then have "?c XOR (push_bit 8 (ucast a) XOR ucast b) = ?c XOR (push_bit 8 (ucast a') XOR ucast b')"
    by (simp only: crc16_two_bytes crc16_shifts_inject xor.assoc)
  then have "push_bit 8 (ucast a) XOR ucast b = (push_bit 8 (ucast a') XOR ucast b' :: u16)"
    by (simp only: xor.commute [of ?c] word_xor_right_cancel)
  with assms show False by (simp add: be16_xor_inject)
qed

section \<open>The CRC16 as a remainder of polynomials over GF(2)\<close>

text \<open>
  A polynomial over GF(2) is the list of its coefficients, the highest first. \<open>gf2_rem g p\<close> is the remainder of
  \<open>p\<close> on division by the monic polynomial whose coefficients below the leading one are \<open>g\<close>, by long division:
  while the dividend is longer than a remainder, its leading coefficient is cancelled with the divisor.
\<close>

fun xor_prefix :: "bool list \<Rightarrow> bool list \<Rightarrow> bool list" where
  "xor_prefix [] ys = ys"
| "xor_prefix xs [] = []"
| "xor_prefix (x # xs) (y # ys) = (x \<noteq> y) # xor_prefix xs ys"

lemma length_xor_prefix [simp]: "length (xor_prefix xs ys) = length ys"
  by (induction xs ys rule: xor_prefix.induct) simp_all

fun gf2_rem :: "bool list \<Rightarrow> bool list \<Rightarrow> bool list" where
  "gf2_rem g [] = []"
| "gf2_rem g (b # bs) =
     (if length bs < length g then b # bs
      else gf2_rem g (if b then xor_prefix g bs else bs))"

text \<open>The bits of a word, the most significant first: what the code shifts out of a byte or a register.\<close>

definition msb_bits :: "'a::len word \<Rightarrow> bool list" where
  "msb_bits w = map (bit w) (rev [0..<LENGTH('a)])"

definition crc16_generator :: "bool list" where
  "crc16_generator = map (\<lambda>i. i \<in> {12, 5, 0}) (rev [0..<16])"

text \<open>The shift register on lists: one step consumes one bit of the message.\<close>

definition lfsr_step :: "bool list \<Rightarrow> bool list \<Rightarrow> bool \<Rightarrow> bool list" where
  "lfsr_step g r m = (if hd r \<noteq> m then xor_prefix g (tl r @ [False]) else tl r @ [False])"

lemma xor_prefix_zero: "length xs = n \<Longrightarrow> xor_prefix xs (replicate n False) = xs"
  by (induction xs arbitrary: n) auto

lemma xor_prefix_False: "n \<le> length ys \<Longrightarrow> xor_prefix (replicate n False) ys = ys"
proof (induction n arbitrary: ys)
  case (Suc n)
  then show ?case by (cases ys) simp_all
qed simp

lemma xor_prefix_snoc: "length xs < length ys \<Longrightarrow> xor_prefix (xs @ [False]) ys = xor_prefix xs ys"
proof (induction xs arbitrary: ys)
  case Nil
  then show ?case by (cases ys) simp_all
next
  case (Cons x xs)
  then show ?case by (cases ys) simp_all
qed

lemma xor_prefix_assoc: "length xs = length ys \<Longrightarrow> xor_prefix (xor_prefix xs ys) zs = xor_prefix xs (xor_prefix ys zs)"
proof (induction xs arbitrary: ys zs)
  case (Cons x xs)
  then show ?case by (cases ys; cases zs) auto
qed simp

lemma lfsr_step_length: "r \<noteq> [] \<Longrightarrow> length (lfsr_step g r m) = length r"
  by (simp add: lfsr_step_def)

text \<open>
  The register is the leading part of the dividend of the long division: after each step it holds the sum that the
  division has left on the next coefficients of the message.
\<close>

lemma lfsr_remainder:
  assumes "length r = length g" "g \<noteq> []"
  shows "gf2_rem g (xor_prefix r (ms @ replicate (length g) False)) = foldl (lfsr_step g) r ms"
  using assms(1)
proof (induction ms arbitrary: r)
  case Nil
  obtain b bs where "r = b # bs" using Nil assms(2) by (cases r) auto
  then show ?case using Nil by (simp add: xor_prefix_zero)
next
  case (Cons m ms)
  obtain b r' where r: "r = b # r'" using Cons.prems assms(2) by (cases r) auto
  let ?rest = "ms @ replicate (length g) False"
  have len: "length r' < length ?rest" "length (lfsr_step g r m) = length g"
    using Cons.prems r by (simp_all add: lfsr_step_def)
  have "xor_prefix (lfsr_step g r m) ?rest = (if b \<noteq> m then xor_prefix g (xor_prefix r' ?rest) else xor_prefix r' ?rest)"
  proof -
    have "xor_prefix (r' @ [False]) ?rest = xor_prefix r' ?rest" by (rule xor_prefix_snoc [OF len(1)])
    moreover have "xor_prefix (xor_prefix g (r' @ [False])) ?rest = xor_prefix g (xor_prefix (r' @ [False]) ?rest)"
      using Cons.prems r by (intro xor_prefix_assoc) simp
    ultimately show ?thesis by (simp add: lfsr_step_def r)
  qed
  with Cons.IH [OF len(2)] show ?case by (simp add: r)
qed

text \<open>One step of the driver's inner loop is one step of that register on the top bit of the byte.\<close>

lemma msb_bits_16: "msb_bits (w :: u16) =
  [bit w 15, bit w 14, bit w 13, bit w 12, bit w 11, bit w 10, bit w 9, bit w 8,
   bit w 7, bit w 6, bit w 5, bit w 4, bit w 3, bit w 2, bit w 1, bit w 0]"
  by (simp add: msb_bits_def upt_conv_Cons numeral_eq_Suc)

lemma crc16_step_lfsr: "msb_bits (crc16_step c d) = lfsr_step crc16_generator (msb_bits c) (bit d 15)"
proof -
  have g: "crc16_generator = [False, False, False, True, False, False, False, False,
    False, False, True, False, False, False, False, True]"
    by (simp add: crc16_generator_def upt_conv_Cons numeral_eq_Suc)
  have top: "(c XOR d) AND 0x8000 \<noteq> 0 \<longleftrightarrow> bit c 15 \<noteq> bit d 15"
    by (simp add: and_0x8000 bit_xor_iff)
  show ?thesis
    unfolding crc16_step_def top lfsr_step_def g msb_bits_16
    by (simp add: bit_simps)
qed

lemma crc16_bits_lfsr:
  "msb_bits (crc16_bits n c d) = foldl (lfsr_step crc16_generator) (msb_bits c) (map (\<lambda>i. bit (push_bit i d) 15) [0..<n])"
proof (induction n arbitrary: c d)
  case (Suc n)
  have "map (\<lambda>i. bit (push_bit i d) 15) [0..<Suc n] = bit d 15 # map (\<lambda>i. bit (push_bit i (push_bit 1 d)) 15) [0..<n]"
    by (simp add: upt_conv_Cons del: upt_Suc flip: map_Suc_upt)
  then show ?case by (simp only: crc16_bits.simps Suc.IH crc16_step_lfsr foldl.simps)
qed simp

lemma message_bits: "map (\<lambda>i. bit (push_bit i (push_bit 8 (ucast d :: u16))) 15) [0..<8] = msb_bits (d :: u8)"
  by (simp add: msb_bits_def upt_conv_Cons numeral_eq_Suc bit_simps)

lemma crc16_byte_lfsr:
  "msb_bits (crc16_bits 8 c (push_bit 8 (ucast (d :: u8)))) = foldl (lfsr_step crc16_generator) (msb_bits c) (msb_bits d)"
  by (simp only: crc16_bits_lfsr message_bits)

lemma crc16_loop_lfsr:
  "msb_bits (crc16_loop c data) = foldl (lfsr_step crc16_generator) (msb_bits c) (concat (map msb_bits data))"
  by (induction data arbitrary: c) (simp_all add: crc16_byte_lfsr)

lemma calc_crc16_remainder:
  "msb_bits (calc_crc16 data) = gf2_rem crc16_generator (concat (map msb_bits data) @ replicate 16 False)"
proof -
  let ?m = "concat (map msb_bits data)"
  have len: "length crc16_generator = 16" "crc16_generator \<noteq> []" by (simp_all add: crc16_generator_def)
  have 0: "msb_bits (0 :: u16) = replicate 16 False" by (simp add: msb_bits_16 numeral_eq_Suc)
  have "xor_prefix (replicate 16 False) (?m @ replicate 16 False) = ?m @ replicate 16 False" 
    by (rule xor_prefix_False) simp
  with lfsr_remainder [of "replicate 16 False" crc16_generator ?m] show ?thesis
    by (simp add: calc_crc16_def crc16_loop_lfsr 0 len)
qed

lemma update_crc16_chunks: "foldl update_crc16 c chunks = crc16_loop c (concat chunks)"
  by (induction chunks arbitrary: c) (simp_all add: update_crc16_eq crc16_loop_append)
section \<open>Properties\<close>

text \<open>
  The last byte of a command frame, which the driver computes as \<open>1u | (calc_crc7(cmd, 5) << 1)\<close>,
  is the value the simulated card computes for the same bytes with \<open>update_crc7(0, cmd, 5)\<close>: the two
  implementations of the CRC7 agree on every message.
\<close>
theorem crc7_driver_card_agree: "1 OR push_bit 1 (calc_crc7 data) = update_crc7 0 data"
  unfolding calc_crc7_def update_crc7_def card_crc7_bytes_eq
  by (rule drop_push_or_1) (rule even_crc7_loop, simp)

text \<open>
  C34. The CRC16 of the card and that of the driver are the same function, and it is the one the SD protocol
  prescribes: however the bytes of a block are cut into calls of the card's running \<open>update_crc16\<close>
  (\<open>spi_microsd::readByte\<close> and \<open>writeByte\<close> pass them one at a time), the register ends with the value the
  driver's \<open>calc_crc16\<close> computes over the whole block, and the bits of that value are the remainder of the
  block, read as a polynomial and multiplied by x^16, on division by x^16 + x^12 + x^5 + 1.
\<close>
theorem crc16_is_remainder:
  "foldl update_crc16 0 chunks = calc_crc16 (concat chunks) \<and>
   msb_bits (calc_crc16 (concat chunks)) =
     gf2_rem crc16_generator (concat (map msb_bits (concat chunks)) @ replicate 16 False)"
proof
  show "foldl update_crc16 0 chunks = calc_crc16 (concat chunks)"
    by (simp add: update_crc16_chunks calc_crc16_def)
qed (rule calc_crc16_remainder)

text \<open>
  A data block followed by its CRC16, high byte first, has CRC16 zero: the residue property
  that makes the checksum of a received packet checkable in one pass.
\<close>
theorem crc16_residue: "calc_crc16 (data @ be16_bytes (calc_crc16 data)) = 0"
  by (simp add: calc_crc16_def crc16_loop_append crc16_loop_residue)

text \<open>
  C35. The CRC16 detects every error confined to two adjacent bytes of a block, wherever it is:
  two blocks that differ there and nowhere else never have the same CRC16.
\<close>
theorem crc16_detects_burst:
  assumes "(a, b) \<noteq> (a', b')"
  shows "calc_crc16 (pre @ [a, b] @ post) \<noteq> calc_crc16 (pre @ [a', b'] @ post)"
  by (rule crc16_burst_differs [OF assms])

text \<open>A block of three bytes with its last two bytes corrupted.\<close>
theorem crc16_detects_burst_witness:
  "calc_crc16 [0x31, 0x32, 0x33] \<noteq> calc_crc16 [0x31, 0x00, 0xff]"
  using crc16_detects_burst [of "0x32" "0x33" "0x00" "0xff" "[0x31]" "[]"] by simp

end
