(* ===== verification/Spi_Device.thy ===== *)
theory Spi_Device
  imports Prelude
begin

unbundle bit_operations_syntax

text \<open>
  The base class of the simulated SPI devices, \<open>spidevicedpi\<close> (\<open>dv/dpi/spidevicedpi\<close>): the input
  and output shift registers behind the DPI functions \<open>sampleEdge\<close>, \<open>launchEdge\<close> and \<open>csEdge\<close>.
  A derived class is an extension of the record, its overriding methods are arguments of the
  operations that call them. The second part clocks whole bytes through a device the way the
  SystemVerilog wrapper does and shows, for every device that fulfils the contract
  \<open>spi_target\<close>, that the bit level implements a byte-level machine.
\<close>

section \<open>The object and its methods\<close>

record spidevicedpi =
  inBits :: u8
  inByte :: u8
  outBits :: u8
  outByte :: u8
  oobOut :: u32

definition spidevicedpi_reset :: "'a spidevicedpi_scheme \<Rightarrow> 'a spidevicedpi_scheme" where
  "spidevicedpi_reset d = d\<lparr>inByte := 0, inBits := 0, outBits := 0, outByte := 0, oobOut := 0\<rparr>"

text \<open>The base class sinks all write traffic, sources no read traffic and ignores CS changes.
  \<open>readByte\<close> gets references to the members \<open>outByte\<close> and \<open>oobOut\<close>, so it updates those fields.\<close>

definition spidevicedpi_writeByte :: "u8 \<Rightarrow> u32 \<Rightarrow> 'a spidevicedpi_scheme \<Rightarrow> 'a spidevicedpi_scheme" where
  "spidevicedpi_writeByte b oobIn d = d"

definition spidevicedpi_readByte :: "u32 \<Rightarrow> 'a spidevicedpi_scheme \<Rightarrow> bool \<times> 'a spidevicedpi_scheme" where
  "spidevicedpi_readByte oobIn d = (False, d\<lparr>outByte := 0, oobOut := 0\<rparr>)"

definition spidevicedpi_csChanged :: "bool \<Rightarrow> u32 \<Rightarrow> 'a spidevicedpi_scheme \<Rightarrow> 'a spidevicedpi_scheme" where
  "spidevicedpi_csChanged csAsserted oobIn d = d"

definition sampleEdge ::
  "(u8 \<Rightarrow> u32 \<Rightarrow> 'a spidevicedpi_scheme \<Rightarrow> 'a spidevicedpi_scheme) \<Rightarrow>
   u32 \<Rightarrow> u32 \<Rightarrow> u32 \<Rightarrow> 'a spidevicedpi_scheme \<Rightarrow> 'a spidevicedpi_scheme" where
  "sampleEdge writeByte cs copi oobIn d =
    (if cs AND 1 \<noteq> 0 then d
     else let
       d = d\<lparr>inByte := push_bit 1 (inByte d) OR ucast (copi AND 1)\<rparr>;
       d = d\<lparr>inBits := inBits d + 1\<rparr>
     in if inBits d \<ge> 8 then (writeByte (inByte d) oobIn d)\<lparr>inBits := 0\<rparr> else d)"

definition launchEdge ::
  "(u32 \<Rightarrow> 'a spidevicedpi_scheme \<Rightarrow> bool \<times> 'a spidevicedpi_scheme) \<Rightarrow>
   u32 \<Rightarrow> u32 \<Rightarrow> 'a spidevicedpi_scheme \<Rightarrow> u32 \<times> 'a spidevicedpi_scheme" where
  "launchEdge readByte cs oobIn d =
    (if cs AND 1 \<noteq> 0 then (push_bit 1 (oobOut d) OR 1, d\<lparr>outBits := 0\<rparr>)
     else let
       d = (if outBits d = 0 then
              (case readByte oobIn d of (bReading, d') \<Rightarrow> d'\<lparr>outBits := (if bReading then 8 else 1)\<rparr>)
            else d);
       cipo = ucast (drop_bit 7 (outByte d));
       d = d\<lparr>outByte := push_bit 1 (outByte d), outBits := outBits d - 1\<rparr>
     in (push_bit 1 (oobOut d) OR cipo, d))"

definition csEdge ::
  "(bool \<Rightarrow> u32 \<Rightarrow> 'a spidevicedpi_scheme \<Rightarrow> 'a spidevicedpi_scheme) \<Rightarrow>
   u32 \<Rightarrow> u32 \<Rightarrow> 'a spidevicedpi_scheme \<Rightarrow> 'a spidevicedpi_scheme" where
  "csEdge csChanged cs oobIn d = csChanged (cs AND 1 = 0) oobIn d"

section \<open>Clocking a device\<close>

text \<open>
  One SCK cycle as the wrapper \<open>spidevicedpi.sv\<close> makes it, with the lines \<open>cs\<close>: the rising
  edge samples COPI into the device while the controller samples CIPO, the low bit of the output
  register \<open>out_q\<close>; the falling edge launches the next output bit into \<open>out_q\<close>.
\<close>

definition sck_cycle ::
  "(u32 \<Rightarrow> 'a spidevicedpi_scheme \<Rightarrow> bool \<times> 'a spidevicedpi_scheme) \<Rightarrow>
   (u8 \<Rightarrow> u32 \<Rightarrow> 'a spidevicedpi_scheme \<Rightarrow> 'a spidevicedpi_scheme) \<Rightarrow> u32 \<Rightarrow> u32 \<Rightarrow>
   bool \<Rightarrow> 'a spidevicedpi_scheme \<times> u32 \<Rightarrow> bool \<times> 'a spidevicedpi_scheme \<times> u32" where
  "sck_cycle readByte writeByte cs oobIn copi bus =
    (case bus of (d, out_q) \<Rightarrow>
       (case launchEdge readByte cs oobIn (sampleEdge writeByte cs (of_bool copi) oobIn d) of
          (out_q', d') \<Rightarrow> (bit out_q 0, d', out_q')))"

fun sck_cycles ::
  "(u32 \<Rightarrow> 'a spidevicedpi_scheme \<Rightarrow> bool \<times> 'a spidevicedpi_scheme) \<Rightarrow>
   (u8 \<Rightarrow> u32 \<Rightarrow> 'a spidevicedpi_scheme \<Rightarrow> 'a spidevicedpi_scheme) \<Rightarrow> u32 \<Rightarrow> u32 \<Rightarrow>
   bool list \<Rightarrow> 'a spidevicedpi_scheme \<times> u32 \<Rightarrow> bool list \<times> 'a spidevicedpi_scheme \<times> u32" where
  "sck_cycles readByte writeByte cs oobIn [] bus = ([], bus)"
| "sck_cycles readByte writeByte cs oobIn (b # bs) bus =
    (case sck_cycle readByte writeByte cs oobIn b bus of
       (x, bus') \<Rightarrow> (case sck_cycles readByte writeByte cs oobIn bs bus' of (xs, bus'') \<Rightarrow> (x # xs, bus'')))"

text \<open>A byte is eight cycles, most significant bit first in both directions.\<close>

definition xfer_byte ::
  "(u32 \<Rightarrow> 'a spidevicedpi_scheme \<Rightarrow> bool \<times> 'a spidevicedpi_scheme) \<Rightarrow>
   (u8 \<Rightarrow> u32 \<Rightarrow> 'a spidevicedpi_scheme \<Rightarrow> 'a spidevicedpi_scheme) \<Rightarrow> u32 \<Rightarrow> u32 \<Rightarrow>
   u8 \<Rightarrow> 'a spidevicedpi_scheme \<times> u32 \<Rightarrow> u8 \<times> 'a spidevicedpi_scheme \<times> u32" where
  "xfer_byte readByte writeByte cs oobIn b bus =
    (case sck_cycles readByte writeByte cs oobIn (msb_first b) bus of
       (xs, bus') \<Rightarrow> (foldl shift_in 0 xs, bus'))"

section \<open>Single edges\<close>

lemma shift_in_copi: "push_bit 1 w OR ucast (of_bool b AND (1 :: u32)) = shift_in w b"
  by (simp add: shift_in_def)

lemma sampleEdge_middle:
  "unat (inBits d) < 7 \<Longrightarrow> sampleEdge wr 0 (of_bool b) oob d =
     d\<lparr>inByte := shift_in (inByte d) b, inBits := inBits d + 1\<rparr>"
  by (auto simp: sampleEdge_def Let_def shift_in_def word_le_nat_alt unat_word_ariths)

lemma sampleEdge_last:
  "inBits d = 7 \<Longrightarrow> sampleEdge wr 0 (of_bool b) oob d =
     (wr (shift_in (inByte d) b) oob (d\<lparr>inByte := shift_in (inByte d) b, inBits := 8\<rparr>))\<lparr>inBits := 0\<rparr>"
  by (auto simp: sampleEdge_def Let_def shift_in_def)

lemma launchEdge_shift:
  "outBits d \<noteq> 0 \<Longrightarrow> launchEdge rd 0 oob d =
     (push_bit 1 (oobOut d) OR ucast (drop_bit 7 (outByte d)),
      d\<lparr>outByte := push_bit 1 (outByte d), outBits := outBits d - 1\<rparr>)"
  by (simp add: launchEdge_def Let_def)

lemma launchEdge_poll:
  "outBits d = 0 \<Longrightarrow> rd oob d = (r, d') \<Longrightarrow> launchEdge rd 0 oob d =
     (push_bit 1 (oobOut d') OR ucast (drop_bit 7 (outByte d')),
      d'\<lparr>outByte := push_bit 1 (outByte d'), outBits := (if r then 7 else 0)\<rparr>)"
  by (simp add: launchEdge_def Let_def)

lemma bit_0_cipo: "bit (push_bit (Suc 0) (oob :: u32) OR ucast (drop_bit 7 (w :: u8))) 0 = bit w 7"
  by (simp add: bit_simps)

lemma sck_cycles_append:
  "sck_cycles rd wr 0 oob (xs @ ys) bus =
    (case sck_cycles rd wr 0 oob xs bus of (us, bus') \<Rightarrow>
       (case sck_cycles rd wr 0 oob ys bus' of (vs, bus'') \<Rightarrow> (us @ vs, bus'')))"
  by (induction xs arbitrary: bus) (auto split: prod.splits)

text \<open>Only the lowest select line counts.\<close>

lemma launchEdge_cs: "launchEdge rd cs oob d = launchEdge rd (cs AND 1) oob d"
  by (simp add: launchEdge_def)

lemma sampleEdge_cs: "sampleEdge wr cs copi oob d = sampleEdge wr (cs AND 1) copi oob d"
  by (simp add: sampleEdge_def)

lemma sck_cycles_cs: "sck_cycles rd wr cs oob xs bs = sck_cycles rd wr (cs AND 1) oob xs bs"
proof (induction xs arbitrary: bs)
  case (Cons x xs)
  have "sck_cycle rd wr cs oob x bs = sck_cycle rd wr (cs AND 1) oob x bs"
    by (simp add: sck_cycle_def sampleEdge_cs [of wr cs] launchEdge_cs [of rd cs])
  with Cons show ?case by simp
qed simp

section \<open>The byte-level machine\<close>

text \<open>
  The state of a device apart from its shift registers is the object with those registers
  cleared, \<open>spidevicedpi_reset d\<close>. At this level a byte on the bus is one \<open>writeByte\<close> followed by one
  \<open>readByte\<close>, whose byte (if there is one) is what the next byte on the bus returns.
\<close>

definition dev_write ::
  "(u8 \<Rightarrow> u32 \<Rightarrow> 'a spidevicedpi_scheme \<Rightarrow> 'a spidevicedpi_scheme) \<Rightarrow> u32 \<Rightarrow> u8 \<Rightarrow>
   'a spidevicedpi_scheme \<Rightarrow> 'a spidevicedpi_scheme" where
  "dev_write wr oob b c = spidevicedpi_reset (wr b oob c)"

definition dev_read ::
  "(u32 \<Rightarrow> 'a spidevicedpi_scheme \<Rightarrow> bool \<times> 'a spidevicedpi_scheme) \<Rightarrow> u32 \<Rightarrow>
   'a spidevicedpi_scheme \<Rightarrow> 'a spidevicedpi_scheme \<times> u8 option" where
  "dev_read rd oob c =
    (case rd oob c of (r, c') \<Rightarrow> (spidevicedpi_reset c', if r then Some (outByte c') else None))"

definition byte_step ::
  "(u32 \<Rightarrow> 'a spidevicedpi_scheme \<Rightarrow> bool \<times> 'a spidevicedpi_scheme) \<Rightarrow>
   (u8 \<Rightarrow> u32 \<Rightarrow> 'a spidevicedpi_scheme \<Rightarrow> 'a spidevicedpi_scheme) \<Rightarrow> u32 \<Rightarrow> u8 \<Rightarrow>
   'a spidevicedpi_scheme \<Rightarrow> 'a spidevicedpi_scheme \<times> u8 option" where
  "byte_step rd wr oob b c = dev_read rd oob (dev_write wr oob b c)"

text \<open>
  How the bus represents a byte-level state: with a byte pending, its first bit is on the line and the
  other seven are in the output register; with none, the device has nothing to read and polling
  it changes nothing (the output register may still hold bits of an abandoned byte).
\<close>

fun bus_rel ::
  "(u32 \<Rightarrow> 'a spidevicedpi_scheme \<Rightarrow> bool \<times> 'a spidevicedpi_scheme) \<Rightarrow> u32 \<Rightarrow>
   'a spidevicedpi_scheme \<times> u32 \<Rightarrow> 'a spidevicedpi_scheme \<times> u8 option \<Rightarrow> bool" where
  "bus_rel rd oob (d, q) (c, Some x) \<longleftrightarrow>
     spidevicedpi_reset d = c \<and> inBits d = 0 \<and> outBits d = 7 \<and> outByte d = push_bit 1 x \<and> bit q 0 = bit x 7"
| "bus_rel rd oob (d, q) (c, None) \<longleftrightarrow>
     spidevicedpi_reset d = c \<and> inBits d = 0 \<and> unat (outBits d) \<le> 7 \<and> dev_read rd oob c = (c, None)"

text \<open>The bits still to come on CIPO: the one on the line, then those in the output register.\<close>

definition pending_bits :: "'a spidevicedpi_scheme \<Rightarrow> u32 \<Rightarrow> bool list" where
  "pending_bits d q = bit q 0 # map (\<lambda>i. bit (outByte d) (7 - i)) [0..<unat (outBits d)]"

lemma pending_bits_shift:
  assumes "outBits d = of_nat (Suc k)" "k < 8" "outByte d' = push_bit 1 (outByte d)"
    "outBits d' = of_nat k" "bit q' 0 = bit (outByte d) 7"
  shows "pending_bits d' q' = tl (pending_bits d q)"
proof (rule nth_equalityI)
  have u: "unat (outBits d) = Suc k" "unat (outBits d') = k"
    using assms by (simp_all add: unat_of_nat del: of_nat_Suc)
  then show "length (pending_bits d' q') = length (tl (pending_bits d q))"
    by (simp add: pending_bits_def)
  fix i
  assume "i < length (pending_bits d' q')"
  with u have i: "i \<le> k" by (simp add: pending_bits_def)
  show "pending_bits d' q' ! i = tl (pending_bits d q) ! i"
  proof (cases i)
    case 0
    with u assms show ?thesis by (simp add: pending_bits_def nth_tl del: upt_Suc)
  next
    case (Suc j)
    with i \<open>k < 8\<close> have "7 - j \<ge> 1" "7 - j < 8" by auto
    then have "bit (push_bit 1 (outByte d)) (7 - j) = bit (outByte d) (7 - i)"
      using Suc by (simp add: bit_push_bit_iff)
    with Suc i u assms show ?thesis by (simp add: pending_bits_def nth_tl del: upt_Suc)
  qed
qed

text \<open>Clocking a device that is not selected only abandons the byte it was sending.\<close>

lemma sck_cycles_deselected:
  assumes "cs AND 1 \<noteq> 0" "bs \<noteq> []"
  shows "snd (sck_cycles rd wr cs oob bs (d, q)) = (d\<lparr>outBits := 0\<rparr>, push_bit 1 (oobOut d) OR 1)"
  using assms(2)
proof (induction bs arbitrary: d q)
  case (Cons b bs)
  then show ?case
    using assms(1) by (cases bs) (simp_all add: sck_cycle_def sampleEdge_def launchEdge_def split_beta)
qed simp

lemma xfer_byte_deselected:
  "cs AND 1 \<noteq> 0 \<Longrightarrow>
   snd (xfer_byte rd wr cs oob b (d, q)) = (d\<lparr>outBits := 0\<rparr>, push_bit 1 (oobOut d) OR 1)"
  using sck_cycles_deselected [of cs "msb_first b" rd wr oob d q]
  by (simp add: xfer_byte_def split_beta flip: length_0_conv)

text \<open>What a byte in progress leaves of the device: the shift registers move, the rest stays.\<close>

definition mid_byte :: "'a spidevicedpi_scheme \<Rightarrow> bool list \<Rightarrow> 'a spidevicedpi_scheme \<Rightarrow> bool" where
  "mid_byte d bs d' \<longleftrightarrow> spidevicedpi_reset d' = spidevicedpi_reset d \<and>
     inBits d' = inBits d + of_nat (length bs) \<and> inByte d' = foldl shift_in (inByte d) bs"

lemma spidevicedpi_reset_simps [simp]:
  "spidevicedpi_reset (d\<lparr>inBits := a\<rparr>) = spidevicedpi_reset d"
  "spidevicedpi_reset (d\<lparr>inByte := b\<rparr>) = spidevicedpi_reset d"
  "spidevicedpi_reset (d\<lparr>outBits := a\<rparr>) = spidevicedpi_reset d"
  "spidevicedpi_reset (d\<lparr>outByte := b\<rparr>) = spidevicedpi_reset d"
  "spidevicedpi_reset (d\<lparr>oobOut := w\<rparr>) = spidevicedpi_reset d"
  "spidevicedpi_reset (spidevicedpi_reset d) = spidevicedpi_reset d"
  by (simp_all add: spidevicedpi_reset_def)

lemma sck_cycle_shift:
  assumes "unat (inBits d) < 7" "outBits d \<noteq> 0"
  shows "sck_cycle rd wr 0 oob b (d, q) =
    (bit q 0,
     d\<lparr>inByte := shift_in (inByte d) b, inBits := inBits d + 1,
       outByte := push_bit 1 (outByte d), outBits := outBits d - 1\<rparr>,
     push_bit 1 (oobOut d) OR ucast (drop_bit 7 (outByte d)))"
  using assms by (simp add: sck_cycle_def sampleEdge_middle launchEdge_shift)

lemma sck_cycles_pending:
  assumes "unat (inBits d) + length bs \<le> 7" "outBits d = of_nat k" "length bs \<le> k" "k \<le> 8"
  shows "\<exists>d' q'. sck_cycles rd wr 0 oob bs (d, q) = (take (length bs) (pending_bits d q), d', q') \<and>
     mid_byte d bs d' \<and> outBits d' = of_nat (k - length bs) \<and>
     pending_bits d' q' = drop (length bs) (pending_bits d q)"
  using assms
proof (induction bs arbitrary: d q k)
  case Nil
  then show ?case by (simp add: mid_byte_def)
next
  case (Cons b bs)
  define d1 where "d1 = d\<lparr>inByte := shift_in (inByte d) b, inBits := inBits d + 1,
       outByte := push_bit 1 (outByte d), outBits := outBits d - 1\<rparr>"
  define q1 where "q1 = push_bit 1 (oobOut d) OR (ucast (drop_bit 7 (outByte d)) :: u32)"
  from Cons.prems obtain j where k: "k = Suc j" by (cases k) auto
  with Cons.prems have nz: "outBits d \<noteq> 0"
    by (simp add: word_of_nat_eq_0_iff nat_dvd_not_less del: of_nat_Suc)
  have cyc: "sck_cycle rd wr 0 oob b (d, q) = (bit q 0, d1, q1)"
    using Cons.prems nz by (simp add: sck_cycle_shift d1_def q1_def)
  have j: "outBits d1 = of_nat j" using Cons.prems k by (simp add: d1_def)
  have pb: "pending_bits d1 q1 = tl (pending_bits d q)"
    using Cons.prems k j
    by (intro pending_bits_shift [where k = j])
       (simp_all add: d1_def q1_def bit_0_cipo del: of_nat_Suc)
  have in1: "unat (inBits d1) + length bs \<le> 7"
    using Cons.prems by (simp add: d1_def unat_word_ariths)
  have "length bs \<le> j" "j \<le> 8" using Cons.prems k by auto
  from Cons.IH [OF in1 j this, of q1] obtain d' q' where
    IH: "sck_cycles rd wr 0 oob bs (d1, q1) = (take (length bs) (pending_bits d1 q1), d', q')"
    "mid_byte d1 bs d'" "outBits d' = of_nat (j - length bs)"
    "pending_bits d' q' = drop (length bs) (pending_bits d1 q1)" by blast
  have "sck_cycles rd wr 0 oob (b # bs) (d, q) = (take (length (b # bs)) (pending_bits d q), d', q')"
    by (simp add: cyc IH pb) (simp add: pending_bits_def)
  moreover have "mid_byte d (b # bs) d'"
    using IH(2) by (simp add: mid_byte_def d1_def add.assoc)
  ultimately show ?case using IH(3,4) k pb by (simp add: drop_Suc)
qed

lemma sck_cycle_last:
  assumes "inBits d = 7" "outBits (wr (shift_in (inByte d) b) oob (d\<lparr>inByte := shift_in (inByte d) b, inBits := 8\<rparr>)) = 0"
    "rd oob ((wr (shift_in (inByte d) b) oob (d\<lparr>inByte := shift_in (inByte d) b, inBits := 8\<rparr>))\<lparr>inBits := 0\<rparr>) = (r, d')"
  shows "sck_cycle rd wr 0 oob b (d, q) =
    (bit q 0, d'\<lparr>outByte := push_bit 1 (outByte d'), outBits := (if r then 7 else 0)\<rparr>,
     push_bit 1 (oobOut d') OR ucast (drop_bit 7 (outByte d')))"
  using assms by (simp add: sck_cycle_def sampleEdge_last launchEdge_poll [where r = r and d' = d'])

lemma msb_first_split: "msb_first b = butlast (msb_first b) @ [last (msb_first b)]"
  by (simp add: msb_first_def)

lemma length_butlast_msb_first [simp]: "length (butlast (msb_first b)) = 7"
  by simp

lemma foldl_shift_in_split: "shift_in (foldl shift_in w (butlast (msb_first b))) (last (msb_first b)) = b"
  using foldl_shift_in_msb_first [of w b] by (subst (asm) msb_first_split) simp

section \<open>The contract of a device and the refinement\<close>

text \<open>
  What the shift registers rely on: the methods look at and change the rest of the object only, up to clearing
  the registers as a reset does, and once a \<open>readByte\<close> had nothing to return, polling again changes nothing. In the states
  \<open>drives\<close>, a \<open>readByte\<close> that returns true has set \<open>outByte\<close>.
\<close>

locale spi_target =
  fixes rd :: "u32 \<Rightarrow> 'a spidevicedpi_scheme \<Rightarrow> bool \<times> 'a spidevicedpi_scheme"
    and wr :: "u8 \<Rightarrow> u32 \<Rightarrow> 'a spidevicedpi_scheme \<Rightarrow> 'a spidevicedpi_scheme"
    and drives :: "'a spidevicedpi_scheme \<Rightarrow> bool"
  assumes wr_core: "spidevicedpi_reset (wr b oob d) = spidevicedpi_reset (wr b oob (spidevicedpi_reset d))"
    and wr_outBits: "outBits d = 0 \<Longrightarrow> outBits (wr b oob d) = 0"
    and rd_answer: "fst (rd oob d) = fst (rd oob (spidevicedpi_reset d))"
    and rd_rest: "spidevicedpi_reset (snd (rd oob d)) = spidevicedpi_reset (snd (rd oob (spidevicedpi_reset d)))"
    and rd_outByte: "drives (spidevicedpi_reset d) \<Longrightarrow> fst (rd oob d) \<Longrightarrow> outByte (snd (rd oob d)) = outByte (snd (rd oob (spidevicedpi_reset d)))"
    and rd_inBits: "inBits (snd (rd oob d)) = inBits d" "inByte (snd (rd oob d)) = inByte d"
    and rd_nothing: "\<not> fst (rd oob d) \<Longrightarrow>
      dev_read rd oob (spidevicedpi_reset (snd (rd oob d))) = (spidevicedpi_reset (snd (rd oob d)), None)"
begin

lemma rd_core:
  assumes "rd oob (spidevicedpi_reset d) = (r, c)"
  shows "\<exists>d'. rd oob d = (r, d') \<and> spidevicedpi_reset d' = spidevicedpi_reset c \<and>
           (r \<longrightarrow> drives (spidevicedpi_reset d) \<longrightarrow> outByte d' = outByte c) \<and> inBits d' = inBits d \<and> inByte d' = inByte d \<and>
           (\<not> r \<longrightarrow> dev_read rd oob (spidevicedpi_reset d') = (spidevicedpi_reset d', None))"
  using assms rd_answer [of oob d] rd_rest [of oob d] rd_outByte [where oob = oob and d = d] rd_inBits [of oob d]
    rd_nothing [of oob d]
  by (cases "rd oob d") simp

lemma dev_read_none_poll:
  assumes "dev_read rd oob (spidevicedpi_reset d) = (spidevicedpi_reset d, None)"
  obtains d' where "rd oob d = (False, d')" "spidevicedpi_reset d' = spidevicedpi_reset d"
    "inBits d' = inBits d" "inByte d' = inByte d"
proof -
  obtain r c where rc: "rd oob (spidevicedpi_reset d) = (r, c)" by fastforce
  with assms have "\<not> r" "spidevicedpi_reset c = spidevicedpi_reset d"
    by (auto simp: dev_read_def split: if_splits)
  with rd_core [OF rc] that show thesis by auto
qed

lemma sck_cycle_poll:
  assumes "unat (inBits d) < 7" "unat (outBits d) \<le> 7" "dev_read rd oob (spidevicedpi_reset d) = (spidevicedpi_reset d, None)"
  shows "\<exists>d' q'. sck_cycle rd wr 0 oob b (d, q) = (bit q 0, d', q') \<and> mid_byte d [b] d' \<and>
     unat (outBits d') = unat (outBits d) - 1"
proof (cases "outBits d = 0")
  case True
  define d1 where "d1 = d\<lparr>inByte := shift_in (inByte d) b, inBits := inBits d + 1\<rparr>"
  have "dev_read rd oob (spidevicedpi_reset d1) = (spidevicedpi_reset d1, None)" using assms(3) by (simp add: d1_def)
  then obtain d2 where d2: "rd oob d1 = (False, d2)" "spidevicedpi_reset d2 = spidevicedpi_reset d1"
    "inBits d2 = inBits d1" "inByte d2 = inByte d1" by (rule dev_read_none_poll)
  have s: "sampleEdge wr 0 (of_bool b) oob d = d1"
    using assms(1) by (simp add: sampleEdge_middle d1_def)
  have "outBits d1 = 0" using True by (simp add: d1_def)
  then have "sck_cycle rd wr 0 oob b (d, q) = (bit q 0, d2\<lparr>outByte := push_bit 1 (outByte d2), outBits := 0\<rparr>,
      push_bit 1 (oobOut d2) OR ucast (drop_bit 7 (outByte d2)))"
    by (simp add: sck_cycle_def s launchEdge_poll [where rd = rd and oob = oob and d = d1, OF _ d2(1)])
  moreover have "mid_byte d [b] (d2\<lparr>outByte := push_bit 1 (outByte d2), outBits := 0\<rparr>)"
    using d2 by (simp add: mid_byte_def d1_def)
  ultimately show ?thesis using True by simp
next
  case False
  then have "unat (outBits d - 1) = unat (outBits d) - 1"
    by (simp add: unat_minus_one)
  with assms False show ?thesis by (simp add: sck_cycle_shift mid_byte_def)
qed

lemma sck_cycles_poll:
  assumes "unat (inBits d) + length bs \<le> 7" "unat (outBits d) \<le> 7"
    "dev_read rd oob (spidevicedpi_reset d) = (spidevicedpi_reset d, None)"
  shows "\<exists>xs d' q'. sck_cycles rd wr 0 oob bs (d, q) = (xs, d', q') \<and> mid_byte d bs d' \<and>
     unat (outBits d') = unat (outBits d) - length bs"
  using assms
proof (induction bs arbitrary: d q)
  case Nil
  then show ?case by (simp add: mid_byte_def)
next
  case (Cons b bs)
  then obtain d1 q1 where d1: "sck_cycle rd wr 0 oob b (d, q) = (bit q 0, d1, q1)" "mid_byte d [b] d1"
      "unat (outBits d1) = unat (outBits d) - 1"
    using sck_cycle_poll [of d oob b q] by auto
  have "unat (inBits d1) + length bs \<le> 7"
    using d1(2) Cons.prems by (simp add: mid_byte_def unat_word_ariths)
  moreover have "dev_read rd oob (spidevicedpi_reset d1) = (spidevicedpi_reset d1, None)"
    using d1(2) Cons.prems by (simp add: mid_byte_def)
  moreover have "unat (outBits d1) \<le> 7" using d1(3) Cons.prems by simp
  ultimately obtain xs d' q' where d': "sck_cycles rd wr 0 oob bs (d1, q1) = (xs, d', q')"
      "mid_byte d1 bs d'" "unat (outBits d') = unat (outBits d1) - length bs"
    using Cons.IH [of d1 q1] by blast
  have "mid_byte d (b # bs) d'"
    using d1(2) d'(2) by (simp add: mid_byte_def add.assoc)
  with d1 d' show ?case by auto
qed

text \<open>The eighth cycle: \<open>writeByte\<close> with the whole byte, then a \<open>readByte\<close>.\<close>

lemma last_cycle:
  assumes "inBits d = 7" "outBits d = 0" "b = foldl shift_in (inByte d) [x]" "c = spidevicedpi_reset d"
    "drives (dev_write wr oob b c)"
  shows "\<exists>d' q'. sck_cycle rd wr 0 oob x (d, q) = (bit q 0, d', q') \<and> bus_rel rd oob (d', q') (byte_step rd wr oob b c)"
proof -
  define d1 where "d1 = d\<lparr>inByte := b, inBits := 8\<rparr>"
  define d2 where "d2 = (wr b oob d1)\<lparr>inBits := 0\<rparr>"
  have c1: "spidevicedpi_reset d2 = dev_write wr oob b c"
    using wr_core [of b oob d1] by (simp add: d2_def d1_def dev_write_def assms(4))
  have out0: "outBits (wr b oob d1) = 0"
    using assms(2) by (intro wr_outBits) (simp add: d1_def)
  obtain r cr where rc: "rd oob (spidevicedpi_reset d2) = (r, cr)" by fastforce
  from rd_core [OF rc] obtain d3 where d3: "rd oob d2 = (r, d3)"
      "spidevicedpi_reset d3 = spidevicedpi_reset cr" "r \<longrightarrow> drives (spidevicedpi_reset d2) \<longrightarrow> outByte d3 = outByte cr"
      "inBits d3 = inBits d2" "\<not> r \<longrightarrow> dev_read rd oob (spidevicedpi_reset d3) = (spidevicedpi_reset d3, None)" by blast
  define d4 where "d4 = d3\<lparr>outByte := push_bit 1 (outByte d3), outBits := if r then 7 else 0\<rparr>"
  define q4 where "q4 = push_bit 1 (oobOut d3) OR (ucast (drop_bit 7 (outByte d3)) :: u32)"
  have "sck_cycle rd wr 0 oob x (d, q) = (bit q 0, d4, q4)"
    unfolding d4_def q4_def
    by (rule sck_cycle_last) (use assms out0 d3(1) in \<open>simp_all add: d1_def d2_def\<close>)
  moreover have "bus_rel rd oob (d4, q4) (byte_step rd wr oob b c)"
    using d3 rc c1 assms(5)
    by (cases r) (simp_all add: byte_step_def dev_read_def d4_def q4_def bit_0_cipo d2_def)
  ultimately show ?thesis by blast
qed

theorem xfer_byte_refines:
  assumes "bus_rel rd oob (d, q) (c, pend)" "drives (dev_write wr oob b c)"
  shows "\<exists>x bus'. xfer_byte rd wr 0 oob b (d, q) = (x, bus') \<and>
     bus_rel rd oob bus' (byte_step rd wr oob b c) \<and> (\<forall>p. pend = Some p \<longrightarrow> x = p)"
proof -
  let ?bs = "butlast (msb_first b)" and ?x = "last (msb_first b)"
  have c: "spidevicedpi_reset d = c" and in0: "inBits d = 0"
    using assms(1) by (cases pend; simp)+
  have "\<exists>xs d7 q7. sck_cycles rd wr 0 oob ?bs (d, q) = (xs, d7, q7) \<and> mid_byte d ?bs d7 \<and> outBits d7 = 0 \<and>
      (\<forall>p. pend = Some p \<longrightarrow> xs @ [bit q7 0] = msb_first p)"
  proof (cases pend)
    case None
    then show ?thesis
      using sck_cycles_poll [of d ?bs oob q] assms in0 c
      by (auto simp: unat_eq_0 simp del: length_butlast)
  next
    case (Some p)
    with assms have o: "outBits d = of_nat 7" by simp
    obtain d7 q7 where r: "sck_cycles rd wr 0 oob ?bs (d, q) = (take 7 (pending_bits d q), d7, q7)"
       "mid_byte d ?bs d7" "outBits d7 = 0" "pending_bits d7 q7 = drop 7 (pending_bits d q)"
      using sck_cycles_pending [OF _ o, of ?bs rd wr oob q] in0 by (auto simp del: length_butlast)
    have p: "pending_bits d q = msb_first p"
      using assms Some by (simp add: pending_bits_def msb_first_def bit_push_bit_iff upt_rec)
    have "[bit q7 0] = drop 7 (pending_bits d q)"
      using r(3,4) by (simp add: pending_bits_def)
    then have "take 7 (pending_bits d q) @ [bit q7 0] = pending_bits d q"
      by simp
    with r p Some show ?thesis by auto
  qed
  then obtain xs d7 q7 where 7: "sck_cycles rd wr 0 oob ?bs (d, q) = (xs, d7, q7)" "mid_byte d ?bs d7"
      "outBits d7 = 0" "\<forall>p. pend = Some p \<longrightarrow> xs @ [bit q7 0] = msb_first p" by blast
  have "b = foldl shift_in (inByte d7) [?x]"
    using 7(2) foldl_shift_in_split [of "inByte d" b] by (simp add: mid_byte_def)
  moreover have "inBits d7 = 7" "c = spidevicedpi_reset d7"
    using 7(2) in0 c by (simp_all add: mid_byte_def)
  ultimately obtain d8 q8 where 8: "sck_cycle rd wr 0 oob ?x (d7, q7) = (bit q7 0, d8, q8)"
      "bus_rel rd oob (d8, q8) (byte_step rd wr oob b c)"
    using last_cycle [of d7 b ?x c oob q7] 7(3) assms(2) by auto
  have "xfer_byte rd wr 0 oob b (d, q) = (foldl shift_in 0 (xs @ [bit q7 0]), d8, q8)"
    unfolding xfer_byte_def by (subst msb_first_split) (simp add: sck_cycles_append 7(1) 8(1))
  with 7(4) 8(2) show ?thesis by (auto simp: foldl_shift_in_msb_first simp del: foldl_append)
qed

end

section \<open>Devices that leave the line alone\<close>

text \<open>
  A device whose methods leave \<open>outByte\<close> as it is, or clear it, unless a \<open>readByte\<close> has something to return shifts zeros
  out once its last byte is gone. Its answers are then known from the first whole byte after a selection on:
  the byte \<open>readByte\<close> returned, or zero.
\<close>

definition silent_step ::
  "(u32 \<Rightarrow> 'a spidevicedpi_scheme \<Rightarrow> bool \<times> 'a spidevicedpi_scheme) \<Rightarrow>
   (u8 \<Rightarrow> u32 \<Rightarrow> 'a spidevicedpi_scheme \<Rightarrow> 'a spidevicedpi_scheme) \<Rightarrow> u32 \<Rightarrow> u8 \<Rightarrow>
   'a spidevicedpi_scheme \<Rightarrow> 'a spidevicedpi_scheme \<times> u8" where
  "silent_step rd wr oob b c = (case byte_step rd wr oob b c of (c', pend) \<Rightarrow>
     (c', case pend of Some x \<Rightarrow> x | None \<Rightarrow> 0))"

text \<open>The answer of the next byte is \<open>Some x\<close>, or not known just after the device has been selected.\<close>

fun silent_rel ::
  "(u32 \<Rightarrow> 'a spidevicedpi_scheme \<Rightarrow> bool \<times> 'a spidevicedpi_scheme) \<Rightarrow> u32 \<Rightarrow>
   'a spidevicedpi_scheme \<times> u32 \<Rightarrow> 'a spidevicedpi_scheme \<times> u8 option \<Rightarrow> bool" where
  "silent_rel rd oob (d, q) (c, Some x) \<longleftrightarrow> \<not> bit (outByte d) 0 \<and>
     (bus_rel rd oob (d, q) (c, Some x) \<or>
      x = 0 \<and> bus_rel rd oob (d, q) (c, None) \<and> outByte d = 0 \<and> \<not> bit q 0)"
| "silent_rel rd oob (d, q) (c, None) \<longleftrightarrow> \<not> bit (outByte d) 0 \<and> bus_rel rd oob (d, q) (c, None)"

locale spi_silent_target = spi_target +
  assumes rd_keeps: "\<not> fst (rd oob d) \<Longrightarrow> outByte (snd (rd oob d)) = outByte d"
    and wr_keeps: "outByte (wr b oob d) \<in> {outByte d, 0}"
begin

text \<open>The device drives a bit of \<open>outByte\<close> in each cycle, whether it has a byte to send or not.\<close>

definition sends :: "u32 \<Rightarrow> 'a spidevicedpi_scheme \<Rightarrow> nat \<Rightarrow> bool" where
  "sends oob d n \<longleftrightarrow> n \<le> unat (outBits d) \<or> dev_read rd oob (spidevicedpi_reset d) = (spidevicedpi_reset d, None)"

lemma sck_cycle_emits:
  assumes "unat (inBits d) < 7" "sends oob d (Suc n)"
  shows "\<exists>d' q'. sck_cycle rd wr 0 oob b (d, q) = (bit q 0, d', q') \<and> outByte d' = push_bit 1 (outByte d) \<and>
     bit q' 0 = bit (outByte d) 7 \<and> mid_byte d [b] d' \<and> sends oob d' n \<and> unat (outBits d') = unat (outBits d) - 1"
proof (cases "outBits d = 0")
  case True
  define d1 where "d1 = d\<lparr>inByte := shift_in (inByte d) b, inBits := inBits d + 1\<rparr>"
  have "dev_read rd oob (spidevicedpi_reset d1) = (spidevicedpi_reset d1, None)"
    using assms(2) True by (simp add: d1_def sends_def)
  then obtain d2 where d2: "rd oob d1 = (False, d2)" "spidevicedpi_reset d2 = spidevicedpi_reset d1"
    "inBits d2 = inBits d1" "inByte d2 = inByte d1" by (rule dev_read_none_poll)
  have "outByte d2 = outByte d"
    using rd_keeps [of oob d1] d2(1) by (simp add: d1_def)
  moreover have "sck_cycle rd wr 0 oob b (d, q) = (bit q 0, d2\<lparr>outByte := push_bit 1 (outByte d2), outBits := 0\<rparr>,
      push_bit 1 (oobOut d2) OR ucast (drop_bit 7 (outByte d2)))"
    using True assms(1) launchEdge_poll [of d1 rd oob False d2] d2(1)
    by (simp add: sck_cycle_def sampleEdge_middle flip: d1_def) (simp add: d1_def)
  ultimately show ?thesis
    using d2 assms(2) True by (simp add: bit_0_cipo sends_def mid_byte_def d1_def)
next
  case False
  then have "unat (outBits d - 1) = unat (outBits d) - 1" by (simp add: unat_minus_one)
  with False assms show ?thesis by (auto simp: sck_cycle_shift bit_0_cipo sends_def mid_byte_def)
qed

lemma sck_cycles_emit:
  assumes "unat (inBits d) + length bs \<le> 7" "sends oob d (length bs)"
  shows "\<exists>xs d' q'. sck_cycles rd wr 0 oob bs (d, q) = (xs, d', q') \<and>
     xs @ [bit q' 0] = bit q 0 # map (\<lambda>i. bit (outByte d) (7 - i)) [0..<length bs] \<and>
     outByte d' = push_bit (length bs) (outByte d) \<and> mid_byte d bs d' \<and>
     unat (outBits d') = unat (outBits d) - length bs"
  using assms
proof (induction bs arbitrary: d q)
  case Nil
  then show ?case by (simp add: mid_byte_def)
next
  case (Cons b bs)
  then obtain d1 q1 where 1: "sck_cycle rd wr 0 oob b (d, q) = (bit q 0, d1, q1)" "outByte d1 = push_bit 1 (outByte d)"
     "bit q1 0 = bit (outByte d) 7" "mid_byte d [b] d1" "sends oob d1 (length bs)" "unat (outBits d1) = unat (outBits d) - 1"
    using sck_cycle_emits [of d oob "length bs" b q] by auto
  have "unat (inBits d1) + length bs \<le> 7" using 1(4) Cons.prems by (simp add: mid_byte_def unat_word_ariths)
  then obtain xs d' q' where 2: "sck_cycles rd wr 0 oob bs (d1, q1) = (xs, d', q')"
      "xs @ [bit q' 0] = bit q1 0 # map (\<lambda>i. bit (outByte d1) (7 - i)) [0..<length bs]"
      "outByte d' = push_bit (length bs) (outByte d1)" "mid_byte d1 bs d'" "unat (outBits d') = unat (outBits d1) - length bs"
    using Cons.IH [OF _ 1(5)] by blast
  have "map (\<lambda>i. bit (outByte d1) (7 - i)) [0..<length bs] = map (\<lambda>i. bit (outByte d) (7 - i)) [Suc 0..<length (b # bs)]"
    using Cons.prems 1(2) by (intro nth_equalityI) (auto simp: bit_push_bit_iff simp del: upt_Suc)
  then have "xs @ [bit q' 0] = map (\<lambda>i. bit (outByte d) (7 - i)) [0..<length (b # bs)]"
    using 1(3) 2(2) by (simp add: upt_rec [of 0] del: upt_Suc)
  moreover have "mid_byte d (b # bs) d'"
    using 1(4) 2(4) by (simp add: mid_byte_def add.assoc)
  ultimately show ?case using 1 2 by (simp add: push_bit_push_bit del: upt_Suc)
qed

lemma sck_cycle_last_emits:
  assumes "inBits d = 7" "outBits d = 0" "sck_cycle rd wr 0 oob b (d, q) = (y, d', q')"
    and none: "snd (byte_step rd wr oob (shift_in (inByte d) b) (spidevicedpi_reset d)) = None"
  shows "\<exists>y \<in> {outByte d, 0}. outByte d' = push_bit 1 y \<and> bit q' 0 = bit y 7"
proof -
  let ?b = "shift_in (inByte d) b"
  define d1 where "d1 = (wr ?b oob (d\<lparr>inByte := ?b, inBits := 8\<rparr>))\<lparr>inBits := 0\<rparr>"
  have c: "spidevicedpi_reset d1 = dev_write wr oob ?b (spidevicedpi_reset d)"
    using wr_core [of ?b oob "d\<lparr>inByte := ?b, inBits := 8\<rparr>"] by (simp add: d1_def dev_write_def)
  have o: "outBits (wr ?b oob (d\<lparr>inByte := ?b, inBits := 8\<rparr>)) = 0" using assms(2) by (intro wr_outBits) simp
  obtain r d2 where r: "rd oob d1 = (r, d2)" by fastforce
  from none rd_answer [of oob d1] r have "\<not> r"
    by (auto simp: byte_step_def dev_read_def split_beta simp flip: c split: if_splits)
  with r rd_keeps [of oob d1] have "outByte d2 \<in> {outByte d, 0}"
    using wr_keeps [of ?b oob "d\<lparr>inByte := ?b, inBits := 8\<rparr>"] by (simp add: d1_def)
  moreover have "sck_cycle rd wr 0 oob b (d, q) =
    (bit q 0, d2\<lparr>outByte := push_bit 1 (outByte d2), outBits := (if r then 7 else 0)\<rparr>,
     push_bit 1 (oobOut d2) OR ucast (drop_bit 7 (outByte d2)))"
    by (rule sck_cycle_last) (use assms(1) o r in \<open>simp_all add: d1_def\<close>)
  ultimately show ?thesis using assms(3) by (auto simp: bit_0_cipo)
qed

text \<open>After a byte without an answer, the line and the output register are zero.\<close>

lemma xfer_byte_emits:
  assumes "bus_rel rd oob (d, q) (c, pend)" "xfer_byte rd wr 0 oob b (d, q) = (x, d', q')"
  shows "outByte d = 0 \<Longrightarrow> \<not> bit q 0 \<Longrightarrow> x = 0"
    and "\<not> bit (outByte d) 0 \<Longrightarrow> snd (byte_step rd wr oob b c) = None \<Longrightarrow> outByte d' = 0 \<and> \<not> bit q' 0"
proof -
  let ?bs = "butlast (msb_first b)" and ?x = "last (msb_first b)"
  have c: "spidevicedpi_reset d = c" and in0: "inBits d = 0" and s: "sends oob d (length ?bs)"
    and o7: "unat (outBits d) \<le> 7"
    using assms(1) by (cases pend; simp add: sends_def del: length_butlast)+
  from sck_cycles_emit [OF _ s, of q] in0 obtain xs d7 q7 where
    7: "sck_cycles rd wr 0 oob ?bs (d, q) = (xs, d7, q7)"
      "xs @ [bit q7 0] = bit q 0 # map (\<lambda>i. bit (outByte d) (7 - i)) [0..<7]"
      "outByte d7 = push_bit 7 (outByte d)" "mid_byte d ?bs d7" "unat (outBits d7) = unat (outBits d) - 7"
    by (auto simp del: length_butlast upt_Suc)
  obtain y d8 q8 where 8: "sck_cycle rd wr 0 oob ?x (d7, q7) = (y, d8, q8)" by (metis prod_cases3)
  then have y: "y = bit q7 0" by (auto simp: sck_cycle_def split: prod.splits)
  have "xfer_byte rd wr 0 oob b (d, q) = (foldl shift_in 0 (xs @ [y]), d8, q8)"
    unfolding xfer_byte_def by (subst msb_first_split) (simp add: sck_cycles_append 7(1) 8)
  with assms(2) have x: "x = foldl shift_in 0 (xs @ [bit q7 0])" "d' = d8" "q' = q8" by (auto simp: y)
  show "x = 0" if "outByte d = 0" "\<not> bit q 0"
    unfolding x 7(2) using that by (simp add: upt_rec shift_in_def)
  have "inBits d7 = 7" "outBits d7 = 0" "shift_in (inByte d7) ?x = b" "spidevicedpi_reset d7 = c"
    using 7(4,5) in0 c o7 foldl_shift_in_split [of "inByte d" b] by (auto simp: mid_byte_def unat_eq_0)
  then have "\<exists>y \<in> {outByte d7, 0}. outByte d' = push_bit 1 y \<and> bit q' 0 = bit y 7" if "snd (byte_step rd wr oob b c) = None"
    using sck_cycle_last_emits [OF _ _ 8] that x by simp
  then show "outByte d' = 0 \<and> \<not> bit q' 0" if "\<not> bit (outByte d) 0" "snd (byte_step rd wr oob b c) = None"
    using that by (fastforce simp: 7(3) bit_push_bit_iff push_bit_push_bit intro!: bit_word_eqI)
qed

theorem xfer_byte_silent:
  assumes "silent_rel rd oob (d, q) (c, out)" "drives (dev_write wr oob b c)"
  shows "\<exists>x bus' c' y. xfer_byte rd wr 0 oob b (d, q) = (x, bus') \<and> silent_step rd wr oob b c = (c', y) \<and>
     silent_rel rd oob bus' (c', Some y) \<and> (\<forall>p. out = Some p \<longrightarrow> x = p)"
proof -
  have "\<exists>pend. bus_rel rd oob (d, q) (c, pend) \<and> \<not> bit (outByte d) 0 \<and>
      (\<forall>p. out = Some p \<longrightarrow> pend = Some p \<or> p = 0 \<and> outByte d = 0 \<and> \<not> bit q 0)"
  proof (cases out)
    case None
    then show ?thesis using assms(1) by (intro exI [of _ None]) simp
  next
    case (Some x)
    then show ?thesis
      using assms(1) by (cases "bus_rel rd oob (d, q) (c, Some x)") (auto simp del: bus_rel.simps)
  qed
  then obtain pend where p: "bus_rel rd oob (d, q) (c, pend)" "\<not> bit (outByte d) 0"
      "\<forall>p. out = Some p \<longrightarrow> pend = Some p \<or> p = 0 \<and> outByte d = 0 \<and> \<not> bit q 0" by blast
  obtain c' pend' where s: "byte_step rd wr oob b c = (c', pend')" by fastforce
  from xfer_byte_refines [OF p(1) assms(2)] obtain x d' q' where
    x: "xfer_byte rd wr 0 oob b (d, q) = (x, d', q')" "bus_rel rd oob (d', q') (c', pend')" "\<forall>p. pend = Some p \<longrightarrow> x = p"
    by (auto simp: s)
  have "silent_rel rd oob (d', q') (c', Some (case pend' of Some y \<Rightarrow> y | None \<Rightarrow> 0))"
    using x(2) xfer_byte_emits(2) [OF p(1) x(1) p(2)] s
    by (cases pend') (auto simp: bit_push_bit_iff)
  moreover have "\<forall>p. out = Some p \<longrightarrow> x = p"
    using p(3) x(3) xfer_byte_emits(1) [OF p(1) x(1)] by auto
  ultimately show ?thesis using x(1) s by (auto simp: silent_step_def)
qed

end

end
