(* ===== verification/Spi_Flash.thy ===== *)
theory Spi_Flash
  imports Spi_Device
begin

unbundle bit_operations_syntax

text \<open>
  The simulated SPI flash (\<open>spi_flash.hh\<close>, \<open>spi_flash.cc\<close>): command decoding, page programming,
  sector erase and reading. The 32 MiB memory array is a function of the 32-bit offset; the two small
  buffers are lists. Members the constructor leaves uninitialised keep whatever the raw
  object held, so the constructor takes that raw object as an argument.
\<close>

section \<open>State\<close>

record spi_flash = spidevicedpi +
  bProgramming :: bool
  bReading :: bool
  bErasing :: bool
  fl_cmdLen :: u8
  fl_cmd :: "u8 list"
  fl_rspLen :: u8
  fl_rspIdx :: u8
  fl_rsp :: "u8 list"
  memOffset :: u32
  fl_mem :: "u32 \<Rightarrow> u8"
  jedec_id :: u32

definition kFlashBytes :: u32 where "kFlashBytes = 32 * 1024 * 1024"
definition kPageSize :: u32 where "kPageSize = 4 * 1024"

definition CmdEnableReset :: u8 where "CmdEnableReset = 0x66"
definition CmdReset :: u8 where "CmdReset = 0x99"
definition CmdReadJEDECId :: u8 where "CmdReadJEDECId = 0x9f"
definition CmdWriteEnable :: u8 where "CmdWriteEnable = 0x06"
definition CmdSectorErase :: u8 where "CmdSectorErase = 0x20"
definition CmdSectorErase4 :: u8 where "CmdSectorErase4 = 0x21"
definition CmdReadStatusRegister1 :: u8 where "CmdReadStatusRegister1 = 0x05"
definition CmdPageProgram :: u8 where "CmdPageProgram = 0x02"
definition CmdPageProgram4 :: u8 where "CmdPageProgram4 = 0x12"
definition CmdReadData :: u8 where "CmdReadData = 0x03"
definition CmdReadData4 :: u8 where "CmdReadData4 = 0x13"

lemmas flash_cmds = CmdEnableReset_def CmdReset_def CmdReadJEDECId_def CmdWriteEnable_def
  CmdSectorErase_def CmdSectorErase4_def CmdReadStatusRegister1_def CmdPageProgram_def
  CmdPageProgram4_def CmdReadData_def CmdReadData4_def

section \<open>Operations\<close>

definition getAddress24 :: "u8 list \<Rightarrow> nat \<Rightarrow> u32" where
  "getAddress24 cmd offset =
     push_bit 16 (ucast (cmd ! offset)) OR push_bit 8 (ucast (cmd ! (offset + 1))) OR ucast (cmd ! (offset + 2))"

definition getAddress32 :: "u8 list \<Rightarrow> nat \<Rightarrow> u32" where
  "getAddress32 cmd offset =
     push_bit 24 (ucast (cmd ! offset)) OR push_bit 16 (ucast (cmd ! (offset + 1))) OR
     push_bit 8 (ucast (cmd ! (offset + 2))) OR ucast (cmd ! (offset + 3))"

definition spi_flash_reset :: "'a spi_flash_scheme \<Rightarrow> 'a spi_flash_scheme" where
  "spi_flash_reset d = (spidevicedpi_reset d)
     \<lparr>bProgramming := False, bReading := False, bErasing := False, fl_rspLen := 0, fl_rspIdx := 0\<rparr>"

definition spi_flash_new :: "'a spi_flash_scheme \<Rightarrow> u32 \<Rightarrow> 'a spi_flash_scheme" where
  "spi_flash_new raw jedec = spi_flash_reset ((spidevicedpi_reset raw)\<lparr>jedec_id := jedec\<rparr>)"

text \<open>A command that takes a 24-bit or a 32-bit address is complete with its last address byte.\<close>

definition flash_addr_cmd ::
  "u8 \<Rightarrow> (u8 list \<Rightarrow> u32) \<Rightarrow> ('a spi_flash_scheme \<Rightarrow> 'a spi_flash_scheme) \<Rightarrow> 'a spi_flash_scheme \<Rightarrow>
   bool \<times> 'a spi_flash_scheme" where
  "flash_addr_cmd len addr action d =
    (if fl_cmdLen d \<ge> len then (True, action (d\<lparr>memOffset := addr (fl_cmd d)\<rparr>)) else (False, d))"

text \<open>The switch over the command byte: whether the command is complete, and its effect.\<close>

definition flash_switch :: "u8 \<Rightarrow> 'a spi_flash_scheme \<Rightarrow> bool \<times> 'a spi_flash_scheme" where
  "flash_switch c d =
    (if c = CmdEnableReset then (True, d)
     else if c = CmdReset then (True, spi_flash_reset d)
     else if c = CmdReadJEDECId then
       (True, d\<lparr>fl_rsp := (fl_rsp d)[0 := ucast (drop_bit 16 (jedec_id d)),
                                    1 := ucast (drop_bit 8 (jedec_id d)),
                                    2 := ucast (jedec_id d)],
                fl_rspLen := 3, fl_rspIdx := 0\<rparr>)
     else if c = CmdWriteEnable then (True, d)
     else if c = CmdSectorErase then
       flash_addr_cmd 4 (\<lambda>cmd. getAddress24 cmd 1) (\<lambda>d. d\<lparr>bErasing := True\<rparr>) d
     else if c = CmdSectorErase4 then
       flash_addr_cmd 5 (\<lambda>cmd. getAddress32 cmd 1) (\<lambda>d. d\<lparr>bErasing := True\<rparr>) d
     else if c = CmdReadStatusRegister1 then (True, d)
     else if c = CmdPageProgram then
       flash_addr_cmd 4 (\<lambda>cmd. getAddress24 cmd 1) (\<lambda>d. d\<lparr>bProgramming := True\<rparr>) d
     else if c = CmdPageProgram4 then
       flash_addr_cmd 5 (\<lambda>cmd. getAddress32 cmd 1) (\<lambda>d. d\<lparr>bProgramming := True\<rparr>) d
     else if c = CmdReadData then
       flash_addr_cmd 4 (\<lambda>cmd. getAddress24 cmd 1) (\<lambda>d. d\<lparr>bReading := True\<rparr>) d
     else if c = CmdReadData4 then
       flash_addr_cmd 5 (\<lambda>cmd. getAddress32 cmd 1) (\<lambda>d. d\<lparr>bReading := True\<rparr>) d
     else (True, d))"

definition spi_flash_writeByte :: "u8 \<Rightarrow> u32 \<Rightarrow> 'a spi_flash_scheme \<Rightarrow> 'a spi_flash_scheme" where
  "spi_flash_writeByte inB oobIn d =
    (if bProgramming d then
       let d = (if memOffset d < kFlashBytes then d\<lparr>fl_mem := (fl_mem d)(memOffset d := inB)\<rparr> else d)
       in d\<lparr>memOffset := memOffset d + 1\<rparr>
     else let
       d = d\<lparr>fl_cmd := (fl_cmd d)[unat (fl_cmdLen d) := inB], fl_cmdLen := fl_cmdLen d + 1\<rparr>;
       (cmdComplete, d) = flash_switch (fl_cmd d ! 0) d
     in if cmdComplete then d\<lparr>fl_cmdLen := 0\<rparr> else d)"

definition eraseSector :: "'a spi_flash_scheme \<Rightarrow> 'a spi_flash_scheme" where
  "eraseSector d =
    (let addr = memOffset d AND NOT (kPageSize - 1) in
     if addr \<le> kFlashBytes - kPageSize
     then d\<lparr>fl_mem := (\<lambda>a. if addr \<le> a \<and> a - addr < kPageSize then 0xff else fl_mem d a)\<rparr>
     else d)"

definition spi_flash_readByte :: "u32 \<Rightarrow> 'a spi_flash_scheme \<Rightarrow> bool \<times> 'a spi_flash_scheme" where
  "spi_flash_readByte oobIn d =
    (let d = d\<lparr>oobOut := 0\<rparr> in
     if bReading d then
       (True, d\<lparr>outByte := (if memOffset d < kFlashBytes then fl_mem d (memOffset d) else 0xff),
                memOffset := memOffset d + 1\<rparr>)
     else if fl_rspIdx d < fl_rspLen d then
       (True, d\<lparr>outByte := fl_rsp d ! unat (fl_rspIdx d), fl_rspIdx := fl_rspIdx d + 1\<rparr>)
     else (False, d))"

definition spi_flash_csChanged :: "bool \<Rightarrow> u32 \<Rightarrow> 'a spi_flash_scheme \<Rightarrow> 'a spi_flash_scheme" where
  "spi_flash_csChanged csAsserted oobIn d =
    (if csAsserted then d
     else let d = (if bErasing d then (eraseSector d)\<lparr>bErasing := False\<rparr> else d)
          in d\<lparr>bProgramming := False, bReading := False\<rparr>)"

section \<open>The device fulfils the contract of the shift registers\<close>

lemma flash_reset_sel [simp]:
  "bProgramming (spidevicedpi_reset d) = bProgramming d" "bReading (spidevicedpi_reset d) = bReading d"
  "bErasing (spidevicedpi_reset d) = bErasing d" "fl_cmdLen (spidevicedpi_reset d) = fl_cmdLen d"
  "fl_cmd (spidevicedpi_reset d) = fl_cmd d" "fl_rspLen (spidevicedpi_reset d) = fl_rspLen d"
  "fl_rspIdx (spidevicedpi_reset d) = fl_rspIdx d" "fl_rsp (spidevicedpi_reset d) = fl_rsp d"
  "memOffset (spidevicedpi_reset d) = memOffset d" "fl_mem (spidevicedpi_reset d) = fl_mem d"
  "jedec_id (spidevicedpi_reset d) = jedec_id d"
  by (simp_all add: spidevicedpi_reset_def)

lemma flash_switch_core:
  "map_prod id spidevicedpi_reset (flash_switch c d) = map_prod id spidevicedpi_reset (flash_switch c (spidevicedpi_reset d))"
  by (simp add: flash_switch_def flash_addr_cmd_def spi_flash_reset_def spidevicedpi_reset_def)

lemma flash_switch_outBits: "outBits d = 0 \<Longrightarrow> outBits (snd (flash_switch c d)) = 0"
  by (simp add: flash_switch_def flash_addr_cmd_def spi_flash_reset_def spidevicedpi_reset_def)

lemma flash_writeByte_outBits: "outBits d = 0 \<Longrightarrow> outBits (spi_flash_writeByte b oob d) = 0"
  using flash_switch_outBits [of "d\<lparr>fl_cmd := (fl_cmd d)[unat (fl_cmdLen d) := b], fl_cmdLen := fl_cmdLen d + 1\<rparr>"]
  by (simp add: spi_flash_writeByte_def Let_def split_beta)

lemma flash_writeByte_core:
  "spidevicedpi_reset (spi_flash_writeByte b oob d) = spidevicedpi_reset (spi_flash_writeByte b oob (spidevicedpi_reset d))"
proof -
  define e where "e = d\<lparr>fl_cmd := (fl_cmd d)[unat (fl_cmdLen d) := b], fl_cmdLen := fl_cmdLen d + 1\<rparr>"
  obtain x e1 where 1: "flash_switch (fl_cmd e ! 0) e = (x, e1)" by fastforce
  obtain y e2 where 2: "flash_switch (fl_cmd e ! 0) (spidevicedpi_reset e) = (y, e2)" by fastforce
  from flash_switch_core [of "fl_cmd e ! 0" e] 1 2
  have eq: "x = y" "spidevicedpi_reset e1 = spidevicedpi_reset e2" by simp_all
  have push: "(spidevicedpi_reset d)\<lparr>fl_cmd := (fl_cmd d)[unat (fl_cmdLen d) := b], fl_cmdLen := fl_cmdLen d + 1\<rparr>
      = spidevicedpi_reset e"
    by (simp add: spidevicedpi_reset_def e_def)
  have upd: "spidevicedpi_reset (e'\<lparr>fl_cmdLen := z\<rparr>) = (spidevicedpi_reset e')\<lparr>fl_cmdLen := z\<rparr>"
    for z and e' :: "'a spi_flash_scheme"
    by (simp add: spidevicedpi_reset_def)
  show ?thesis
  proof (cases "bProgramming d")
    case True
    then show ?thesis by (simp add: spi_flash_writeByte_def Let_def spidevicedpi_reset_def)
  next
    case False
    then have "spi_flash_writeByte b oob d = (if x then e1\<lparr>fl_cmdLen := 0\<rparr> else e1)"
      using 1 by (simp add: spi_flash_writeByte_def Let_def e_def)
    moreover have "spi_flash_writeByte b oob (spidevicedpi_reset d) = (if y then e2\<lparr>fl_cmdLen := 0\<rparr> else e2)"
      using 2 False by (simp add: spi_flash_writeByte_def Let_def push)
    ultimately show ?thesis using eq by (simp add: upd)
  qed
qed

interpretation flash_target: spi_target spi_flash_readByte spi_flash_writeByte "\<lambda>_. True"
proof (unfold_locales, rule flash_writeByte_core, erule flash_writeByte_outBits)
qed (auto simp: spi_flash_readByte_def Let_def spidevicedpi_reset_def dev_read_def)

lemma flash_switch_outByte: "outByte (snd (flash_switch c d)) \<in> {outByte d, 0}"
  by (simp add: flash_switch_def flash_addr_cmd_def spi_flash_reset_def spidevicedpi_reset_def)

interpretation flash_silent: spi_silent_target spi_flash_readByte spi_flash_writeByte "\<lambda>_. True"
proof
  fix b oob and d :: "'a spi_flash_scheme"
  show "outByte (snd (spi_flash_readByte oob d)) = outByte d" if "\<not> fst (spi_flash_readByte oob d)"
    using that by (auto simp: spi_flash_readByte_def Let_def split: if_splits)
  show "outByte (spi_flash_writeByte b oob d) \<in> {outByte d, 0}"
    using flash_switch_outByte [of "(fl_cmd d)[unat (fl_cmdLen d) := b] ! 0"
      "d\<lparr>fl_cmd := (fl_cmd d)[unat (fl_cmdLen d) := b], fl_cmdLen := fl_cmdLen d + 1\<rparr>"]
    by (simp add: spi_flash_writeByte_def Let_def split_beta)
qed

section \<open>The buffers\<close>

text \<open>What the simulation can do to the model between its construction and its destruction.\<close>

datatype flash_event = WriteByte u8 u32 | ReadByte u32 | CsChanged bool u32

fun flash_event_step :: "'a spi_flash_scheme \<Rightarrow> flash_event \<Rightarrow> 'a spi_flash_scheme" where
  "flash_event_step d (WriteByte b oob) = spi_flash_writeByte b oob d"
| "flash_event_step d (ReadByte oob) = snd (spi_flash_readByte oob d)"
| "flash_event_step d (CsChanged a oob) = spi_flash_csChanged a oob d"

definition flash_bounds :: "'a spi_flash_scheme \<Rightarrow> bool" where
  "flash_bounds d \<longleftrightarrow> length (fl_cmd d) = 8 \<and> length (fl_rsp d) = 16 \<and> unat (fl_cmdLen d) < 5 \<and>
     unat (fl_rspLen d) \<le> 3 \<and> unat (fl_rspIdx d) \<le> unat (fl_rspLen d)"

lemma flash_switch_bounds:
  assumes "length (fl_cmd d) = 8" "length (fl_rsp d) = 16" "unat (fl_cmdLen d) \<le> 5" "unat (fl_rspLen d) \<le> 3"
    "unat (fl_rspIdx d) \<le> unat (fl_rspLen d)" "flash_switch c d = (complete, d')"
  shows "flash_bounds (if complete then d'\<lparr>fl_cmdLen := 0\<rparr> else d')"
  using assms by (auto simp: flash_switch_def flash_addr_cmd_def spi_flash_reset_def flash_bounds_def word_le_nat_alt split: if_splits)

lemma flash_event_bounds: "flash_bounds d \<Longrightarrow> flash_bounds (flash_event_step d e)"
proof (cases e)
  case (WriteByte b oob)
  assume d: "flash_bounds d"
  define e where "e = d\<lparr>fl_cmd := (fl_cmd d)[unat (fl_cmdLen d) := b], fl_cmdLen := fl_cmdLen d + 1\<rparr>"
  have "unat (fl_cmdLen e) \<le> 5" using d by (simp add: e_def flash_bounds_def unat_word_ariths)
  moreover obtain complete d' where sw: "flash_switch (fl_cmd e ! 0) e = (complete, d')" by fastforce
  ultimately have "flash_bounds (if complete then d'\<lparr>fl_cmdLen := 0\<rparr> else d')"
    using d by (intro flash_switch_bounds [OF _ _ _ _ _ sw]) (simp_all add: e_def flash_bounds_def)
  moreover have "spi_flash_writeByte b oob d = (if complete then d'\<lparr>fl_cmdLen := 0\<rparr> else d')" if "\<not> bProgramming d"
    using sw that by (simp add: spi_flash_writeByte_def Let_def flip: e_def)
  moreover have "flash_bounds (spi_flash_writeByte b oob d)" if "bProgramming d"
    using d that by (simp add: spi_flash_writeByte_def Let_def flash_bounds_def)
  ultimately show ?thesis using WriteByte by (cases "bProgramming d") simp_all
next
  case (ReadByte oob)
  assume "flash_bounds d"
  then show ?thesis
    using ReadByte by (auto simp: spi_flash_readByte_def Let_def flash_bounds_def word_less_nat_alt unat_word_ariths)
next
  case (CsChanged a oob)
  assume "flash_bounds d"
  then show ?thesis
    using CsChanged by (simp add: spi_flash_csChanged_def eraseSector_def Let_def flash_bounds_def)
qed

text \<open>Whatever bytes, polls and chip select changes the flash model sees, in any order, it never steps outside its command and response
  buffers: the next byte of a command and the next byte of a response are always at an index inside. The constructor does not set
  \<open>cmdLen\<close>, so this holds for an object whose memory held a small command length.\<close>

theorem flash_model_in_bounds:
  assumes "length (fl_cmd raw) = 8" "length (fl_rsp raw) = 16" "unat (fl_cmdLen raw) < 5"
  shows "let d = foldl flash_event_step (spi_flash_new raw jedec) es in
    unat (fl_cmdLen d) < length (fl_cmd d) \<and> unat (fl_rspIdx d) \<le> unat (fl_rspLen d) \<and> unat (fl_rspLen d) < length (fl_rsp d)"
proof -
  have "flash_bounds d \<Longrightarrow> flash_bounds (foldl flash_event_step d es)" for d :: "'a spi_flash_scheme"
    by (induction es arbitrary: d) (simp_all add: flash_event_bounds)
  moreover have "flash_bounds (spi_flash_new raw jedec)"
    using assms by (simp add: flash_bounds_def spi_flash_new_def spi_flash_reset_def)
  ultimately have "flash_bounds (foldl flash_event_step (spi_flash_new raw jedec) es)" .
  then show ?thesis by (simp add: flash_bounds_def Let_def)
qed

theorem flash_model_in_bounds_witness:
  "let raw = \<lparr>inBits = 0, inByte = 0, outBits = 0, outByte = 0, oobOut = 0, bProgramming = True, bReading = True, bErasing = True,
     fl_cmdLen = 3, fl_cmd = replicate 8 0x13, fl_rspLen = 99, fl_rspIdx = 7, fl_rsp = replicate 16 0, memOffset = 0, fl_mem = (\<lambda>_. 0), jedec_id = 0\<rparr>;
       d = foldl flash_event_step (spi_flash_new raw 0) [WriteByte 0x13 0, ReadByte 0, CsChanged False 0, WriteByte 0x9f 0, ReadByte 0]
   in unat (fl_cmdLen d) < length (fl_cmd d) \<and> unat (fl_rspIdx d) \<le> unat (fl_rspLen d) \<and> unat (fl_rspLen d) < length (fl_rsp d)"
  unfolding Let_def by (rule flash_model_in_bounds [unfolded Let_def]) simp_all

end
