(* ===== verification/Spi_Microsd.thy ===== *)
theory Spi_Microsd
  imports Crc Spi_Device
begin

unbundle bit_operations_syntax

text \<open>
  The simulated microSD card (\<open>spi_microsd.hh\<close>, \<open>spi_microsd.cc\<close>): collection of six-byte command frames,
  responses, data packets with their CRC16 in both directions, and the image file behind the card. The file
  is its contents and its position; \<open>fseek\<close>, \<open>fgetc\<close> and \<open>fwrite\<close> are modelled as the C library
  specifies them on a binary file opened with mode \<open>r+b\<close>, with writes that succeed.
\<close>

section \<open>The image file\<close>

record sdfile =
  contents :: "u8 list"
  fpos :: nat

definition sd_fseek :: "nat \<Rightarrow> sdfile \<Rightarrow> sdfile" where
  "sd_fseek off f = f\<lparr>fpos := off\<rparr>"

text \<open>\<open>fgetc\<close>: \<open>None\<close> is \<open>EOF\<close>, which leaves the position where it is.\<close>

definition sd_fgetc :: "sdfile \<Rightarrow> u8 option \<times> sdfile" where
  "sd_fgetc f =
    (if fpos f < length (contents f) then (Some (contents f ! fpos f), f\<lparr>fpos := Suc (fpos f)\<rparr>) else (None, f))"

text \<open>A write past the end of the file fills the gap with zeros, as a seek followed by a write does.\<close>

definition sd_fwrite :: "u8 list \<Rightarrow> sdfile \<Rightarrow> sdfile" where
  "sd_fwrite buf f =
    f\<lparr>contents := take (fpos f) (contents f @ replicate (fpos f - length (contents f)) 0) @ buf @
                  drop (fpos f + length buf) (contents f),
      fpos := fpos f + length buf\<rparr>"

section \<open>State\<close>

datatype sd_readState = ReadState_CmdStatus | ReadState_DataBytes | ReadState_CRC0 | ReadState_CRC1
datatype sd_writeState = WriteState_StartToken | WriteState_DataBytes | WriteState_CRC0 | WriteState_CRC1

record spi_microsd = spidevicedpi +
  cmdCode :: u8
  cmdAddress :: u32
  cmdCrc :: u8
  cmdBytes :: u8
  responding :: bool
  sd_rsp :: "u8 list"
  rspBytes :: u32
  rspLen :: u32
  reading :: bool
  readState :: sd_readState
  readBytes :: u32
  readCrc16 :: u16
  writing :: bool
  writeState :: sd_writeState
  writeBytes :: u32
  writeBuf :: "u8 list"
  writeCrc16 :: u16
  cid :: "u8 list"
  csd :: "u8 list"
  sd :: "sdfile option"

definition kLog2BlockLen :: nat where "kLog2BlockLen = 9"
definition kBlockLen :: u32 where "kBlockLen = push_bit kLog2BlockLen 1"

text \<open>The command codes, shared by the card and the driver.\<close>

definition CMD_GO_IDLE_STATE :: u8 where "CMD_GO_IDLE_STATE = 0"
definition CMD_SEND_OP_COND :: u8 where "CMD_SEND_OP_COND = 1"
definition CMD_SEND_IF_COND :: u8 where "CMD_SEND_IF_COND = 8"
definition CMD_SEND_CSD :: u8 where "CMD_SEND_CSD = 9"
definition CMD_SEND_CID :: u8 where "CMD_SEND_CID = 10"
definition CMD_STOP_TRANSMISSION :: u8 where "CMD_STOP_TRANSMISSION = 12"
definition CMD_SET_BLOCKLEN :: u8 where "CMD_SET_BLOCKLEN = 16"
definition CMD_READ_SINGLE_BLOCK :: u8 where "CMD_READ_SINGLE_BLOCK = 17"
definition CMD_READ_MULTIPLE_BLOCK :: u8 where "CMD_READ_MULTIPLE_BLOCK = 18"
definition CMD_WRITE_SINGLE_BLOCK :: u8 where "CMD_WRITE_SINGLE_BLOCK = 24"
definition CMD_WRITE_MULTIPLE_BLOCK :: u8 where "CMD_WRITE_MULTIPLE_BLOCK = 25"
definition SD_SEND_OP_COND :: u8 where "SD_SEND_OP_COND = 41"
definition CMD_APP_CMD :: u8 where "CMD_APP_CMD = 55"
definition CMD_READ_OCR :: u8 where "CMD_READ_OCR = 58"
definition CMD_CRC_ON_OFF :: u8 where "CMD_CRC_ON_OFF = 59"

lemmas sd_cmds = CMD_GO_IDLE_STATE_def CMD_SEND_OP_COND_def CMD_SEND_IF_COND_def CMD_SEND_CSD_def
  CMD_SEND_CID_def CMD_STOP_TRANSMISSION_def CMD_SET_BLOCKLEN_def CMD_READ_SINGLE_BLOCK_def
  CMD_READ_MULTIPLE_BLOCK_def CMD_WRITE_SINGLE_BLOCK_def CMD_WRITE_MULTIPLE_BLOCK_def
  SD_SEND_OP_COND_def CMD_APP_CMD_def CMD_READ_OCR_def CMD_CRC_ON_OFF_def

definition kMustHaveSD :: bool where "kMustHaveSD = False"

section \<open>Operations\<close>

text \<open>\<open>reset\<close>, with the identification data the constructor's caller sees.\<close>

definition sd_init_cid :: "sdfile option \<Rightarrow> u8 list" where
  "sd_init_cid f =
    (let cid = replicate 16 0;
         cid = (if f \<noteq> None then cid[0 := 0x70, 1 := 0x6c, 2 := 0x52] else cid)
     in cid[15 := update_crc7 0 (take 15 cid)])"

definition sd_init_csd :: "u8 list" where
  "sd_init_csd = (let csd = replicate 16 0 in csd[15 := update_crc7 0 (take 15 csd)])"

definition spi_microsd_reset :: "'a spi_microsd_scheme \<Rightarrow> 'a spi_microsd_scheme" where
  "spi_microsd_reset d = (spidevicedpi_reset d)
     \<lparr>cmdBytes := 0, responding := False, reading := False, writing := False,
      cid := sd_init_cid (sd d), csd := sd_init_csd\<rparr>"

definition spi_microsd_new :: "'a spi_microsd_scheme \<Rightarrow> sdfile option \<Rightarrow> 'a spi_microsd_scheme" where
  "spi_microsd_new raw f = spi_microsd_reset ((spidevicedpi_reset raw)\<lparr>sd := f\<rparr>)"

definition sendResponse :: "u32 \<Rightarrow> u64 \<Rightarrow> 'a spi_microsd_scheme \<Rightarrow> 'a spi_microsd_scheme" where
  "sendResponse len v d = d
     \<lparr>responding := True, rspBytes := 0, rspLen := len,
      sd_rsp := [ucast v, ucast (drop_bit 8 v), ucast (drop_bit 16 v), ucast (drop_bit 24 v),
                 ucast (drop_bit 32 v), ucast (drop_bit 40 v), ucast (drop_bit 48 v), ucast (drop_bit 56 v)]\<rparr>"

definition sd_seek_block :: "'a spi_microsd_scheme \<Rightarrow> 'a spi_microsd_scheme" where
  "sd_seek_block d = d\<lparr>sd := map_option (sd_fseek (unat (push_bit kLog2BlockLen (cmdAddress d)))) (sd d)\<rparr>"

definition startCommand :: "'a spi_microsd_scheme \<Rightarrow> 'a spi_microsd_scheme" where
  "startCommand d =
    (let c = cmdCode d in
     if c = CMD_GO_IDLE_STATE then sendResponse 1 0x01 d
     else if c = CMD_SEND_IF_COND then sendResponse 5 0 d
     else if c = CMD_SEND_CID \<or> c = CMD_SEND_CSD then
       (sendResponse 2 0xfe00 d)\<lparr>reading := True, readState := ReadState_CmdStatus, readBytes := 0\<rparr>
     else if c = CMD_STOP_TRANSMISSION then d
     else if c = CMD_SET_BLOCKLEN then sendResponse 1 0 d
     else if c = CMD_READ_MULTIPLE_BLOCK \<or> c = CMD_READ_SINGLE_BLOCK then
       (sendResponse 2 0xfe00 (sd_seek_block d))
         \<lparr>reading := True, readState := ReadState_CmdStatus, readBytes := 0\<rparr>
     else if c = CMD_WRITE_MULTIPLE_BLOCK \<or> c = CMD_WRITE_SINGLE_BLOCK then
       (sendResponse 1 0xfe (sd_seek_block d))
         \<lparr>writing := True, writeState := WriteState_StartToken, writeBytes := 0\<rparr>
     else if c = SD_SEND_OP_COND then sendResponse 1 0x00 d
     else if c = CMD_APP_CMD then sendResponse 1 0x00 d
     else if c = CMD_READ_OCR then sendResponse 5 0 d
     else sendResponse 1 0x05 d)"

text \<open>A byte while a data block is being written to the card. A CRC mismatch is only logged.\<close>

definition sd_writeData :: "u8 \<Rightarrow> 'a spi_microsd_scheme \<Rightarrow> 'a spi_microsd_scheme" where
  "sd_writeData inB d =
    (case writeState d of
       WriteState_StartToken \<Rightarrow>
         if inB = 0xfe then d\<lparr>writeState := WriteState_DataBytes, writeCrc16 := 0\<rparr> else d
     | WriteState_DataBytes \<Rightarrow>
         d\<lparr>writeBuf := (if writeBytes d < kBlockLen then (writeBuf d)[unat (writeBytes d) := inB] else writeBuf d),
           writeCrc16 := update_crc16 (writeCrc16 d) [inB],
           writeBytes := writeBytes d + 1,
           writeState := (if writeBytes d + 1 \<ge> kBlockLen then WriteState_CRC0 else WriteState_DataBytes)\<rparr>
     | WriteState_CRC0 \<Rightarrow> d\<lparr>writeState := WriteState_CRC1\<rparr>
     | WriteState_CRC1 \<Rightarrow>
         (let d = sendResponse 8 (push_bit 56 0x01 OR 0xe5) (d\<lparr>writeState := WriteState_StartToken\<rparr>)
          in d\<lparr>writing := False, sd := map_option (sd_fwrite (writeBuf d)) (sd d)\<rparr>))"

definition spi_microsd_writeByte :: "u8 \<Rightarrow> u32 \<Rightarrow> 'a spi_microsd_scheme \<Rightarrow> 'a spi_microsd_scheme" where
  "spi_microsd_writeByte inB oobIn d =
    (if writing d then sd_writeData inB d
     else if cmdBytes d = 0 then
       (if inB AND 0xc0 = 0x40 then d\<lparr>cmdCode := inB AND 0x3f, cmdBytes := 1\<rparr> else d)
     else if cmdBytes d = 5 then (startCommand (d\<lparr>cmdCrc := inB\<rparr>))\<lparr>cmdBytes := 0\<rparr>
     else d\<lparr>cmdAddress := push_bit 8 (cmdAddress d) OR ucast inB, cmdBytes := cmdBytes d + 1\<rparr>)"

text \<open>The byte a data packet returns next, by the command that started it.\<close>

definition sd_readId :: "u8 list \<Rightarrow> 'a spi_microsd_scheme \<Rightarrow> 'a spi_microsd_scheme" where
  "sd_readId reg d =
    (let x = reg ! unat (readBytes d) in
     d\<lparr>outByte := x, readCrc16 := update_crc16 (readCrc16 d) [x], readBytes := readBytes d + 1,
       readState := (if readBytes d + 1 \<ge> 16 then ReadState_CRC0 else readState d)\<rparr>)"

definition sd_readMedium :: "'a spi_microsd_scheme \<Rightarrow> 'a spi_microsd_scheme" where
  "sd_readMedium d =
    (let (ch, f) = (case sd d of None \<Rightarrow> (Some 0xff, None)
                    | Some f \<Rightarrow> (case sd_fgetc f of (ch, f') \<Rightarrow> (ch, Some f')));
         x = (case ch of Some x \<Rightarrow> x | None \<Rightarrow> 0xff)
     in d\<lparr>sd := f, outByte := x, readCrc16 := update_crc16 (readCrc16 d) [x], readBytes := readBytes d + 1,
          readState := (if (readBytes d + 1) AND (kBlockLen - 1) = 0 then ReadState_CRC0 else readState d)\<rparr>)"

definition sd_readData :: "'a spi_microsd_scheme \<Rightarrow> 'a spi_microsd_scheme" where
  "sd_readData d =
    (let c = cmdCode d in
     if c = CMD_SEND_CID then sd_readId (cid d) d
     else if c = CMD_SEND_CSD then sd_readId (csd d) d
     else if c = CMD_READ_MULTIPLE_BLOCK \<or> c = CMD_READ_SINGLE_BLOCK then sd_readMedium d
     else d)"

definition sd_readPacket :: "'a spi_microsd_scheme \<Rightarrow> 'a spi_microsd_scheme" where
  "sd_readPacket d =
    (case readState d of
       ReadState_DataBytes \<Rightarrow> sd_readData d
     | ReadState_CRC0 \<Rightarrow> d\<lparr>outByte := ucast (drop_bit 8 (readCrc16 d)), readState := ReadState_CRC1\<rparr>
     | ReadState_CRC1 \<Rightarrow> d\<lparr>readBytes := 0, outByte := ucast (readCrc16 d), readState := ReadState_DataBytes\<rparr>
     | ReadState_CmdStatus \<Rightarrow> d\<lparr>outByte := 0xff, reading := False\<rparr>)"

definition spi_microsd_readByte :: "u32 \<Rightarrow> 'a spi_microsd_scheme \<Rightarrow> bool \<times> 'a spi_microsd_scheme" where
  "spi_microsd_readByte oobIn d =
    (if responding d \<and> rspBytes d < rspLen d then
       (True, d\<lparr>outByte := sd_rsp d ! unat (rspBytes d), rspBytes := rspBytes d + 1,
                oobOut := of_bool (kMustHaveSD \<and> sd d = None)\<rparr>)
     else let
       d = (if responding d \<and> reading d then d\<lparr>readState := ReadState_DataBytes, readCrc16 := 0\<rparr> else d)
             \<lparr>responding := False\<rparr>
     in if reading d then
          (True, (sd_readPacket d)\<lparr>oobOut := of_bool (kMustHaveSD \<and> sd (sd_readPacket d) = None)\<rparr>)
        else (False, d))"

definition spi_microsd_csChanged :: "bool \<Rightarrow> u32 \<Rightarrow> 'a spi_microsd_scheme \<Rightarrow> 'a spi_microsd_scheme" where
  "spi_microsd_csChanged csAsserted oobIn d = d\<lparr>cmdBytes := 0, responding := False, reading := False\<rparr>"

section \<open>The device fulfils the contract of the shift registers\<close>

text \<open>No method of the card touches the shift registers, so each commutes with clearing them.\<close>

lemma microsd_reset_sel [simp]:
  "cmdCode (spidevicedpi_reset d) = cmdCode d" "cmdAddress (spidevicedpi_reset d) = cmdAddress d"
  "cmdBytes (spidevicedpi_reset d) = cmdBytes d" "responding (spidevicedpi_reset d) = responding d"
  "sd_rsp (spidevicedpi_reset d) = sd_rsp d" "rspBytes (spidevicedpi_reset d) = rspBytes d"
  "rspLen (spidevicedpi_reset d) = rspLen d" "reading (spidevicedpi_reset d) = reading d"
  "readState (spidevicedpi_reset d) = readState d" "readBytes (spidevicedpi_reset d) = readBytes d"
  "readCrc16 (spidevicedpi_reset d) = readCrc16 d" "writing (spidevicedpi_reset d) = writing d"
  "writeState (spidevicedpi_reset d) = writeState d" "writeBytes (spidevicedpi_reset d) = writeBytes d"
  "writeBuf (spidevicedpi_reset d) = writeBuf d" "writeCrc16 (spidevicedpi_reset d) = writeCrc16 d"
  "cid (spidevicedpi_reset d) = cid d" "csd (spidevicedpi_reset d) = csd d" "sd (spidevicedpi_reset d) = sd d"
  by (simp_all add: spidevicedpi_reset_def)

lemma reset_sendResponse: "spidevicedpi_reset (sendResponse n v d) = sendResponse n v (spidevicedpi_reset d)"
  by (simp add: sendResponse_def spidevicedpi_reset_def)

lemma sendResponse_sel [simp]:
  "writeBuf (sendResponse n v d) = writeBuf d" "sd (sendResponse n v d) = sd d"
  "reading (sendResponse n v d) = reading d" "writing (sendResponse n v d) = writing d"
  "cmdBytes (sendResponse n v d) = cmdBytes d" "cmdCode (sendResponse n v d) = cmdCode d"
  by (simp_all add: sendResponse_def)

lemma reset_microsd_upd:
  "spidevicedpi_reset (d\<lparr>cmdBytes := x\<rparr>) = (spidevicedpi_reset d)\<lparr>cmdBytes := x\<rparr>"
  "spidevicedpi_reset (d\<lparr>cmdCode := y\<rparr>) = (spidevicedpi_reset d)\<lparr>cmdCode := y\<rparr>"
  "spidevicedpi_reset (d\<lparr>cmdCrc := y\<rparr>) = (spidevicedpi_reset d)\<lparr>cmdCrc := y\<rparr>"
  "spidevicedpi_reset (d\<lparr>cmdAddress := z\<rparr>) = (spidevicedpi_reset d)\<lparr>cmdAddress := z\<rparr>"
  "spidevicedpi_reset (d\<lparr>reading := b\<rparr>) = (spidevicedpi_reset d)\<lparr>reading := b\<rparr>"
  "spidevicedpi_reset (d\<lparr>responding := b\<rparr>) = (spidevicedpi_reset d)\<lparr>responding := b\<rparr>"
  "spidevicedpi_reset (d\<lparr>readState := rs\<rparr>) = (spidevicedpi_reset d)\<lparr>readState := rs\<rparr>"
  "spidevicedpi_reset (d\<lparr>readBytes := z\<rparr>) = (spidevicedpi_reset d)\<lparr>readBytes := z\<rparr>"
  "spidevicedpi_reset (d\<lparr>readCrc16 := w\<rparr>) = (spidevicedpi_reset d)\<lparr>readCrc16 := w\<rparr>"
  "spidevicedpi_reset (d\<lparr>rspBytes := z\<rparr>) = (spidevicedpi_reset d)\<lparr>rspBytes := z\<rparr>"
  "spidevicedpi_reset (d\<lparr>writing := b\<rparr>) = (spidevicedpi_reset d)\<lparr>writing := b\<rparr>"
  "spidevicedpi_reset (d\<lparr>writeState := ws\<rparr>) = (spidevicedpi_reset d)\<lparr>writeState := ws\<rparr>"
  "spidevicedpi_reset (d\<lparr>writeBytes := z\<rparr>) = (spidevicedpi_reset d)\<lparr>writeBytes := z\<rparr>"
  "spidevicedpi_reset (d\<lparr>writeBuf := bs\<rparr>) = (spidevicedpi_reset d)\<lparr>writeBuf := bs\<rparr>"
  "spidevicedpi_reset (d\<lparr>writeCrc16 := w\<rparr>) = (spidevicedpi_reset d)\<lparr>writeCrc16 := w\<rparr>"
  "spidevicedpi_reset (d\<lparr>rspLen := z\<rparr>) = (spidevicedpi_reset d)\<lparr>rspLen := z\<rparr>"
  "spidevicedpi_reset (d\<lparr>sd_rsp := bs\<rparr>) = (spidevicedpi_reset d)\<lparr>sd_rsp := bs\<rparr>"
  "spidevicedpi_reset (d\<lparr>sd := f\<rparr>) = (spidevicedpi_reset d)\<lparr>sd := f\<rparr>"
  by (simp_all add: spidevicedpi_reset_def)

lemma reset_sd_seek_block: "spidevicedpi_reset (sd_seek_block d) = sd_seek_block (spidevicedpi_reset d)"
  by (simp add: sd_seek_block_def reset_microsd_upd)

lemma reset_startCommand: "spidevicedpi_reset (startCommand d) = startCommand (spidevicedpi_reset d)"
  by (simp add: startCommand_def Let_def reset_sendResponse reset_microsd_upd reset_sd_seek_block)

lemma reset_sd_writeData: "spidevicedpi_reset (sd_writeData b d) = sd_writeData b (spidevicedpi_reset d)"
  by (cases "writeState d") (simp_all add: sd_writeData_def Let_def reset_sendResponse reset_microsd_upd)

lemma reset_microsd_writeByte:
  "spidevicedpi_reset (spi_microsd_writeByte b oob d) = spi_microsd_writeByte b oob (spidevicedpi_reset d)"
  by (simp add: spi_microsd_writeByte_def reset_sd_writeData reset_microsd_upd reset_startCommand)

text \<open>While a packet is being read, only the commands that return one set \<open>outByte\<close>.\<close>

definition sd_drives :: "'a spi_microsd_scheme \<Rightarrow> bool" where
  "sd_drives d \<longleftrightarrow> reading d \<longrightarrow>
     cmdCode d \<in> {CMD_SEND_CID, CMD_SEND_CSD, CMD_READ_MULTIPLE_BLOCK, CMD_READ_SINGLE_BLOCK}"

lemma reset_sd_readPacket:
  "spidevicedpi_reset (sd_readPacket d) = spidevicedpi_reset (sd_readPacket (spidevicedpi_reset d))"
  by (cases "readState d") (simp_all add: sd_readPacket_def sd_readData_def sd_readId_def sd_readMedium_def Let_def split_beta
      reset_microsd_upd)

lemma sd_readPacket_outByte:
  "sd_drives d \<Longrightarrow> reading d \<Longrightarrow> outByte (sd_readPacket d) = outByte (sd_readPacket (spidevicedpi_reset d))"
  by (cases "readState d") (auto simp: sd_drives_def sd_readPacket_def sd_readData_def sd_readId_def sd_readMedium_def Let_def split_beta)

lemma sd_readPacket_in [simp]:
  "inBits (sd_readPacket d) = inBits d" "inByte (sd_readPacket d) = inByte d"
  by (cases "readState d"; simp add: sd_readPacket_def sd_readData_def sd_readId_def sd_readMedium_def Let_def split_beta)+

text \<open>\<open>readByte\<close> in its three situations: a response byte, a packet byte, nothing.\<close>

definition sd_after_response :: "'a spi_microsd_scheme \<Rightarrow> 'a spi_microsd_scheme" where
  "sd_after_response d =
    (if responding d \<and> reading d then d\<lparr>readState := ReadState_DataBytes, readCrc16 := 0\<rparr> else d)\<lparr>responding := False\<rparr>"

lemma sd_after_response_sel [simp]:
  "reading (sd_after_response d) = reading d" "responding (sd_after_response d) = False"
  "cmdCode (sd_after_response d) = cmdCode d" "inBits (sd_after_response d) = inBits d"
  "inByte (sd_after_response d) = inByte d" "sd_drives (sd_after_response d) = sd_drives d"
  "spidevicedpi_reset (sd_after_response d) = sd_after_response (spidevicedpi_reset d)"
  by (simp_all add: sd_after_response_def sd_drives_def reset_microsd_upd)

lemma sd_after_response_idem: "\<not> reading d \<Longrightarrow> sd_after_response (sd_after_response d) = sd_after_response d"
  by (simp add: sd_after_response_def)

lemma microsd_readByte_cases:
  "spi_microsd_readByte oob d =
    (if responding d \<and> rspBytes d < rspLen d then
       (True, d\<lparr>outByte := sd_rsp d ! unat (rspBytes d), rspBytes := rspBytes d + 1, oobOut := 0\<rparr>)
     else if reading d then (True, (sd_readPacket (sd_after_response d))\<lparr>oobOut := 0\<rparr>)
     else (False, sd_after_response d))"
  by (simp add: spi_microsd_readByte_def sd_after_response_def kMustHaveSD_def Let_def)

lemma sd_drives_reset [simp]: "sd_drives (spidevicedpi_reset d) = sd_drives d"
  by (simp add: sd_drives_def)

interpretation microsd_target: spi_target spi_microsd_readByte spi_microsd_writeByte sd_drives
proof
  fix b oob and d :: "'a spi_microsd_scheme"
  show "spidevicedpi_reset (spi_microsd_writeByte b oob d) =
      spidevicedpi_reset (spi_microsd_writeByte b oob (spidevicedpi_reset d))"
    by (simp add: reset_microsd_writeByte)
  have "outBits (spi_microsd_writeByte b oob d) = outBits d"
    by (cases "writeState d") (simp_all add: spi_microsd_writeByte_def sd_writeData_def startCommand_def
        sendResponse_def sd_seek_block_def Let_def)
  then show "outBits d = 0 \<Longrightarrow> outBits (spi_microsd_writeByte b oob d) = 0" by simp
  show "fst (spi_microsd_readByte oob d) = fst (spi_microsd_readByte oob (spidevicedpi_reset d))"
    by (simp add: microsd_readByte_cases)
  show "spidevicedpi_reset (snd (spi_microsd_readByte oob d)) =
      spidevicedpi_reset (snd (spi_microsd_readByte oob (spidevicedpi_reset d)))"
    by (simp add: microsd_readByte_cases reset_microsd_upd reset_sd_readPacket [of "sd_after_response d"])
  show "inBits (snd (spi_microsd_readByte oob d)) = inBits d" "inByte (snd (spi_microsd_readByte oob d)) = inByte d"
    by (simp_all add: microsd_readByte_cases)
  show "outByte (snd (spi_microsd_readByte oob d)) = outByte (snd (spi_microsd_readByte oob (spidevicedpi_reset d)))"
    if "sd_drives (spidevicedpi_reset d)" "fst (spi_microsd_readByte oob d)"
    using that sd_readPacket_outByte [of "sd_after_response d"]
    by (simp add: microsd_readByte_cases split: if_splits)
  show "dev_read spi_microsd_readByte oob (spidevicedpi_reset (snd (spi_microsd_readByte oob d))) =
      (spidevicedpi_reset (snd (spi_microsd_readByte oob d)), None)"
    if "\<not> fst (spi_microsd_readByte oob d)"
  proof -
    from that have "\<not> reading d" "snd (spi_microsd_readByte oob d) = sd_after_response d"
      by (auto simp: microsd_readByte_cases split: if_splits)
    then show ?thesis by (simp add: microsd_readByte_cases dev_read_def sd_after_response_idem)
  qed
qed

interpretation microsd_silent: spi_silent_target spi_microsd_readByte spi_microsd_writeByte sd_drives
proof
  fix b oob and d :: "'a spi_microsd_scheme"
  show "outByte (snd (spi_microsd_readByte oob d)) = outByte d" if "\<not> fst (spi_microsd_readByte oob d)"
    using that by (auto simp: microsd_readByte_cases sd_after_response_def split: if_splits)
  show "outByte (spi_microsd_writeByte b oob d) \<in> {outByte d, 0}"
    by (cases "writeState d") (simp_all add: spi_microsd_writeByte_def sd_writeData_def startCommand_def
        sendResponse_def sd_seek_block_def Let_def)
qed

end
