(* ===== verification/Spi_Controller.thy ===== *)
theory Spi_Controller
  imports Spi_Device
begin

unbundle bit_operations_syntax

text \<open>
  The SPI controller as the drivers see it. Its register structure and the member functions
  \<open>init\<close>, \<open>blocking_write\<close>, \<open>blocking_read\<close> and \<open>wait_idle\<close> come from \<open>platform-spi.hh\<close>, which is not
  part of the repository, so they are the fields of a parameter \<open>spi_ops\<close> over an unspecified
  machine state. What the drivers rely on is the locale \<open>spi_controller\<close>: the documented register
  behaviour (\<open>doc/ip/spi.md\<close>), stated over the view \<open>ctl\<close> of a controller attached to a bus that exchanges bytes.
  The last section instantiates the parameter by a controller that keeps the view as its state.
\<close>

section \<open>The operations the drivers use\<close>

text \<open>
  \<open>blocking_read\<close> stores each byte as it collects it, so a store that traps stops it in the middle:
  \<open>blocking_read_stopped n k\<close> is the state it leaves when the store of byte number \<open>k\<close>, counted from zero, of \<open>n\<close> traps.
\<close>

record 's spi_ops =
  spi_init :: "bool \<Rightarrow> bool \<Rightarrow> bool \<Rightarrow> u32 \<Rightarrow> 's \<Rightarrow> 's"
  blocking_write :: "u8 list \<Rightarrow> 's \<Rightarrow> 's"
  blocking_read :: "nat \<Rightarrow> 's \<Rightarrow> u8 list \<times> 's"
  blocking_read_stopped :: "nat \<Rightarrow> nat \<Rightarrow> 's \<Rightarrow> 's"
  wait_idle :: "'s \<Rightarrow> 's"
  get_chipSelects :: "'s \<Rightarrow> u32"
  set_chipSelects :: "u32 \<Rightarrow> 's \<Rightarrow> 's"
  get_configuration :: "'s \<Rightarrow> u32"
  set_configuration :: "u32 \<Rightarrow> 's \<Rightarrow> 's"
  set_control :: "u32 \<Rightarrow> 's \<Rightarrow> 's"
  set_start :: "u32 \<Rightarrow> 's \<Rightarrow> 's"
  get_status :: "'s \<Rightarrow> u32 \<times> 's"
  get_receiveFifo :: "'s \<Rightarrow> u32 \<times> 's"
  set_transmitFifo :: "u32 \<Rightarrow> 's \<Rightarrow> 's"
  ControlTransmitEnable :: u32
  ControlReceiveEnable :: u32
  StatusRxFifoEmpty :: u32
  StatusRxFifoLevel :: u32
  StartByteCountMask :: u16

section \<open>The view of a controller\<close>

text \<open>
  The bus and the registers; \<open>txq\<close> holds bytes written to the transmit FIFO that no operation has claimed, \<open>rxq\<close> the
  COPI bytes of the running operation whose answers software has not collected, \<open>room\<close> how many more
  transmit bytes the running operation waits for.
\<close>

record 'b ctl =
  bus :: 'b
  selects :: u32
  cfg :: u32
  ctrl :: u32
  txq :: "u8 list"
  rxq :: "u8 list"
  room :: nat

definition ctl_idle :: "'b ctl \<Rightarrow> bool" where
  "ctl_idle v \<longleftrightarrow> txq v = [] \<and> rxq v = [] \<and> room v = 0"

text \<open>COPI while nothing is transmitted follows bit 28 of the configuration (\<open>COPI_IDLE\<close>).\<close>

definition copi_idle :: "u32 \<Rightarrow> u8" where
  "copi_idle c = (if bit c 28 then 0xff else 0x00)"

fun xfers :: "(u8 \<Rightarrow> 'b \<Rightarrow> u8 \<times> 'b) \<Rightarrow> u8 list \<Rightarrow> 'b \<Rightarrow> u8 list \<times> 'b" where
  "xfers xf [] b = ([], b)"
| "xfers xf (x # xs) b = (case xf x b of (y, b') \<Rightarrow> (case xfers xf xs b' of (ys, b'') \<Rightarrow> (y # ys, b'')))"

lemma xfers_append:
  "xfers xf (xs @ ys) b = (case xfers xf xs b of (us, b') \<Rightarrow> (case xfers xf ys b' of (vs, b'') \<Rightarrow> (us @ vs, b'')))"
  by (induction xs arbitrary: b) (auto split: prod.splits)

lemma length_xfers [simp]: "length (fst (xfers xf xs b)) = length xs"
  by (induction xs arbitrary: b) (auto simp: split_beta)

definition ctl_start :: "bool \<Rightarrow> nat \<Rightarrow> 'b ctl \<Rightarrow> 'b ctl" where
  "ctl_start transmit n v =
    (if transmit then v\<lparr>rxq := take n (txq v), txq := drop n (txq v), room := n - length (txq v)\<rparr>
     else v\<lparr>rxq := replicate n (copi_idle (cfg v))\<rparr>)"

definition ctl_tx :: "u8 \<Rightarrow> 'b ctl \<Rightarrow> 'b ctl" where
  "ctl_tx b v = (case room v of 0 \<Rightarrow> v\<lparr>txq := txq v @ [b]\<rparr> | Suc r \<Rightarrow> v\<lparr>rxq := rxq v @ [b], room := r\<rparr>)"

definition ctl_rx :: "(u32 \<Rightarrow> u8 \<Rightarrow> 'b \<Rightarrow> u8 \<times> 'b) \<Rightarrow> 'b ctl \<Rightarrow> u8 \<times> 'b ctl" where
  "ctl_rx xf v = (case xf (selects v) (hd (rxq v)) (bus v) of (y, b) \<Rightarrow> (y, v\<lparr>bus := b, rxq := tl (rxq v)\<rparr>))"

section \<open>The contract\<close>

text \<open>
  \<open>view\<close> reads the state, \<open>xf\<close> exchanges one byte with the bus under the given chip selects, \<open>csf\<close> is what a change
  of the chip selects does to the bus, and \<open>delay\<close> bounds how often the status
  can still report an empty receive FIFO while an answer is on its way.
\<close>

locale spi_controller =
  fixes ops :: "'s spi_ops"
    and view :: "'s \<Rightarrow> 'b ctl"
    and delay :: "'s \<Rightarrow> nat"
    and xf :: "u32 \<Rightarrow> u8 \<Rightarrow> 'b \<Rightarrow> u8 \<times> 'b"
    and csf :: "u32 \<Rightarrow> u32 \<Rightarrow> 'b \<Rightarrow> 'b"
  assumes v_init: "ctl_idle (view s) \<Longrightarrow>
      view (spi_init ops cpol cpha msb speed s) = (view s)\<lparr>cfg := cfg (view (spi_init ops cpol cpha msb speed s))\<rparr>"
    and v_blocking_write: "ctl_idle (view s) \<Longrightarrow> view (blocking_write ops bs s) =
      (view s)\<lparr>bus := snd (xfers (xf (selects (view s))) bs (bus (view s)))\<rparr>"
    and v_blocking_read: "ctl_idle (view s) \<Longrightarrow> blocking_read ops n s = (ys, s') \<Longrightarrow>
      xfers (xf (selects (view s))) (replicate n (copi_idle (cfg (view s)))) (bus (view s)) = (zs, b) \<Longrightarrow>
      ys = zs \<and> view s' = (view s)\<lparr>bus := b\<rparr>"
    and v_wait_idle: "view (wait_idle ops s) = view s"
    and v_get_chipSelects: "get_chipSelects ops s = selects (view s)"
    and v_set_chipSelects: "ctl_idle (view s) \<Longrightarrow> view (set_chipSelects ops w s) =
      (view s)\<lparr>selects := w, bus := csf (selects (view s)) w (bus (view s))\<rparr>"
    and v_get_configuration: "get_configuration ops s = cfg (view s)"
    and v_set_configuration: "ctl_idle (view s) \<Longrightarrow>
      \<exists>c \<in> {w, w AND NOT (push_bit 28 1)}. view (set_configuration ops w s) = (view s)\<lparr>cfg := c\<rparr>"
    and v_set_control: "rxq (view s) = [] \<Longrightarrow> room (view s) = 0 \<Longrightarrow> view (set_control ops w s) = (view s)\<lparr>ctrl := w\<rparr>"
    and v_set_start: "rxq (view s) = [] \<Longrightarrow> room (view s) = 0 \<Longrightarrow> ctrl (view s) AND ControlReceiveEnable ops \<noteq> 0 \<Longrightarrow>
      unat w \<le> 0x7ff \<Longrightarrow> view (set_start ops w s) = ctl_start (ctrl (view s) AND ControlTransmitEnable ops \<noteq> 0) (unat w) (view s)"
    and v_transmitFifo: "view (set_transmitFifo ops w s) = ctl_tx (ucast w) (view s)"
    and v_status: "get_status ops s = (st, s') \<Longrightarrow> view s' = view s"
    and v_status_ready: "get_status ops s = (st, s') \<Longrightarrow> rxq (view s) \<noteq> [] \<Longrightarrow>
      st AND StatusRxFifoEmpty ops \<noteq> 0 \<Longrightarrow> delay s' < delay s"
    and v_status_level: "get_status ops s = (st, s') \<Longrightarrow>
      st AND StatusRxFifoLevel ops = 0 \<longleftrightarrow> st AND StatusRxFifoEmpty ops \<noteq> 0"
    and v_receiveFifo: "rxq (view s) \<noteq> [] \<Longrightarrow> get_receiveFifo ops s = (w, s') \<Longrightarrow>
      (ucast w, view s') = ctl_rx xf (view s)"
    and receive_only: "ControlReceiveEnable ops \<noteq> 0" "ControlTransmitEnable ops \<noteq> 0"
      "ControlReceiveEnable ops AND ControlTransmitEnable ops = 0"
    and byte_count_mask: "StartByteCountMask ops = 0x7ff"
begin

lemma transmit_receive:
  "(ControlTransmitEnable ops OR ControlReceiveEnable ops) AND ControlReceiveEnable ops \<noteq> 0"
  "(ControlTransmitEnable ops OR ControlReceiveEnable ops) AND ControlTransmitEnable ops \<noteq> 0"
  using receive_only by (auto simp: bit_eq_iff bit_simps)

end

section \<open>A controller\<close>

text \<open>
  A controller that keeps the view as its state and is always ready: the instance that shows the
  contract can be met. \<open>idle_control\<close> tells whether configuration bit 28 can be set; the register
  layout is that of \<open>doc/ip/spi.md\<close>.
\<close>

definition sim_spi :: "bool \<Rightarrow> (u32 \<Rightarrow> u8 \<Rightarrow> 'b \<Rightarrow> u8 \<times> 'b) \<Rightarrow> (u32 \<Rightarrow> u32 \<Rightarrow> 'b \<Rightarrow> 'b) \<Rightarrow> 'b ctl spi_ops" where
  "sim_spi idle_control xf csf =
    \<lparr>spi_init = (\<lambda>cpol cpha msb speed v.
       v\<lparr>cfg := push_bit 31 (of_bool cpol) OR push_bit 30 (of_bool cpha) OR push_bit 29 (of_bool msb) OR speed\<rparr>),
     blocking_write = (\<lambda>bs v. v\<lparr>bus := snd (xfers (xf (selects v)) bs (bus v))\<rparr>),
     blocking_read = (\<lambda>n v. case xfers (xf (selects v)) (replicate n (copi_idle (cfg v))) (bus v) of
       (ys, b) \<Rightarrow> (ys, v\<lparr>bus := b\<rparr>)),
     blocking_read_stopped = (\<lambda>n k v.
       v\<lparr>bus := snd (xfers (xf (selects v)) (replicate (k + 1) (copi_idle (cfg v))) (bus v)), rxq := replicate (n - (k + 1)) (copi_idle (cfg v))\<rparr>),
     wait_idle = (\<lambda>v. v),
     get_chipSelects = selects,
     set_chipSelects = (\<lambda>w v. v\<lparr>selects := w, bus := csf (selects v) w (bus v)\<rparr>),
     get_configuration = cfg,
     set_configuration = (\<lambda>w v. v\<lparr>cfg := (if idle_control then w else w AND NOT (push_bit 28 1))\<rparr>),
     set_control = (\<lambda>w v. v\<lparr>ctrl := w\<rparr>),
     set_start = (\<lambda>w v. ctl_start (ctrl v AND 4 \<noteq> 0) (unat w) v),
     get_status = (\<lambda>v. (if rxq v = [] then push_bit 17 1 else push_bit 8 1, v)),
     get_receiveFifo = (\<lambda>v. case ctl_rx xf v of (y, v') \<Rightarrow> (ucast y, v')),
     set_transmitFifo = (\<lambda>w v. ctl_tx (ucast w) v),
     ControlTransmitEnable = 4,
     ControlReceiveEnable = 8,
     StatusRxFifoEmpty = push_bit 17 1,
     StatusRxFifoLevel = 0xff00,
     StartByteCountMask = 0x7ff\<rparr>"

interpretation sim_controller: spi_controller "sim_spi ic xf csf" "\<lambda>v. v" "\<lambda>_. 0" xf csf
  by unfold_locales (auto simp: sim_spi_def split_beta split: if_splits)

end
