(* ===== verification/Sd_Card.thy ===== *)
theory Sd_Card
  imports Crc Spi_Controller Spi_Microsd "HOL-Library.Monad_Syntax"
begin

unbundle bit_operations_syntax

text \<open>
  The SPI-mode SD card driver (\<open>SdCard\<close> in \<open>sdcard-utils.hh\<close>) over an arbitrary controller \<open>ops\<close>.
  An operation takes the state of the machine and returns its result with the new state, or \<open>None\<close>
  when it never returns: every polling loop of the driver is a partial function. Buffers the driver fills are returned as the bytes
  stored from index 0 on. Logging is left out.
\<close>

section \<open>The object\<close>

record sdcard =
  cs :: u32
  det :: u32
  crcOn :: bool
  idleControl :: bool

text \<open>The constructor leaves \<open>idleControl\<close> as it finds it in \<open>raw\<close>; only \<open>init\<close> sets it.\<close>

definition SdCard :: "sdcard \<Rightarrow> nat \<Rightarrow> nat \<Rightarrow> bool \<Rightarrow> sdcard" where
  "SdCard raw csn detn crc = raw\<lparr>cs := push_bit csn 1, det := push_bit detn 1, crcOn := crc\<rparr>"

definition ones :: "u8 list" where "ones = replicate 10 0xff"

definition StartBlockToken :: u8 where "StartBlockToken = 0xfe"
definition StartBlockTokenMW :: u8 where "StartBlockTokenMW = 0xfc"
definition StopTranToken :: u8 where "StopTranToken = 0xfd"

text \<open>The driver's \<open>kBlockLen\<close>; the card's constant of that name is in \<open>Spi_Microsd\<close>.\<close>

definition sd_kBlockLen :: nat where "sd_kBlockLen = 512"

definition present :: "sdcard \<Rightarrow> u32 \<Rightarrow> bool" where
  "present drv debouncedInput \<longleftrightarrow> debouncedInput AND det drv = 0"

definition select_card :: "'s spi_ops \<Rightarrow> sdcard \<Rightarrow> bool \<Rightarrow> 's \<Rightarrow> 's" where
  "select_card ops drv enable s =
    set_chipSelects ops (if enable then get_chipSelects ops s AND NOT (cs drv) else get_chipSelects ops s OR cs drv) s"

section \<open>Sending and receiving bytes\<close>

definition command_frame :: "sdcard \<Rightarrow> u8 \<Rightarrow> u32 \<Rightarrow> u8 list" where
  "command_frame drv code arg =
    (let cmd = [0x40 OR code, ucast (drop_bit 24 arg), ucast (drop_bit 16 arg), ucast (drop_bit 8 arg), ucast arg]
     in cmd @ [if crcOn drv \<or> code = CMD_GO_IDLE_STATE \<or> code = CMD_SEND_IF_COND
               then 1 OR push_bit 1 (calc_crc7 cmd) else 0xff])"

definition send_command :: "'s spi_ops \<Rightarrow> sdcard \<Rightarrow> u8 \<Rightarrow> u32 \<Rightarrow> 's \<Rightarrow> 's" where
  "send_command ops drv code arg s =
    (let s = blocking_write ops [0xff] s in blocking_write ops (command_frame drv code arg) s)"

text \<open>\<open>while (spi->status & SonataSpi::StatusRxFifoEmpty) {}\<close>\<close>

partial_function (option) wait_rx :: "'s spi_ops \<Rightarrow> 's \<Rightarrow> 's option" where
  "wait_rx ops s =
    (case get_status ops s of (st, s') \<Rightarrow>
       if st AND StatusRxFifoEmpty ops \<noteq> 0 then wait_rx ops s' else Some s')"

text \<open>\<open>while ((spi->status & SonataSpi::StatusRxFifoLevel) == 0) {}\<close>\<close>

partial_function (option) wait_rx_level :: "'s spi_ops \<Rightarrow> 's \<Rightarrow> 's option" where
  "wait_rx_level ops s =
    (case get_status ops s of (st, s') \<Rightarrow>
       if st AND StatusRxFifoLevel ops = 0 then wait_rx_level ops s' else Some s')"

definition pop_rx :: "'s spi_ops \<Rightarrow> 's \<Rightarrow> (u8 \<times> 's) option" where
  "pop_rx ops s = do { s \<leftarrow> wait_rx ops s; Some (case get_receiveFifo ops s of (w, s') \<Rightarrow> (ucast w, s')) }"

text \<open>\<open>while (data < end)\<close> of both branches of \<open>read_card_data\<close>, with the number of bytes left:
  without \<open>idleControl\<close> each round first queues another byte of ones.\<close>

fun rx_loop :: "'s spi_ops \<Rightarrow> bool \<Rightarrow> nat \<Rightarrow> 's \<Rightarrow> (u8 list \<times> 's) option" where
  "rx_loop ops idle 0 s = Some ([], s)"
| "rx_loop ops idle (Suc n) s = do {
     (x, s) \<leftarrow> pop_rx ops (if idle then s else set_transmitFifo ops 0xff s);
     (xs, s) \<leftarrow> rx_loop ops idle n s;
     Some (x # xs, s) }"

definition read_card_data :: "'s spi_ops \<Rightarrow> sdcard \<Rightarrow> u16 \<Rightarrow> 's \<Rightarrow> (u8 list \<times> 's) option" where
  "read_card_data ops drv len s =
    (if \<not> len \<le> 0x7ff then None
     else let
       len = len AND StartByteCountMask ops;
       s = wait_idle ops s
     in if len \<noteq> 0 then do {
          let s = (if idleControl drv then
                     set_start ops (ucast len) (set_control ops (ControlReceiveEnable ops) s)
                   else
                     set_transmitFifo ops 0xff (set_start ops (ucast len)
                       (set_control ops (ControlReceiveEnable ops OR ControlTransmitEnable ops) s)));
          (xs, s) \<leftarrow> rx_loop ops (idleControl drv) (unat len - 1) s;
          (x, s) \<leftarrow> pop_rx ops s;
          Some (xs @ [x], s) }
        else Some ([], s))"

definition get_response_byte :: "'s spi_ops \<Rightarrow> sdcard \<Rightarrow> 's \<Rightarrow> (u8 \<times> 's) option" where
  "get_response_byte ops drv s = do { (r, s) \<leftarrow> read_card_data ops drv 1 s; Some (hd r, s) }"

text \<open>The driver's loops that poll for a byte: read until \<open>stop\<close> holds of the byte.\<close>

partial_function (option) poll_byte :: "'s spi_ops \<Rightarrow> sdcard \<Rightarrow> (u8 \<Rightarrow> bool) \<Rightarrow> 's \<Rightarrow> (u8 \<times> 's) option" where
  "poll_byte ops drv stop s = do {
     (rd1, s) \<leftarrow> get_response_byte ops drv s;
     if stop rd1 then Some (rd1, s) else poll_byte ops drv stop s }"

definition get_response_R1 :: "'s spi_ops \<Rightarrow> sdcard \<Rightarrow> 's \<Rightarrow> (u8 \<times> 's) option" where
  "get_response_R1 ops drv s = poll_byte ops drv (\<lambda>rd1. rd1 AND 0x80 = 0) (wait_idle ops s)"

definition wait_not_busy :: "'s spi_ops \<Rightarrow> sdcard \<Rightarrow> 's \<Rightarrow> 's option" where
  "wait_not_busy ops drv s = do { (_, s) \<leftarrow> poll_byte ops drv (\<lambda>r. r \<noteq> 0x00) s; Some s }"

definition get_response_R1b :: "'s spi_ops \<Rightarrow> sdcard \<Rightarrow> 's \<Rightarrow> (u8 \<times> 's) option" where
  "get_response_R1b ops drv s = do {
     (rd1, s) \<leftarrow> get_response_R1 ops drv (wait_idle ops s);
     s \<leftarrow> wait_not_busy ops drv s;
     Some (rd1, s) }"

definition get_data_response_busy :: "'s spi_ops \<Rightarrow> sdcard \<Rightarrow> 's \<Rightarrow> (u8 \<times> 's) option" where
  "get_data_response_busy ops drv s = do {
     (rd1, s) \<leftarrow> poll_byte ops drv (\<lambda>rd1. rd1 AND 0x11 = 0x01) (wait_idle ops s);
     s \<leftarrow> wait_not_busy ops drv s;
     Some (rd1, s) }"

text \<open>The loop over the last four bytes of a response R3, with the number of rounds left.\<close>

fun r3_loop :: "'s spi_ops \<Rightarrow> sdcard \<Rightarrow> nat \<Rightarrow> 's \<Rightarrow> 's option" where
  "r3_loop ops drv 0 s = Some s"
| "r3_loop ops drv (Suc r) s = do {
     let s = (if idleControl drv then set_control ops (ControlReceiveEnable ops) s
              else set_control ops (ControlTransmitEnable ops OR ControlReceiveEnable ops) (set_transmitFifo ops 0xff s));
     s \<leftarrow> wait_rx_level ops (wait_idle ops (set_start ops 1 s));
     r3_loop ops drv r (snd (get_receiveFifo ops s)) }"

definition get_response_R3 :: "'s spi_ops \<Rightarrow> sdcard \<Rightarrow> 's \<Rightarrow> 's option" where
  "get_response_R3 ops drv s = do { (_, s) \<leftarrow> get_response_R1 ops drv s; r3_loop ops drv 4 s }"

section \<open>Data blocks\<close>

definition collected_data :: "'s spi_ops \<Rightarrow> sdcard \<Rightarrow> u16 \<Rightarrow> 's \<Rightarrow> (bool \<times> u8 list \<times> 's) option" where
  "collected_data ops drv len s = do {
     (_, s) \<leftarrow> poll_byte ops drv (\<lambda>r. StartBlockToken = r) s;
     (buf, s) \<leftarrow> read_card_data ops drv len s;
     (crc16, s) \<leftarrow> read_card_data ops drv 2 s;
     let exp_crc16 = calc_crc16 buf;
     let obs_crc16 = push_bit 8 (ucast (crc16 ! 0)) OR ucast (crc16 ! 1);
     if crcOn drv \<and> obs_crc16 \<noteq> exp_crc16 then Some (False, buf, select_card ops drv False s)
     else Some (True, buf, s) }"

definition read_cid_csd :: "'s spi_ops \<Rightarrow> sdcard \<Rightarrow> u8 \<Rightarrow> u16 \<Rightarrow> 's \<Rightarrow> (bool \<times> u8 list \<times> 's) option" where
  "read_cid_csd ops drv cmd len s = do {
     (_, s) \<leftarrow> get_response_R1 ops drv (send_command ops drv cmd 0 (select_card ops drv True s));
     (ok, buf, s) \<leftarrow> collected_data ops drv len s;
     Some (ok, buf, select_card ops drv False s) }"

definition read_cid :: "'s spi_ops \<Rightarrow> sdcard \<Rightarrow> u16 \<Rightarrow> 's \<Rightarrow> (bool \<times> u8 list \<times> 's) option" where
  "read_cid ops drv len s = read_cid_csd ops drv CMD_SEND_CID len s"

definition read_csd :: "'s spi_ops \<Rightarrow> sdcard \<Rightarrow> u16 \<Rightarrow> 's \<Rightarrow> (bool \<times> u8 list \<times> 's) option" where
  "read_csd ops drv len s = read_cid_csd ops drv CMD_SEND_CSD len s"

text \<open>\<open>for (size_t blk = 0u; blk < num_blocks; blk++)\<close> of \<open>read_blocks\<close>, with the number of rounds left.\<close>

fun read_blocks_loop :: "'s spi_ops \<Rightarrow> sdcard \<Rightarrow> u32 \<Rightarrow> bool \<Rightarrow> nat \<Rightarrow> nat \<Rightarrow> 's \<Rightarrow> (bool \<times> u8 list \<times> 's) option" where
  "read_blocks_loop ops drv block multi blk 0 s = Some (True, [], s)"
| "read_blocks_loop ops drv block multi blk (Suc n) s = do {
     s \<leftarrow> (if multi then
             (if blk = 0 then do {
                (_, s) \<leftarrow> get_response_R1 ops drv (send_command ops drv CMD_READ_MULTIPLE_BLOCK block s);
                Some s }
              else Some s)
           else do {
             (_, s) \<leftarrow> get_response_R1 ops drv (send_command ops drv CMD_READ_SINGLE_BLOCK (block + of_nat blk) s);
             Some s });
     (ok, data, s) \<leftarrow> collected_data ops drv (of_nat sd_kBlockLen) s;
     if \<not> ok then Some (False, data, s)
     else do {
       (ok, rest, s) \<leftarrow> read_blocks_loop ops drv block multi (Suc blk) n s;
       Some (ok, data @ rest, s) } }"

definition read_blocks :: "'s spi_ops \<Rightarrow> sdcard \<Rightarrow> u32 \<Rightarrow> nat \<Rightarrow> 's \<Rightarrow> (bool \<times> u8 list \<times> 's) option" where
  "read_blocks ops drv block num_blocks s = do {
     let multi = (num_blocks > 1);
     (ok, buf, s) \<leftarrow> read_blocks_loop ops drv block multi 0 num_blocks (select_card ops drv True s);
     s \<leftarrow> (if multi then do {
             (_, s) \<leftarrow> get_response_R1b ops drv (send_command ops drv CMD_STOP_TRANSMISSION 0 s);
             Some s }
           else Some s);
     Some (ok, buf, select_card ops drv False s) }"

text \<open>The loop of \<open>write_blocks\<close>, with the number of rounds left.\<close>

fun write_blocks_loop :: "'s spi_ops \<Rightarrow> sdcard \<Rightarrow> u32 \<Rightarrow> u8 list \<Rightarrow> bool \<Rightarrow> nat \<Rightarrow> nat \<Rightarrow> 's \<Rightarrow> (bool \<times> 's) option" where
  "write_blocks_loop ops drv block buf multi blk 0 s = Some (True, s)"
| "write_blocks_loop ops drv block buf multi blk (Suc n) s = do {
     let data = take sd_kBlockLen (drop (blk * sd_kBlockLen) buf);
     let crc = calc_crc16 data;
     let crc16 = (if crcOn drv then [ucast (drop_bit 8 crc), ucast crc] else [0xff, 0xff]);
     s \<leftarrow> (if multi then
             (if blk = 0 then do {
                (_, s) \<leftarrow> get_response_R1 ops drv (send_command ops drv CMD_WRITE_MULTIPLE_BLOCK block s);
                Some s }
              else Some s)
           else do {
             (_, s) \<leftarrow> get_response_R1 ops drv (send_command ops drv CMD_WRITE_SINGLE_BLOCK (block + of_nat blk) s);
             Some s });
     let start_token = (if multi then StartBlockTokenMW else StartBlockToken);
     let s = blocking_write ops [start_token] s;
     let s = blocking_write ops data s;
     let s = blocking_write ops crc16 s;
     (rsp, s) \<leftarrow> get_data_response_busy ops drv s;
     if 5 \<noteq> 0x1f AND rsp then Some (False, s)
     else write_blocks_loop ops drv block buf multi (Suc blk) n s }"

definition write_blocks :: "'s spi_ops \<Rightarrow> sdcard \<Rightarrow> u32 \<Rightarrow> u8 list \<Rightarrow> nat \<Rightarrow> 's \<Rightarrow> (bool \<times> 's) option" where
  "write_blocks ops drv block buf num_blocks s = do {
     let multi = (num_blocks > 1);
     (ok, s) \<leftarrow> write_blocks_loop ops drv block buf multi 0 num_blocks (select_card ops drv True s);
     s \<leftarrow> (if multi then do {
             (_, s) \<leftarrow> poll_byte ops drv (\<lambda>r. 0x00 = r) (blocking_write ops [StopTranToken] s);
             wait_not_busy ops drv s }
           else Some s);
     Some (ok, select_card ops drv False s) }"

section \<open>Initialisation\<close>

partial_function (option) go_idle_loop :: "'s spi_ops \<Rightarrow> sdcard \<Rightarrow> 's \<Rightarrow> 's option" where
  "go_idle_loop ops drv s = do {
     (r, s) \<leftarrow> get_response_R1 ops drv (send_command ops drv CMD_GO_IDLE_STATE 0 s);
     if 0x01 \<noteq> r then go_idle_loop ops drv s else Some s }"

partial_function (option) op_cond_loop :: "'s spi_ops \<Rightarrow> sdcard \<Rightarrow> 's \<Rightarrow> 's option" where
  "op_cond_loop ops drv s = do {
     (_, s) \<leftarrow> get_response_R1 ops drv (send_command ops drv CMD_APP_CMD 0 s);
     (r, s) \<leftarrow> get_response_R1 ops drv (send_command ops drv SD_SEND_OP_COND (push_bit 30 1) s);
     if 0x01 AND r \<noteq> 0 then op_cond_loop ops drv s else Some s }"

definition sd_init :: "'s spi_ops \<Rightarrow> sdcard \<Rightarrow> 's \<Rightarrow> (bool \<times> sdcard \<times> 's) option" where
  "sd_init ops drv s = do {
     let s = spi_init ops False False True 0 s;
     let s = set_configuration ops (get_configuration ops s OR push_bit 28 1) s;
     let drv = drv\<lparr>idleControl := (get_configuration ops s AND push_bit 28 1 \<noteq> 0)\<rparr>;
     let s = wait_idle ops (blocking_write ops ones s);
     let s = select_card ops drv True s;
     s \<leftarrow> go_idle_loop ops drv s;
     s \<leftarrow> get_response_R3 ops drv (send_command ops drv CMD_SEND_IF_COND 0x1aa s);
     (_, s) \<leftarrow> get_response_R1 ops drv (send_command ops drv CMD_CRC_ON_OFF (of_bool (crcOn drv)) s);
     s \<leftarrow> get_response_R3 ops drv (send_command ops drv CMD_READ_OCR 0 s);
     s \<leftarrow> op_cond_loop ops drv s;
     s \<leftarrow> get_response_R3 ops drv (send_command ops drv CMD_READ_OCR 0 s);
     (rd, s) \<leftarrow> get_response_R1 ops drv (send_command ops drv CMD_SET_BLOCKLEN (of_nat sd_kBlockLen) s);
     Some (True, drv, select_card ops drv False s) }"

end
