(* ===== verification/Sd_Protocol.thy ===== *)
theory Sd_Protocol
  imports Sd_Card
begin

unbundle bit_operations_syntax

declare upt_rec_numeral [simp del]

text \<open>
  What the SD driver's operations do on the wire, and what the card answers, byte by byte. The first part holds
  over any controller that fulfils its contract: reading \<open>n\<close> bytes exchanges \<open>n\<close> bytes of ones. The second part
  describes the simulated card as a machine that is fed bytes and returns bytes: command frames, responses, the packet of a
  block read with its checksum, and the collection of a block write. It rests on the refinement of the
  bit level by the byte level (\<open>microsd_silent.xfer_byte_silent\<close>).
\<close>

section \<open>Reading over any controller\<close>

text \<open>The controller has finished, with the bus as given and the registers the drivers set unchanged.\<close>

definition moved :: "'b ctl \<Rightarrow> 'b \<Rightarrow> 'b ctl \<Rightarrow> bool" where
  "moved v b v' \<longleftrightarrow> ctl_idle v' \<and> selects v' = selects v \<and> cfg v' = cfg v \<and> bus v' = b"

lemma and_0x7ff: "len \<le> 0x7ff \<Longrightarrow> (len :: u16) AND 0x7ff = len"
proof -
  assume "len \<le> 0x7ff"
  then have "take_bit 11 (unat len) = unat len" by (intro take_bit_nat_eq_self) (simp add: word_le_nat_alt)
  then have "unat (len AND 0x7ff) = unat len"
    by (simp add: unsigned_and_eq take_bit_eq_mask mask_eq_exp_minus_1)
  then show ?thesis by (simp add: word_unat_eq_iff)
qed

context spi_controller
begin

lemma wait_rx_returns:
  assumes "rxq (view s) \<noteq> []"
  shows "\<exists>s'. wait_rx ops s = Some s' \<and> view s' = view s"
  using assms
proof (induction "delay s" arbitrary: s rule: less_induct)
  case less
  obtain st s1 where st: "get_status ops s = (st, s1)" by fastforce
  note v = v_status [OF st]
  show ?case
  proof (cases "st AND StatusRxFifoEmpty ops = 0")
    case True
    then show ?thesis using st v by (subst wait_rx.simps) simp
  next
    case False
    with less.hyps [of s1] v_status_ready [OF st less.prems] v less.prems
    show ?thesis using st False by (subst wait_rx.simps) simp
  qed
qed

lemma wait_rx_level_returns:
  assumes "rxq (view s) \<noteq> []"
  shows "\<exists>s'. wait_rx_level ops s = Some s' \<and> view s' = view s"
  using assms
proof (induction "delay s" arbitrary: s rule: less_induct)
  case less
  obtain st s1 where st: "get_status ops s = (st, s1)" by fastforce
  note v = v_status [OF st] and l = v_status_level [OF st]
  show ?case
  proof (cases "st AND StatusRxFifoEmpty ops = 0")
    case True
    then show ?thesis using st v l by (subst wait_rx_level.simps) simp
  next
    case False
    with less.hyps [of s1] v_status_ready [OF st less.prems] v less.prems
    show ?thesis using st False l by (subst wait_rx_level.simps) simp
  qed
qed

lemma pop_rx_returns:
  assumes "rxq (view s) = x # xs" "xf (selects (view s)) x (bus (view s)) = (y, b)"
  shows "\<exists>s'. pop_rx ops s = Some (y, s') \<and> view s' = (view s)\<lparr>bus := b, rxq := xs\<rparr>"
proof -
  obtain s1 where s1: "wait_rx ops s = Some s1" "view s1 = view s"
    using wait_rx_returns [of s] assms(1) by auto
  obtain w s2 where s2: "get_receiveFifo ops s1 = (w, s2)" by fastforce
  have "(ucast w, view s2) = ctl_rx xf (view s1)"
    using v_receiveFifo [OF _ s2] s1 assms(1) by simp
  with s1 s2 assms show ?thesis by (simp add: pop_rx_def ctl_rx_def)
qed

lemma rx_loop_idle:
  assumes "rxq (view s) = xs @ r" "xfers (xf (selects (view s))) xs (bus (view s)) = (ys, b)"
  shows "\<exists>s'. rx_loop ops True (length xs) s = Some (ys, s') \<and> view s' = (view s)\<lparr>bus := b, rxq := r\<rparr>"
  using assms
proof (induction xs arbitrary: s ys)
  case Nil
  then show ?case by simp
next
  case (Cons x xs)
  obtain y b1 zs where y: "xf (selects (view s)) x (bus (view s)) = (y, b1)"
    "xfers (xf (selects (view s))) xs b1 = (zs, b)" "ys = y # zs"
    using Cons.prems(2) by (auto split: prod.splits)
  obtain s1 where s1: "pop_rx ops s = Some (y, s1)" "view s1 = (view s)\<lparr>bus := b1, rxq := xs @ r\<rparr>"
    using pop_rx_returns [OF _ y(1), of "xs @ r"] Cons.prems(1) by auto
  from Cons.IH [of s1 zs] s1(2) y(2) obtain s2 where
    "rx_loop ops True (length xs) s1 = Some (zs, s2)" "view s2 = (view s)\<lparr>bus := b, rxq := r\<rparr>" by auto
  with s1(1) y(3) show ?case by simp
qed

lemma rx_loop_feed:
  assumes "rxq (view s) = [0xff]" "room (view s) = n" "xfers (xf (selects (view s))) (replicate n 0xff) (bus (view s)) = (ys, b)"
  shows "\<exists>s'. rx_loop ops False n s = Some (ys, s') \<and> view s' = (view s)\<lparr>bus := b, room := 0\<rparr>"
  using assms
proof (induction n arbitrary: s ys)
  case 0
  then show ?case by simp
next
  case (Suc n)
  obtain y b1 zs where y: "xf (selects (view s)) 0xff (bus (view s)) = (y, b1)"
    "xfers (xf (selects (view s))) (replicate n 0xff) b1 = (zs, b)" "ys = y # zs"
    using Suc.prems(3) by (auto split: prod.splits)
  define s0 where "s0 = set_transmitFifo ops 0xff s"
  have v0: "view s0 = (view s)\<lparr>rxq := [0xff, 0xff], room := n\<rparr>"
    using Suc.prems by (simp add: s0_def v_transmitFifo ctl_tx_def)
  obtain s1 where s1: "pop_rx ops s0 = Some (y, s1)" "view s1 = (view s)\<lparr>bus := b1, rxq := [0xff], room := n\<rparr>"
    using pop_rx_returns [of s0 "0xff" "[0xff]" y b1] y(1) v0 by auto
  from Suc.IH [of s1 zs] s1(2) y(2) obtain s2 where
    "rx_loop ops False n s1 = Some (zs, s2)" "view s2 = (view s)\<lparr>bus := b, rxq := [0xff], room := 0\<rparr>" by auto
  with s1(1) y(3) Suc.prems(1) show ?case by (simp add: s0_def)
qed

text \<open>With either kind of controller, \<open>read_card_data\<close> returns what the card answers to bytes of ones.\<close>

lemma read_card_data_exchanges:
  assumes "ctl_idle (view s)" "0 < len" "len \<le> 0x7ff" "idleControl drv \<longrightarrow> bit (cfg (view s)) 28"
    "xfers (xf (selects (view s))) (replicate (unat len) 0xff) (bus (view s)) = (ys, b)"
  shows "\<exists>s'. read_card_data ops drv len s = Some (ys, s') \<and> moved (view s) b (view s')"
proof -
  define n where "n = unat len - 1"
  have n: "unat len = Suc n" using assms(2) by (simp add: n_def word_less_nat_alt)
  have len: "len AND 0x7ff = len" using assms(3) by (rule and_0x7ff)
  have rep: "replicate (unat len) (0xff :: u8) = replicate n 0xff @ [0xff]" by (simp add: n replicate_append_same)
  obtain zs b1 y where z: "xfers (xf (selects (view s))) (replicate n 0xff) (bus (view s)) = (zs, b1)"
    "xf (selects (view s)) 0xff b1 = (y, b)" "ys = zs @ [y]"
    using assms(5) unfolding rep xfers_append by (auto split: prod.splits)
  define s1 where "s1 = (if idleControl drv then
                     set_start ops (ucast len) (set_control ops (ControlReceiveEnable ops) (wait_idle ops s))
                   else
                     set_transmitFifo ops 0xff (set_start ops (ucast len)
                       (set_control ops (ControlReceiveEnable ops OR ControlTransmitEnable ops) (wait_idle ops s))))"
  have "\<exists>s2. rx_loop ops (idleControl drv) n s1 = Some (zs, s2) \<and>
      rxq (view s2) = [0xff] \<and> moved (view s) b1 ((view s2)\<lparr>rxq := []\<rparr>)"
  proof (cases "idleControl drv")
    case True
    define v where "v = (view s)\<lparr>ctrl := ControlReceiveEnable ops, rxq := replicate n 0xff @ [0xff]\<rparr>"
    have "view s1 = v"
      using True assms(1,3,4) n receive_only
      by (simp add: s1_def v_def v_set_start v_set_control v_wait_idle ctl_idle_def ctl_start_def copi_idle_def
          word_le_nat_alt replicate_append_same)
    with rx_loop_idle [of s1 "replicate n 0xff" "[0xff]" zs b1] z(1) True assms(1) show ?thesis
      by (auto simp: v_def moved_def ctl_idle_def)
  next
    case False
    define v where "v = (view s)\<lparr>ctrl := ControlReceiveEnable ops OR ControlTransmitEnable ops, rxq := [0xff], room := n\<rparr>"
    have "view s1 = v"
      using False assms(1,3,4) n transmit_receive
      by (simp add: s1_def v_def v_set_start v_set_control v_wait_idle v_transmitFifo ctl_tx_def ctl_idle_def ctl_start_def
          word_le_nat_alt or.commute)
    with rx_loop_feed [of s1 n zs b1] z(1) False assms(1) show ?thesis
      by (auto simp: v_def moved_def ctl_idle_def)
  qed
  then obtain s2 where s2: "rx_loop ops (idleControl drv) n s1 = Some (zs, s2)"
    "rxq (view s2) = [0xff]" "moved (view s) b1 ((view s2)\<lparr>rxq := []\<rparr>)" by blast
  with pop_rx_returns [of s2 "0xff" "[]" y b] z(2) s2(2,3) obtain s3 where
    "pop_rx ops s2 = Some (y, s3)" "view s3 = (view s2)\<lparr>bus := b, rxq := []\<rparr>"
    by (auto simp: moved_def)
  moreover have "read_card_data ops drv len s = Some (zs @ [y], s3)"
    using assms(2,3) s2(1) calculation(1) unfolding s1_def n_def
    by (auto simp: read_card_data_def Let_def byte_count_mask len)
  ultimately show ?thesis using s2(3) z(3) by (auto simp: moved_def ctl_idle_def)
qed

lemma r3_loop_exchanges:
  assumes "ctl_idle (view s)" "idleControl drv \<longrightarrow> bit (cfg (view s)) 28"
    "xfers (xf (selects (view s))) (replicate n 0xff) (bus (view s)) = (ys, b)"
  shows "\<exists>s'. r3_loop ops drv n s = Some s' \<and> moved (view s) b (view s')"
  using assms
proof (induction n arbitrary: s ys)
  case 0
  then show ?case by (simp add: moved_def)
next
  case (Suc n)
  obtain y b1 zs where y: "xf (selects (view s)) 0xff (bus (view s)) = (y, b1)"
    "xfers (xf (selects (view s))) (replicate n 0xff) b1 = (zs, b)"
    using Suc.prems(3) by (auto split: prod.splits)
  define s1 where "s1 = wait_idle ops (set_start ops 1
     (if idleControl drv then set_control ops (ControlReceiveEnable ops) s
      else set_control ops (ControlTransmitEnable ops OR ControlReceiveEnable ops) (set_transmitFifo ops 0xff s)))"
  have v1: "rxq (view s1) = [0xff]" "moved (view s) (bus (view s)) ((view s1)\<lparr>rxq := []\<rparr>)"
    using Suc.prems(1,2) receive_only transmit_receive
    by (auto simp: s1_def moved_def v_wait_idle v_set_start v_set_control v_transmitFifo ctl_tx_def ctl_start_def
        ctl_idle_def copi_idle_def)
  obtain s2 where s2: "wait_rx_level ops s1 = Some s2" "view s2 = view s1"
    using wait_rx_level_returns [of s1] v1(1) by auto
  obtain w s3 where s3: "get_receiveFifo ops s2 = (w, s3)" by fastforce
  have "(ucast w, view s3) = ctl_rx xf (view s2)"
    using v_receiveFifo [OF _ s3] s2(2) v1(1) by simp
  then have v3: "moved (view s) b1 (view s3)"
    using y(1) v1 s2(2) by (simp add: ctl_rx_def moved_def ctl_idle_def split_beta)
  with Suc.IH [of s3 zs] Suc.prems(2) y(2) obtain s4 where
    "r3_loop ops drv n s3 = Some s4" "moved (view s3) b (view s4)" by (auto simp: moved_def)
  with s2(1) s3 v3 show ?case
    unfolding s1_def by (auto simp: Let_def moved_def)
qed

end

section \<open>The card byte by byte\<close>

text \<open>
  What the next byte on the bus returns while a byte is exchanged, and the card after that. Once the first
  byte after a selection has passed, the card is always one \<open>readByte\<close> ahead of the controller: \<open>ahead b c\<close> says that
  the bus \<open>b\<close> holds the card \<open>c\<close> whose next byte has already been fetched.
\<close>

type_synonym sd_bus = "spi_microsd \<times> u32"

definition sd_next :: "spi_microsd \<Rightarrow> u8 \<times> spi_microsd" where
  "sd_next c = (case dev_read spi_microsd_readByte 0 c of (c', p) \<Rightarrow> (case p of Some x \<Rightarrow> x | None \<Rightarrow> 0, c'))"

fun sd_reads :: "nat \<Rightarrow> spi_microsd \<Rightarrow> u8 list \<times> spi_microsd" where
  "sd_reads 0 c = ([], c)"
| "sd_reads (Suc n) c = (case sd_next c of (x, c') \<Rightarrow> (case sd_reads n c' of (xs, c'') \<Rightarrow> (x # xs, c'')))"

definition ahead :: "sd_bus \<Rightarrow> spi_microsd \<Rightarrow> bool" where
  "ahead b c \<longleftrightarrow> silent_rel spi_microsd_readByte 0 b (snd (sd_next c), Some (fst (sd_next c)))"

definition sd_put :: "u8 \<Rightarrow> spi_microsd \<Rightarrow> spi_microsd" where
  "sd_put b c = dev_write spi_microsd_writeByte 0 b c"

lemma silent_step_sd: "silent_step spi_microsd_readByte spi_microsd_writeByte 0 b c =
    (snd (sd_next (sd_put b c)), fst (sd_next (sd_put b c)))"
  by (simp add: silent_step_def byte_step_def sd_next_def sd_put_def split_beta)

text \<open>How the slot of the card sees the controller's byte exchanges and chip selects, on its line.\<close>

definition sd_xf :: "nat \<Rightarrow> u32 \<Rightarrow> u8 \<Rightarrow> sd_bus \<Rightarrow> u8 \<times> sd_bus" where
  "sd_xf line sel x bs = xfer_byte spi_microsd_readByte spi_microsd_writeByte (drop_bit line sel) 0 x bs"

definition sd_csf :: "nat \<Rightarrow> u32 \<Rightarrow> u32 \<Rightarrow> sd_bus \<Rightarrow> sd_bus" where
  "sd_csf line old new bs =
    (if bit old line = bit new line then bs
     else case bs of (d, q) \<Rightarrow> (csEdge spi_microsd_csChanged (drop_bit line new) 0 d, q))"

lemma drop_bit_and_1: "drop_bit n (w :: u32) AND 1 = of_bool (bit w n)"
  by (simp add: bit_iff_odd_drop_bit and_one_eq mod_2_eq_odd)

lemma sd_xf_selected: "\<not> bit sel line \<Longrightarrow>
    sd_xf line sel x bs = xfer_byte spi_microsd_readByte spi_microsd_writeByte 0 0 x bs"
  by (simp add: sd_xf_def xfer_byte_def sck_cycles_cs [of _ _ "drop_bit line sel"] drop_bit_and_1)

lemma sd_xf_step:
  assumes "\<not> bit sel line" "silent_rel spi_microsd_readByte 0 bs (c, out)" "sd_drives (sd_put b c)"
  shows "\<exists>x b1. sd_xf line sel b bs = (x, b1) \<and> ahead b1 (sd_put b c) \<and> (\<forall>p. out = Some p \<longrightarrow> x = p)"
  using microsd_silent.xfer_byte_silent [of 0 "fst bs" "snd bs" c out b] assms
  by (auto simp: sd_xf_selected silent_step_sd ahead_def simp flip: sd_put_def)

text \<open>Bytes of ones change nothing while the card waits for a command or for the start of a data block.\<close>

definition sd_deaf :: "spi_microsd \<Rightarrow> bool" where
  "sd_deaf c \<longleftrightarrow> spidevicedpi_reset c = c \<and> sd_drives c \<and>
     (if writing c then writeState c = WriteState_StartToken else cmdBytes c = 0)"

lemma sd_put_ones: "sd_deaf c \<Longrightarrow> sd_put 0xff c = c"
  by (auto simp: sd_deaf_def sd_put_def dev_write_def spi_microsd_writeByte_def sd_writeData_def split: if_splits)

lemma sd_next_cases:
  "spidevicedpi_reset c = c \<Longrightarrow> sd_next c =
    (if responding c \<and> rspBytes c < rspLen c then (sd_rsp c ! unat (rspBytes c), c\<lparr>rspBytes := rspBytes c + 1\<rparr>)
     else if reading c then
       (outByte (sd_readPacket (sd_after_response c)), spidevicedpi_reset (sd_readPacket (sd_after_response c)))
     else (0, c\<lparr>responding := False\<rparr>))"
  by (auto simp: sd_next_def dev_read_def microsd_readByte_cases reset_microsd_upd sd_after_response_def)

lemma sd_readPacket_sel [simp]:
  "cmdCode (sd_readPacket c) = cmdCode c" "writing (sd_readPacket c) = writing c"
  "writeState (sd_readPacket c) = writeState c" "cmdBytes (sd_readPacket c) = cmdBytes c"
  by (cases "readState c"; simp add: sd_readPacket_def sd_readData_def sd_readId_def sd_readMedium_def Let_def split_beta)+

lemma sd_readPacket_drives: "sd_drives c \<Longrightarrow> reading c \<Longrightarrow> sd_drives (sd_readPacket c)"
  by (simp add: sd_drives_def)

lemma sd_after_response_rest [simp]:
  "writing (sd_after_response c) = writing c" "writeState (sd_after_response c) = writeState c"
  "cmdBytes (sd_after_response c) = cmdBytes c" "writeBuf (sd_after_response c) = writeBuf c"
  "sd (sd_after_response c) = sd c" "readBytes (sd_after_response c) = readBytes c"
  by (simp_all add: sd_after_response_def)

lemma sd_deaf_next: "sd_deaf c \<Longrightarrow> sd_deaf (snd (sd_next c))"
  by (auto simp: sd_deaf_def sd_next_cases sd_readPacket_drives reset_microsd_upd) (auto simp: sd_drives_def)

lemma xfers_ones:
  assumes "\<not> bit sel line" "ahead b c" "sd_deaf (snd (sd_next c))"
  shows "\<exists>b'. xfers (sd_xf line sel) (replicate n 0xff) b = (fst (sd_reads n c), b') \<and> ahead b' (snd (sd_reads n c))"
  using assms(2,3)
proof (induction n arbitrary: b c)
  case (Suc n)
  obtain x c' where c: "sd_next c = (x, c')" by fastforce
  with Suc.prems have d: "silent_rel spi_microsd_readByte 0 b (c', Some x)" "sd_deaf c'"
    by (simp_all add: ahead_def)
  then have "sd_drives (sd_put 0xff c')" by (simp add: sd_put_ones) (simp add: sd_deaf_def)
  from sd_xf_step [OF assms(1) d(1) this] obtain b1 where
    b1: "sd_xf line sel 0xff b = (x, b1)" "ahead b1 c'" using d(2) by (auto simp: sd_put_ones)
  with Suc.IH [of b1 c'] d(2) c show ?case by (auto simp: sd_deaf_next split: prod.splits)
qed simp

text \<open>Feeding bytes to the card; each exchange fetches an answer first.\<close>

fun sd_feed :: "u8 list \<Rightarrow> spi_microsd \<Rightarrow> spi_microsd" where
  "sd_feed [] c = c"
| "sd_feed (b # bs) c = sd_feed bs (sd_put b (snd (sd_next c)))"

fun sd_feedable :: "u8 list \<Rightarrow> spi_microsd \<Rightarrow> bool" where
  "sd_feedable [] c = True"
| "sd_feedable (b # bs) c = (sd_drives (sd_put b (snd (sd_next c))) \<and> sd_feedable bs (sd_put b (snd (sd_next c))))"

lemma xfers_feed:
  assumes "\<not> bit sel line" "ahead b c" "sd_feedable bs c"
  shows "ahead (snd (xfers (sd_xf line sel) bs b)) (sd_feed bs c)"
  using assms(2,3)
proof (induction bs arbitrary: b c)
  case (Cons x bs)
  then have "silent_rel spi_microsd_readByte 0 b (snd (sd_next c), Some (fst (sd_next c)))"
    "sd_drives (sd_put x (snd (sd_next c)))" by (simp_all add: ahead_def)
  from sd_xf_step [OF assms(1) this] Cons show ?case by (auto simp: split_beta)
qed simp

lemma sd_feed_append: "sd_feed (xs @ ys) c = sd_feed ys (sd_feed xs c)"
  by (induction xs arbitrary: c) auto

lemma sd_feedable_append: "sd_feedable (xs @ ys) c \<longleftrightarrow> sd_feedable xs c \<and> sd_feedable ys (sd_feed xs c)"
  by (induction xs arbitrary: c) auto

section \<open>Commands\<close>

text \<open>A card that waits for a command and has nothing to say.\<close>

definition sd_ready :: "spi_microsd \<Rightarrow> bool" where
  "sd_ready c \<longleftrightarrow> spidevicedpi_reset c = c \<and> \<not> writing c \<and> \<not> responding c \<and> \<not> reading c \<and>
     cmdBytes c = 0 \<and> length (writeBuf c) = 512"

lemma sd_ready_deaf: "sd_ready c \<Longrightarrow> sd_deaf c"
  by (simp add: sd_ready_def sd_deaf_def sd_drives_def)

lemma sd_next_quiet: "spidevicedpi_reset c = c \<Longrightarrow> \<not> responding c \<Longrightarrow> \<not> reading c \<Longrightarrow> sd_next c = (0, c)"
  by (simp add: sd_next_cases)

lemma be32_collect:
  "push_bit 8 (push_bit 8 (push_bit 8 (push_bit 8 a OR ucast (ucast (drop_bit 24 w) :: u8))
     OR ucast (ucast (drop_bit 16 w) :: u8)) OR ucast (ucast (drop_bit 8 w) :: u8)) OR ucast (ucast w :: u8) = (w :: u32)"
proof (rule bit_word_eqI)
  fix n :: nat
  assume "n < LENGTH(32)"
  then consider "n < 8" | "8 \<le> n" "n < 16" | "16 \<le> n" "n < 24" | "24 \<le> n" "n < 32" by force
  then show "bit (push_bit 8 (push_bit 8 (push_bit 8 (push_bit 8 a OR ucast (ucast (drop_bit 24 w) :: u8))
     OR ucast (ucast (drop_bit 16 w) :: u8)) OR ucast (ucast (drop_bit 8 w) :: u8)) OR ucast (ucast w :: u8)) n = bit w n"
    by cases (auto simp: bit_simps)
qed

definition sd_cmd :: "u8 \<Rightarrow> u32 \<Rightarrow> u8 \<Rightarrow> spi_microsd \<Rightarrow> spi_microsd" where
  "sd_cmd code arg crc c = (startCommand (c\<lparr>cmdCode := code, cmdBytes := 5, cmdAddress := arg, cmdCrc := crc\<rparr>))\<lparr>cmdBytes := 0\<rparr>"

lemma sd_put_first:
  assumes "spidevicedpi_reset c = c" "\<not> writing c" "cmdBytes c = 0" "b AND 0xc0 = 0x40" "b AND 0x3f = code"
  shows "sd_put b c = c\<lparr>cmdCode := code, cmdBytes := 1\<rparr>"
  using assms by (simp add: sd_put_def dev_write_def spi_microsd_writeByte_def reset_microsd_upd)

lemma sd_put_address:
  assumes "spidevicedpi_reset c = c" "\<not> writing c" "cmdBytes c \<notin> {0, 5}"
  shows "sd_put b c = c\<lparr>cmdAddress := push_bit 8 (cmdAddress c) OR ucast b, cmdBytes := cmdBytes c + 1\<rparr>"
  using assms by (simp add: sd_put_def dev_write_def spi_microsd_writeByte_def reset_microsd_upd)

lemma sd_put_last:
  assumes "spidevicedpi_reset c = c" "\<not> writing c" "cmdBytes c = 5"
  shows "sd_put b c = (startCommand (c\<lparr>cmdCrc := b\<rparr>))\<lparr>cmdBytes := 0\<rparr>"
  using assms by (simp add: sd_put_def dev_write_def spi_microsd_writeByte_def reset_microsd_upd reset_startCommand)

lemma sd_drives_idle: "\<not> reading c \<Longrightarrow> sd_drives c"
  by (simp add: sd_drives_def)

lemma sd_drives_cmd: "\<not> reading c \<Longrightarrow> sd_drives (sd_cmd code arg crc c)"
  by (simp add: sd_drives_def sd_cmd_def startCommand_def Let_def sendResponse_def sd_seek_block_def sd_cmds)

lemma sd_feed_command:
  assumes "sd_ready c" "(0x40 OR code) AND 0xc0 = 0x40" "(0x40 OR code) AND 0x3f = code"
  shows "sd_feed (command_frame drv code arg) c = sd_cmd code arg (last (command_frame drv code arg)) c"
    and "sd_feedable (command_frame drv code arg) c"
proof -
  define f where "f k a = c\<lparr>cmdCode := code, cmdBytes := k, cmdAddress := a\<rparr>" for k a
  have quiet: "spidevicedpi_reset (f k a) = f k a" "\<not> writing (f k a)" "\<not> reading (f k a)" "sd_next (f k a) = (0, f k a)"
    "cmdBytes (f k a) = k" "cmdAddress (f k a) = a" for k a
    using assms(1) by (simp_all add: sd_ready_def f_def reset_microsd_upd sd_next_cases) 
  have c: "sd_next c = (0, c)" using assms(1) by (simp add: sd_ready_def sd_next_quiet)
  have first: "sd_put (0x40 OR code) c = f 1 (cmdAddress c)"
    using assms by (subst sd_put_first) (auto simp: sd_ready_def f_def)
  define g where "g a b = push_bit 8 a OR ucast b" for a :: u32 and b :: u8
  have addr: "sd_put b (f k a) = f (k + 1) (g a b)" if "k \<notin> {0, 5}" for b k a
    using that by (subst sd_put_address) (simp_all add: quiet, simp add: f_def g_def)
  have g: "g (g (g (g a (ucast (drop_bit 24 arg))) (ucast (drop_bit 16 arg))) (ucast (drop_bit 8 arg))) (ucast arg) = arg" for a
    unfolding g_def by (rule be32_collect)
  have last: "sd_put b (f 5 arg) = sd_cmd code arg b c" for b
    by (subst sd_put_last) (simp_all add: quiet, simp add: f_def sd_cmd_def)
  have drv: "sd_drives (f k a)" "sd_drives (sd_cmd code arg b c)" for k a b
    using assms(1) by (simp_all add: quiet sd_drives_idle sd_drives_cmd sd_ready_def)
  obtain x where x: "command_frame drv code arg =
      [0x40 OR code, ucast (drop_bit 24 arg), ucast (drop_bit 16 arg), ucast (drop_bit 8 arg), ucast arg, x]"
    by (simp add: command_frame_def Let_def)
  show "sd_feed (command_frame drv code arg) c = sd_cmd code arg (last (command_frame drv code arg)) c"
    by (simp add: x c first quiet addr g last)
  show "sd_feedable (command_frame drv code arg) c"
    by (simp add: x c first quiet addr g last drv)
qed

section \<open>Responses\<close>

lemma sd_reads_append: "sd_reads (m + n) c =
    (case sd_reads m c of (xs, c') \<Rightarrow> (case sd_reads n c' of (ys, c'') \<Rightarrow> (xs @ ys, c'')))"
  by (induction m arbitrary: c) (auto split: prod.splits)

lemma sd_reads_response:
  assumes "spidevicedpi_reset c = c" "responding c" "unat (rspBytes c) + n \<le> unat (rspLen c)" "unat (rspBytes c) + n \<le> length (sd_rsp c)"
  shows "sd_reads n c = (take n (drop (unat (rspBytes c)) (sd_rsp c)), c\<lparr>rspBytes := rspBytes c + of_nat n\<rparr>)"
  using assms
proof (induction n arbitrary: c)
  case (Suc n)
  then have lt: "rspBytes c < rspLen c" by (simp add: word_less_nat_alt)
  moreover have "unat (rspLen c) < 2 ^ LENGTH(32)" by (rule unsigned_less)
  ultimately have u: "unat (rspBytes c + 1) = Suc (unat (rspBytes c))"
    by (simp add: unat_word_ariths word_less_nat_alt)
  define c1 where "c1 = c\<lparr>rspBytes := rspBytes c + 1\<rparr>"
  have n: "sd_next c = (sd_rsp c ! unat (rspBytes c), c1)"
    using Suc.prems lt by (simp add: sd_next_cases c1_def)
  have "sd_reads n c1 = (take n (drop (unat (rspBytes c1)) (sd_rsp c1)), c1\<lparr>rspBytes := rspBytes c1 + of_nat n\<rparr>)"
    using Suc.prems u by (intro Suc.IH) (auto simp: c1_def reset_microsd_upd)
  then have "sd_reads n c1 = (take n (drop (Suc (unat (rspBytes c))) (sd_rsp c)), c\<lparr>rspBytes := rspBytes c + of_nat (Suc n)\<rparr>)"
    using u by (simp add: c1_def add.assoc)
  moreover have "take (Suc n) (drop (unat (rspBytes c)) (sd_rsp c)) =
      sd_rsp c ! unat (rspBytes c) # take n (drop (Suc (unat (rspBytes c))) (sd_rsp c))"
    using Suc.prems(4) by (simp add: Cons_nth_drop_Suc [symmetric])
  ultimately show ?case using n by simp
qed simp

text \<open>What commands leave alone unless they are meant to change it.\<close>

definition same_card :: "spi_microsd \<Rightarrow> spi_microsd \<Rightarrow> bool" where
  "same_card c c' \<longleftrightarrow> sd c' = sd c \<and> cid c' = cid c \<and> csd c' = csd c"

lemma sd_reads_reply:
  assumes "sd_ready c" "unat len \<le> 8" "sd_reads (unat len) (sendResponse len v c) = (xs, c1)"
  shows "xs = take (unat len) [ucast v, ucast (drop_bit 8 v), ucast (drop_bit 16 v), ucast (drop_bit 24 v),
                 ucast (drop_bit 32 v), ucast (drop_bit 40 v), ucast (drop_bit 48 v), ucast (drop_bit 56 v)]"
    and "sd_ready (snd (sd_next c1)) \<and> same_card c (snd (sd_next c1)) \<and> fst (sd_next c1) = 0"
proof -
  let ?r = "sendResponse len v c"
  have r: "spidevicedpi_reset ?r = ?r" "responding ?r" "rspBytes ?r = 0" "rspLen ?r = len"
    "sd_rsp ?r = [ucast v, ucast (drop_bit 8 v), ucast (drop_bit 16 v), ucast (drop_bit 24 v),
                 ucast (drop_bit 32 v), ucast (drop_bit 40 v), ucast (drop_bit 48 v), ucast (drop_bit 56 v)]"
    using assms(1) by (simp_all add: reset_sendResponse sd_ready_def) (simp_all add: sendResponse_def)
  have "sd_reads (unat len) ?r = (take (unat len) (sd_rsp ?r), ?r\<lparr>rspBytes := len\<rparr>)"
    using sd_reads_response [of ?r "unat len"] assms(2) r by simp
  with assms(3) r(5) have c1: "c1 = ?r\<lparr>rspBytes := len\<rparr>" and xs: "xs = take (unat len) (sd_rsp ?r)" by auto
  from xs r(5) show "xs = take (unat len) [ucast v, ucast (drop_bit 8 v), ucast (drop_bit 16 v), ucast (drop_bit 24 v),
                 ucast (drop_bit 32 v), ucast (drop_bit 40 v), ucast (drop_bit 48 v), ucast (drop_bit 56 v)]" by simp
  show "sd_ready (snd (sd_next c1)) \<and> same_card c (snd (sd_next c1)) \<and> fst (sd_next c1) = 0"
    using assms(1) unfolding c1
    by (subst (1 2 3) sd_next_cases) (auto simp: sd_ready_def reset_microsd_upd reset_sendResponse same_card_def sendResponse_def)
qed

lemma sd_deaf_reply: "sd_ready c \<Longrightarrow> sd_deaf (sendResponse len v c)"
  by (simp add: sd_ready_def sd_deaf_def reset_sendResponse sd_drives_def)

text \<open>The commands the card just answers, with the answer.\<close>

definition sd_replies :: "u8 \<Rightarrow> u32 \<Rightarrow> u64 \<Rightarrow> bool" where
  "sd_replies code len v \<longleftrightarrow> (0x40 OR code) AND 0xc0 = 0x40 \<and> (0x40 OR code) AND 0x3f = code \<and> (ucast v :: u8) AND 0x80 = 0 \<and>
     0 < len \<and> len \<le> 8 \<and>
     (\<forall>c arg crc. sd_ready c \<longrightarrow> (\<exists>c0. sd_ready c0 \<and> same_card c c0 \<and> sd_cmd code arg crc c = sendResponse len v c0))"

lemma sd_cmd_reply:
  assumes "sd_ready c" "\<And>d :: spi_microsd. cmdCode d = code \<Longrightarrow> startCommand d = sendResponse len v d"
  shows "\<exists>c0. sd_ready c0 \<and> same_card c c0 \<and> sd_cmd code arg crc c = sendResponse len v c0"
proof (intro exI conjI)
  let ?c0 = "c\<lparr>cmdCode := code, cmdBytes := 0, cmdAddress := arg, cmdCrc := crc\<rparr>"
  show "sd_ready ?c0" "same_card c ?c0"
    using assms(1) by (simp_all add: sd_ready_def reset_microsd_upd same_card_def)
  have "startCommand (c\<lparr>cmdCode := code, cmdBytes := 5, cmdAddress := arg, cmdCrc := crc\<rparr>) =
      sendResponse len v (c\<lparr>cmdCode := code, cmdBytes := 5, cmdAddress := arg, cmdCrc := crc\<rparr>)"
    by (rule assms(2)) simp
  then show "sd_cmd code arg crc c = sendResponse len v ?c0"
    by (simp add: sd_cmd_def sendResponse_def)
qed

lemma sd_repliesI:
  assumes "(0x40 OR code) AND 0xc0 = 0x40" "(0x40 OR code) AND 0x3f = code" "(ucast v :: u8) AND 0x80 = 0" "0 < len" "len \<le> 8"
    "\<And>d :: spi_microsd. cmdCode d = code \<Longrightarrow> startCommand d = sendResponse len v d"
  shows "sd_replies code len v"
  unfolding sd_replies_def using assms(1-5) sd_cmd_reply [OF _ assms(6)] by blast

lemma sd_replies_init:
  "sd_replies CMD_GO_IDLE_STATE 1 0x01" "sd_replies CMD_SEND_IF_COND 5 0" "sd_replies CMD_CRC_ON_OFF 1 0x05"
  "sd_replies CMD_READ_OCR 5 0" "sd_replies CMD_APP_CMD 1 0" "sd_replies SD_SEND_OP_COND 1 0" "sd_replies CMD_SET_BLOCKLEN 1 0"
  by (rule sd_repliesI; simp add: sd_cmds startCommand_def Let_def)+

text \<open>A card that is not selected, between bytes, and what the chip select does to it.\<close>

definition sd_parked :: "sd_bus \<Rightarrow> spi_microsd \<Rightarrow> bool" where
  "sd_parked b c \<longleftrightarrow> (case b of (d, q) \<Rightarrow> spidevicedpi_reset d = c \<and> inBits d = 0 \<and> unat (outBits d) \<le> 7 \<and>
     \<not> bit (outByte d) 0 \<and> \<not> writing c \<and> length (writeBuf c) = 512)"

definition sd_clear :: "spi_microsd \<Rightarrow> spi_microsd" where
  "sd_clear c = c\<lparr>cmdBytes := 0, responding := False, reading := False\<rparr>"

lemma sd_clear_card [simp]: "same_card c (sd_clear c)"
  by (simp add: same_card_def sd_clear_def)

lemma sd_csf_edge: "bit old line \<noteq> bit new line \<Longrightarrow> sd_csf line old new (d, q) = (sd_clear d, q)"
  by (simp add: sd_csf_def csEdge_def spi_microsd_csChanged_def sd_clear_def)

lemma sd_clear_sel [simp]:
  "spidevicedpi_reset (sd_clear d) = sd_clear (spidevicedpi_reset d)" "inBits (sd_clear d) = inBits d"
  "outBits (sd_clear d) = outBits d" "outByte (sd_clear d) = outByte d" "writing (sd_clear d) = writing d"
  "writeBuf (sd_clear d) = writeBuf d"
  by (simp_all add: sd_clear_def reset_microsd_upd)

lemma sd_select:
  assumes "sd_parked b c" "bit old line" "\<not> bit new line"
  shows "silent_rel spi_microsd_readByte 0 (sd_csf line old new b) (sd_clear c, None)" "sd_ready (sd_clear c)"
proof -
  obtain d q where b: "b = (d, q)" by fastforce
  show ready: "sd_ready (sd_clear c)"
    using assms(1) b by (auto simp: sd_ready_def sd_parked_def reset_microsd_upd) (simp_all add: sd_clear_def)
  then have "spi_microsd_readByte 0 (sd_clear c) = (False, sd_clear c)"
    by (simp add: microsd_readByte_cases sd_ready_def sd_after_response_def)
  with ready have "dev_read spi_microsd_readByte 0 (sd_clear c) = (sd_clear c, None)"
    by (simp add: dev_read_def sd_ready_def)
  with assms b show "silent_rel spi_microsd_readByte 0 (sd_csf line old new b) (sd_clear c, None)"
    by (auto simp: sd_csf_edge sd_parked_def)
qed

lemma sd_deselect:
  assumes "silent_rel spi_microsd_readByte 0 b (c, out)" "\<not> bit old line" "bit new line" "\<not> writing c" "length (writeBuf c) = 512"
  shows "sd_parked (sd_csf line old new b) (sd_clear c)"
proof -
  obtain d q where b: "b = (d, q)" by fastforce
  with assms(1) have "spidevicedpi_reset d = c" "inBits d = 0" "unat (outBits d) \<le> 7" "\<not> bit (outByte d) 0"
    by (cases out; auto)+
  with assms(2-5) b show ?thesis by (auto simp: sd_csf_edge sd_parked_def)
qed

lemma sd_parked_xfers:
  assumes "bit sel line" "sd_parked b c"
  shows "sd_parked (snd (xfers (sd_xf line sel) bs b)) c"
  using assms(2)
proof (induction bs arbitrary: b)
  case (Cons x bs)
  obtain d q where b: "b = (d, q)" by fastforce
  have "sd_parked (snd (sd_xf line sel x b)) c"
    using Cons.prems xfer_byte_deselected [of "drop_bit line sel" spi_microsd_readByte spi_microsd_writeByte 0 x d q] assms(1) b
    by (simp add: sd_xf_def drop_bit_and_1 sd_parked_def)
  with Cons.IH show ?case by (simp add: split_beta)
qed simp

lemma and_bit_28: "(w :: u32) AND push_bit 28 1 = 0 \<longleftrightarrow> \<not> bit w 28"
  using and_exp_eq_0_iff_not_bit [of w 28] by simp

section \<open>Reading a block from the image\<close>

text \<open>Reading moves the position of the image file but leaves its contents, and the rest of the card's store, alone.\<close>

definition same_image :: "spi_microsd \<Rightarrow> spi_microsd \<Rightarrow> bool" where
  "same_image c c' \<longleftrightarrow> map_option contents (sd c') = map_option contents (sd c) \<and> cid c' = cid c \<and> csd c' = csd c \<and>
     writing c' = writing c \<and> length (writeBuf c') = length (writeBuf c)"

lemma same_image_trans: "same_image a b \<Longrightarrow> same_image b c \<Longrightarrow> same_image a c"
  by (simp add: same_image_def)

lemma contents_fgetc: "contents (snd (sd_fgetc f)) = contents f"
  by (simp add: sd_fgetc_def)

lemma sd_readPacket_image: "same_image c (sd_readPacket c)"
proof (cases "readState c")
  case ReadState_DataBytes
  then show ?thesis
    by (cases "sd c") (simp_all add: same_image_def sd_readPacket_def sd_readData_def sd_readId_def sd_readMedium_def Let_def split_beta contents_fgetc)
qed (simp_all add: same_image_def sd_readPacket_def)

lemma sd_next_image: "spidevicedpi_reset c = c \<Longrightarrow> same_image c (snd (sd_next c))"
  using sd_readPacket_image [of "sd_after_response c"]
  by (auto simp: sd_next_cases same_image_def) (auto simp: sd_after_response_def)

lemma spidevicedpi_reset_next [simp]: "spidevicedpi_reset (snd (sd_next c)) = snd (sd_next c)"
  by (simp add: sd_next_def dev_read_def split_beta)

lemma spidevicedpi_reset_reads: "spidevicedpi_reset c = c \<Longrightarrow> spidevicedpi_reset (snd (sd_reads n c)) = snd (sd_reads n c)"
  by (induction n arbitrary: c) (simp_all add: split_beta)

lemma sd_reads_image: "spidevicedpi_reset c = c \<Longrightarrow> same_image c (snd (sd_reads n c))"
proof (induction n arbitrary: c)
  case 0
  then show ?case by (simp add: same_image_def)
next
  case (Suc n)
  with sd_next_image [of c] Suc.IH [of "snd (sd_next c)"] show ?case
    by (auto simp: split_beta intro: same_image_trans)
qed

text \<open>The byte at an offset of the image; the card returns ones past its end and without an image.\<close>

definition file_byte :: "sdfile option \<Rightarrow> nat \<Rightarrow> u8" where
  "file_byte f p = (case f of None \<Rightarrow> 0xff | Some f \<Rightarrow> if p < length (contents f) then contents f ! p else 0xff)"

definition sd_block :: "sdfile option \<Rightarrow> u32 \<Rightarrow> u8 list" where
  "sd_block f blk = map (\<lambda>i. file_byte f (unat (push_bit 9 blk) + i)) [0..<512]"

text \<open>The card in the middle of a data packet: \<open>xs\<close> has been sent, the file is at the offset behind it (it
  stays at the end once it is there).\<close>

definition sd_sending :: "sdfile option \<Rightarrow> nat \<Rightarrow> u8 list \<Rightarrow> spi_microsd \<Rightarrow> bool" where
  "sd_sending f off xs c \<longleftrightarrow> spidevicedpi_reset c = c \<and> reading c \<and> \<not> writing c \<and> cmdBytes c = 0 \<and> length (writeBuf c) = 512 \<and>
     (responding c \<longrightarrow> rspBytes c = rspLen c) \<and>
     cmdCode c \<in> {CMD_READ_MULTIPLE_BLOCK, CMD_READ_SINGLE_BLOCK} \<and>
     readState (sd_after_response c) = (if length xs < 512 then ReadState_DataBytes else ReadState_CRC0) \<and>
     unat (readBytes c) = length xs \<and> readCrc16 (sd_after_response c) = update_crc16 0 xs \<and>
     map_option contents (sd c) = map_option contents f \<and>
     (\<forall>g. sd c = Some g \<longrightarrow> fpos g = off + length xs \<or> length (contents g) \<le> fpos g \<and> length (contents g) \<le> off + length xs)"

lemma file_byte_fgetc:
  assumes "sd_fgetc g = (ch, g')" "fpos g = p \<or> length (contents g) \<le> fpos g \<and> length (contents g) \<le> p" "contents g = contents f"
  shows "(case ch of Some x \<Rightarrow> x | None \<Rightarrow> 0xff) = file_byte (Some f) p" "contents g' = contents f"
    "fpos g' = Suc p \<or> length (contents g') \<le> fpos g' \<and> length (contents g') \<le> Suc p"
  using assms by (auto simp: sd_fgetc_def file_byte_def split: if_splits)

lemma and_511_eq_0: "n < 512 \<Longrightarrow> unat w = n \<Longrightarrow> ((w :: u32) + 1) AND (kBlockLen - 1) = 0 \<longleftrightarrow> Suc n = 512"
proof -
  assume n: "n < 512" "unat w = n"
  have k: "kBlockLen - 1 = (0x1ff :: u32)" by (simp add: kBlockLen_def kLog2BlockLen_def)
  have u: "unat (w + 1) = Suc n" using n by (simp add: unat_word_ariths)
  have "unat ((w + 1) AND 0x1ff) = take_bit 9 (Suc n)"
    by (simp add: unsigned_and_eq u take_bit_eq_mask mask_eq_exp_minus_1)
  moreover have "Suc n mod 512 = 0 \<longleftrightarrow> Suc n = 512" using n by (cases "Suc n = 512") auto
  ultimately show ?thesis by (simp add: k word_unat_eq_iff take_bit_eq_mod)
qed

lemma sd_sending_next:
  assumes "sd_sending f off xs c" "length xs < 512"
  shows "fst (sd_next c) = file_byte f (off + length xs)"
    "sd_sending f off (xs @ [file_byte f (off + length xs)]) (snd (sd_next c))"
proof -
  define a where "a = sd_after_response c"
  define x where "x = file_byte f (off + length xs)"
  have c: "spidevicedpi_reset c = c" "reading c" "\<not> (responding c \<and> rspBytes c < rspLen c)"
    using assms(1) by (auto simp: sd_sending_def)
  have a: "readState a = ReadState_DataBytes" "cmdCode a \<in> {CMD_READ_MULTIPLE_BLOCK, CMD_READ_SINGLE_BLOCK}"
    "readBytes a = readBytes c" "readCrc16 a = update_crc16 0 xs" "sd a = sd c"
    using assms by (auto simp: sd_sending_def a_def)
  have u: "unat (readBytes c) = length xs" using assms(1) by (simp add: sd_sending_def)
  then have u1: "unat (readBytes c + 1) = Suc (length xs)" using assms(2) by (simp add: unat_word_ariths)
  obtain g where g: "sd_readMedium a = a\<lparr>sd := g, outByte := x, readCrc16 := update_crc16 (readCrc16 a) [x],
       readBytes := readBytes a + 1,
       readState := (if (readBytes a + 1) AND (kBlockLen - 1) = 0 then ReadState_CRC0 else readState a)\<rparr>"
    "map_option contents g = map_option contents f"
    "\<forall>h. g = Some h \<longrightarrow> fpos h = off + Suc (length xs) \<or> length (contents h) \<le> fpos h \<and> length (contents h) \<le> off + Suc (length xs)"
  proof (cases "sd c")
    case None
    with assms(1) have "f = None" by (simp add: sd_sending_def)
    with None a(5) that [of None] show thesis by (simp add: sd_readMedium_def x_def file_byte_def)
  next
    case (Some h)
    with assms(1) have "map_option contents f = Some (contents h)" by (simp add: sd_sending_def)
    then obtain f' where f: "f = Some f'" "contents h = contents f'" by auto
    obtain ch h' where h': "sd_fgetc h = (ch, h')" by fastforce
    from file_byte_fgetc [OF h' _ f(2), of "off + length xs"] assms(1) Some f a(5) h' that [of "Some h'"]
    show thesis by (simp add: sd_readMedium_def sd_sending_def x_def Let_def)
  qed
  have n: "sd_next c = (x, spidevicedpi_reset (sd_readMedium a))"
    using c a(1,2) g(1) by (auto simp: sd_next_cases a_def sd_readPacket_def sd_readData_def sd_cmds)
  then show "fst (sd_next c) = file_byte f (off + length xs)" by (simp add: x_def)
  have r: "reading a" "\<not> writing a" "cmdBytes a = 0" "length (writeBuf a) = 512" "\<not> responding a"
    using assms(1) by (auto simp: sd_sending_def a_def)
  show "sd_sending f off (xs @ [file_byte f (off + length xs)]) (snd (sd_next c))"
    using a u u1 r g(2,3) assms(2) and_511_eq_0 [OF assms(2) u] unfolding n g(1) x_def [symmetric]
    by (auto simp: sd_sending_def sd_after_response_def update_crc16_append)
qed

lemma sd_sending_reads:
  assumes "sd_sending f off xs c" "length xs + n \<le> 512"
  shows "fst (sd_reads n c) = map (\<lambda>i. file_byte f (off + length xs + i)) [0..<n] \<and>
    sd_sending f off (xs @ map (\<lambda>i. file_byte f (off + length xs + i)) [0..<n]) (snd (sd_reads n c))"
  using assms
proof (induction n arbitrary: xs c)
  case (Suc n)
  let ?x = "file_byte f (off + length xs)"
  have lt: "length xs < 512" using Suc.prems by simp
  note nx = sd_sending_next [OF Suc.prems(1) lt]
  have m: "map (\<lambda>i. file_byte f (off + length xs + i)) [0..<Suc n] =
      ?x # map (\<lambda>i. file_byte f (off + length (xs @ [?x]) + i)) [0..<n]"
    by (simp add: upt_conv_Cons map_Suc_upt [symmetric] del: upt_Suc)
  show ?case using Suc.IH [OF nx(2)] Suc.prems nx(1) unfolding m by (simp add: split_beta)
qed simp

text \<open>The checksum after the last byte of the block, high byte first; the card would go on with the next block.\<close>

lemma sd_sending_crc:
  assumes "sd_sending f off xs c" "length xs = 512"
  shows "fst (sd_reads 2 c) = be16_bytes (update_crc16 0 xs)"
proof -
  define a where "a = sd_after_response c"
  have a: "spidevicedpi_reset c = c" "reading c" "\<not> (responding c \<and> rspBytes c < rspLen c)" "readState a = ReadState_CRC0"
     "readCrc16 a = update_crc16 0 xs" "\<not> responding a"
    using assms by (auto simp: sd_sending_def a_def)
  have ra: "spidevicedpi_reset a = a" using a(1) by (simp add: a_def)
  define c1 where "c1 = a\<lparr>readState := ReadState_CRC1\<rparr>"
  have 1: "sd_next c = (ucast (drop_bit 8 (update_crc16 0 xs)), c1)"
    using a ra by (auto simp: sd_next_cases sd_readPacket_def c1_def reset_microsd_upd simp flip: a_def)
  have c1: "spidevicedpi_reset c1 = c1" "reading c1" "\<not> responding c1" "sd_after_response c1 = c1"
    using a ra by (simp_all add: c1_def reset_microsd_upd) (simp_all add: a_def sd_after_response_def)
  have 2: "sd_next c1 = (ucast (update_crc16 0 xs), c1\<lparr>readBytes := 0, readState := ReadState_DataBytes\<rparr>)"
    using c1 a(5) ra by (simp add: sd_next_cases sd_readPacket_def reset_microsd_upd) (simp add: c1_def reset_microsd_upd)
  have r: "sd_reads 2 c = (be16_bytes (update_crc16 0 xs), c1\<lparr>readBytes := 0, readState := ReadState_DataBytes\<rparr>)"
    by (simp add: numeral_2_eq_2 1 2 be16_bytes_def)
  then show ?thesis by simp
qed

lemma sd_sending_deaf: "sd_sending f off xs c \<Longrightarrow> sd_deaf c"
  by (auto simp: sd_sending_def sd_deaf_def sd_drives_def)

text \<open>The answer to a block read command: the status, the start token, then the packet.\<close>

lemma sd_cmd_read:
  assumes "sd_ready c"
  shows "\<exists>c2. sd_reads 2 (sd_cmd CMD_READ_SINGLE_BLOCK blk crc c) = ([0x00, 0xfe], c2) \<and>
      sd_sending (sd c) (unat (push_bit 9 blk)) [] c2 \<and> sd_deaf (sd_cmd CMD_READ_SINGLE_BLOCK blk crc c) \<and>
      cid c2 = cid c \<and> csd c2 = csd c"
proof -
  let ?c = "sd_cmd CMD_READ_SINGLE_BLOCK blk crc c"
  have r: "spidevicedpi_reset ?c = ?c" "responding ?c" "rspBytes ?c = 0" "rspLen ?c = 2" "sd_rsp ?c = [0x00, 0xfe, 0, 0, 0, 0, 0, 0]"
    using assms unfolding sd_ready_def sd_cmd_def
    by (simp_all add: reset_microsd_upd reset_startCommand) (simp_all add: startCommand_def sd_cmds sendResponse_def)
  have 2: "sd_reads 2 ?c = ([0x00, 0xfe], ?c\<lparr>rspBytes := 2\<rparr>)"
    using sd_reads_response [of ?c 2] r by simp
  have "sd_sending (sd c) (unat (push_bit 9 blk)) [] (?c\<lparr>rspBytes := 2\<rparr>)"
    using assms r(1) unfolding sd_sending_def
    by (auto simp: sd_ready_def reset_microsd_upd)
       (auto simp: sd_cmd_def startCommand_def sd_cmds sendResponse_def sd_seek_block_def sd_after_response_def kLog2BlockLen_def sd_fseek_def option.map_comp comp_def option.map_ident)
  moreover have "cid ?c = cid c" "csd ?c = csd c"
    by (simp_all add: sd_cmd_def startCommand_def sd_cmds sendResponse_def sd_seek_block_def)
  ultimately show ?thesis using 2 sd_sending_deaf [of "sd c" _ _ "?c\<lparr>rspBytes := 2\<rparr>"]
    by (auto simp: sd_deaf_def sd_drives_def reset_microsd_upd r(1))
qed

section \<open>Writing a block to the image\<close>

text \<open>The card while it collects a data block: \<open>xs\<close> has arrived.\<close>

definition sd_collecting :: "u8 list \<Rightarrow> spi_microsd \<Rightarrow> bool" where
  "sd_collecting xs c \<longleftrightarrow> spidevicedpi_reset c = c \<and> \<not> reading c \<and> \<not> responding c \<and> writing c \<and> cmdBytes c = 0 \<and>
     length (writeBuf c) = 512 \<and> unat (writeBytes c) = length xs \<and> take (length xs) (writeBuf c) = xs \<and>
     writeState c = (if length xs < 512 then WriteState_DataBytes else WriteState_CRC0)"

lemma sd_collecting_put:
  assumes "sd_collecting xs c" "length xs < 512"
  shows "sd_collecting (xs @ [x]) (sd_put x c) \<and> same_card c (sd_put x c)"
proof -
  have u: "unat (writeBytes c) = length xs" using assms(1) by (simp add: sd_collecting_def)
  have u1: "unat (writeBytes c + 1) = Suc (length xs)" using assms(2) u by (simp add: unat_word_ariths)
  have k: "writeBytes c < kBlockLen" "kBlockLen \<le> writeBytes c + 1 \<longleftrightarrow> \<not> Suc (length xs) < 512"
    using assms(2) u u1 by (auto simp: word_less_nat_alt word_le_nat_alt kBlockLen_def kLog2BlockLen_def)
  have "take (Suc (length xs)) ((writeBuf c)[length xs := x]) = xs @ [x]"
    using assms by (simp add: take_Suc_conv_app_nth sd_collecting_def)
  then show ?thesis
    using assms u u1 k
    by (auto simp: sd_collecting_def sd_put_def dev_write_def spi_microsd_writeByte_def sd_writeData_def reset_microsd_upd same_card_def)
qed

lemma sd_collecting_feed:
  assumes "sd_collecting xs c" "length xs + length bs \<le> 512"
  shows "sd_collecting (xs @ bs) (sd_feed bs c) \<and> same_card c (sd_feed bs c) \<and> sd_feedable bs c"
  using assms
proof (induction bs arbitrary: xs c)
  case Nil
  then show ?case by (simp add: same_card_def)
next
  case (Cons b bs)
  have "sd_next c = (0, c)" using Cons.prems(1) by (simp add: sd_collecting_def sd_next_quiet)
  moreover have p: "sd_collecting (xs @ [b]) (sd_put b c)" "same_card c (sd_put b c)"
    using sd_collecting_put [OF Cons.prems(1), of b] Cons.prems(2) by simp_all
  moreover have "sd_drives (sd_put b c)" using p(1) by (simp add: sd_collecting_def sd_drives_def)
  ultimately show ?case using Cons.IH [OF p(1)] Cons.prems(2) by (simp add: same_card_def)
qed

text \<open>The two checksum bytes complete the block: it goes to the image and the card answers.\<close>

lemma sd_collecting_crc:
  assumes "sd_collecting xs c" "length xs = 512"
  shows "\<exists>c'. sd_feed [h, l] c = sendResponse 8 (push_bit 56 0x01 OR 0xe5) c' \<and> sd_ready c' \<and> sd_feedable [h, l] c \<and>
     sd c' = map_option (sd_fwrite xs) (sd c) \<and> cid c' = cid c \<and> csd c' = csd c"
proof -
  define c1 where "c1 = c\<lparr>writeState := WriteState_CRC1\<rparr>"
  have c: "sd_next c = (0, c)" using assms(1) by (simp add: sd_collecting_def sd_next_quiet)
  have w: "writeBuf c = xs" using assms by (auto simp: sd_collecting_def)
  have 1: "sd_put h c = c1" "sd_next c1 = (0, c1)" "sd_drives c1"
    using assms by (simp_all add: sd_collecting_def sd_put_def dev_write_def spi_microsd_writeByte_def sd_writeData_def
        reset_microsd_upd c1_def sd_next_quiet sd_drives_def)
  define c' where "c' = c\<lparr>writeState := WriteState_StartToken, writing := False, sd := map_option (sd_fwrite xs) (sd c)\<rparr>"
  have 2: "sd_put l c1 = sendResponse 8 (push_bit 56 0x01 OR 0xe5) c'"
    using assms w by (simp add: sd_collecting_def sd_put_def dev_write_def spi_microsd_writeByte_def sd_writeData_def
        reset_microsd_upd c1_def reset_sendResponse Let_def) (simp add: sendResponse_def c'_def)
  have "sd_ready c'" using assms by (simp add: sd_ready_def c'_def sd_collecting_def reset_microsd_upd)
  moreover from this have "sd_drives (sd_put l c1)" unfolding 2 by (simp add: sd_drives_def sd_ready_def)
  ultimately show ?thesis using c 1 2 by (auto simp: c'_def)
qed

lemma sd_cmd_write:
  assumes "sd_ready c"
  shows "\<exists>c2. sd_reads 2 (sd_cmd CMD_WRITE_SINGLE_BLOCK blk crc c) = ([0xfe, 0x00], c2) \<and> sd_next c2 = (0, c2) \<and>
      sd_collecting [] (sd_put 0xfe c2) \<and> sd_deaf (sd_cmd CMD_WRITE_SINGLE_BLOCK blk crc c) \<and>
      sd (sd_put 0xfe c2) = map_option (sd_fseek (unat (push_bit 9 blk))) (sd c) \<and> cid (sd_put 0xfe c2) = cid c \<and>
      csd (sd_put 0xfe c2) = csd c"
proof -
  define d where "d = c\<lparr>cmdCode := CMD_WRITE_SINGLE_BLOCK, cmdBytes := 0, cmdAddress := blk, cmdCrc := crc,
     sd := map_option (sd_fseek (unat (push_bit 9 blk))) (sd c), writing := True, writeState := WriteState_StartToken, writeBytes := 0\<rparr>"
  let ?c = "sd_cmd CMD_WRITE_SINGLE_BLOCK blk crc c"
  have eq: "?c = sendResponse 1 0xfe d"
    by (simp add: sd_cmd_def startCommand_def sd_cmds sd_seek_block_def kLog2BlockLen_def d_def) (simp add: sendResponse_def)
  have d: "spidevicedpi_reset d = d" "\<not> reading d" "\<not> responding d" using assms by (simp_all add: sd_ready_def d_def reset_microsd_upd)
  define c2 where "c2 = ?c\<lparr>rspBytes := 1, responding := False\<rparr>"
  have r: "spidevicedpi_reset ?c = ?c" "responding ?c" "rspBytes ?c = 0" "rspLen ?c = 1" "sd_rsp ?c ! 0 = 0xfe" "\<not> reading ?c"
    using d unfolding eq by (simp_all add: reset_sendResponse) (simp_all add: sendResponse_def)
  have 1: "sd_next ?c = (0xfe, ?c\<lparr>rspBytes := 1\<rparr>)" using r by (simp add: sd_next_cases)
  have 2: "sd_next (?c\<lparr>rspBytes := 1\<rparr>) = (0, c2)" using r by (simp add: sd_next_cases reset_microsd_upd c2_def)
  have q: "spidevicedpi_reset c2 = c2" "\<not> reading c2" "\<not> responding c2" "writing c2" "writeState c2 = WriteState_StartToken"
    using r by (simp_all add: c2_def reset_microsd_upd) (simp_all add: eq d_def sendResponse_def)
  have p: "sd_put 0xfe c2 = c2\<lparr>writeState := WriteState_DataBytes, writeCrc16 := 0\<rparr>"
    using q by (simp add: sd_put_def dev_write_def spi_microsd_writeByte_def sd_writeData_def reset_microsd_upd)
  have "sd_collecting [] (sd_put 0xfe c2)"
    using q assms unfolding p by (simp add: sd_collecting_def reset_microsd_upd) (simp add: c2_def eq d_def sendResponse_def sd_ready_def)
  moreover have "sd (sd_put 0xfe c2) = sd d" "cid (sd_put 0xfe c2) = cid c" "csd (sd_put 0xfe c2) = csd c"
    unfolding p by (simp_all add: c2_def eq sendResponse_def d_def)
  moreover have "sd_deaf ?c" using r by (simp add: sd_deaf_def sd_drives_def) (simp add: eq sendResponse_def d_def)
  ultimately show ?thesis using 1 2 sd_next_quiet [OF q(1,3,2)] by (auto simp: numeral_2_eq_2 d_def)
qed

end
