(* ===== verification/Sd_System.thy ===== *)
theory Sd_System
  imports Sd_Protocol
begin

unbundle bit_operations_syntax

declare upt_rec_numeral [simp del]

text \<open>
  The SD card driver, an SPI controller and the simulated card together, from the driver's calls down to the
  edges of the clock line. The locale \<open>sd_slot\<close> is a controller that fulfils its contract with the card on one of its chip select
  lines; in it, initialisation, the block read and the block write are followed command by command.
\<close>

section \<open>The driver and the card\<close>

text \<open>Between two operations of the driver, the controller is idle and the card is not selected; the driver
  is the one for the card's line.\<close>

definition card_parked :: "('s \<Rightarrow> sd_bus ctl) \<Rightarrow> nat \<Rightarrow> sdcard \<Rightarrow> 's \<Rightarrow> spi_microsd \<Rightarrow> bool" where
  "card_parked view line drv s c \<longleftrightarrow> cs drv = push_bit line 1 \<and> line < 32 \<and> (idleControl drv \<longrightarrow> bit (cfg (view s)) 28) \<and>
     ctl_idle (view s) \<and> bit (selects (view s)) line \<and> sd_parked (bus (view s)) c"

locale sd_slot = spi_controller ops view delay "sd_xf line" "sd_csf line"
  for ops :: "'s spi_ops" and view :: "'s \<Rightarrow> sd_bus ctl" and delay and line
begin

abbreviation parked :: "sdcard \<Rightarrow> 's \<Rightarrow> spi_microsd \<Rightarrow> bool" where
  "parked \<equiv> card_parked view line"

text \<open>The controller is idle with the card selected; the card is known up to the answer of the next byte, or
  including it.\<close>

definition linked :: "sdcard \<Rightarrow> 's \<Rightarrow> spi_microsd \<Rightarrow> bool" where
  "linked drv s c \<longleftrightarrow> ctl_idle (view s) \<and> \<not> bit (selects (view s)) line \<and> (idleControl drv \<longrightarrow> bit (cfg (view s)) 28) \<and>
     (\<exists>out. silent_rel spi_microsd_readByte 0 (bus (view s)) (c, out))"

definition at :: "sdcard \<Rightarrow> 's \<Rightarrow> spi_microsd \<Rightarrow> bool" where
  "at drv s c \<longleftrightarrow> ctl_idle (view s) \<and> \<not> bit (selects (view s)) line \<and> (idleControl drv \<longrightarrow> bit (cfg (view s)) 28) \<and>
     ahead (bus (view s)) c"

lemma at_linked: "at drv s c \<Longrightarrow> linked drv s (snd (sd_next c))"
  by (auto simp: at_def linked_def ahead_def)

lemma at_read:
  assumes "at drv s c" "sd_deaf (snd (sd_next c))" "0 < len" "len \<le> 0x7ff"
  shows "\<exists>s'. read_card_data ops drv len s = Some (fst (sd_reads (unat len) c), s') \<and> at drv s' (snd (sd_reads (unat len) c))"
proof -
  obtain b where b: "xfers (sd_xf line (selects (view s))) (replicate (unat len) 0xff) (bus (view s)) = (fst (sd_reads (unat len) c), b)"
      "ahead b (snd (sd_reads (unat len) c))"
    using xfers_ones [of "selects (view s)" line "bus (view s)" c "unat len"] assms(1,2) by (auto simp: at_def)
  from read_card_data_exchanges [OF _ assms(3,4) _ b(1), of drv] assms(1) b(2) show ?thesis
    by (auto simp: at_def moved_def)
qed

lemma at_byte:
  assumes "at drv s c" "sd_deaf (snd (sd_next c))"
  shows "\<exists>s'. get_response_byte ops drv s = Some (fst (sd_next c), s') \<and> at drv s' (snd (sd_next c))"
  using at_read [OF assms, of 1] by (auto simp: get_response_byte_def split_beta)

lemma at_poll:
  assumes "at drv s c" "sd_deaf (snd (sd_next c))" "sd_reads (Suc (length xs)) c = (xs @ [x], c')" "\<forall>y \<in> set xs. \<not> stop y" "stop x"
  shows "\<exists>s'. poll_byte ops drv stop s = Some (x, s') \<and> at drv s' c'"
  using assms
proof (induction xs arbitrary: s c)
  case Nil
  then obtain s' where "get_response_byte ops drv s = Some (x, s')" "at drv s' c'"
    using at_byte [of drv s c] by (auto split: prod.splits)
  with Nil(5) show ?case by (subst poll_byte.simps) simp
next
  case (Cons y xs)
  obtain c1 where c1: "sd_next c = (y, c1)" "sd_reads (Suc (length xs)) c1 = (xs @ [x], c')"
    using Cons.prems(3) by (auto simp del: sd_reads.simps(2) simp: sd_reads.simps(2) [of "Suc (length xs)"] split: prod.splits)
  then obtain s1 where s1: "get_response_byte ops drv s = Some (y, s1)" "at drv s1 c1"
    using at_byte [OF Cons.prems(1,2)] by auto
  have "sd_deaf (snd (sd_next c1))" using Cons.prems(2) c1(1) by (auto intro: sd_deaf_next)
  with Cons.IH [OF s1(2) _ c1(2)] Cons.prems(4,5) s1(1) show ?case
    by (subst poll_byte.simps) auto
qed

lemma at_write:
  assumes "at drv s c" "sd_feedable bs c"
  shows "at drv (blocking_write ops bs s) (sd_feed bs c)"
  using assms xfers_feed [of "selects (view s)" line "bus (view s)" c bs]
  by (simp add: at_def v_blocking_write ctl_idle_def)

lemma linked_command:
  assumes "linked drv s c" "sd_ready c" "(0x40 OR code) AND 0xc0 = 0x40" "(0x40 OR code) AND 0x3f = code"
  shows "at drv (send_command ops drv code arg s) (sd_cmd code arg (last (command_frame drv code arg)) c)"
proof -
  from assms(1) obtain out where l: "ctl_idle (view s)" "\<not> bit (selects (view s)) line" "idleControl drv \<longrightarrow> bit (cfg (view s)) 28"
      "silent_rel spi_microsd_readByte 0 (bus (view s)) (c, out)"
    by (auto simp: linked_def)
  have ff: "sd_put 0xff c = c" "sd_drives c"
    using sd_put_ones [OF sd_ready_deaf [OF assms(2)]] assms(2) by (simp_all add: sd_ready_def sd_drives_def)
  have "at drv (blocking_write ops [0xff] s) c"
    using sd_xf_step [OF l(2,4), of "0xff"] l ff by (auto simp: at_def v_blocking_write ctl_idle_def)
  from at_write [OF this sd_feed_command(2) [OF assms(2-4), of drv arg]] sd_feed_command(1) [OF assms(2-4), of drv arg]
  show ?thesis by (simp add: send_command_def)
qed

lemma at_wait_idle [simp]: "at drv (wait_idle ops s) c = at drv s c"
  by (simp add: at_def v_wait_idle)

lemma at_r3_loop:
  assumes "at drv s c" "sd_deaf (snd (sd_next c))"
  shows "\<exists>s'. r3_loop ops drv n s = Some s' \<and> at drv s' (snd (sd_reads n c))"
proof -
  obtain b where b: "xfers (sd_xf line (selects (view s))) (replicate n 0xff) (bus (view s)) = (fst (sd_reads n c), b)"
      "ahead b (snd (sd_reads n c))"
    using xfers_ones [of "selects (view s)" line "bus (view s)" c n] assms by (auto simp: at_def)
  from r3_loop_exchanges [OF _ _ b(1), of drv] assms(1) b(2) show ?thesis
    by (auto simp: at_def moved_def)
qed

lemma linked_R1:
  assumes "linked drv s c" "sd_ready c" "sd_replies code len v"
  shows "\<exists>s' c0. get_response_R1 ops drv (send_command ops drv code arg s) = Some (ucast v, s') \<and>
     sd_ready c0 \<and> same_card c c0 \<and> at drv s' (snd (sd_reads 1 (sendResponse len v c0)))"
proof -
  from assms(2,3) obtain c0 where c0: "sd_ready c0" "same_card c c0"
      "sd_cmd code arg (last (command_frame drv code arg)) c = sendResponse len v c0"
    unfolding sd_replies_def by blast
  have r: "spidevicedpi_reset (sendResponse len v c0) = sendResponse len v c0"
    using c0(1) by (simp add: reset_sendResponse sd_ready_def)
  have "sd_reads (Suc (length [])) (sendResponse len v c0) = ([] @ [ucast v], snd (sd_reads 1 (sendResponse len v c0)))"
    using sd_reads_response [OF r, of 1] assms(3) by (simp add: sendResponse_def sd_replies_def word_less_nat_alt)
  moreover have "at drv (wait_idle ops (send_command ops drv code arg s)) (sendResponse len v c0)"
    using linked_command [OF assms(1,2), of code arg] assms(3) c0(3) by (simp add: sd_replies_def)
  ultimately have "\<exists>s'. poll_byte ops drv (\<lambda>r. r AND 0x80 = 0) (wait_idle ops (send_command ops drv code arg s)) = Some (ucast v, s') \<and>
      at drv s' (snd (sd_reads 1 (sendResponse len v c0)))"
    using assms(3) c0(1) by (intro at_poll [where xs = "[]"]) (simp_all add: sd_replies_def sd_deaf_next sd_deaf_reply)
  with c0 show ?thesis by (auto simp: get_response_R1_def)
qed

lemma same_card_trans: "same_card a b \<Longrightarrow> same_card b c \<Longrightarrow> same_card a c"
  by (simp add: same_card_def)

lemma command_R1:
  assumes "linked drv s c" "sd_ready c" "sd_replies code 1 v"
  shows "\<exists>s' c'. get_response_R1 ops drv (send_command ops drv code arg s) = Some (ucast v, s') \<and>
     linked drv s' c' \<and> sd_ready c' \<and> same_card c c'"
proof -
  obtain s' c0 where s': "get_response_R1 ops drv (send_command ops drv code arg s) = Some (ucast v, s')"
     "sd_ready c0" "same_card c c0" "at drv s' (snd (sd_reads 1 (sendResponse 1 v c0)))"
    using linked_R1 [OF assms] by blast
  let ?c' = "snd (sd_next (snd (sd_reads 1 (sendResponse 1 v c0))))"
  have "sd_ready ?c' \<and> same_card c0 ?c'"
    using sd_reads_reply(2) [OF s'(2), of 1 v] by (metis prod.collapse unat_1 one_le_numeral)
  with at_linked [OF s'(4)] s'(1,3) same_card_trans show ?thesis by blast
qed

lemma command_R3:
  assumes "linked drv s c" "sd_ready c" "sd_replies code 5 v"
  shows "\<exists>s' c'. get_response_R3 ops drv (send_command ops drv code arg s) = Some s' \<and>
     linked drv s' c' \<and> sd_ready c' \<and> same_card c c'"
proof -
  obtain s1 c0 where s1: "get_response_R1 ops drv (send_command ops drv code arg s) = Some (ucast v, s1)"
     "sd_ready c0" "same_card c c0" "at drv s1 (snd (sd_reads 1 (sendResponse 5 v c0)))"
    using linked_R1 [OF assms] by blast
  let ?c1 = "snd (sd_reads 1 (sendResponse 5 v c0))"
  have "sd_deaf (snd (sd_next ?c1))"
    using sd_deaf_reply [OF s1(2), of 5 v] by (auto simp: split_beta intro!: sd_deaf_next)
  from at_r3_loop [OF s1(4) this, of 4] obtain s2 where s2: "r3_loop ops drv 4 s1 = Some s2" "at drv s2 (snd (sd_reads 4 ?c1))"
    by blast
  have "snd (sd_reads 4 ?c1) = snd (sd_reads 5 (sendResponse 5 v c0))"
    using sd_reads_append [of 1 4 "sendResponse 5 v c0"] by (simp add: split_beta)
  moreover define c' where "c' = snd (sd_next (snd (sd_reads 5 (sendResponse 5 v c0))))"
  ultimately have "linked drv s2 c'" using at_linked [OF s2(2)] by simp
  moreover have "sd_ready c' \<and> same_card c0 c'"
    unfolding c'_def using sd_reads_reply(2) [OF s1(2), of 5 v "fst (sd_reads 5 (sendResponse 5 v c0))"] by simp
  moreover have "get_response_R3 ops drv (send_command ops drv code arg s) = Some s2"
    using s1(1) s2(1) by (simp add: get_response_R3_def)
  ultimately show ?thesis using s1(3) same_card_trans by blast
qed

lemma select_linked:
  assumes "parked drv s c"
  shows "linked drv (select_card ops drv True s) (sd_clear c)" "sd_ready (sd_clear c)"
proof -
  let ?w = "selects (view s) AND NOT (push_bit line 1)"
  have "\<not> bit ?w line" using assms by (simp add: bit_simps card_parked_def)
  with assms sd_select [of "bus (view s)" c "selects (view s)" line ?w]
  have "silent_rel spi_microsd_readByte 0 (sd_csf line (selects (view s)) ?w (bus (view s))) (sd_clear c, None)" "sd_ready (sd_clear c)"
    by (simp_all add: card_parked_def)
  with assms \<open>\<not> bit ?w line\<close> show "linked drv (select_card ops drv True s) (sd_clear c)" "sd_ready (sd_clear c)"
    by (auto simp: linked_def card_parked_def select_card_def v_set_chipSelects v_get_chipSelects ctl_idle_def)
qed

lemma deselect_parked:
  assumes "linked drv s c" "cs drv = push_bit line 1" "line < 32" "\<not> writing c" "length (writeBuf c) = 512"
  shows "parked drv (select_card ops drv False s) (sd_clear c)"
proof -
  let ?w = "selects (view s) OR push_bit line 1"
  have "bit ?w line" using assms(3) by (simp add: bit_simps)
  with assms sd_deselect [of "bus (view s)" c _ "selects (view s)" line ?w]
  show ?thesis
    by (auto simp: linked_def card_parked_def select_card_def v_set_chipSelects v_get_chipSelects ctl_idle_def)
qed

lemma go_idle_returns:
  assumes "linked drv s c" "sd_ready c"
  shows "\<exists>s' c'. go_idle_loop ops drv s = Some s' \<and> linked drv s' c' \<and> sd_ready c' \<and> same_card c c'"
  using command_R1 [OF assms sd_replies_init(1), of 0] by (subst go_idle_loop.simps) auto

lemma op_cond_returns:
  assumes "linked drv s c" "sd_ready c"
  shows "\<exists>s' c'. op_cond_loop ops drv s = Some s' \<and> linked drv s' c' \<and> sd_ready c' \<and> same_card c c'"
proof -
  obtain s1 c1 where 1: "get_response_R1 ops drv (send_command ops drv CMD_APP_CMD 0 s) = Some (0, s1)"
     "linked drv s1 c1" "sd_ready c1" "same_card c c1"
    using command_R1 [OF assms sd_replies_init(5), of 0] by auto
  obtain s2 c2 where 2: "get_response_R1 ops drv (send_command ops drv SD_SEND_OP_COND (push_bit 30 1) s1) = Some (0, s2)"
     "linked drv s2 c2" "sd_ready c2" "same_card c1 c2"
    using command_R1 [OF 1(2,3) sd_replies_init(6), of "push_bit 30 1"] by auto
  have "op_cond_loop ops drv s = Some s2"
    by (subst op_cond_loop.simps) (use 1(1) 2(1) in simp)
  with 2 same_card_trans [OF 1(4) 2(4)] show ?thesis by blast
qed

lemma init_setup:
  assumes "ctl_idle (view s)" "bit (selects (view s)) line" "sd_parked (bus (view s)) c"
    "s1 = spi_init ops False False True 0 s" "s2 = set_configuration ops (get_configuration ops s1 OR push_bit 28 1) s1"
    "drv' = drv\<lparr>idleControl := (get_configuration ops s2 AND push_bit 28 1 \<noteq> 0)\<rparr>"
    "s3 = wait_idle ops (blocking_write ops ones s2)" "cs drv = push_bit line 1" "line < 32"
  shows "parked drv' s3 c"
proof -
  obtain x where 1: "view s1 = (view s)\<lparr>cfg := x\<rparr>" using v_init [OF assms(1)] assms(4) by blast
  then have i1: "ctl_idle (view s1)" "selects (view s1) = selects (view s)" "bus (view s1) = bus (view s)"
    using assms(1) by (simp_all add: ctl_idle_def)
  obtain w where 2: "view s2 = (view s1)\<lparr>cfg := w\<rparr>"
    using v_set_configuration [OF i1(1)] assms(5) by blast
  have "idleControl drv' \<longleftrightarrow> bit (cfg (view s2)) 28"
    unfolding assms(6) v_get_configuration and_bit_28 by simp
  moreover have "view s3 = (view s2)\<lparr>bus := snd (xfers (sd_xf line (selects (view s2))) ones (bus (view s2)))\<rparr>"
    using 2 i1(1) assms(7) by (simp add: v_wait_idle v_blocking_write ctl_idle_def)
  ultimately show ?thesis
    using assms(1-3,8,9) 2 i1 sd_parked_xfers [of "selects (view s)" line "bus (view s)" c ones]
    by (simp add: card_parked_def ctl_idle_def assms(6))
qed

theorem init_returns:
  assumes "ctl_idle (view s)" "bit (selects (view s)) line" "sd_parked (bus (view s)) c" "cs drv = push_bit line 1" "line < 32"
  shows "\<exists>drv' s' c'. sd_init ops drv s = Some (True, drv', s') \<and> parked drv' s' c' \<and> same_card c c' \<and>
    drv' = drv\<lparr>idleControl := idleControl drv'\<rparr>"
proof -
  define s1 where "s1 = spi_init ops False False True 0 s"
  define s2 where "s2 = set_configuration ops (get_configuration ops s1 OR push_bit 28 1) s1"
  define d where "d = drv\<lparr>idleControl := (get_configuration ops s2 AND push_bit 28 1 \<noteq> 0)\<rparr>"
  define s3 where "s3 = wait_idle ops (blocking_write ops ones s2)"
  have d: "cs d = push_bit line 1" using assms(4) by (simp add: d_def)
  have "parked d s3 c" using init_setup [OF assms(1-3) s1_def s2_def d_def s3_def assms(4,5)] .
  from select_linked [OF this] have 3: "linked d (select_card ops d True s3) (sd_clear c)" "sd_ready (sd_clear c)" .
  from go_idle_returns [OF this] obtain s4 c4 where 4: "go_idle_loop ops d (select_card ops d True s3) = Some s4"
      "linked d s4 c4" "sd_ready c4" "same_card (sd_clear c) c4" by blast
  from command_R3 [OF 4(2,3) sd_replies_init(2), of "0x1aa"] obtain s5 c5 where
    5: "get_response_R3 ops d (send_command ops d CMD_SEND_IF_COND 0x1aa s4) = Some s5" "linked d s5 c5" "sd_ready c5" "same_card c4 c5" by blast
  from command_R1 [OF 5(2,3) sd_replies_init(3), of "of_bool (crcOn d)"] obtain r6 s6 c6 where
    6: "get_response_R1 ops d (send_command ops d CMD_CRC_ON_OFF (of_bool (crcOn d)) s5) = Some (r6, s6)" "linked d s6 c6" "sd_ready c6" "same_card c5 c6" by blast
  from command_R3 [OF 6(2,3) sd_replies_init(4), of 0] obtain s7 c7 where
    7: "get_response_R3 ops d (send_command ops d CMD_READ_OCR 0 s6) = Some s7" "linked d s7 c7" "sd_ready c7" "same_card c6 c7" by blast
  from op_cond_returns [OF 7(2,3)] obtain s8 c8 where
    8: "op_cond_loop ops d s7 = Some s8" "linked d s8 c8" "sd_ready c8" "same_card c7 c8" by blast
  from command_R3 [OF 8(2,3) sd_replies_init(4), of 0] obtain s9 c9 where
    9: "get_response_R3 ops d (send_command ops d CMD_READ_OCR 0 s8) = Some s9" "linked d s9 c9" "sd_ready c9" "same_card c8 c9" by blast
  from command_R1 [OF 9(2,3) sd_replies_init(7), of "of_nat sd_kBlockLen"] obtain r10 s10 c10 where
    10: "get_response_R1 ops d (send_command ops d CMD_SET_BLOCKLEN (of_nat sd_kBlockLen) s9) = Some (r10, s10)" "linked d s10 c10" "sd_ready c10" "same_card c9 c10" by blast
  have "sd_init ops drv s = Some (True, d, select_card ops d False s10)"
    unfolding sd_init_def Let_def s1_def [symmetric] s2_def [symmetric] d_def [symmetric] s3_def [symmetric]
    using 4(1) 5(1) 6(1) 7(1) 8(1) 9(1) 10(1) by simp
  moreover have "parked d (select_card ops d False s10) (sd_clear c10)"
    using deselect_parked [OF 10(2) d assms(5)] 10(3) by (simp add: sd_ready_def)
  moreover have "same_card c (sd_clear c10)"
    using 4(4) 5(4) 6(4) 7(4) 8(4) 9(4) 10(4) by (simp add: same_card_def sd_clear_def)
  ultimately show ?thesis by (auto simp: d_def)
qed

text \<open>Reading one block.\<close>

lemma collected_block:
  assumes "at drv s c1" "sd_deaf (snd (sd_next c1))" "sd_next c1 = (0xfe, c2)" "sd_sending f off [] c2"
  shows "\<exists>s' c'. collected_data ops drv 512 s = Some (True, map (\<lambda>i. file_byte f (off + i)) [0..<512], s') \<and>
     linked drv s' c' \<and> same_image c2 c'"
proof -
  define xs where "xs = map (\<lambda>i. file_byte f (off + i)) [0..<512]"
  have l: "length xs = 512" by (simp add: xs_def)
  have "sd_reads (Suc (length [])) c1 = ([] @ [0xfe], c2)" using assms(3) by simp
  from at_poll [OF assms(1,2) this, of "\<lambda>r. StartBlockToken = r"]
  obtain s1 where 1: "poll_byte ops drv (\<lambda>r. StartBlockToken = r) s = Some (0xfe, s1)" "at drv s1 c2"
    by (metis StartBlockToken_def empty_iff list.set(1))
  have deaf: "sd_deaf (snd (sd_next c2))" using assms(2,3) by (simp add: sd_deaf_next)
  obtain c3 where 3: "sd_reads 512 c2 = (xs, c3)" "sd_sending f off xs c3"
    using sd_sending_reads [OF assms(4), of 512] by (cases "sd_reads 512 c2") (simp add: xs_def)
  obtain s2 where 2: "read_card_data ops drv 512 s1 = Some (xs, s2)" "at drv s2 c3"
    using at_read [OF 1(2) deaf, of 512] 3(1) by force
  have "sd_deaf (snd (sd_next c3))" using sd_deaf_next [OF sd_sending_deaf [OF 3(2)]] .
  from at_read [OF 2(2) this, of 2] obtain s3 where
    4: "read_card_data ops drv 2 s2 = Some (be16_bytes (update_crc16 0 xs), s3)" "at drv s3 (snd (sd_reads 2 c3))"
    using sd_sending_crc(1) [OF 3(2) l] by force
  have "collected_data ops drv 512 s = Some (True, xs, s3)"
    unfolding collected_data_def using 1(1) 2(1) 4(1) by (simp add: be16_value calc_crc16_def update_crc16_eq)
  moreover have "same_image c2 (snd (sd_next (snd (sd_reads 2 c3))))"
  proof -
    have r: "spidevicedpi_reset c2 = c2" "spidevicedpi_reset c3 = c3" using assms(4) 3(2) by (simp_all add: sd_sending_def)
    have "same_image c2 c3" using sd_reads_image [OF r(1), of 512] 3(1) by simp
    then show ?thesis
      using sd_reads_image [OF r(2), of 2] sd_next_image [OF spidevicedpi_reset_reads [OF r(2)], of 2] by (blast intro: same_image_trans)
  qed
  ultimately show ?thesis using at_linked [OF 4(2)] unfolding xs_def by blast
qed

theorem read_block:
  assumes "parked drv s c"
  shows "\<exists>s' c'. read_blocks ops drv blk 1 s = Some (True, sd_block (sd c) blk, s') \<and> parked drv s' c' \<and> same_image c c'"
proof -
  have drv: "cs drv = push_bit line 1" "line < 32" using assms(1) by (simp_all add: card_parked_def)
  define c0 where "c0 = sd_clear c"
  define s1 where "s1 = send_command ops drv CMD_READ_SINGLE_BLOCK (blk + of_nat 0) (select_card ops drv True s)"
  define r where "r = sd_cmd CMD_READ_SINGLE_BLOCK blk (last (command_frame drv CMD_READ_SINGLE_BLOCK blk)) c0"
  have 0: "linked drv (select_card ops drv True s) c0" "sd_ready c0"
    using select_linked [OF assms] by (simp_all add: c0_def)
  have 1: "at drv (wait_idle ops s1) r"
    using linked_command [OF 0, of CMD_READ_SINGLE_BLOCK blk] by (simp add: s1_def r_def sd_cmds)
  obtain c2 where c2: "sd_reads 2 r = ([0x00, 0xfe], c2)" "sd_sending (sd c0) (unat (push_bit 9 blk)) [] c2" "sd_deaf r"
    using sd_cmd_read [OF 0(2)] unfolding r_def by blast
  obtain c1 where c1: "sd_next r = (0, c1)" "sd_next c1 = (0xfe, c2)"
    using c2(1) by (auto simp: numeral_2_eq_2 split: prod.splits)
  have d1: "sd_deaf (snd (sd_next r))" using c2(3) by (rule sd_deaf_next)
  have "sd_reads (Suc (length [])) r = ([] @ [0x00], c1)" using c1(1) by simp
  from at_poll [OF 1 d1 this, of "\<lambda>r. r AND 0x80 = 0"] obtain s2 where
    2: "get_response_R1 ops drv s1 = Some (0, s2)" "at drv s2 c1" by (auto simp: get_response_R1_def)
  have "sd_deaf (snd (sd_next c1))" using d1 c1(1) by (simp add: sd_deaf_next)
  from collected_block [OF 2(2) this c1(2) c2(2)] obtain s3 c3 where
    3: "collected_data ops drv 512 s2 = Some (True, sd_block (sd c0) blk, s3)" "linked drv s3 c3" "same_image c2 c3"
    unfolding sd_block_def by blast
  have "spidevicedpi_reset r = r" using c2(3) by (simp add: sd_deaf_def)
  from sd_reads_image [OF this, of 2] c2(1) have i: "same_image r c3" using 3(3) by (auto intro: same_image_trans)
  moreover have "same_image c r" using 0(2)
    by (simp add: r_def same_image_def sd_cmd_def startCommand_def sd_cmds sendResponse_def sd_seek_block_def c0_def sd_clear_def
        option.map_comp comp_def sd_fseek_def)
  ultimately have "same_image c c3" by (rule same_image_trans [rotated])
  moreover from this 0(2) have "\<not> writing c3" "length (writeBuf c3) = 512"
    by (simp_all add: same_image_def sd_ready_def c0_def)
  ultimately show ?thesis
    using deselect_parked [OF 3(2) drv] 2(1) 3(1)
    by (auto simp: read_blocks_def s1_def c0_def sd_clear_def sd_kBlockLen_def same_image_def)
qed

text \<open>Writing one block.\<close>

lemma data_response:
  assumes "at drv s (sendResponse 8 (push_bit 56 0x01 OR 0xe5) c)" "sd_ready c"
  shows "\<exists>s' c'. get_data_response_busy ops drv s = Some (0xe5, s') \<and> linked drv s' c' \<and> sd_ready c' \<and> same_card c c'"
proof -
  let ?r = "sendResponse 8 (push_bit 56 0x01 OR 0xe5) c"
  obtain xs c1 where r: "sd_reads (unat (8 :: u32)) ?r = (xs, c1)" by fastforce
  have xs: "xs = [0xe5] @ [0, 0, 0, 0, 0, 0] @ [0x01]"
    using sd_reads_reply(1) [OF assms(2) _ r] by simp
  obtain c2 where 2: "sd_reads (Suc (length ([] :: u8 list))) ?r = ([] @ [0xe5], c2)" "sd_reads (Suc (length ([0, 0, 0, 0, 0, 0 :: u8]))) c2 = ([0, 0, 0, 0, 0, 0] @ [0x01], c1)"
  proof -
    have eq: "unat (8 :: u32) = 1 + Suc (length [0, 0, 0, 0, 0, 0 :: u8])" by simp
    have "sd_reads (1 + Suc (length [0, 0, 0, 0, 0, 0 :: u8])) ?r = ([0xe5] @ [0, 0, 0, 0, 0, 0] @ [0x01], c1)"
      using r xs unfolding eq by (simp only:)
    then obtain ys zs c2 where *: "sd_reads 1 ?r = (ys, c2)" "sd_reads (Suc (length [0, 0, 0, 0, 0, 0 :: u8])) c2 = (zs, c1)" "ys @ zs = [0xe5] @ [0, 0, 0, 0, 0, 0] @ [0x01]"
      unfolding sd_reads_append by (auto split: prod.splits)
    moreover from *(1) have "length ys = 1" by (auto split: prod.splits)
    ultimately have "ys = [0xe5]" "zs = [0, 0, 0, 0, 0, 0] @ [0x01]" by (auto simp: length_Suc_conv)
    with * that show thesis by (simp del: sd_reads.simps)
  qed
  have d0: "sd_deaf ?r" using assms(2) by (rule sd_deaf_reply)
  moreover have "snd (sd_next ?r) = c2" using 2(1) by (auto split: prod.splits)
  ultimately have deaf: "sd_deaf (snd (sd_next ?r))" "sd_deaf (snd (sd_next c2))"
    using sd_deaf_next by blast+
  have "at drv (wait_idle ops s) ?r" using assms(1) by simp
  from at_poll [OF this deaf(1) 2(1), of "\<lambda>r. r AND 0x11 = 0x01"] obtain s1 where
    s1: "poll_byte ops drv (\<lambda>r. r AND 0x11 = 0x01) (wait_idle ops s) = Some (0xe5, s1)" "at drv s1 c2" by auto
  from at_poll [OF s1(2) deaf(2) 2(2), of "\<lambda>r. r \<noteq> 0x00"] obtain s2 where
    s2: "poll_byte ops drv (\<lambda>r. r \<noteq> 0x00) s1 = Some (0x01, s2)" "at drv s2 c1" by auto
  have "get_data_response_busy ops drv s = Some (0xe5, s2)"
    using s1(1) s2(1) by (simp add: get_data_response_busy_def wait_not_busy_def)
  with at_linked [OF s2(2)] sd_reads_reply(2) [OF assms(2) _ r] show ?thesis by auto
qed

theorem write_block:
  assumes "parked drv s c" "length data = 512"
  shows "\<exists>s' c'. write_blocks ops drv blk data 1 s = Some (True, s') \<and> parked drv s' c' \<and>
     sd c' = map_option (\<lambda>f. sd_fwrite data (sd_fseek (unat (push_bit 9 blk)) f)) (sd c) \<and> cid c' = cid c \<and> csd c' = csd c"
proof -
  have drv: "cs drv = push_bit line 1" "line < 32" using assms(1) by (simp_all add: card_parked_def)
  define c0 where "c0 = sd_clear c"
  define s1 where "s1 = send_command ops drv CMD_WRITE_SINGLE_BLOCK (blk + of_nat 0) (select_card ops drv True s)"
  define r where "r = sd_cmd CMD_WRITE_SINGLE_BLOCK blk (last (command_frame drv CMD_WRITE_SINGLE_BLOCK blk)) c0"
  define crc where "crc = calc_crc16 data"
  define crc16 where "crc16 = (if crcOn drv then [ucast (drop_bit 8 crc), ucast crc] else [0xff, 0xff :: u8])"
  obtain h l where hl: "crc16 = [h, l]" by (cases "crcOn drv") (auto simp: crc16_def)
  have 0: "linked drv (select_card ops drv True s) c0" "sd_ready c0"
    using select_linked [OF assms(1)] by (simp_all add: c0_def)
  have 1: "at drv (wait_idle ops s1) r"
    using linked_command [OF 0, of CMD_WRITE_SINGLE_BLOCK blk] by (simp add: s1_def r_def sd_cmds)
  obtain c2 where c2: "sd_reads (Suc (length [0xfe :: u8])) r = ([0xfe] @ [0x00], c2)" "sd_next c2 = (0, c2)" "sd_collecting [] (sd_put 0xfe c2)" "sd_deaf r"
      "sd (sd_put 0xfe c2) = map_option (sd_fseek (unat (push_bit 9 blk))) (sd c0)" "cid (sd_put 0xfe c2) = cid c0" "csd (sd_put 0xfe c2) = csd c0"
    using sd_cmd_write [OF 0(2), of blk] unfolding r_def by (auto simp: numeral_2_eq_2)
  from at_poll [OF 1 sd_deaf_next [OF c2(4)] c2(1), of "\<lambda>r. r AND 0x80 = 0"] obtain s2 where
    2: "get_response_R1 ops drv s1 = Some (0, s2)" "at drv s2 c2" by (auto simp: get_response_R1_def)
  have "sd_feedable [0xfe] c2" using c2(2,3) by (simp add: sd_collecting_def sd_drives_def)
  from at_write [OF 2(2) this] c2(2) have 3: "at drv (blocking_write ops [0xfe] s2) (sd_put 0xfe c2)" by simp
  obtain c4 where c4: "sd_feed data (sd_put 0xfe c2) = c4" "sd_collecting data c4" "same_card (sd_put 0xfe c2) c4" "sd_feedable data (sd_put 0xfe c2)"
    using sd_collecting_feed [OF c2(3), of data] assms(2) by simp
  have 4: "at drv (blocking_write ops data (blocking_write ops [0xfe] s2)) c4"
    using at_write [OF 3 c4(4)] c4(1) by simp
  obtain c5 where c5: "sd_feed crc16 c4 = sendResponse 8 (push_bit 56 0x01 OR 0xe5) c5" "sd_ready c5" "sd_feedable crc16 c4"
      "sd c5 = map_option (sd_fwrite data) (sd c4)" "cid c5 = cid c4" "csd c5 = csd c4"
    using sd_collecting_crc [OF c4(2) assms(2), of h l] unfolding hl by blast
  from data_response [of drv "blocking_write ops crc16 (blocking_write ops data (blocking_write ops [0xfe] s2))" c5]
    at_write [OF 4 c5(3)] c5(1,2) obtain s6 c6 where
    6: "get_data_response_busy ops drv (blocking_write ops crc16 (blocking_write ops data (blocking_write ops [0xfe] s2))) = Some (0xe5, s6)"
      "linked drv s6 c6" "sd_ready c6" "same_card c5 c6" by auto
  have "write_blocks ops drv blk data 1 s = Some (True, select_card ops drv False s6)"
    using 2(1) 6(1) assms(2)
    by (simp add: write_blocks_def sd_kBlockLen_def StartBlockToken_def s1_def flip: crc_def crc16_def)
  moreover have "parked drv (select_card ops drv False s6) (sd_clear c6)"
    using deselect_parked [OF 6(2) drv] 6(3) by (simp add: sd_ready_def)
  moreover have "sd (sd_clear c6) = map_option (\<lambda>f. sd_fwrite data (sd_fseek (unat (push_bit 9 blk)) f)) (sd c)"
     "cid (sd_clear c6) = cid c" "csd (sd_clear c6) = csd c"
    using 6(4) c5(4-6) c4(3) c2(5-7) by (simp_all add: same_card_def c0_def sd_clear_def option.map_comp comp_def)
  ultimately show ?thesis by blast
qed

end

section \<open>The simulated system\<close>

text \<open>The controller of \<open>Spi_Controller\<close> with the card on one of its lines, as it is after power-on.\<close>

interpretation sim_slot: sd_slot "sim_spi ic (sd_xf line) (sd_csf line)" "\<lambda>v. v" "\<lambda>_. 0" line
  by unfold_locales

definition sd_power_on :: "sdfile option \<Rightarrow> sd_bus ctl" where
  "sd_power_on img =
    \<lparr>bus = (spi_microsd_new
       \<lparr>inBits = 0, inByte = 0, outBits = 0, outByte = 0, oobOut = 0, cmdCode = 0, cmdAddress = 0, cmdCrc = 0, cmdBytes = 0,
        responding = False, sd_rsp = replicate 8 0, rspBytes = 0, rspLen = 0, reading = False,
        readState = ReadState_CmdStatus, readBytes = 0, readCrc16 = 0, writing = False, writeState = WriteState_StartToken,
        writeBytes = 0, writeBuf = replicate 512 0, writeCrc16 = 0, cid = [], csd = [], sd = None\<rparr> img, 0),
     selects = 0xf, cfg = 0, ctrl = 0, txq = [], rxq = [], room = 0\<rparr>"

lemma sd_parked_new: "length (writeBuf raw) = 512 \<Longrightarrow> sd_parked (spi_microsd_new raw img, q) (spi_microsd_new raw img)"
  by (simp add: sd_parked_def spi_microsd_new_def spi_microsd_reset_def) (simp add: spidevicedpi_reset_def)

lemma power_on_parked: "card_parked (\<lambda>v. v) 1 (SdCard \<lparr>cs = 0, det = 0, crcOn = True, idleControl = False\<rparr> 1 16 crc)
    (sd_power_on img) (fst (bus (sd_power_on img)))"
  by (simp add: card_parked_def SdCard_def sd_power_on_def ctl_idle_def sd_parked_new bit_numeral_rec)

lemma unat_push_bit_9: "unat blk < 2 ^ 23 \<Longrightarrow> unat (push_bit 9 (blk :: u32)) = 512 * unat blk"
  by (simp add: push_bit_eq_mult unat_word_ariths)

lemma file_byte_fwrite:
  assumes "length data = 512"
  shows "file_byte (Some (sd_fwrite data (sd_fseek off f))) p =
    (if off \<le> p \<and> p < off + 512 then data ! (p - off) else if p < length (contents f) then contents f ! p else
     if p < off then 0 else 0xff)"
proof -
  define a where "a = take off (contents f @ replicate (off - length (contents f)) 0)"
  have c: "contents (sd_fwrite data (sd_fseek off f)) = a @ data @ drop (off + 512) (contents f)" and l: "length a = off"
    using assms by (simp_all add: sd_fwrite_def sd_fseek_def a_def)
  have a: "p < off \<Longrightarrow> a ! p = (if p < length (contents f) then contents f ! p else 0)"
    by (simp add: a_def nth_append)
  consider "p < off" | "off \<le> p" "p < off + 512" | "off + 512 \<le> p" by linarith
  then show ?thesis
    by cases (use assms a l in \<open>auto simp: file_byte_def c nth_append\<close>)
qed

lemma sd_block_fwrite_same:
  "length data = 512 \<Longrightarrow> sd_block (Some (sd_fwrite data (sd_fseek (unat (push_bit 9 blk)) f))) blk = data"
  by (rule nth_equalityI) (simp_all add: sd_block_def file_byte_fwrite)

lemma sd_block_fwrite_other:
  assumes "length data = 512" "unat blk < 2 ^ 23" "unat blk' < 2 ^ 23" "blk' \<noteq> blk" "512 * unat blk' + 512 \<le> length (contents f)"
  shows "sd_block (Some (sd_fwrite data (sd_fseek (unat (push_bit 9 blk)) f))) blk' = sd_block (Some f) blk'"
proof -
  have "unat blk' \<noteq> unat blk" using assms(4) by (simp add: word_unat_eq_iff)
  then have "\<not> (512 * unat blk \<le> 512 * unat blk' + i \<and> 512 * unat blk' + i < 512 * unat blk + 512)" if "i < 512" for i
    using that by arith
  with assms(5) show ?thesis
    unfolding sd_block_def unat_push_bit_9 [OF assms(2)] unat_push_bit_9 [OF assms(3)]
    by (intro map_cong refl, subst file_byte_fwrite [OF assms(1)]) (auto simp: file_byte_def)
qed

section \<open>Properties\<close>

text \<open>
  C14. \<open>SdCard::init\<close> returns true on the simulated card: over every controller that fulfils its contract, from a newly
  constructed card that is not selected, all polling loops of the initialisation sequence end, the
  card is left deselected and ready for block transfers, and the image and the identification data are as before.
\<close>
theorem sd_init_returns:
  assumes "sd_slot ops view delay line" "ctl_idle (view s)" "bit (selects (view s)) line"
    "bus (view s) = (spi_microsd_new raw img, q)" "length (writeBuf raw) = 512"
    "drv = SdCard any line detn crc" "line < 32"
  shows "\<exists>drv' s' c'. sd_init ops drv s = Some (True, drv', s') \<and> card_parked view line drv' s' c' \<and>
    sd c' = img \<and> cid c' = sd_init_cid img \<and> csd c' = sd_init_csd"
proof -
  have "sd_parked (bus (view s)) (spi_microsd_new raw img)" using sd_parked_new assms(4,5) by simp
  from sd_slot.init_returns [OF assms(1-3) this, of drv] assms(6,7) show ?thesis
    by (auto simp: same_card_def SdCard_def spi_microsd_new_def spi_microsd_reset_def)
qed

text \<open>Initialisation over a controller that can hold the COPI line high, and one that cannot.\<close>
theorem sd_init_returns_witness:
  "\<forall>ic. \<exists>drv' s' c'. sd_init (sim_spi ic (sd_xf 1) (sd_csf 1)) (SdCard \<lparr>cs = 0, det = 0, crcOn = True, idleControl = False\<rparr> 1 16 True)
      (sd_power_on None) = Some (True, drv', s') \<and>
    card_parked (\<lambda>v. v) 1 drv' s' c' \<and> sd c' = None \<and> cid c' = sd_init_cid None \<and> csd c' = sd_init_csd"
  by (intro allI sd_init_returns [OF sim_slot.sd_slot_axioms])
     (simp_all add: sd_power_on_def ctl_idle_def bit_numeral_rec, simp)

text \<open>
  Reading one block with \<open>read_blocks\<close> returns true and the 512 bytes of the image at the block's offset
  (ones where the image ends before), whatever the image holds, and changes neither the image nor the identification data.
\<close>
theorem sd_read_block:
  assumes "sd_slot ops view delay line" "card_parked view line drv s c"
  shows "\<exists>s' c'. read_blocks ops drv blk 1 s = Some (True, sd_block (sd c) blk, s') \<and> card_parked view line drv s' c' \<and>
    map_option contents (sd c') = map_option contents (sd c) \<and> cid c' = cid c \<and> csd c' = csd c"
  using sd_slot.read_block [OF assms, of blk] by (auto simp: same_image_def)

theorem sd_read_block_witness:
  "\<exists>s' c'. read_blocks (sim_spi True (sd_xf 1) (sd_csf 1)) (SdCard \<lparr>cs = 0, det = 0, crcOn = True, idleControl = False\<rparr> 1 16 True) 3 1
      (sd_power_on None) = Some (True, sd_block (sd (fst (bus (sd_power_on None)))) 3, s') \<and>
    card_parked (\<lambda>v. v) 1 (SdCard \<lparr>cs = 0, det = 0, crcOn = True, idleControl = False\<rparr> 1 16 True) s' c' \<and>
    map_option contents (sd c') = map_option contents (sd (fst (bus (sd_power_on None)))) \<and>
    cid c' = cid (fst (bus (sd_power_on None))) \<and> csd c' = csd (fst (bus (sd_power_on None)))"
  by (rule sd_read_block [OF sim_slot.sd_slot_axioms power_on_parked])

text \<open>
  C2. A block written with \<open>write_blocks\<close> is accepted by the card and read back unchanged by \<open>read_blocks\<close>, with or without
  CRC checking and on either kind of controller.
\<close>
theorem sd_write_read:
  assumes "sd_slot ops view delay line" "card_parked view line drv s c" "sd c = Some f" "length data = 512"
  shows "\<exists>s1 s2 c2. write_blocks ops drv blk data 1 s = Some (True, s1) \<and>
    read_blocks ops drv blk 1 s1 = Some (True, data, s2) \<and> card_parked view line drv s2 c2"
proof -
  from sd_slot.write_block [OF assms(1,2,4), of blk] assms(3) obtain s1 c1 where
    1: "write_blocks ops drv blk data 1 s = Some (True, s1)" "card_parked view line drv s1 c1"
      "sd c1 = Some (sd_fwrite data (sd_fseek (unat (push_bit 9 blk)) f))" by auto
  with sd_slot.read_block [OF assms(1) 1(2), of blk] show ?thesis
    by (auto simp: sd_block_fwrite_same [OF assms(4)])
qed

theorem sd_write_read_witness:
  "\<exists>s1 s2 c2. write_blocks (sim_spi False (sd_xf 1) (sd_csf 1)) (SdCard \<lparr>cs = 0, det = 0, crcOn = True, idleControl = False\<rparr> 1 16 True) 7
      (replicate 512 0x5a) 1 (sd_power_on (Some \<lparr>contents = [], fpos = 0\<rparr>)) = Some (True, s1) \<and>
    read_blocks (sim_spi False (sd_xf 1) (sd_csf 1)) (SdCard \<lparr>cs = 0, det = 0, crcOn = True, idleControl = False\<rparr> 1 16 True) 7 1 s1 =
      Some (True, replicate 512 0x5a, s2) \<and>
    card_parked (\<lambda>v. v) 1 (SdCard \<lparr>cs = 0, det = 0, crcOn = True, idleControl = False\<rparr> 1 16 True) s2 c2"
  by (rule sd_write_read [OF sim_slot.sd_slot_axioms power_on_parked, of _ "\<lparr>contents = [], fpos = 0\<rparr>"])
     (simp_all add: sd_power_on_def spi_microsd_new_def spi_microsd_reset_def)

text \<open>
  Writing one block leaves every other block that lies inside the image as it was (block numbers below
  \<open>2^23\<close>, the range in which the card's 32-bit byte offset does not wrap around).
\<close>
theorem sd_write_frame:
  assumes "sd_slot ops view delay line" "card_parked view line drv s c" "sd c = Some f" "length data = 512"
    "unat blk < 2 ^ 23" "unat blk' < 2 ^ 23" "blk' \<noteq> blk" "512 * unat blk' + 512 \<le> length (contents f)"
  shows "\<exists>s1 s2. write_blocks ops drv blk data 1 s = Some (True, s1) \<and>
    read_blocks ops drv blk' 1 s1 = Some (True, take 512 (drop (512 * unat blk') (contents f)), s2)"
proof -
  from sd_slot.write_block [OF assms(1,2,4), of blk] assms(3) obtain s1 c1 where
    1: "write_blocks ops drv blk data 1 s = Some (True, s1)" "card_parked view line drv s1 c1"
      "sd c1 = Some (sd_fwrite data (sd_fseek (unat (push_bit 9 blk)) f))" by auto
  have "sd_block (Some f) blk' = take 512 (drop (512 * unat blk') (contents f))"
    using assms(8) by (intro nth_equalityI) (auto simp: sd_block_def file_byte_def unat_push_bit_9 [OF assms(6)])
  with sd_slot.read_block [OF assms(1) 1(2), of blk'] 1 show ?thesis
    by (auto simp: sd_block_fwrite_other [OF assms(4-8)])
qed

theorem sd_write_frame_witness:
  "\<exists>s1 s2. write_blocks (sim_spi True (sd_xf 1) (sd_csf 1)) (SdCard \<lparr>cs = 0, det = 0, crcOn = True, idleControl = False\<rparr> 1 16 False) 2
      (replicate 512 0x5a) 1 (sd_power_on (Some \<lparr>contents = replicate 1024 0x33, fpos = 0\<rparr>)) = Some (True, s1) \<and>
    read_blocks (sim_spi True (sd_xf 1) (sd_csf 1)) (SdCard \<lparr>cs = 0, det = 0, crcOn = True, idleControl = False\<rparr> 1 16 False) 1 1 s1 =
      Some (True, take 512 (drop (512 * unat (1 :: u32)) (contents \<lparr>contents = replicate 1024 0x33, fpos = 0\<rparr>)), s2)"
  by (rule sd_write_frame [OF sim_slot.sd_slot_axioms power_on_parked])
     (simp_all add: sd_power_on_def spi_microsd_new_def spi_microsd_reset_def)

text \<open>
  C15. With CRC checking on, \<open>collected_data\<close> rejects a block that was damaged on the wire within two adjacent bytes:
  if the card sent a block with its CRC16 and the driver received it with those two bytes changed, the
  driver returns false and deselects the card.
\<close>
theorem sd_read_rejects_damage:
  assumes "crcOn drv" "(a, b) \<noteq> (a', b')"
    "poll_byte ops drv (\<lambda>r. StartBlockToken = r) s = Some (t, s1)"
    "read_card_data ops drv len s1 = Some (pre @ [a', b'] @ post, s2)"
    "read_card_data ops drv 2 s2 = Some (be16_bytes (update_crc16 0 (pre @ [a, b] @ post)), s3)"
  shows "collected_data ops drv len s = Some (False, pre @ [a', b'] @ post, select_card ops drv False s3)"
proof -
  have "update_crc16 0 (pre @ [a, b] @ post) \<noteq> calc_crc16 (pre @ [a', b'] @ post)"
    using crc16_burst_differs [OF assms(2), of pre post] unfolding calc_crc16_def update_crc16_eq .
  with assms show ?thesis
    unfolding collected_data_def by (simp add: be16_value)
qed

text \<open>A bus that answers from a script, for a block of two bytes damaged on the way.\<close>

definition script_xf :: "u32 \<Rightarrow> u8 \<Rightarrow> u8 list \<Rightarrow> u8 \<times> u8 list" where
  "script_xf sel b script = (hd script, tl script)"

definition script_start :: "u8 list ctl" where
  "script_start = \<lparr>bus = [0xfe, 0x31, 0x00] @ be16_bytes (update_crc16 0 [0x31, 0x32]), selects = 0, cfg = 0, ctrl = 0,
     txq = [], rxq = [], room = 0\<rparr>"

theorem sd_read_rejects_damage_witness:
  "\<exists>s'. collected_data (sim_spi False script_xf (\<lambda>_ _ b. b)) \<lparr>cs = 2, det = 0, crcOn = True, idleControl = False\<rparr> 2 script_start =
     Some (False, [0x31, 0x00], s')"
proof -
  let ?ops = "sim_spi False script_xf (\<lambda>_ _ b. b)" and ?drv = "\<lparr>cs = 2, det = 0, crcOn = True, idleControl = False\<rparr>"
  have rep: "replicate 2 (0xff :: u8) = [0xff, 0xff]" by (simp add: numeral_2_eq_2)
  note ex = sim_controller.read_card_data_exchanges [of _ _ "?drv" script_xf _ _ False "\<lambda>_ _ b. b"]
  obtain s1 where 1: "read_card_data ?ops ?drv 1 script_start = Some ([0xfe], s1)" "ctl_idle s1"
      "bus s1 = [0x31, 0x00] @ be16_bytes (update_crc16 0 [0x31, 0x32])"
    using ex [of script_start 1] by (auto simp: script_start_def ctl_idle_def script_xf_def moved_def)
  have p: "poll_byte ?ops ?drv (\<lambda>r. StartBlockToken = r) script_start = Some (0xfe, s1)"
    by (subst poll_byte.simps) (simp add: get_response_byte_def 1(1) StartBlockToken_def)
  obtain s2 where 2: "read_card_data ?ops ?drv 2 s1 = Some ([0x31, 0x00], s2)" "ctl_idle s2"
      "bus s2 = be16_bytes (update_crc16 0 [0x31, 0x32])"
    using ex [of s1 2] 1 by (auto simp: script_xf_def moved_def rep)
  obtain s3 where 3: "read_card_data ?ops ?drv 2 s2 = Some (be16_bytes (update_crc16 0 [0x31, 0x32]), s3)"
    using ex [of s2 2] 2 by (auto simp: script_xf_def moved_def rep be16_bytes_def)
  from sd_read_rejects_damage [OF _ _ p, of "0x31" "0x32" "0x31" "0x00" 2 "[]" "[]" s2 s3] 2(1) 3
  show ?thesis by auto
qed

end
