(* ===== verification/Fat_Cache.thy ===== *)
theory Fat_Cache
  imports Prelude "HOL-Library.Monad_Syntax"
begin

unbundle bit_operations_syntax

text \<open>
  The state of the FAT32 layer (\<open>fileSysUtils\<close> in \<open>filesys-utils.hh\<close>) and its lowest level: the cache of
  blocks in front of the SD card and the cluster chains of the file allocation table. The card is an
  argument \<open>rd\<close>: reading a block gives the driver's verdict, the bytes it stored and the card's new state, or
  \<open>None\<close> when the driver never returns.
\<close>

section \<open>State\<close>

type_synonym 'm block_read = "u32 \<Rightarrow> 'm \<Rightarrow> (bool \<times> u8 list \<times> 'm) option"

record cache_entry =
  ce_block :: u32
  ce_buf :: "u8 list"

record objState =
  oflags :: u32
  ooffset :: u32
  olength :: u32
  currCluster :: u32
  firstCluster :: u32

record fileSysUtils =
  partValid :: bool
  bytesPerSectorShift :: u8
  secsPerClusterShift :: u8
  blksPerClusterShift :: u8
  fatStart :: u32
  clusterHeapStart :: u32
  rootStart :: u32
  rootCluster :: u32
  clusterBytes :: u32
  clusterMask :: u32
  dataBuffer :: "u8 list"
  blockCacheNext :: u32
  blockCache :: "cache_entry list"
  files :: "objState list"
  dirs :: "objState list"

definition kBytesPerBlockShift :: nat where "kBytesPerBlockShift = 9"
definition fs_kBlockLen :: u32 where "fs_kBlockLen = push_bit kBytesPerBlockShift 1"
definition kCacheEntries :: nat where "kCacheEntries = 8"
definition kInvalidBlock :: u32 where "kInvalidBlock = NOT 0"
definition Flag_Valid :: u32 where "Flag_Valid = push_bit 31 1"
definition kMaxFiles :: nat where "kMaxFiles = 4"
definition kMaxDirs :: nat where "kMaxDirs = 2"

text \<open>Little endian words in a buffer.\<close>

definition read32le :: "u8 list \<Rightarrow> nat \<Rightarrow> u32" where
  "read32le p i = le32 (p ! i) (p ! (i + 1)) (p ! (i + 2)) (p ! (i + 3))"

definition read16le :: "u8 list \<Rightarrow> nat \<Rightarrow> u16" where
  "read16le p i = le16 (p ! i) (p ! (i + 1))"

section \<open>The block cache\<close>

text \<open>\<open>while (idx < kCacheEntries)\<close> of \<open>block_ensure\<close>.\<close>

fun cache_find :: "u32 \<Rightarrow> nat \<Rightarrow> cache_entry list \<Rightarrow> nat option" where
  "cache_find block idx [] = None"
| "cache_find block idx (e # es) = (if block = ce_block e then Some idx else cache_find block (Suc idx) es)"

text \<open>The result is the index of the entry, \<open>None\<close> for \<open>-1\<close>. The driver stores into the buffer of
  the entry whether or not it succeeds in the end.\<close>

definition block_ensure :: "'m block_read \<Rightarrow> u32 \<Rightarrow> fileSysUtils \<Rightarrow> 'm \<Rightarrow> (nat option \<times> fileSysUtils \<times> 'm) option" where
  "block_ensure rd block fs m =
    (case cache_find block 0 (take kCacheEntries (blockCache fs)) of
       Some idx \<Rightarrow> Some (Some idx, fs, m)
     | None \<Rightarrow> do {
         let idx = unat (blockCacheNext fs);
         (ok, data, m) \<leftarrow> rd block m;
         let e = blockCache fs ! idx;
         let e = e\<lparr>ce_buf := blit (ce_buf e) 0 data\<rparr>;
         if ok then
           Some (Some idx,
             fs\<lparr>blockCache := (blockCache fs)[idx := e\<lparr>ce_block := block\<rparr>],
                blockCacheNext := (if blockCacheNext fs + 1 \<ge> of_nat kCacheEntries then 0 else blockCacheNext fs + 1)\<rparr>, m)
         else Some (None, fs\<lparr>blockCache := (blockCache fs)[idx := e]\<rparr>, m) })"

section \<open>Cluster chains\<close>

definition end_of_chain :: "u32 \<Rightarrow> bool" where
  "end_of_chain cluster \<longleftrightarrow> cluster \<le> 1 \<or> cluster \<ge> 0x0ffffff8"

text \<open>The next cluster, or \<open>None\<close> when the block of the table could not be read.\<close>

definition cluster_next :: "'m block_read \<Rightarrow> u32 \<Rightarrow> fileSysUtils \<Rightarrow> 'm \<Rightarrow> (u32 option \<times> fileSysUtils \<times> 'm) option" where
  "cluster_next rd cluster fs m = do {
     let byteOffset = push_bit 2 cluster;
     let block = fatStart fs + drop_bit kBytesPerBlockShift byteOffset;
     (idx, fs, m) \<leftarrow> block_ensure rd block fs m;
     case idx of
       None \<Rightarrow> Some (None, fs, m)
     | Some idx \<Rightarrow>
         Some (Some (read32le (ce_buf (blockCache fs ! idx)) (unat (byteOffset AND (fs_kBlockLen - 1)))
                     AND NOT 0xf0000000), fs, m) }"

definition block_number :: "fileSysUtils \<Rightarrow> u32 \<Rightarrow> u32 \<Rightarrow> u32" where
  "block_number fs cluster offset =
    clusterHeapStart fs + push_bit (unat (blksPerClusterShift fs)) (cluster - 2) + drop_bit kBytesPerBlockShift offset"

section \<open>A medium that can be read\<close>

text \<open>
  The contract of the card: in the states \<open>inv\<close> every block can be read, reading a block gives its contents \<open>blk\<close>, and
  leaves the medium in such a state.
\<close>

locale block_device =
  fixes rd :: "'m block_read"
    and inv :: "'m \<Rightarrow> bool"
    and blk :: "u32 \<Rightarrow> u8 list"
  assumes rd_ok: "inv m \<Longrightarrow> \<exists>m'. rd b m = Some (True, blk b, m') \<and> inv m'"
    and blk_length: "length (blk b) = 512"
begin

text \<open>The cache invariant: an entry in use holds the block its tag names.\<close>

definition cache_ok :: "fileSysUtils \<Rightarrow> bool" where
  "cache_ok fs \<longleftrightarrow> length (blockCache fs) = kCacheEntries \<and> unat (blockCacheNext fs) < kCacheEntries \<and>
     (\<forall>e \<in> set (blockCache fs). length (ce_buf e) = 512 \<and> (ce_block e \<noteq> kInvalidBlock \<longrightarrow> ce_buf e = blk (ce_block e)))"

end

text \<open>What the cache may change.\<close>

definition fs_rest :: "fileSysUtils \<Rightarrow> fileSysUtils" where
  "fs_rest fs = fs\<lparr>blockCache := [], blockCacheNext := 0\<rparr>"

lemma fs_rest_eqD:
  assumes "fs_rest fs' = fs_rest fs"
  shows "fatStart fs' = fatStart fs" "clusterHeapStart fs' = clusterHeapStart fs" "clusterBytes fs' = clusterBytes fs"
    "clusterMask fs' = clusterMask fs" "blksPerClusterShift fs' = blksPerClusterShift fs" "files fs' = files fs" "dirs fs' = dirs fs"
    "partValid fs' = partValid fs" "rootCluster fs' = rootCluster fs" "dataBuffer fs' = dataBuffer fs"
  using arg_cong [OF assms, of fatStart] arg_cong [OF assms, of clusterHeapStart] arg_cong [OF assms, of clusterBytes]
    arg_cong [OF assms, of clusterMask] arg_cong [OF assms, of blksPerClusterShift] arg_cong [OF assms, of files]
    arg_cong [OF assms, of dirs] arg_cong [OF assms, of partValid] arg_cong [OF assms, of rootCluster] arg_cong [OF assms, of dataBuffer]
  by (simp_all add: fs_rest_def)

lemma cache_find_Some:
  "cache_find b i es = Some j \<Longrightarrow> i \<le> j \<and> j - i < length es \<and> ce_block (es ! (j - i)) = b"
proof (induction es arbitrary: i)
  case (Cons e es)
  then show ?case by (cases "b = ce_block e") (auto simp: Suc_diff_le nth_Cons' dest!: Cons.IH)
qed simp

lemma cache_find_None: "cache_find b i es = None \<longleftrightarrow> b \<notin> ce_block ` set es"
  by (induction es arbitrary: i) auto

lemma blit_whole: "length data = length buf \<Longrightarrow> blit buf 0 data = data"
  by (simp add: blit_def)

context block_device
begin

text \<open>\<open>block_ensure\<close> always finds or reads the block, keeps the invariant and touches nothing but the cache: either
  the block was there and nothing changes, or it replaces the entry whose turn it is.\<close>

lemma block_ensure_step:
  assumes "inv m" "cache_ok fs" "b \<noteq> kInvalidBlock"
  shows "\<exists>idx fs' m'. block_ensure rd b fs m = Some (Some idx, fs', m') \<and> inv m' \<and> cache_ok fs' \<and> fs_rest fs' = fs_rest fs \<and>
     idx < kCacheEntries \<and> ce_block (blockCache fs' ! idx) = b \<and> ce_buf (blockCache fs' ! idx) = blk b \<and>
     (fs' = fs \<and> b \<in> ce_block ` set (blockCache fs) \<or>
      b \<notin> ce_block ` set (blockCache fs) \<and> idx = unat (blockCacheNext fs) \<and> (\<forall>i. i \<noteq> idx \<longrightarrow> blockCache fs' ! i = blockCache fs ! i) \<and>
      unat (blockCacheNext fs') = Suc (unat (blockCacheNext fs)) mod kCacheEntries)"
proof (cases "cache_find b 0 (blockCache fs)")
  case None
  obtain m' where m': "rd b m = Some (True, blk b, m')" "inv m'" using rd_ok [OF assms(1)] by blast
  define idx where "idx = unat (blockCacheNext fs)"
  define e where "e = (blockCache fs ! idx)\<lparr>ce_buf := blk b, ce_block := b\<rparr>"
  define fs' where "fs' = fs\<lparr>blockCache := (blockCache fs)[idx := e],
                blockCacheNext := (if blockCacheNext fs + 1 \<ge> of_nat kCacheEntries then 0 else blockCacheNext fs + 1)\<rparr>"
  have idx: "idx < 8" "length (blockCache fs) = 8"
    using assms(2) by (simp_all add: cache_ok_def kCacheEntries_def idx_def)
  have "length (ce_buf (blockCache fs ! idx)) = 512" using assms(2) idx by (simp add: cache_ok_def)
  then have "blit (ce_buf (blockCache fs ! idx)) 0 (blk b) = blk b" by (simp add: blit_whole blk_length)
  with None m'(1) idx have "block_ensure rd b fs m = Some (Some idx, fs', m')"
    by (simp add: block_ensure_def fs'_def e_def idx_def kCacheEntries_def Let_def)
  moreover have u: "unat (blockCacheNext fs + 1) = Suc idx"
    using idx(1) by (simp add: idx_def unat_word_ariths)
  then have n: "unat (blockCacheNext fs') = Suc idx mod 8"
    using idx(1) by (cases "idx = 7") (auto simp: fs'_def kCacheEntries_def word_le_nat_alt)
  moreover have "cache_ok fs'"
  proof -
    have "set ((blockCache fs)[idx := e]) \<subseteq> insert e (set (blockCache fs))" by (rule set_update_subset_insert)
    then show ?thesis
      using assms(2) n by (auto simp: cache_ok_def fs'_def e_def kCacheEntries_def blk_length)
  qed
  moreover have "b \<notin> ce_block ` set (blockCache fs)" using None by (simp add: cache_find_None)
  moreover have "fs_rest fs' = fs_rest fs" "ce_block (blockCache fs' ! idx) = b" "ce_buf (blockCache fs' ! idx) = blk b"
    using idx by (simp_all add: fs'_def fs_rest_def e_def)
  moreover have "\<forall>i. i \<noteq> idx \<longrightarrow> blockCache fs' ! i = blockCache fs ! i" by (simp add: fs'_def)
  ultimately show ?thesis using m'(2) idx(1) unfolding kCacheEntries_def idx_def by blast
next
  case (Some idx)
  then have *: "idx < length (blockCache fs)" "ce_block (blockCache fs ! idx) = b"
    using cache_find_Some [OF Some] by auto
  with assms have "ce_buf (blockCache fs ! idx) = blk b" by (auto simp: cache_ok_def)
  with Some * assms show ?thesis by (auto simp: block_ensure_def cache_ok_def)
qed

text \<open>The successor of a cluster in the table on the medium, and the cluster \<open>n\<close> steps down a chain.\<close>

definition fat_block :: "fileSysUtils \<Rightarrow> u32 \<Rightarrow> u32" where
  "fat_block fs c = fatStart fs + drop_bit 9 (push_bit 2 c)"

definition fat_next :: "fileSysUtils \<Rightarrow> u32 \<Rightarrow> u32" where
  "fat_next fs c = read32le (blk (fat_block fs c)) (unat (push_bit 2 c AND 0x1ff)) AND NOT 0xf0000000"

definition chain :: "fileSysUtils \<Rightarrow> u32 \<Rightarrow> nat \<Rightarrow> u32" where
  "chain fs c n = (fat_next fs ^^ n) c"

lemma chain_Suc: "chain fs c (Suc n) = fat_next fs (chain fs c n)"
  by (simp add: chain_def)

lemma chain_cong: "fs_rest fs' = fs_rest fs \<Longrightarrow> chain fs' c n = chain fs c n"
proof -
  assume "fs_rest fs' = fs_rest fs"
  then have "fatStart fs' = fatStart fs" by (rule fs_rest_eqD)
  then have "fat_next fs' = fat_next fs" by (simp add: fun_eq_iff fat_next_def fat_block_def)
  then show ?thesis by (simp add: chain_def)
qed

text \<open>The effect of a lookup on the cache: the entries but the one whose turn it is keep their place.\<close>

definition slots_kept :: "u32 \<Rightarrow> fileSysUtils \<Rightarrow> fileSysUtils \<Rightarrow> bool" where
  "slots_kept b fs fs' \<longleftrightarrow> fs' = fs \<and> b \<in> ce_block ` set (blockCache fs) \<or>
     b \<notin> ce_block ` set (blockCache fs) \<and>
     (\<forall>i. i \<noteq> unat (blockCacheNext fs) \<longrightarrow> blockCache fs' ! i = blockCache fs ! i) \<and>
     ce_block (blockCache fs' ! unat (blockCacheNext fs)) = b \<and>
     unat (blockCacheNext fs') = Suc (unat (blockCacheNext fs)) mod kCacheEntries"

lemma cluster_next_ok:
  assumes "inv m" "cache_ok fs" "fat_block fs c \<noteq> kInvalidBlock"
  shows "\<exists>fs' m'. cluster_next rd c fs m = Some (Some (fat_next fs c), fs', m') \<and> inv m' \<and> cache_ok fs' \<and> fs_rest fs' = fs_rest fs \<and>
     slots_kept (fat_block fs c) fs fs'"
proof -
  obtain idx fs' m' where "block_ensure rd (fat_block fs c) fs m = Some (Some idx, fs', m')" "inv m'" "cache_ok fs'"
     "fs_rest fs' = fs_rest fs" "ce_buf (blockCache fs' ! idx) = blk (fat_block fs c)" "slots_kept (fat_block fs c) fs fs'"
    using block_ensure_step [OF assms] unfolding slots_kept_def by blast
  then show ?thesis
    by (simp add: cluster_next_def fat_block_def fat_next_def kBytesPerBlockShift_def fs_kBlockLen_def Let_def)
qed

end

end
