(* ===== verification/Fat_Object.thy ===== *)
theory Fat_Object
  imports Fat_Cache
begin

unbundle bit_operations_syntax

text \<open>
  Positioning and reading in an object, that is a file or a directory, of the FAT32 layer (\<open>object_seek\<close> and
  \<open>object_read\<close> in \<open>filesys-utils.hh\<close>), and their correctness: over a readable medium, an object is the sequence of bytes
  its cluster chain leads to, and reading returns the next bytes of that sequence.
\<close>

section \<open>Operations\<close>

text \<open>The loop of \<open>object_seek\<close>; it returns the cluster it stops at, \<open>None\<close> after a failed read.\<close>

partial_function (option) seek_loop ::
  "'m block_read \<Rightarrow> u32 \<Rightarrow> u32 \<Rightarrow> u32 \<Rightarrow> fileSysUtils \<Rightarrow> 'm \<Rightarrow> (u32 option \<times> fileSysUtils \<times> 'm) option" where
  "seek_loop rd offset cluster currOffset fs m =
    (if offset - currOffset \<ge> clusterBytes fs then do {
       (nextCluster, fs', m) \<leftarrow> cluster_next rd cluster fs m;
       case nextCluster of
         None \<Rightarrow> Some (None, fs', m)
       | Some nextCluster \<Rightarrow> seek_loop rd offset nextCluster (currOffset + clusterBytes fs) fs' m }
     else Some (Some cluster, fs, m))"

definition object_seek ::
  "'m block_read \<Rightarrow> objState \<Rightarrow> u32 \<Rightarrow> fileSysUtils \<Rightarrow> 'm \<Rightarrow> (bool \<times> objState \<times> fileSysUtils \<times> 'm) option" where
  "object_seek rd obj offset fs m =
    (if offset > olength obj then Some (False, obj, fs, m)
     else do {
       let currOffset = ooffset obj AND NOT (clusterMask fs);
       let (cluster, currOffset) = (if offset < currOffset then (firstCluster obj, 0) else (currCluster obj, currOffset));
       (found, fs, m) \<leftarrow> seek_loop rd offset cluster currOffset fs m;
       case found of
         None \<Rightarrow> Some (False, obj, fs, m)
       | Some cluster \<Rightarrow> Some (True, obj\<lparr>currCluster := cluster, ooffset := offset\<rparr>, fs, m) })"

text \<open>How many bytes the loop of \<open>object_read\<close> takes from the current block.\<close>

definition chunk_len :: "objState \<Rightarrow> nat \<Rightarrow> nat" where
  "chunk_len obj len =
    (let blockOffset = unat (ooffset obj AND (fs_kBlockLen - 1));
         blockBytesLeft = unat fs_kBlockLen - blockOffset;
         objBytesLeft = unat (olength obj - ooffset obj);
         bytesAvail = (if objBytesLeft > blockBytesLeft then blockBytesLeft else objBytesLeft)
     in if len > bytesAvail then bytesAvail else len)"

text \<open>The loop of \<open>object_read\<close>: the bytes it copies, in order. The bytes of a block are copied out of the cache entry
  after the next cluster has been looked up.\<close>

partial_function (option) object_read ::
  "'m block_read \<Rightarrow> objState \<Rightarrow> nat \<Rightarrow> fileSysUtils \<Rightarrow> 'm \<Rightarrow> (u8 list \<times> objState \<times> fileSysUtils \<times> 'm) option" where
  "object_read rd obj len fs m =
    (if len > 0 \<and> ooffset obj < olength obj then do {
       let currBlock = block_number fs (currCluster obj) (ooffset obj AND clusterMask fs);
       (idx, fs, m) \<leftarrow> block_ensure rd currBlock fs m;
       case idx of
         None \<Rightarrow> Some ([], obj, fs, m)
       | Some idx \<Rightarrow> do {
           let blockOffset = unat (ooffset obj AND (fs_kBlockLen - 1));
           let chunk = chunk_len obj len;
           let next_offset = ooffset obj + of_nat chunk;
           (nextCluster, fs, m) \<leftarrow>
             (if next_offset AND clusterMask fs = 0 \<and> olength obj > next_offset
              then cluster_next rd (currCluster obj) fs m else Some (Some (currCluster obj), fs, m));
           case nextCluster of
             None \<Rightarrow> Some ([], obj, fs, m)
           | Some nextCluster \<Rightarrow> do {
               let data = take chunk (drop blockOffset (ce_buf (blockCache fs ! idx)));
               (rest, obj, fs, m) \<leftarrow>
                 object_read rd (obj\<lparr>currCluster := nextCluster, ooffset := next_offset\<rparr>) (len - chunk) fs m;
               Some (data @ rest, obj, fs, m) } } }
     else Some ([], obj, fs, m))"

text \<open>A sequence of reads, each going on where the one before stopped.\<close>

fun object_reads ::
  "'m block_read \<Rightarrow> objState \<Rightarrow> nat list \<Rightarrow> fileSysUtils \<Rightarrow> 'm \<Rightarrow> (u8 list \<times> objState \<times> fileSysUtils \<times> 'm) option" where
  "object_reads rd obj [] fs m = Some ([], obj, fs, m)"
| "object_reads rd obj (n # ns) fs m = do {
     (xs, obj, fs, m) \<leftarrow> object_read rd obj n fs m;
     (ys, obj, fs, m) \<leftarrow> object_reads rd obj ns fs m;
     Some (xs @ ys, obj, fs, m) }"

section \<open>Arithmetic of offsets\<close>

lemma unat_and_mask: "unat ((x :: u32) AND (2 ^ k - 1)) = unat x mod 2 ^ k"
proof -
  have "x AND (2 ^ k - 1) = take_bit k x" by (simp add: take_bit_eq_mask mask_eq_exp_minus_1)
  then show ?thesis by (simp add: unsigned_take_bit_eq) (simp add: take_bit_eq_mod)
qed

lemma and_not_mask_le: "(x :: u32) AND NOT (2 ^ k - 1) = x - (x AND (2 ^ k - 1))"
  by (subst disjunctive_diff_eq_and_not) (auto simp: bit_eq_iff bit_simps)

lemma unat_and_not_mask: "unat ((x :: u32) AND NOT (2 ^ k - 1)) = unat x - unat x mod 2 ^ k"
  by (simp add: and_not_mask_le unat_sub word_le_nat_alt unat_and_mask)

lemma unat_block_offset: "unat ((x :: u32) AND (fs_kBlockLen - 1)) = unat x mod 512"
  using unat_and_mask [of x 9] by (simp add: fs_kBlockLen_def kBytesPerBlockShift_def)

lemma chunk_len_nat:
  "ooffset obj < olength obj \<Longrightarrow>
   chunk_len obj len = min len (min (512 - unat (ooffset obj) mod 512) (unat (olength obj) - unat (ooffset obj)))"
  unfolding chunk_len_def Let_def unat_block_offset
  by (simp add: fs_kBlockLen_def kBytesPerBlockShift_def unat_sub word_le_nat_alt word_less_nat_alt min_def)

text \<open>A chunk stays inside one block, hence inside one cluster.\<close>

lemma div_chunk:
  assumes "j < c" "off mod 512 + c \<le> (512 :: nat)" "9 \<le> k"
  shows "(off + j) div 2 ^ k = off div 2 ^ k" "(off + j) mod 2 ^ k div 512 = off mod 2 ^ k div 512" "(off + j) mod 512 = off mod 512 + j"
proof -
  obtain i where "k = 9 + i" using assms(3) le_Suc_ex by blast
  then have k: "(2 :: nat) ^ k = 512 * 2 ^ i" by (simp add: power_add)
  have lt: "off mod 512 + j < 512" using assms(1,2) by linarith
  have m: "(off mod 512 + j) mod 512 = off mod 512 + j" using lt by (rule mod_less)
  then show "(off + j) mod 512 = off mod 512 + j" by (simp only: mod_add_left_eq)
  have "(off mod 512 + j + 512 * (off div 512)) div 512 = off div 512"
    using lt by (simp only: div_mult_self2 div_less)
  then have d: "(off + j) div 512 = off div 512"
    by (metis add.assoc add.commute mod_mult_div_eq)
  show "(off + j) div 2 ^ k = off div 2 ^ k"
    unfolding k div_mult2_eq d ..
  show "(off + j) mod 2 ^ k div 512 = off mod 2 ^ k div 512"
    unfolding k mod_mult2_eq by (simp add: d)
qed

section \<open>The bytes of an object\<close>

text \<open>\<open>clusterBytes\<close> and \<open>clusterMask\<close> as \<open>init\<close> leaves them for a valid partition.\<close>

definition geometry :: "fileSysUtils \<Rightarrow> nat \<Rightarrow> bool" where
  "geometry fs k \<longleftrightarrow> 9 \<le> k \<and> k < 32 \<and> clusterBytes fs = 2 ^ k \<and> clusterMask fs = 2 ^ k - 1"

context block_device
begin

text \<open>The block that holds the byte at an offset, and the byte.\<close>

definition data_block :: "fileSysUtils \<Rightarrow> nat \<Rightarrow> u32 \<Rightarrow> nat \<Rightarrow> u32" where
  "data_block fs k first p = block_number fs (chain fs first (p div 2 ^ k)) (of_nat (p mod 2 ^ k))"

definition content :: "fileSysUtils \<Rightarrow> nat \<Rightarrow> u32 \<Rightarrow> nat \<Rightarrow> u8" where
  "content fs k first p = blk (data_block fs k first p) ! (p mod 512)"

text \<open>A chain that is laid out properly: its blocks are distinct, and none of them is in the table.\<close>

definition laid_out :: "fileSysUtils \<Rightarrow> nat \<Rightarrow> u32 \<Rightarrow> nat \<Rightarrow> bool" where
  "laid_out fs k first n \<longleftrightarrow>
     (\<forall>p < n. data_block fs k first p \<noteq> kInvalidBlock) \<and>
     (\<forall>c. c * 2 ^ k < n \<longrightarrow> fat_block fs (chain fs first c) \<noteq> kInvalidBlock \<and>
        (\<forall>p < n. fat_block fs (chain fs first c) \<noteq> data_block fs k first p)) \<and>
     (\<forall>p < n. \<forall>q < n. data_block fs k first p = data_block fs k first q \<longrightarrow> p div 512 = q div 512)"

text \<open>The position of an object is consistent: \<open>currCluster\<close> is the cluster of the offset, except at an end that is also the end
  of a cluster, where there may be no such cluster.\<close>

definition obj_ok :: "fileSysUtils \<Rightarrow> nat \<Rightarrow> objState \<Rightarrow> bool" where
  "obj_ok fs k obj \<longleftrightarrow> ooffset obj \<le> olength obj \<and>
     (ooffset obj < olength obj \<or> unat (ooffset obj) mod 2 ^ k \<noteq> 0 \<longrightarrow> currCluster obj = chain fs (firstCluster obj) (unat (ooffset obj) div 2 ^ k))"

text \<open>No block of the object ahead of the offset is in the cache, and the one at the offset is not next to be replaced.\<close>

definition cold :: "fileSysUtils \<Rightarrow> nat \<Rightarrow> objState \<Rightarrow> bool" where
  "cold fs k obj \<longleftrightarrow> (\<forall>i < kCacheEntries. \<forall>q. unat (ooffset obj) \<le> q \<longrightarrow> q < unat (olength obj) \<longrightarrow>
     ce_block (blockCache fs ! i) = data_block fs k (firstCluster obj) q \<longrightarrow>
     q div 512 = unat (ooffset obj) div 512 \<and> i \<noteq> unat (blockCacheNext fs))"

lemma rest_cong:
  assumes "fs_rest fs' = fs_rest fs"
  shows "data_block fs' k first p = data_block fs k first p" "geometry fs' k = geometry fs k" "fat_block fs' c = fat_block fs c"
    "laid_out fs' k first n = laid_out fs k first n" "obj_ok fs' k obj = obj_ok fs k obj" "content fs' k first = content fs k first"
proof -
  note c = fs_rest_eqD [OF assms] chain_cong [OF assms]
  have d: "data_block fs' k first p = data_block fs k first p" for p
    by (simp add: data_block_def block_number_def c)
  have f: "fat_block fs' x = fat_block fs x" for x by (simp add: fat_block_def c)
  show "data_block fs' k first p = data_block fs k first p" "geometry fs' k = geometry fs k" "fat_block fs' c = fat_block fs c"
    "laid_out fs' k first n = laid_out fs k first n" "obj_ok fs' k obj = obj_ok fs k obj" "content fs' k first = content fs k first"
    by (simp_all add: d f geometry_def laid_out_def obj_ok_def fun_eq_iff content_def c)
qed

lemma data_block_eqI:
  assumes "p div 2 ^ k = q div 2 ^ k" "p mod 2 ^ k div 512 = q mod 2 ^ k div 512" "k < 32"
  shows "data_block fs k first p = data_block fs k first q"
proof -
  have lt: "r mod 2 ^ k < 2 ^ 32" for r :: nat
    by (rule less_trans [OF mod_less_divisor power_strict_increasing [OF assms(3)]]) simp_all
  have u: "unat (of_nat r :: u32) = r" if "r < 2 ^ 32" for r
    using that by (simp add: unat_of_nat take_bit_nat_eq_self)
  have "drop_bit 9 (of_nat (p mod 2 ^ k) :: u32) = of_nat (p mod 2 ^ k div 512)" for p
  proof -
    have "unat (drop_bit 9 (of_nat (p mod 2 ^ k) :: u32)) = p mod 2 ^ k div 512"
      using u [OF lt [of p]] by (simp only: unat_drop_bit_eq) (simp add: drop_bit_eq_div)
    from arg_cong [OF this, of "of_nat :: nat \<Rightarrow> u32"] show ?thesis by simp
  qed
  then show ?thesis using assms by (simp add: data_block_def block_number_def kBytesPerBlockShift_def)
qed

lemma curr_block:
  assumes "geometry fs k" "obj_ok fs k obj" "ooffset obj < olength obj"
  shows "block_number fs (currCluster obj) (ooffset obj AND clusterMask fs) = data_block fs k (firstCluster obj) (unat (ooffset obj))"
proof -
  have "ooffset obj AND (2 ^ k - 1) = of_nat (unat (ooffset obj) mod 2 ^ k)"
    by (simp flip: unat_and_mask)
  with assms show ?thesis by (simp add: data_block_def geometry_def obj_ok_def)
qed

section \<open>Seeking\<close>

lemma unat_exp: "k < 32 \<Longrightarrow> unat (2 ^ k :: u32) = 2 ^ k"
proof -
  assume "k < 32"
  then have "(2 :: nat) ^ k < 2 ^ 32" by (rule power_strict_increasing) simp
  then have "unat (of_nat (2 ^ k) :: u32) = 2 ^ k"
    by (simp only: unat_of_nat take_bit_nat_eq_self len_num1 len_bit0) (simp add: take_bit_nat_eq_self)
  then show ?thesis by simp
qed

lemma seek_loop_ok:
  assumes "inv m" "cache_ok fs" "geometry fs k" "unat co = a * 2 ^ k" "co \<le> offset"
    "\<forall>c < unat offset div 2 ^ k. fat_block fs (chain fs first c) \<noteq> kInvalidBlock"
  shows "\<exists>fs' m'. seek_loop rd offset (chain fs first a) co fs m = Some (Some (chain fs first (unat offset div 2 ^ k)), fs', m') \<and>
     inv m' \<and> cache_ok fs' \<and> fs_rest fs' = fs_rest fs"
  using assms
proof (induction "unat offset div 2 ^ k - a" arbitrary: a co fs m)
  case 0
  have le: "a * 2 ^ k \<le> unat offset" using 0 by (simp add: word_le_nat_alt)
  then have "a \<le> unat offset div 2 ^ k" by (simp add: less_eq_div_iff_mult_less_eq)
  with 0 have a: "a = unat offset div 2 ^ k" by simp
  then have "unat offset - a * 2 ^ k = unat offset mod 2 ^ k" by (simp add: modulo_nat_def mult.commute)
  then have "unat (offset - co) < 2 ^ k" using 0 by (simp add: unat_sub)
  then have "\<not> clusterBytes fs \<le> offset - co"
    using 0 by (simp add: geometry_def word_le_nat_alt unat_exp)
  then show ?case using 0 a by (subst seek_loop.simps) simp
next
  case (Suc n)
  then have a: "a < unat offset div 2 ^ k" by simp
  then have "Suc a * 2 ^ k \<le> unat offset" by (metis Suc_leI less_eq_div_iff_mult_less_eq zero_less_numeral zero_less_power)
  then have le: "unat co + 2 ^ k \<le> unat offset" using Suc.prems by (simp add: add.commute)
  have k: "unat (clusterBytes fs) = 2 ^ k" using Suc.prems by (simp add: geometry_def unat_exp)
  have "unat (offset - co) = unat offset - unat co" using Suc.prems by (simp add: unat_sub)
  with le k have ge: "clusterBytes fs \<le> offset - co" by (simp add: word_le_nat_alt)
  have "unat offset < 2 ^ LENGTH(32)" by (rule unsigned_less)
  with le k have co: "unat (co + clusterBytes fs) = unat co + 2 ^ k" by (simp add: unat_word_ariths)
  obtain fs1 m1 where 1: "cluster_next rd (chain fs first a) fs m = Some (Some (chain fs first (Suc a)), fs1, m1)"
      "inv m1" "cache_ok fs1" "fs_rest fs1 = fs_rest fs"
    using cluster_next_ok [OF Suc.prems(1,2), of "chain fs first a"] Suc.prems(6) a by (auto simp: chain_Suc)
  note c = rest_cong [OF 1(4)] chain_cong [OF 1(4)]
  have "\<exists>fs' m'. seek_loop rd offset (chain fs1 first (Suc a)) (co + clusterBytes fs) fs1 m1 =
        Some (Some (chain fs1 first (unat offset div 2 ^ k)), fs', m') \<and> inv m' \<and> cache_ok fs' \<and> fs_rest fs' = fs_rest fs1"
  proof (rule Suc.hyps(1))
    show "n = unat offset div 2 ^ k - Suc a" using Suc.hyps(2) by simp
    show "unat (co + clusterBytes fs) = Suc a * 2 ^ k" using co Suc.prems(4) by simp
    show "co + clusterBytes fs \<le> offset" using le co by (simp add: word_le_nat_alt)
  qed (use 1 Suc.prems c in simp_all)
  with 1 ge show ?case by (subst seek_loop.simps) (auto simp: c)
qed

text \<open>A seek inside the object succeeds and keeps the position consistent.\<close>

lemma object_seek_ok:
  assumes "inv m" "cache_ok fs" "geometry fs k" "obj_ok fs k obj" "offset \<le> olength obj"
    "\<forall>c < unat (olength obj) div 2 ^ k. fat_block fs (chain fs (firstCluster obj) c) \<noteq> kInvalidBlock"
  shows "\<exists>cl fs' m'. object_seek rd obj offset fs m = Some (True, obj\<lparr>currCluster := cl, ooffset := offset\<rparr>, fs', m') \<and>
     inv m' \<and> cache_ok fs' \<and> fs_rest fs' = fs_rest fs \<and> obj_ok fs k (obj\<lparr>currCluster := cl, ooffset := offset\<rparr>)"
proof -
  let ?f = "firstCluster obj" and ?co = "ooffset obj AND NOT (clusterMask fs)"
  have co: "unat ?co = unat (ooffset obj) div 2 ^ k * 2 ^ k"
    using assms(3) by (simp add: geometry_def unat_and_not_mask minus_mod_eq_div_mult)
  have fat: "\<forall>c < unat offset div 2 ^ k. fat_block fs (chain fs ?f c) \<noteq> kInvalidBlock"
    using assms(5,6) div_le_mono [of "unat offset" "unat (olength obj)" "2 ^ k"] by (auto simp: word_le_nat_alt)
  consider "offset < ?co" | "?co \<le> offset" "currCluster obj = chain fs ?f (unat (ooffset obj) div 2 ^ k)"
    | "\<not> offset < ?co" "ooffset obj = olength obj" "unat (ooffset obj) mod 2 ^ k = 0"
    using assms(4) unfolding obj_ok_def by fastforce
  then show ?thesis
  proof cases
    case 1
    from seek_loop_ok [OF assms(1-3) _ _ fat, of 0 0] 1 assms(5) show ?thesis
      by (auto simp: object_seek_def Let_def chain_def obj_ok_def)
  next
    case 2
    from seek_loop_ok [OF assms(1-3) co 2(1) fat] 2 assms(5) show ?thesis
      by (auto simp: object_seek_def Let_def obj_ok_def)
  next
    case 3
    have "unat (ooffset obj) div 2 ^ k * 2 ^ k = unat (ooffset obj)"
      using 3(3) by (metis add_0_right div_mult_mod_eq)
    then have "?co = ooffset obj" using co by (simp add: word_unat_eq_iff)
    with 3 assms(5) have eq: "offset = olength obj" "?co = offset" by auto
    have "\<not> clusterBytes fs \<le> 0" using assms(3) by (simp add: geometry_def)
    then have "seek_loop rd offset (currCluster obj) offset fs m = Some (Some (currCluster obj), fs, m)"
      by (subst seek_loop.simps) simp
    with 3 eq assms show ?thesis
      by (intro exI [of _ "currCluster obj"] exI [of _ fs] exI [of _ m]) (auto simp: object_seek_def Let_def obj_ok_def)
  qed
qed

section \<open>Reading\<close>

lemma same_block:
  assumes "p div 512 = q div 512" "geometry fs k"
  shows "data_block fs k first p = data_block fs k first q"
proof (rule data_block_eqI)
  obtain i where "k = 9 + i" using assms(2) le_Suc_ex by (auto simp: geometry_def)
  then have k: "(2 :: nat) ^ k = 512 * 2 ^ i" by (simp add: power_add)
  show "p div 2 ^ k = q div 2 ^ k" unfolding k div_mult2_eq assms(1) ..
  show "p mod 2 ^ k div 512 = q mod 2 ^ k div 512" unfolding k mod_mult2_eq by (simp add: assms(1))
  show "k < 32" using assms(2) by (simp add: geometry_def)
qed

lemma coldD:
  "cold fs k obj \<Longrightarrow> i < kCacheEntries \<Longrightarrow> unat (ooffset obj) \<le> q \<Longrightarrow> q < unat (olength obj) \<Longrightarrow>
   ce_block (blockCache fs ! i) = data_block fs k (firstCluster obj) q \<Longrightarrow>
   q div 512 = unat (ooffset obj) div 512 \<and> i \<noteq> unat (blockCacheNext fs)"
  unfolding cold_def by blast

lemma div_512_less: "a < b \<Longrightarrow> b mod 512 = 0 \<Longrightarrow> a div 512 < b div (512 :: nat)"
  by (auto elim!: dvdE simp: mod_eq_0_iff_dvd less_mult_imp_div_less mult.commute)

text \<open>Fetching the block at the offset keeps the object's view of the cache, and the block is not next to be replaced.\<close>

lemma ensure_cold:
  assumes "inv m" "cache_ok fs" "geometry fs k" "laid_out fs k (firstCluster obj) (unat (olength obj))" "cold fs k obj"
    "ooffset obj < olength obj" "b = data_block fs k (firstCluster obj) (unat (ooffset obj))"
  shows "\<exists>idx fs' m'. block_ensure rd b fs m = Some (Some idx, fs', m') \<and> inv m' \<and> cache_ok fs' \<and> fs_rest fs' = fs_rest fs \<and>
     ce_buf (blockCache fs' ! idx) = blk b \<and> idx \<noteq> unat (blockCacheNext fs') \<and> cold fs' k obj"
proof -
  let ?o = "unat (ooffset obj)" and ?L = "unat (olength obj)" and ?f = "firstCluster obj"
  have o: "?o < ?L" using assms(6) by (simp add: word_less_nat_alt)
  have inj: "p div 512 = q div 512" if "data_block fs k ?f p = data_block fs k ?f q" "p < ?L" "q < ?L" for p q
    using assms(4) that unfolding laid_out_def by blast
  have "b \<noteq> kInvalidBlock" using assms(4,7) o by (simp add: laid_out_def)
  from block_ensure_step [OF assms(1,2) this] obtain idx fs' m' where
    e: "block_ensure rd b fs m = Some (Some idx, fs', m')" "inv m'" "cache_ok fs'" "fs_rest fs' = fs_rest fs"
      "idx < kCacheEntries" "ce_block (blockCache fs' ! idx) = b" "ce_buf (blockCache fs' ! idx) = blk b"
    and cases: "fs' = fs \<and> b \<in> ce_block ` set (blockCache fs) \<or>
      b \<notin> ce_block ` set (blockCache fs) \<and> idx = unat (blockCacheNext fs) \<and> (\<forall>i. i \<noteq> idx \<longrightarrow> blockCache fs' ! i = blockCache fs ! i) \<and>
      unat (blockCacheNext fs') = Suc (unat (blockCacheNext fs)) mod kCacheEntries" by blast
  from cases have "idx \<noteq> unat (blockCacheNext fs') \<and> cold fs' k obj"
  proof (elim disjE conjE)
    assume "fs' = fs"
    with assms(5,7) e(5,6) o show ?thesis unfolding cold_def by blast
  next
    assume miss: "b \<notin> ce_block ` set (blockCache fs)" "idx = unat (blockCacheNext fs)" "\<forall>i. i \<noteq> idx \<longrightarrow> blockCache fs' ! i = blockCache fs ! i"
      "unat (blockCacheNext fs') = Suc (unat (blockCacheNext fs)) mod kCacheEntries"
    have ne: "idx \<noteq> unat (blockCacheNext fs')"
      using miss(2,4) e(5) by (cases "idx = 7") (auto simp: kCacheEntries_def)
    moreover have "q div 512 = ?o div 512 \<and> i \<noteq> unat (blockCacheNext fs')"
      if q: "i < kCacheEntries" "?o \<le> q" "q < ?L" "ce_block (blockCache fs' ! i) = data_block fs k ?f q" for i q
    proof (cases "i = idx")
      case True
      with q(4) e(6) assms(7) have "data_block fs k ?f q = data_block fs k ?f ?o" by simp
      from inj [OF this q(3) o] True ne show ?thesis by simp
    next
      case False
      with q miss(3) have t: "ce_block (blockCache fs ! i) = data_block fs k ?f q" by simp
      with assms(5) q have "q div 512 = ?o div 512" by (auto simp: cold_def)
      from same_block [OF this assms(3), of ?f] t assms(7) have "ce_block (blockCache fs ! i) = b" by simp
      moreover have "i < length (blockCache fs)" using assms(2) q(1) by (simp add: cache_ok_def)
      ultimately have "b \<in> ce_block ` set (blockCache fs)" by (metis imageI nth_mem)
      with miss(1) show ?thesis by blast
    qed
    ultimately show ?thesis by (auto simp: cold_def rest_cong [OF e(4)])
  qed
  with e show ?thesis by blast
qed

text \<open>Looking up the next cluster does not disturb an entry that is not next to be replaced.\<close>

lemma slots_kept_buf:
  "slots_kept b fs fs' \<Longrightarrow> i \<noteq> unat (blockCacheNext fs) \<Longrightarrow> blockCache fs' ! i = blockCache fs ! i"
  by (auto simp: slots_kept_def)

lemma cold_advance:
  assumes "cold fs k obj" "ooffset obj \<le> ooffset obj'" "olength obj' = olength obj" "firstCluster obj' = firstCluster obj"
  shows "cold fs k obj'"
  unfolding cold_def
proof (intro allI impI)
  fix i q
  assume q: "i < kCacheEntries" "unat (ooffset obj') \<le> q" "q < unat (olength obj')" "ce_block (blockCache fs ! i) = data_block fs k (firstCluster obj') q"
  have le: "unat (ooffset obj) \<le> q" using assms(2) q(2) by (simp add: word_le_nat_alt)
  have "q div 512 = unat (ooffset obj) div 512 \<and> i \<noteq> unat (blockCacheNext fs)"
    using coldD [OF assms(1) q(1) le] q(3,4) assms(3,4) by simp
  moreover have "unat (ooffset obj) div 512 \<le> unat (ooffset obj') div 512" "unat (ooffset obj') div 512 \<le> q div 512"
    using assms(2) q(2) by (simp_all add: div_le_mono word_le_nat_alt)
  ultimately show "q div 512 = unat (ooffset obj') div 512 \<and> i \<noteq> unat (blockCacheNext fs)" by linarith
qed

lemma cold_cross:
  assumes "cold fs k obj" "slots_kept (fat_block fs c) fs fs'" "fs_rest fs' = fs_rest fs" "ooffset obj < ooffset obj'" "unat (ooffset obj') mod 512 = 0"
    "olength obj' = olength obj" "firstCluster obj' = firstCluster obj" "\<forall>p < unat (olength obj). fat_block fs c \<noteq> data_block fs k (firstCluster obj) p"
  shows "cold fs' k obj'"
  unfolding cold_def
proof (intro allI impI)
  fix i q
  assume q: "i < kCacheEntries" "unat (ooffset obj') \<le> q" "q < unat (olength obj')" "ce_block (blockCache fs' ! i) = data_block fs' k (firstCluster obj') q"
  note cong = rest_cong [OF assms(3)]
  have lt: "unat (ooffset obj) div 512 < unat (ooffset obj') div 512"
    using assms(4,5) by (intro div_512_less) (simp_all add: word_less_nat_alt)
  have le: "unat (ooffset obj) \<le> q" using assms(4) q(2) by (simp add: word_less_nat_alt)
  have "unat (ooffset obj') div 512 \<le> q div 512" using q(2) by (rule div_le_mono)
  with lt have "\<not> ce_block (blockCache fs ! i) = data_block fs k (firstCluster obj) q"
    using coldD [OF assms(1) q(1) le] q(3) assms(6) by auto
  moreover have "ce_block (blockCache fs' ! i) \<noteq> fat_block fs c"
    using q(3,4) assms(6-8) by (auto simp: cong)
  ultimately show "q div 512 = unat (ooffset obj') div 512 \<and> i \<noteq> unat (blockCacheNext fs')"
    using q(4) assms(2,7) by (cases "i = unat (blockCacheNext fs)") (auto simp: slots_kept_def cong)
qed

text \<open>The chunk is the next bytes of the object.\<close>

lemma chunk_content:
  assumes "off mod 512 + c \<le> 512" "geometry fs k"
  shows "take c (drop (off mod 512) (blk (data_block fs k first off))) = map (content fs k first) [off..<off + c]"
proof (rule nth_equalityI)
  show "length (take c (drop (off mod 512) (blk (data_block fs k first off)))) = length (map (content fs k first) [off..<off + c])"
    using assms(1) by (simp add: blk_length)
  fix j
  assume "j < length (take c (drop (off mod 512) (blk (data_block fs k first off))))"
  then have j: "j < c" "off mod 512 + j < 512" using assms(1) by (simp_all add: blk_length)
  have k: "9 \<le> k" "k < 32" using assms(2) by (simp_all add: geometry_def)
  note dc = div_chunk [OF j(1) assms(1) k(1)]
  have "data_block fs k first (off + j) = data_block fs k first off"
    by (rule data_block_eqI [OF dc(1,2) k(2)])
  with j dc(3) show "take c (drop (off mod 512) (blk (data_block fs k first off))) ! j = map (content fs k first) [off..<off + c] ! j"
    by (simp add: content_def blk_length)
qed

lemma chunk_bounds:
  assumes "ooffset obj < olength obj" "0 < len" "c = chunk_len obj len"
  shows "0 < c" "c \<le> len" "unat (ooffset obj) mod 512 + c \<le> 512" "unat (ooffset obj) + c \<le> unat (olength obj)"
    "unat (ooffset obj + of_nat c) = unat (ooffset obj) + c"
    "c = len \<or> c = 512 - unat (ooffset obj) mod 512 \<or> c = unat (olength obj) - unat (ooffset obj)"
proof -
  have lt: "unat (ooffset obj) < unat (olength obj)" "unat (ooffset obj) mod 512 < 512"
    using assms(1) by (simp_all add: word_less_nat_alt)
  have c: "c = min len (min (512 - unat (ooffset obj) mod 512) (unat (olength obj) - unat (ooffset obj)))"
    using assms(1,3) by (simp add: chunk_len_nat)
  then show "0 < c" "c \<le> len" "unat (ooffset obj) mod 512 + c \<le> 512" and le: "unat (ooffset obj) + c \<le> unat (olength obj)"
    and "c = len \<or> c = 512 - unat (ooffset obj) mod 512 \<or> c = unat (olength obj) - unat (ooffset obj)"
    using lt assms(2) by (simp, simp, linarith, linarith, linarith)
  have "unat (olength obj) < 2 ^ LENGTH(32)" by (rule unsigned_less)
  with le have "c < 2 ^ LENGTH(32)" "unat (ooffset obj) + c < 2 ^ LENGTH(32)" by linarith+
  then show "unat (ooffset obj + of_nat c) = unat (ooffset obj) + c"
    by (simp add: unat_word_ariths unat_of_nat take_bit_nat_eq_self)
qed

lemma div_next:
  assumes "off mod 512 + c \<le> (512 :: nat)" "0 < c" "9 \<le> k"
  shows "(off + c) div 2 ^ k = (if (off + c) mod 2 ^ k = 0 then Suc (off div 2 ^ k) else off div 2 ^ k)"
proof -
  have "(off + (c - 1)) div 2 ^ k = off div 2 ^ k" using assms by (intro div_chunk(1)) simp_all
  then have "Suc (off + (c - 1)) div 2 ^ k = (if Suc (off + (c - 1)) mod 2 ^ k = 0 then Suc (off div 2 ^ k) else off div 2 ^ k)"
    by (simp add: div_Suc)
  then show ?thesis using assms(2) by simp
qed

text \<open>One round of the loop.\<close>

lemma read_step:
  assumes "inv m" "cache_ok fs" "geometry fs k" "laid_out fs k (firstCluster obj) (unat (olength obj))" "obj_ok fs k obj" "cold fs k obj"
    "0 < len" "ooffset obj < olength obj"
  defines "c \<equiv> chunk_len obj len"
  shows "\<exists>obj' fs' m'. object_read rd obj len fs m =
      do { (rest, o'', fs'', m'') \<leftarrow> object_read rd obj' (len - c) fs' m';
           Some (map (content fs k (firstCluster obj)) [unat (ooffset obj)..<unat (ooffset obj) + c] @ rest, o'', fs'', m'') } \<and>
    inv m' \<and> cache_ok fs' \<and> fs_rest fs' = fs_rest fs \<and> obj_ok fs k obj' \<and> cold fs' k obj' \<and>
    obj' = obj\<lparr>currCluster := currCluster obj', ooffset := ooffset obj + of_nat c\<rparr>"
proof -
  define off where "off = unat (ooffset obj)"
  define L where "L = unat (olength obj)"
  define f where "f = firstCluster obj"
  define no where "no = ooffset obj + of_nat c"
  define b where "b = data_block fs k f off"
  note cb = chunk_bounds [OF assms(8,7) refl, folded c_def, folded off_def L_def no_def]
  have k: "9 \<le> k" "k < 32" using assms(3) by (simp_all add: geometry_def)
  have lt: "off < L" "ooffset obj < no" using assms(8) cb(1,5) by (simp_all add: off_def L_def word_less_nat_alt)
  have cl: "currCluster obj = chain fs f (off div 2 ^ k)"
    using assms(5,8) by (simp add: obj_ok_def off_def f_def)
  obtain idx fs1 m1 where e: "block_ensure rd b fs m = Some (Some idx, fs1, m1)" "inv m1" "cache_ok fs1" "fs_rest fs1 = fs_rest fs"
     "ce_buf (blockCache fs1 ! idx) = blk b" "idx \<noteq> unat (blockCacheNext fs1)" "cold fs1 k obj"
    using ensure_cold [OF assms(1-4,6,8)] unfolding b_def off_def f_def by blast
  note cong = rest_cong [OF e(4)] chain_cong [OF e(4)] fs_rest_eqD [OF e(4)]
  have blk: "block_number fs (currCluster obj) (ooffset obj AND clusterMask fs) = b"
    using curr_block [OF assms(3,5,8)] by (simp add: b_def off_def f_def)
  have data: "take c (drop (off mod 512) (blk b)) = map (content fs k f) [off..<off + c]"
    unfolding b_def by (rule chunk_content [OF cb(3) assms(3)])
  have aligned: "no AND clusterMask fs = 0 \<longleftrightarrow> (off + c) mod 2 ^ k = 0"
  proof -
    have "clusterMask fs = 2 ^ k - 1" using assms(3) by (simp add: geometry_def)
    then have "unat (no AND clusterMask fs) = (off + c) mod 2 ^ k" by (simp only: unat_and_mask cb(5))
    then show ?thesis by (simp flip: unat_eq_0)
  qed
  have boff: "unat (ooffset obj AND (fs_kBlockLen - 1)) = off mod 512"
    by (simp only: unat_block_offset off_def)
  show ?thesis
  proof (cases "no AND clusterMask fs = 0 \<and> no < olength obj")
    case True
    then have al: "(off + c) mod 2 ^ k = 0" by (simp add: aligned)
    have "off div 2 ^ k * 2 ^ k < L" using lt(1) by (meson div_times_less_eq_dividend le_less_trans)
    then have fb: "fat_block fs1 (currCluster obj) \<noteq> kInvalidBlock" "\<forall>p < L. fat_block fs1 (currCluster obj) \<noteq> data_block fs1 k f p"
      using assms(4) unfolding laid_out_def cl by (auto simp: cong L_def f_def)
    obtain fs2 m2 where 2: "cluster_next rd (currCluster obj) fs1 m1 = Some (Some (fat_next fs1 (currCluster obj)), fs2, m2)"
       "inv m2" "cache_ok fs2" "fs_rest fs2 = fs_rest fs1" "slots_kept (fat_block fs1 (currCluster obj)) fs1 fs2"
      using cluster_next_ok [OF e(2,3) fb(1)] by blast
    define obj' where "obj' = obj\<lparr>currCluster := fat_next fs1 (currCluster obj), ooffset := no\<rparr>"
    have nx: "fat_next fs1 (currCluster obj) = chain fs f ((off + c) div 2 ^ k)"
      using div_next [OF cb(3,1) k(1)] al by (simp add: cl chain_Suc fat_next_def cong)
    have "blockCache fs2 ! idx = blockCache fs1 ! idx" by (rule slots_kept_buf [OF 2(5) e(6)])
    then have "object_read rd obj len fs m =
        do { (rest, o'', fs'', m'') \<leftarrow> object_read rd obj' (len - c) fs2 m2;
             Some (map (content fs k f) [off..<off + c] @ rest, o'', fs'', m'') }"
      using e(1,5) 2(1) True assms(7,8) data boff
      by (subst object_read.simps) (simp add: blk cong obj'_def Let_def flip: c_def no_def)
    moreover have "obj_ok fs k obj'"
      using nx cb(5) True by (simp add: obj_ok_def obj'_def f_def less_imp_le)
    moreover have "cold fs2 k obj'"
    proof (rule cold_cross [OF e(7) 2(5,4)])
      show "unat (ooffset obj') mod 512 = 0"
      proof -
        have "(2 :: nat) ^ 9 dvd 2 ^ k" using k(1) by (rule le_imp_power_dvd)
        with al have "2 ^ 9 dvd off + c" by (meson dvd_trans mod_0_imp_dvd)
        then show ?thesis using cb(5) by (simp add: obj'_def mod_0_imp_dvd dvd_imp_mod_0)
      qed
    qed (use lt fb(2) in \<open>simp_all add: obj'_def L_def f_def\<close>)
    ultimately show ?thesis
      using 2(2,3,4) e(4) unfolding off_def f_def by (intro exI [of _ obj'] exI [of _ fs2] exI [of _ m2]) (simp add: obj'_def no_def)
  next
    case False
    define obj' where "obj' = obj\<lparr>ooffset := no\<rparr>"
    have "object_read rd obj len fs m =
        do { (rest, o'', fs'', m'') \<leftarrow> object_read rd obj' (len - c) fs1 m1;
             Some (map (content fs k f) [off..<off + c] @ rest, o'', fs'', m'') }"
      using e(1,5) False assms(7,8) data boff
      by (subst object_read.simps) (auto simp: blk cong obj'_def Let_def simp flip: c_def no_def)
    moreover have "obj_ok fs k obj'"
      using False div_next [OF cb(3,1) k(1)] cb(4,5) cl by (auto simp: obj_ok_def obj'_def aligned f_def L_def word_le_nat_alt)
    moreover have "cold fs1 k obj'"
      by (rule cold_advance [OF e(7)]) (use lt in \<open>simp_all add: obj'_def\<close>)
    ultimately show ?thesis
      using e(2-4) unfolding off_def f_def by (intro exI [of _ obj'] exI [of _ fs1] exI [of _ m1]) (simp add: obj'_def no_def)
  qed
qed

text \<open>Reading: the bytes from the offset on, as many as asked for or as there are.\<close>

theorem object_read_ok:
  assumes "inv m" "cache_ok fs" "geometry fs k" "laid_out fs k (firstCluster obj) (unat (olength obj))" "obj_ok fs k obj" "cold fs k obj"
  shows "\<exists>obj' fs' m'. object_read rd obj len fs m =
      Some (map (content fs k (firstCluster obj)) [unat (ooffset obj)..<unat (ooffset obj) + min len (unat (olength obj) - unat (ooffset obj))], obj', fs', m') \<and>
    inv m' \<and> cache_ok fs' \<and> fs_rest fs' = fs_rest fs \<and> obj_ok fs k obj' \<and> cold fs' k obj' \<and>
    obj' = obj\<lparr>currCluster := currCluster obj', ooffset := ooffset obj + of_nat (min len (unat (olength obj) - unat (ooffset obj)))\<rparr>"
  using assms
proof (induction len arbitrary: obj fs m rule: less_induct)
  case (less len)
  show ?case
  proof (cases "0 < len \<and> ooffset obj < olength obj")
    case False
    then have "unat (olength obj) - unat (ooffset obj) = 0 \<or> len = 0" by (auto simp: word_less_nat_alt)
    then have n: "min len (unat (olength obj) - unat (ooffset obj)) = 0" by auto
    from False have "object_read rd obj len fs m = Some ([], obj, fs, m)" by (subst object_read.simps) auto
    with less.prems show ?thesis unfolding n by (intro exI [of _ obj] exI [of _ fs] exI [of _ m]) simp
  next
    case True
    define c where "c = chunk_len obj len"
    from True have cb: "0 < c" "c \<le> len" "unat (ooffset obj) + c \<le> unat (olength obj)" "unat (ooffset obj + of_nat c) = unat (ooffset obj) + c"
      using chunk_bounds [of obj len c] by (simp_all add: c_def)
    obtain obj1 fs1 m1 where 1: "object_read rd obj len fs m =
        do { (rest, o'', fs'', m'') \<leftarrow> object_read rd obj1 (len - c) fs1 m1;
           Some (map (content fs k (firstCluster obj)) [unat (ooffset obj)..<unat (ooffset obj) + c] @ rest, o'', fs'', m'') }"
      "inv m1" "cache_ok fs1" "fs_rest fs1 = fs_rest fs" "obj_ok fs k obj1" "cold fs1 k obj1"
      "obj1 = obj\<lparr>currCluster := currCluster obj1, ooffset := ooffset obj + of_nat c\<rparr>"
      using read_step [OF less.prems] True unfolding c_def by blast
    have o1: "firstCluster obj1 = firstCluster obj" "olength obj1 = olength obj" "ooffset obj1 = ooffset obj + of_nat c"
      using 1(7) by (metis objState.select_convs objState.surjective objState.update_convs)+
    note cong = rest_cong [OF 1(4)]
    define n1 where "n1 = min (len - c) (unat (olength obj) - (unat (ooffset obj) + c))"
    have n: "min len (unat (olength obj) - unat (ooffset obj)) = c + n1" using cb by (simp add: n1_def)
    have "len - c < len" using cb True by simp
    from less.IH [OF this, of m1 fs1 obj1] 1(2-6) less.prems(3,4) obtain obj2 fs2 m2 where
      2: "object_read rd obj1 (len - c) fs1 m1 =
          Some (map (content fs k (firstCluster obj)) [unat (ooffset obj) + c..<unat (ooffset obj) + c + n1], obj2, fs2, m2)"
        "inv m2" "cache_ok fs2" "fs_rest fs2 = fs_rest fs" "obj_ok fs k obj2" "cold fs2 k obj2"
        "obj2 = obj1\<lparr>currCluster := currCluster obj2, ooffset := ooffset obj1 + of_nat n1\<rparr>"
      unfolding cong o1 cb(4) n1_def by auto
    have "[unat (ooffset obj)..<unat (ooffset obj) + c] @ [unat (ooffset obj) + c..<unat (ooffset obj) + c + n1] =
        [unat (ooffset obj)..<unat (ooffset obj) + (c + n1)]"
      by (metis add.assoc le_add1 upt_add_eq_append)
    then have "object_read rd obj len fs m = Some (map (content fs k (firstCluster obj)) [unat (ooffset obj)..<unat (ooffset obj) + (c + n1)], obj2, fs2, m2)"
      unfolding 1(1) 2(1) by (simp flip: map_append)
    moreover have "obj2 = obj\<lparr>currCluster := currCluster obj2, ooffset := ooffset obj + of_nat (c + n1)\<rparr>"
    proof -
      obtain x where "obj1 = obj\<lparr>currCluster := x, ooffset := ooffset obj + of_nat c\<rparr>" using 1(7) by blast
      then show ?thesis by (subst 2(7)) (simp add: add.assoc)
    qed
    ultimately show ?thesis using 2 unfolding n by blast
  qed
qed

lemma object_reads_ok:
  assumes "inv m" "cache_ok fs" "geometry fs k" "laid_out fs k (firstCluster obj) (unat (olength obj))" "obj_ok fs k obj" "cold fs k obj"
  shows "\<exists>obj' fs' m'. object_reads rd obj ns fs m =
      Some (map (content fs k (firstCluster obj))
        [unat (ooffset obj)..<unat (ooffset obj) + min (sum_list ns) (unat (olength obj) - unat (ooffset obj))], obj', fs', m') \<and>
    inv m' \<and> cache_ok fs' \<and> fs_rest fs' = fs_rest fs \<and> obj_ok fs k obj' \<and> cold fs' k obj'"
  using assms
proof (induction ns arbitrary: obj fs m)
  case Nil
  then show ?case by simp
next
  case (Cons n ns)
  define c where "c = min n (unat (olength obj) - unat (ooffset obj))"
  obtain obj1 fs1 m1 where 1: "object_read rd obj n fs m = Some (map (content fs k (firstCluster obj)) [unat (ooffset obj)..<unat (ooffset obj) + c], obj1, fs1, m1)"
     "inv m1" "cache_ok fs1" "fs_rest fs1 = fs_rest fs" "obj_ok fs k obj1" "cold fs1 k obj1"
     "obj1 = obj\<lparr>currCluster := currCluster obj1, ooffset := ooffset obj + of_nat c\<rparr>"
    using object_read_ok [OF Cons.prems, of n] unfolding c_def by blast
  have o1: "firstCluster obj1 = firstCluster obj" "olength obj1 = olength obj" "ooffset obj1 = ooffset obj + of_nat c"
    using 1(7) by (metis objState.select_convs objState.surjective objState.update_convs)+
  note cong = rest_cong [OF 1(4)]
  have le: "unat (ooffset obj) \<le> unat (olength obj)" using Cons.prems(5) by (simp add: obj_ok_def word_le_nat_alt)
  have "unat (olength obj) < 2 ^ LENGTH(32)" by (rule unsigned_less)
  moreover have "unat (ooffset obj) + c \<le> unat (olength obj)" using le by (simp add: c_def)
  ultimately have "unat (ooffset obj) + c < 2 ^ LENGTH(32)" "c < 2 ^ LENGTH(32)" by linarith+
  then have u: "unat (ooffset obj + of_nat c) = unat (ooffset obj) + c"
    by (simp add: unat_word_ariths unat_of_nat take_bit_nat_eq_self)
  define n1 where "n1 = min (sum_list ns) (unat (olength obj) - (unat (ooffset obj) + c))"
  obtain obj2 fs2 m2 where 2: "object_reads rd obj1 ns fs1 m1 =
      Some (map (content fs k (firstCluster obj)) [unat (ooffset obj) + c..<unat (ooffset obj) + c + n1], obj2, fs2, m2)"
      "inv m2" "cache_ok fs2" "fs_rest fs2 = fs_rest fs" "obj_ok fs k obj2" "cold fs2 k obj2"
    using Cons.IH [of m1 fs1 obj1] 1(2-6) Cons.prems(3,4) unfolding cong o1 u n1_def by auto
  have n: "min (sum_list (n # ns)) (unat (olength obj) - unat (ooffset obj)) = c + n1"
    by (simp add: c_def n1_def)
  have "[unat (ooffset obj)..<unat (ooffset obj) + c] @ [unat (ooffset obj) + c..<unat (ooffset obj) + c + n1] =
      [unat (ooffset obj)..<unat (ooffset obj) + (c + n1)]"
    by (metis add.assoc le_add1 upt_add_eq_append)
  then have "object_reads rd obj (n # ns) fs m = Some (map (content fs k (firstCluster obj)) [unat (ooffset obj)..<unat (ooffset obj) + (c + n1)], obj2, fs2, m2)"
    using 1(1) 2(1) by (simp flip: map_append)
  with 2 show ?case unfolding n by blast
qed

text \<open>
  When the block at the offset sits in the cache entry that is next to be replaced, and the next cluster has to be looked up in a
  block of the table that is not in the cache, that block replaces the data before it is copied.
\<close>

lemma object_read_clobbers:
  assumes "inv m" "cache_ok fs" "geometry fs k" "obj_ok fs k obj" "0 < len" "ooffset obj < olength obj"
    "cache_find (data_block fs k (firstCluster obj) (unat (ooffset obj))) 0 (blockCache fs) = Some (unat (blockCacheNext fs))"
    "fat_block fs (currCluster obj) \<noteq> kInvalidBlock" "fat_block fs (currCluster obj) \<notin> ce_block ` set (blockCache fs)"
    "chunk_len obj len = len" "(ooffset obj + of_nat len) AND clusterMask fs = 0" "ooffset obj + of_nat len < olength obj"
  shows "\<exists>obj' fs' m'. object_read rd obj len fs m =
    Some (take len (drop (unat (ooffset obj) mod 512) (blk (fat_block fs (currCluster obj)))), obj', fs', m')"
proof -
  have len8: "take kCacheEntries (blockCache fs) = blockCache fs" using assms(2) by (simp add: cache_ok_def)
  have e: "block_ensure rd (block_number fs (currCluster obj) (ooffset obj AND clusterMask fs)) fs m =
      Some (Some (unat (blockCacheNext fs)), fs, m)"
    using curr_block [OF assms(3,4,6)] assms(7) by (simp add: block_ensure_def len8)
  obtain idx fs1 m1 where b: "block_ensure rd (fat_block fs (currCluster obj)) fs m = Some (Some idx, fs1, m1)" "idx = unat (blockCacheNext fs)"
     "ce_buf (blockCache fs1 ! idx) = blk (fat_block fs (currCluster obj))"
    using block_ensure_step [OF assms(1,2,8)] assms(9) by blast
  then have c: "\<exists>nc. cluster_next rd (currCluster obj) fs m = Some (Some nc, fs1, m1)"
    by (simp add: cluster_next_def fat_block_def kBytesPerBlockShift_def Let_def)
  have z: "object_read rd o' 0 fs1 m1 = Some ([], o', fs1, m1)" for o' by (subst object_read.simps) simp
  have boff: "unat (ooffset obj AND (fs_kBlockLen - 1)) = unat (ooffset obj) mod 512" by (rule unat_block_offset)
  show ?thesis
    using assms(5,6,10-12) e c b(2,3) boff by (subst object_read.simps) (auto simp: z Let_def)
qed

end

section \<open>A small volume\<close>

text \<open>
  A medium in memory for the concrete examples: block 0 is the table, in which cluster 2 is followed by cluster 3, and block
  \<open>n\<close> of the cluster heap, filled with the byte \<open>n\<close>, is cluster \<open>n + 1\<close>.
\<close>

definition tiny_blk :: "u32 \<Rightarrow> u8 list" where
  "tiny_blk b = (if b = 0 then replicate 8 0 @ [3, 0, 0, 0, 0xff, 0xff, 0xff, 0x0f] @ replicate 496 0 else replicate 512 (ucast b))"

definition tiny_rd :: "unit block_read" where
  "tiny_rd b m = Some (True, tiny_blk b, m)"

definition tiny_fs :: "u32 list \<Rightarrow> u32 \<Rightarrow> fileSysUtils" where
  "tiny_fs tags next =
    \<lparr>partValid = True, bytesPerSectorShift = 9, secsPerClusterShift = 0, blksPerClusterShift = 0, fatStart = 0, clusterHeapStart = 1,
     rootStart = 1, rootCluster = 2, clusterBytes = 512, clusterMask = 511, dataBuffer = replicate 512 0, blockCacheNext = next,
     blockCache = map (\<lambda>t. \<lparr>ce_block = t, ce_buf = tiny_blk t\<rparr>) tags, files = [], dirs = []\<rparr>"

definition tiny_obj :: objState where
  "tiny_obj = \<lparr>oflags = Flag_Valid, ooffset = 0, olength = 600, currCluster = 2, firstCluster = 2\<rparr>"

interpretation tiny: block_device tiny_rd "\<lambda>_. True" tiny_blk
  by unfold_locales (auto simp: tiny_rd_def tiny_blk_def)

lemma tiny_geometry: "geometry (tiny_fs tags n) 9"
  by (simp add: geometry_def tiny_fs_def)

lemma tiny_cache: "length tags = 8 \<Longrightarrow> unat n < 8 \<Longrightarrow> tiny.cache_ok (tiny_fs tags n)"
  by (auto simp: tiny.cache_ok_def tiny_fs_def kCacheEntries_def tiny.blk_length)

lemma tiny_table: "tiny_blk 0 ! 8 = 3" "tiny_blk 0 ! 9 = 0" "tiny_blk 0 ! 10 = 0" "tiny_blk 0 ! 11 = 0"
  by (simp_all add: tiny_blk_def nth_append)

lemma tiny_fat_block: "c \<in> {2, 3} \<Longrightarrow> tiny.fat_block (tiny_fs tags n) c = 0"
  by (auto simp: tiny.fat_block_def tiny_fs_def)

lemma tiny_chain: "tiny.chain (tiny_fs tags n) 2 0 = 2" "tiny.chain (tiny_fs tags n) 2 (Suc 0) = 3"
  by (simp_all add: tiny.chain_def tiny.fat_next_def tiny_fat_block read32le_def le32_def tiny_table)

lemma div_512_cases: "p < 1024 \<Longrightarrow> p div 512 = (if p < 512 then 0 else 1 :: nat)"
  by auto

lemma tiny_data_block:
  "p < 1024 \<Longrightarrow> tiny.data_block (tiny_fs tags n) 9 2 p = (if p < 512 then 1 else 2)"
proof -
  assume p: "p < 1024"
  have "unat (drop_bit 9 (of_nat (p mod 512) :: u32)) = 0"
    by (simp only: unat_drop_bit_eq unat_of_nat) (simp add: take_bit_nat_eq_self drop_bit_eq_div)
  then have "drop_bit 9 (of_nat (p mod 512) :: u32) = 0" by (simp only: unat_eq_0)
  moreover have "p div 512 = (if p < 512 then 0 else 1)" using p by (rule div_512_cases)
  ultimately show ?thesis
    by (simp add: tiny.data_block_def block_number_def kBytesPerBlockShift_def tiny_chain) (simp add: tiny_fs_def)
qed

lemma tiny_laid_out: "tiny.laid_out (tiny_fs tags n) 9 2 600"
proof -
  have "tiny.fat_block (tiny_fs tags n) (tiny.chain (tiny_fs tags n) 2 c) = 0" if "c * 2 ^ 9 < 600" for c
  proof -
    have "c = 0 \<or> c = Suc 0" using that by auto
    then show ?thesis by (auto simp: tiny_chain tiny_fat_block)
  qed
  then show ?thesis
    by (auto simp: tiny.laid_out_def tiny_data_block div_512_cases kInvalidBlock_def split: if_splits)
qed

section \<open>Properties\<close>

text \<open>
  C18. Reading a file from its start returns its contents: over a readable medium, a sequence of \<open>object_read\<close> calls of any sizes on
  a newly opened object, none of whose blocks is in the cache yet, returns the bytes its cluster chain leads to, one
  after the other, up to the length of the object; every call returns, and the cache stays correct.
\<close>
theorem object_reads_stream:
  assumes "block_device rd good blk" "good m" "block_device.cache_ok blk fs" "geometry fs k" "block_device.laid_out blk fs k first (unat len)"
    "obj = \<lparr>oflags = fl, ooffset = 0, olength = len, currCluster = first, firstCluster = first\<rparr>"
    "\<forall>e \<in> set (blockCache fs). \<forall>q < unat len. ce_block e \<noteq> block_device.data_block blk fs k first q"
  shows "\<exists>obj' fs' m'. object_reads rd obj ns fs m =
      Some (map (block_device.content blk fs k first) [0..<min (sum_list ns) (unat len)], obj', fs', m') \<and>
    good m' \<and> block_device.cache_ok blk fs' \<and> fs_rest fs' = fs_rest fs"
proof -
  have "block_device.obj_ok blk fs k obj"
    using assms(6) by (simp add: block_device.obj_ok_def [OF assms(1)] block_device.chain_def [OF assms(1)])
  moreover have "length (blockCache fs) = kCacheEntries"
    using assms(3) by (simp add: block_device.cache_ok_def [OF assms(1)])
  then have "block_device.cold blk fs k obj"
    using assms(6,7) by (auto simp: block_device.cold_def [OF assms(1)])
  ultimately show ?thesis
    using block_device.object_reads_ok [OF assms(1-4), of obj ns] assms(5,6) by auto
qed

text \<open>A file of 600 bytes in clusters 2 and 3, read in three calls, the last of which asks for more than there is.\<close>
theorem object_reads_stream_witness:
  "\<exists>obj' fs' m'. object_reads tiny_rd tiny_obj [10, 510, 4000] (tiny_fs (replicate 8 kInvalidBlock) 0) () =
      Some (map (block_device.content tiny_blk (tiny_fs (replicate 8 kInvalidBlock) 0) 9 2) [0..<min (sum_list [10, 510, 4000]) (unat (600 :: u32))], obj', fs', m') \<and>
    True \<and> block_device.cache_ok tiny_blk fs' \<and> fs_rest fs' = fs_rest (tiny_fs (replicate 8 kInvalidBlock) 0)"
proof (rule object_reads_stream [OF tiny.block_device_axioms])
  show "\<forall>e \<in> set (blockCache (tiny_fs (replicate 8 kInvalidBlock) 0)). \<forall>q < unat (600 :: u32).
      ce_block e \<noteq> block_device.data_block tiny_blk (tiny_fs (replicate 8 kInvalidBlock) 0) 9 2 q"
    by (simp add: tiny_data_block) (simp add: tiny_fs_def kInvalidBlock_def)
qed (simp_all add: tiny_cache tiny_geometry tiny_laid_out tiny_obj_def)

text \<open>
  \<open>object_seek\<close> reaches every offset up to the length of the object and leaves the position consistent: the stored cluster
  is the one that holds the byte at the new offset, whether the chain was followed from the old position or from its start.
\<close>
theorem object_seek_consistent:
  assumes "block_device rd good blk" "good m" "block_device.cache_ok blk fs" "geometry fs k" "block_device.obj_ok blk fs k obj"
    "offset \<le> olength obj"
    "\<forall>c < unat (olength obj) div 2 ^ k. block_device.fat_block fs (block_device.chain blk fs (firstCluster obj) c) \<noteq> kInvalidBlock"
  shows "\<exists>obj' fs' m'. object_seek rd obj offset fs m = Some (True, obj', fs', m') \<and> ooffset obj' = offset \<and>
    block_device.obj_ok blk fs k obj' \<and> olength obj' = olength obj \<and> firstCluster obj' = firstCluster obj \<and>
    good m' \<and> block_device.cache_ok blk fs' \<and> fs_rest fs' = fs_rest fs"
  using block_device.object_seek_ok [OF assms] by fastforce

theorem object_seek_consistent_witness:
  "\<exists>obj' fs' m'. object_seek tiny_rd tiny_obj 555 (tiny_fs (replicate 8 kInvalidBlock) 0) () = Some (True, obj', fs', m') \<and> ooffset obj' = 555 \<and>
    block_device.obj_ok tiny_blk (tiny_fs (replicate 8 kInvalidBlock) 0) 9 obj' \<and> olength obj' = olength tiny_obj \<and>
    firstCluster obj' = firstCluster tiny_obj \<and>
    True \<and> block_device.cache_ok tiny_blk fs' \<and> fs_rest fs' = fs_rest (tiny_fs (replicate 8 kInvalidBlock) 0)"
proof (rule object_seek_consistent [OF tiny.block_device_axioms])
  show "\<forall>c < unat (olength tiny_obj) div 2 ^ 9. tiny.fat_block (tiny_fs (replicate 8 kInvalidBlock) 0)
      (tiny.chain (tiny_fs (replicate 8 kInvalidBlock) 0) (firstCluster tiny_obj) c) \<noteq> kInvalidBlock"
    by (simp add: tiny_obj_def tiny_chain tiny_fat_block kInvalidBlock_def)
  show "tiny.obj_ok (tiny_fs (replicate 8 kInvalidBlock) 0) 9 tiny_obj"
    by (simp add: tiny.obj_ok_def tiny_obj_def tiny_chain)
qed (simp_all add: tiny_cache tiny_geometry, simp add: tiny_obj_def)

text \<open>
  C40. A defect of \<open>object_read\<close>: it copies the data out of the cache entry only after it has looked up the next cluster. If the block at the offset
  sits in the entry that is next to be replaced and the block of the table is not cached, the lookup overwrites the entry, and the call returns bytes
  of the file allocation table in place of the data.
\<close>
theorem object_read_returns_table:
  assumes "block_device rd good blk" "good m" "block_device.cache_ok blk fs" "geometry fs k" "block_device.obj_ok blk fs k obj" "0 < len" "ooffset obj < olength obj"
    "cache_find (block_device.data_block blk fs k (firstCluster obj) (unat (ooffset obj))) 0 (blockCache fs) = Some (unat (blockCacheNext fs))"
    "block_device.fat_block fs (currCluster obj) \<noteq> kInvalidBlock" "block_device.fat_block fs (currCluster obj) \<notin> ce_block ` set (blockCache fs)"
    "chunk_len obj len = len" "(ooffset obj + of_nat len) AND clusterMask fs = 0" "ooffset obj + of_nat len < olength obj"
  shows "\<exists>obj' fs' m'. object_read rd obj len fs m =
    Some (take len (drop (unat (ooffset obj) mod 512) (blk (block_device.fat_block fs (currCluster obj)))), obj', fs', m')"
  using block_device.object_read_clobbers [OF assms] .

text \<open>The first cluster of the file, filled with the byte 1, is the oldest entry of a full cache.\<close>
theorem object_read_returns_table_witness:
  "\<exists>obj' fs' m'. object_read tiny_rd (tiny_obj\<lparr>ooffset := 508\<rparr>) 4 (tiny_fs [1, 10, 11, 12, 13, 14, 15, 16] 0) () =
    Some (take 4 (drop (unat (ooffset (tiny_obj\<lparr>ooffset := 508\<rparr>)) mod 512) (tiny_blk (block_device.fat_block (tiny_fs [1, 10, 11, 12, 13, 14, 15, 16] 0)
      (currCluster (tiny_obj\<lparr>ooffset := 508\<rparr>))))), obj', fs', m')"
proof (rule object_read_returns_table [OF tiny.block_device_axioms])
  show "tiny.obj_ok (tiny_fs [1, 10, 11, 12, 13, 14, 15, 16] 0) 9 (tiny_obj\<lparr>ooffset := 508\<rparr>)"
    by (simp add: tiny.obj_ok_def tiny_obj_def tiny_chain)
  show "cache_find (tiny.data_block (tiny_fs [1, 10, 11, 12, 13, 14, 15, 16] 0) 9 (firstCluster (tiny_obj\<lparr>ooffset := 508\<rparr>))
      (unat (ooffset (tiny_obj\<lparr>ooffset := 508\<rparr>)))) 0 (blockCache (tiny_fs [1, 10, 11, 12, 13, 14, 15, 16] 0)) =
      Some (unat (blockCacheNext (tiny_fs [1, 10, 11, 12, 13, 14, 15, 16] 0)))"
    by (simp add: tiny_obj_def tiny_data_block) (simp add: tiny_fs_def)
  show "chunk_len (tiny_obj\<lparr>ooffset := 508\<rparr>) 4 = 4"
    by (simp add: chunk_len_nat tiny_obj_def)
  show "tiny.fat_block (tiny_fs [1, 10, 11, 12, 13, 14, 15, 16] 0) (currCluster (tiny_obj\<lparr>ooffset := 508\<rparr>)) \<noteq> kInvalidBlock"
    "tiny.fat_block (tiny_fs [1, 10, 11, 12, 13, 14, 15, 16] 0) (currCluster (tiny_obj\<lparr>ooffset := 508\<rparr>)) \<notin>
      ce_block ` set (blockCache (tiny_fs [1, 10, 11, 12, 13, 14, 15, 16] 0))"
    by (simp_all add: tiny_obj_def tiny_fat_block kInvalidBlock_def) (simp add: tiny_fs_def)
  show "(ooffset (tiny_obj\<lparr>ooffset := 508\<rparr>) + of_nat 4) AND clusterMask (tiny_fs [1, 10, 11, 12, 13, 14, 15, 16] 0) = 0"
    "ooffset (tiny_obj\<lparr>ooffset := 508\<rparr>) + of_nat 4 < olength (tiny_obj\<lparr>ooffset := 508\<rparr>)"
    by (simp_all add: tiny_obj_def tiny_fs_def)
qed (simp_all add: tiny_cache tiny_geometry, simp add: tiny_obj_def)

end
