(* ===== verification/Fat_Names.thy ===== *)
theory Fat_Names
  imports Fat_Cache
begin

unbundle bit_operations_syntax

text \<open>
  The parts of the FAT32 layer (\<open>filesys-utils.hh\<close>) that decode what is stored on the medium: powers of two and
  cylinder/head/sector addresses of the partition table, directory entries, and the names of objects, short and long. A
  character of a long name is a 16-bit unit; a name in memory ends with a zero unit. Reading past the end of an array is
  the outcome \<open>None\<close>.
\<close>

section \<open>Numbers of the partition table\<close>

text \<open>\<open>while (n > 1u)\<close> of \<open>floor_log2\<close>; the counter is a byte.\<close>

function log2_loop :: "u16 \<Rightarrow> u8 \<Rightarrow> u8" where
  "log2_loop n shift = (if n > 1 then log2_loop (drop_bit 1 n) (shift + 1) else shift)"
  by auto
termination
proof (relation "measure (unat \<circ> fst)")
  fix n :: u16 and shift :: u8
  assume "n > 1"
  then have "unat n > 1" by (simp add: word_less_nat_alt)
  then show "((drop_bit 1 n, shift + 1), (n, shift)) \<in> measure (unat \<circ> fst)"
    by (simp add: drop_bit_eq_div unat_div)
qed simp

declare log2_loop.simps [simp del]

definition floor_log2 :: "u16 \<Rightarrow> u8" where
  "floor_log2 n = log2_loop n 0"

text \<open>Cylinder, head and sector of the three bytes at \<open>i\<close>.\<close>

definition read_chs :: "u8 list \<Rightarrow> nat \<Rightarrow> u16 \<times> u8 \<times> u8" where
  "read_chs p i =
    ((push_bit 2 (ucast (p ! (i + 1))) AND 0x300) OR ucast (p ! (i + 2)), p ! i, p ! (i + 1) AND 0x3f)"

definition chs_to_lba :: "u16 \<Rightarrow> u8 \<Rightarrow> u8 \<Rightarrow> u8 \<Rightarrow> u8 \<Rightarrow> u32" where
  "chs_to_lba c h s nheads nsecs =
    (if h \<ge> nheads \<or> s = 0 \<or> s > nsecs then 0xffffffff
     else (ucast c * ucast nheads + ucast h) * ucast nsecs + (ucast s - 1))"

section \<open>Directory entries\<close>

definition DirFlag_Raw :: u32 where "DirFlag_Raw = 1"
definition DirFlag_IncludeDeleted :: u32 where "DirFlag_IncludeDeleted = 2"
definition DirFlag_IncludeHidden :: u32 where "DirFlag_IncludeHidden = 4"
definition DirFlags_Default :: u32 where "DirFlags_Default = 0"

definition DirEntryFlag_Deleted :: u32 where "DirEntryFlag_Deleted = 1"
definition DirEntryFlag_Hidden :: u32 where "DirEntryFlag_Hidden = 2"
definition DirEntryFlag_VolumeLabel :: u32 where "DirEntryFlag_VolumeLabel = 4"
definition DirEntryFlag_Subdirectory :: u32 where "DirEntryFlag_Subdirectory = 8"
definition DirEntryFlag_HasLongName :: u32 where "DirEntryFlag_HasLongName = 0x10"

lemmas dir_flag_defs = DirFlag_Raw_def DirFlag_IncludeDeleted_def DirFlag_IncludeHidden_def DirFlags_Default_def
  DirEntryFlag_Deleted_def DirEntryFlag_Hidden_def DirEntryFlag_VolumeLabel_def DirEntryFlag_Subdirectory_def
  DirEntryFlag_HasLongName_def

record dirEntry =
  de_flags :: u32
  entryType :: u8
  shortName :: "u8 list"
  shortExt :: "u8 list"
  attribs :: u8
  userAttribs :: u8
  createdFine :: u8
  createdTime :: u16
  createdDate :: u16
  modifiedTime :: u16
  modifiedDate :: u16
  accessDate :: u16
  de_firstCluster :: u32
  dataLength :: u32

definition include_entry :: "u32 \<Rightarrow> u32 \<Rightarrow> bool" where
  "include_entry entryFlags flags \<longleftrightarrow>
     (entryFlags AND DirEntryFlag_Deleted = 0 \<or> flags AND DirFlag_IncludeDeleted \<noteq> 0) \<and>
     (entryFlags AND DirEntryFlag_Hidden = 0 \<or> flags AND DirFlag_IncludeHidden \<noteq> 0) \<and>
     entryFlags AND DirEntryFlag_VolumeLabel = 0"

definition entry_flags :: "bool \<Rightarrow> u8 \<Rightarrow> u8 \<Rightarrow> u32" where
  "entry_flags hasLFN attr etype =
     (let f = (0 :: u32);
          f = (if hasLFN then f OR DirEntryFlag_HasLongName else f);
          f = (if attr AND 0x08 \<noteq> 0 then f OR DirEntryFlag_VolumeLabel else f);
          f = (if attr AND 0x10 \<noteq> 0 then f OR DirEntryFlag_Subdirectory else f)
      in if etype = 0xe5 then f OR DirEntryFlag_Deleted else f)"

section \<open>Names\<close>

definition as_lower_case :: "u8 \<Rightarrow> u16" where
  "as_lower_case ch = (if ch \<ge> 0x41 \<and> ch \<le> 0x5a then ucast ch - 0x41 + 0x61 else ucast ch)"

text \<open>The two copying loops of \<open>generate_lfn\<close>: at most \<open>ucs_max\<close> characters, up to the padding.\<close>

fun short_chars :: "nat \<Rightarrow> u8 list \<Rightarrow> u16 list" where
  "short_chars ucs_max [] = []"
| "short_chars ucs_max (c # cs) =
    (if ucs_max > 0 \<and> c > 0x20 then as_lower_case c # short_chars (ucs_max - 1) cs else [])"

definition generate_lfn :: "u16 list \<Rightarrow> nat \<Rightarrow> dirEntry \<Rightarrow> u16 list" where
  "generate_lfn ucs ucs_max entry =
    (let name = short_chars ucs_max (take 8 (shortName entry));
         left = ucs_max - length name;
         dot = (if left > 0 \<and> shortExt entry ! 0 > 0x20 then [0x2e] else []);
         left = left - length dot;
         ext = short_chars left (take 3 (shortExt entry));
         left = left - length ext;
         nul = (if left > 0 then [0] else [])
     in blit ucs 0 (name @ dot @ ext @ nul))"

text \<open>Comparison of at most \<open>len\<close> characters: the difference at the first mismatch or at the end of the first name.\<close>

fun ucs2_compare :: "u16 list \<Rightarrow> u16 list \<Rightarrow> nat \<Rightarrow> int option" where
  "ucs2_compare ucs1 ucs2 0 = Some 0"
| "ucs2_compare (c1 # ucs1) (c2 # ucs2) (Suc len) =
    (if c1 = 0 \<or> c1 \<noteq> c2 then Some (uint c1 - uint c2) else ucs2_compare ucs1 ucs2 len)"
| "ucs2_compare [] ucs2 (Suc len) = None"
| "ucs2_compare (c1 # ucs1) [] (Suc len) = None"

fun ucs2_char_compare :: "u16 list \<Rightarrow> u8 list \<Rightarrow> nat \<Rightarrow> int option" where
  "ucs2_char_compare ucs1 s2 0 = Some 0"
| "ucs2_char_compare (c1 # ucs1) (c2 # s2) (Suc len) =
    (if c1 = 0 \<or> c1 \<noteq> ucast c2 then Some (uint c1 - uint c2) else ucs2_char_compare ucs1 s2 len)"
| "ucs2_char_compare [] s2 (Suc len) = None"
| "ucs2_char_compare (c1 # ucs1) [] (Suc len) = None"

text \<open>The characters \<open>ucs2_copy\<close> stores.\<close>

fun ucs2_upto :: "u16 list \<Rightarrow> nat \<Rightarrow> u16 list option" where
  "ucs2_upto s 0 = Some []"
| "ucs2_upto [] (Suc n) = None"
| "ucs2_upto (ch # s) (Suc n) = (if ch \<noteq> 0 then map_option ((#) ch) (ucs2_upto s n) else Some [ch])"

definition ucs2_copy :: "u16 list \<Rightarrow> u16 list \<Rightarrow> nat \<Rightarrow> u16 list option" where
  "ucs2_copy d s n = map_option (blit d 0) (ucs2_upto s n)"

text \<open>Bytes seen as 16-bit units of a little endian machine, and back.\<close>

fun u16s :: "u8 list \<Rightarrow> u16 list" where
  "u16s (a # b # bs) = le16 a b # u16s bs"
| "u16s _ = []"

definition u16_bytes :: "u16 list \<Rightarrow> u8 list" where
  "u16_bytes us = concat (map (\<lambda>u. [ucast u, ucast (drop_bit 8 u)]) us)"

text \<open>How many characters an entry of a long name contributes to a buffer of \<open>ucs_max\<close> characters, and the three runs of
  bytes they are copied from.\<close>

definition lfn_len :: "bool \<Rightarrow> nat \<Rightarrow> nat \<Rightarrow> nat \<Rightarrow> nat" where
  "lfn_len lastLogical seqNumber offset ucs_max =
    (let len = (if lastLogical \<and> seqNumber \<ge> 0x14 then 9 else 13)
     in if offset + len > ucs_max then ucs_max - offset else len)"

definition lfn_store :: "u8 list \<Rightarrow> nat \<Rightarrow> nat \<Rightarrow> u16 list \<Rightarrow> u16 list" where
  "lfn_store dir_entry offset len ucs =
    (let ucs = blit ucs offset (u16s (take ((if len \<ge> 5 then 5 else len) * 2) (drop 1 dir_entry)))
     in if len > 5 then
          let ucs = blit ucs (offset + 5) (u16s (take ((if len \<ge> 11 then 6 else len - 5) * 2) (drop 0xe dir_entry)))
          in if len > 11 then blit ucs (offset + 11) (u16s (take ((len - 11) * 2) (drop 0x1c dir_entry))) else ucs
        else ucs)"

text \<open>What one entry of a long name stores: its characters at the place its sequence number gives, and a terminator
  behind the last one.\<close>

definition lfn_collect :: "u8 list \<Rightarrow> nat \<Rightarrow> u16 list \<Rightarrow> u16 list" where
  "lfn_collect dir_entry ucs_max ucs =
    (let etype = dir_entry ! 0;
         seqNumber = unat (etype AND 0x1f) in
     if seqNumber \<ge> 0x01 \<and> seqNumber \<le> 0x14 then
       let offset = (seqNumber - 1) * 13 in
       if offset < ucs_max then
         let lastLogical = (etype AND 0x40 \<noteq> 0);
             len = lfn_len lastLogical seqNumber offset ucs_max;
             ucs = lfn_store dir_entry offset len ucs
         in if lastLogical \<and> ucs_max - offset > len then blit ucs (offset + len) [0] else ucs
       else ucs
     else ucs)"

text \<open>The fields of a regular entry.\<close>

definition parse_entry :: "u32 \<Rightarrow> u8 list \<Rightarrow> dirEntry \<Rightarrow> dirEntry" where
  "parse_entry entryFlags dir_entry entry =
    (let cluster = (push_bit 16 (ucast (read16le dir_entry 0x14)) OR ucast (read16le dir_entry 0x1a)) AND NOT 0xf0000000;
         name = take 8 dir_entry;
         name = (if entryFlags AND DirEntryFlag_Deleted \<noteq> 0 then name[0 := dir_entry ! 0xd] else name);
         name = (if name ! 0 = 0x05 then name[0 := 0xe5] else name)
     in entry\<lparr>de_flags := entryFlags, entryType := dir_entry ! 0, shortName := blit (shortName entry) 0 name,
          shortExt := blit (shortExt entry) 0 (take 3 (drop 8 dir_entry)),
          attribs := dir_entry ! 0xb, userAttribs := dir_entry ! 0xc, createdFine := dir_entry ! 0xd,
          createdTime := read16le dir_entry 0xe, createdDate := read16le dir_entry 0x10,
          accessDate := read16le dir_entry 0x12, modifiedTime := read16le dir_entry 0x16,
          modifiedDate := read16le dir_entry 0x18, de_firstCluster := cluster,
          dataLength := read32le dir_entry 0x1c\<rparr>)"

section \<open>Buffers of characters\<close>

lemma blit_blit:
  "off + length a + length b \<le> length dst \<Longrightarrow> blit (blit dst off a) (off + length a) b = blit dst off (a @ b)"
  by (rule nth_equalityI) (auto simp: nth_blit nth_append)

lemma take_u16s: "u16s (take (2 * n) bs) = take n (u16s bs)"
proof (induction bs arbitrary: n rule: u16s.induct)
  case (1 a b bs)
  then show ?case by (cases n) auto
qed (auto simp: take_Cons split: nat.split)

lemma length_u16s [simp]: "length (u16s bs) = length bs div 2"
  by (induction bs rule: u16s.induct) auto

lemma le16_bytes: "le16 (ucast u) (ucast (drop_bit 8 u)) = u"
  by (rule bit_word_eqI) (auto simp: le16_def bit_simps)

lemma u16s_bytes_append: "u16s (u16_bytes us @ bs) = us @ u16s bs"
  by (induction us) (simp_all add: u16_bytes_def le16_bytes)

lemma u16s_bytes [simp]: "u16s (u16_bytes us) = us"
  using u16s_bytes_append [of us "[]"] by simp

lemma length_u16_bytes [simp]: "length (u16_bytes us) = 2 * length us"
  by (induction us) (simp_all add: u16_bytes_def)

section \<open>Long names\<close>

text \<open>The thirteen characters of an entry.\<close>

definition lfn_chars :: "u8 list \<Rightarrow> u16 list" where
  "lfn_chars e = take 5 (u16s (drop 1 e)) @ take 6 (u16s (drop 14 e)) @ take 2 (u16s (drop 28 e))"

lemma length_lfn_chars: "length e = 32 \<Longrightarrow> length (lfn_chars e) = 13"
  by (simp add: lfn_chars_def)

lemma lfn_runs:
  assumes "length e = 32" "n \<le> 13"
  shows "take n (lfn_chars e) =
    take (min n 5) (u16s (drop 1 e)) @ take (min (n - 5) 6) (u16s (drop 14 e)) @ take (n - 11) (u16s (drop 28 e))"
  using assms by (simp add: lfn_chars_def min_def)

lemma lfn_store_blit:
  assumes e: "length e = 32" and len: "len \<le> 13" "off + len \<le> length ucs"
  shows "lfn_store e off len ucs = blit ucs off (take len (lfn_chars e))"
proof -
  define A where "A = take (min len 5) (u16s (drop 1 e))"
  define B where "B = take (min (len - 5) 6) (u16s (drop 14 e))"
  define C where "C = take (len - 11) (u16s (drop 28 e))"
  have runs: "take len (lfn_chars e) = A @ B @ C" using lfn_runs [OF e len(1)] by (simp add: A_def B_def C_def)
  have lA: "length A = min len 5" and lB: "length B = min (len - 5) 6" and lC: "length C = len - 11"
    using e len by (simp_all add: A_def B_def C_def)
  have "(if len \<ge> 5 then 5 else len) = min len 5" by simp
  then have a: "u16s (take ((if len \<ge> 5 then 5 else len) * 2) (drop 1 e)) = A"
    using take_u16s [of "min len 5" "drop 1 e"] by (simp add: A_def mult.commute)
  have b: "u16s (take ((if len \<ge> 11 then 6 else len - 5) * 2) (drop 0xe e)) = B" if "len > 5"
  proof -
    have "(if len \<ge> 11 then 6 else len - 5) = min (len - 5) 6" using that by simp
    then show ?thesis using take_u16s [of "min (len - 5) 6" "drop 14 e"] by (simp add: B_def mult.commute)
  qed
  have c: "u16s (take ((len - 11) * 2) (drop 0x1c e)) = C"
    using take_u16s [of "len - 11" "drop 28 e"] by (simp add: C_def mult.commute)
  have eq: "lfn_store e off len ucs =
    (if len > 5 then (if len > 11 then blit (blit (blit ucs off A) (off + 5) B) (off + 11) C else blit (blit ucs off A) (off + 5) B)
     else blit ucs off A)"
    unfolding lfn_store_def Let_def a c by (cases "len > 5") (simp_all only: b if_True if_False)
  show ?thesis
  proof (cases "len > 5")
    case True
    then have "blit (blit ucs off A) (off + 5) B = blit ucs off (A @ B)"
      using blit_blit [of off A B ucs] lA lB len by simp
    then show ?thesis
      using True blit_blit [of off "A @ B" C ucs] lA lB lC len
      by (cases "len > 11") (auto simp: eq runs add.assoc)
  next
    case False
    then have "B = []" "C = []" using lB lC by auto
    then show ?thesis using False by (simp add: eq runs)
  qed
qed

definition lfn_nul :: "bool \<Rightarrow> nat \<Rightarrow> nat \<Rightarrow> nat \<Rightarrow> u16 list" where
  "lfn_nul lastLogical off len ucs_max = (if lastLogical \<and> ucs_max - off > len then [0] else [])"

lemma lfn_len_le: "off < ucs_max \<Longrightarrow> lfn_len final q off ucs_max \<le> 13 \<and> off + lfn_len final q off ucs_max \<le> ucs_max"
  by (auto simp: lfn_len_def Let_def)

lemma lfn_collect_blit:
  assumes e: "length e = 32" and m: "ucs_max \<le> length ucs"
    and k: "unat (e ! 0 AND 0x1f) = Suc k" "k < 20" "13 * k < ucs_max"
    and len: "len = lfn_len (e ! 0 AND 0x40 \<noteq> 0) (Suc k) (13 * k) ucs_max"
  shows "lfn_collect e ucs_max ucs =
    blit ucs (13 * k) (take len (lfn_chars e) @ lfn_nul (e ! 0 AND 0x40 \<noteq> 0) (13 * k) len ucs_max)"
proof -
  have l: "len \<le> 13" "13 * k + len \<le> ucs_max" using lfn_len_le [OF k(3)] len by auto
  have g: "(Suc k \<ge> 0x01 \<and> Suc k \<le> 0x14) = True" "(13 * k < ucs_max) = True" "(Suc k - 1) * 13 = 13 * k"
    using k by simp_all
  have "lfn_collect e ucs_max ucs =
    (let ucs = lfn_store e (13 * k) len ucs in
     if e ! 0 AND 0x40 \<noteq> 0 \<and> ucs_max - 13 * k > len then blit ucs (13 * k + len) [0] else ucs)"
    unfolding lfn_collect_def Let_def k(1) g len if_True by (rule refl)
  also have "\<dots> = blit ucs (13 * k) (take len (lfn_chars e) @ lfn_nul (e ! 0 AND 0x40 \<noteq> 0) (13 * k) len ucs_max)"
    using blit_blit [of "13 * k" "take len (lfn_chars e)" "[0]" ucs] l m
    by (auto simp: lfn_store_blit [OF e] length_lfn_chars [OF e] lfn_nul_def)
  finally show ?thesis .
qed

lemma lfn_collect_other:
  "unat (e ! 0 AND 0x1f) = 0 \<or> unat (e ! 0 AND 0x1f) > 20 \<or> (unat (e ! 0 AND 0x1f) - 1) * 13 \<ge> ucs_max \<Longrightarrow>
   lfn_collect e ucs_max ucs = ucs"
  by (auto simp: lfn_collect_def Let_def)

lemma lfn_collect_cases:
  obtains (other) "lfn_collect e ucs_max ucs = ucs"
  | (store) k where "unat (e ! 0 AND 0x1f) = Suc k" "k < 20" "13 * k < ucs_max"
proof (cases "unat (e ! 0 AND 0x1f) = 0 \<or> unat (e ! 0 AND 0x1f) > 20 \<or> (unat (e ! 0 AND 0x1f) - 1) * 13 \<ge> ucs_max")
  case True
  then show ?thesis using lfn_collect_other other by blast
next
  case False
  then have "unat (e ! 0 AND 0x1f) = Suc (unat (e ! 0 AND 0x1f) - 1)" "unat (e ! 0 AND 0x1f) - 1 < 20" 
    "13 * (unat (e ! 0 AND 0x1f) - 1) < ucs_max" by auto
  then show ?thesis by (rule store)
qed

text \<open>The layout of a long name in a directory, as the FAT design describes it: the characters in groups of thirteen, the
  last group closed by a zero and padded, numbered from one, the last one marked and stored first.\<close>

definition lfn_group :: "u16 list \<Rightarrow> nat \<Rightarrow> u16 list" where
  "lfn_group name k = take 13 (drop (13 * k) (name @ [0] @ replicate 12 0xffff))"

definition lfn_count :: "u16 list \<Rightarrow> nat" where
  "lfn_count name = (length name + 12) div 13"

definition lfn_entry :: "u8 \<Rightarrow> u16 list \<Rightarrow> nat \<Rightarrow> u8 list" where
  "lfn_entry chk name k =
    (of_nat (Suc k) OR (if Suc k = lfn_count name then 0x40 else 0)) #
    u16_bytes (take 5 (lfn_group name k)) @ [0x0f, 0, chk] @
    u16_bytes (take 6 (drop 5 (lfn_group name k))) @ [0, 0] @ u16_bytes (drop 11 (lfn_group name k))"

definition lfn_entries :: "u8 \<Rightarrow> u16 list \<Rightarrow> u8 list list" where
  "lfn_entries chk name = map (lfn_entry chk name) (rev [0..<lfn_count name])"

lemma length_lfn_group: "k < lfn_count name \<Longrightarrow> length (lfn_group name k) = 13"
  by (simp add: lfn_group_def lfn_count_def min_def)

lemma length_lfn_entry: "k < lfn_count name \<Longrightarrow> length (lfn_entry chk name k) = 32"
  by (simp add: lfn_entry_def length_lfn_group)

lemma lfn_chars_entry:
  assumes "k < lfn_count name"
  shows "lfn_chars (lfn_entry chk name k) = lfn_group name k"
proof -
  define g where "g = lfn_group name k"
  define h where "h = (of_nat (Suc k) OR (if Suc k = lfn_count name then 0x40 else 0) :: u8)"
  define A where "A = u16_bytes (take 5 g)"
  define B where "B = u16_bytes (take 6 (drop 5 g))"
  define C where "C = u16_bytes (drop 11 g)"
  have l: "length A = 10" "length B = 12" "length C = 4"
    using length_lfn_group [OF assms] by (simp_all add: A_def B_def C_def g_def)
  have e: "lfn_entry chk name k = h # A @ [0x0f, 0, chk] @ B @ [0, 0] @ C"
    by (simp add: lfn_entry_def A_def B_def C_def g_def h_def)
  have d14: "drop 14 (lfn_entry chk name k) = B @ [0, 0] @ C" and d28: "drop 28 (lfn_entry chk name k) = C"
    by (simp_all add: e l)
  have "take 5 (u16s (drop 1 (lfn_entry chk name k))) = take 5 g"
    using length_lfn_group [OF assms] by (simp add: e A_def u16s_bytes_append g_def)
  moreover have "take 6 (u16s (drop 14 (lfn_entry chk name k))) = take 6 (drop 5 g)"
    using length_lfn_group [OF assms] unfolding d14 by (simp add: B_def u16s_bytes_append g_def)
  moreover have "take 2 (u16s (drop 28 (lfn_entry chk name k))) = drop 11 g"
    using length_lfn_group [OF assms] unfolding d28 by (simp add: C_def g_def)
  moreover have "take 5 g @ take 6 (drop 5 g) @ drop 11 g = g"
  proof -
    have "drop 11 g = drop 6 (drop 5 g)" by simp
    then show ?thesis by (simp only: append_take_drop_id)
  qed
  ultimately show ?thesis by (simp add: lfn_chars_def g_def)
qed

lemma lfn_head:
  "list_all (\<lambda>k. unat ((of_nat (Suc k) :: u8) AND 0x1f) = Suc k \<and> unat ((of_nat (Suc k) OR 0x40 :: u8) AND 0x1f) = Suc k \<and>
     (of_nat (Suc k) :: u8) AND 0x40 = 0 \<and> (of_nat (Suc k) OR 0x40 :: u8) AND 0x40 \<noteq> 0) [0..<20]"
  by code_simp

lemma lfn_entry_head:
  assumes "k < 20"
  shows "unat (lfn_entry chk name k ! 0 AND 0x1f) = Suc k"
    and "lfn_entry chk name k ! 0 AND 0x40 \<noteq> 0 \<longleftrightarrow> Suc k = lfn_count name"
proof -
  have h: "unat ((of_nat (Suc k) :: u8) AND 0x1f) = Suc k" "unat ((of_nat (Suc k) OR 0x40 :: u8) AND 0x1f) = Suc k"
    "(of_nat (Suc k) :: u8) AND 0x40 = 0" "(of_nat (Suc k) OR 0x40 :: u8) AND 0x40 \<noteq> 0"
    using lfn_head assms by (auto simp: list_all_iff simp del: of_nat_Suc)
  have e: "lfn_entry chk name k ! 0 = of_nat (Suc k) OR (if Suc k = lfn_count name then 0x40 else 0)"
    by (simp add: lfn_entry_def)
  show "unat (lfn_entry chk name k ! 0 AND 0x1f) = Suc k" unfolding e using h(1,2)
    by (cases "Suc k = lfn_count name") (simp_all only: simp_thms if_True if_False or.right_neutral)
  show "lfn_entry chk name k ! 0 AND 0x40 \<noteq> 0 \<longleftrightarrow> Suc k = lfn_count name" unfolding e using h(3,4) by (simp del: of_nat_Suc)
qed

text \<open>An entry of a well-formed name puts its group in place, and the one stored first also the terminator.\<close>

lemma lfn_collect_entry:
  assumes k: "k < lfn_count name" and n: "length name \<le> 255" and u: "length ucs = 256"
    and i: "i \<le> length name" "13 * k \<le> i"
    and now: "i < 13 * Suc k \<or> Suc k = lfn_count name"
  shows "lfn_collect (lfn_entry chk name k) 256 ucs ! i = (name @ [0]) ! i"
proof -
  define e where "e = lfn_entry chk name k"
  have k20: "k < 20" using k n by (simp add: lfn_count_def)
  note h = lfn_entry_head [OF k20, of chk name, folded e_def]
  define len where "len = lfn_len (Suc k = lfn_count name) (Suc k) (13 * k) 256"
  let ?w = "take len (lfn_group name k) @ lfn_nul (Suc k = lfn_count name) (13 * k) len 256"
  have "lfn_collect e 256 ucs = blit ucs (13 * k) ?w"
    using lfn_collect_blit [of e 256 ucs k len] length_lfn_entry [OF k, of chk] u k20 lfn_chars_entry [OF k, of chk]
    unfolding h e_def [symmetric] by (simp add: len_def)
  then have c: "lfn_collect e 256 ucs ! i = (if i < 13 * k + length ?w then ?w ! (i - 13 * k) else ucs ! i)"
    using i n u by (simp add: nth_blit)
  have lg: "length (lfn_group name k) = 13" by (rule length_lfn_group [OF k])
  have g: "lfn_group name k ! (i - 13 * k) = (name @ [0]) ! i" if "i < 13 * Suc k"
    using that i by (auto simp: lfn_group_def nth_append)
  show ?thesis
  proof (cases "i < 13 * Suc k")
    case True
    then have "i - 13 * k < len"
      using i n k20 by (auto simp: len_def lfn_len_def Let_def)
    moreover have "len \<le> 13" using lfn_len_le [of "13 * k" 256] k20 by (simp add: len_def)
    moreover have "i < 13 * k + length ?w" using calculation lg i(2) by simp
    ultimately show ?thesis using c g [OF True] lg by (simp add: nth_append e_def)
  next
    case False
    then have last: "Suc k = lfn_count name" and "length name \<le> 13 * Suc k" using now by (auto simp: lfn_count_def)
    then have ik: "i = 13 * Suc k" "length name = i" "k < 19" using False i n by auto
    then have "len = 13" by (simp add: len_def lfn_len_def)
    then have "?w = lfn_group name k @ [0]" using ik last lg by (simp add: lfn_nul_def)
    then show ?thesis using c ik lg by (simp add: nth_append e_def)
  qed
qed

lemma length_lfn_store [simp]: "length (lfn_store e off len ucs) = length ucs"
  by (simp add: lfn_store_def Let_def)

lemma length_lfn_collect [simp]: "length (lfn_collect e ucs_max ucs) = length ucs"
  by (simp add: lfn_collect_def Let_def)

text \<open>An entry leaves the characters of the groups behind its own alone.\<close>

lemma lfn_collect_keeps:
  assumes "length e = 32" "ucs_max \<le> length ucs" "unat (e ! 0 AND 0x1f) = Suc k" "k < 20" "e ! 0 AND 0x40 = 0"
    "13 * Suc k \<le> i" "i < length ucs"
  shows "lfn_collect e ucs_max ucs ! i = ucs ! i"
proof (cases "13 * k < ucs_max")
  case True
  define len where "len = lfn_len (e ! 0 AND 0x40 \<noteq> 0) (Suc k) (13 * k) ucs_max"
  have "len \<le> 13" using lfn_len_le [OF True] by (simp add: len_def)
  then show ?thesis
    using assms lfn_collect_blit [OF assms(1-4) True len_def] by (simp add: nth_blit lfn_nul_def length_lfn_chars)
qed (use assms in \<open>simp add: lfn_collect_other mult.commute\<close>)

lemma lfn_fold:
  assumes n: "length name \<le> 255" and u: "length ucs = 256" and d: "d \<le> lfn_count name" "0 < d"
    and i: "i \<le> length name" "13 * (lfn_count name - d) \<le> i"
  shows "fold (\<lambda>e. lfn_collect e 256) (map (lfn_entry chk name) (rev [lfn_count name - d..<lfn_count name])) ucs ! i = (name @ [0]) ! i"
  using d i
proof (induction d)
  case (Suc d)
  define k where "k = lfn_count name - Suc d"
  have k: "k < lfn_count name" "lfn_count name - d = Suc k" using Suc.prems by (auto simp: k_def)
  have k20: "k < 20" using k(1) n by (simp add: lfn_count_def)
  define us where "us = fold (\<lambda>e. lfn_collect e 256) (map (lfn_entry chk name) (rev [Suc k..<lfn_count name])) ucs"
  have us: "length us = 256"
  proof -
    have "length (fold (\<lambda>e. lfn_collect e 256) es ucs) = length ucs" for es
      by (induction es rule: rev_induct) simp_all
    then show ?thesis by (simp add: us_def u)
  qed
  have "[k..<lfn_count name] = k # [Suc k..<lfn_count name]" using k by (simp add: upt_conv_Cons)
  then have eq: "fold (\<lambda>e. lfn_collect e 256) (map (lfn_entry chk name) (rev [k..<lfn_count name])) ucs =
      lfn_collect (lfn_entry chk name k) 256 us"
    by (simp add: us_def)
  show ?case
  proof (cases "i < 13 * Suc k \<or> Suc k = lfn_count name")
    case True
    then show ?thesis
      using lfn_collect_entry [OF k(1) n us] Suc.prems eq by (simp add: k_def)
  next
    case False
    then have "0 < d" using k by (cases d) auto
    then have "us ! i = (name @ [0]) ! i"
      using Suc.IH Suc.prems False k by (simp add: us_def)
    moreover have "lfn_entry chk name k ! 0 AND 0x40 = 0" using lfn_entry_head(2) [OF k20] False by blast
    ultimately show ?thesis
      using lfn_collect_keeps [of "lfn_entry chk name k" 256 us k i] length_lfn_entry [OF k(1)] us k20 False
        lfn_entry_head(1) [OF k20] Suc.prems n eq by (simp add: k_def [symmetric])
  qed
qed simp

section \<open>Properties\<close>

text \<open>
  C19. Long file names round trip: a name of up to 255 characters, stored in a directory the way the FAT design prescribes
  (groups of thirteen characters scattered over the entries, numbered, the last group first), is reassembled by
  \<open>dir_next\<close>'s entry handling in the 256-character name buffer, in order and closed by a terminator, whatever the buffer
  held before.
\<close>
theorem lfn_roundtrip:
  assumes "length name \<le> 255" "name \<noteq> []" "length ucs = 256"
  shows "take (Suc (length name)) (fold (\<lambda>e. lfn_collect e 256) (lfn_entries chk name) ucs) = name @ [0]"
proof (rule nth_equalityI)
  have len: "length (fold (\<lambda>e. lfn_collect e 256) es ucs) = 256" for es
    using assms(3) by (induction es rule: rev_induct) simp_all
  then show *: "length (take (Suc (length name)) (fold (\<lambda>e. lfn_collect e 256) (lfn_entries chk name) ucs)) = length (name @ [0])"
    using assms(1) by simp
  fix i
  assume "i < length (take (Suc (length name)) (fold (\<lambda>e. lfn_collect e 256) (lfn_entries chk name) ucs))"
  then have i: "i \<le> length name" unfolding * by simp
  have "0 < lfn_count name" using assms(2) by (cases name) (simp_all add: lfn_count_def)
  then show "take (Suc (length name)) (fold (\<lambda>e. lfn_collect e 256) (lfn_entries chk name) ucs) ! i = (name @ [0]) ! i"
    using lfn_fold [OF assms(1,3) order_refl _ i] i by (simp add: lfn_entries_def)
qed

theorem lfn_roundtrip_witness:
  "take 16 (fold (\<lambda>e. lfn_collect e 256) (lfn_entries 0 (replicate 15 0x61)) (replicate 256 7)) = replicate 15 0x61 @ [0]"
  using lfn_roundtrip [of "replicate 15 0x61" "replicate 256 7" 0] by simp

text \<open>
  C20. No directory entry, however corrupt, makes \<open>dir_next\<close> write outside the caller's name buffer: the handling of a long
  name entry stores within the first \<open>ucs_max\<close> characters and nowhere else, for every content of the entry.
\<close>
theorem lfn_collect_in_bounds:
  assumes "length e = 32" "ucs_max \<le> length ucs"
  shows "length (lfn_collect e ucs_max ucs) = length ucs \<and> drop ucs_max (lfn_collect e ucs_max ucs) = drop ucs_max ucs"
proof (cases rule: lfn_collect_cases [of e ucs_max ucs])
  case (store k)
  define len where "len = lfn_len (e ! 0 AND 0x40 \<noteq> 0) (Suc k) (13 * k) ucs_max"
  have "13 * k + len \<le> ucs_max" using lfn_len_le [OF store(3)] by (simp add: len_def)
  then show ?thesis
    unfolding lfn_collect_blit [OF assms store len_def] by (auto simp: drop_blit lfn_nul_def)
qed simp

theorem lfn_collect_in_bounds_witness:
  "drop 20 (lfn_collect (replicate 32 0x42) 20 (replicate 30 7)) = replicate 10 7"
  using lfn_collect_in_bounds [of "replicate 32 0x42" 20 "replicate 30 7"] by simp

lemma ucs2_compare_terminated:
  "0 \<notin> set a \<Longrightarrow> 0 \<notin> set b \<Longrightarrow> length a < n \<Longrightarrow>
   \<exists>d. ucs2_compare (a @ 0 # xs) (b @ 0 # ys) n = Some d \<and> (d = 0 \<longleftrightarrow> a = b)"
proof (induction a arbitrary: b n)
  case Nil
  then obtain m where "n = Suc m" by (cases n) auto
  then show ?case using Nil by (cases b) (auto simp: uint_0_iff)
next
  case (Cons x a)
  then obtain m where m: "n = Suc m" by (cases n) auto
  show ?case
  proof (cases b)
    case Nil
    then show ?thesis using Cons.prems m by (auto simp: uint_0_iff)
  next
    case (Cons y b')
    then show ?thesis using Cons.IH [of b' m] Cons.prems m by (auto simp: word_uint_eq_iff)
  qed
qed

lemma ucast_u8_u16: "ucast (ucast (x :: u8) :: u16) = x"
  by (rule bit_word_eqI) (simp add: bit_simps)

lemma ucast_0_u8: "(ucast (x :: u8) :: u16) = 0 \<longleftrightarrow> x = 0"
  by (metis ucast_0 ucast_u8_u16)

lemma ucs2_char_compare_eq:
  "ucs2_char_compare us s n = ucs2_compare us (map ucast s) n"
proof (induction us s n rule: ucs2_char_compare.induct)
  case (2 c1 ucs1 c2 s2 len)
  have "uint (ucast c2 :: u16) = uint c2" by (simp add: uint_up_ucast is_up)
  then show ?case using 2 by simp
qed simp_all

text \<open>
  Name lookup is exact: comparing a stored name with a name sought, both closed by a terminator, reads neither past its
  terminator and gives zero exactly when they are the same sequence of characters; the comparison of an ASCII name with a
  stored name agrees with the one of two 16-bit names.
\<close>
theorem name_compare_exact:
  assumes "0 \<notin> set a" "0 \<notin> set b" "0 \<notin> set s" "length a < n"
  shows "\<exists>d d'. ucs2_compare (a @ 0 # xs) (b @ 0 # ys) n = Some d \<and> (d = 0 \<longleftrightarrow> a = b) \<and>
     ucs2_char_compare (a @ 0 # xs) (s @ 0 # zs) n = Some d' \<and> (d' = 0 \<longleftrightarrow> a = map ucast s)"
proof -
  have z: "0 \<notin> set (map ucast s :: u16 list)" using assms(3) using ucast_0_u8 by auto
  have "map ucast (s @ 0 # zs) = (map ucast s :: u16 list) @ 0 # map ucast zs" by simp
  then show ?thesis
    using ucs2_compare_terminated [OF assms(1,2,4), of xs ys]
      ucs2_compare_terminated [OF assms(1) z assms(4), of xs "map ucast zs"]
    unfolding ucs2_char_compare_eq by metis
qed

theorem name_compare_exact_witness:
  "ucs2_char_compare [0x61, 0x62, 0, 7] [0x61, 0x62, 0] 0xffffffff = Some 0"
  using name_compare_exact [where a = "[0x61, 0x62]" and b = "[0x61, 0x62]" and s = "[0x61, 0x62]" and n = "0xffffffff"
      and xs = "[7]" and ys = "[]" and zs = "[]"] by auto

lemma log2_loop_bounds:
  assumes "n \<noteq> 0" "unat shift + j < 256" "unat n < 2 ^ j"
  shows "\<exists>k. unat (log2_loop n shift) = unat shift + k \<and> 2 ^ k \<le> unat n \<and> unat n < 2 * 2 ^ k \<and> k < j"
  using assms
proof (induction n shift arbitrary: j rule: log2_loop.induct)
  case (1 n shift)
  show ?case
  proof (cases "n > 1")
    case False
    then have "unat n \<le> 1" by (simp add: word_less_nat_alt)
    moreover have "unat n \<noteq> 0" using "1.prems"(1) by (simp add: unat_eq_0)
    ultimately have "unat n = 1" by linarith
    then show ?thesis using "1.prems" False by (intro exI [of _ 0]) (cases j; auto simp: log2_loop.simps)
  next
    case True
    then have n: "unat n \<ge> 2" by (simp add: word_less_nat_alt)
    have h: "unat (drop_bit 1 n) = unat n div 2" by (simp add: drop_bit_eq_div unat_div)
    obtain j' where j: "j = Suc j'" using n "1.prems"(3) by (cases j) auto
    have s: "unat (shift + 1) = Suc (unat shift)" using "1.prems"(2) j by (simp add: unat_word_ariths)
    have "unat (drop_bit 1 n) \<noteq> 0" unfolding h using n by simp
    then have "drop_bit 1 n \<noteq> 0" by auto
    then obtain k where k: "unat (log2_loop (drop_bit 1 n) (shift + 1)) = unat (shift + 1) + k" "2 ^ k \<le> unat n div 2"
      "unat n div 2 < 2 * 2 ^ k" "k < j'"
    proof -
      have "unat n div 2 < 2 ^ j'" using "1.prems"(3) j by auto
      then show ?thesis using that "1.IH" [OF True, of j'] "1.prems" s h j \<open>drop_bit 1 n \<noteq> 0\<close> by auto
    qed
    have "unat (log2_loop n shift) = unat shift + Suc k" using k(1) s True by (subst log2_loop.simps) simp
    moreover have "2 ^ Suc k \<le> unat n \<and> unat n < 2 * 2 ^ Suc k" using k(2,3) by auto
    ultimately show ?thesis using k(4) j by blast
  qed
qed

text \<open>
  \<open>floor_log2\<close> is the binary logarithm: for every non-zero 16-bit value the result is the exponent of the largest power
  of two not above it, hence at most fifteen, and exact on powers of two.
\<close>
theorem floor_log2_correct:
  assumes "n \<noteq> 0"
  shows "2 ^ unat (floor_log2 n) \<le> unat n \<and> unat n < 2 * 2 ^ unat (floor_log2 n) \<and> floor_log2 n < 16"
  using log2_loop_bounds [OF assms, of 0 16] unsigned_less [of n]
  by (auto simp: floor_log2_def word_less_nat_alt)

theorem floor_log2_correct_witness: "2 ^ unat (floor_log2 512) \<le> (512 :: nat) \<and> floor_log2 512 < 16"
  using floor_log2_correct [of 512] by simp

lemma chs_limits:
  assumes "h < nheads \<and> s \<noteq> 0 \<and> s \<le> nsecs"
  shows "unat (c :: u16) \<le> 65535" "unat (nheads :: u8) \<le> 255" "unat h < unat nheads" "unat (nsecs :: u8) \<le> 255"
    "unat s \<noteq> 0" "unat s \<le> unat nsecs"
  using unsigned_less [of c, where 'a = nat] unsigned_less [of nheads, where 'a = nat] unsigned_less [of nsecs, where 'a = nat] assms
  by (auto simp: word_less_nat_alt word_le_nat_alt unat_eq_0)

lemma chs_total:
  assumes "unat (c :: u16) \<le> 65535" "unat (nheads :: u8) \<le> 255" "unat h < unat nheads" "unat (nsecs :: u8) \<le> 255" "unat s \<le> unat nsecs"
  shows "(unat c * unat nheads + unat h) * unat nsecs + unat s < 0xffffffff"
proof -
  have "unat c * unat nheads \<le> 65535 * 255" by (rule mult_le_mono) (use assms in auto)
  then have ch: "unat c * unat nheads + unat h \<le> 65536 * 255" using assms by linarith
  have "(unat c * unat nheads + unat h) * unat nsecs \<le> (65536 * 255) * 255" by (rule mult_le_mono) (use assms ch in auto)
  moreover have "(65536 * 255) * 255 + 255 < (0xffffffff :: nat)" by simp
  ultimately show ?thesis using assms by linarith
qed

lemma len_num: "2 ^ LENGTH(32) = (0x100000000 :: nat)"
  by simp

lemma chs_value:
  assumes "h < nheads \<and> s \<noteq> 0 \<and> s \<le> nsecs"
    and X: "X = (unat c * unat nheads + unat h) * unat nsecs"
  shows "unat (chs_to_lba c h s nheads nsecs) = X + (unat s - 1)" "X + unat s < 0xffffffff"
proof -
  note l = chs_limits [OF assms(1)]
  show t: "X + unat s < 0xffffffff" unfolding X by (rule chs_total [OF l(1-4,6)])
  have "\<not> (h \<ge> nheads \<or> s = 0 \<or> s > nsecs)" using assms(1) by auto
  moreover have "ucast s - 1 = (of_nat (unat s - 1) :: u32)" using l(5) by (simp add: of_nat_diff Suc_le_eq)
  moreover have "(ucast c * ucast nheads + ucast h) * ucast nsecs = (of_nat X :: u32)" by (simp add: X)
  ultimately have "chs_to_lba c h s nheads nsecs = of_nat (X + (unat s - 1))"
    unfolding chs_to_lba_def by (simp only: if_False of_nat_add)
  moreover have "X + (unat s - 1) < 2 ^ LENGTH(32)" using t unfolding len_num by linarith
  ultimately show "unat (chs_to_lba c h s nheads nsecs) = X + (unat s - 1)" by (simp only: unat_of_nat mod_less)
qed

text \<open>
  The conversion of a cylinder/head/sector address into a block number does not overflow and loses nothing: for every
  valid address in every geometry the three parts are the remainders and the quotient of the block number; an invalid
  head or sector gives the reserved value \<open>UINT32_MAX\<close>, which no valid address has.
\<close>
theorem chs_roundtrip:
  "(h < nheads \<and> s \<noteq> 0 \<and> s \<le> nsecs \<longrightarrow>
     (let lba = unat (chs_to_lba c h s nheads nsecs) in
      unat s = Suc (lba mod unat nsecs) \<and> unat h = lba div unat nsecs mod unat nheads \<and> unat c = lba div unat nsecs div unat nheads)) \<and>
   (chs_to_lba c h s nheads nsecs = 0xffffffff \<longleftrightarrow> \<not> (h < nheads \<and> s \<noteq> 0 \<and> s \<le> nsecs))"
proof (cases "h < nheads \<and> s \<noteq> 0 \<and> s \<le> nsecs")
  case True
  note l = chs_limits [OF True]
  define Y where "Y = unat c * unat nheads + unat h"
  define X where "X = Y * unat nsecs"
  note v = chs_value [OF True X_def [unfolded Y_def]]
  have "unat s - 1 < unat nsecs" using l(5,6) by linarith
  then have d: "(X + (unat s - 1)) div unat nsecs = Y" "(X + (unat s - 1)) mod unat nsecs = unat s - 1"
    by (simp_all add: X_def)
  have y: "Y div unat nheads = unat c" "Y mod unat nheads = unat h" using l(3) by (simp_all add: Y_def)
  have "chs_to_lba c h s nheads nsecs \<noteq> 0xffffffff"
  proof
    assume "chs_to_lba c h s nheads nsecs = 0xffffffff"
    then have "unat (chs_to_lba c h s nheads nsecs) = 0xffffffff" by simp
    then show False using v by linarith
  qed
  then show ?thesis using True l(5) unfolding Let_def v(1) d y by simp
qed (auto simp: chs_to_lba_def not_le not_less)

theorem chs_roundtrip_witness:
  "unat (chs_to_lba 5 3 2 255 63) mod 63 = 1 \<and> unat (chs_to_lba 5 3 2 255 63) div 63 mod 255 = 3"
  using chs_roundtrip [of 3 255 2 63 5] by (simp add: Let_def)

end
