(* ===== verification/Fat_Fs.thy ===== *)
theory Fat_Fs
  imports Fat_Object Fat_Names
begin

unbundle bit_operations_syntax

text \<open>
  The operations of the FAT32 layer (\<open>fileSysUtils\<close> in \<open>filesys-utils.hh\<close>) on a mounted volume: mounting and
  unmounting, the handles of open files and directories, traversal of a directory and lookup of a name. Every operation
  that reads takes the reader \<open>rd\<close> of the card and returns \<open>None\<close> when it does not return: the driver never answers or
  memory outside an array is accessed. Objects of the caller (the \<open>dirEntry\<close>, the name buffer) are passed and returned.
\<close>

section \<open>Mounting\<close>

text \<open>The loop over the partition table looks at the first descriptor only (\<open>part < 1u\<close>). The block of the volume's
  first sector.\<close>

definition find_partition :: "u8 list \<Rightarrow> u32 option" where
  "find_partition buf =
    (let partDesc = 0x1be;
         part_type = buf ! (partDesc + 4);
         lba_start = read32le buf (partDesc + 8);
         (start_c, start_h, start_s) = read_chs buf (partDesc + 1)
     in if part_type = 0x0b then Some (chs_to_lba start_c start_h start_s 255 63)
        else if part_type = 0x0c then Some lba_start
        else None)"

text \<open>The parameters of the volume from its first sector; the result is \<open>partValid\<close>.\<close>

definition read_params :: "u8 list \<Rightarrow> u32 \<Rightarrow> fileSysUtils \<Rightarrow> fileSysUtils" where
  "read_params buf blk_offset fs =
    (let bytesPerSector = read16le buf 0xb;
         secsPerCluster = buf ! 0xd;
         resvdSectors = read16le buf 0xe;
         numFATs = buf ! 0x10;
         secsPerFAT = read32le buf 0x24;
         root = read32le buf 0x2c;
         bps = floor_log2 bytesPerSector;
         spc = floor_log2 (ucast secsPerCluster);
         fatOffset = ucast resvdSectors;
         clusterHeapOffset = push_bit (unat bps) (ucast resvdSectors + ucast numFATs * secsPerFAT) div fs_kBlockLen;
         rootStart' = push_bit (unat bps) (push_bit (unat spc) (root - 2)) div fs_kBlockLen + (blk_offset + clusterHeapOffset);
         valid = \<not> (bps < 9 \<or> bps > 12) \<and> \<not> (int (unat spc) > 25 - int (unat bps));
         fs = fs\<lparr>rootCluster := root, bytesPerSectorShift := bps, secsPerClusterShift := spc, blksPerClusterShift := spc,
                 rootStart := rootStart', clusterHeapStart := blk_offset + clusterHeapOffset,
                 fatStart := blk_offset + fatOffset, partValid := valid\<rparr>
     in if valid then
          let bytes = push_bit (unat spc + unat bps) 1
          in fs\<lparr>clusterBytes := bytes, clusterMask := bytes - 1\<rparr>
        else fs)"

text \<open>The verdict of the second read is ignored.\<close>

definition fs_init :: "'m block_read \<Rightarrow> fileSysUtils \<Rightarrow> 'm \<Rightarrow> (bool \<times> fileSysUtils \<times> 'm) option" where
  "fs_init rd fs m = do {
     (ok, data, m) \<leftarrow> rd 0 m;
     let fs = fs\<lparr>dataBuffer := blit (dataBuffer fs) 0 data\<rparr>;
     if \<not> ok then Some (False, fs, m)
     else if dataBuffer fs ! 0x1fe \<noteq> 0x55 \<or> dataBuffer fs ! 0x1ff \<noteq> 0xaa then Some (False, fs, m)
     else case find_partition (dataBuffer fs) of
       None \<Rightarrow> Some (False, fs, m)
     | Some blk_offset \<Rightarrow> do {
         (_, data, m) \<leftarrow> rd blk_offset m;
         let fs = fs\<lparr>dataBuffer := blit (dataBuffer fs) 0 data\<rparr>;
         let fs = read_params (dataBuffer fs) blk_offset fs;
         Some (partValid fs, fs, m) } }"

definition fs_fin :: "fileSysUtils \<Rightarrow> fileSysUtils" where
  "fs_fin fs = fs\<lparr>files := map (\<lambda>f. f\<lparr>oflags := 0\<rparr>) (files fs), dirs := map (\<lambda>d. d\<lparr>oflags := 0\<rparr>) (dirs fs),
     blockCache := map (\<lambda>e. e\<lparr>ce_block := kInvalidBlock\<rparr>) (blockCache fs), blockCacheNext := 0, partValid := False\<rparr>"

section \<open>Handles\<close>

definition kInvalidFileHandle :: u8 where "kInvalidFileHandle = 0xff"
definition kInvalidDirHandle :: u8 where "kInvalidDirHandle = 0xff"

definition dh_valid :: "fileSysUtils \<Rightarrow> u8 \<Rightarrow> bool" where
  "dh_valid fs dh \<longleftrightarrow> unat dh < kMaxDirs \<and> oflags (dirs fs ! unat dh) AND Flag_Valid \<noteq> 0"

definition fh_valid :: "fileSysUtils \<Rightarrow> u8 \<Rightarrow> bool" where
  "fh_valid fs fh \<longleftrightarrow> unat fh < kMaxFiles \<and> oflags (files fs ! unat fh) AND Flag_Valid \<noteq> 0"

text \<open>The search for a slot that is not in use, in \<open>dir_open\<close> and \<open>file_open\<close>.\<close>

fun free_slot :: "nat \<Rightarrow> objState list \<Rightarrow> nat option" where
  "free_slot i [] = None"
| "free_slot i (ob # obs) = (if oflags ob AND Flag_Valid \<noteq> 0 then free_slot (Suc i) obs else Some i)"

definition dir_open :: "u32 \<Rightarrow> fileSysUtils \<Rightarrow> u8 \<times> fileSysUtils" where
  "dir_open cluster fs =
    (case free_slot 0 (take kMaxDirs (dirs fs)) of
       None \<Rightarrow> (kInvalidDirHandle, fs)
     | Some dh \<Rightarrow> (of_nat dh, fs\<lparr>dirs := (dirs fs)[dh :=
         \<lparr>oflags = Flag_Valid, ooffset = 0, olength = NOT 0, currCluster = cluster, firstCluster = cluster\<rparr>]\<rparr>))"

definition rootdir_open :: "fileSysUtils \<Rightarrow> u8 \<times> fileSysUtils" where
  "rootdir_open fs = (if \<not> partValid fs then (kInvalidDirHandle, fs) else dir_open (rootCluster fs) fs)"

definition dir_close :: "u8 \<Rightarrow> fileSysUtils \<Rightarrow> fileSysUtils" where
  "dir_close dh fs =
    (if unat dh < kMaxDirs then fs\<lparr>dirs := (dirs fs)[unat dh := (dirs fs ! unat dh)\<lparr>oflags := 0\<rparr>]\<rparr> else fs)"

definition file_open_entry :: "dirEntry \<Rightarrow> fileSysUtils \<Rightarrow> u8 \<times> fileSysUtils" where
  "file_open_entry entry fs =
    (case free_slot 0 (take kMaxFiles (files fs)) of
       None \<Rightarrow> (kInvalidFileHandle, fs)
     | Some fh \<Rightarrow> (of_nat fh, fs\<lparr>files := (files fs)[fh :=
         \<lparr>oflags = Flag_Valid, ooffset = 0, olength = dataLength entry, currCluster = de_firstCluster entry,
          firstCluster = de_firstCluster entry\<rparr>]\<rparr>))"

definition file_close :: "u8 \<Rightarrow> fileSysUtils \<Rightarrow> fileSysUtils" where
  "file_close fh fs =
    (if fh_valid fs fh then fs\<lparr>files := (files fs)[unat fh := (files fs ! unat fh)\<lparr>oflags := 0\<rparr>]\<rparr> else fs)"

text \<open>\<open>ssize_t\<close> is a signed 32-bit integer.\<close>

definition file_length :: "fileSysUtils \<Rightarrow> u8 \<Rightarrow> int" where
  "file_length fs fh = (if fh_valid fs fh then sint (olength (files fs ! unat fh)) else - 1)"

definition file_seek :: "'m block_read \<Rightarrow> u8 \<Rightarrow> u32 \<Rightarrow> fileSysUtils \<Rightarrow> 'm \<Rightarrow> (bool \<times> fileSysUtils \<times> 'm) option" where
  "file_seek rd fh offset fs m =
    (if \<not> fh_valid fs fh then Some (False, fs, m)
     else do {
       (ok, obj, fs, m) \<leftarrow> object_seek rd (files fs ! unat fh) offset fs m;
       Some (ok, fs\<lparr>files := (files fs)[unat fh := obj]\<rparr>, m) })"

text \<open>The bytes read.\<close>

definition file_read :: "'m block_read \<Rightarrow> u8 \<Rightarrow> nat \<Rightarrow> fileSysUtils \<Rightarrow> 'm \<Rightarrow> (u8 list \<times> fileSysUtils \<times> 'm) option" where
  "file_read rd fh len fs m =
    (if \<not> fh_valid fs fh then Some ([], fs, m)
     else do {
       (data, obj, fs, m) \<leftarrow> object_read rd (files fs ! unat fh) len fs m;
       Some (data, fs\<lparr>files := (files fs)[unat fh := obj]\<rparr>, m) })"

text \<open>The loop of \<open>file_clusters\<close>: the clusters it stores. The file remembers the cluster just stored together with the
  offset behind it.\<close>

fun clusters_loop :: "'m block_read \<Rightarrow> nat \<Rightarrow> nat \<Rightarrow> u32 \<Rightarrow> u32 \<Rightarrow> fileSysUtils \<Rightarrow> 'm \<Rightarrow> (u32 list \<times> fileSysUtils \<times> 'm) option" where
  "clusters_loop rd fh 0 cluster offset fs m = Some ([], fs, m)"
| "clusters_loop rd fh (Suc len) cluster offset fs m =
    (if end_of_chain cluster then Some ([], fs, m)
     else do {
       (nextCluster, fs, m) \<leftarrow> cluster_next rd cluster fs m;
       case nextCluster of
         None \<Rightarrow> Some ([cluster], fs, m)
       | Some nextCluster \<Rightarrow> do {
           let offset = offset + clusterBytes fs;
           let fs = fs\<lparr>files := (files fs)[fh := (files fs ! fh)\<lparr>ooffset := offset, currCluster := cluster\<rparr>]\<rparr>;
           (rest, fs, m) \<leftarrow> clusters_loop rd fh len nextCluster offset fs m;
           Some (cluster # rest, fs, m) } })"

text \<open>The result is \<open>-1\<close> for an invalid handle (\<open>None\<close>), else the shift and the clusters.\<close>

definition file_clusters ::
  "'m block_read \<Rightarrow> u8 \<Rightarrow> nat \<Rightarrow> fileSysUtils \<Rightarrow> 'm \<Rightarrow> ((u8 \<times> u32 list) option \<times> fileSysUtils \<times> 'm) option" where
  "file_clusters rd fh len fs m =
    (if \<not> fh_valid fs fh then Some (None, fs, m)
     else do {
       let f = files fs ! unat fh;
       (cs, fs', m) \<leftarrow> clusters_loop rd (unat fh) len (currCluster f) (ooffset f AND NOT (clusterMask fs)) fs m;
       Some (Some (blksPerClusterShift fs, cs), fs', m) })"

section \<open>Directories\<close>

text \<open>The loop of \<open>dir_next\<close>. The object of the directory is read and updated in place.\<close>

partial_function (option) dir_loop ::
  "'m block_read \<Rightarrow> nat \<Rightarrow> u32 \<Rightarrow> bool \<Rightarrow> u16 list option \<Rightarrow> nat \<Rightarrow> dirEntry \<Rightarrow> fileSysUtils \<Rightarrow> 'm \<Rightarrow>
   (bool \<times> dirEntry \<times> u16 list option \<times> fileSysUtils \<times> 'm) option" where
  "dir_loop rd dh flags hasLFN ucs ucs_max entry fs m = do {
     (dir_entry, obj, fs, m) \<leftarrow> object_read rd (dirs fs ! dh) 0x20 fs m;
     let fs = fs\<lparr>dirs := (dirs fs)[dh := obj]\<rparr>;
     if length dir_entry \<noteq> 0x20 then Some (False, entry, ucs, fs, m)
     else do {
       let etype = dir_entry ! 0;
       let attr = dir_entry ! 0xb;
       let entryFlags = entry_flags hasLFN attr etype;
       let raw = (flags AND DirFlag_Raw \<noteq> 0);
       let lfn = (\<not> raw \<and> attr = 0x0f);
       let ucs = (if lfn then map_option (lfn_collect dir_entry ucs_max) ucs else ucs);
       let entryWanted = (raw \<or> (\<not> lfn \<and> etype \<noteq> 0 \<and> etype \<noteq> 0x2e \<and> include_entry entryFlags flags));
       let hasLFN = (if raw then hasLFN else if lfn then True else if entryWanted then hasLFN else False);
       if entryWanted then do {
         let entry = parse_entry entryFlags dir_entry entry;
         let ucs = (if hasLFN then ucs else map_option (\<lambda>ucs. generate_lfn ucs ucs_max entry) ucs);
         Some (True, entry, ucs, fs, m) }
       else if etype \<noteq> 0 then dir_loop rd dh flags hasLFN ucs ucs_max entry fs m
       else Some (False, entry, ucs, fs, m) } }"

definition dir_next ::
  "'m block_read \<Rightarrow> u8 \<Rightarrow> dirEntry \<Rightarrow> u32 \<Rightarrow> u16 list option \<Rightarrow> nat \<Rightarrow> fileSysUtils \<Rightarrow> 'm \<Rightarrow>
   (bool \<times> dirEntry \<times> u16 list option \<times> fileSysUtils \<times> 'm) option" where
  "dir_next rd dh entry flags ucs ucs_max fs m =
    (if \<not> dh_valid fs dh then Some (False, entry, ucs, fs, m)
     else dir_loop rd (unat dh) flags False ucs ucs_max entry fs m)"

text \<open>The loop both variants of \<open>dir_find\<close> have, with the comparison as a parameter. The name buffer is the block buffer
  of the object, seen as 16-bit units.\<close>

partial_function (option) find_loop ::
  "'m block_read \<Rightarrow> u8 \<Rightarrow> (u16 list \<Rightarrow> int option) \<Rightarrow> dirEntry \<Rightarrow> fileSysUtils \<Rightarrow> 'm \<Rightarrow>
   (bool \<times> dirEntry \<times> fileSysUtils \<times> 'm) option" where
  "find_loop rd dh compare entry fs m = do {
     (ok, entry, ucs, fs, m) \<leftarrow> dir_next rd dh entry DirFlags_Default (Some (u16s (dataBuffer fs))) 0x100 fs m;
     let fs = (case ucs of None \<Rightarrow> fs | Some nameBuffer \<Rightarrow> fs\<lparr>dataBuffer := u16_bytes nameBuffer\<rparr>);
     if \<not> ok then Some (False, entry, fs, m)
     else do {
       d \<leftarrow> compare (u16s (dataBuffer fs));
       if d = 0 then Some (True, entry, fs, m) else find_loop rd dh compare entry fs m } }"

definition dir_find_char ::
  "'m block_read \<Rightarrow> u8 \<Rightarrow> dirEntry \<Rightarrow> u8 list \<Rightarrow> u16 list option \<Rightarrow> nat \<Rightarrow> fileSysUtils \<Rightarrow> 'm \<Rightarrow>
   (bool \<times> dirEntry \<times> u16 list option \<times> fileSysUtils \<times> 'm) option" where
  "dir_find_char rd dh entry name ucs ucs_max fs m =
    (if \<not> dh_valid fs dh then Some (False, entry, ucs, fs, m)
     else do {
       (found, entry, fs, m) \<leftarrow> find_loop rd dh (\<lambda>nameBuffer. ucs2_char_compare nameBuffer name 0xffffffff) entry fs m;
       case ucs of
         Some d \<Rightarrow> if found then do { d \<leftarrow> ucs2_copy d (u16s (dataBuffer fs)) ucs_max; Some (found, entry, Some d, fs, m) }
                   else Some (found, entry, ucs, fs, m)
       | None \<Rightarrow> Some (found, entry, ucs, fs, m) })"

definition dir_find_ucs ::
  "'m block_read \<Rightarrow> u8 \<Rightarrow> dirEntry \<Rightarrow> u16 list \<Rightarrow> fileSysUtils \<Rightarrow> 'm \<Rightarrow> (bool \<times> dirEntry \<times> fileSysUtils \<times> 'm) option" where
  "dir_find_ucs rd dh entry ucs_name fs m =
    (if \<not> dh_valid fs dh then Some (False, entry, fs, m)
     else find_loop rd dh (\<lambda>nameBuffer. ucs2_compare nameBuffer ucs_name 0xffffffff) entry fs m)"

section \<open>Opening a file by name\<close>

text \<open>The body both instances of the template have, with the lookup as a parameter.\<close>

definition file_open_with ::
  "(u8 \<Rightarrow> fileSysUtils \<Rightarrow> 'm \<Rightarrow> (bool \<times> dirEntry \<times> fileSysUtils \<times> 'm) option) \<Rightarrow> fileSysUtils \<Rightarrow> 'm \<Rightarrow>
   (u8 \<times> fileSysUtils \<times> 'm) option" where
  "file_open_with lookup fs m =
    (let (dh, fs) = rootdir_open fs in
     if dh_valid fs dh then do {
       (found, entry, fs, m) \<leftarrow> lookup dh fs m;
       let (fh, fs) = (if found then file_open_entry entry fs else (kInvalidFileHandle, fs));
       Some (fh, dir_close dh fs, m) }
     else Some (kInvalidFileHandle, fs, m))"

text \<open>A leading separator is skipped. \<open>entry\<close> is the uninitialised local variable.\<close>

definition file_open_char :: "'m block_read \<Rightarrow> u8 list \<Rightarrow> dirEntry \<Rightarrow> fileSysUtils \<Rightarrow> 'm \<Rightarrow> (u8 \<times> fileSysUtils \<times> 'm) option" where
  "file_open_char rd name entry fs m =
    (let name = (if name ! 0 = 0x2f \<or> name ! 0 = 0x5c then tl name else name)
     in file_open_with (\<lambda>dh fs m. do {
          (found, entry, _, fs, m) \<leftarrow> dir_find_char rd dh entry name None 0 fs m; Some (found, entry, fs, m) }) fs m)"

definition file_open_ucs :: "'m block_read \<Rightarrow> u16 list \<Rightarrow> dirEntry \<Rightarrow> fileSysUtils \<Rightarrow> 'm \<Rightarrow> (u8 \<times> fileSysUtils \<times> 'm) option" where
  "file_open_ucs rd name entry fs m =
    (let name = (if name ! 0 = 0x2f \<or> name ! 0 = 0x5c then tl name else name)
     in file_open_with (\<lambda>dh. dir_find_ucs rd dh entry name) fs m)"

end
