(* ===== verification/Fat_Live.thy ===== *)
theory Fat_Live
  imports Fat_Fs
begin

unbundle bit_operations_syntax

text \<open>
  What the FAT32 layer promises on every medium, however damaged: the shape of its state is an invariant of all operations, and
  every operation returns, provided the card answers each read, correctly or not.
\<close>

section \<open>The shape of the state\<close>

definition fs_wf :: "fileSysUtils \<Rightarrow> bool" where
  "fs_wf fs \<longleftrightarrow> length (blockCache fs) = kCacheEntries \<and> unat (blockCacheNext fs) < kCacheEntries \<and>
     (\<forall>e \<in> set (blockCache fs). length (ce_buf e) = 512) \<and> length (dataBuffer fs) = 512 \<and>
     length (files fs) = kMaxFiles \<and> length (dirs fs) = kMaxDirs"

lemma fs_wf_simps [simp]:
  "length fl = kMaxFiles \<Longrightarrow> fs_wf fs \<Longrightarrow> fs_wf (fs\<lparr>files := fl\<rparr>)"
  "length dl = kMaxDirs \<Longrightarrow> fs_wf fs \<Longrightarrow> fs_wf (fs\<lparr>dirs := dl\<rparr>)"
  "length b = 512 \<Longrightarrow> fs_wf fs \<Longrightarrow> fs_wf (fs\<lparr>dataBuffer := b\<rparr>)"
  by (simp_all add: fs_wf_def)

lemma fs_wfD [dest]:
  assumes "fs_wf fs"
  shows "length (files fs) = kMaxFiles" "length (dirs fs) = kMaxDirs" "length (dataBuffer fs) = 512"
  using assms by (simp_all add: fs_wf_def)

lemma fs_rest_updates:
  "fs_rest (fs\<lparr>dirs := dl\<rparr>) = (fs_rest fs)\<lparr>dirs := dl\<rparr>" "fs_rest (fs\<lparr>files := fl\<rparr>) = (fs_rest fs)\<lparr>files := fl\<rparr>"
  "fs_rest (fs\<lparr>dataBuffer := b\<rparr>) = (fs_rest fs)\<lparr>dataBuffer := b\<rparr>"
  by (cases fs; simp add: fs_rest_def)+

text \<open>Reading an object advances it by the bytes returned and changes nothing else but the cache.\<close>

definition advanced :: "objState \<Rightarrow> nat \<Rightarrow> objState \<Rightarrow> bool" where
  "advanced obj n obj' \<longleftrightarrow> unat (ooffset obj') = unat (ooffset obj) + n \<and> olength obj' = olength obj \<and>
     firstCluster obj' = firstCluster obj \<and> oflags obj' = oflags obj"

section \<open>Handles in use\<close>

definition open_files :: "fileSysUtils \<Rightarrow> u8 set" where
  "open_files fs = {fh. fh_valid fs fh}"

definition open_dirs :: "fileSysUtils \<Rightarrow> u8 set" where
  "open_dirs fs = {dh. dh_valid fs dh}"

text \<open>What opening a file by name may do to the handles.\<close>

definition opened :: "fileSysUtils \<Rightarrow> u8 \<Rightarrow> fileSysUtils \<Rightarrow> bool" where
  "opened fs fh fs' \<longleftrightarrow> open_dirs fs' = open_dirs fs \<and>
     (fh = kInvalidFileHandle \<and> files fs' = files fs \<or>
      fh \<notin> open_files fs \<and> open_files fs' = insert fh (open_files fs) \<and> (\<forall>i. i \<noteq> unat fh \<longrightarrow> files fs' ! i = files fs ! i))"

lemma free_slot_Some:
  "free_slot i obs = Some j \<Longrightarrow> i \<le> j \<and> j - i < length obs \<and> oflags (obs ! (j - i)) AND Flag_Valid = 0"
proof (induction obs arbitrary: i)
  case (Cons ob obs)
  then show ?case
    by (cases "oflags ob AND Flag_Valid = 0") (auto simp: Suc_diff_le nth_Cons' dest!: Cons.IH)
qed simp

lemma free_slot_None: "free_slot i obs = None \<longleftrightarrow> (\<forall>ob \<in> set obs. oflags ob AND Flag_Valid \<noteq> 0)"
  by (induction obs arbitrary: i) auto

lemma unat_small: "j < 8 \<Longrightarrow> unat (of_nat j :: u8) = j"
  by (simp add: unat_of_nat)

lemma of_nat_small_inject: "j < 8 \<Longrightarrow> (of_nat j = (x :: u8)) = (j = unat x)"
  using unat_small [of j] by (auto simp: word_unat_eq_iff)

text \<open>A slot is taken only when it is free, and every slot that is free can be taken.\<close>

lemma file_open_entry_cases:
  assumes "fs_wf fs" "file_open_entry entry fs = (fh, fs')"
  shows "fh = kInvalidFileHandle \<and> fs' = fs \<and> open_files fs = {fh. unat fh < kMaxFiles} \<or>
     unat fh < kMaxFiles \<and> fh \<notin> open_files fs \<and> fs' = fs\<lparr>files := (files fs)[unat fh :=
         \<lparr>oflags = Flag_Valid, ooffset = 0, olength = dataLength entry, currCluster = de_firstCluster entry,
          firstCluster = de_firstCluster entry\<rparr>]\<rparr>"
proof (cases "free_slot 0 (files fs)")
  case None
  then have "\<forall>i < kMaxFiles. oflags (files fs ! i) AND Flag_Valid \<noteq> 0"
    using fs_wfD(1) [OF assms(1)] by (simp add: free_slot_None)
  then show ?thesis
    using None assms fs_wfD(1) [OF assms(1)] by (auto simp: file_open_entry_def open_files_def fh_valid_def)
next
  case (Some j)
  then have j: "j < 4" "oflags (files fs ! j) AND Flag_Valid = 0"
    using free_slot_Some [OF Some] fs_wfD(1) [OF assms(1)] by (auto simp: kMaxFiles_def)
  then have "fh = of_nat j" "unat fh = j"
    using Some assms fs_wfD(1) [OF assms(1)] unat_small [of j] by (auto simp: file_open_entry_def)
  then show ?thesis
    using Some j assms fs_wfD(1) [OF assms(1)] by (auto simp: file_open_entry_def open_files_def fh_valid_def kMaxFiles_def)
qed

lemma rootdir_open_cases:
  assumes "fs_wf fs" "rootdir_open fs = (dh, fs')"
  shows "dh = kInvalidDirHandle \<and> fs' = fs \<or>
     unat dh < kMaxDirs \<and> dh \<notin> open_dirs fs \<and> fs' = fs\<lparr>dirs := (dirs fs)[unat dh :=
         \<lparr>oflags = Flag_Valid, ooffset = 0, olength = NOT 0, currCluster = rootCluster fs, firstCluster = rootCluster fs\<rparr>]\<rparr>"
proof (cases "free_slot 0 (dirs fs)")
  case None
  then show ?thesis
    using assms fs_wfD(2) [OF assms(1)] by (auto simp: rootdir_open_def dir_open_def split: if_splits)
next
  case (Some j)
  then have j: "j < 2" "oflags (dirs fs ! j) AND Flag_Valid = 0"
    using free_slot_Some [OF Some] fs_wfD(2) [OF assms(1)] by (auto simp: kMaxDirs_def)
  then have "unat (of_nat j :: u8) = j" using unat_small [of j] by simp
  then show ?thesis
    using Some j assms fs_wfD(2) [OF assms(1)] by (auto simp: rootdir_open_def dir_open_def open_dirs_def dh_valid_def kMaxDirs_def split: if_splits)
qed

text \<open>The comparison reads no more than the buffer.\<close>

definition comparable :: "(u16 list \<Rightarrow> int option) \<Rightarrow> bool" where
  "comparable compare \<longleftrightarrow> (\<forall>us. length us = 256 \<longrightarrow> compare us \<noteq> None)"

text \<open>A card that answers: some verdict, at most a block of bytes.\<close>

locale responsive =
  fixes rd :: "'m block_read"
    and good :: "'m \<Rightarrow> bool"
  assumes answers: "good m \<Longrightarrow> \<exists>ok data m'. rd b m = Some (ok, data, m') \<and> good m'"
begin

lemma block_ensure_answers:
  assumes "good m" "fs_wf fs"
  shows "\<exists>idx fs' m'. block_ensure rd b fs m = Some (idx, fs', m') \<and> good m' \<and> fs_wf fs' \<and> fs_rest fs' = fs_rest fs \<and>
     (\<forall>i. idx = Some i \<longrightarrow> i < kCacheEntries)"
proof (cases "cache_find b 0 (blockCache fs)")
  case None
  obtain ok data m' where m': "rd b m = Some (ok, data, m')" "good m'" using answers [OF assms(1)] by blast
  define idx where "idx = unat (blockCacheNext fs)"
  define e where "e = (blockCache fs ! idx)\<lparr>ce_buf := blit (ce_buf (blockCache fs ! idx)) 0 data\<rparr>"
  have idx: "idx < 8" "length (blockCache fs) = 8" "length (ce_buf (blockCache fs ! idx)) = 512"
    using assms(2) by (auto simp: fs_wf_def kCacheEntries_def idx_def)
  have wf: "fs_wf (fs\<lparr>blockCache := (blockCache fs)[idx := e']\<rparr>)" if "length (ce_buf e') = 512" for e'
  proof -
    have "set ((blockCache fs)[idx := e']) \<subseteq> insert e' (set (blockCache fs))" by (rule set_update_subset_insert)
    then show ?thesis using assms(2) that by (auto simp: fs_wf_def)
  qed
  show ?thesis
  proof (cases ok)
    case True
    define n where "n = (if blockCacheNext fs + 1 \<ge> of_nat kCacheEntries then 0 else blockCacheNext fs + 1)"
    have "unat n < 8" by (auto simp: n_def kCacheEntries_def word_less_nat_alt not_le)
    then have "fs_wf (fs\<lparr>blockCache := (blockCache fs)[idx := e\<lparr>ce_block := b\<rparr>], blockCacheNext := n\<rparr>)"
      using wf [of "e\<lparr>ce_block := b\<rparr>"] idx by (simp add: fs_wf_def e_def kCacheEntries_def)
    moreover have "block_ensure rd b fs m = Some (Some idx, fs\<lparr>blockCache := (blockCache fs)[idx := e\<lparr>ce_block := b\<rparr>], blockCacheNext := n\<rparr>, m')"
      using None m'(1) idx True by (simp add: block_ensure_def idx_def [symmetric] e_def n_def Let_def kCacheEntries_def)
    ultimately show ?thesis using m'(2) idx(1) by (simp add: fs_rest_def kCacheEntries_def)
  next
    case False
    then have "block_ensure rd b fs m = Some (None, fs\<lparr>blockCache := (blockCache fs)[idx := e]\<rparr>, m')"
      using None m'(1) idx by (simp add: block_ensure_def idx_def [symmetric] e_def Let_def kCacheEntries_def)
    then show ?thesis using m'(2) wf [of e] idx(3) by (simp add: fs_rest_def e_def)
  qed
next
  case (Some idx)
  then have "idx < length (blockCache fs)" using cache_find_Some [OF Some] by auto
  with Some assms show ?thesis by (auto simp: block_ensure_def fs_wf_def)
qed

lemma cluster_next_answers:
  assumes "good m" "fs_wf fs"
  shows "\<exists>nc fs' m'. cluster_next rd c fs m = Some (nc, fs', m') \<and> good m' \<and> fs_wf fs' \<and> fs_rest fs' = fs_rest fs"
proof -
  define b where "b = fatStart fs + drop_bit kBytesPerBlockShift (push_bit 2 c)"
  obtain idx fs' m' where "block_ensure rd b fs m = Some (idx, fs', m')" "good m'" "fs_wf fs'" "fs_rest fs' = fs_rest fs"
    using block_ensure_answers [OF assms] by blast
  then show ?thesis by (cases idx) (simp_all add: cluster_next_def Let_def b_def)
qed

lemma chunk_pos: "0 < len \<Longrightarrow> ooffset obj < olength obj \<Longrightarrow>
   0 < chunk_len obj len \<and> chunk_len obj len \<le> len \<and> unat (ooffset obj) mod 512 + chunk_len obj len \<le> 512 \<and>
   unat (ooffset obj) + chunk_len obj len \<le> unat (olength obj)"
  using mod_less_divisor [of 512 "unat (ooffset obj)"] by (auto simp: chunk_len_nat word_less_nat_alt)

lemma object_read_answers:
  assumes "good m" "fs_wf fs"
  shows "\<exists>bs obj' fs' m'. object_read rd obj len fs m = Some (bs, obj', fs', m') \<and> good m' \<and> fs_wf fs' \<and> fs_rest fs' = fs_rest fs \<and>
     length bs \<le> len \<and> advanced obj (length bs) obj'"
  using assms
proof (induction "unat (olength obj) - unat (ooffset obj)" arbitrary: obj len fs m rule: less_induct)
  case less
  show ?case
  proof (cases "0 < len \<and> ooffset obj < olength obj")
    case False
    then show ?thesis using less.prems by (subst object_read.simps) (auto simp: advanced_def)
  next
    case True
    then have go: "(0 < len \<and> ooffset obj < olength obj) = True" by simp
    define b where "b = block_number fs (currCluster obj) (ooffset obj AND clusterMask fs)"
    define n where "n = chunk_len obj len"
    have n: "0 < n" "n \<le> len" "unat (ooffset obj) mod 512 + n \<le> 512" "unat (ooffset obj) + n \<le> unat (olength obj)"
      using chunk_pos True by (auto simp: n_def)
    have off: "unat (ooffset obj + of_nat n) = unat (ooffset obj) + n"
    proof -
      have "unat (ooffset obj) + n < 2 ^ LENGTH(32)" using n(4) unsigned_less [of "olength obj", where 'a = nat] by linarith
      moreover have "ooffset obj + of_nat n = of_nat (unat (ooffset obj) + n)" by simp
      ultimately show ?thesis by (simp only: unat_of_nat mod_less)
    qed
    obtain idx fs1 m1 where 1: "block_ensure rd b fs m = Some (idx, fs1, m1)" "good m1" "fs_wf fs1" "fs_rest fs1 = fs_rest fs"
      "\<forall>i. idx = Some i \<longrightarrow> i < kCacheEntries"
      using block_ensure_answers [OF less.prems] by blast
    show ?thesis
    proof (cases idx)
      case None
      then show ?thesis using 1 less.prems
        by (subst object_read.simps) (simp add: go b_def [symmetric] Let_def advanced_def del: not_gr_zero)
    next
      case (Some i)
      define look where "look = (if (ooffset obj + of_nat n) AND clusterMask fs1 = 0 \<and> olength obj > ooffset obj + of_nat n
              then cluster_next rd (currCluster obj) fs1 m1 else Some (Some (currCluster obj), fs1, m1))"
      obtain nc fs2 m2 where 2: "look = Some (nc, fs2, m2)" "good m2" "fs_wf fs2" "fs_rest fs2 = fs_rest fs"
        using cluster_next_answers [OF 1(2,3)] 1(2-4) unfolding look_def by (metis (no_types, lifting))
      show ?thesis
      proof (cases nc)
        case None
        then show ?thesis using 1 2 Some
          by (subst object_read.simps) (simp add: go b_def [symmetric] n_def [symmetric] look_def [symmetric] Let_def advanced_def del: not_gr_zero)
      next
        case (Some c)
        define ob where "ob = obj\<lparr>currCluster := c, ooffset := ooffset obj + of_nat n\<rparr>"
        have "unat (olength ob) - unat (ooffset ob) < unat (olength obj) - unat (ooffset obj)"
          using n True by (simp add: ob_def off word_less_nat_alt)
        from less.hyps [OF this 2(2,3), of "len - n"] obtain bs obj' fs' m' where
          3: "object_read rd ob (len - n) fs2 m2 = Some (bs, obj', fs', m')" "good m'" "fs_wf fs'" "fs_rest fs' = fs_rest fs2"
            "length bs \<le> len - n" "advanced ob (length bs) obj'"
          by blast
        have "i < kCacheEntries" using 1(5) \<open>idx = Some i\<close> by simp
        then have "length (ce_buf (blockCache fs2 ! i)) = 512" using 2(3) by (auto simp: fs_wf_def)
        then have l: "length (take n (drop (unat (ooffset obj AND (fs_kBlockLen - 1))) (ce_buf (blockCache fs2 ! i)))) = n"
          using n(3) by (simp add: unat_block_offset)
        define data where "data = take n (drop (unat (ooffset obj AND (fs_kBlockLen - 1))) (ce_buf (blockCache fs2 ! i)))"
        have "object_read rd obj len fs m = Some (data @ bs, obj', fs', m')"
          using 1(1) 2(1) 3(1) Some \<open>idx = Some i\<close>
          by (subst object_read.simps)
            (simp add: go b_def [symmetric] n_def [symmetric] look_def [symmetric] ob_def [symmetric] data_def [symmetric] Let_def del: not_gr_zero)
        then show ?thesis using 2 3 n l by (simp add: data_def [symmetric] advanced_def ob_def off)
      qed
    qed
  qed
qed

lemma seek_loop_answers:
  assumes "good m" "fs_wf fs" "clusterBytes fs \<noteq> 0"
  shows "\<exists>r fs' m'. seek_loop rd offset c co fs m = Some (r, fs', m') \<and> good m' \<and> fs_wf fs' \<and> fs_rest fs' = fs_rest fs"
  using assms
proof (induction "unat (offset - co)" arbitrary: c co fs m rule: less_induct)
  case less
  show ?case
  proof (cases "offset - co \<ge> clusterBytes fs")
    case False
    then show ?thesis using less.prems by (subst seek_loop.simps) simp
  next
    case True
    obtain nc fs1 m1 where 1: "cluster_next rd c fs m = Some (nc, fs1, m1)" "good m1" "fs_wf fs1" "fs_rest fs1 = fs_rest fs"
      using cluster_next_answers [OF less.prems(1,2)] by blast
    show ?thesis
    proof (cases nc)
      case None
      then show ?thesis using 1 True by (subst seek_loop.simps) simp
    next
      case (Some c')
      have "offset - (co + clusterBytes fs) = (offset - co) - clusterBytes fs" by simp
      then have "unat (offset - (co + clusterBytes fs)) = unat (offset - co) - unat (clusterBytes fs)"
        using True by (simp only: unat_sub)
      moreover have "0 < unat (clusterBytes fs)" "unat (clusterBytes fs) \<le> unat (offset - co)"
        using less.prems(3) True by (simp_all add: unat_gt_0 word_le_nat_alt)
      ultimately have "unat (offset - (co + clusterBytes fs)) < unat (offset - co)" by linarith
      moreover have "clusterBytes fs1 \<noteq> 0" using less.prems(3) fs_rest_eqD(3) [OF 1(4)] by simp
      ultimately obtain r fs' m' where "seek_loop rd offset c' (co + clusterBytes fs) fs1 m1 = Some (r, fs', m')" "good m'" "fs_wf fs'"
        "fs_rest fs' = fs_rest fs1"
        using less.hyps [OF _ 1(2,3)] by blast
      then show ?thesis using 1 True Some by (subst seek_loop.simps) simp
    qed
  qed
qed

lemma object_seek_answers:
  assumes "good m" "fs_wf fs" "clusterBytes fs \<noteq> 0"
  shows "\<exists>ok obj' fs' m'. object_seek rd obj offset fs m = Some (ok, obj', fs', m') \<and> good m' \<and> fs_wf fs' \<and> fs_rest fs' = fs_rest fs"
proof -
  define p where "p = (if offset < ooffset obj AND NOT (clusterMask fs) then (firstCluster obj, 0) else (currCluster obj, ooffset obj AND NOT (clusterMask fs)))"
  obtain c co where p: "p = (c, co)" by (cases p)
  obtain r fs' m' where "seek_loop rd offset c co fs m = Some (r, fs', m')" "good m'" "fs_wf fs'" "fs_rest fs' = fs_rest fs"
    using seek_loop_answers [OF assms] by blast
  then show ?thesis
    using assms(1,2) by (cases r; cases "offset > olength obj") (auto simp: object_seek_def Let_def p_def [symmetric] p)
qed

text \<open>A traversal moves its directory forward and leaves every other object alone.\<close>

definition traversed :: "nat \<Rightarrow> fileSysUtils \<Rightarrow> nat \<Rightarrow> fileSysUtils \<Rightarrow> bool" where
  "traversed dh fs n fs' \<longleftrightarrow> fs_rest (fs'\<lparr>dirs := []\<rparr>) = fs_rest (fs\<lparr>dirs := []\<rparr>) \<and>
     (\<exists>obj'. dirs fs' = (dirs fs)[dh := obj'] \<and> advanced (dirs fs ! dh) n obj')"

lemma traversed_trans:
  assumes "traversed dh fs n fs1" "traversed dh fs1 k fs2" "dh < length (dirs fs)"
  shows "traversed dh fs (n + k) fs2"
proof -
  obtain ob where ob: "dirs fs1 = (dirs fs)[dh := ob]" "advanced (dirs fs ! dh) n ob" using assms(1) by (auto simp: traversed_def)
  obtain ob' where ob': "dirs fs2 = (dirs fs1)[dh := ob']" "advanced (dirs fs1 ! dh) k ob'" using assms(2) by (auto simp: traversed_def)
  have "dirs fs2 = (dirs fs)[dh := ob']" using ob(1) ob'(1) by simp
  moreover have "advanced (dirs fs ! dh) (n + k) ob'" using ob ob'(2) assms(3) by (simp add: advanced_def)
  ultimately show ?thesis using assms(1,2) by (auto simp: traversed_def)
qed

lemma length_generate_lfn [simp]: "length (generate_lfn ucs ucs_max e) = length ucs"
  by (simp add: generate_lfn_def Let_def)

lemma dir_loop_answers:
  assumes "good m" "fs_wf fs" "dh < kMaxDirs"
  shows "\<exists>ok entry' ucs' fs' m' n. dir_loop rd dh flags lfn ucs ucs_max entry fs m = Some (ok, entry', ucs', fs', m') \<and> good m' \<and> fs_wf fs' \<and>
     map_option length ucs' = map_option length ucs \<and> traversed dh fs n fs' \<and> (ok \<longrightarrow> 32 \<le> n)"
  using assms
proof (induction "2 ^ 32 - unat (ooffset (dirs fs ! dh))" arbitrary: lfn ucs entry fs m rule: less_induct)
  case less
  obtain bs ob fs1 m1 where 1: "object_read rd (dirs fs ! dh) 0x20 fs m = Some (bs, ob, fs1, m1)" "good m1" "fs_wf fs1" "fs_rest fs1 = fs_rest fs"
    "length bs \<le> 0x20" "advanced (dirs fs ! dh) (length bs) ob"
    using object_read_answers [OF less.prems(1,2)] by blast
  define fs2 where "fs2 = fs1\<lparr>dirs := (dirs fs1)[dh := ob]\<rparr>"
  have d: "dirs fs1 = dirs fs" by (rule fs_rest_eqD(7) [OF 1(4)])
  have wf2: "fs_wf fs2" using 1(3) fs_wfD(2) [OF 1(3)] by (simp add: fs2_def)
  have t2: "traversed dh fs (length bs) fs2"
    using 1(4,6) d by (auto simp: traversed_def fs2_def fs_rest_updates)
  show ?case
  proof (cases "length bs = 0x20")
    case False
    then show ?thesis
      using 1 wf2 t2 by (subst dir_loop.simps) (auto simp: fs2_def [symmetric] Let_def)
  next
    case True
    define raw where "raw = (flags AND DirFlag_Raw \<noteq> 0)"
    define isl where "isl = (\<not> raw \<and> bs ! 0xb = 0x0f)"
    define ef where "ef = entry_flags lfn (bs ! 0xb) (bs ! 0)"
    define us where "us = (if isl then map_option (lfn_collect bs ucs_max) ucs else ucs)"
    define want where "want = (raw \<or> (\<not> isl \<and> bs ! 0 \<noteq> 0 \<and> bs ! 0 \<noteq> 0x2e \<and> include_entry ef flags))"
    define lfn' where "lfn' = (if raw then lfn else if isl then True else if want then lfn else False)"
    have us: "map_option length us = map_option length ucs" by (cases ucs) (simp_all add: us_def)
    have step: "dir_loop rd dh flags lfn ucs ucs_max entry fs m =
      (if want then
         let e = parse_entry ef bs entry; us = (if lfn' then us else map_option (\<lambda>u. generate_lfn u ucs_max e) us)
         in Some (True, e, us, fs2, m1)
       else if bs ! 0 \<noteq> 0 then dir_loop rd dh flags lfn' us ucs_max entry fs2 m1
       else Some (False, entry, us, fs2, m1))"
      unfolding fs2_def lfn'_def want_def us_def ef_def isl_def raw_def
      by (subst dir_loop.simps) (simp only: 1(1) True Let_def Option.bind.bind_lunit prod.case simp_thms if_False)
    consider (w) want | (e) "\<not> want" "bs ! 0 = 0" | (r) "\<not> want" "bs ! 0 \<noteq> 0" by blast
    then show ?thesis
    proof cases
      case w
      define e where "e = parse_entry ef bs entry"
      define us' where "us' = (if lfn' then us else map_option (\<lambda>u. generate_lfn u ucs_max e) us)"
      have "map_option length us' = map_option length ucs" using us by (cases us) (simp_all add: us'_def)
      moreover have "dir_loop rd dh flags lfn ucs ucs_max entry fs m = Some (True, e, us', fs2, m1)"
        using step w by (simp add: Let_def e_def us'_def)
      ultimately show ?thesis using 1(2) wf2 t2 True by fastforce
    next
      case e
      then have "dir_loop rd dh flags lfn ucs ucs_max entry fs m = Some (False, entry, us, fs2, m1)"
        using step by simp
      then show ?thesis using 1(2) wf2 t2 us by fastforce
    next
      case r
      have "dirs fs2 ! dh = ob" using wf2 less.prems(3) by (simp add: fs2_def d fs_wf_def)
      then have "2 ^ 32 - unat (ooffset (dirs fs2 ! dh)) < 2 ^ 32 - unat (ooffset (dirs fs ! dh))"
        using 1(6) True unsigned_less [of "ooffset ob", where 'a = nat] by (simp add: advanced_def)
      from less.hyps [OF this 1(2) wf2 less.prems(3), of lfn' us entry] obtain ok entry' ucs' fs' m' n where
        3: "dir_loop rd dh flags lfn' us ucs_max entry fs2 m1 = Some (ok, entry', ucs', fs', m')" "good m'" "fs_wf fs'"
           "map_option length ucs' = map_option length us" "traversed dh fs2 n fs'" "ok \<longrightarrow> 32 \<le> n"
        by blast
      moreover have "traversed dh fs (length bs + n) fs'"
        using traversed_trans [OF t2 3(5)] fs_wfD(2) [OF less.prems(2)] less.prems(3) by simp
      ultimately show ?thesis using step r us True by fastforce
    qed
  qed
qed

definition found_in :: "u8 \<Rightarrow> fileSysUtils \<Rightarrow> nat \<Rightarrow> fileSysUtils \<Rightarrow> bool" where
  "found_in dh fs n fs' \<longleftrightarrow> traversed (unat dh) (fs\<lparr>dataBuffer := []\<rparr>) n (fs'\<lparr>dataBuffer := []\<rparr>)"

lemma found_in_simps:
  "found_in dh fs n fs' \<longleftrightarrow> fs_rest (fs'\<lparr>dataBuffer := [], dirs := []\<rparr>) = fs_rest (fs\<lparr>dataBuffer := [], dirs := []\<rparr>) \<and>
     (\<exists>obj'. dirs fs' = (dirs fs)[unat dh := obj'] \<and> advanced (dirs fs ! unat dh) n obj')"
  by (simp add: found_in_def traversed_def)

lemma find_loop_answers:
  assumes "good m" "fs_wf fs" "dh_valid fs dh" "comparable compare"
  shows "\<exists>ok entry' fs' m' n. find_loop rd dh compare entry fs m = Some (ok, entry', fs', m') \<and> good m' \<and> fs_wf fs' \<and> found_in dh fs n fs'"
  using assms(1-3)
proof (induction "2 ^ 32 - unat (ooffset (dirs fs ! unat dh))" arbitrary: entry fs m rule: less_induct)
  case less
  have dh: "unat dh < kMaxDirs" using less.prems(3) by (simp add: dh_valid_def)
  obtain ok entry1 ucs1 fs1 m1 n where
    1: "dir_loop rd (unat dh) DirFlags_Default False (Some (u16s (dataBuffer fs))) 0x100 entry fs m = Some (ok, entry1, ucs1, fs1, m1)"
      "good m1" "fs_wf fs1" "map_option length ucs1 = map_option length (Some (u16s (dataBuffer fs)))" "traversed (unat dh) fs n fs1" "ok \<longrightarrow> 32 \<le> n"
    using dir_loop_answers [OF less.prems(1,2) dh] by blast
  then obtain nb where nb: "ucs1 = Some nb" "length nb = 256" using fs_wfD(3) [OF less.prems(2)] by auto
  define fs2 where "fs2 = fs1\<lparr>dataBuffer := u16_bytes nb\<rparr>"
  have wf2: "fs_wf fs2" using 1(3) nb(2) by (simp add: fs2_def)
  obtain ob where ob: "dirs fs1 = (dirs fs)[unat dh := ob]" "advanced (dirs fs ! unat dh) n ob" using 1(5) by (auto simp: traversed_def)
  have "fs_rest (fs1\<lparr>dirs := []\<rparr>)\<lparr>dataBuffer := []\<rparr> = fs_rest (fs\<lparr>dirs := []\<rparr>)\<lparr>dataBuffer := []\<rparr>"
    using 1(5) by (simp add: traversed_def)
  then have "fs_rest (fs2\<lparr>dataBuffer := [], dirs := []\<rparr>) = fs_rest (fs\<lparr>dataBuffer := [], dirs := []\<rparr>)"
    by (cases fs; cases fs1) (simp add: fs2_def fs_rest_def)
  then have f2: "found_in dh fs n fs2" using ob by (auto simp: found_in_simps fs2_def)
  obtain d where d: "compare (u16s (dataBuffer fs2)) = Some d" using assms(4) nb(2) by (auto simp: comparable_def fs2_def)
  have step: "find_loop rd dh compare entry fs m =
     (if \<not> ok then Some (False, entry1, fs2, m1) else if d = 0 then Some (True, entry1, fs2, m1) else find_loop rd dh compare entry1 fs2 m1)"
    using 1(1) nb(1) less.prems(3) d by (subst find_loop.simps) (simp add: dir_next_def fs2_def [symmetric] Let_def)
  show ?case
  proof (cases "ok \<and> d \<noteq> 0")
    case False
    then show ?thesis using step 1(2) wf2 f2 by (auto split: if_splits)
  next
    case True
    have l: "unat dh < length (dirs fs)" using dh fs_wfD(2) [OF less.prems(2)] by simp
    have o2: "dirs fs2 ! unat dh = ob" using l ob(1) by (simp add: fs2_def)
    then have "2 ^ 32 - unat (ooffset (dirs fs2 ! unat dh)) < 2 ^ 32 - unat (ooffset (dirs fs ! unat dh))"
      using ob(2) True 1(6) unsigned_less [of "ooffset ob", where 'a = nat] by (simp add: advanced_def)
    moreover have "dh_valid fs2 dh" using less.prems(3) o2 ob(2) by (simp add: dh_valid_def advanced_def)
    ultimately obtain ok' entry' fs' m' k where
      3: "find_loop rd dh compare entry1 fs2 m1 = Some (ok', entry', fs', m')" "good m'" "fs_wf fs'" "found_in dh fs2 k fs'"
      using less.hyps [OF _ 1(2) wf2] by blast
    then have "found_in dh fs (n + k) fs'"
      using traversed_trans [of "unat dh" "fs\<lparr>dataBuffer := []\<rparr>" n "fs2\<lparr>dataBuffer := []\<rparr>" k "fs'\<lparr>dataBuffer := []\<rparr>"] f2 l
      by (simp add: found_in_def)
    then show ?thesis using step 3 True by auto
  qed
qed

lemma opened_files:
  assumes "fs_wf fs" "file_open_entry entry fs = (fh, fs')"
  shows "fh = kInvalidFileHandle \<and> files fs' = files fs \<or>
    fh \<notin> open_files fs \<and> open_files fs' = insert fh (open_files fs) \<and> (\<forall>i. i \<noteq> unat fh \<longrightarrow> files fs' ! i = files fs ! i)"
  using file_open_entry_cases [OF assms]
proof (elim disjE conjE)
  assume a: "unat fh < kMaxFiles" "fh \<notin> open_files fs" "fs' = fs\<lparr>files := (files fs)[unat fh :=
         \<lparr>oflags = Flag_Valid, ooffset = 0, olength = dataLength entry, currCluster = de_firstCluster entry,
          firstCluster = de_firstCluster entry\<rparr>]\<rparr>"
  have "fh_valid fs' x \<longleftrightarrow> x = fh \<or> fh_valid fs x" for x
    using a(1) fs_wfD(1) [OF assms(1)]
    by (cases "x = fh") (auto simp: fh_valid_def a(3) Flag_Valid_def nth_list_update word_unat_eq_iff)
  then show ?thesis using a by (auto simp: open_files_def)
qed simp

lemma file_open_with_answers:
  assumes "good m" "fs_wf fs"
    and look: "\<And>dh fs m. good m \<Longrightarrow> fs_wf fs \<Longrightarrow> dh_valid fs dh \<Longrightarrow>
      \<exists>ok entry fs' m' n. lookup dh fs m = Some (ok, entry, fs', m') \<and> good m' \<and> fs_wf fs' \<and> found_in dh fs n fs'"
  shows "\<exists>fh fs' m'. file_open_with lookup fs m = Some (fh, fs', m') \<and> good m' \<and> fs_wf fs' \<and> opened fs fh fs' \<and>
    clusterBytes fs' = clusterBytes fs"
proof -
  obtain dh fs1 where r: "rootdir_open fs = (dh, fs1)" by (cases "rootdir_open fs")
  note cs = rootdir_open_cases [OF assms(2) r]
  show ?thesis
  proof (cases "dh_valid fs1 dh")
    case False
    then have "fs1 = fs" using cs fs_wfD(2) [OF assms(2)] by (auto simp: dh_valid_def Flag_Valid_def)
    then show ?thesis using False assms(1,2) by (simp add: file_open_with_def r opened_def)
  next
    case True
    then have dh: "unat dh < kMaxDirs" "dh \<notin> open_dirs fs" "files fs1 = files fs" "fs_wf fs1" "clusterBytes fs1 = clusterBytes fs"
      and d1: "\<And>i. i \<noteq> unat dh \<Longrightarrow> dirs fs1 ! i = dirs fs ! i"
      using cs fs_wfD(2) [OF assms(2)] assms(2) by (auto simp: dh_valid_def kInvalidDirHandle_def kMaxDirs_def)
    obtain ok entry fs2 m2 n where 2: "lookup dh fs1 m = Some (ok, entry, fs2, m2)" "good m2" "fs_wf fs2" "found_in dh fs1 n fs2"
      using look [OF assms(1) dh(4) True] by blast
    obtain ob where ob: "dirs fs2 = (dirs fs1)[unat dh := ob]" using 2(4) by (auto simp: found_in_simps)
    have "files (fs_rest (fs2\<lparr>dataBuffer := [], dirs := []\<rparr>)) = files (fs_rest (fs1\<lparr>dataBuffer := [], dirs := []\<rparr>))"
      using 2(4) by (simp add: found_in_simps)
    then have f2: "files fs2 = files fs" by (simp add: fs_rest_def dh(3))
    have "clusterBytes (fs2\<lparr>dataBuffer := [], dirs := []\<rparr>) = clusterBytes (fs1\<lparr>dataBuffer := [], dirs := []\<rparr>)"
      using 2(4) by (intro fs_rest_eqD(3)) (simp add: found_in_simps)
    then have c2: "clusterBytes fs2 = clusterBytes fs" by (simp add: dh(5))
    define p where "p = (if ok then file_open_entry entry fs2 else (kInvalidFileHandle, fs2))"
    obtain fh fs3 where p: "p = (fh, fs3)" by (cases p)
    have o2: "open_files fs2 = open_files fs" using f2 by (simp add: open_files_def fh_valid_def)
    have 3: "dirs fs3 = dirs fs2" "fs_wf fs3" "clusterBytes fs3 = clusterBytes fs2"
      using p file_open_entry_cases [OF 2(3), of entry fh fs3] fs_wfD(1) [OF 2(3)] 2(3) by (auto simp: p_def split: if_splits)
    have hf: "fh = kInvalidFileHandle \<and> files fs3 = files fs \<or>
      fh \<notin> open_files fs \<and> open_files fs3 = insert fh (open_files fs) \<and> (\<forall>i. i \<noteq> unat fh \<longrightarrow> files fs3 ! i = files fs ! i)"
      using opened_files [OF 2(3), of entry fh fs3] p f2 o2 by (auto simp: p_def split: if_splits)
    define fs4 where "fs4 = dir_close dh fs3"
    have d4: "dirs fs4 = (dirs fs3)[unat dh := (dirs fs3 ! unat dh)\<lparr>oflags := 0\<rparr>]" "files fs4 = files fs3" "fs_wf fs4" "clusterBytes fs4 = clusterBytes fs3"
      using dh(1) 3(2) fs_wfD(2) [OF 3(2)] by (simp_all add: fs4_def dir_close_def)
    have "dh_valid fs4 x \<longleftrightarrow> dh_valid fs x" for x
    proof (cases "unat x = unat dh")
      case True
      then have "x = dh" by (simp add: word_unat_eq_iff)
      then show ?thesis using dh(1,2) fs_wfD(2) [OF 3(2)] by (simp add: dh_valid_def d4 open_dirs_def)
    next
      case False
      then show ?thesis using d1 [of "unat x"] by (simp add: dh_valid_def d4 3(1) ob)
    qed
    then have "opened fs fh fs4" using hf d4(2) by (auto simp: opened_def open_dirs_def open_files_def fh_valid_def)
    moreover have "file_open_with lookup fs m = Some (fh, fs4, m2)"
      using True 2(1) p by (simp add: file_open_with_def r p_def [symmetric] fs4_def)
    ultimately show ?thesis using 2(2) d4(3,4) c2 3(3) by auto
  qed
qed

end

lemma compare_terminates:
  assumes "0 \<in> set (take (length us) name)" "length us \<le> n"
  shows "ucs2_compare us name n \<noteq> None"
  using assms
proof (induction us name n rule: ucs2_compare.induct)
  case (2 c1 ucs1 c2 ucs2 len)
  then show ?case by auto
qed auto

lemma comparable_char: "0 \<in> set (take 256 name) \<Longrightarrow> comparable (\<lambda>us. ucs2_char_compare us name 0xffffffff)"
  unfolding comparable_def ucs2_char_compare_eq
  by (intro allI impI compare_terminates) (auto simp: take_map intro!: image_eqI [where x = 0])

lemma comparable_ucs: "0 \<in> set (take 256 name) \<Longrightarrow> comparable (\<lambda>us. ucs2_compare us name 0xffffffff)"
  unfolding comparable_def by (intro allI impI compare_terminates) auto

lemma terminated_tl: "0 \<in> set (take 256 name) \<Longrightarrow> name ! 0 \<noteq> 0 \<Longrightarrow> 0 \<in> set (take 256 (tl name))"
  using set_take_subset_set_take [of 255 256 "tl name"] by (cases name) (auto simp: take_Cons')

section \<open>Sequences of calls\<close>

text \<open>The calls of the interface; the arguments the caller's objects and buffers are passed in are part of the call.\<close>

datatype fs_call =
    Call_init | Call_fin | Call_rootdir_open | Call_dir_open u32
  | Call_dir_next u8 dirEntry u32 "u16 list option" nat
  | Call_dir_find u8 dirEntry "u8 list" | Call_dir_find_ucs u8 dirEntry "u16 list"
  | Call_dir_close u8
  | Call_file_open_entry dirEntry | Call_file_open "u8 list" dirEntry | Call_file_open_ucs "u16 list" dirEntry
  | Call_file_seek u8 u32 | Call_file_read u8 nat | Call_file_clusters u8 nat | Call_file_close u8

text \<open>The state a call leaves.\<close>

fun fs_exec :: "'m block_read \<Rightarrow> fs_call \<Rightarrow> fileSysUtils \<Rightarrow> 'm \<Rightarrow> (fileSysUtils \<times> 'm) option" where
  "fs_exec rd Call_init fs m = map_option snd (fs_init rd fs m)"
| "fs_exec rd Call_fin fs m = Some (fs_fin fs, m)"
| "fs_exec rd Call_rootdir_open fs m = Some (snd (rootdir_open fs), m)"
| "fs_exec rd (Call_dir_open c) fs m = Some (snd (dir_open c fs), m)"
| "fs_exec rd (Call_dir_next dh e fl ucs n) fs m = map_option (snd \<circ> snd \<circ> snd) (dir_next rd dh e fl ucs n fs m)"
| "fs_exec rd (Call_dir_find dh e name) fs m = map_option (snd \<circ> snd \<circ> snd) (dir_find_char rd dh e name None 0 fs m)"
| "fs_exec rd (Call_dir_find_ucs dh e name) fs m = map_option (snd \<circ> snd) (dir_find_ucs rd dh e name fs m)"
| "fs_exec rd (Call_dir_close dh) fs m = Some (dir_close dh fs, m)"
| "fs_exec rd (Call_file_open_entry e) fs m = Some (snd (file_open_entry e fs), m)"
| "fs_exec rd (Call_file_open name e) fs m = map_option snd (file_open_char rd name e fs m)"
| "fs_exec rd (Call_file_open_ucs name e) fs m = map_option snd (file_open_ucs rd name e fs m)"
| "fs_exec rd (Call_file_seek fh off) fs m = map_option snd (file_seek rd fh off fs m)"
| "fs_exec rd (Call_file_read fh n) fs m = map_option snd (file_read rd fh n fs m)"
| "fs_exec rd (Call_file_clusters fh n) fs m = map_option snd (file_clusters rd fh n fs m)"
| "fs_exec rd (Call_file_close fh) fs m = Some (file_close fh fs, m)"

fun fs_run :: "'m block_read \<Rightarrow> fs_call list \<Rightarrow> fileSysUtils \<Rightarrow> 'm \<Rightarrow> (fileSysUtils \<times> 'm) option" where
  "fs_run rd [] fs m = Some (fs, m)"
| "fs_run rd (c # cs) fs m = do { (fs, m) \<leftarrow> fs_exec rd c fs m; fs_run rd cs fs m }"

text \<open>Names are terminated, within the longest name the format allows.\<close>

fun call_ok :: "fs_call \<Rightarrow> bool" where
  "call_ok (Call_dir_find dh e name) \<longleftrightarrow> 0 \<in> set (take 256 name)"
| "call_ok (Call_dir_find_ucs dh e name) \<longleftrightarrow> 0 \<in> set (take 256 name)"
| "call_ok (Call_file_open name e) \<longleftrightarrow> 0 \<in> set (take 256 name)"
| "call_ok (Call_file_open_ucs name e) \<longleftrightarrow> 0 \<in> set (take 256 name)"
| "call_ok _ \<longleftrightarrow> True"

definition fs_inv :: "fileSysUtils \<Rightarrow> bool" where
  "fs_inv fs \<longleftrightarrow> fs_wf fs \<and> clusterBytes fs \<noteq> 0"

lemma clusterBytes_rest: "fs_rest fs' = fs_rest fs \<Longrightarrow> clusterBytes fs' = clusterBytes fs"
  by (rule fs_rest_eqD(3))

lemma floor_log2_u8: "unat (floor_log2 (ucast (x :: u8))) \<le> 7"
proof (cases "x = 0")
  case True
  then show ?thesis by (simp add: floor_log2_def log2_loop.simps)
next
  case False
  then have "(ucast x :: u16) \<noteq> 0" by (simp add: ucast_0_u8)
  moreover have "unat (ucast x :: u16) < 2 ^ 8" using unsigned_less [of x, where 'a = nat] by (simp add: unsigned_ucast_eq take_bit_nat_eq_self)
  ultimately show ?thesis using log2_loop_bounds [of "ucast x" 0 8] by (auto simp: floor_log2_def)
qed

lemma read_params_inv:
  assumes "fs_inv fs"
  shows "fs_inv (read_params buf b fs)"
proof -
  define bps where "bps = floor_log2 (read16le buf 0xb)"
  define spc where "spc = floor_log2 (ucast (buf ! 0xd))"
  define valid where "valid = (\<not> (bps < 9 \<or> bps > 12) \<and> \<not> (int (unat spc) > 25 - int (unat bps)))"
  have "push_bit (unat spc + unat bps) 1 \<noteq> (0 :: u32)" if valid
  proof -
    have "unat bps \<le> 12" using that by (simp add: valid_def word_less_nat_alt)
    moreover have "unat spc \<le> 7" unfolding spc_def by (rule floor_log2_u8)
    ultimately have "unat spc + unat bps < 32" by linarith
    then show ?thesis by (simp add: push_bit_eq_mult)
  qed
  then show ?thesis
    using assms by (auto simp: fs_inv_def fs_wf_def read_params_def Let_def bps_def spc_def valid_def)
qed

context responsive
begin

lemma clusters_loop_answers:
  assumes "good m" "fs_inv fs"
  shows "\<exists>cs fs' m'. clusters_loop rd fh len c off fs m = Some (cs, fs', m') \<and> good m' \<and> fs_inv fs'"
  using assms
proof (induction len arbitrary: c off fs m)
  case (Suc len)
  have wf: "fs_wf fs" using Suc.prems by (simp add: fs_inv_def)
  obtain nc fs1 m1 where 1: "cluster_next rd c fs m = Some (nc, fs1, m1)" "good m1" "fs_wf fs1" "fs_rest fs1 = fs_rest fs"
    using cluster_next_answers [OF Suc.prems(1) wf] by blast
  have i1: "fs_inv fs1" using 1(3) clusterBytes_rest [OF 1(4)] Suc.prems(2) by (simp add: fs_inv_def)
  show ?case
  proof (cases nc)
    case None
    then show ?thesis using 1 i1 Suc.prems by simp
  next
    case (Some c')
    define fs2 where "fs2 = fs1\<lparr>files := (files fs1)[fh := (files fs1 ! fh)\<lparr>ooffset := off + clusterBytes fs1, currCluster := c\<rparr>]\<rparr>"
    have "fs_inv fs2" using i1 fs_wfD(1) [OF 1(3)] by (simp add: fs2_def fs_inv_def)
    from Suc.IH [OF 1(2) this, of c' "off + clusterBytes fs1"] show ?thesis
      using 1(1) Some Suc.prems by (auto simp: fs2_def Let_def)
  qed
qed simp

lemma fs_init_answers:
  assumes "good m" "fs_inv fs"
  shows "\<exists>ok fs' m'. fs_init rd fs m = Some (ok, fs', m') \<and> good m' \<and> fs_inv fs'"
proof -
  obtain ok data m1 where 1: "rd 0 m = Some (ok, data, m1)" "good m1" using answers [OF assms(1)] by blast
  define fs1 where "fs1 = fs\<lparr>dataBuffer := blit (dataBuffer fs) 0 data\<rparr>"
  have i1: "fs_inv fs1" using assms(2) by (auto simp: fs1_def fs_inv_def fs_wf_def)
  show ?thesis
  proof (cases "ok \<and> dataBuffer fs1 ! 0x1fe = 0x55 \<and> dataBuffer fs1 ! 0x1ff = 0xaa \<and> find_partition (dataBuffer fs1) \<noteq> None")
    case True
    then obtain b where b: "find_partition (dataBuffer fs1) = Some b" by auto
    obtain ok2 data2 m2 where 2: "rd b m1 = Some (ok2, data2, m2)" "good m2" using answers [OF 1(2)] by blast
    define fs2 where "fs2 = fs1\<lparr>dataBuffer := blit (dataBuffer fs1) 0 data2\<rparr>"
    have "fs_inv fs2" using i1 by (auto simp: fs2_def fs_inv_def fs_wf_def)
    then have "fs_inv (read_params (dataBuffer fs2) b fs2)" by (rule read_params_inv)
    moreover have "fs_init rd fs m = Some (partValid (read_params (dataBuffer fs2) b fs2), read_params (dataBuffer fs2) b fs2, m2)"
      using True 1(1) 2(1) b unfolding fs2_def fs1_def by (simp add: fs_init_def Let_def)
    ultimately show ?thesis using 2(2) by blast
  next
    case False
    then have "fs_init rd fs m = Some (False, fs1, m1)"
      using 1(1) unfolding fs1_def by (auto simp: fs_init_def Let_def)
    then show ?thesis using 1(2) i1 by blast
  qed
qed

lemma rest_inv: "fs_inv fs \<Longrightarrow> fs_wf fs' \<Longrightarrow> fs_rest fs' = fs_rest fs \<Longrightarrow> fs_inv fs'"
  using clusterBytes_rest [of fs' fs] by (simp add: fs_inv_def)

lemma traversed_inv: "fs_inv fs \<Longrightarrow> fs_wf fs' \<Longrightarrow> traversed dh fs n fs' \<Longrightarrow> fs_inv fs'"
  using clusterBytes_rest [of "fs'\<lparr>dirs := []\<rparr>" "fs\<lparr>dirs := []\<rparr>"] by (simp add: fs_inv_def traversed_def)

lemma found_in_inv: "fs_inv fs \<Longrightarrow> fs_wf fs' \<Longrightarrow> found_in dh fs n fs' \<Longrightarrow> fs_inv fs'"
  using clusterBytes_rest [of "fs'\<lparr>dataBuffer := [], dirs := []\<rparr>" "fs\<lparr>dataBuffer := [], dirs := []\<rparr>"]
  by (simp add: fs_inv_def found_in_simps)

lemma seek_read_answers:
  assumes "good m" "fs_inv fs"
  shows "\<exists>ok fs' m'. file_seek rd fh off fs m = Some (ok, fs', m') \<and> good m' \<and> fs_inv fs'"
    and "\<exists>bs fs' m'. file_read rd fh n fs m = Some (bs, fs', m') \<and> good m' \<and> fs_inv fs'"
proof -
  have wf: "fs_wf fs" "clusterBytes fs \<noteq> 0" using assms(2) by (simp_all add: fs_inv_def)
  have upd: "fs_inv (fs'\<lparr>files := (files fs')[unat fh := obj]\<rparr>)" if "fs_wf fs'" "fs_rest fs' = fs_rest fs" for fs' obj
    using that fs_wfD(1) [OF that(1)] rest_inv [OF assms(2) that] by (simp add: fs_inv_def)
  show "\<exists>ok fs' m'. file_seek rd fh off fs m = Some (ok, fs', m') \<and> good m' \<and> fs_inv fs'"
    using object_seek_answers [OF assms(1) wf, of "files fs ! unat fh" off] upd assms
    by (cases "fh_valid fs fh") (auto simp: file_seek_def)
  show "\<exists>bs fs' m'. file_read rd fh n fs m = Some (bs, fs', m') \<and> good m' \<and> fs_inv fs'"
    using object_read_answers [OF assms(1) wf(1), of "files fs ! unat fh" n] upd assms
    by (cases "fh_valid fs fh") (auto simp: file_read_def)
qed

lemma dir_find_answers:
  assumes "good m" "fs_inv fs"
  shows "0 \<in> set (take 256 name) \<Longrightarrow>
      \<exists>ok entry' fs' m'. dir_find_char rd dh entry name None 0 fs m = Some (ok, entry', None, fs', m') \<and> good m' \<and> fs_inv fs'"
    and "0 \<in> set (take 256 ucs) \<Longrightarrow>
      \<exists>ok entry' fs' m'. dir_find_ucs rd dh entry ucs fs m = Some (ok, entry', fs', m') \<and> good m' \<and> fs_inv fs'"
proof -
  have wf: "fs_wf fs" using assms(2) by (simp add: fs_inv_def)
  have fl: "\<exists>ok entry' fs' m'. find_loop rd dh compare entry fs m = Some (ok, entry', fs', m') \<and> good m' \<and> fs_inv fs'"
    if "comparable compare" "dh_valid fs dh" for compare
    using find_loop_answers [OF assms(1) wf that(2,1)] found_in_inv [OF assms(2)] by blast
  show "\<exists>ok entry' fs' m'. dir_find_char rd dh entry name None 0 fs m = Some (ok, entry', None, fs', m') \<and> good m' \<and> fs_inv fs'"
    if "0 \<in> set (take 256 name)"
    using fl [OF comparable_char [OF that]] assms by (cases "dh_valid fs dh") (auto simp: dir_find_char_def)
  show "\<exists>ok entry' fs' m'. dir_find_ucs rd dh entry ucs fs m = Some (ok, entry', fs', m') \<and> good m' \<and> fs_inv fs'"
    if "0 \<in> set (take 256 ucs)"
    using fl [OF comparable_ucs [OF that]] assms by (cases "dh_valid fs dh") (auto simp: dir_find_ucs_def)
qed

lemma file_open_char_answers:
  assumes "good m" "fs_wf fs" "0 \<in> set (take 256 name)"
  shows "\<exists>fh fs' m'. file_open_char rd name entry fs m = Some (fh, fs', m') \<and> good m' \<and> fs_wf fs' \<and> opened fs fh fs' \<and>
    clusterBytes fs' = clusterBytes fs"
proof -
  define nm where "nm = (if name ! 0 = 0x2f \<or> name ! 0 = 0x5c then tl name else name)"
  have "0 \<in> set (take 256 nm)" using assms(3) terminated_tl [OF assms(3)] by (auto simp: nm_def)
  then have c: "comparable (\<lambda>us. ucs2_char_compare us nm 0xffffffff)" by (rule comparable_char)
  show ?thesis
    unfolding file_open_char_def Let_def nm_def [symmetric]
  proof (rule file_open_with_answers [OF assms(1,2)])
    fix dh fs m
    assume "good m" "fs_wf fs" "dh_valid fs dh"
    with find_loop_answers [OF this c, of entry]
    show "\<exists>ok entry' fs' m' n. do { (found, entry, _, fs, m) \<leftarrow> dir_find_char rd dh entry nm None 0 fs m; Some (found, entry, fs, m) } =
        Some (ok, entry', fs', m') \<and> good m' \<and> fs_wf fs' \<and> found_in dh fs n fs'"
      by (auto simp: dir_find_char_def)
  qed
qed

lemma file_open_ucs_answers:
  assumes "good m" "fs_wf fs" "0 \<in> set (take 256 name)"
  shows "\<exists>fh fs' m'. file_open_ucs rd name entry fs m = Some (fh, fs', m') \<and> good m' \<and> fs_wf fs' \<and> opened fs fh fs' \<and>
    clusterBytes fs' = clusterBytes fs"
proof -
  define nm where "nm = (if name ! 0 = 0x2f \<or> name ! 0 = 0x5c then tl name else name)"
  have "0 \<in> set (take 256 nm)" using assms(3) terminated_tl [OF assms(3)] by (auto simp: nm_def)
  then have c: "comparable (\<lambda>us. ucs2_compare us nm 0xffffffff)" by (rule comparable_ucs)
  show ?thesis
    unfolding file_open_ucs_def Let_def nm_def [symmetric]
  proof (rule file_open_with_answers [OF assms(1,2)])
    fix dh fs m
    assume "good m" "fs_wf fs" "dh_valid fs dh"
    with find_loop_answers [OF this c, of entry]
    show "\<exists>ok entry' fs' m' n. dir_find_ucs rd dh entry nm fs m = Some (ok, entry', fs', m') \<and> good m' \<and> fs_wf fs' \<and> found_in dh fs n fs'"
      by (auto simp: dir_find_ucs_def)
  qed
qed

lemma dir_open_inv: "fs_inv fs \<Longrightarrow> fs_inv (snd (dir_open c fs))"
  by (simp add: fs_inv_def fs_wf_def dir_open_def split: option.split)

lemma fs_fin_inv: "fs_inv fs \<Longrightarrow> fs_inv (fs_fin fs)"
  by (auto simp: fs_inv_def fs_wf_def fs_fin_def kCacheEntries_def)

lemma dir_next_answers:
  assumes "good m" "fs_inv fs"
  shows "\<exists>ok entry' ucs' fs' m'. dir_next rd dh entry flags ucs ucs_max fs m = Some (ok, entry', ucs', fs', m') \<and> good m' \<and> fs_inv fs'"
proof (cases "dh_valid fs dh")
  case True
  then have dh: "unat dh < kMaxDirs" by (simp add: dh_valid_def)
  have wf: "fs_wf fs" using assms(2) by (simp add: fs_inv_def)
  obtain ok e' u' fs' m' n where "dir_loop rd (unat dh) flags False ucs ucs_max entry fs m = Some (ok, e', u', fs', m')" "good m'" "fs_wf fs'"
    "traversed (unat dh) fs n fs'"
    using dir_loop_answers [OF assms(1) wf dh] by blast
  then show ?thesis using traversed_inv [OF assms(2)] True by (simp add: dir_next_def)
qed (use assms in \<open>auto simp: dir_next_def\<close>)

lemma fs_exec_answers:
  assumes "good m" "fs_inv fs" "call_ok c"
  shows "\<exists>fs' m'. fs_exec rd c fs m = Some (fs', m') \<and> good m' \<and> fs_inv fs'"
proof -
  have wf: "fs_wf fs" using assms(2) by (simp add: fs_inv_def)
  show ?thesis
  proof (cases c)
    case Call_init
    then show ?thesis using fs_init_answers [OF assms(1,2)] by auto
  next
    case Call_fin
    then show ?thesis using assms fs_fin_inv by simp
  next
    case Call_rootdir_open
    then show ?thesis using assms dir_open_inv by (simp add: rootdir_open_def)
  next
    case (Call_dir_next dh e fl ucs n)
    then show ?thesis using dir_next_answers [OF assms(1,2), of dh e fl ucs n] by auto
  next
    case (Call_dir_find dh e name)
    then show ?thesis using dir_find_answers(1) [OF assms(1,2), of name dh e] assms(3) by auto
  next
    case (Call_dir_find_ucs dh e name)
    then show ?thesis using dir_find_answers(2) [OF assms(1,2), of name dh e] assms(3) by auto
  next
    case (Call_file_open_entry e)
    obtain fh fs' where f: "file_open_entry e fs = (fh, fs')" by (cases "file_open_entry e fs")
    show ?thesis
      using Call_file_open_entry assms fs_wfD(1) [OF wf] file_open_entry_cases [OF wf f] f by (auto simp: fs_inv_def)
  next
    case (Call_file_open name e)
    then show ?thesis
      using file_open_char_answers [OF assms(1) wf, of name e] assms(2,3) by (auto simp: fs_inv_def)
  next
    case (Call_file_open_ucs name e)
    then show ?thesis
      using file_open_ucs_answers [OF assms(1) wf, of name e] assms(2,3) by (auto simp: fs_inv_def)
  next
    case (Call_file_seek fh off)
    then show ?thesis using seek_read_answers(1) [OF assms(1,2), of fh off] by auto
  next
    case (Call_file_read fh n)
    then show ?thesis using seek_read_answers(2) [OF assms(1,2), of fh n] by auto
  next
    case (Call_file_clusters fh n)
    have "\<exists>cs fs' m'. clusters_loop rd (unat fh) n (currCluster (files fs ! unat fh)) (ooffset (files fs ! unat fh) AND NOT (clusterMask fs)) fs m =
        Some (cs, fs', m') \<and> good m' \<and> fs_inv fs'"
      by (rule clusters_loop_answers [OF assms(1,2)])
    then show ?thesis
      using Call_file_clusters assms by (cases "fh_valid fs fh") (auto simp: file_clusters_def Let_def)
  next
    case (Call_dir_close dh)
    then show ?thesis using assms wf fs_wfD(2) [OF wf] by (simp add: dir_close_def fs_inv_def)
  next
    case (Call_file_close fh)
    then show ?thesis using assms wf fs_wfD(1) [OF wf] by (simp add: file_close_def fs_inv_def)
  next
    case (Call_dir_open cl)
    then show ?thesis using assms dir_open_inv by simp
  qed
qed

lemma fs_run_answers:
  assumes "good m" "fs_inv fs" "list_all call_ok cs"
  shows "\<exists>fs' m'. fs_run rd cs fs m = Some (fs', m') \<and> good m' \<and> fs_inv fs'"
  using assms
proof (induction cs arbitrary: fs m)
  case (Cons c cs)
  then obtain fs1 m1 where "fs_exec rd c fs m = Some (fs1, m1)" "good m1" "fs_inv fs1"
    using fs_exec_answers [of m fs c] by auto
  then show ?case using Cons.IH [of m1 fs1] Cons.prems by simp
qed simp

lemma file_read_frame:
  assumes "good m" "fs_wf fs" "fh_valid fs fh"
  shows "\<exists>bs fs' m' ob. file_read rd fh n fs m = Some (bs, fs', m') \<and> good m' \<and> fs_wf fs' \<and> length bs \<le> n \<and> dirs fs' = dirs fs \<and>
     files fs' = (files fs)[unat fh := ob] \<and> advanced (files fs ! unat fh) (length bs) ob"
proof -
  obtain bs ob fs' m' where 1: "object_read rd (files fs ! unat fh) n fs m = Some (bs, ob, fs', m')" "good m'" "fs_wf fs'"
    "fs_rest fs' = fs_rest fs" "length bs \<le> n" "advanced (files fs ! unat fh) (length bs) ob"
    using object_read_answers [OF assms(1,2)] by blast
  then show ?thesis
    using assms(3) fs_rest_eqD(6,7) [OF 1(4)] fs_wfD(1) [OF 1(3)] by (auto simp: file_read_def)
qed

end

text \<open>Every readable medium answers.\<close>

sublocale block_device \<subseteq> answering: responsive rd inv
proof
  fix m b
  assume "inv m"
  then show "\<exists>ok data m'. rd b m = Some (ok, data, m') \<and> inv m'" using rd_ok [of m b] by blast
qed

text \<open>A card that fails every read and leaves garbage behind.\<close>

definition broken_rd :: "nat block_read" where
  "broken_rd b n = Some (False, replicate (n mod 600) (of_nat n), Suc n)"

interpretation broken: responsive broken_rd "\<lambda>_. True"
  by unfold_locales (auto simp: broken_rd_def)

definition blank_fs :: fileSysUtils where
  "blank_fs = \<lparr>partValid = True, bytesPerSectorShift = 9, secsPerClusterShift = 0, blksPerClusterShift = 0, fatStart = 0, clusterHeapStart = 1,
     rootStart = 1, rootCluster = 2, clusterBytes = 512, clusterMask = 511, dataBuffer = replicate 512 0, blockCacheNext = 0,
     blockCache = replicate 8 \<lparr>ce_block = kInvalidBlock, ce_buf = replicate 512 0\<rparr>,
     files = replicate 4 \<lparr>oflags = 0, ooffset = 0, olength = 0, currCluster = 0, firstCluster = 0\<rparr>,
     dirs = replicate 2 \<lparr>oflags = 0, ooffset = 0, olength = 0, currCluster = 0, firstCluster = 0\<rparr>\<rparr>"

definition blank_entry :: dirEntry where
  "blank_entry = \<lparr>de_flags = 0, entryType = 0, shortName = replicate 8 0, shortExt = replicate 8 0, attribs = 0, userAttribs = 0, createdFine = 0,
     createdTime = 0, createdDate = 0, modifiedTime = 0, modifiedDate = 0, accessDate = 0, de_firstCluster = 2, dataLength = 600\<rparr>"

lemma replicate_4: "replicate 4 x = [x, x, x, x]"
  by (simp add: eval_nat_numeral)

lemma blank_fs_wf: "fs_wf blank_fs" "clusterBytes blank_fs \<noteq> 0"
  by (simp_all add: fs_wf_def blank_fs_def kCacheEntries_def kMaxFiles_def kMaxDirs_def)

section \<open>Properties\<close>

text \<open>
  C5. The FAT32 layer always comes back: after a volume has been mounted once, every sequence of calls of its interface (mounting, traversing,
  looking names up, opening, seeking, reading, listing clusters, closing, with any handles and any arguments) returns, on every medium whose
  reads return, whatever they return: cyclic cluster chains, directories without an end and failing reads included. Arrays keep their
  sizes and the cache index stays in range throughout. The one requirement is that names passed in are terminated within 255 characters.
\<close>
theorem fs_run_returns:
  assumes "responsive rd good" "good m" "fs_wf fs" "clusterBytes fs \<noteq> 0" "list_all call_ok calls"
  shows "\<exists>fs' m'. fs_run rd calls fs m = Some (fs', m') \<and> good m' \<and> fs_wf fs' \<and> clusterBytes fs' \<noteq> 0"
  using responsive.fs_run_answers [OF assms(1,2), of fs calls] assms(3-5) by (simp add: fs_inv_def)

theorem fs_run_returns_witness:
  "\<exists>fs' m'. fs_run broken_rd [Call_init, Call_file_open [0x2f, 0x61, 0] blank_entry, Call_file_open_entry blank_entry, Call_file_read 0 7, Call_fin]
     blank_fs 3 = Some (fs', m') \<and> True \<and> fs_wf fs' \<and> clusterBytes fs' \<noteq> 0"
  by (rule fs_run_returns [OF broken.responsive_axioms]) (simp_all add: blank_fs_wf)

text \<open>
  C21. Opening a file by name accounts for its handles: on every answering medium the call returns; the directory handle it uses for the search is
  released again, whether or not the file is found; the result is either the invalid handle, with all open files untouched, or a handle
  that was not in use before and is now the only addition to the open files.
\<close>
theorem file_open_handles:
  assumes "responsive rd good" "good m" "fs_wf fs" "0 \<in> set (take 256 name)"
  shows "\<exists>fh fs' m'. file_open_char rd name entry fs m = Some (fh, fs', m') \<and> good m' \<and> fs_wf fs' \<and> open_dirs fs' = open_dirs fs \<and>
     (fh = kInvalidFileHandle \<and> files fs' = files fs \<or>
      fh \<notin> open_files fs \<and> open_files fs' = insert fh (open_files fs) \<and> (\<forall>i. i \<noteq> unat fh \<longrightarrow> files fs' ! i = files fs ! i))"
  using responsive.file_open_char_answers [OF assms, of entry] by (auto simp: opened_def)

theorem file_open_handles_witness:
  "\<exists>fh fs' m'. file_open_char broken_rd [0x61, 0] blank_entry blank_fs 5 = Some (fh, fs', m') \<and> True \<and> fs_wf fs' \<and> open_dirs fs' = open_dirs blank_fs \<and>
     (fh = kInvalidFileHandle \<and> files fs' = files blank_fs \<or>
      fh \<notin> open_files blank_fs \<and> open_files fs' = insert fh (open_files blank_fs) \<and> (\<forall>i. i \<noteq> unat fh \<longrightarrow> files fs' ! i = files blank_fs ! i))"
  by (rule file_open_handles [OF broken.responsive_axioms]) (simp_all add: blank_fs_wf)

text \<open>
  Open files do not disturb each other: reading through one handle returns at most the bytes asked for, moves the offset of that file by exactly
  the number of bytes returned, and leaves every other open file and every open directory as it was, on every answering medium.
\<close>
theorem file_read_isolated:
  assumes "responsive rd good" "good m" "fs_wf fs" "fh_valid fs fh"
  shows "\<exists>bs fs' m'. file_read rd fh n fs m = Some (bs, fs', m') \<and> length bs \<le> n \<and> dirs fs' = dirs fs \<and>
     (\<forall>i. i \<noteq> unat fh \<longrightarrow> files fs' ! i = files fs ! i) \<and> fh_valid fs' fh \<and>
     unat (ooffset (files fs' ! unat fh)) = unat (ooffset (files fs ! unat fh)) + length bs \<and>
     olength (files fs' ! unat fh) = olength (files fs ! unat fh)"
proof -
  have l: "unat fh < length (files fs)" using assms(4) fs_wfD(1) [OF assms(3)] by (simp add: fh_valid_def)
  then show ?thesis
    using responsive.file_read_frame [OF assms, of n] assms(4) by (auto simp: advanced_def fh_valid_def)
qed

theorem file_read_isolated_witness:
  "\<exists>bs fs' m'. file_read broken_rd 0 9 (snd (file_open_entry blank_entry blank_fs)) 1 = Some (bs, fs', m') \<and> length bs \<le> 9 \<and>
     dirs fs' = dirs (snd (file_open_entry blank_entry blank_fs)) \<and>
     (\<forall>i. i \<noteq> unat (0 :: u8) \<longrightarrow> files fs' ! i = files (snd (file_open_entry blank_entry blank_fs)) ! i) \<and> fh_valid fs' 0 \<and>
     unat (ooffset (files fs' ! unat (0 :: u8))) = unat (ooffset (files (snd (file_open_entry blank_entry blank_fs)) ! unat (0 :: u8))) + length bs \<and>
     olength (files fs' ! unat (0 :: u8)) = olength (files (snd (file_open_entry blank_entry blank_fs)) ! unat (0 :: u8))"
proof (rule file_read_isolated [OF broken.responsive_axioms])
  have e: "file_open_entry blank_entry blank_fs = (0, blank_fs\<lparr>files := (files blank_fs)[0 :=
         \<lparr>oflags = Flag_Valid, ooffset = 0, olength = 600, currCluster = 2, firstCluster = 2\<rparr>]\<rparr>)"
    by (simp add: file_open_entry_def blank_fs_def kMaxFiles_def blank_entry_def replicate_4)
  show "fs_wf (snd (file_open_entry blank_entry blank_fs))" using blank_fs_wf(1) fs_wfD(1) [OF blank_fs_wf(1)] by (simp add: e)
  show "fh_valid (snd (file_open_entry blank_entry blank_fs)) 0"
    unfolding e snd_conv by (simp add: fh_valid_def Flag_Valid_def kMaxFiles_def blank_fs_def)
qed simp

end
