(* ===== verification/Fat_System.thy ===== *)
theory Fat_System
  imports Fat_Live Sd_System
begin

unbundle bit_operations_syntax

text \<open>
  The FAT32 layer on top of the SD card driver on top of the card: mounting a volume, and reading a file of a card image
  through the whole stack.
\<close>

section \<open>The card as a block device\<close>

definition sd_rd :: "'s spi_ops \<Rightarrow> sdcard \<Rightarrow> 's block_read" where
  "sd_rd ops drv b s = read_blocks ops drv b 1 s"

definition card_holds :: "('s \<Rightarrow> sd_bus ctl) \<Rightarrow> nat \<Rightarrow> sdcard \<Rightarrow> sdfile option \<Rightarrow> 's \<Rightarrow> bool" where
  "card_holds view line drv f s \<longleftrightarrow> (\<exists>c. card_parked view line drv s c \<and> map_option contents (sd c) = map_option contents f)"

lemma sd_block_contents: "map_option contents f = map_option contents g \<Longrightarrow> sd_block f b = sd_block g b"
  by (cases f; cases g) (simp_all add: sd_block_def file_byte_def)

lemma sd_block_device:
  assumes "sd_slot ops view delay line"
  shows "block_device (sd_rd ops drv) (card_holds view line drv f) (sd_block f)"
proof
  fix s b
  assume "card_holds view line drv f s"
  then obtain c where c: "card_parked view line drv s c" "map_option contents (sd c) = map_option contents f" by (auto simp: card_holds_def)
  obtain s' c' where "read_blocks ops drv b 1 s = Some (True, sd_block (sd c) b, s')" "card_parked view line drv s' c'" "same_image c c'"
    using sd_slot.read_block [OF assms c(1), of b] by blast
  then show "\<exists>m'. sd_rd ops drv b s = Some (True, sd_block f b, m') \<and> card_holds view line drv f m'"
    using c(2) sd_block_contents [OF c(2)] by (auto simp: sd_rd_def card_holds_def same_image_def)
qed (simp add: sd_block_def)

interpretation sim_volume: block_device "sd_rd (sim_spi ic (sd_xf line) (sd_csf line)) drv" "card_holds (\<lambda>v. v) line drv f" "sd_block f"
  by (rule sd_block_device [OF sim_slot.sd_slot_axioms])

section \<open>Mounting\<close>

lemma shift_div_512:
  assumes "unat (x :: u32) < 2 ^ 23"
  shows "push_bit 9 x div fs_kBlockLen = x"
proof -
  have "unat (push_bit 9 x) = 512 * unat x" using assms by (rule unat_push_bit_9)
  then have "unat (push_bit 9 x div fs_kBlockLen) = unat x"
    by (simp only: unat_div) (simp add: fs_kBlockLen_def kBytesPerBlockShift_def)
  then show ?thesis by (simp add: word_unat_eq_iff)
qed

lemma floor_log2_exp:
  assumes "j < 16"
  shows "floor_log2 (2 ^ j) = of_nat j"
proof -
  have "(2 :: nat) ^ j < 2 ^ 16" using assms by (intro power_strict_increasing) auto
  then have "unat (of_nat (2 ^ j) :: u16) = 2 ^ j" by (simp only: unat_of_nat) simp
  then have u: "unat (2 ^ j :: u16) = 2 ^ j" by simp
  obtain k where k: "unat (floor_log2 (2 ^ j)) = k" "2 ^ k \<le> (2 ^ j :: nat)" "(2 ^ j :: nat) < 2 * 2 ^ k"
    using log2_loop_bounds [of "2 ^ j :: u16" 0 16] u assms unsigned_less [of "2 ^ j :: u16", where 'a = nat] by (auto simp: floor_log2_def)
  then have "k \<le> j" "j < Suc k" by (simp_all add: power_increasing_iff power_strict_increasing_iff flip: power_Suc)
  then have "unat (floor_log2 (2 ^ j)) = j" using k(1) by simp
  then have "(of_nat (unat (floor_log2 (2 ^ j))) :: u8) = of_nat j" by (rule arg_cong)
  then show ?thesis by simp
qed

section \<open>Properties\<close>

text \<open>
  C17. Mounting a volume finds its parts: on a readable medium whose boot record is signed and whose first partition is of type \<open>0x0c\<close> at block \<open>start\<close>,
  with sectors of 512 bytes and \<open>2 ^ j\<close> sectors to a cluster, \<open>init\<close> succeeds, sets the cluster size to \<open>2 ^ (9 + j)\<close> bytes, and locates the table behind
  the reserved sectors and the cluster heap behind all copies of the table; open handles and the cache are left alone.
\<close>
theorem fs_init_mounts:
  assumes "block_device rd good blk" "good m" "fs_wf fs"
    "blk 0 ! 0x1fe = 0x55" "blk 0 ! 0x1ff = 0xaa" "blk 0 ! 0x1c2 = 0x0c" "read32le (blk 0) 0x1c6 = start"
    "read16le (blk start) 0xb = 512" "blk start ! 0xd = 2 ^ j" "j < 8"
    "heap = ucast (read16le (blk start) 0xe) + ucast (blk start ! 0x10) * read32le (blk start) 0x24" "unat heap < 2 ^ 23"
  shows "\<exists>fs' m'. fs_init rd fs m = Some (True, fs', m') \<and> good m' \<and> fs_wf fs' \<and> partValid fs' \<and> geometry fs' (9 + j) \<and>
    fatStart fs' = start + ucast (read16le (blk start) 0xe) \<and> clusterHeapStart fs' = start + heap \<and>
    unat (blksPerClusterShift fs') = j \<and> rootCluster fs' = read32le (blk start) 0x2c \<and>
    files fs' = files fs \<and> dirs fs' = dirs fs \<and> blockCache fs' = blockCache fs"
proof -
  obtain m1 where 1: "rd 0 m = Some (True, blk 0, m1)" "good m1" using block_device.rd_ok [OF assms(1,2)] by blast
  obtain m2 where 2: "rd start m1 = Some (True, blk start, m2)" "good m2" using block_device.rd_ok [OF assms(1) 1(2)] by blast
  have w: "blit (dataBuffer fs) 0 (blk 0) = blk 0" "blit (blk 0) 0 (blk start) = blk start"
    using assms(3) block_device.blk_length [OF assms(1)] by (simp_all add: blit_whole fs_wf_def)
  have p: "find_partition (blk 0) = Some start"
    using assms(6,7) by (simp add: find_partition_def Let_def split: prod.split)
  define fs1 where "fs1 = fs\<lparr>dataBuffer := blk start\<rparr>"
  define fs' where "fs' = read_params (blk start) start fs1"
  have bps: "floor_log2 512 = 9" using floor_log2_exp [of 9] by simp
  have "(ucast (2 ^ j :: u8) :: u16) = 2 ^ j" 
    by (rule bit_word_eqI) (use assms(10) in \<open>auto simp: bit_simps\<close>)
  then have spc: "floor_log2 (ucast (2 ^ j :: u8)) = of_nat j" using floor_log2_exp [of j] assms(10) by simp
  have uj: "unat (of_nat j :: u8) = j" using assms(10) by (intro unat_small) simp
  have ui: "uint (of_nat j :: u8) = int j" using uj by (metis uint_nat)
  have heap: "push_bit 9 (ucast (read16le (blk start) 0xe) + ucast (blk start ! 0x10) * read32le (blk start) 0x24) div fs_kBlockLen = heap"
    using shift_div_512 [OF assms(12)] assms(11) by simp
  have init: "fs_init rd fs m = Some (partValid fs', fs', m2)"
    using 1(1) 2(1) assms(4,5) p by (simp add: fs_init_def w Let_def fs'_def fs1_def)
  have b: "push_bit (j + 9) 1 = (2 ^ (9 + j) :: u32)" by (simp add: push_bit_eq_mult add.commute)
  have "partValid fs' \<and> fatStart fs' = start + ucast (read16le (blk start) 0xe) \<and> clusterHeapStart fs' = start + heap \<and>
    blksPerClusterShift fs' = of_nat j \<and> rootCluster fs' = read32le (blk start) 0x2c \<and> clusterBytes fs' = 2 ^ (9 + j) \<and> clusterMask fs' = 2 ^ (9 + j) - 1 \<and>
    files fs' = files fs \<and> dirs fs' = dirs fs \<and> blockCache fs' = blockCache fs \<and> blockCacheNext fs' = blockCacheNext fs \<and> length (dataBuffer fs') = 512"
    using assms(10) block_device.blk_length [OF assms(1), of start]
    by (simp add: fs'_def fs1_def read_params_def Let_def assms(8,9) bps spc uj ui heap b add.commute [of j 9])
  then show ?thesis
    using init 2(2) assms(3,10) uj by (simp add: geometry_def fs_wf_def)
qed

text \<open>A card image of two blocks: a boot record with a partition at block 1, and its first sector.\<close>

definition mbr_block :: "u8 list" where
  "mbr_block = replicate 0x1c2 0 @ [0x0c, 0, 0, 0, 1, 0, 0, 0] @ replicate 52 0 @ [0x55, 0xaa]"

definition bpb_block :: "u8 list" where
  "bpb_block = replicate 0xb 0 @ [0, 2, 4, 32, 0, 2] @ replicate 19 0 @ [8, 0, 0, 0, 0, 0, 0, 0, 2, 0, 0, 0] @ replicate 464 0"

definition disk_rd :: "unit block_read" where
  "disk_rd b m = Some (True, if b = 0 then mbr_block else bpb_block, m)"

interpretation disk: block_device disk_rd "\<lambda>_. True" "\<lambda>b. if b = 0 then mbr_block else bpb_block"
  by unfold_locales (simp_all add: disk_rd_def mbr_block_def bpb_block_def)

theorem fs_init_mounts_witness:
  "\<exists>fs' m'. fs_init disk_rd blank_fs () = Some (True, fs', m') \<and> True \<and> fs_wf fs' \<and> partValid fs' \<and> geometry fs' (9 + 2) \<and>
    fatStart fs' = 1 + ucast (32 :: u16) \<and> clusterHeapStart fs' = 1 + 48 \<and>
    unat (blksPerClusterShift fs') = 2 \<and> rootCluster fs' = 2 \<and>
    files fs' = files blank_fs \<and> dirs fs' = dirs blank_fs \<and> blockCache fs' = blockCache blank_fs"
proof -
  have m: "mbr_block ! 0x1fe = 0x55" "mbr_block ! 0x1ff = 0xaa" "mbr_block ! 0x1c2 = 0x0c" "read32le mbr_block 0x1c6 = 1"
    by (simp_all add: mbr_block_def nth_append read32le_def le32_def)
  have b: "read16le bpb_block 0xb = 512" "bpb_block ! 0xd = 2 ^ 2" "read16le bpb_block 0xe = 32" "bpb_block ! 0x10 = 2"
    "read32le bpb_block 0x24 = 8" "read32le bpb_block 0x2c = 2"
    by (simp_all add: bpb_block_def nth_append read32le_def le32_def read16le_def le16_def)
  show ?thesis
    using fs_init_mounts [OF disk.block_device_axioms, where fs = blank_fs and start = 1 and j = 2 and heap = 48 and m = "()"] m b blank_fs_wf(1) by simp
qed

text \<open>
  C1. The stack reads files: for every SPI controller with the card on one of its lines, on a mounted volume, a file opened by its directory entry
  and read once from its start through \<open>file_read\<close>, the block cache, the SD driver's command protocol and the card's bit-level shift registers gives
  the bytes of the card's image that the entry's cluster chain leads to, up to the number asked for or the file's length. It asks of the volume
  that its geometry is the one \<open>fs_init\<close> computes (blocks of 512 bytes, clusters of a power of two of at least one block) and that the chain of
  the file is laid out: its blocks are distinct, none of them is a block of the allocation table, and none of these blocks has the number
  that marks an empty cache entry (\<open>kInvalidBlock\<close>). It asks of the block cache that it is correct
  and holds none of the file's own blocks; the blocks of directories and of the table, with which a search for the entry has warmed it, may be there.
  Without the last condition it is false (C40).
\<close>
theorem sd_file_contents:
  assumes "sd_slot ops view delay line" "card_parked view line drv s c" "fs_wf fs0"
    "file_open_entry entry fs0 = (fh, fs)" "fh \<noteq> kInvalidFileHandle"
    "block_device.cache_ok (sd_block (sd c)) fs" "geometry fs k"
    "block_device.laid_out (sd_block (sd c)) fs k (de_firstCluster entry) (unat (dataLength entry))"
    "\<forall>e \<in> set (blockCache fs). \<forall>q < unat (dataLength entry).
      ce_block e \<noteq> block_device.data_block (sd_block (sd c)) fs k (de_firstCluster entry) q"
  shows "\<exists>fs' s'. file_read (sd_rd ops drv) fh n fs s =
    Some (map (block_device.content (sd_block (sd c)) fs k (de_firstCluster entry)) [0..<min n (unat (dataLength entry))], fs', s')"
proof -
  note bd = sd_block_device [OF assms(1), of drv "sd c"]
  define ob where "ob = \<lparr>oflags = Flag_Valid, ooffset = 0, olength = dataLength entry, currCluster = de_firstCluster entry,
          firstCluster = de_firstCluster entry\<rparr>"
  have fh: "unat fh < kMaxFiles" "fs = fs0\<lparr>files := (files fs0)[unat fh := ob]\<rparr>"
    using file_open_entry_cases [OF assms(3,4)] assms(5) by (auto simp: ob_def)
  then have f: "files fs ! unat fh = ob" "fh_valid fs fh"
    using fs_wfD(1) [OF assms(3)] by (simp_all add: fh_valid_def) (simp add: ob_def Flag_Valid_def)
  have "card_holds view line drv (sd c) s" using assms(2) by (auto simp: card_holds_def)
  moreover have "block_device.obj_ok (sd_block (sd c)) fs k ob"
    by (simp add: block_device.obj_ok_def [OF bd] block_device.chain_def [OF bd] ob_def)
  moreover have "block_device.cold (sd_block (sd c)) fs k ob"
  proof -
    have "length (blockCache fs) = kCacheEntries" using assms(6) by (simp add: block_device.cache_ok_def [OF bd])
    then show ?thesis using assms(9) by (auto simp: block_device.cold_def [OF bd] ob_def)
  qed
  ultimately show ?thesis
    using block_device.object_read_ok [OF bd _ assms(6,7), of s ob n] assms(8) f by (auto simp: file_read_def ob_def)
qed

text \<open>A file of 100 bytes in cluster 2, on a card with a short image, opened after the cache has been emptied.\<close>

definition demo_drv :: sdcard where
  "demo_drv = SdCard \<lparr>cs = 0, det = 0, crcOn = True, idleControl = False\<rparr> 1 16 True"

definition demo_fs :: fileSysUtils where
  "demo_fs = snd (file_open_entry (blank_entry\<lparr>dataLength := 100\<rparr>) blank_fs)"

lemma demo_open:
  "file_open_entry (blank_entry\<lparr>dataLength := 100\<rparr>) blank_fs = (0, demo_fs)"
  "demo_fs = blank_fs\<lparr>files := (files blank_fs)[0 := \<lparr>oflags = Flag_Valid, ooffset = 0, olength = 100, currCluster = 2, firstCluster = 2\<rparr>]\<rparr>"
  by (simp_all add: demo_fs_def file_open_entry_def blank_fs_def kMaxFiles_def blank_entry_def replicate_4)

theorem sd_file_contents_witness:
  "\<exists>fs' s'. file_read (sd_rd (sim_spi True (sd_xf 1) (sd_csf 1)) demo_drv) 0 40 demo_fs (sd_power_on (Some \<lparr>contents = replicate 600 7, fpos = 0\<rparr>)) =
    Some (map (block_device.content (sd_block (sd (fst (bus (sd_power_on (Some \<lparr>contents = replicate 600 7, fpos = 0\<rparr>)))))) demo_fs 9 2)
      [0..<min 40 (unat (dataLength (blank_entry\<lparr>dataLength := 100\<rparr>)))], fs', s')"
proof -
  let ?f = "sd (fst (bus (sd_power_on (Some \<lparr>contents = replicate 600 7, fpos = 0\<rparr>))))"
  note bd = sim_volume.block_device_axioms [of True 1 demo_drv ?f]
  have fields: "fatStart demo_fs = 0" "clusterHeapStart demo_fs = 1" "blksPerClusterShift demo_fs = 0" "clusterBytes demo_fs = 512"
    "clusterMask demo_fs = 511" "blockCache demo_fs = replicate 8 \<lparr>ce_block = kInvalidBlock, ce_buf = replicate 512 0\<rparr>" "blockCacheNext demo_fs = 0"
    by (simp_all add: demo_open blank_fs_def)
  have ch: "block_device.chain (sd_block ?f) demo_fs 2 0 = 2" by (simp add: block_device.chain_def [OF bd])
  have db: "block_device.data_block (sd_block ?f) demo_fs 9 2 p = 1" if "p < 100" for p
  proof -
    have "p div 512 = 0" "p mod 512 = p" using that by simp_all
    moreover have "unat (drop_bit 9 (of_nat p :: u32)) = 0"
      by (simp only: unat_drop_bit_eq) (use that in \<open>simp add: drop_bit_eq_div unat_of_nat\<close>)
    then have "drop_bit 9 (of_nat p :: u32) = 0" by (simp only: unat_eq_0)
    ultimately show ?thesis
      by (simp add: block_device.data_block_def [OF bd] ch block_number_def fields kBytesPerBlockShift_def)
  qed
  have fb: "block_device.fat_block demo_fs 2 = 0" by (simp add: block_device.fat_block_def [OF bd] fields)
  have c0: "c * 2 ^ 9 < 100 \<Longrightarrow> c = 0" for c :: nat by (cases c) auto
  have "block_device.laid_out (sd_block ?f) demo_fs 9 2 100"
    unfolding block_device.laid_out_def [OF bd]
    by (intro conjI allI impI; (drule c0)?) (auto simp: db ch fb kInvalidBlock_def)
  moreover have "block_device.cache_ok (sd_block ?f) demo_fs"
    by (simp add: block_device.cache_ok_def [OF bd] fields kCacheEntries_def)
  moreover have "geometry demo_fs 9" by (simp add: geometry_def fields)
  ultimately show ?thesis
    using sd_file_contents [OF sim_slot.sd_slot_axioms power_on_parked blank_fs_wf(1) demo_open(1), where k = 9 and n = 40]
    by (simp add: fields demo_drv_def kInvalidFileHandle_def) (simp add: blank_entry_def db kInvalidBlock_def)
qed

end
