(* ===== verification/I2c_Device.thy ===== *)
theory I2c_Device
  imports Prelude
begin

unbundle bit_operations_syntax

text \<open>
  The I2C devices of the simulation (\<open>dv/dpi/i2cdpi\<close>): the EEPROM with the identification of the Raspberry Pi Sense HAT
  (\<open>i2c_hat_id\<close>), the AS621x temperature sensor (\<open>i2c_as621x\<close>) and the LSM9DS1 inertial unit (\<open>i2c_lsm9ds1\<close>), with the virtual
  functions of their common base class (\<open>i2cdevice\<close>) as a dispatch over the kinds of device.
\<close>

section \<open>The identification EEPROM\<close>

record i2c_hat_id =
  hat_byteCount :: u8
  currAddr :: u16
  mem :: "u8 list"

definition hat_kPageSize :: u16 where "hat_kPageSize = 0x20"
definition kMemSize :: u16 where "kMemSize = 0x1000"

text \<open>The captured signature the memory is initialised with.\<close>

definition hat_id :: "u8 list" where
  "hat_id = [
    0x52, 0x2d, 0x50, 0x69, 0x01, 0x00, 0x03, 0x00, 0xf0, 0x03, 0x00, 0x00, 0x01, 0x00, 0x00, 0x00,
    0x2d, 0x00, 0x00, 0x00, 0xe7, 0x58, 0xd1, 0x95, 0xf1, 0x56, 0x28, 0xab, 0xcb, 0x4e, 0x99, 0x42,
    0xc7, 0x79, 0xd6, 0xa3, 0x01, 0x00, 0x01, 0x00, 0x0c, 0x09, 0x52, 0x61, 0x73, 0x70, 0x62, 0x65,
    0x72, 0x72, 0x79, 0x20, 0x50, 0x69, 0x53, 0x65, 0x6e, 0x73, 0x65, 0x20, 0x48, 0x41, 0x54, 0x7f,
    0x27, 0x02, 0x00, 0x01, 0x00, 0x20, 0x00, 0x00, 0x00, 0x00, 0x00, 0x00, 0x00, 0x00, 0x00, 0x00,
    0x00, 0x00, 0x00, 0x00, 0x00, 0x00, 0x00, 0x00, 0x00, 0x00, 0x00, 0x00, 0x00, 0x00, 0x00, 0x00,
    0x00, 0x00, 0x00, 0x00, 0x00, 0x00, 0x00, 0xed, 0x6e, 0x03, 0x00, 0x02, 0x00, 0x7f, 0x03, 0x00,
    0x00, 0xd0, 0x0d, 0xfe, 0xed, 0x00, 0x00, 0x03, 0x7d, 0x00, 0x00, 0x00, 0x38, 0x00, 0x00, 0x03,
    0x2c, 0x00, 0x00, 0x00, 0x28, 0x00, 0x00, 0x00, 0x11, 0x00, 0x00, 0x00, 0x10, 0x00, 0x00, 0x00,
    0x00, 0x00, 0x00, 0x00, 0x51, 0x00, 0x00, 0x02, 0xf4, 0x00, 0x00, 0x00, 0x00, 0x00, 0x00, 0x00,
    0x00, 0x00, 0x00, 0x00, 0x00, 0x00, 0x00, 0x00, 0x00, 0x00, 0x00, 0x00, 0x01, 0x00, 0x00, 0x00,
    0x00, 0x00, 0x00, 0x00, 0x03, 0x00, 0x00, 0x00, 0x1a, 0x00, 0x00, 0x00, 0x00, 0x62, 0x72, 0x63,
    0x6d, 0x2c, 0x62, 0x63, 0x6d, 0x32, 0x37, 0x30, 0x38, 0x00, 0x62, 0x72, 0x63, 0x6d, 0x2c, 0x62,
    0x63, 0x6d, 0x32, 0x37, 0x30, 0x39, 0x00, 0x00, 0x00, 0x00, 0x00, 0x00, 0x01, 0x66, 0x72, 0x61,
    0x67, 0x6d, 0x65, 0x6e, 0x74, 0x40, 0x30, 0x00, 0x00, 0x00, 0x00, 0x00, 0x03, 0x00, 0x00, 0x00,
    0x04, 0x00, 0x00, 0x00, 0x0b, 0xde, 0xad, 0xbe, 0xef, 0x00, 0x00, 0x00, 0x01, 0x5f, 0x5f, 0x6f,
    0x76, 0x65, 0x72, 0x6c, 0x61, 0x79, 0x5f, 0x5f, 0x00, 0x00, 0x00, 0x00, 0x03, 0x00, 0x00, 0x00,
    0x04, 0x00, 0x00, 0x00, 0x12, 0x00, 0x00, 0x00, 0x01, 0x00, 0x00, 0x00, 0x03, 0x00, 0x00, 0x00,
    0x04, 0x00, 0x00, 0x00, 0x21, 0x00, 0x00, 0x00, 0x00, 0x00, 0x00, 0x00, 0x03, 0x00, 0x00, 0x00,
    0x05, 0x00, 0x00, 0x00, 0x2d, 0x6f, 0x6b, 0x61, 0x79, 0x00, 0x00, 0x00, 0x00, 0x00, 0x00, 0x00,
    0x01, 0x72, 0x70, 0x69, 0x2d, 0x73, 0x65, 0x6e, 0x73, 0x65, 0x40, 0x34, 0x36, 0x00, 0x00, 0x00,
    0x00, 0x00, 0x00, 0x00, 0x03, 0x00, 0x00, 0x00, 0x0e, 0x00, 0x00, 0x00, 0x00, 0x72, 0x70, 0x69,
    0x2c, 0x72, 0x70, 0x69, 0x2d, 0x73, 0x65, 0x6e, 0x73, 0x65, 0x00, 0x00, 0x00, 0x00, 0x00, 0x00,
    0x03, 0x00, 0x00, 0x00, 0x04, 0x00, 0x00, 0x00, 0x34, 0x00, 0x00, 0x00, 0x46, 0x00, 0x00, 0x00,
    0x03, 0x00, 0x00, 0x00, 0x0c, 0x00, 0x00, 0x00, 0x38, 0xde, 0xad, 0xbe, 0xef, 0x00, 0x00, 0x00,
    0x17, 0x00, 0x00, 0x00, 0x01, 0x00, 0x00, 0x00, 0x03, 0x00, 0x00, 0x00, 0x05, 0x00, 0x00, 0x00,
    0x2d, 0x6f, 0x6b, 0x61, 0x79, 0x00, 0x00, 0x00, 0x00, 0x00, 0x00, 0x00, 0x02, 0x00, 0x00, 0x00,
    0x01, 0x6c, 0x73, 0x6d, 0x39, 0x64, 0x73, 0x31, 0x2d, 0x6d, 0x61, 0x67, 0x6e, 0x40, 0x31, 0x63,
    0x00, 0x00, 0x00, 0x00, 0x03, 0x00, 0x00, 0x00, 0x10, 0x00, 0x00, 0x00, 0x00, 0x73, 0x74, 0x2c,
    0x6c, 0x73, 0x6d, 0x39, 0x64, 0x73, 0x31, 0x2d, 0x6d, 0x61, 0x67, 0x6e, 0x00, 0x00, 0x00, 0x00,
    0x03, 0x00, 0x00, 0x00, 0x04, 0x00, 0x00, 0x00, 0x34, 0x00, 0x00, 0x00, 0x1c, 0x00, 0x00, 0x00,
    0x03, 0x00, 0x00, 0x00, 0x05, 0x00, 0x00, 0x00, 0x2d, 0x6f, 0x6b, 0x61, 0x79, 0x00, 0x00, 0x00,
    0x00, 0x00, 0x00, 0x00, 0x02, 0x00, 0x00, 0x00, 0x01, 0x6c, 0x73, 0x6d, 0x39, 0x64, 0x73, 0x31,
    0x2d, 0x61, 0x63, 0x63, 0x65, 0x6c, 0x36, 0x61, 0x00, 0x00, 0x00, 0x00, 0x03, 0x00, 0x00, 0x00,
    0x11, 0x00, 0x00, 0x00, 0x00, 0x73, 0x74, 0x2c, 0x6c, 0x73, 0x6d, 0x39, 0x64, 0x73, 0x31, 0x2d,
    0x61, 0x63, 0x63, 0x65, 0x6c, 0x00, 0x00, 0x00, 0x00, 0x00, 0x00, 0x00, 0x03, 0x00, 0x00, 0x00,
    0x04, 0x00, 0x00, 0x00, 0x34, 0x00, 0x00, 0x00, 0x6a, 0x00, 0x00, 0x00, 0x03, 0x00, 0x00, 0x00,
    0x05, 0x00, 0x00, 0x00, 0x2d, 0x6f, 0x6b, 0x61, 0x79, 0x00, 0x00, 0x00, 0x00, 0x00, 0x00, 0x00,
    0x02, 0x00, 0x00, 0x00, 0x01, 0x6c, 0x70, 0x73, 0x32, 0x35, 0x68, 0x2d, 0x70, 0x72, 0x65, 0x73,
    0x73, 0x40, 0x35, 0x63, 0x00, 0x00, 0x00, 0x00, 0x03, 0x00, 0x00, 0x00, 0x10, 0x00, 0x00, 0x00,
    0x00, 0x73, 0x74, 0x2c, 0x6c, 0x70, 0x73, 0x32, 0x35, 0x68, 0x2d, 0x70, 0x72, 0x65, 0x73, 0x73,
    0x00, 0x00, 0x00, 0x00, 0x03, 0x00, 0x00, 0x00, 0x04, 0x00, 0x00, 0x00, 0x34, 0x00, 0x00, 0x00,
    0x5c, 0x00, 0x00, 0x00, 0x03, 0x00, 0x00, 0x00, 0x05, 0x00, 0x00, 0x00, 0x2d, 0x6f, 0x6b, 0x61,
    0x79, 0x00, 0x00, 0x00, 0x00, 0x00, 0x00, 0x00, 0x02, 0x00, 0x00, 0x00, 0x01, 0x68, 0x74, 0x73,
    0x32, 0x32, 0x31, 0x2d, 0x68, 0x75, 0x6d, 0x69, 0x64, 0x40, 0x35, 0x66, 0x00, 0x00, 0x00, 0x00,
    0x03, 0x00, 0x00, 0x00, 0x10, 0x00, 0x00, 0x00, 0x00, 0x73, 0x74, 0x2c, 0x68, 0x74, 0x73, 0x32,
    0x32, 0x31, 0x2d, 0x68, 0x75, 0x6d, 0x69, 0x64, 0x00, 0x00, 0x00, 0x00, 0x03, 0x00, 0x00, 0x00,
    0x04, 0x00, 0x00, 0x00, 0x34, 0x00, 0x00, 0x00, 0x5f, 0x00, 0x00, 0x00, 0x03, 0x00, 0x00, 0x00,
    0x05, 0x00, 0x00, 0x00, 0x2d, 0x6f, 0x6b, 0x61, 0x79, 0x00, 0x00, 0x00, 0x00, 0x00, 0x00, 0x00,
    0x02, 0x00, 0x00, 0x00, 0x02, 0x00, 0x00, 0x00, 0x02, 0x00, 0x00, 0x00, 0x01, 0x5f, 0x5f, 0x66,
    0x69, 0x78, 0x75, 0x70, 0x73, 0x5f, 0x5f, 0x00, 0x00, 0x00, 0x00, 0x00, 0x03, 0x00, 0x00, 0x00,
    0x15, 0x00, 0x00, 0x00, 0x47, 0x2f, 0x66, 0x72, 0x61, 0x67, 0x6d, 0x65, 0x6e, 0x74, 0x40, 0x30,
    0x3a, 0x74, 0x61, 0x72, 0x67, 0x65, 0x74, 0x3a, 0x30, 0x00, 0x00, 0x00, 0x00, 0x00, 0x00, 0x00,
    0x03, 0x00, 0x00, 0x00, 0x36, 0x00, 0x00, 0x00, 0x4c, 0x2f, 0x66, 0x72, 0x61, 0x67, 0x6d, 0x65,
    0x6e, 0x74, 0x40, 0x30, 0x2f, 0x5f, 0x5f, 0x6f, 0x76, 0x65, 0x72, 0x6c, 0x61, 0x79, 0x5f, 0x5f,
    0x2f, 0x72, 0x70, 0x69, 0x2d, 0x73, 0x65, 0x6e, 0x73, 0x65, 0x40, 0x34, 0x36, 0x3a, 0x6b, 0x65,
    0x79, 0x73, 0x2d, 0x69, 0x6e, 0x74, 0x2d, 0x67, 0x70, 0x69, 0x6f, 0x73, 0x3a, 0x30, 0x00, 0x00,
    0x00, 0x00, 0x00, 0x00, 0x02, 0x00, 0x00, 0x00, 0x02, 0x00, 0x00, 0x00, 0x09, 0x63, 0x6f, 0x6d,
    0x70, 0x61, 0x74, 0x69, 0x62, 0x6c, 0x65, 0x00, 0x74, 0x61, 0x72, 0x67, 0x65, 0x74, 0x00, 0x23,
    0x61, 0x64, 0x64, 0x72, 0x65, 0x73, 0x73, 0x2d, 0x63, 0x65, 0x6c, 0x6c, 0x73, 0x00, 0x23, 0x73,
    0x69, 0x7a, 0x65, 0x2d, 0x63, 0x65, 0x6c, 0x6c, 0x73, 0x00, 0x73, 0x74, 0x61, 0x74, 0x75, 0x73,
    0x00, 0x72, 0x65, 0x67, 0x00, 0x6b, 0x65, 0x79, 0x73, 0x2d, 0x69, 0x6e, 0x74, 0x2d, 0x67, 0x70,
    0x69, 0x6f, 0x73, 0x00, 0x69, 0x32, 0x63, 0x31, 0x00, 0x67, 0x70, 0x69, 0x6f, 0x00, 0x09, 0x75,
    0xff, 0xff, 0xff, 0xff, 0xff, 0xff, 0xff, 0xff, 0xff, 0xff, 0xff, 0xff, 0xff, 0xff, 0xff, 0xff]"

definition hat_busReset :: "i2c_hat_id \<Rightarrow> i2c_hat_id" where
  "hat_busReset d = d\<lparr>hat_byteCount := 0, currAddr := 0\<rparr>"

text \<open>The constructor; \<open>raw\<close> is the memory the object is placed in.\<close>

definition hat_new :: "i2c_hat_id \<Rightarrow> i2c_hat_id" where
  "hat_new raw = (hat_busReset raw)\<lparr>mem := blit (mem raw) 0 hat_id\<rparr>"

definition hat_startCond :: "i2c_hat_id \<Rightarrow> i2c_hat_id" where
  "hat_startCond d = d\<lparr>hat_byteCount := 0\<rparr>"

definition hat_writeByte :: "u8 \<Rightarrow> i2c_hat_id \<Rightarrow> bool \<times> i2c_hat_id" where
  "hat_writeByte inByte d =
    (let d = (if hat_byteCount d = 0 then d\<lparr>currAddr := push_bit 8 (ucast inByte)\<rparr>
              else if hat_byteCount d = 1 then d\<lparr>currAddr := currAddr d OR ucast inByte\<rparr>
              else
                let d = d\<lparr>mem := (mem d)[unat (currAddr d AND (kMemSize - 1)) := inByte], currAddr := currAddr d + 1\<rparr>
                in if currAddr d AND hat_kPageSize = 0 then d\<lparr>currAddr := currAddr d - hat_kPageSize\<rparr> else d)
     in (True, d\<lparr>hat_byteCount := hat_byteCount d + 1\<rparr>))"

text \<open>The results of a read are its verdict, the byte, the out-of-band output and the device.\<close>

definition hat_readByte :: "u32 \<Rightarrow> i2c_hat_id \<Rightarrow> bool \<times> u8 \<times> u32 \<times> i2c_hat_id" where
  "hat_readByte oobOut d = (True, mem d ! unat (currAddr d AND (kMemSize - 1)), 0, d\<lparr>currAddr := currAddr d + 1\<rparr>)"

section \<open>The temperature sensor\<close>

text \<open>\<open>rand\<close> of the C library is a sequence of values, of which \<open>rands\<close> have been used.\<close>

record i2c_as621x =
  as_byteCount :: u8
  dataHi :: u8
  config :: u16
  tlow :: u16
  thigh :: u16
  index :: u8
  rand :: "nat \<Rightarrow> u32"
  rands :: nat

definition as_busReset :: "i2c_as621x \<Rightarrow> i2c_as621x" where
  "as_busReset d = d\<lparr>index := 0, as_byteCount := 0\<rparr>"

definition as_new :: "i2c_as621x \<Rightarrow> i2c_as621x" where
  "as_new raw = as_busReset raw"

definition as_startCond :: "i2c_as621x \<Rightarrow> i2c_as621x" where
  "as_startCond d = d\<lparr>as_byteCount := 0\<rparr>"

definition as_writeByte :: "u8 \<Rightarrow> i2c_as621x \<Rightarrow> bool \<times> i2c_as621x" where
  "as_writeByte inByte d =
    (let d = (if as_byteCount d = 0 then (if drop_bit 2 (index d) = 0 then d\<lparr>index := inByte AND 3\<rparr> else d)
              else if as_byteCount d = 1 then d\<lparr>dataHi := inByte\<rparr>
              else if as_byteCount d = 2 then
                let val = push_bit 8 (ucast (dataHi d)) OR ucast inByte
                in if index d = 0 then d
                   else if index d = 1 then d\<lparr>config := val\<rparr>
                   else if index d = 2 then d\<lparr>tlow := val\<rparr>
                   else d\<lparr>thigh := val\<rparr>
              else d)
     in (True, d\<lparr>as_byteCount := as_byteCount d + 1\<rparr>))"

definition as_value :: "i2c_as621x \<Rightarrow> u16" where
  "as_value d =
    (if index d AND 3 = 0 then 0xc00 + ucast (rand d (rands d) AND 0xff)
     else if index d AND 3 = 1 then config d
     else if index d AND 3 = 2 then tlow d
     else thigh d)"

definition as_readByte :: "u32 \<Rightarrow> i2c_as621x \<Rightarrow> bool \<times> u8 \<times> u32 \<times> i2c_as621x" where
  "as_readByte oobOut d =
    (let val = as_value d;
         d = (if index d AND 3 = 0 then d\<lparr>rands := Suc (rands d)\<rparr> else d);
         outByte = (if as_byteCount d AND 1 \<noteq> 0 then ucast val else ucast (drop_bit 8 val))
     in (True, outByte, oobOut, d\<lparr>as_byteCount := as_byteCount d XOR 1\<rparr>))"

section \<open>The inertial unit\<close>

record i2c_lsm9ds1 =
  lsm_address :: u8
  regNum :: u8

definition lsm_busReset :: "i2c_lsm9ds1 \<Rightarrow> i2c_lsm9ds1" where
  "lsm_busReset d = d\<lparr>regNum := 0\<rparr>"

definition lsm_new :: "u8 \<Rightarrow> i2c_lsm9ds1" where
  "lsm_new addr = \<lparr>lsm_address = addr, regNum = 0\<rparr>"

definition lsm_writeByte :: "u8 \<Rightarrow> i2c_lsm9ds1 \<Rightarrow> bool \<times> i2c_lsm9ds1" where
  "lsm_writeByte inByte d = (True, d\<lparr>regNum := inByte\<rparr>)"

definition lsm_readByte :: "u32 \<Rightarrow> i2c_lsm9ds1 \<Rightarrow> bool \<times> u8 \<times> u32 \<times> i2c_lsm9ds1" where
  "lsm_readByte oobOut d =
    (True,
     if regNum d = 0x0f then
       if lsm_address d = 0x6a then 0x68 else if lsm_address d = 0x1c then 0x3d else 0xff
     else 0xff,
     0, d)"

section \<open>Dispatch\<close>

text \<open>A device is one of the three; \<open>Sink\<close> is an object of the base class itself.\<close>

datatype i2cdevice = Hat i2c_hat_id | As621x i2c_as621x | Lsm9ds1 i2c_lsm9ds1 | Sink

fun busReset :: "i2cdevice \<Rightarrow> i2cdevice" where
  "busReset (Hat d) = Hat (hat_busReset d)"
| "busReset (As621x d) = As621x (as_busReset d)"
| "busReset (Lsm9ds1 d) = Lsm9ds1 (lsm_busReset d)"
| "busReset Sink = Sink"

fun startCond :: "i2cdevice \<Rightarrow> i2cdevice" where
  "startCond (Hat d) = Hat (hat_startCond d)"
| "startCond (As621x d) = As621x (as_startCond d)"
| "startCond (Lsm9ds1 d) = Lsm9ds1 d"
| "startCond Sink = Sink"

text \<open>No device overrides these three.\<close>

definition restartCond :: "i2cdevice \<Rightarrow> i2cdevice" where "restartCond d = d"
definition accessStarting :: "bool \<Rightarrow> i2cdevice \<Rightarrow> i2cdevice" where "accessStarting rd d = d"
definition stopCond :: "i2cdevice \<Rightarrow> i2cdevice" where "stopCond d = d"

fun i2c_writeByte :: "u8 \<Rightarrow> i2cdevice \<Rightarrow> bool \<times> i2cdevice" where
  "i2c_writeByte b (Hat d) = map_prod id Hat (hat_writeByte b d)"
| "i2c_writeByte b (As621x d) = map_prod id As621x (as_writeByte b d)"
| "i2c_writeByte b (Lsm9ds1 d) = map_prod id Lsm9ds1 (lsm_writeByte b d)"
| "i2c_writeByte b Sink = (True, Sink)"

fun i2c_readByte :: "u32 \<Rightarrow> i2cdevice \<Rightarrow> bool \<times> u8 \<times> u32 \<times> i2cdevice" where
  "i2c_readByte oob (Hat d) = map_prod id (map_prod id (map_prod id Hat)) (hat_readByte oob d)"
| "i2c_readByte oob (As621x d) = map_prod id (map_prod id (map_prod id As621x)) (as_readByte oob d)"
| "i2c_readByte oob (Lsm9ds1 d) = map_prod id (map_prod id (map_prod id Lsm9ds1)) (lsm_readByte oob d)"
| "i2c_readByte oob Sink = (False, 0xff, 0, Sink)"

end
