(* ===== verification/I2c_Bus.thy ===== *)
theory I2c_Bus
  imports I2c_Device
begin

unbundle bit_operations_syntax

text \<open>
  The I2C bus of the simulation (\<open>i2cdpi\<close> in \<open>dv/dpi/i2cdpi\<close>): the decoder of the two lines, sample by sample. A pointer to a device is
  the address it is registered under.
\<close>

section \<open>State\<close>

datatype i2c_state =
    I2C_Idle | I2C_Start | I2C_Restart | I2C_Addr | I2C_GotAddr | I2C_SendAckNak | I2C_Data | I2C_GotData | I2C_SentData | I2C_GotAckNak

record i2cdpi =
  state :: i2c_state
  prev_rst :: bool
  prev_scl :: bool
  prev_sda :: bool
  latestOobOut :: u32
  currByte :: u8
  numBits :: u8
  currDevice :: "u8 option"
  i2c_reading :: bool
  sendAck :: bool
  devs :: "u8 \<rightharpoonup> i2cdevice"

text \<open>The constructor; it leaves \<open>state\<close> as it is in memory.\<close>

definition i2cdpi_new :: "i2c_state \<Rightarrow> i2cdpi" where
  "i2cdpi_new raw = \<lparr>state = raw, prev_rst = False, prev_scl = True, prev_sda = True, latestOobOut = 0, currByte = 0, numBits = 0,
     currDevice = None, i2c_reading = False, sendAck = True, devs = Map.empty\<rparr>"

text \<open>\<open>std::map::insert\<close> keeps an entry that is there.\<close>

definition add_device :: "u8 \<Rightarrow> i2cdevice \<Rightarrow> i2cdpi \<Rightarrow> i2cdpi" where
  "add_device addr d i2c = (if devs i2c addr = None then i2c\<lparr>devs := (devs i2c)(addr \<mapsto> d)\<rparr> else i2c)"

definition find_device :: "u8 \<Rightarrow> i2cdpi \<Rightarrow> u8 option" where
  "find_device addr i2c = (if devs i2c addr = None then None else Some addr)"

text \<open>A call on every device, and on one.\<close>

definition all_devs :: "(i2cdevice \<Rightarrow> i2cdevice) \<Rightarrow> i2cdpi \<Rightarrow> i2cdpi" where
  "all_devs f i2c = i2c\<lparr>devs := map_option f \<circ> devs i2c\<rparr>"

definition on_dev :: "u8 \<Rightarrow> (i2cdevice \<Rightarrow> i2cdevice) \<Rightarrow> i2cdpi \<Rightarrow> i2cdpi" where
  "on_dev a f i2c = i2c\<lparr>devs := (devs i2c)(a := map_option f (devs i2c a))\<rparr>"

definition start_cond :: "i2cdpi \<Rightarrow> i2cdpi" where
  "start_cond = all_devs startCond"

text \<open>The buses of the system.\<close>

definition i2cdpi_create :: "i2c_state \<Rightarrow> i2c_hat_id \<Rightarrow> i2c_as621x \<Rightarrow> string \<Rightarrow> i2cdpi" where
  "i2cdpi_create raw hat as name =
    (let i2c = i2cdpi_new raw in
     if name = ''i2c_rpi0'' then add_device 0x50 (Hat (hat_new hat)) i2c
     else if name = ''i2c_rpi1'' then add_device 0x1c (Lsm9ds1 (lsm_new 0x1c)) (add_device 0x6a (Lsm9ds1 (lsm_new 0x6a)) i2c)
     else if name = ''i2c1'' then add_device 0x48 (As621x (as_new as)) i2c
     else i2c)"

section \<open>Decoding\<close>

text \<open>The outputs are SDA, SCL and the out-of-band signals.\<close>

definition under_reset :: "i2cdpi \<Rightarrow> (bool \<times> bool) \<times> u32 \<times> i2cdpi" where
  "under_reset i2c = ((True, True), 0,
     i2c\<lparr>state := I2C_Idle, numBits := 0, currDevice := None, i2c_reading := False, sendAck := True, prev_rst := True,
       prev_scl := True, prev_sda := True, latestOobOut := 0\<rparr>)"

text \<open>The addressed device supplies its next byte; \<open>0xff\<close> if it has none.\<close>

definition read_device :: "u8 \<Rightarrow> i2cdpi \<Rightarrow> i2cdpi" where
  "read_device a i2c =
    (let (ok, b, oob, d) = i2c_readByte (latestOobOut i2c) (the (devs i2c a))
     in i2c\<lparr>devs := (devs i2c)(a \<mapsto> d), currByte := (if ok then b else 0xff), latestOobOut := oob\<rparr>)"

definition write_device :: "u8 \<Rightarrow> i2cdpi \<Rightarrow> i2cdpi" where
  "write_device a i2c =
    (let (ack, d) = i2c_writeByte (currByte i2c) (the (devs i2c a)) in i2c\<lparr>devs := (devs i2c)(a \<mapsto> d), sendAck := ack\<rparr>)"

definition shift_bit :: "bool \<Rightarrow> i2cdpi \<Rightarrow> i2cdpi" where
  "shift_bit b i2c = i2c\<lparr>currByte := push_bit 1 (currByte i2c) OR (if b then 1 else 0), numBits := numBits i2c + 1\<rparr>"

definition decode_addr :: "bool \<Rightarrow> bool \<Rightarrow> i2cdpi \<Rightarrow> i2cdpi" where
  "decode_addr scl sda i2c =
    (if \<not> prev_scl i2c \<and> scl then
       let i2c = shift_bit sda i2c in
       if numBits i2c \<ge> 8 then
         let addr = drop_bit 1 (currByte i2c);
             i2c = i2c\<lparr>i2c_reading := (currByte i2c AND 1 \<noteq> 0), currDevice := find_device addr i2c\<rparr>;
             i2c = (case currDevice i2c of
                      Some a \<Rightarrow>
                        let i2c = on_dev a (accessStarting (i2c_reading i2c)) i2c;
                            i2c = (if i2c_reading i2c then read_device a i2c else i2c)
                        in i2c\<lparr>sendAck := True\<rparr>
                    | None \<Rightarrow> i2c\<lparr>sendAck := False\<rparr>)
         in i2c\<lparr>numBits := 0, state := I2C_GotAddr\<rparr>
       else i2c
     else i2c)"

definition decode_sent :: "bool \<Rightarrow> bool \<Rightarrow> i2cdpi \<Rightarrow> i2cdpi" where
  "decode_sent scl sda i2c =
    (if \<not> prev_scl i2c \<and> scl then
       let i2c = (if \<not> sda then read_device (the (currDevice i2c)) i2c else i2c)
       in i2c\<lparr>numBits := 0, state := I2C_GotAckNak\<rparr>
     else i2c)"

text \<open>The new state and SDA.\<close>

definition decode_data :: "bool \<Rightarrow> bool \<Rightarrow> i2cdpi \<Rightarrow> i2cdpi \<times> bool" where
  "decode_data scl sda i2c =
    (if scl \<and> \<not> prev_sda i2c \<and> sda then
       ((case currDevice i2c of Some a \<Rightarrow> (on_dev a stopCond i2c)\<lparr>currDevice := None\<rparr> | None \<Rightarrow> i2c)\<lparr>state := I2C_Idle\<rparr>, True)
     else if scl \<and> prev_sda i2c \<and> \<not> sda then
       ((case currDevice i2c of Some a \<Rightarrow> (on_dev a restartCond i2c)\<lparr>currDevice := None\<rparr> | None \<Rightarrow> i2c)\<lparr>state := I2C_Addr, numBits := 0\<rparr>, True)
     else case currDevice i2c of
       None \<Rightarrow> (i2c, True)
     | Some a \<Rightarrow>
         if i2c_reading i2c then
           (if prev_scl i2c \<and> \<not> scl then
              let i' = shift_bit True i2c in if numBits i' \<ge> 8 then i'\<lparr>state := I2C_SentData\<rparr> else i'
            else i2c,
            currByte i2c AND 0x80 \<noteq> 0)
         else
           (if \<not> prev_scl i2c \<and> scl then
              let i' = shift_bit sda i2c in if numBits i' \<ge> 8 then (write_device a i')\<lparr>numBits := 0, state := I2C_GotData\<rparr> else i'
            else i2c,
            True))"

text \<open>The switch over the state.\<close>

definition decode_state :: "bool \<Rightarrow> bool \<Rightarrow> i2cdpi \<Rightarrow> i2cdpi \<times> bool" where
  "decode_state scl sda i2c =
    (case state i2c of
       I2C_Idle \<Rightarrow> (if prev_sda i2c \<and> \<not> sda then (start_cond i2c)\<lparr>state := I2C_Addr, numBits := 0\<rparr> else i2c, True)
     | I2C_Addr \<Rightarrow> (decode_addr scl sda i2c, True)
     | I2C_GotAddr \<Rightarrow> if prev_scl i2c \<and> \<not> scl then (i2c\<lparr>state := I2C_SendAckNak\<rparr>, \<not> sendAck i2c) else (i2c, True)
     | I2C_GotData \<Rightarrow> if prev_scl i2c \<and> \<not> scl then (i2c\<lparr>state := I2C_SendAckNak\<rparr>, \<not> sendAck i2c) else (i2c, True)
     | I2C_SendAckNak \<Rightarrow> (if prev_scl i2c \<and> \<not> scl then i2c\<lparr>state := I2C_Data\<rparr> else i2c, currDevice i2c = None)
     | I2C_SentData \<Rightarrow> (decode_sent scl sda i2c, True)
     | I2C_GotAckNak \<Rightarrow> (if prev_scl i2c \<and> \<not> scl then i2c\<lparr>state := I2C_Data\<rparr> else i2c, True)
     | I2C_Data \<Rightarrow> decode_data scl sda i2c
     | _ \<Rightarrow> (i2c\<lparr>state := I2C_Idle\<rparr>, True))"

definition decode :: "bool \<Rightarrow> bool \<Rightarrow> i2cdpi \<Rightarrow> (bool \<times> bool) \<times> u32 \<times> i2cdpi" where
  "decode scl sda i2c =
    (let i2c = (if prev_rst i2c then (all_devs busReset i2c)\<lparr>prev_rst := False\<rparr> else i2c);
         (i2c, sda_out) = decode_state scl sda i2c
     in ((sda_out, True), latestOobOut i2c, i2c\<lparr>prev_sda := sda, prev_scl := scl\<rparr>))"

text \<open>The functions called from the hardware description: bit 0 is SCL, bit 1 is SDA, the out-of-band signals follow.\<close>

definition pack_lines :: "(bool \<times> bool) \<times> u32 \<times> i2cdpi \<Rightarrow> u32 \<times> i2cdpi" where
  "pack_lines r = (case r of ((sda, scl), oob, i2c) \<Rightarrow>
     (push_bit 2 oob OR ((push_bit 1 (of_bool sda) OR of_bool scl) AND 3), i2c))"

definition i2cdpi_under_reset :: "u32 \<Rightarrow> i2cdpi \<Rightarrow> u32 \<times> i2cdpi" where
  "i2cdpi_under_reset sda_scl i2c = pack_lines (under_reset i2c)"

definition i2cdpi_decode :: "u32 \<Rightarrow> i2cdpi \<Rightarrow> u32 \<times> i2cdpi" where
  "i2cdpi_decode sda_scl i2c = pack_lines (decode (sda_scl AND 1 \<noteq> 0) (sda_scl AND 2 \<noteq> 0) i2c)"

section \<open>A controller\<close>

text \<open>What the lines carry: a list of samples \<open>(scl, sda)\<close>, and the level the bus model drives SDA to after each.\<close>

fun samples :: "(bool \<times> bool) list \<Rightarrow> i2cdpi \<Rightarrow> bool list \<times> i2cdpi" where
  "samples [] i2c = ([], i2c)"
| "samples ((scl, sda) # ss) i2c =
    (let ((o1, _), _, i2c) = decode scl sda i2c; (os, i2c) = samples ss i2c in (o1 # os, i2c))"

definition start_wave :: "(bool \<times> bool) list" where "start_wave = [(True, False), (False, False)]"
definition bit_wave :: "bool \<Rightarrow> (bool \<times> bool) list" where "bit_wave b = [(False, b), (True, b), (False, b)]"
definition stop_wave :: "(bool \<times> bool) list" where "stop_wave = [(False, False), (True, False), (True, True)]"
definition restart_wave :: "(bool \<times> bool) list" where "restart_wave = [(False, True), (True, True), (True, False), (False, False)]"

text \<open>One bit: what is sampled while SCL is high.\<close>

definition clock_bit :: "bool \<Rightarrow> i2cdpi \<Rightarrow> bool \<times> i2cdpi" where
  "clock_bit b i2c = (let (os, i2c) = samples (bit_wave b) i2c in (os ! 1, i2c))"

fun clock_bits :: "bool list \<Rightarrow> i2cdpi \<Rightarrow> bool list \<times> i2cdpi" where
  "clock_bits [] i2c = ([], i2c)"
| "clock_bits (b # bs) i2c = (let (x, i2c) = clock_bit b i2c; (xs, i2c) = clock_bits bs i2c in (x # xs, i2c))"

text \<open>The controller sends a byte and samples the acknowledgement.\<close>

definition send_byte :: "u8 \<Rightarrow> i2cdpi \<Rightarrow> bool \<times> i2cdpi" where
  "send_byte w i2c = (let (_, i2c) = clock_bits (msb_first w) i2c; (nak, i2c) = clock_bit True i2c in (\<not> nak, i2c))"

text \<open>It receives a byte and sends an acknowledgement or not.\<close>

definition recv_byte :: "bool \<Rightarrow> i2cdpi \<Rightarrow> bool list \<times> i2cdpi" where
  "recv_byte ack i2c = (let (xs, i2c) = clock_bits (replicate 8 True) i2c; (_, i2c) = clock_bit (\<not> ack) i2c in (xs, i2c))"

fun send_bytes :: "u8 list \<Rightarrow> i2cdpi \<Rightarrow> bool list \<times> i2cdpi" where
  "send_bytes [] i2c = ([], i2c)"
| "send_bytes (w # ws) i2c = (let (a, i2c) = send_byte w i2c; (as, i2c) = send_bytes ws i2c in (a # as, i2c))"

text \<open>All bytes but the last are acknowledged.\<close>

fun recv_bytes :: "nat \<Rightarrow> i2cdpi \<Rightarrow> bool list list \<times> i2cdpi" where
  "recv_bytes 0 i2c = ([], i2c)"
| "recv_bytes (Suc n) i2c = (let (x, i2c) = recv_byte (n \<noteq> 0) i2c; (xs, i2c) = recv_bytes n i2c in (x # xs, i2c))"

definition wave :: "(bool \<times> bool) list \<Rightarrow> i2cdpi \<Rightarrow> i2cdpi" where
  "wave ss i2c = snd (samples ss i2c)"

text \<open>A transaction that writes bytes, and one that reads some.\<close>

definition i2c_write :: "u8 \<Rightarrow> u8 list \<Rightarrow> i2cdpi \<Rightarrow> bool list \<times> i2cdpi" where
  "i2c_write a ws i2c =
    (let i2c = wave start_wave i2c; (as, i2c) = send_bytes (push_bit 1 a # ws) i2c in (as, wave stop_wave i2c))"

definition i2c_read :: "u8 \<Rightarrow> nat \<Rightarrow> i2cdpi \<Rightarrow> bool \<times> bool list list \<times> i2cdpi" where
  "i2c_read a n i2c =
    (let i2c = wave start_wave i2c; (ak, i2c) = send_byte (push_bit 1 a OR 1) i2c; (xs, i2c) = recv_bytes n i2c in (ak, xs, wave stop_wave i2c))"

section \<open>Bits\<close>

lemmas decode_defs = decode_def decode_state_def Let_def split_def

lemma shift_bit_eq: "shift_bit b i2c = i2c\<lparr>currByte := shift_in (currByte i2c) b, numBits := numBits i2c + 1\<rparr>"
  by (simp add: shift_bit_def shift_in_def)

lemma clock_bit_samples: "clock_bit b i2c =
   (let ((o1, _), _, i1) = decode False b i2c; ((o2, _), _, i2) = decode True b i1; ((o3, _), _, i3) = decode False b i2 in (o2, i3))"
  by (simp add: clock_bit_def bit_wave_def Let_def split_def)

lemma numBits_less: "unat (n :: u8) < 7 \<Longrightarrow> \<not> n + 1 \<ge> 8"
  by (simp add: word_le_nat_alt unat_word_ariths)

lemma numBits_last: "unat (n :: u8) = 7 \<Longrightarrow> n + 1 = 8"
  by (simp add: word_unat_eq_iff unat_word_ariths)

text \<open>In the address phase.\<close>

lemma clock_bit_addr:
  assumes "state i2c = I2C_Addr" "\<not> prev_rst i2c" "\<not> prev_scl i2c" "unat (numBits i2c) < 7"
  shows "clock_bit b i2c = (True, i2c\<lparr>currByte := shift_in (currByte i2c) b, numBits := numBits i2c + 1, prev_sda := b\<rparr>)"
  using assms numBits_less [OF assms(4)]
  by (cases i2c) (simp add: clock_bit_samples decode_defs decode_addr_def shift_bit_eq)

lemma clock_bits_addr:
  assumes "state i2c = I2C_Addr" "\<not> prev_rst i2c" "\<not> prev_scl i2c" "unat (numBits i2c) + length bs \<le> 7"
  shows "snd (clock_bits bs i2c) = i2c\<lparr>currByte := foldl shift_in (currByte i2c) bs, numBits := numBits i2c + of_nat (length bs),
     prev_sda := (if bs = [] then prev_sda i2c else last bs)\<rparr>"
  using assms
proof (induction bs arbitrary: i2c)
  case (Cons b bs)
  have "unat (numBits i2c + 1) = unat (numBits i2c) + 1" using Cons.prems(4) by (simp add: unat_word_ariths)
  then show ?case
    using Cons.prems Cons.IH [of "i2c\<lparr>currByte := shift_in (currByte i2c) b, numBits := numBits i2c + 1, prev_sda := b\<rparr>"]
    by (simp add: clock_bit_addr Let_def split_def add.assoc)
qed simp

text \<open>The state at the end of the acknowledgement of a byte, and before the next.\<close>

definition at_data :: "i2cdpi \<Rightarrow> u8 option \<Rightarrow> bool \<Rightarrow> (u8 \<rightharpoonup> i2cdevice) \<Rightarrow> bool" where
  "at_data i2c a r D \<longleftrightarrow> state i2c = I2C_Data \<and> \<not> prev_rst i2c \<and> \<not> prev_scl i2c \<and> numBits i2c = 0 \<and> currDevice i2c = a \<and>
     i2c_reading i2c = r \<and> devs i2c = D"

definition at_addr :: "i2cdpi \<Rightarrow> (u8 \<rightharpoonup> i2cdevice) \<Rightarrow> bool" where
  "at_addr i2c D \<longleftrightarrow> state i2c = I2C_Addr \<and> \<not> prev_rst i2c \<and> \<not> prev_scl i2c \<and> numBits i2c = 0 \<and> devs i2c = D"

definition at_idle :: "i2cdpi \<Rightarrow> (u8 \<rightharpoonup> i2cdevice) \<Rightarrow> bool" where
  "at_idle i2c D \<longleftrightarrow> state i2c = I2C_Idle \<and> \<not> prev_rst i2c \<and> prev_scl i2c \<and> prev_sda i2c \<and> devs i2c = D"

lemma msb_first_last_bit: "msb_first w = map (bit w) [7, 6, 5, 4, 3, 2, 1] @ [bit w 0]"
  by (simp add: msb_first_def)

lemma clock_bits_append: "snd (clock_bits (xs @ ys) i2c) = snd (clock_bits ys (snd (clock_bits xs i2c)))"
  by (induction xs arbitrary: i2c) (simp_all add: Let_def split_def)

lemma foldl_msb7: "shift_in (foldl shift_in c (map (bit w) [7, 6, 5, 4, 3, 2, 1])) (bit w 0) = w"
  using foldl_shift_in_msb_first [of c w] by (simp add: msb_first_last_bit)

lemma start_at_addr:
  assumes "at_idle i2c D"
  shows "at_addr (wave start_wave i2c) (map_option startCond \<circ> D)"
  using assms by (simp add: at_idle_def at_addr_def wave_def start_wave_def decode_defs start_cond_def all_devs_def decode_addr_def)

lemma on_dev_simps [simp]: "devs (on_dev a f i2c) = (devs i2c)(a := map_option f (devs i2c a))" "state (on_dev a f i2c) = state i2c"
  "prev_rst (on_dev a f i2c) = prev_rst i2c" "prev_scl (on_dev a f i2c) = prev_scl i2c" "prev_sda (on_dev a f i2c) = prev_sda i2c"
  "currByte (on_dev a f i2c) = currByte i2c" "numBits (on_dev a f i2c) = numBits i2c" "currDevice (on_dev a f i2c) = currDevice i2c"
  "i2c_reading (on_dev a f i2c) = i2c_reading i2c" "sendAck (on_dev a f i2c) = sendAck i2c"
  by (simp_all add: on_dev_def)

lemma on_dev_access [simp]: "on_dev a (accessStarting r) i2c = i2c"
  by (cases i2c) (simp add: on_dev_def accessStarting_def [abs_def] option.map_ident)

lemma on_dev_stop [simp]: "on_dev a stopCond i2c = i2c" "on_dev a restartCond i2c = i2c"
  by (cases i2c; simp add: on_dev_def stopCond_def [abs_def] restartCond_def [abs_def] option.map_ident)+

lemma read_device_simps [simp]: "state (read_device a i2c) = state i2c"
  "prev_rst (read_device a i2c) = prev_rst i2c" "prev_scl (read_device a i2c) = prev_scl i2c" "prev_sda (read_device a i2c) = prev_sda i2c"
  "numBits (read_device a i2c) = numBits i2c" "currDevice (read_device a i2c) = currDevice i2c"
  "i2c_reading (read_device a i2c) = i2c_reading i2c" "sendAck (read_device a i2c) = sendAck i2c"
  by (simp_all add: read_device_def Let_def split_def)

lemma write_device_simps [simp]: "state (write_device a i2c) = state i2c"
  "prev_rst (write_device a i2c) = prev_rst i2c" "prev_scl (write_device a i2c) = prev_scl i2c" "prev_sda (write_device a i2c) = prev_sda i2c"
  "numBits (write_device a i2c) = numBits i2c" "currDevice (write_device a i2c) = currDevice i2c"
  "i2c_reading (write_device a i2c) = i2c_reading i2c"
  by (simp_all add: write_device_def Let_def split_def)

text \<open>What reading a device gives, whatever the out-of-band signals.\<close>

definition next_byte :: "i2cdevice \<Rightarrow> u8" where
  "next_byte d = (let (ok, b, _, _) = i2c_readByte 0 d in if ok then b else 0xff)"

definition next_dev :: "i2cdevice \<Rightarrow> i2cdevice" where
  "next_dev d = snd (snd (snd (i2c_readByte 0 d)))"

lemma readByte_oob:
  "(if fst (i2c_readByte oob d) then fst (snd (i2c_readByte oob d)) else 0xff) = next_byte d" "snd (snd (snd (i2c_readByte oob d))) = next_dev d"
  by (cases d; simp add: next_byte_def next_dev_def hat_readByte_def as_readByte_def lsm_readByte_def Let_def)+

lemma read_device_byte: "currByte (read_device a i2c) = next_byte (the (devs i2c a))" 
  "devs (read_device a i2c) = (devs i2c)(a \<mapsto> next_dev (the (devs i2c a)))"
  using readByte_oob by (simp_all add: read_device_def Let_def split_def)

section \<open>Bytes\<close>

text \<open>The address byte: the device it names, if any, acknowledges; for a read it supplies its first byte.\<close>

lemma decode_addr_last:
  assumes "\<not> prev_rst i2c" "\<not> prev_scl i2c" "unat (numBits i2c) = 7" "devs i2c = D"
    "shift_in (currByte i2c) b = w" "a = drop_bit 1 w"
  shows "state (decode_addr True b i2c) = I2C_GotAddr" "\<not> prev_rst (decode_addr True b i2c)" "numBits (decode_addr True b i2c) = 0"
    "currDevice (decode_addr True b i2c) = (if D a = None then None else Some a)" "i2c_reading (decode_addr True b i2c) = bit w 0"
    "devs (decode_addr True b i2c) = (if D a \<noteq> None \<and> bit w 0 then D(a \<mapsto> next_dev (the (D a))) else D)"
    "D a \<noteq> None \<Longrightarrow> bit w 0 \<Longrightarrow> currByte (decode_addr True b i2c) = next_byte (the (D a))"
proof -
  have n: "numBits i2c + 1 = 8" using numBits_last [OF assms(3)] .
  have r: "w AND 1 \<noteq> 0 \<longleftrightarrow> bit w 0" by (simp add: bit_iff_and_push_bit_not_eq_0)
  define i1 where "i1 = (shift_bit b i2c)\<lparr>i2c_reading := bit w 0, currDevice := find_device a (shift_bit b i2c)\<rparr>"
  have "decode_addr True b i2c = (case currDevice i1 of
      Some a \<Rightarrow> (let i = on_dev a (accessStarting (i2c_reading i1)) i1 in (if i2c_reading i then read_device a i else i)\<lparr>sendAck := True\<rparr>)
    | None \<Rightarrow> i1\<lparr>sendAck := False\<rparr>)\<lparr>numBits := 0, state := I2C_GotAddr\<rparr>"
    using assms(2,5,6) n r by (cases "find_device a (shift_bit b i2c)") (simp_all add: decode_addr_def i1_def shift_bit_eq Let_def)
  moreover have "currDevice i1 = (if D a = None then None else Some a)" "i2c_reading i1 = bit w 0" "devs i1 = D" "\<not> prev_rst i1"
    using assms(1,4) by (simp_all add: i1_def find_device_def shift_bit_eq)
  ultimately show "state (decode_addr True b i2c) = I2C_GotAddr" "\<not> prev_rst (decode_addr True b i2c)" "numBits (decode_addr True b i2c) = 0"
    "currDevice (decode_addr True b i2c) = (if D a = None then None else Some a)" "i2c_reading (decode_addr True b i2c) = bit w 0"
    "devs (decode_addr True b i2c) = (if D a \<noteq> None \<and> bit w 0 then D(a \<mapsto> next_dev (the (D a))) else D)"
    "D a \<noteq> None \<Longrightarrow> bit w 0 \<Longrightarrow> currByte (decode_addr True b i2c) = next_byte (the (D a))"
    by (cases "D a"; cases "bit w 0"; simp add: Let_def read_device_byte accessStarting_def; fail)+
qed

lemma decode_addr_hold: "\<not> scl \<Longrightarrow> decode_addr scl sda i2c = i2c"
  by (simp add: decode_addr_def)

lemma clock_bit_addr_last:
  assumes "state i2c = I2C_Addr" "\<not> prev_rst i2c" "\<not> prev_scl i2c" "unat (numBits i2c) = 7"
  shows "clock_bit b i2c = (True, (decode_addr True b (i2c\<lparr>prev_sda := b\<rparr>))\<lparr>state := I2C_SendAckNak, prev_sda := b, prev_scl := False\<rparr>)"
proof -
  define i1 where "i1 = i2c\<lparr>prev_sda := b\<rparr>"
  have i1: "i2c\<lparr>prev_sda := b, prev_scl := False\<rparr> = i1" using assms(3) by (cases i2c) (simp add: i1_def)
  have "\<not> prev_rst (decode_addr True b i1)" "state (decode_addr True b i1) = I2C_GotAddr"
    using decode_addr_last(1,2) [of i1 "devs i1" b "shift_in (currByte i1) b" "drop_bit 1 (shift_in (currByte i1) b)"] assms
    by (simp_all add: i1_def)
  then have d: "decode True b i1 = ((True, True), latestOobOut (decode_addr True b i1), (decode_addr True b i1)\<lparr>prev_sda := b, prev_scl := True\<rparr>)"
    "decode False b ((decode_addr True b i1)\<lparr>prev_sda := b, prev_scl := True\<rparr>) =
      ((\<not> sendAck (decode_addr True b i1), True), latestOobOut (decode_addr True b i1),
       (decode_addr True b i1)\<lparr>state := I2C_SendAckNak, prev_sda := b, prev_scl := False\<rparr>)"
    using assms(1,2) by (simp_all add: decode_defs) (simp add: i1_def)
  have "decode False b i2c = ((True, True), latestOobOut i2c, i1)"
    using assms(1,2) i1 by (simp add: decode_defs decode_addr_hold)
  then show ?thesis unfolding clock_bit_samples by (simp add: d Let_def i1_def [symmetric])
qed

lemma ack_bit:
  assumes "state i2c = I2C_SendAckNak" "\<not> prev_rst i2c" "\<not> prev_scl i2c"
  shows "clock_bit True i2c = (currDevice i2c = None, i2c\<lparr>state := I2C_Data, prev_sda := True\<rparr>)"
  using assms by (cases i2c) (simp add: clock_bit_samples decode_defs)

lemma send_address:
  assumes "at_addr i2c D" "a = drop_bit 1 w"
  shows "fst (send_byte w i2c) \<longleftrightarrow> D a \<noteq> None"
    and "at_data (snd (send_byte w i2c)) (if D a = None then None else Some a) (bit w 0)
       (if D a \<noteq> None \<and> bit w 0 then D(a \<mapsto> next_dev (the (D a))) else D)"
    and "D a \<noteq> None \<Longrightarrow> bit w 0 \<Longrightarrow> currByte (snd (send_byte w i2c)) = next_byte (the (D a))"
proof -
  let ?bs = "map (bit w) [7, 6, 5, 4, 3, 2, 1]"
  define i7 where "i7 = snd (clock_bits ?bs i2c)"
  have i7: "i7 = i2c\<lparr>currByte := foldl shift_in (currByte i2c) ?bs, numBits := 7, prev_sda := bit w 1\<rparr>"
    using clock_bits_addr [of i2c ?bs] assms(1) by (simp add: i7_def at_addr_def)
  define j7 where "j7 = i7\<lparr>prev_sda := bit w 0\<rparr>"
  have f: "state i7 = I2C_Addr" "\<not> prev_rst i7" "\<not> prev_scl i7" "unat (numBits i7) = 7"
    using assms(1) by (simp_all add: i7 at_addr_def)
  have g: "\<not> prev_rst j7" "\<not> prev_scl j7" "unat (numBits j7) = 7" "devs j7 = D"
    using assms(1) by (simp_all add: j7_def i7 at_addr_def)
  have w: "shift_in (currByte j7) (bit w 0) = w" using foldl_msb7 [of "currByte i2c" w] by (simp add: j7_def i7)
  note r = decode_addr_last [OF g w assms(2)]
  define i8 where "i8 = (decode_addr True (bit w 0) j7)\<lparr>state := I2C_SendAckNak, prev_sda := bit w 0, prev_scl := False\<rparr>"
  have c: "clock_bit (bit w 0) i7 = (True, i8)"
    using clock_bit_addr_last [OF f] by (simp add: i8_def j7_def)
  have a: "clock_bit True i8 = (currDevice i8 = None, i8\<lparr>state := I2C_Data, prev_sda := True\<rparr>)"
    by (rule ack_bit) (simp_all add: i8_def r(2))
  have eq: "send_byte w i2c = (\<not> currDevice i8 = None, i8\<lparr>state := I2C_Data, prev_sda := True\<rparr>)"
    unfolding send_byte_def msb_first_last_bit Let_def split_def clock_bits_append i7_def [symmetric] by (simp add: c a)
  show "fst (send_byte w i2c) \<longleftrightarrow> D a \<noteq> None" unfolding eq by (simp add: i8_def r(4))
  show "at_data (snd (send_byte w i2c)) (if D a = None then None else Some a) (bit w 0)
       (if D a \<noteq> None \<and> bit w 0 then D(a \<mapsto> next_dev (the (D a))) else D)"
    unfolding eq at_data_def using r(2-6) by (simp add: i8_def)
  show "D a \<noteq> None \<Longrightarrow> bit w 0 \<Longrightarrow> currByte (snd (send_byte w i2c)) = next_byte (the (D a))"
    unfolding eq using r(7) by (simp add: i8_def)
qed

text \<open>A byte written to the addressed device.\<close>

lemma clock_bit_write:
  assumes "state i2c = I2C_Data" "\<not> prev_rst i2c" "\<not> prev_scl i2c" "currDevice i2c = Some a" "\<not> i2c_reading i2c" "unat (numBits i2c) < 7"
  shows "clock_bit b i2c = (True, i2c\<lparr>currByte := shift_in (currByte i2c) b, numBits := numBits i2c + 1, prev_sda := b\<rparr>)"
  using assms numBits_less [OF assms(6)]
  by (cases i2c) (simp add: clock_bit_samples decode_defs decode_data_def shift_bit_eq)

lemma clock_bits_write:
  assumes "state i2c = I2C_Data" "\<not> prev_rst i2c" "\<not> prev_scl i2c" "currDevice i2c = Some a" "\<not> i2c_reading i2c" "unat (numBits i2c) + length bs \<le> 7"
  shows "snd (clock_bits bs i2c) = i2c\<lparr>currByte := foldl shift_in (currByte i2c) bs, numBits := numBits i2c + of_nat (length bs),
     prev_sda := (if bs = [] then prev_sda i2c else last bs)\<rparr>"
  using assms
proof (induction bs arbitrary: i2c)
  case (Cons b bs)
  have "unat (numBits i2c + 1) = unat (numBits i2c) + 1" using Cons.prems(6) by (simp add: unat_word_ariths)
  then show ?case
    using Cons.prems Cons.IH [of "i2c\<lparr>currByte := shift_in (currByte i2c) b, numBits := numBits i2c + 1, prev_sda := b\<rparr>"]
    by (simp add: clock_bit_write Let_def split_def add.assoc)
qed simp

lemma write_device_prev: "(write_device a i2c)\<lparr>prev_sda := x, prev_scl := y\<rparr> = write_device a (i2c\<lparr>prev_sda := x, prev_scl := y\<rparr>)"
  by (cases i2c) (simp add: write_device_def Let_def split_def)

lemma clock_bit_write_last:
  assumes "state i2c = I2C_Data" "\<not> prev_rst i2c" "\<not> prev_scl i2c" "currDevice i2c = Some a" "\<not> i2c_reading i2c" "unat (numBits i2c) = 7"
    "shift_in (currByte i2c) b = w"
  shows "clock_bit b i2c = (True, (write_device a (i2c\<lparr>currByte := w, numBits := 8, prev_sda := b\<rparr>))\<lparr>numBits := 0, state := I2C_SendAckNak, prev_scl := False\<rparr>)"
proof -
  have n: "numBits i2c + 1 = 8" using numBits_last [OF assms(6)] .
  show ?thesis
    using assms n by (cases i2c) (simp add: clock_bit_samples decode_defs decode_data_def shift_bit_eq write_device_def)
qed

lemma send_data:
  assumes "at_data i2c (Some a) False D" "D a = Some d"
  shows "fst (send_byte w i2c)"
    and "at_data (snd (send_byte w i2c)) (Some a) False (D(a \<mapsto> snd (i2c_writeByte w d)))"
proof -
  let ?bs = "map (bit w) [7, 6, 5, 4, 3, 2, 1]"
  define i7 where "i7 = snd (clock_bits ?bs i2c)"
  have i7: "i7 = i2c\<lparr>currByte := foldl shift_in (currByte i2c) ?bs, numBits := 7, prev_sda := bit w 1\<rparr>"
    using clock_bits_write [of i2c a ?bs] assms(1) by (simp add: i7_def at_data_def)
  have b: "shift_in (currByte i7) (bit w 0) = w" using foldl_msb7 [of "currByte i2c" w] by (simp add: i7)
  define i8 where "i8 = (write_device a (i7\<lparr>currByte := w, numBits := 8, prev_sda := bit w 0\<rparr>))\<lparr>numBits := 0, state := I2C_SendAckNak, prev_scl := False\<rparr>"
  have c: "clock_bit (bit w 0) i7 = (True, i8)"
    using clock_bit_write_last [of i7 a "bit w 0" w] assms(1) b by (simp add: i8_def i7 at_data_def)
  have f: "state i8 = I2C_SendAckNak" "\<not> prev_rst i8" "\<not> prev_scl i8" "numBits i8 = 0" "currDevice i8 = Some a" "\<not> i2c_reading i8"
     "devs i8 = D(a \<mapsto> snd (i2c_writeByte w d))"
    using assms by (simp_all add: i8_def i7 at_data_def write_device_def Let_def split_def)
  have eq: "send_byte w i2c = (True, i8\<lparr>state := I2C_Data, prev_sda := True\<rparr>)"
    unfolding send_byte_def msb_first_last_bit Let_def split_def clock_bits_append i7_def [symmetric] by (simp add: c ack_bit [OF f(1-3)] f(5))
  show "fst (send_byte w i2c)" "at_data (snd (send_byte w i2c)) (Some a) False (D(a \<mapsto> snd (i2c_writeByte w d)))"
    unfolding eq at_data_def using f by simp_all
qed

text \<open>A byte read from the addressed device.\<close>

lemma clock_bit_read:
  assumes "state i2c = I2C_Data" "\<not> prev_rst i2c" "\<not> prev_scl i2c" "currDevice i2c = Some a" "i2c_reading i2c" "unat (numBits i2c) < 7"
  shows "clock_bit True i2c = (bit (currByte i2c) 7,
    i2c\<lparr>currByte := shift_in (currByte i2c) True, numBits := numBits i2c + 1, prev_sda := True\<rparr>)"
proof -
  have "currByte i2c AND 0x80 \<noteq> 0 \<longleftrightarrow> bit (currByte i2c) 7" by (simp add: bit_iff_and_push_bit_not_eq_0 push_bit_eq_mult)
  then show ?thesis
    using assms numBits_less [OF assms(6)]
    by (cases i2c) (simp add: clock_bit_samples decode_defs decode_data_def shift_bit_eq)
qed

lemma clock_bit_read_last:
  assumes "state i2c = I2C_Data" "\<not> prev_rst i2c" "\<not> prev_scl i2c" "currDevice i2c = Some a" "i2c_reading i2c" "unat (numBits i2c) = 7"
  shows "clock_bit True i2c = (bit (currByte i2c) 7,
    i2c\<lparr>currByte := shift_in (currByte i2c) True, numBits := 8, prev_sda := True, state := I2C_SentData\<rparr>)"
proof -
  have "currByte i2c AND 0x80 \<noteq> 0 \<longleftrightarrow> bit (currByte i2c) 7" by (simp add: bit_iff_and_push_bit_not_eq_0 push_bit_eq_mult)
  then show ?thesis
    using assms numBits_last [OF assms(6)]
    by (cases i2c) (simp add: clock_bit_samples decode_defs decode_data_def shift_bit_eq)
qed

text \<open>The bits that come out are the top bits of the byte; ones are shifted in.\<close>

fun ones_in :: "nat \<Rightarrow> u8 \<Rightarrow> u8" where
  "ones_in 0 c = c"
| "ones_in (Suc n) c = ones_in n (shift_in c True)"

lemma clock_bits_read:
  assumes "state i2c = I2C_Data" "\<not> prev_rst i2c" "\<not> prev_scl i2c" "currDevice i2c = Some a" "i2c_reading i2c" "unat (numBits i2c) + n \<le> 7"
  shows "clock_bits (replicate n True) i2c = (map (\<lambda>k. bit (currByte i2c) (7 - k)) [0..<n],
     i2c\<lparr>currByte := ones_in n (currByte i2c), numBits := numBits i2c + of_nat n, prev_sda := (n \<noteq> 0 \<or> prev_sda i2c)\<rparr>)"
  using assms
proof (induction n arbitrary: i2c)
  case (Suc n)
  define i1 where "i1 = i2c\<lparr>currByte := shift_in (currByte i2c) True, numBits := numBits i2c + 1, prev_sda := True\<rparr>"
  have u: "unat (numBits i2c + 1) = unat (numBits i2c) + 1" using Suc.prems(6) by (simp add: unat_word_ariths)
  have c: "clock_bit True i2c = (bit (currByte i2c) 7, i1)" using Suc.prems clock_bit_read [of i2c a] by (simp add: i1_def)
  have "clock_bits (replicate n True) i1 = (map (\<lambda>k. bit (currByte i1) (7 - k)) [0..<n],
     i1\<lparr>currByte := ones_in n (currByte i1), numBits := numBits i1 + of_nat n, prev_sda := (n \<noteq> 0 \<or> prev_sda i1)\<rparr>)"
    by (rule Suc.IH) (use Suc.prems u in \<open>simp_all add: i1_def\<close>)
  moreover have "i1\<lparr>currByte := ones_in n (currByte i1), numBits := numBits i1 + of_nat n, prev_sda := (n \<noteq> 0 \<or> prev_sda i1)\<rparr> =
      i2c\<lparr>currByte := ones_in (Suc n) (currByte i2c), numBits := numBits i2c + of_nat (Suc n), prev_sda := True\<rparr>"
    by (cases i2c) (simp add: i1_def add.commute add.left_commute)
  moreover have "map (\<lambda>k. bit (currByte i1) (7 - k)) [0..<n] = map (\<lambda>k. bit (currByte i2c) (7 - Suc k)) [0..<n]"
    using Suc.prems(6) by (auto simp: i1_def bit_shift_in)
  moreover have "[0..<Suc n] = 0 # map Suc [0..<n]" by (simp add: map_Suc_upt upt_conv_Cons del: upt_Suc)
  ultimately show ?case by (simp add: c Let_def comp_def del: upt_Suc)
qed simp

lemma bits_of_byte: "map (\<lambda>k. bit c (7 - k)) [0..<7] @ [bit c 0] = msb_first c"
  by (simp add: msb_first_def upt_rec)

lemma ones_in_bit: "n < 8 \<Longrightarrow> bit (ones_in n c) 7 = bit c (7 - n)"
proof (induction n arbitrary: c)
  case (Suc n)
  then show ?case by (auto simp: bit_shift_in)
qed simp

lemma clock_bits_snoc: "clock_bits (bs @ [b]) i2c = (let (xs, i1) = clock_bits bs i2c; (x, i2) = clock_bit b i1 in (xs @ [x], i2))"
  by (induction bs arbitrary: i2c) (simp_all add: Let_def split_def)

lemma clock_ack:
  assumes "state i2c = I2C_SentData" "\<not> prev_rst i2c" "\<not> prev_scl i2c" "currDevice i2c = Some a" "devs i2c a = Some d"
  shows "snd (clock_bit (\<not> ack) i2c) =
    (if ack then read_device a (i2c\<lparr>prev_sda := \<not> ack\<rparr>) else i2c\<lparr>prev_sda := \<not> ack\<rparr>)\<lparr>numBits := 0, state := I2C_Data\<rparr>"
  using assms by (cases i2c; cases ack) (simp_all add: clock_bit_samples decode_defs decode_sent_def read_device_def)

lemma recv_data:
  assumes "at_data i2c (Some a) True D" "D a = Some d"
  shows "fst (recv_byte ack i2c) = msb_first (currByte i2c)"
    and "at_data (snd (recv_byte ack i2c)) (Some a) True (if ack then D(a \<mapsto> next_dev d) else D)"
    and "ack \<Longrightarrow> currByte (snd (recv_byte ack i2c)) = next_byte d"
proof -
  define i7 where "i7 = i2c\<lparr>currByte := ones_in 7 (currByte i2c), numBits := 7, prev_sda := True\<rparr>"
  define i8 where "i8 = i7\<lparr>currByte := shift_in (currByte i7) True, numBits := 8, state := I2C_SentData\<rparr>"
  have 7: "clock_bits (replicate 7 True) i2c = (map (\<lambda>k. bit (currByte i2c) (7 - k)) [0..<7], i7)"
    using clock_bits_read [of i2c a 7] assms(1) by (simp add: i7_def at_data_def)
  have 8: "clock_bit True i7 = (bit (currByte i2c) 0, i8)"
    using clock_bit_read_last [of i7 a] assms(1) ones_in_bit [of 7 "currByte i2c"] by (simp add: i7_def i8_def at_data_def)
  have "replicate 8 True = replicate 7 True @ [True]" by (simp add: replicate_append_same eval_nat_numeral)
  then have bs: "clock_bits (replicate 8 True) i2c = (msb_first (currByte i2c), i8)"
    by (simp only: clock_bits_snoc 7 Let_def prod.case 8 bits_of_byte)
  then show "fst (recv_byte ack i2c) = msb_first (currByte i2c)" by (simp add: recv_byte_def Let_def split_def)
  have f: "state i8 = I2C_SentData" "\<not> prev_rst i8" "\<not> prev_scl i8" "currDevice i8 = Some a" "devs i8 a = Some d" "devs i8 = D" "i2c_reading i8"
    using assms by (simp_all add: i8_def i7_def at_data_def)
  have "snd (recv_byte ack i2c) = snd (clock_bit (\<not> ack) i8)" by (simp add: recv_byte_def bs Let_def split_def)
  then have e: "snd (recv_byte ack i2c) = (if ack then read_device a (i8\<lparr>prev_sda := \<not> ack\<rparr>) else i8\<lparr>prev_sda := \<not> ack\<rparr>)\<lparr>numBits := 0, state := I2C_Data\<rparr>"
    using clock_ack [OF f(1-5), of ack] by simp
  show "at_data (snd (recv_byte ack i2c)) (Some a) True (if ack then D(a \<mapsto> next_dev d) else D)"
    unfolding e at_data_def using f by (cases ack) (simp_all add: read_device_byte)
  show "ack \<Longrightarrow> currByte (snd (recv_byte ack i2c)) = next_byte d"
    unfolding e using f by (simp add: read_device_byte)
qed

text \<open>Stop and repeated start: SCL rises with SDA at one level, then SDA changes.\<close>

definition next_state :: "bool \<Rightarrow> bool \<Rightarrow> i2cdpi \<Rightarrow> i2cdpi" where
  "next_state scl sda i2c = snd (snd (decode scl sda i2c))"

lemma wave_next: "wave [] i2c = i2c" "wave ((scl, sda) # ss) i2c = wave ss (next_state scl sda i2c)"
  by (simp_all add: wave_def next_state_def Let_def split_def)

definition at_high :: "bool \<Rightarrow> i2cdpi \<Rightarrow> (u8 \<rightharpoonup> i2cdevice) \<Rightarrow> bool" where
  "at_high x i2c D \<longleftrightarrow> state i2c = I2C_Data \<and> \<not> prev_rst i2c \<and> prev_scl i2c \<and> prev_sda i2c = x \<and> devs i2c = D"

lemma fall_at_data: "at_data i2c a r D \<Longrightarrow> at_data (next_state False x i2c) a r D \<and> prev_sda (next_state False x i2c) = x"
  by (cases a) (simp_all add: at_data_def next_state_def decode_defs decode_data_def)

lemma one_bit: "\<not> (8 :: u8) \<le> 1"
  by (simp add: word_le_nat_alt)

lemma rise_at_high: "at_data i2c a r D \<Longrightarrow> prev_sda i2c = x \<Longrightarrow> at_high x (next_state True x i2c) D"
  by (cases a) (simp_all add: at_data_def at_high_def next_state_def decode_defs decode_data_def shift_bit_eq one_bit)

lemma high_stop: "at_high False i2c D \<Longrightarrow> at_idle (next_state True True i2c) D"
  by (simp add: at_high_def at_idle_def next_state_def decode_defs decode_data_def split: option.split)

lemma high_restart: "at_high True i2c D \<Longrightarrow> at_addr (next_state False False (next_state True False i2c)) D"
proof -
  assume a: "at_high True i2c D"
  define i1 where "i1 = next_state True False i2c"
  have "state i1 = I2C_Addr \<and> \<not> prev_rst i1 \<and> numBits i1 = 0 \<and> devs i1 = D"
    using a by (simp add: i1_def at_high_def next_state_def decode_defs decode_data_def split: option.split)
  then show ?thesis unfolding i1_def [symmetric] by (simp add: at_addr_def next_state_def decode_defs decode_addr_hold)
qed

lemma stop_at_idle: "at_data i2c a r D \<Longrightarrow> at_idle (wave stop_wave i2c) D"
  unfolding stop_wave_def wave_next by (drule fall_at_data [of _ _ _ _ False], intro high_stop rise_at_high, auto)

lemma restart_at_addr: "at_data i2c a r D \<Longrightarrow> at_addr (wave restart_wave i2c) D"
  unfolding restart_wave_def wave_next by (drule fall_at_data [of _ _ _ _ True], intro high_restart rise_at_high, auto)

section \<open>Transactions\<close>

lemma drop_push_7: "a < 0x80 \<Longrightarrow> drop_bit 1 (push_bit 1 a) = (a :: u8)" "a < 0x80 \<Longrightarrow> drop_bit 1 (push_bit 1 a OR 1) = (a :: u8)"
proof -
  assume "a < 0x80"
  then have "unat a < 2 ^ 7" by (simp add: word_less_nat_alt)
  then have "unat (drop_bit 7 a) = 0" by (simp only: unat_drop_bit_eq) (simp add: drop_bit_eq_div)
  then have "drop_bit 7 a = 0" by (simp only: unat_eq_0)
  then have b: "\<not> bit a 7" by (simp add: bit_iff_odd_drop_bit)
  show "drop_bit 1 (push_bit 1 a) = a" "drop_bit 1 (push_bit 1 a OR 1) = a"
    by (rule bit_word_eqI; rename_tac n; case_tac "n = 7"; auto simp: bit_simps b)+
qed

definition dev_writes :: "u8 list \<Rightarrow> i2cdevice \<Rightarrow> i2cdevice" where
  "dev_writes ws d = fold (\<lambda>w d. snd (i2c_writeByte w d)) ws d"

fun dev_reads :: "nat \<Rightarrow> i2cdevice \<Rightarrow> u8 list \<times> i2cdevice" where
  "dev_reads 0 d = ([], d)"
| "dev_reads (Suc n) d = (let (bs, d') = dev_reads n (next_dev d) in (next_byte d # bs, d'))"

lemma send_bytes_data:
  assumes "at_data i2c (Some a) False D" "D a = Some d"
  shows "fst (send_bytes ws i2c) = replicate (length ws) True \<and> at_data (snd (send_bytes ws i2c)) (Some a) False (D(a \<mapsto> dev_writes ws d))"
  using assms
proof (induction ws arbitrary: i2c D d)
  case Nil
  then have "D(a \<mapsto> d) = D" by auto
  then show ?case using Nil by (simp add: dev_writes_def)
next
  case (Cons w ws)
  note 1 = send_data [OF Cons.prems, of w]
  have "(D(a \<mapsto> snd (i2c_writeByte w d))) a = Some (snd (i2c_writeByte w d))" by simp
  note 2 = Cons.IH [OF 1(2) this, unfolded fun_upd_upd]
  have "send_bytes (w # ws) i2c = (True # fst (send_bytes ws (snd (send_byte w i2c))), snd (send_bytes ws (snd (send_byte w i2c))))"
    using 1(1) by (simp add: case_prod_unfold Let_def)
  moreover have "dev_writes (w # ws) d = dev_writes ws (snd (i2c_writeByte w d))" by (simp add: dev_writes_def)
  ultimately show ?case using 2 by (simp only: fst_conv snd_conv length_Cons replicate_Suc simp_thms)
qed

lemma recv_bytes_data:
  assumes "at_data i2c (Some a) True (D(a \<mapsto> next_dev d))" "currByte i2c = next_byte d"
  shows "fst (recv_bytes (Suc n) i2c) = map msb_first (fst (dev_reads (Suc n) d)) \<and>
     at_data (snd (recv_bytes (Suc n) i2c)) (Some a) True (D(a \<mapsto> snd (dev_reads (Suc n) d)))"
  using assms
proof (induction n arbitrary: i2c d)
  case 0
  have dd: "(D(a \<mapsto> next_dev d)) a = Some (next_dev d)" by simp
  have "recv_bytes (Suc 0) i2c = ([fst (recv_byte False i2c)], snd (recv_byte False i2c))" "dev_reads (Suc 0) d = ([next_byte d], next_dev d)"
    by (simp_all add: case_prod_unfold Let_def)
  then show ?case using recv_data(1,2) [OF 0(1) dd, of False] 0(2) by (simp only: fst_conv snd_conv list.map if_False simp_thms)
next
  case (Suc n)
  have dd: "(D(a \<mapsto> next_dev d)) a = Some (next_dev d)" by simp
  note 1 = recv_data [OF Suc.prems(1) dd, of True, unfolded fun_upd_upd if_True]
  note 2 = Suc.IH [OF 1(2) 1(3) [OF TrueI]]
  have "recv_bytes (Suc (Suc n)) i2c = (fst (recv_byte True i2c) # fst (recv_bytes (Suc n) (snd (recv_byte True i2c))),
      snd (recv_bytes (Suc n) (snd (recv_byte True i2c))))"
    "dev_reads (Suc (Suc n)) d = (next_byte d # fst (dev_reads (Suc n) (next_dev d)), snd (dev_reads (Suc n) (next_dev d)))"
    by (simp_all only: recv_bytes.simps(2) [of "Suc n"] dev_reads.simps(2) [of "Suc n"] Let_def case_prod_unfold) simp_all
  then show ?case using 1(1) 2 Suc.prems(2) by (simp only: fst_conv snd_conv list.map simp_thms)
qed

text \<open>Devices other than the addressed one see the start condition only.\<close>

lemma write_transaction:
  assumes "at_idle i2c D" "a < 0x80" "D a = Some d"
  shows "fst (i2c_write a ws i2c) = replicate (Suc (length ws)) True \<and>
     at_idle (snd (i2c_write a ws i2c)) ((map_option startCond \<circ> D)(a \<mapsto> dev_writes ws (startCond d)))"
proof -
  define D1 where "D1 = map_option startCond \<circ> D"
  define i1 where "i1 = wave start_wave i2c"
  have w: "a = drop_bit 1 (push_bit 1 a)" "\<not> bit (push_bit 1 a) 0" 
    using drop_push_7(1) [OF assms(2), symmetric] by (simp_all only: bit_simps) simp_all
  have D1: "D1 a = Some (startCond d)" using assms(3) by (simp add: D1_def)
  have "at_addr i1 D1" using start_at_addr [OF assms(1)] by (simp add: i1_def D1_def)
  note 1 = send_address(1,2) [OF this w(1)]
  have 2: "fst (send_byte (push_bit 1 a) i1)" "at_data (snd (send_byte (push_bit 1 a) i1)) (Some a) False D1"
    using 1 D1 w(2) by simp_all
  note 3 = send_bytes_data [OF 2(2) D1, of ws]
  have "i2c_write a ws i2c = (True # fst (send_bytes ws (snd (send_byte (push_bit 1 a) i1))),
      wave stop_wave (snd (send_bytes ws (snd (send_byte (push_bit 1 a) i1)))))"
    using 2(1) by (simp add: i2c_write_def i1_def [symmetric] case_prod_unfold Let_def)
  then show ?thesis using 3 stop_at_idle [OF conjunct2 [OF 3]] unfolding D1_def by (simp only: fst_conv snd_conv replicate_Suc simp_thms)
qed

lemma read_transaction:
  assumes "at_idle i2c D" "a < 0x80" "D a = Some d" "0 < n"
  shows "fst (i2c_read a n i2c) \<and> fst (snd (i2c_read a n i2c)) = map msb_first (fst (dev_reads n (startCond d))) \<and>
     at_idle (snd (snd (i2c_read a n i2c))) ((map_option startCond \<circ> D)(a \<mapsto> snd (dev_reads n (startCond d))))"
proof -
  obtain k where k: "n = Suc k" using assms(4) by (cases n) auto
  define D1 where "D1 = map_option startCond \<circ> D"
  define i1 where "i1 = wave start_wave i2c"
  define ab where "ab = (push_bit 1 a OR 1 :: u8)"
  have w: "a = drop_bit 1 ab" "bit ab 0"
    using drop_push_7(2) [OF assms(2), symmetric] by (simp_all only: ab_def bit_simps) simp_all
  have D1: "D1 a = Some (startCond d)" using assms(3) by (simp add: D1_def)
  have "at_addr i1 D1" using start_at_addr [OF assms(1)] by (simp add: i1_def D1_def)
  note 1 = send_address [OF this w(1)]
  have 2: "fst (send_byte ab i1)" "at_data (snd (send_byte ab i1)) (Some a) True (D1(a \<mapsto> next_dev (startCond d)))"
    "currByte (snd (send_byte ab i1)) = next_byte (startCond d)"
    using 1 D1 w(2) by simp_all
  note 3 = recv_bytes_data [OF 2(2,3), of k, folded k]
  have "i2c_read a n i2c = (True, fst (recv_bytes n (snd (send_byte ab i1))), wave stop_wave (snd (recv_bytes n (snd (send_byte ab i1)))))"
    unfolding i2c_read_def Let_def i1_def [symmetric] ab_def [symmetric] case_prod_unfold using 2(1) by simp
  then show ?thesis using 3 stop_at_idle [OF conjunct2 [OF 3]] unfolding D1_def by (simp only: fst_conv snd_conv simp_thms)
qed

text \<open>A write followed by a read without giving up the bus.\<close>

definition i2c_write_read :: "u8 \<Rightarrow> u8 list \<Rightarrow> nat \<Rightarrow> i2cdpi \<Rightarrow> bool \<times> bool list list \<times> i2cdpi" where
  "i2c_write_read a ws n i2c =
    (let i2c = wave start_wave i2c; (_, i2c) = send_bytes (push_bit 1 a # ws) i2c; i2c = wave restart_wave i2c;
         (ak, i2c) = send_byte (push_bit 1 a OR 1) i2c; (xs, i2c) = recv_bytes n i2c in (ak, xs, wave stop_wave i2c))"

lemma write_read_transaction:
  assumes "at_idle i2c D" "a < 0x80" "D a = Some d" "0 < n"
  shows "fst (i2c_write_read a ws n i2c) \<and> fst (snd (i2c_write_read a ws n i2c)) = map msb_first (fst (dev_reads n (dev_writes ws (startCond d)))) \<and>
     at_idle (snd (snd (i2c_write_read a ws n i2c))) ((map_option startCond \<circ> D)(a \<mapsto> snd (dev_reads n (dev_writes ws (startCond d)))))"
proof -
  obtain k where k: "n = Suc k" using assms(4) by (cases n) auto
  define D1 where "D1 = map_option startCond \<circ> D"
  define i1 where "i1 = wave start_wave i2c"
  define ab where "ab = (push_bit 1 a OR 1 :: u8)"
  define e where "e = dev_writes ws (startCond d)"
  have w: "a = drop_bit 1 (push_bit 1 a)" "\<not> bit (push_bit 1 a) 0"
    using drop_push_7(1) [OF assms(2), symmetric] by (simp_all only: bit_simps) simp_all
  have r: "a = drop_bit 1 ab" "bit ab 0"
    using drop_push_7(2) [OF assms(2), symmetric] by (simp_all only: ab_def bit_simps) simp_all
  have D1: "D1 a = Some (startCond d)" using assms(3) by (simp add: D1_def)
  have "at_addr i1 D1" using start_at_addr [OF assms(1)] by (simp add: i1_def D1_def)
  note 1 = send_address(1,2) [OF this w(1)]
  have 2: "fst (send_byte (push_bit 1 a) i1)" "at_data (snd (send_byte (push_bit 1 a) i1)) (Some a) False D1"
    using 1 D1 w(2) by simp_all
  define i2 where "i2 = snd (send_bytes ws (snd (send_byte (push_bit 1 a) i1)))"
  have "at_data i2 (Some a) False (D1(a \<mapsto> e))" using send_bytes_data [OF 2(2) D1, of ws] by (simp add: i2_def e_def)
  from restart_at_addr [OF this] have "at_addr (wave restart_wave i2) (D1(a \<mapsto> e))" .
  note 3 = send_address [OF this r(1)]
  define i3 where "i3 = snd (send_byte ab (wave restart_wave i2))"
  have 4: "fst (send_byte ab (wave restart_wave i2))" "at_data i3 (Some a) True (D1(a \<mapsto> next_dev e))" "currByte i3 = next_byte e"
    using 3 r(2) by (simp_all add: i3_def)
  note 5 = recv_bytes_data [OF 4(2,3), of k, folded k]
  have "snd (send_bytes (push_bit 1 a # ws) i1) = i2" by (simp add: i2_def case_prod_unfold Let_def)
  then have "i2c_write_read a ws n i2c = (True, fst (recv_bytes n i3), wave stop_wave (snd (recv_bytes n i3)))"
    unfolding i2c_write_read_def Let_def i1_def [symmetric] ab_def [symmetric] case_prod_unfold using 4(1) by (simp add: i3_def)
  then show ?thesis using 5 stop_at_idle [OF conjunct2 [OF 5]] unfolding D1_def e_def by (simp only: fst_conv snd_conv simp_thms)
qed

text \<open>An address no device has.\<close>

lemma unaddressed:
  assumes "at_idle i2c D" "a < 0x80" "D a = None"
  shows "\<not> fst (send_byte (push_bit 1 a) (wave start_wave i2c))"
    and "at_data (snd (send_byte (push_bit 1 a) (wave start_wave i2c))) None False (map_option startCond \<circ> D)"
proof -
  have w: "a = drop_bit 1 (push_bit 1 a)" "\<not> bit (push_bit 1 a) 0"
    using drop_push_7(1) [OF assms(2), symmetric] by (simp_all only: bit_simps) simp_all
  note 1 = send_address(1,2) [OF start_at_addr [OF assms(1)] w(1)]
  show "\<not> fst (send_byte (push_bit 1 a) (wave start_wave i2c))"
    "at_data (snd (send_byte (push_bit 1 a) (wave start_wave i2c))) None False (map_option startCond \<circ> D)"
    using 1 assms(3) w(2) by simp_all
qed

end
