(* ===== verification/I2c_System.thy ===== *)
theory I2c_System
  imports I2c_Bus
begin

unbundle bit_operations_syntax

text \<open>
  The I2C buses of the simulation as a controller sees them: whole transactions on the two lines, and what the devices
  answer to them.
\<close>

section \<open>The bus after reset\<close>

text \<open>Objects as they may be found in memory before they are constructed.\<close>

definition raw_hat :: i2c_hat_id where
  "raw_hat = \<lparr>hat_byteCount = 3, currAddr = 7, mem = replicate 4096 0\<rparr>"

definition raw_as :: i2c_as621x where
  "raw_as = \<lparr>as_byteCount = 9, dataHi = 1, config = 2, tlow = 3, thigh = 4, index = 5, rand = (\<lambda>_. 77), rands = 0\<rparr>"

definition after_reset :: "i2cdpi \<Rightarrow> i2cdpi" where
  "after_reset i2c = next_state True True (snd (snd (under_reset i2c)))"

lemma after_reset_idle: "at_idle (after_reset i2c) (map_option busReset \<circ> devs i2c)"
  by (simp add: after_reset_def under_reset_def next_state_def decode_defs all_devs_def at_idle_def)

section \<open>The devices\<close>

lemma dev_writes_Nil [simp]: "dev_writes [] d = d"
  and dev_writes_Cons [simp]: "dev_writes (w # ws) d = dev_writes ws (snd (i2c_writeByte w d))"
  by (simp_all add: dev_writes_def)

lemma and_mask_12: "unat (x AND (kMemSize - 1)) = unat x mod 4096"
proof -
  have "x AND (kMemSize - 1) = take_bit 12 x" by (simp add: kMemSize_def take_bit_eq_mask mask_eq_exp_minus_1)
  then show ?thesis by (simp add: unsigned_take_bit_eq) (simp add: take_bit_eq_mod)
qed

definition be16 :: "u8 \<Rightarrow> u8 \<Rightarrow> u16" where
  "be16 hi lo = push_bit 8 (ucast hi) OR ucast lo"

lemma hat_address:
  "dev_writes [hi, lo] (startCond (Hat h)) = Hat (h\<lparr>hat_byteCount := 2, currAddr := be16 hi lo\<rparr>)"
  by (simp add: hat_startCond_def hat_writeByte_def be16_def Let_def)

lemma hat_next: "next_byte (Hat h) = mem h ! (unat (currAddr h) mod 4096)" "next_dev (Hat h) = Hat (h\<lparr>currAddr := currAddr h + 1\<rparr>)"
  by (simp_all add: next_byte_def next_dev_def hat_readByte_def and_mask_12)

lemma mod_succ_16: "unat (x + 1 :: u16) mod 4096 = Suc (unat x) mod 4096"
proof (cases "unat x = 65535")
  case True
  then have "(of_nat (unat x) :: u16) = of_nat 65535" by simp
  then have "x = 65535" by simp
  then show ?thesis by simp
next
  case False
  then have "Suc (unat x) < 65536" using unsigned_less [of x, where 'a = nat] by simp
  then have "unat (x + 1) = Suc (unat x)" by (simp add: unat_word_ariths)
  then show ?thesis by simp
qed

lemma hat_reads:
  "fst (dev_reads n (Hat h)) = map (\<lambda>i. mem h ! ((unat (currAddr h) + i) mod 4096)) [0..<n]"
proof (induction n arbitrary: h)
  case (Suc n)
  have "[0..<Suc n] = 0 # map Suc [0..<n]" by (simp add: map_Suc_upt upt_conv_Cons del: upt_Suc)
  moreover have "(unat (currAddr h + 1) + i) mod 4096 = (unat (currAddr h) + Suc i) mod 4096" for i
    using mod_succ_16 [of "currAddr h"] by (metis add_Suc add_Suc_right mod_add_left_eq)
  ultimately show ?case
    using Suc [of "h\<lparr>currAddr := currAddr h + 1\<rparr>"] by (simp add: case_prod_unfold Let_def hat_next comp_def del: upt_Suc)
qed simp

text \<open>Writing within a page of the memory, and what the code does in its place.\<close>

definition page_write :: "nat \<Rightarrow> u8 list \<Rightarrow> u8 list \<Rightarrow> u8 list" where
  "page_write s data m = fst (fold (\<lambda>b (m, k). (m[s div 32 * 32 + k mod 32 := b], Suc k)) data (m, s mod 32))"

lemma hat_write_data:
  assumes "unat (hat_byteCount h) \<ge> 2" "unat (hat_byteCount h) < 255"
  shows "snd (i2c_writeByte b (Hat h)) = Hat (h\<lparr>hat_byteCount := hat_byteCount h + 1, mem := (mem h)[unat (currAddr h) mod 4096 := b],
     currAddr := (if bit (currAddr h + 1) 5 then currAddr h + 1 else currAddr h + 1 - 32)\<rparr>)"
proof -
  have "hat_byteCount h \<noteq> 0" "hat_byteCount h \<noteq> 1" using assms(1) by auto
  moreover have "x AND hat_kPageSize = 0 \<longleftrightarrow> \<not> bit x 5" for x
    by (simp add: hat_kPageSize_def bit_iff_and_push_bit_not_eq_0 push_bit_eq_mult)
  ultimately show ?thesis by (cases h) (simp add: hat_writeByte_def Let_def and_mask_12 hat_kPageSize_def)
qed

lemma page_bit: "bit (x :: u16) 5 \<longleftrightarrow> odd (unat x div 32)"
  using bit_iff_odd [of "unat x" 5] bit_unsigned_iff [of x 5, where 'a = nat] by simp

lemma odd_page_step:
  assumes "bit (x :: u16) 5"
  shows "unat (if bit (x + 1) 5 then x + 1 else x + 1 - 32) = unat x div 32 * 32 + Suc (unat x) mod 32"
proof -
  have u: "unat x < 65536" using unsigned_less [of x, where 'a = nat] by simp
  have o: "odd (unat x div 32)" using assms by (simp add: page_bit)
  show ?thesis
  proof (cases "unat x mod 32 = 31")
    case True': True
    then have s: "Suc (unat x) = 32 * Suc (unat x div 32)" using div_mult_mod_eq [of "unat x" 32] by simp
    show ?thesis
    proof (cases "unat x = 65535")
      case True
      then have "(of_nat (unat x) :: u16) = of_nat 65535" by simp
      then have "x = 65535" by simp
      then show ?thesis by simp
    next
      case False
      then have "Suc (unat x) < 65536" using u by simp
      then have v: "unat (x + 1) = Suc (unat x)" by (simp add: unat_word_ariths)
      then have "unat (x + 1) div 32 = Suc (unat x div 32)" by (simp only: s) simp
      then have b: "\<not> bit (x + 1) 5" using o by (simp add: page_bit)
      have "32 \<le> x + 1" using s by (simp add: word_le_nat_alt v)
      then have "unat (x + 1 - 32) = Suc (unat x) - 32" by (simp only: unat_sub v) simp
      also have "\<dots> = unat x div 32 * 32" by (simp only: s) simp
      finally have "unat (x + 1 - 32) = unat x div 32 * 32" .
      moreover have "Suc (unat x) mod 32 = 0" by (simp only: s) simp
      ultimately show ?thesis using b by simp
    qed
  next
    case False
    then have m: "Suc (unat x) mod 32 = Suc (unat x mod 32)" by (simp add: mod_Suc)
    then have d: "Suc (unat x) div 32 = unat x div 32" by (simp add: div_Suc)
    have "unat x \<noteq> 65535" using False by auto
    then have "Suc (unat x) < 65536" using u by simp
    then have "unat (x + 1) = Suc (unat x)" by (simp add: unat_word_ariths)
    then show ?thesis using d m o div_mult_mod_eq [of "unat x" 32] by (simp add: page_bit)
  qed
qed

lemma hat_page_write_odd:
  assumes "2 \<le> unat (hat_byteCount h)" "unat (hat_byteCount h) + length data \<le> 255" "bit (currAddr h) 5" "length (mem h) = 4096"
    "unat (currAddr h) = p * 32 + k mod 32" 
  shows "\<exists>h'. dev_writes data (Hat h) = Hat h' \<and>
     mem h' = fst (fold (\<lambda>b (m, k). (m[(p * 32) mod 4096 + k mod 32 := b], Suc k)) data (mem h, k))"
  using assms
proof (induction data arbitrary: h k)
  case (Cons b data)
  define h1 where "h1 = h\<lparr>hat_byteCount := hat_byteCount h + 1, mem := (mem h)[unat (currAddr h) mod 4096 := b],
     currAddr := (if bit (currAddr h + 1) 5 then currAddr h + 1 else currAddr h + 1 - 32)\<rparr>"
  have w: "snd (i2c_writeByte b (Hat h)) = Hat h1" using hat_write_data [of h b] Cons.prems(1,2) by (simp add: h1_def)
  have p: "unat (currAddr h) div 32 = p" "unat (currAddr h) mod 32 = k mod 32" using Cons.prems(5) by simp_all
  have a1: "unat (currAddr h1) = p * 32 + Suc k mod 32"
    using odd_page_step [OF Cons.prems(3)] p by (simp add: h1_def mod_Suc_eq) (metis mod_Suc_eq)
  then have "unat (currAddr h1) div 32 = p" by simp
  then have "bit (currAddr h1) 5" using Cons.prems(3) p(1) by (simp add: page_bit)
  moreover have "unat (hat_byteCount h1) = Suc (unat (hat_byteCount h))" using Cons.prems(2) by (simp add: h1_def unat_word_ariths)
  ultimately have "\<exists>h'. dev_writes data (Hat h1) = Hat h' \<and>
     mem h' = fst (fold (\<lambda>b (m, k). (m[(p * 32) mod 4096 + k mod 32 := b], Suc k)) data (mem h1, Suc k))"
    using Cons.IH [of h1 "Suc k"] Cons.prems a1 by (simp add: h1_def)
  moreover have "unat (currAddr h) mod 4096 = (p * 32) mod 4096 + k mod 32"
  proof -
    have "k mod 32 < 32" by simp
    then have "((p mod 128) * 32 + k mod 32) < 4096"
      using mod_less_divisor [of 128 p] by linarith
    moreover have "(p * 32) mod 4096 = (p mod 128) * 32" using mod_mult_mult2 [of p 32 128] by simp
    ultimately show ?thesis using Cons.prems(5) by (metis mod_add_left_eq mod_less)
  qed
  moreover have "dev_writes (b # data) (Hat h) = dev_writes data (Hat h1)" by (simp only: dev_writes_Cons w)
  ultimately show ?case by (simp add: h1_def del: dev_writes_Cons)
qed simp

text \<open>The temperature sensor: the index register never leaves its range.\<close>

definition as_ok :: "i2c_as621x \<Rightarrow> bool" where
  "as_ok d \<longleftrightarrow> index d \<le> 3"

lemma and_3: "(x :: u8) AND 3 \<le> 3"
  by (rule word_and_le1)

lemma drop_2: "(x :: u8) \<le> 3 \<Longrightarrow> drop_bit 2 x = 0"
proof -
  assume "x \<le> 3"
  then have "unat x \<le> 3" by (simp add: word_le_nat_alt)
  then have "unat (drop_bit 2 x) = 0" by (simp only: unat_drop_bit_eq) (simp add: drop_bit_eq_div)
  then show ?thesis by (simp only: unat_eq_0)
qed

lemma le_3_cases: "(x :: u8) \<le> 3 \<Longrightarrow> x = 0 \<or> x = 1 \<or> x = 2 \<or> x = 3"
  by (simp add: word_le_nat_alt word_unat_eq_iff) linarith

lemma le_3_and: "(x :: u8) \<le> 3 \<Longrightarrow> x AND 3 = x"
  by (drule le_3_cases) auto

text \<open>A register is selected, written and read.\<close>

lemma as_select: "as_ok d \<Longrightarrow> dev_writes [i] (startCond (As621x d)) = As621x (d\<lparr>as_byteCount := 1, index := i AND 3\<rparr>)"
  by (simp add: as_startCond_def as_writeByte_def Let_def as_ok_def drop_2)

definition as_reg :: "i2c_as621x \<Rightarrow> u8 \<Rightarrow> u16" where
  "as_reg d i = (if i = 1 then config d else if i = 2 then tlow d else thigh d)"

lemma as_program:
  assumes "as_ok d" "i AND 3 \<noteq> 0"
  shows "\<exists>d'. dev_writes [i, hi, lo] (startCond (As621x d)) = As621x d' \<and> as_ok d' \<and> as_reg d' (i AND 3) = be16 hi lo"
proof -
  have "i AND 3 = 1 \<or> i AND 3 = 2 \<or> i AND 3 = 3" using le_3_cases [OF and_3] assms(2) by blast
  then show ?thesis
    using assms(1) by (auto simp: as_startCond_def as_writeByte_def Let_def as_ok_def drop_2 as_reg_def be16_def)
qed

lemma as_read_2:
  assumes "index d \<le> 3" "index d \<noteq> 0" "as_byteCount d = (if swap then 1 else 0)"
  shows "fst (dev_reads 2 (As621x d)) =
    (let v = as_reg d (index d) in if swap then [ucast v, ucast (drop_bit 8 v)] else [ucast (drop_bit 8 v), ucast v])"
proof -
  have v: "as_value e = as_reg d (index d)" if "e = d\<lparr>as_byteCount := c\<rparr>" for e c
    using assms(1,2) le_3_cases [OF assms(1)] that by (auto simp: as_value_def as_reg_def)
  have r: "as_readByte 0 e = (True, if as_byteCount e AND 1 \<noteq> 0 then ucast (as_reg d (index d)) else ucast (drop_bit 8 (as_reg d (index d))),
      0, e\<lparr>as_byteCount := as_byteCount e XOR 1\<rparr>)" if "e = d\<lparr>as_byteCount := c\<rparr>" for e c
    using assms(1,2) that v [OF that] by (simp add: as_readByte_def Let_def le_3_and)
  have d: "d = d\<lparr>as_byteCount := as_byteCount d\<rparr>" by simp
  show ?thesis
    using assms(3)
    by (simp add: numeral_2_eq_2 case_prod_unfold Let_def next_byte_def next_dev_def r [OF d] r [OF refl])
qed

lemma be16_bytes: "ucast (drop_bit 8 (be16 hi lo)) = hi" "ucast (be16 hi lo) = lo"
  by (rule bit_word_eqI; auto simp: be16_def bit_simps dest: bit_imp_le_length)+

section \<open>Properties\<close>

text \<open>
  C7. The bus decoder implements byte-level writes: whatever devices are attached, when a controller drives a complete write transaction on SCL and SDA
  (start, address byte, data bytes most significant bit first, a clock for each acknowledgement, stop) to an address where a device is
  present, every byte is acknowledged, that device receives exactly the bytes sent, in order, all other devices see only the
  start condition, and the bus is idle again.
\<close>
theorem i2c_write_refines:
  assumes "at_idle i2c D" "a < 0x80" "D a = Some d"
  shows "fst (i2c_write a ws i2c) = replicate (Suc (length ws)) True \<and>
     at_idle (snd (i2c_write a ws i2c)) ((map_option startCond \<circ> D)(a \<mapsto> fold (\<lambda>w d. snd (i2c_writeByte w d)) ws (startCond d)))"
  using write_transaction [OF assms] by (simp add: dev_writes_def)

theorem i2c_write_refines_witness:
  "fst (i2c_write 0x48 [1, 2] (after_reset (add_device 0x48 Sink (i2cdpi_new I2C_Data)))) = replicate (Suc (length [1 :: u8, 2])) True"
  using i2c_write_refines [OF after_reset_idle, where a = "0x48" and i2c1 = "add_device 0x48 Sink (i2cdpi_new I2C_Data)" and d = Sink and ws = "[1, 2]"]
  by (simp add: add_device_def i2cdpi_new_def)

text \<open>
  C8. The bus decoder implements byte-level reads: in a complete read transaction of \<open>n\<close> bytes from an address where a device is present, the bits a
  controller samples are those of the next \<open>n\<close> bytes the device supplies, most significant bit first; the device is asked for
  exactly \<open>n\<close> bytes, since the controller does not acknowledge the last; other devices see only the start condition.
\<close>
theorem i2c_read_refines:
  assumes "at_idle i2c D" "a < 0x80" "D a = Some d" "0 < n"
  shows "fst (i2c_read a n i2c) \<and> fst (snd (i2c_read a n i2c)) = map msb_first (fst (dev_reads n (startCond d))) \<and>
     at_idle (snd (snd (i2c_read a n i2c))) ((map_option startCond \<circ> D)(a \<mapsto> snd (dev_reads n (startCond d))))"
  by (rule read_transaction [OF assms])

theorem i2c_read_refines_witness:
  "fst (i2c_read 0x6a 1 (after_reset (i2cdpi_create I2C_Idle raw_hat raw_as ''i2c_rpi1'')))"
  using i2c_read_refines [OF after_reset_idle, where a = "0x6a" and i2c1 = "i2cdpi_create I2C_Idle raw_hat raw_as ''i2c_rpi1''" and d = "Lsm9ds1 (lsm_new 0x6a)" and n = 1]
  by (simp add: i2cdpi_create_def add_device_def i2cdpi_new_def lsm_busReset_def lsm_new_def Let_def)

text \<open>
  An address at which there is no device is not acknowledged, and no device is disturbed beyond the start condition.
\<close>
theorem i2c_no_device_nak:
  assumes "at_idle i2c D" "a < 0x80" "D a = None"
  shows "\<not> fst (send_byte (push_bit 1 a) (wave start_wave i2c)) \<and>
     at_idle (wave stop_wave (snd (send_byte (push_bit 1 a) (wave start_wave i2c)))) (map_option startCond \<circ> D)"
  using unaddressed [OF assms] stop_at_idle by blast

theorem i2c_no_device_nak_witness:
  "\<not> fst (send_byte (push_bit 1 0x51) (wave start_wave (after_reset (i2cdpi_new I2C_Idle))))"
  using i2c_no_device_nak [OF after_reset_idle, where a = "0x51" and i2c1 = "i2cdpi_new I2C_Idle"] by (simp add: i2cdpi_new_def)

text \<open>
  Random reads of the identification EEPROM over the bus: writing a two-byte address and, after a repeated start, reading \<open>n\<close> bytes returns the
  \<open>n\<close> bytes of the memory from that address on, wrapping at the end of the 4096 bytes.
\<close>
theorem eeprom_random_read:
  assumes "at_idle i2c D" "a < 0x80" "D a = Some (Hat h)" "0 < n"
  shows "fst (snd (i2c_write_read a [hi, lo] n i2c)) = map (\<lambda>i. msb_first (mem h ! ((unat (be16 hi lo) + i) mod 4096))) [0..<n]"
  using write_read_transaction [OF assms, of "[hi, lo]"] unfolding hat_address by (simp add: hat_reads)

text \<open>The signature of the Sense HAT, at the start of the memory.\<close>
theorem eeprom_random_read_witness:
  "fst (snd (i2c_write_read 0x50 [0, 0] 2 (after_reset (i2cdpi_create I2C_Idle raw_hat raw_as ''i2c_rpi0'')))) = map msb_first [0x52, 0x2d]"
proof -
  let ?h = "hat_busReset (hat_new raw_hat)"
  have d: "(map_option busReset \<circ> devs (i2cdpi_create I2C_Idle raw_hat raw_as ''i2c_rpi0'')) 0x50 = Some (Hat ?h)"
    by (simp add: i2cdpi_create_def add_device_def i2cdpi_new_def Let_def)
  have u: "[0..<2] = [0, Suc 0]" by (simp add: upt_rec)
  have m: "mem ?h ! 0 = 0x52" "mem ?h ! Suc 0 = 0x2d"
    by (simp_all add: hat_new_def hat_busReset_def raw_hat_def blit_def hat_id_def)
  have "fst (snd (i2c_write_read 0x50 [0, 0] 2 (after_reset (i2cdpi_create I2C_Idle raw_hat raw_as ''i2c_rpi0'')))) =
      map (\<lambda>i. msb_first (mem ?h ! ((unat (be16 0 0) + i) mod 4096))) [0..<2]"
    by (rule eeprom_random_read [OF after_reset_idle _ d]) simp_all
  then show ?thesis unfolding u by (simp add: be16_def m)
qed

text \<open>
  Page writes of the EEPROM, on the pages for which the code is right: on a page with an odd number, up to 32 bytes written behind the address land at
  consecutive addresses that wrap at the end of the page, and nothing else changes.
\<close>
theorem eeprom_page_write_odd:
  assumes "length (mem h) = 4096" "odd (unat (be16 hi lo) div 32)" "length data \<le> 32"
  shows "\<exists>h'. fold (\<lambda>w d. snd (i2c_writeByte w d)) (hi # lo # data) (startCond (Hat h)) = Hat h' \<and>
     mem h' = page_write (unat (be16 hi lo) mod 4096) data (mem h)"
proof -
  define h1 where "h1 = h\<lparr>hat_byteCount := 2, currAddr := be16 hi lo\<rparr>"
  define s where "s = unat (be16 hi lo)"
  have e: "dev_writes (hi # lo # data) (startCond (Hat h)) = dev_writes data (Hat h1)"
    using hat_address [of hi lo h] by (simp add: h1_def)
  have "\<exists>h'. dev_writes data (Hat h1) = Hat h' \<and>
     mem h' = fst (fold (\<lambda>b (m, k). (m[(s div 32 * 32) mod 4096 + k mod 32 := b], Suc k)) data (mem h1, s mod 32))"
    by (rule hat_page_write_odd) (use assms in \<open>simp_all add: h1_def page_bit s_def\<close>)
  moreover have "(s div 32 * 32) mod 4096 = s mod 4096 div 32 * 32"
    by (simp add: mod_mult2_eq [of s 32 128, simplified] mod_mult_mult2 [of "s div 32" 32 128, simplified])
  moreover have "s mod 4096 mod 32 = s mod 32" by (simp add: mod_mod_cancel)
  ultimately show ?thesis
    unfolding e [unfolded dev_writes_def] by (simp add: dev_writes_def page_write_def s_def h1_def)
qed

theorem eeprom_page_write_odd_witness:
  "\<exists>h'. fold (\<lambda>w d. snd (i2c_writeByte w d)) [0, 0x3f, 0xaa, 0xbb] (startCond (Hat raw_hat)) = Hat h' \<and>
     mem h' = page_write (unat (be16 0 0x3f) mod 4096) [0xaa, 0xbb] (mem raw_hat)"
  by (rule eeprom_page_write_odd) (simp_all add: raw_hat_def be16_def)

text \<open>
  A defect of the EEPROM's page writes: the test for the end of a page looks at one bit of the address in place of its low five. On a page with an even
  number, after every byte that does not reach the end of the page the address jumps back by 31, so the second byte of a write is
  stored 31 bytes below the first.
\<close>
theorem eeprom_page_write_even_astray:
  assumes "even (unat (be16 hi lo) div 32)" "unat (be16 hi lo) mod 32 < 31" "32 \<le> unat (be16 hi lo)" "unat (be16 hi lo) < 4096" "length (mem h) = 4096"
  shows "\<exists>h'. fold (\<lambda>w d. snd (i2c_writeByte w d)) [hi, lo, b1, b2] (startCond (Hat h)) = Hat h' \<and>
     mem h' = (mem h)[unat (be16 hi lo) := b1, unat (be16 hi lo) - 31 := b2]"
proof -
  define h1 where "h1 = h\<lparr>hat_byteCount := 2, currAddr := be16 hi lo\<rparr>"
  define s where "s = unat (be16 hi lo)"
  have e: "dev_writes [hi, lo, b1, b2] (startCond (Hat h)) = dev_writes [b1, b2] (Hat h1)"
    using hat_address [of hi lo h] by (simp add: h1_def del: i2c_writeByte.simps)
  have v: "unat (be16 hi lo + 1) = Suc s" using assms(4) by (simp add: s_def unat_word_ariths)
  have "Suc s div 32 = s div 32" using assms(2) by (simp add: s_def div_Suc mod_Suc)
  then have b: "\<not> bit (be16 hi lo + 1) 5" using assms(1) by (simp add: page_bit v s_def)
  have "32 \<le> be16 hi lo + 1" using assms(3) by (simp add: word_le_nat_alt v s_def)
  then have a: "unat (be16 hi lo + 1 - 32) = Suc s - 32" by (simp only: unat_sub v) simp
  define h2 where "h2 = h1\<lparr>hat_byteCount := 3, mem := (mem h)[s := b1], currAddr := be16 hi lo + 1 - 32\<rparr>"
  have 1: "snd (i2c_writeByte b1 (Hat h1)) = Hat h2"
    using hat_write_data [of h1 b1] b assms(4) by (simp add: h1_def h2_def s_def del: i2c_writeByte.simps)
  have "Suc s - 32 < 4096" "Suc s - 32 = s - 31" using assms(4) by (simp_all add: s_def)
  then have "\<exists>h3. snd (i2c_writeByte b2 (Hat h2)) = Hat h3 \<and> mem h3 = (mem h)[s := b1, s - 31 := b2]"
    using hat_write_data [of h2 b2] a by (simp add: h2_def del: i2c_writeByte.simps)
  then show ?thesis
    using e 1 unfolding s_def dev_writes_def by (simp del: i2c_writeByte.simps)
qed

theorem eeprom_page_write_even_astray_witness:
  "\<exists>h'. fold (\<lambda>w d. snd (i2c_writeByte w d)) [0, 0x40, 0xaa, 0xbb] (startCond (Hat raw_hat)) = Hat h' \<and>
     mem h' = (mem raw_hat)[unat (be16 0 0x40) := 0xaa, unat (be16 0 0x40) - 31 := 0xbb]"
  by (rule eeprom_page_write_even_astray) (simp_all add: raw_hat_def be16_def)

text \<open>
  The registers of the temperature sensor hold what is written to them: after a write of an index that selects a writable register and of two bytes, a
  transaction that selects the register again and a transaction that reads two bytes return these bytes, high byte first.
\<close>
theorem as621x_register_roundtrip:
  assumes "at_idle i2c D" "a < 0x80" "D a = Some (As621x d)" "index d \<le> 3" "i AND 3 \<noteq> 0"
  shows "fst (snd (i2c_read a 2 (snd (i2c_write a [i] (snd (i2c_write a [i, hi, lo] i2c)))))) = [msb_first hi, msb_first lo]"
proof -
  have ok: "as_ok d" using assms(4) by (simp add: as_ok_def)
  obtain d1 where d1: "dev_writes [i, hi, lo] (startCond (As621x d)) = As621x d1" "as_ok d1" "as_reg d1 (i AND 3) = be16 hi lo"
    using as_program [OF ok assms(5)] by blast
  note 1 = conjunct2 [OF write_transaction [OF assms(1-3), of "[i, hi, lo]"], unfolded d1(1)]
  define d2 where "d2 = d1\<lparr>as_byteCount := 1, index := i AND 3\<rparr>"
  note 2 = conjunct2 [OF write_transaction [OF 1 assms(2) fun_upd_same, of "[i]"], unfolded as_select [OF d1(2)] d2_def [symmetric]]
  have r: "startCond (As621x d2) = As621x (d2\<lparr>as_byteCount := 0\<rparr>)" by (simp add: as_startCond_def)
  have "as_reg (d2\<lparr>as_byteCount := 0\<rparr>) (i AND 3) = as_reg d1 (i AND 3)" "index d2 = i AND 3" by (simp_all add: d2_def as_reg_def)
  then have "fst (dev_reads 2 (As621x (d2\<lparr>as_byteCount := 0\<rparr>))) = [hi, lo]"
    using as_read_2 [of "d2\<lparr>as_byteCount := 0\<rparr>" False] assms(5) and_3 [of i] by (simp add: d1(3) be16_bytes Let_def)
  then show ?thesis
    using read_transaction [OF 2 assms(2) fun_upd_same, of 2] unfolding r by simp
qed

theorem as621x_register_roundtrip_witness:
  "fst (snd (i2c_read 0x48 2 (snd (i2c_write 0x48 [2] (snd (i2c_write 0x48 [2, 0x0c, 0x80]
     (after_reset (i2cdpi_create I2C_Idle raw_hat raw_as ''i2c1'')))))))) = [msb_first 0x0c, msb_first 0x80]"
proof -
  have d: "(map_option busReset \<circ> devs (i2cdpi_create I2C_Idle raw_hat raw_as ''i2c1'')) 0x48 = Some (As621x (as_busReset (as_new raw_as)))"
    by (simp add: i2cdpi_create_def add_device_def i2cdpi_new_def Let_def)
  show ?thesis by (rule as621x_register_roundtrip [OF after_reset_idle _ d]) (simp_all add: as_busReset_def)
qed

text \<open>
  A defect of the temperature sensor: no device handles the repeated start, so the count of bytes goes on from the index byte. A read that follows
  the selection of a register after a repeated start returns the two bytes of the register in the wrong order.
\<close>
theorem as621x_restart_swaps:
  assumes "at_idle i2c D" "a < 0x80" "D a = Some (As621x d)" "index d \<le> 3" "i AND 3 \<noteq> 0" "v = as_reg d (i AND 3)"
  shows "fst (snd (i2c_write_read a [i] 2 i2c)) = [msb_first (ucast v), msb_first (ucast (drop_bit 8 v))]"
proof -
  have ok: "as_ok d" using assms(4) by (simp add: as_ok_def)
  have z: "(0 :: nat) < 2" by simp
  note t = write_read_transaction [OF assms(1-3) z, of "[i]", unfolded as_select [OF ok]]
  have "fst (dev_reads 2 (As621x (d\<lparr>as_byteCount := 1, index := i AND 3\<rparr>))) = [ucast v, ucast (drop_bit 8 v)]"
    using as_read_2 [of "d\<lparr>as_byteCount := 1, index := i AND 3\<rparr>" True] assms(5,6) and_3 [of i] by (simp add: as_reg_def Let_def)
  then show ?thesis using t by simp
qed

theorem as621x_restart_swaps_witness:
  "fst (snd (i2c_write_read 0x48 [1] 2 (after_reset (i2cdpi_create I2C_Idle raw_hat (raw_as\<lparr>config := 0x1234\<rparr>) ''i2c1'')))) = [msb_first 0x34, msb_first 0x12]"
proof -
  have d: "(map_option busReset \<circ> devs (i2cdpi_create I2C_Idle raw_hat (raw_as\<lparr>config := 0x1234\<rparr>) ''i2c1'')) 0x48 =
      Some (As621x (as_busReset (as_new (raw_as\<lparr>config := 0x1234\<rparr>))))"
    by (simp add: i2cdpi_create_def add_device_def i2cdpi_new_def Let_def)
  have "fst (snd (i2c_write_read 0x48 [1] 2 (after_reset (i2cdpi_create I2C_Idle raw_hat (raw_as\<lparr>config := 0x1234\<rparr>) ''i2c1'')))) =
    [msb_first (ucast (0x1234 :: u16)), msb_first (ucast (drop_bit 8 (0x1234 :: u16)))]"
    by (rule as621x_restart_swaps [OF after_reset_idle _ d]) (simp_all add: as_busReset_def as_new_def as_reg_def)
  then show ?thesis by simp
qed

end
