(* ===== verification/Spi_Lcd.thy ===== *)
theory Spi_Lcd
  imports Spi_Device
begin

unbundle bit_operations_syntax

text \<open>
  The simulated ST7735 display (\<open>spi_lcd.hh\<close>, \<open>spi_lcd.cc\<close>): its command parser, the pixel writes into the frame buffer
  and the image file it keeps. The frame buffer is the flat memory behind \<open>frameBuf[kHeight][kWidth]\<close>. What a call gets from
  its environment (the clock, whether the file opens) is an argument. The lemmas show that the parser never leaves its
  command buffer, that a window is filled pixel by pixel whatever the orientation, and what the
  image file shows.
\<close>

section \<open>State\<close>

record spi_lcd = spidevicedpi +
  imgFilename :: string
  imgLatestTime :: nat
  imgFile :: "u8 list"
  pixWriting :: bool
  madCtl :: u8
  colAdr :: u16
  rowAdr :: u16
  xStart :: u16
  xEnd :: u16
  yStart :: u16
  yEnd :: u16
  lcd_cmdLen :: u8
  lcd_cmd :: "u8 list"
  frameBuf :: "u16 list"

text \<open>The environment of a call: the clock when the method reads it and when \<open>outputImage\<close> does, and whether \<open>fopen\<close> succeeds.
  \<open>imgFile\<close> is the contents of the file on disk.\<close>

record lcd_env =
  time_now :: nat
  time_after :: nat
  fopen_ok :: bool

definition kWidth :: u32 where "kWidth = 128"
definition kHeight :: u32 where "kHeight = 160"

definition ST7735_SWRESET :: u8 where "ST7735_SWRESET = 0x01"
definition ST7735_CASET :: u8 where "ST7735_CASET = 0x2A"
definition ST7735_RASET :: u8 where "ST7735_RASET = 0x2B"
definition ST7735_RAMWR :: u8 where "ST7735_RAMWR = 0x2C"
definition ST7735_COLMOD :: u8 where "ST7735_COLMOD = 0x3A"
definition ST7735_MADCTL :: u8 where "ST7735_MADCTL = 0x36"
definition ST7735_FRMCTR1 :: u8 where "ST7735_FRMCTR1 = 0xB1"
definition ST7735_FRMCTR2 :: u8 where "ST7735_FRMCTR2 = 0xB2"
definition ST7735_FRMCTR3 :: u8 where "ST7735_FRMCTR3 = 0xB3"
definition ST7735_INVCTR :: u8 where "ST7735_INVCTR = 0xB4"
definition ST7735_DISSET5 :: u8 where "ST7735_DISSET5 = 0xB6"
definition ST7735_PWCTR1 :: u8 where "ST7735_PWCTR1 = 0xC0"
definition ST7735_PWCTR2 :: u8 where "ST7735_PWCTR2 = 0xC1"
definition ST7735_PWCTR3 :: u8 where "ST7735_PWCTR3 = 0xC2"
definition ST7735_PWCTR4 :: u8 where "ST7735_PWCTR4 = 0xC3"
definition ST7735_PWCTR5 :: u8 where "ST7735_PWCTR5 = 0xC4"
definition ST7735_VMCTR1 :: u8 where "ST7735_VMCTR1 = 0xC5"
definition ST7735_PWCTR6 :: u8 where "ST7735_PWCTR6 = 0xFC"
definition ST7735_GMCTRP1 :: u8 where "ST7735_GMCTRP1 = 0xE0"
definition ST7735_GMCTRN1 :: u8 where "ST7735_GMCTRN1 = 0xE1"

lemmas lcd_cmds = ST7735_SWRESET_def ST7735_CASET_def ST7735_RASET_def ST7735_RAMWR_def ST7735_COLMOD_def
  ST7735_MADCTL_def ST7735_FRMCTR1_def ST7735_FRMCTR2_def ST7735_FRMCTR3_def ST7735_INVCTR_def ST7735_DISSET5_def
  ST7735_PWCTR1_def ST7735_PWCTR2_def ST7735_PWCTR3_def ST7735_PWCTR4_def ST7735_PWCTR5_def ST7735_VMCTR1_def
  ST7735_PWCTR6_def ST7735_GMCTRP1_def ST7735_GMCTRN1_def

definition ST77_MADCTL_MY :: u8 where "ST77_MADCTL_MY = push_bit 7 1"
definition ST77_MADCTL_MX :: u8 where "ST77_MADCTL_MX = push_bit 6 1"
definition ST77_MADCTL_MV :: u8 where "ST77_MADCTL_MV = push_bit 5 1"

section \<open>The image file\<close>

text \<open>\<open>fprintf\<close> with \<open>%u\<close>.\<close>

fun decimal :: "nat \<Rightarrow> u8 list" where
  "decimal n = (if n < 10 then [of_nat (48 + n)] else decimal (n div 10) @ [of_nat (48 + n mod 10)])"

declare decimal.simps [simp del]

text \<open>The components of a pixel, as 6:6:6.\<close>

definition lcd_rgb :: "u16 \<Rightarrow> u8 list" where
  "lcd_rgb pix =
    (let r = pix AND 0x1f;
         g = drop_bit 5 pix AND 0x3f;
         b = drop_bit 11 pix;
         b = push_bit 1 b OR drop_bit 4 b;
         r = push_bit 1 r OR drop_bit 4 r
     in [ucast r, ucast g, ucast b])"

text \<open>The inner loop: \<open>ncols\<close> pixels from the pointer on, \<open>xd\<close> apart. Pointers are indices into the frame buffer.\<close>

fun image_cols :: "u16 list \<Rightarrow> nat \<Rightarrow> int \<Rightarrow> int \<Rightarrow> u8 list" where
  "image_cols fb 0 xd p = []"
| "image_cols fb (Suc ncols) xd p = lcd_rgb (fb ! nat p) @ image_cols fb ncols xd (p + xd)"

fun image_rows :: "u16 list \<Rightarrow> bool \<Rightarrow> nat \<Rightarrow> nat \<Rightarrow> int \<Rightarrow> u8 list" where
  "image_rows fb transposed w 0 y = []"
| "image_rows fb transposed w (Suc nrows) y =
    (let p = (if transposed then y else 128 * y);
         xd = (if transposed then 128 else 1);
         invert_x = \<not> transposed;
         p = (if invert_x then p + (int w - 1) * xd else p);
         xd = (if invert_x then - xd else xd)
     in image_cols fb w xd p @ image_rows fb transposed w nrows (y - 1))"

definition ppm_header :: "nat \<Rightarrow> nat \<Rightarrow> u8 list" where
  "ppm_header w h = [0x50, 0x36, 0x20] @ decimal w @ [0x20] @ decimal h @ [0x20] @ decimal 0x3f @ [0x0a]"

definition lcd_image :: "u8 \<Rightarrow> u16 list \<Rightarrow> u8 list" where
  "lcd_image mad fb =
    (let transposed = (mad AND ST77_MADCTL_MV \<noteq> 0);
         w = (if transposed then unat kHeight else unat kWidth);
         h = (if transposed then unat kWidth else unat kHeight)
     in ppm_header w h @ image_rows fb transposed w h (int h - 1))"

definition outputImage :: "lcd_env \<Rightarrow> 'a spi_lcd_scheme \<Rightarrow> 'a spi_lcd_scheme" where
  "outputImage env d =
    (if fopen_ok env then d\<lparr>imgFile := lcd_image (madCtl d) (frameBuf d), imgLatestTime := time_after env\<rparr> else d)"

section \<open>Commands and pixels\<close>

definition spi_lcd_reset :: "lcd_env \<Rightarrow> 'a spi_lcd_scheme \<Rightarrow> 'a spi_lcd_scheme" where
  "spi_lcd_reset env d = outputImage env ((spidevicedpi_reset d)
     \<lparr>lcd_cmdLen := 0, xEnd := 0, xStart := 0, yEnd := 0, yStart := 0, madCtl := 0, colAdr := 0, rowAdr := 0,
      pixWriting := False, frameBuf := replicate (160 * 128) 0, imgFilename := ''lcd.ppm'', imgLatestTime := time_now env\<rparr>)"

definition spi_lcd_new :: "lcd_env \<Rightarrow> 'a spi_lcd_scheme \<Rightarrow> 'a spi_lcd_scheme" where
  "spi_lcd_new env raw = spi_lcd_reset env (spidevicedpi_reset raw)"

text \<open>Where a pixel at the controller's row and column goes in the frame buffer, if it is on the panel.\<close>

definition lcd_pos :: "u8 \<Rightarrow> u16 \<Rightarrow> u16 \<Rightarrow> nat option" where
  "lcd_pos mad row col =
    (let mv = mad AND ST77_MADCTL_MV \<noteq> 0;
         colPhysAdr = (if mv then row else col);
         rowPhysAdr = (if mv then col else row)
     in if ucast colPhysAdr < kWidth \<and> ucast rowPhysAdr < kHeight then
          let colPhysAdr = (if mad AND ST77_MADCTL_MX \<noteq> 0 then ucast (kWidth - 1 - ucast colPhysAdr) else colPhysAdr);
              rowPhysAdr = (if mad AND ST77_MADCTL_MY \<noteq> 0 then ucast (kHeight - 1 - ucast rowPhysAdr) else rowPhysAdr)
          in Some (128 * unat rowPhysAdr + unat colPhysAdr)
        else None)"

definition lcd_put :: "u8 \<Rightarrow> u16 \<Rightarrow> u16 \<Rightarrow> u16 \<Rightarrow> u16 list \<Rightarrow> u16 list" where
  "lcd_put mad row col pix fb = (case lcd_pos mad row col of Some k \<Rightarrow> fb[k := pix] | None \<Rightarrow> fb)"

text \<open>A complete pixel: whether the image is to be written, and the new state.\<close>

definition lcd_pixel :: "'a spi_lcd_scheme \<Rightarrow> bool \<times> 'a spi_lcd_scheme" where
  "lcd_pixel d =
    (let pixCol = push_bit 8 (ucast (lcd_cmd d ! 0)) OR ucast (lcd_cmd d ! 1);
         d = d\<lparr>frameBuf := lcd_put (madCtl d) (rowAdr d) (colAdr d) pixCol (frameBuf d)\<rparr>;
         d = d\<lparr>colAdr := colAdr d + 1\<rparr>
     in if colAdr d > xEnd d then
          let d = d\<lparr>colAdr := xStart d, rowAdr := rowAdr d + 1\<rparr>
          in (True, if rowAdr d > yEnd d then d\<lparr>pixWriting := False\<rparr> else d)
        else (False, d))"

text \<open>The switch over the command byte: whether the command is complete, and the new state.\<close>

definition lcd_switch :: "lcd_env \<Rightarrow> u8 \<Rightarrow> 'a spi_lcd_scheme \<Rightarrow> bool \<times> 'a spi_lcd_scheme" where
  "lcd_switch env c d =
    (let n = lcd_cmdLen d; cmd = lcd_cmd d in
     if c = ST7735_SWRESET then (True, spi_lcd_reset env d)
     else if c \<in> {ST7735_COLMOD, ST7735_INVCTR, ST7735_PWCTR2} then (n \<ge> 2, d)
     else if c \<in> {ST7735_FRMCTR1, ST7735_FRMCTR2} then (n \<ge> 4, d)
     else if c = ST7735_FRMCTR3 then (n \<ge> 7, d)
     else if c = ST7735_MADCTL then (n \<ge> 2, if n \<ge> 2 then d\<lparr>madCtl := cmd ! 1\<rparr> else d)
     else if c \<in> {ST7735_DISSET5, ST7735_PWCTR1, ST7735_PWCTR3, ST7735_PWCTR4, ST7735_PWCTR5, ST7735_PWCTR6, ST7735_VMCTR1}
       then (n \<ge> 3, d)
     else if c \<in> {ST7735_GMCTRP1, ST7735_GMCTRN1} then (n \<ge> 17, d)
     else if c = ST7735_CASET then
       (n \<ge> 5, if n \<ge> 5 then d\<lparr>xStart := push_bit 8 (ucast (cmd ! 1)) OR ucast (cmd ! 2),
                              xEnd := push_bit 8 (ucast (cmd ! 3)) OR ucast (cmd ! 4)\<rparr> else d)
     else if c = ST7735_RASET then
       (n \<ge> 5, if n \<ge> 5 then d\<lparr>yStart := push_bit 8 (ucast (cmd ! 1)) OR ucast (cmd ! 2),
                              yEnd := push_bit 8 (ucast (cmd ! 3)) OR ucast (cmd ! 4)\<rparr> else d)
     else if c = ST7735_RAMWR then (True, d\<lparr>colAdr := xStart d, rowAdr := yStart d, pixWriting := True\<rparr>)
     else (True, d))"

definition spi_lcd_writeByte :: "lcd_env \<Rightarrow> u8 \<Rightarrow> u32 \<Rightarrow> 'a spi_lcd_scheme \<Rightarrow> 'a spi_lcd_scheme" where
  "spi_lcd_writeByte env inB oobIn d =
    (let d = d\<lparr>lcd_cmd := (lcd_cmd d)[unat (lcd_cmdLen d) := inB], lcd_cmdLen := lcd_cmdLen d + 1\<rparr>;
         (cmdComplete, emitImage, d) =
           (if pixWriting d then (if lcd_cmdLen d \<ge> 2 then (True, lcd_pixel d) else (False, False, d))
            else case lcd_switch env (lcd_cmd d ! 0) d of (complete, d) \<Rightarrow> (complete, False, d));
         d = (if emitImage \<and> time_now env \<noteq> imgLatestTime d then outputImage env d else d)
     in if cmdComplete then d\<lparr>lcd_cmdLen := 0\<rparr> else d)"

section \<open>The parser stays within its buffers\<close>

definition lcd_ok :: "'a spi_lcd_scheme \<Rightarrow> bool" where
  "lcd_ok d \<longleftrightarrow> length (lcd_cmd d) = 0x20 \<and> length (frameBuf d) = 160 * 128 \<and> unat (lcd_cmdLen d) < 17 \<and>
     (pixWriting d \<longrightarrow> unat (lcd_cmdLen d) < 2)"

lemma length_lcd_put [simp]: "length (lcd_put mad r c p fb) = length fb"
  by (simp add: lcd_put_def split: option.split)

lemma lcd_reset_ok: "length (lcd_cmd d) = 0x20 \<Longrightarrow> lcd_ok (spi_lcd_reset env d)"
  by (simp add: lcd_ok_def spi_lcd_reset_def outputImage_def spidevicedpi_reset_def)

lemma lcd_ok_outputImage [simp]: "lcd_ok (outputImage env d) = lcd_ok d"
  by (simp add: lcd_ok_def outputImage_def)

lemma lcd_pixel_ok:
  "length (lcd_cmd d) = 0x20 \<Longrightarrow> length (frameBuf d) = 160 * 128 \<Longrightarrow> lcd_ok ((snd (lcd_pixel d))\<lparr>lcd_cmdLen := 0\<rparr>)"
  by (simp add: lcd_ok_def lcd_pixel_def Let_def)

lemma lcd_switch_ok:
  assumes "length (lcd_cmd d) = 0x20" "length (frameBuf d) = 160 * 128" "unat (lcd_cmdLen d) \<le> 17" "\<not> pixWriting d"
    "lcd_switch env c d = (complete, d')"
  shows "lcd_ok (if complete then d'\<lparr>lcd_cmdLen := 0\<rparr> else d')"
proof -
  have "complete \<or> d' = d \<and> lcd_cmdLen d < 17"
    using assms(3,5) by (auto simp: lcd_switch_def Let_def word_le_nat_alt word_less_nat_alt not_le split: if_splits)
  moreover have "length (lcd_cmd d') = 0x20" "length (frameBuf d') = 160 * 128"
    using assms(1,2,5) lcd_reset_ok [OF assms(1), of env] by (auto simp: lcd_switch_def Let_def lcd_ok_def split: if_splits)
  ultimately show ?thesis using assms by (auto simp: lcd_ok_def word_less_nat_alt)
qed

lemma lcd_writeByte_ok:
  assumes "lcd_ok d"
  shows "lcd_ok (spi_lcd_writeByte env b oob d)"
proof -
  define e where "e = d\<lparr>lcd_cmd := (lcd_cmd d)[unat (lcd_cmdLen d) := b], lcd_cmdLen := lcd_cmdLen d + 1\<rparr>"
  have len: "unat (lcd_cmdLen e) = Suc (unat (lcd_cmdLen d))"
    using assms by (simp add: e_def lcd_ok_def unat_word_ariths)
  have e: "length (lcd_cmd e) = 0x20" "length (frameBuf e) = 160 * 128" "unat (lcd_cmdLen e) \<le> 17"
    "pixWriting e = pixWriting d"
    using assms len by (simp_all add: e_def lcd_ok_def)
  show ?thesis
  proof (cases "pixWriting d")
    case True
    then have "lcd_ok (if lcd_cmdLen e \<ge> 2 then (snd (lcd_pixel e))\<lparr>lcd_cmdLen := 0\<rparr> else e)"
      using assms len lcd_pixel_ok [OF e(1,2)] e by (auto simp: lcd_ok_def word_le_nat_alt)
    then show ?thesis using True
      by (auto simp: spi_lcd_writeByte_def Let_def split_beta outputImage_def lcd_ok_def e(4) simp flip: e_def)
  next
    case False
    obtain complete d' where s: "lcd_switch env (lcd_cmd e ! 0) e = (complete, d')" by fastforce
    then show ?thesis
      using lcd_switch_ok [OF e(1-3) _ s] False e(4) by (simp add: spi_lcd_writeByte_def Let_def split: if_splits flip: e_def)
  qed
qed

text \<open>A sequence of bytes, each with its environment and its out-of-band input.\<close>

definition lcd_writes :: "(lcd_env \<times> u8) list \<Rightarrow> 'a spi_lcd_scheme \<Rightarrow> 'a spi_lcd_scheme" where
  "lcd_writes bs d = foldl (\<lambda>d (env, b). spi_lcd_writeByte env b 0 d) d bs"

lemma lcd_writes_simps [simp]:
  "lcd_writes [] d = d" "lcd_writes (x # bs) d = lcd_writes bs (spi_lcd_writeByte (fst x) (snd x) 0 d)"
  "lcd_writes (bs @ bs') d = lcd_writes bs' (lcd_writes bs d)"
  by (simp_all add: lcd_writes_def split_beta)

lemma lcd_writes_ok: "lcd_ok d \<Longrightarrow> lcd_ok (lcd_writes bs d)"
  by (induction bs arbitrary: d) (auto simp: lcd_writeByte_ok)

section \<open>Positions\<close>

lemma unat_mirror:
  "unat (x :: u16) < 160 \<Longrightarrow> unat (ucast (kHeight - 1 - ucast x) :: u16) = 159 - unat x"
  "unat (y :: u16) < 128 \<Longrightarrow> unat (ucast (kWidth - 1 - ucast y) :: u16) = 127 - unat y"
proof -
  have "unat (159 - ucast x :: u32) = 159 - unat x" if "unat x < 160" for x :: u16
    using that by (subst unat_sub) (simp_all add: word_le_nat_alt)
  then show "unat (x :: u16) < 160 \<Longrightarrow> unat (ucast (kHeight - 1 - ucast x) :: u16) = 159 - unat x"
    by (simp add: kHeight_def unsigned_ucast_eq take_bit_nat_eq_self)
next
  have "unat (127 - ucast x :: u32) = 127 - unat x" if "unat x < 128" for x :: u16
    using that by (subst unat_sub) (simp_all add: word_le_nat_alt)
  then show "unat (y :: u16) < 128 \<Longrightarrow> unat (ucast (kWidth - 1 - ucast y) :: u16) = 127 - unat y"
    by (simp add: kWidth_def unsigned_ucast_eq take_bit_nat_eq_self)
qed

definition lcd_flip :: "bool \<Rightarrow> nat \<Rightarrow> nat \<Rightarrow> nat" where
  "lcd_flip f n x = (if f then n - 1 - x else x)"

lemma lcd_flip_less [simp]: "x < n \<Longrightarrow> lcd_flip f n x < n"
  by (auto simp: lcd_flip_def)

lemma lcd_flip_inject: "x < n \<Longrightarrow> y < n \<Longrightarrow> lcd_flip f n x = lcd_flip f n y \<longleftrightarrow> x = y"
  by (auto simp: lcd_flip_def)

lemma lcd_pos_eq:
  "lcd_pos mad r c =
    (let mv = mad AND ST77_MADCTL_MV \<noteq> 0; x = (if mv then r else c); y = (if mv then c else r)
     in if unat x < 128 \<and> unat y < 160
        then Some (128 * lcd_flip (mad AND ST77_MADCTL_MY \<noteq> 0) 160 (unat y) + lcd_flip (mad AND ST77_MADCTL_MX \<noteq> 0) 128 (unat x))
        else None)"
proof -
  have "(ucast x < kWidth \<longleftrightarrow> unat x < 128) \<and> (ucast x < kHeight \<longleftrightarrow> unat x < 160)" for x :: u16
    by (simp add: word_less_nat_alt kWidth_def kHeight_def)
  then show ?thesis
    by (auto simp: lcd_pos_def Let_def lcd_flip_def unat_mirror)
qed

lemma lcd_pos_bound: "lcd_pos mad r c = Some k \<Longrightarrow> k < 160 * 128"
proof -
  have *: "128 * lcd_flip f 160 y + lcd_flip g 128 x < 160 * 128" if "y < 160" "x < 128" for f g and x y :: nat
    using lcd_flip_less [OF that(1), of f] lcd_flip_less [OF that(2), of g] by linarith
  show "lcd_pos mad r c = Some k \<Longrightarrow> k < 160 * 128"
    by (auto simp: lcd_pos_eq Let_def split: if_splits intro!: * [simplified])
qed

lemma div_mod_split: "128 * a + x = 128 * b + y \<Longrightarrow> x < 128 \<Longrightarrow> y < 128 \<Longrightarrow> a = b \<and> x = (y :: nat)"
  by (drule arg_cong [where f = "\<lambda>n. (n div 128, n mod 128)"]) simp

lemma lcd_pos_inject:
  assumes "lcd_pos mad r c = Some k" "lcd_pos mad r' c' = Some k"
  shows "r = r' \<and> c = c'"
proof -
  have *: "y = y' \<and> x = x'" if "128 * lcd_flip f 160 y + lcd_flip g 128 x = 128 * lcd_flip f 160 y' + lcd_flip g 128 x'"
    "x < 128" "x' < 128" "y < 160" "y' < 160" for x x' y y' f g
  proof -
    have "lcd_flip f 160 y = lcd_flip f 160 y' \<and> lcd_flip g 128 x = lcd_flip g 128 x'"
      by (rule div_mod_split [OF that(1) lcd_flip_less [OF that(2)] lcd_flip_less [OF that(3)]])
    with that(2-) show ?thesis by (simp add: lcd_flip_inject)
  qed
  show ?thesis
  proof (cases "mad AND ST77_MADCTL_MV \<noteq> 0")
    case True
    with assms show ?thesis
      using * [of "mad AND ST77_MADCTL_MY \<noteq> 0" "unat c" "mad AND ST77_MADCTL_MX \<noteq> 0" "unat r" "unat c'" "unat r'"]
      by (simp add: lcd_pos_eq Let_def word_unat_eq_iff split: if_splits)
  next
    case False
    with assms show ?thesis
      using * [of "mad AND ST77_MADCTL_MY \<noteq> 0" "unat r" "mad AND ST77_MADCTL_MX \<noteq> 0" "unat c" "unat r'" "unat c'"]
      by (simp add: lcd_pos_eq Let_def word_unat_eq_iff split: if_splits)
  qed
qed

section \<open>Filling a window\<close>

text \<open>The display awaits a pixel for row \<open>r\<close> and column \<open>c\<close> of the window.\<close>

definition lcd_at :: "u8 \<Rightarrow> nat \<Rightarrow> nat \<Rightarrow> nat \<Rightarrow> nat \<Rightarrow> nat \<Rightarrow> nat \<Rightarrow> u16 list \<Rightarrow> 'a spi_lcd_scheme \<Rightarrow> bool" where
  "lcd_at mad x0 x1 y0 y1 r c fb d \<longleftrightarrow> pixWriting d \<and> lcd_cmdLen d = 0 \<and> madCtl d = mad \<and> xStart d = of_nat x0 \<and>
     xEnd d = of_nat x1 \<and> yStart d = of_nat y0 \<and> yEnd d = of_nat y1 \<and> rowAdr d = of_nat r \<and> colAdr d = of_nat c \<and>
     frameBuf d = fb \<and> length (lcd_cmd d) = 0x20"

definition lcd_done :: "u8 \<Rightarrow> u16 list \<Rightarrow> 'a spi_lcd_scheme \<Rightarrow> bool" where
  "lcd_done mad fb d \<longleftrightarrow> \<not> pixWriting d \<and> lcd_cmdLen d = 0 \<and> madCtl d = mad \<and> frameBuf d = fb \<and> length (lcd_cmd d) = 0x20"

definition be_bytes :: "u16 \<Rightarrow> u8 list" where
  "be_bytes w = [ucast (drop_bit 8 w), ucast w]"

lemma be_bytes_join: "push_bit 8 (ucast (ucast (drop_bit 8 w) :: u8)) OR ucast (ucast w :: u8) = (w :: u16)"
  by (rule bit_word_eqI) (auto simp: bit_simps)

lemma of_nat_u16_less: "a < 2 ^ 16 \<Longrightarrow> b < 2 ^ 16 \<Longrightarrow> (of_nat a :: u16) < of_nat b \<longleftrightarrow> a < b"
  by (simp add: word_less_nat_alt unat_of_nat)

lemma lcd_pixel_step:
  assumes "lcd_at mad x0 x1 y0 y1 r c fb d" "c \<le> x1" "r \<le> y1" "x1 < 0xffff" "y1 < 0xffff" "map snd bs = be_bytes p"
  defines "fb' \<equiv> lcd_put mad (of_nat r) (of_nat c) p fb"
  shows "if c < x1 then lcd_at mad x0 x1 y0 y1 r (Suc c) fb' (lcd_writes bs d)
    else if r < y1 then lcd_at mad x0 x1 y0 y1 (Suc r) x0 fb' (lcd_writes bs d)
    else lcd_done mad fb' (lcd_writes bs d)"
proof -
  obtain a e where bs: "bs = [(a, ucast (drop_bit 8 p)), (e, ucast p)]"
    using assms(6) by (auto simp: be_bytes_def map_eq_Cons_conv)
  have c: "(of_nat x1 :: u16) < of_nat c + 1 \<longleftrightarrow> \<not> c < x1" "(of_nat y1 :: u16) < of_nat r + 1 \<longleftrightarrow> \<not> r < y1"
    using assms(2-5) of_nat_u16_less [of x1 "Suc c"] of_nat_u16_less [of y1 "Suc r"] by (simp_all add: not_less less_Suc_eq_le add.commute)
  define d1 where "d1 = d\<lparr>lcd_cmd := (lcd_cmd d)[0 := ucast (drop_bit 8 p)], lcd_cmdLen := 1\<rparr>"
  define d2 where "d2 = d1\<lparr>lcd_cmd := (lcd_cmd d)[0 := ucast (drop_bit 8 p), 1 := ucast p], lcd_cmdLen := 2\<rparr>"
  have 1: "spi_lcd_writeByte a (ucast (drop_bit 8 p)) 0 d = d1"
    using assms(1) by (simp add: spi_lcd_writeByte_def lcd_at_def d1_def Let_def word_le_nat_alt)
  have 2: "spi_lcd_writeByte e (ucast p) 0 d1 = (let d' = snd (lcd_pixel d2) in
      (if fst (lcd_pixel d2) \<and> time_now e \<noteq> imgLatestTime d' then outputImage e d' else d')\<lparr>lcd_cmdLen := 0\<rparr>)"
    using assms(1) by (simp add: spi_lcd_writeByte_def lcd_at_def d1_def d2_def Let_def split_beta)
  have w: "lcd_writes bs d = (let d' = snd (lcd_pixel d2) in
      (if fst (lcd_pixel d2) \<and> time_now e \<noteq> imgLatestTime d' then outputImage e d' else d')\<lparr>lcd_cmdLen := 0\<rparr>)"
    by (simp add: bs 1 2)
  show ?thesis
    unfolding w using assms(1) c
    by (simp add: lcd_at_def lcd_done_def outputImage_def lcd_pixel_def Let_def d2_def d1_def be_bytes_join fb'_def add.commute)
qed

text \<open>The cells from row \<open>r\<close> and column \<open>c\<close> on, row by row, and painting them.\<close>

definition lcd_cells :: "nat \<Rightarrow> nat \<Rightarrow> nat \<Rightarrow> nat \<Rightarrow> nat \<Rightarrow> (nat \<times> nat) list" where
  "lcd_cells x0 x1 y1 r c =
     map (Pair r) [c..<Suc x1] @ concat (map (\<lambda>r. map (Pair r) [x0..<Suc x1]) [Suc r..<Suc y1])"

definition lcd_paint :: "u8 \<Rightarrow> (nat \<times> nat) list \<Rightarrow> u16 list \<Rightarrow> u16 list \<Rightarrow> u16 list" where
  "lcd_paint mad cells ps fb = foldl (\<lambda>fb ((r, c), p). lcd_put mad (of_nat r) (of_nat c) p fb) fb (zip cells ps)"

lemma lcd_cells_next:
  "c \<le> x1 \<Longrightarrow> r \<le> y1 \<Longrightarrow> x0 \<le> x1 \<Longrightarrow> lcd_cells x0 x1 y1 r c =
     (r, c) # (if c < x1 then lcd_cells x0 x1 y1 r (Suc c) else if r < y1 then lcd_cells x0 x1 y1 (Suc r) x0 else [])"
  by (auto simp: lcd_cells_def upt_conv_Cons simp del: upt_Suc)

lemma lcd_fill:
  assumes "lcd_at mad x0 x1 y0 y1 r c fb d" "c \<le> x1" "r \<le> y1" "x0 \<le> x1" "x1 < 0xffff" "y1 < 0xffff"
    "map snd bs = concat (map be_bytes ps)" "length ps = length (lcd_cells x0 x1 y1 r c)"
  shows "lcd_done mad (lcd_paint mad (lcd_cells x0 x1 y1 r c) ps fb) (lcd_writes bs d)"
  using assms
proof (induction ps arbitrary: r c fb d bs)
  case Nil
  then show ?case by (simp add: lcd_cells_next)
next
  case (Cons p ps)
  obtain b1 b2 where bs: "bs = b1 @ b2" "map snd b1 = be_bytes p" "map snd b2 = concat (map be_bytes ps)"
    using Cons.prems(7) by (auto simp: map_eq_append_conv)
  define fb' where "fb' = lcd_put mad (of_nat r) (of_nat c) p fb"
  note step = lcd_pixel_step [OF Cons.prems(1-3,5,6) bs(2), folded fb'_def]
  note cells = lcd_cells_next [OF Cons.prems(2-4)]
  have paint: "lcd_paint mad ((r, c) # cs) (p # ps) fb = lcd_paint mad cs ps fb'" for cs
    by (simp add: lcd_paint_def fb'_def)
  consider "c < x1" | "c = x1" "r < y1" | "c = x1" "r = y1" using Cons.prems(2,3) by linarith
  then show ?case
  proof cases
    case 1
    then show ?thesis
      using Cons.IH [OF _ _ Cons.prems(3-6) bs(3), of "Suc c" fb' "lcd_writes b1 d"] step Cons.prems(8)
      by (simp add: bs(1) cells paint)
  next
    case 2
    then have c: "lcd_cells x0 x1 y1 r c = (r, c) # lcd_cells x0 x1 y1 (Suc r) x0" using cells by simp
    have "lcd_at mad x0 x1 y0 y1 (Suc r) x0 fb' (lcd_writes b1 d)" using step 2 by simp
    from Cons.IH [OF this Cons.prems(4) _ Cons.prems(4-6) bs(3)] 2 Cons.prems(8) show ?thesis
      unfolding c paint by (simp add: bs(1))
  next
    case 3
    then have c: "lcd_cells x0 x1 y1 r c = [(r, c)]" using cells by simp
    with 3 show ?thesis
      using step Cons.prems(8) bs(3) unfolding c paint by (simp add: bs(1)) (simp add: lcd_paint_def)
  qed
qed

lemma lcd_paint_other:
  assumes "\<And>r c. (r, c) \<in> set cells \<Longrightarrow> lcd_pos mad (of_nat r) (of_nat c) \<noteq> Some k"
  shows "lcd_paint mad cells ps fb ! k = fb ! k"
  using assms
proof (induction cells arbitrary: ps fb)
  case (Cons x cells)
  obtain r c where x: "x = (r, c)" by fastforce
  have "lcd_put mad (of_nat r) (of_nat c) p fb ! k = fb ! k" for p
    using Cons.prems [of r c] by (auto simp: x lcd_put_def split: option.split)
  with Cons show ?case by (cases ps) (auto simp: lcd_paint_def x)
qed (simp add: lcd_paint_def)

lemma length_lcd_paint [simp]: "length (lcd_paint mad cells ps fb) = length fb"
  unfolding lcd_paint_def by (induction cells ps arbitrary: fb rule: list_induct2') (auto simp: lcd_put_def split: option.split)

lemma lcd_paint_cell:
  assumes "distinct cells" "set cells \<subseteq> {..<0x10000} \<times> {..<0x10000}" "length ps = length cells" "length fb = 160 * 128"
    "i < length cells" "cells ! i = (r, c)" "lcd_pos mad (of_nat r) (of_nat c) = Some k"
  shows "lcd_paint mad cells ps fb ! k = ps ! i"
  using assms
proof (induction cells arbitrary: ps fb i)
  case (Cons x cells)
  then obtain p ps' where ps: "ps = p # ps'" by (cases ps) auto
  obtain r0 c0 where x: "x = (r0, c0)" by fastforce
  have paint: "lcd_paint mad (x # cells) ps fb = lcd_paint mad cells ps' (lcd_put mad (of_nat r0) (of_nat c0) p fb)"
    by (simp add: lcd_paint_def ps x)
  show ?case
  proof (cases i)
    case 0
    with Cons.prems have "r0 = r" "c0 = c" by (simp_all add: x)
    moreover have "lcd_pos mad (of_nat r') (of_nat c') \<noteq> Some k" if "(r', c') \<in> set cells" for r' c'
    proof
      assume "lcd_pos mad (of_nat r') (of_nat c') = Some k"
      from lcd_pos_inject [OF this Cons.prems(7)] have eq: "(of_nat r' :: u16) = of_nat r" "(of_nat c' :: u16) = of_nat c" by auto
      moreover have "r' < 0x10000" "c' < 0x10000" "r < 0x10000" "c < 0x10000"
        using Cons.prems(2,5,6) that by (auto simp: 0)
      ultimately have "r' = r" "c' = c" by (simp_all add: of_nat_inverse word_of_nat_eq_iff take_bit_nat_eq_self)
      with that Cons.prems(1) show False by (simp add: x \<open>r0 = r\<close> \<open>c0 = c\<close>)
    qed
    ultimately show ?thesis
      using Cons.prems(4,7) lcd_pos_bound [OF Cons.prems(7)] unfolding paint
      by (subst lcd_paint_other) (auto simp: lcd_put_def 0 ps)
  next
    case (Suc j)
    then show ?thesis
      using Cons.IH [of ps' "lcd_put mad (of_nat r0) (of_nat c0) p fb" j] Cons.prems unfolding paint by (simp add: ps)
  qed
qed simp

section \<open>Commands\<close>

lemma lcd_write_cmd:
  "\<not> pixWriting d \<Longrightarrow> spi_lcd_writeByte env b oob d =
    (let e = d\<lparr>lcd_cmd := (lcd_cmd d)[unat (lcd_cmdLen d) := b], lcd_cmdLen := lcd_cmdLen d + 1\<rparr>;
         (complete, d') = lcd_switch env (lcd_cmd e ! 0) e
     in if complete then d'\<lparr>lcd_cmdLen := 0\<rparr> else d')"
  by (simp add: spi_lcd_writeByte_def Let_def split_beta)

lemma lcd_switch_window:
  "lcd_switch env ST7735_CASET d = (lcd_cmdLen d \<ge> 5, if lcd_cmdLen d \<ge> 5 then d\<lparr>xStart := push_bit 8 (ucast (lcd_cmd d ! 1)) OR ucast (lcd_cmd d ! 2),
     xEnd := push_bit 8 (ucast (lcd_cmd d ! 3)) OR ucast (lcd_cmd d ! 4)\<rparr> else d)"
  "lcd_switch env ST7735_RASET d = (lcd_cmdLen d \<ge> 5, if lcd_cmdLen d \<ge> 5 then d\<lparr>yStart := push_bit 8 (ucast (lcd_cmd d ! 1)) OR ucast (lcd_cmd d ! 2),
     yEnd := push_bit 8 (ucast (lcd_cmd d ! 3)) OR ucast (lcd_cmd d ! 4)\<rparr> else d)"
  "lcd_switch env ST7735_RAMWR d = (True, d\<lparr>colAdr := xStart d, rowAdr := yStart d, pixWriting := True\<rparr>)"
  by (simp_all add: lcd_switch_def lcd_cmds Let_def)

text \<open>A command with four argument bytes.\<close>

lemma lcd_five_bytes:
  assumes "\<not> pixWriting d" "lcd_cmdLen d = 0" "length (lcd_cmd d) = 0x20" "map snd bs = [c, a1, a2, a3, a4]"
    and sw: "\<And>env e. lcd_switch env c e = (lcd_cmdLen e \<ge> 5, if lcd_cmdLen e \<ge> 5 then f e else e)"
  shows "lcd_writes bs d =
    (f (d\<lparr>lcd_cmd := (lcd_cmd d)[0 := c, 1 := a1, 2 := a2, 3 := a3, 4 := a4], lcd_cmdLen := 5\<rparr>))\<lparr>lcd_cmdLen := 0\<rparr>"
proof -
  obtain e0 e1 e2 e3 e4 where bs: "bs = [(e0, c), (e1, a1), (e2, a2), (e3, a3), (e4, a4)]"
    using assms(4) by (auto simp: map_eq_Cons_conv)
  show ?thesis
    using assms(1-3) by (simp add: bs lcd_write_cmd sw word_le_nat_alt)
qed

definition lcd_window :: "u16 \<Rightarrow> u16 \<Rightarrow> u16 \<Rightarrow> u16 \<Rightarrow> u8 list" where
  "lcd_window x0 x1 y0 y1 =
     (ST7735_CASET # be_bytes x0 @ be_bytes x1) @ (ST7735_RASET # be_bytes y0 @ be_bytes y1) @ [ST7735_RAMWR]"

lemma lcd_caset:
  assumes "lcd_done mad fb d" "map snd bs = ST7735_CASET # be_bytes x0 @ be_bytes x1"
  shows "lcd_done mad fb (lcd_writes bs d) \<and> xStart (lcd_writes bs d) = x0 \<and> xEnd (lcd_writes bs d) = x1"
proof -
  have d: "\<not> pixWriting d" "lcd_cmdLen d = 0" "length (lcd_cmd d) = 0x20" using assms(1) by (simp_all add: lcd_done_def)
  note w = lcd_five_bytes [OF d assms(2) [unfolded be_bytes_def append.simps] lcd_switch_window(1)]
  show ?thesis unfolding w using assms(1) by (simp add: lcd_done_def be_bytes_join)
qed

lemma lcd_raset:
  assumes "lcd_done mad fb d" "map snd bs = ST7735_RASET # be_bytes y0 @ be_bytes y1"
  shows "lcd_done mad fb (lcd_writes bs d) \<and> yStart (lcd_writes bs d) = y0 \<and> yEnd (lcd_writes bs d) = y1 \<and>
    xStart (lcd_writes bs d) = xStart d \<and> xEnd (lcd_writes bs d) = xEnd d"
proof -
  have d: "\<not> pixWriting d" "lcd_cmdLen d = 0" "length (lcd_cmd d) = 0x20" using assms(1) by (simp_all add: lcd_done_def)
  note w = lcd_five_bytes [OF d assms(2) [unfolded be_bytes_def append.simps] lcd_switch_window(2)]
  show ?thesis unfolding w using assms(1) by (simp add: lcd_done_def be_bytes_join)
qed

lemma lcd_window_opens:
  assumes "lcd_done mad fb d" "map snd bs = lcd_window (of_nat x0) (of_nat x1) (of_nat y0) (of_nat y1)"
  shows "lcd_at mad x0 x1 y0 y1 y0 x0 fb (lcd_writes bs d)"
proof -
  define b1 b2 b3 where "b1 = take 5 bs" "b2 = take 5 (drop 5 bs)" "b3 = drop 5 (drop 5 bs)"
  have bs: "bs = b1 @ b2 @ b3" unfolding \<open>b1 = _\<close> \<open>b2 = _\<close> \<open>b3 = _\<close> by (simp only: append_take_drop_id)
  have b: "map snd b1 = ST7735_CASET # be_bytes (of_nat x0) @ be_bytes (of_nat x1)"
      "map snd b2 = ST7735_RASET # be_bytes (of_nat y0) @ be_bytes (of_nat y1)" "map snd b3 = [ST7735_RAMWR]"
    unfolding \<open>b1 = _\<close> \<open>b2 = _\<close> \<open>b3 = _\<close> take_map [symmetric] drop_map [symmetric] assms(2)
    by (simp_all add: lcd_window_def be_bytes_def)
  obtain env where b3: "b3 = [(env, ST7735_RAMWR)]" using b(3) by auto
  have "lcd_at mad x0 x1 y0 y1 y0 x0 fb (lcd_writes b3 e)" if "lcd_done mad fb e" "xStart e = of_nat x0" "xEnd e = of_nat x1"
    "yStart e = of_nat y0" "yEnd e = of_nat y1" for e :: "'a spi_lcd_scheme"
    using that by (simp add: b3 lcd_done_def lcd_at_def lcd_write_cmd lcd_switch_window)
  with lcd_caset [OF assms(1) b(1)] lcd_raset [OF _ b(2), of mad fb "lcd_writes b1 d"] show ?thesis by (simp add: bs)
qed

section \<open>The display on the wires\<close>

lemma lcd_core_upd: "spidevicedpi_reset (d\<lparr>lcd_cmdLen := n\<rparr>) = (spidevicedpi_reset d)\<lparr>lcd_cmdLen := n\<rparr>"
  "spidevicedpi_reset (d\<lparr>lcd_cmd := xs\<rparr>) = (spidevicedpi_reset d)\<lparr>lcd_cmd := xs\<rparr>"
  by (simp_all add: spidevicedpi_reset_def)

lemma lcd_core_sel [simp]:
  "lcd_cmd (spidevicedpi_reset d) = lcd_cmd d" "lcd_cmdLen (spidevicedpi_reset d) = lcd_cmdLen d"
  "pixWriting (spidevicedpi_reset d) = pixWriting d" "imgLatestTime (spidevicedpi_reset d) = imgLatestTime d"
  by (simp_all add: spidevicedpi_reset_def)

lemma lcd_switch_core: "lcd_switch env c (spidevicedpi_reset d) = map_prod id spidevicedpi_reset (lcd_switch env c d)"
  by (simp add: lcd_switch_def Let_def spi_lcd_reset_def outputImage_def spidevicedpi_reset_def)

lemma lcd_pixel_core: "lcd_pixel (spidevicedpi_reset d) = map_prod id spidevicedpi_reset (lcd_pixel d)"
  by (simp add: lcd_pixel_def Let_def spidevicedpi_reset_def)

lemma lcd_output_core: "outputImage env (spidevicedpi_reset d) = spidevicedpi_reset (outputImage env d)"
  by (simp add: outputImage_def spidevicedpi_reset_def)

text \<open>\<open>writeByte\<close> in three steps: the byte is stored, the command or pixel handled, the image and the parser updated.\<close>

definition lcd_end :: "lcd_env \<Rightarrow> bool \<times> bool \<times> 'a spi_lcd_scheme \<Rightarrow> 'a spi_lcd_scheme" where
  "lcd_end env r = (case r of (complete, emit, d) \<Rightarrow>
     let d = (if emit \<and> time_now env \<noteq> imgLatestTime d then outputImage env d else d)
     in if complete then d\<lparr>lcd_cmdLen := 0\<rparr> else d)"

lemma lcd_writeByte_steps:
  "e = d\<lparr>lcd_cmd := (lcd_cmd d)[unat (lcd_cmdLen d) := b], lcd_cmdLen := lcd_cmdLen d + 1\<rparr> \<Longrightarrow>
   spi_lcd_writeByte env b oob d = lcd_end env
    (if pixWriting d then (if lcd_cmdLen e \<ge> 2 then (True, lcd_pixel e) else (False, False, e))
     else (fst (lcd_switch env (lcd_cmd e ! 0) e), False, snd (lcd_switch env (lcd_cmd e ! 0) e)))"
  by (cases "pixWriting d"; cases "2 \<le> lcd_cmdLen d + 1") (simp_all add: spi_lcd_writeByte_def lcd_end_def Let_def split_beta)

lemma lcd_end_core: "lcd_end env (complete, emit, spidevicedpi_reset d) = spidevicedpi_reset (lcd_end env (complete, emit, d))"
  by (simp add: lcd_end_def lcd_output_core lcd_core_upd Let_def)

lemma lcd_writeByte_core: "spi_lcd_writeByte env b oob (spidevicedpi_reset d) = spidevicedpi_reset (spi_lcd_writeByte env b oob d)"
proof -
  define e where "e = d\<lparr>lcd_cmd := (lcd_cmd d)[unat (lcd_cmdLen d) := b], lcd_cmdLen := lcd_cmdLen d + 1\<rparr>"
  have r: "spidevicedpi_reset e = (spidevicedpi_reset d)\<lparr>lcd_cmd := (lcd_cmd (spidevicedpi_reset d))[unat (lcd_cmdLen (spidevicedpi_reset d)) := b],
      lcd_cmdLen := lcd_cmdLen (spidevicedpi_reset d) + 1\<rparr>"
    by (simp add: e_def lcd_core_upd)
  have "spi_lcd_writeByte env b oob (spidevicedpi_reset d) = lcd_end env
    (if pixWriting d then (if lcd_cmdLen e \<ge> 2 then (True, lcd_pixel (spidevicedpi_reset e)) else (False, False, spidevicedpi_reset e))
     else (fst (lcd_switch env (lcd_cmd e ! 0) (spidevicedpi_reset e)), False, snd (lcd_switch env (lcd_cmd e ! 0) (spidevicedpi_reset e))))"
    by (simp only: lcd_writeByte_steps [OF r] lcd_core_sel)
  also have "\<dots> = spidevicedpi_reset (spi_lcd_writeByte env b oob d)"
    by (cases "lcd_pixel e") (simp add: lcd_switch_core lcd_pixel_core lcd_end_core lcd_writeByte_steps [OF e_def])
  finally show ?thesis .
qed

lemma lcd_outBits [simp]:
  "outBits (outputImage env d) = outBits d" "outBits (snd (lcd_pixel d)) = outBits d"
  "outBits d = 0 \<Longrightarrow> outBits (snd (lcd_switch env c d)) = 0"
  by (simp_all add: outputImage_def lcd_pixel_def lcd_switch_def spi_lcd_reset_def spidevicedpi_reset_def Let_def)

lemma lcd_end_outBits: "outBits (lcd_end env (complete, emit, d)) = outBits d"
  by (simp add: lcd_end_def Let_def)

lemma lcd_writeByte_outBits: "outBits d = 0 \<Longrightarrow> outBits (spi_lcd_writeByte env b oob d) = 0"
proof -
  define e where "e = d\<lparr>lcd_cmd := (lcd_cmd d)[unat (lcd_cmdLen d) := b], lcd_cmdLen := lcd_cmdLen d + 1\<rparr>"
  assume "outBits d = 0"
  then have "outBits e = 0" by (simp add: e_def)
  then show ?thesis
    using lcd_outBits(2) [of e] by (cases "lcd_pixel e") (simp add: lcd_writeByte_steps [OF e_def] lcd_end_outBits)
qed

interpretation lcd_target: spi_target spidevicedpi_readByte "spi_lcd_writeByte env" "\<lambda>_. True"
  by unfold_locales
    (auto simp: lcd_writeByte_core lcd_writeByte_outBits spidevicedpi_readByte_def dev_read_def)

lemma lcd_quiet: "dev_read spidevicedpi_readByte oob (spidevicedpi_reset d) = (spidevicedpi_reset d, None)"
  by (simp add: dev_read_def spidevicedpi_readByte_def)

text \<open>Bytes clocked into the display bit by bit.\<close>

definition lcd_clocked :: "(lcd_env \<times> u8) list \<Rightarrow> 'a spi_lcd_scheme \<times> u32 \<Rightarrow> 'a spi_lcd_scheme \<times> u32" where
  "lcd_clocked bs bus = foldl (\<lambda>bus (env, b). snd (xfer_byte spidevicedpi_readByte (spi_lcd_writeByte env) 0 0 b bus)) bus bs"

lemma lcd_clocked_writes:
  assumes "inBits d = 0" "unat (outBits d) \<le> 7"
  shows "spidevicedpi_reset (fst (lcd_clocked bs (d, q))) = spidevicedpi_reset (lcd_writes bs d)"
  using assms
proof (induction bs arbitrary: d q)
  case (Cons x bs)
  obtain env b where x: "x = (env, b)" by fastforce
  have rel: "bus_rel spidevicedpi_readByte 0 (d, q) (spidevicedpi_reset d, None)" using Cons.prems by (simp add: lcd_quiet)
  obtain y d' q' where 1: "xfer_byte spidevicedpi_readByte (spi_lcd_writeByte env) 0 0 b (d, q) = (y, d', q')"
     "bus_rel spidevicedpi_readByte 0 (d', q') (byte_step spidevicedpi_readByte (spi_lcd_writeByte env) 0 b (spidevicedpi_reset d))"
    using lcd_target.xfer_byte_refines [OF rel] by fastforce
  have "byte_step spidevicedpi_readByte (spi_lcd_writeByte env) 0 b (spidevicedpi_reset d) =
      (spidevicedpi_reset (spi_lcd_writeByte env b 0 d), None)"
    by (simp add: byte_step_def dev_write_def lcd_writeByte_core lcd_quiet)
  with 1(2) have 2: "spidevicedpi_reset d' = spidevicedpi_reset (spi_lcd_writeByte env b 0 d)" "inBits d' = 0" "unat (outBits d') \<le> 7"
    by simp_all
  have core: "spidevicedpi_reset (lcd_writes bs e) = spidevicedpi_reset (lcd_writes bs e')"
    if "spidevicedpi_reset e = spidevicedpi_reset e'" for e e' :: "'a spi_lcd_scheme"
    using that
  proof (induction bs arbitrary: e e')
    case (Cons y bs)
    show ?case using Cons.IH Cons.prems by (metis lcd_writeByte_core lcd_writes_simps(2))
  qed simp
  have "lcd_clocked (x # bs) (d, q) = lcd_clocked bs (d', q')" by (simp add: lcd_clocked_def x 1(1))
  with Cons.IH [OF 2(2,3), of q'] core [OF 2(1)] show ?case by (simp add: x)
qed (simp add: lcd_clocked_def)

section \<open>What the image shows\<close>

lemma image_cols_eq: "image_cols fb n xd p = concat (map (\<lambda>j. lcd_rgb (fb ! nat (p + int j * xd))) [0..<n])"
proof (induction n arbitrary: p)
  case (Suc n)
  have "p + (int j * xd + xd) = p + xd + int j * xd" for j by simp
  then show ?case by (simp add: Suc upt_conv_Cons map_Suc_upt [symmetric] comp_def algebra_simps del: upt_Suc)
qed simp

lemma image_rows_eq:
  "image_rows fb t w n y = concat (map (\<lambda>i. image_cols fb w (if t then 128 else - 1)
     (if t then y - int i else 128 * (y - int i) + int w - 1)) [0..<n])"
proof (induction n arbitrary: y)
  case (Suc n)
  then show ?case by (simp add: Let_def upt_conv_Cons map_Suc_upt [symmetric] comp_def algebra_simps del: upt_Suc)
qed simp

text \<open>With the columns mirrored and the rows mirrored exactly when they are not exchanged with the columns, the file shows
  the picture the way the controller wrote it.\<close>

lemma lcd_image_pixel:
  assumes "mad AND ST77_MADCTL_MX \<noteq> 0" "mad AND ST77_MADCTL_MY \<noteq> 0 \<longleftrightarrow> mad AND ST77_MADCTL_MV = 0"
    "w = (if mad AND ST77_MADCTL_MV = 0 then 128 else 160)" "h = (if mad AND ST77_MADCTL_MV = 0 then 160 else 128)"
    "i < h" "j < w"
  shows "lcd_pos mad (of_nat i) (of_nat j) =
    Some (nat ((if mad AND ST77_MADCTL_MV \<noteq> 0 then int h - 1 - int i else 128 * (int h - 1 - int i) + int w - 1) +
      int j * (if mad AND ST77_MADCTL_MV \<noteq> 0 then 128 else - 1)))"
proof -
  have "unat (of_nat i :: u16) = i" "unat (of_nat j :: u16) = j"
    using assms(3-6) by (simp_all add: unat_of_nat take_bit_nat_eq_self split: if_splits)
  then show ?thesis
    using assms by (cases "mad AND ST77_MADCTL_MV = 0") (auto simp: lcd_pos_eq Let_def lcd_flip_def)
qed

lemma lcd_cells_product: "lcd_cells x0 x1 y1 y0 x0 = (if y0 \<le> y1 then List.product [y0..<Suc y1] [x0..<Suc x1] else map (Pair y0) [x0..<Suc x1])"
  by (auto simp: lcd_cells_def product_concat_map upt_conv_Cons simp del: upt_Suc)

lemma lcd_done_core: "lcd_done mad fb (spidevicedpi_reset d) = lcd_done mad fb d"
  by (simp add: lcd_done_def spidevicedpi_reset_def)

section \<open>Properties\<close>

text \<open>A display just constructed.\<close>

definition demo_env :: lcd_env where
  "demo_env = \<lparr>time_now = 1, time_after = 1, fopen_ok = True\<rparr>"

definition demo_lcd :: spi_lcd where
  "demo_lcd = spi_lcd_new demo_env \<lparr>inBits = 0, inByte = 0, outBits = 0, outByte = 0, oobOut = 0, imgFilename = [], imgLatestTime = 0,
     imgFile = [], pixWriting = True, madCtl = 0, colAdr = 0, rowAdr = 0, xStart = 0, xEnd = 0, yStart = 0, yEnd = 0,
     lcd_cmdLen = 9, lcd_cmd = replicate 0x20 0, frameBuf = []\<rparr>"

lemma demo_lcd_done: "lcd_done 0 (replicate (160 * 128) 0) demo_lcd" "inBits demo_lcd = 0" "outBits demo_lcd = 0"
  by (simp_all add: demo_lcd_def lcd_done_def spi_lcd_new_def spi_lcd_reset_def outputImage_def spidevicedpi_reset_def demo_env_def)

text \<open>C24. Whatever bytes the display model receives after its construction, and whatever the clock and the file system do, the next byte is stored
  inside its command buffer, the frame buffer keeps its size, and every position a pixel can be written to lies inside the frame buffer.\<close>

theorem lcd_stays_in_bounds:
  assumes "length (lcd_cmd raw) = 0x20"
  shows "length (lcd_cmd (lcd_writes bs (spi_lcd_new env raw))) = 0x20 \<and> unat (lcd_cmdLen (lcd_writes bs (spi_lcd_new env raw))) < 0x20 \<and>
    length (frameBuf (lcd_writes bs (spi_lcd_new env raw))) = 160 * 128 \<and>
    (\<forall>mad r c k. lcd_pos mad r c = Some k \<longrightarrow> k < length (frameBuf (lcd_writes bs (spi_lcd_new env raw))))"
proof -
  have "lcd_ok (lcd_writes bs (spi_lcd_new env raw))"
    using assms by (intro lcd_writes_ok) (simp add: spi_lcd_new_def lcd_reset_ok)
  then show ?thesis using lcd_pos_bound by (auto simp: lcd_ok_def)
qed

theorem lcd_stays_in_bounds_witness:
  "length (frameBuf (lcd_writes [(demo_env, 0x2c), (demo_env, 0x12)] (spi_lcd_new demo_env demo_lcd))) = 160 * 128"
  using lcd_stays_in_bounds [of demo_lcd "[(demo_env, 0x2c), (demo_env, 0x12)]" demo_env] demo_lcd_done by (simp add: lcd_done_def)

text \<open>C23. Setting a window and writing its pixels, clocked in bit by bit, row by row, stores exactly these pixels: each at the position its row and column have under the current
  orientation, those outside the panel nowhere; every other pixel of the frame buffer is kept, and the display is ready for the next command.\<close>

theorem lcd_window_drawn:
  assumes "lcd_done mad fb d" "inBits d = 0" "outBits d = 0" "length fb = 160 * 128"
    "x0 \<le> x1" "x1 < 0xffff" "y0 \<le> y1" "y1 < 0xffff" "w = Suc x1 - x0" "h = Suc y1 - y0" "length ps = h * w"
    "map snd bs = lcd_window (of_nat x0) (of_nat x1) (of_nat y0) (of_nat y1) @ concat (map be_bytes ps)"
  shows "\<exists>fb'. lcd_done mad fb' (fst (lcd_clocked bs (d, q))) \<and>
    (\<forall>i<h. \<forall>j<w. \<forall>k. lcd_pos mad (of_nat (y0 + i)) (of_nat (x0 + j)) = Some k \<longrightarrow> fb' ! k = ps ! (i * w + j)) \<and>
    (\<forall>k. (\<forall>i<h. \<forall>j<w. lcd_pos mad (of_nat (y0 + i)) (of_nat (x0 + j)) \<noteq> Some k) \<longrightarrow> fb' ! k = fb ! k)"
proof -
  define cells where "cells = lcd_cells x0 x1 y1 y0 x0"
  define fb' where "fb' = lcd_paint mad cells ps fb"
  have cells: "cells = List.product [y0..<Suc y1] [x0..<Suc x1]" using assms(7) by (simp only: cells_def lcd_cells_product if_True)
  obtain b1 b2 where b: "bs = b1 @ b2" "map snd b1 = lcd_window (of_nat x0) (of_nat x1) (of_nat y0) (of_nat y1)" "map snd b2 = concat (map be_bytes ps)"
    using assms(12) by (auto simp: map_eq_append_conv)
  have "length ps = length cells" unfolding cells length_product length_upt using assms(9-11) by simp
  then have "lcd_done mad fb' (lcd_writes b2 (lcd_writes b1 d))"
    unfolding fb'_def cells_def by (rule lcd_fill [OF lcd_window_opens [OF assms(1) b(2)] assms(5,7,5,6,8) b(3)])
  moreover have "spidevicedpi_reset (fst (lcd_clocked bs (d, q))) = spidevicedpi_reset (lcd_writes b2 (lcd_writes b1 d))"
    using lcd_clocked_writes [of d bs q] assms(2,3) by (simp add: b(1))
  ultimately have "lcd_done mad fb' (fst (lcd_clocked bs (d, q)))"
    using lcd_done_core [of mad fb' "fst (lcd_clocked bs (d, q))"] lcd_done_core [of mad fb' "lcd_writes b2 (lcd_writes b1 d)"] by simp
  moreover have "fb' ! k = ps ! (i * w + j)"
    if "i < h" "j < w" "lcd_pos mad (of_nat (y0 + i)) (of_nat (x0 + j)) = Some k" for i j k
  proof -
    have n: "i * w + j < h * w" "w \<noteq> 0" using that(1,2) by (auto intro: less_le_trans [OF _ mult_le_mono1 [of "Suc i"]])
    then have "cells ! (i * w + j) = (y0 + i, x0 + j)"
      using that(1,2) assms(9,10) by (simp add: cells product_nth del: upt_Suc)
    with n show ?thesis
      unfolding fb'_def using assms(4-11) that(3)
      by (intro lcd_paint_cell) (auto simp: cells distinct_product simp del: upt_Suc)
  qed
  moreover have "fb' ! k = fb ! k" if "\<forall>i<h. \<forall>j<w. lcd_pos mad (of_nat (y0 + i)) (of_nat (x0 + j)) \<noteq> Some k" for k
    unfolding fb'_def
  proof (rule lcd_paint_other)
    fix r c assume "(r, c) \<in> set cells"
    then have "r = y0 + (r - y0)" "r - y0 < h" "c = x0 + (c - x0)" "c - x0 < w"
      using assms(9,10) by (auto simp: cells simp del: upt_Suc)
    with that show "lcd_pos mad (of_nat r) (of_nat c) \<noteq> Some k" by metis
  qed
  ultimately show ?thesis by blast
qed

theorem lcd_window_drawn_witness:
  "\<exists>fb'. lcd_done 0 fb' (fst (lcd_clocked (map (Pair demo_env) (lcd_window 1 1 2 2 @ be_bytes 0xf800)) (demo_lcd, 0))) \<and> fb' ! 257 = 0xf800 \<and> fb' ! 0 = 0"
proof -
  have pos: "lcd_pos 0 2 1 = Some 257" by (simp add: lcd_pos_eq lcd_flip_def Let_def)
  have "\<exists>fb'. lcd_done 0 fb' (fst (lcd_clocked (map (Pair demo_env) (lcd_window 1 1 2 2 @ be_bytes 0xf800)) (demo_lcd, 0))) \<and>
    (\<forall>i<1. \<forall>j<1. \<forall>k. lcd_pos 0 (of_nat (2 + i)) (of_nat (1 + j)) = Some k \<longrightarrow> fb' ! k = [0xf800] ! (i * 1 + j)) \<and>
    (\<forall>k. (\<forall>i<1. \<forall>j<1. lcd_pos 0 (of_nat (2 + i)) (of_nat (1 + j)) \<noteq> Some k) \<longrightarrow> fb' ! k = replicate (160 * 128) 0 ! k)"
    by (rule lcd_window_drawn [OF demo_lcd_done, where ?x1.0 = 1 and ?y1.0 = 2]) (simp_all add: comp_def)
  then show ?thesis by (simp add: pos) (metis nth_replicate zero_less_numeral zero_neq_numeral)
qed

text \<open>When the columns are mirrored, and the rows exactly if they are not exchanged with the columns, the image file is the picture as the controller
  addresses it: a PPM header with its width and height, then for each row and each column of the controller the colour stored at that position.\<close>

theorem lcd_image_upright:
  assumes "mad AND ST77_MADCTL_MX \<noteq> 0" "mad AND ST77_MADCTL_MY \<noteq> 0 \<longleftrightarrow> mad AND ST77_MADCTL_MV = 0"
    "w = (if mad AND ST77_MADCTL_MV = 0 then 128 else 160)" "h = (if mad AND ST77_MADCTL_MV = 0 then 160 else 128)"
  shows "lcd_image mad fb = ppm_header w h @
    concat (map (\<lambda>i. concat (map (\<lambda>j. lcd_rgb (fb ! the (lcd_pos mad (of_nat i) (of_nat j)))) [0..<w])) [0..<h])"
proof -
  have wh: "w = (if mad AND ST77_MADCTL_MV \<noteq> 0 then unat kHeight else unat kWidth)"
      "h = (if mad AND ST77_MADCTL_MV \<noteq> 0 then unat kWidth else unat kHeight)"
    using assms(3,4) by (auto simp: kWidth_def kHeight_def)
  show ?thesis
    unfolding lcd_image_def Let_def wh [symmetric] image_rows_eq image_cols_eq
    by (intro arg_cong2 [where f = "(@)"] refl arg_cong [where f = concat] map_cong)
      (simp add: lcd_image_pixel [OF assms])
qed

theorem lcd_image_upright_witness:
  "take 14 (lcd_image 0x60 (replicate 20480 0)) = [0x50, 0x36, 0x20, 0x31, 0x36, 0x30, 0x20, 0x31, 0x32, 0x38, 0x20, 0x36, 0x33, 0x0a]"
proof -
  have "lcd_image 0x60 (replicate 20480 0) = ppm_header 160 128 @
    concat (map (\<lambda>i. concat (map (\<lambda>j. lcd_rgb (replicate 20480 0 ! the (lcd_pos 0x60 (of_nat i) (of_nat j)))) [0..<160])) [0..<128])"
    by (rule lcd_image_upright) (simp_all add: ST77_MADCTL_MX_def ST77_MADCTL_MY_def ST77_MADCTL_MV_def)
  then show ?thesis by (simp add: ppm_header_def decimal.simps)
qed

end
