(* ===== verification/Flash_Driver.thy ===== *)
theory Flash_Driver
  imports Spi_Controller Spi_Flash "HOL-Library.Monad_Syntax"
begin

unbundle bit_operations_syntax

text \<open>
  The driver of the SPI flash, class \<open>SpiFlash\<close> in \<open>sw/cheri/common/flash-utils.hh\<close>, over an arbitrary SPI
  controller. The driver's state is the machine state behind its controller. The wait of
  \<open>wait_mcycle\<close> after a reset only lets time pass and is left out.
\<close>

definition CmdSectorErase4Addr :: u8 where "CmdSectorErase4Addr = 0x21"
definition CmdPageProgram4Addr :: u8 where "CmdPageProgram4Addr = 0x12"
definition CmdReadData4Addr :: u8 where "CmdReadData4Addr = 0x13"
definition drv_CmdEnableReset :: u8 where "drv_CmdEnableReset = 0x66"
definition drv_CmdReset :: u8 where "drv_CmdReset = 0x99"
definition drv_CmdReadJEDECId :: u8 where "drv_CmdReadJEDECId = 0x9f"
definition drv_CmdWriteEnable :: u8 where "drv_CmdWriteEnable = 0x06"
definition drv_CmdReadStatusRegister1 :: u8 where "drv_CmdReadStatusRegister1 = 0x05"

lemmas flash_drv_cmds = CmdSectorErase4Addr_def CmdPageProgram4Addr_def CmdReadData4Addr_def drv_CmdEnableReset_def
  drv_CmdReset_def drv_CmdReadJEDECId_def drv_CmdWriteEnable_def drv_CmdReadStatusRegister1_def

definition flash_set_cs :: "'s spi_ops \<Rightarrow> bool \<Rightarrow> 's \<Rightarrow> 's" where
  "flash_set_cs ops enable s =
    set_chipSelects ops (if enable then get_chipSelects ops s AND NOT 1 else get_chipSelects ops s OR 1) s"

text \<open>The bytes of a command with a four-byte address.\<close>

definition address_cmd :: "u8 \<Rightarrow> u32 \<Rightarrow> u8 list" where
  "address_cmd c address = [c, ucast (drop_bit 24 address AND 0xff), ucast (drop_bit 16 address AND 0xff),
     ucast (drop_bit 8 address AND 0xff), ucast (address AND 0xff)]"

text \<open>A command of its own: select, write, wait, deselect.\<close>

definition flash_command :: "'s spi_ops \<Rightarrow> u8 list \<Rightarrow> 's \<Rightarrow> 's" where
  "flash_command ops bs s = flash_set_cs ops False (wait_idle ops (blocking_write ops bs (flash_set_cs ops True s)))"

definition flash_reset :: "'s spi_ops \<Rightarrow> 's \<Rightarrow> 's" where
  "flash_reset ops s = flash_command ops [drv_CmdReset] (flash_command ops [drv_CmdEnableReset] s)"

definition read_jedec_id :: "'s spi_ops \<Rightarrow> 's \<Rightarrow> u8 list \<times> 's" where
  "read_jedec_id ops s =
    (let s = flash_set_cs ops True s;
         s = blocking_write ops [drv_CmdReadJEDECId] s;
         (jedec_id_out, s) = blocking_read ops 3 s
     in (jedec_id_out, flash_set_cs ops False s))"

text \<open>\<open>do { spi->blocking_read(&status, 1); } while ((status & 0x1) == 1)\<close>\<close>

partial_function (option) status_loop :: "'s spi_ops \<Rightarrow> 's \<Rightarrow> 's option" where
  "status_loop ops s =
    (case blocking_read ops 1 s of (status, s') \<Rightarrow> if hd status AND 1 = 1 then status_loop ops s' else Some s')"

definition wait_ready :: "'s spi_ops \<Rightarrow> 's \<Rightarrow> 's option" where
  "wait_ready ops s = do {
     s \<leftarrow> status_loop ops (blocking_write ops [drv_CmdReadStatusRegister1] (flash_set_cs ops True s));
     Some (flash_set_cs ops False s) }"

definition erase_sector :: "'s spi_ops \<Rightarrow> u32 \<Rightarrow> 's \<Rightarrow> 's option" where
  "erase_sector ops address s =
    (let s = flash_command ops [drv_CmdWriteEnable] s;
         s = flash_command ops (address_cmd CmdSectorErase4Addr address) s
     in wait_ready ops s)"

definition flash_write_page :: "'s spi_ops \<Rightarrow> u32 \<Rightarrow> u8 list \<Rightarrow> 's \<Rightarrow> 's option" where
  "flash_write_page ops address data s =
    (let s = flash_command ops [drv_CmdWriteEnable] s;
         s = flash_set_cs ops True s;
         s = blocking_write ops (address_cmd CmdPageProgram4Addr address) s;
         s = blocking_write ops (take 256 data) s;
         s = flash_set_cs ops False (wait_idle ops s)
     in wait_ready ops s)"

definition flash_read :: "'s spi_ops \<Rightarrow> u32 \<Rightarrow> u32 \<Rightarrow> 's \<Rightarrow> u8 list \<times> 's" where
  "flash_read ops address len s =
    (let s = flash_set_cs ops True s;
         s = blocking_write ops (address_cmd CmdReadData4Addr address) s;
         (data_out, s) = blocking_read ops (unat len) s
     in (data_out, flash_set_cs ops False s))"

end
