(* ===== verification/Flash_System.thy ===== *)
theory Flash_System
  imports Flash_Driver
begin

unbundle bit_operations_syntax

text \<open>
  The flash driver, an SPI controller and the simulated flash together. At the level of whole bytes the flash is a machine that takes a
  byte and has the answer to the next one ready (\<open>fl_step\<close>); the bit level implements it (\<open>flash_silent.xfer_byte_silent\<close>).
  The locale \<open>flash_slot\<close> is a controller that fulfils its contract with the flash on chip select 0; in it each
  operation of the driver is shown to implement an operation on an array of bytes.
\<close>

section \<open>The flash at the level of bytes\<close>

type_synonym fl_bus = "spi_flash \<times> u32"

definition flash_xf :: "u32 \<Rightarrow> u8 \<Rightarrow> fl_bus \<Rightarrow> u8 \<times> fl_bus" where
  "flash_xf sel x bs = xfer_byte spi_flash_readByte spi_flash_writeByte sel 0 x bs"

definition flash_csf :: "u32 \<Rightarrow> u32 \<Rightarrow> fl_bus \<Rightarrow> fl_bus" where
  "flash_csf old new bs =
    (if bit old 0 = bit new 0 then bs else case bs of (d, q) \<Rightarrow> (csEdge spi_flash_csChanged new 0 d, q))"

definition fl_step :: "u8 \<Rightarrow> spi_flash \<Rightarrow> spi_flash \<times> u8" where
  "fl_step b c = silent_step spi_flash_readByte spi_flash_writeByte 0 b c"

text \<open>Bytes exchanged with the flash, whose next answer is known: the answers, and the flash with its next answer.\<close>

fun fl_steps :: "u8 list \<Rightarrow> spi_flash \<times> u8 \<Rightarrow> u8 list \<times> spi_flash \<times> u8" where
  "fl_steps [] p = ([], p)"
| "fl_steps (b # bs) p = (case fl_steps bs (fl_step b (fst p)) of (ys, p') \<Rightarrow> (snd p # ys, p'))"

lemma fl_steps_append: "fl_steps (xs @ ys) p =
    (case fl_steps xs p of (us, p') \<Rightarrow> (case fl_steps ys p' of (vs, p'') \<Rightarrow> (us @ vs, p'')))"
  by (induction xs arbitrary: p) (auto split: prod.splits)

abbreviation fl_rel :: "fl_bus \<Rightarrow> spi_flash \<times> u8 option \<Rightarrow> bool" where
  "fl_rel \<equiv> silent_rel spi_flash_readByte 0"

lemma flash_xf_selected: "\<not> bit sel 0 \<Longrightarrow> flash_xf sel x bs = xfer_byte spi_flash_readByte spi_flash_writeByte 0 0 x bs"
  by (simp add: flash_xf_def xfer_byte_def sck_cycles_cs [of _ _ sel] and_one_eq mod_2_eq_odd bit_0)

lemma flash_xf_step:
  assumes "\<not> bit sel 0" "fl_rel bs (c, out)"
  shows "\<exists>x bs'. flash_xf sel b bs = (x, bs') \<and> fl_rel bs' (fst (fl_step b c), Some (snd (fl_step b c))) \<and> (\<forall>p. out = Some p \<longrightarrow> x = p)"
  using flash_silent.xfer_byte_silent [of 0 "fst bs" "snd bs" c out b] assms
  by (fastforce simp: flash_xf_selected fl_step_def)

lemma xfers_fl:
  assumes "\<not> bit sel 0" "fl_rel bs (fst p, Some (snd p))"
  shows "\<exists>bs'. xfers (flash_xf sel) xs bs = (fst (fl_steps xs p), bs') \<and>
    fl_rel bs' (fst (snd (fl_steps xs p)), Some (snd (snd (fl_steps xs p))))"
  using assms(2)
proof (induction xs arbitrary: bs p)
  case (Cons x xs)
  from flash_xf_step [OF assms(1) Cons.prems, of x] obtain bs1 where
    1: "flash_xf sel x bs = (snd p, bs1)" "fl_rel bs1 (fst (fl_step x (fst p)), Some (snd (fl_step x (fst p))))" by auto
  from Cons.IH [OF 1(2)] obtain bs2 where "xfers (flash_xf sel) xs bs1 = (fst (fl_steps xs (fl_step x (fst p))), bs2)"
     "fl_rel bs2 (fst (snd (fl_steps xs (fl_step x (fst p)))), Some (snd (snd (fl_steps xs (fl_step x (fst p))))))" by auto
  with 1(1) show ?case by (auto simp: split_beta)
qed simp

section \<open>States and steps of the flash\<close>

text \<open>Between commands the command buffer is empty and there is no response left.\<close>

definition fl_clean :: "u32 \<Rightarrow> spi_flash \<Rightarrow> bool" where
  "fl_clean j c \<longleftrightarrow> spidevicedpi_reset c = c \<and> fl_cmdLen c = 0 \<and> length (fl_cmd c) = 8 \<and> length (fl_rsp c) = 16 \<and>
     \<not> fl_rspIdx c < fl_rspLen c \<and> jedec_id c = j"

definition fl_idle :: "(u32 \<Rightarrow> u8) \<Rightarrow> u32 \<Rightarrow> spi_flash \<Rightarrow> bool" where
  "fl_idle m j c \<longleftrightarrow> fl_clean j c \<and> \<not> bProgramming c \<and> \<not> bReading c \<and> \<not> bErasing c \<and> fl_mem c = m"

definition fl_prog :: "u32 \<Rightarrow> (u32 \<Rightarrow> u8) \<Rightarrow> u32 \<Rightarrow> spi_flash \<Rightarrow> bool" where
  "fl_prog off m j c \<longleftrightarrow> fl_clean j c \<and> bProgramming c \<and> \<not> bReading c \<and> \<not> bErasing c \<and> fl_mem c = m \<and> memOffset c = off"

definition fl_erasing :: "u32 \<Rightarrow> (u32 \<Rightarrow> u8) \<Rightarrow> u32 \<Rightarrow> spi_flash \<Rightarrow> bool" where
  "fl_erasing off m j c \<longleftrightarrow> fl_clean j c \<and> \<not> bProgramming c \<and> \<not> bReading c \<and> bErasing c \<and> fl_mem c = m \<and> memOffset c = off"

definition fl_reading :: "u32 \<Rightarrow> (u32 \<Rightarrow> u8) \<Rightarrow> u32 \<Rightarrow> spi_flash \<Rightarrow> bool" where
  "fl_reading off m j c \<longleftrightarrow> fl_clean j c \<and> \<not> bProgramming c \<and> bReading c \<and> \<not> bErasing c \<and> fl_mem c = m \<and> memOffset c = off"

lemmas fl_defs = fl_clean_def fl_idle_def fl_prog_def fl_erasing_def fl_reading_def

lemma flash_core_upd:
  "spidevicedpi_reset (c\<lparr>fl_cmd := xs\<rparr>) = (spidevicedpi_reset c)\<lparr>fl_cmd := xs\<rparr>"
  "spidevicedpi_reset (c\<lparr>fl_cmdLen := n\<rparr>) = (spidevicedpi_reset c)\<lparr>fl_cmdLen := n\<rparr>"
  "spidevicedpi_reset (c\<lparr>fl_rsp := xs\<rparr>) = (spidevicedpi_reset c)\<lparr>fl_rsp := xs\<rparr>"
  "spidevicedpi_reset (c\<lparr>fl_rspLen := n\<rparr>) = (spidevicedpi_reset c)\<lparr>fl_rspLen := n\<rparr>"
  "spidevicedpi_reset (c\<lparr>fl_rspIdx := n\<rparr>) = (spidevicedpi_reset c)\<lparr>fl_rspIdx := n\<rparr>"
  "spidevicedpi_reset (c\<lparr>memOffset := off\<rparr>) = (spidevicedpi_reset c)\<lparr>memOffset := off\<rparr>"
  "spidevicedpi_reset (c\<lparr>fl_mem := m\<rparr>) = (spidevicedpi_reset c)\<lparr>fl_mem := m\<rparr>"
  "spidevicedpi_reset (c\<lparr>bReading := p\<rparr>) = (spidevicedpi_reset c)\<lparr>bReading := p\<rparr>"
  "spidevicedpi_reset (c\<lparr>bProgramming := p\<rparr>) = (spidevicedpi_reset c)\<lparr>bProgramming := p\<rparr>"
  "spidevicedpi_reset (c\<lparr>bErasing := p\<rparr>) = (spidevicedpi_reset c)\<lparr>bErasing := p\<rparr>"
  by (simp_all add: spidevicedpi_reset_def)

text \<open>The answer a flash has ready.\<close>

definition fl_next :: "spi_flash \<Rightarrow> spi_flash \<times> u8" where
  "fl_next c = (if bReading c then (c\<lparr>memOffset := memOffset c + 1\<rparr>, if memOffset c < kFlashBytes then fl_mem c (memOffset c) else 0xff)
     else if fl_rspIdx c < fl_rspLen c then (c\<lparr>fl_rspIdx := fl_rspIdx c + 1\<rparr>, fl_rsp c ! unat (fl_rspIdx c))
     else (c, 0))"

lemma fl_step_eq: "fl_step b c = fl_next (spidevicedpi_reset (spi_flash_writeByte b 0 c))"
  by (simp add: fl_step_def silent_step_def byte_step_def dev_write_def dev_read_def spi_flash_readByte_def fl_next_def
    flash_core_upd Let_def)

lemma fl_write_cmd:
  "\<not> bProgramming c \<Longrightarrow> e = c\<lparr>fl_cmd := (fl_cmd c)[unat (fl_cmdLen c) := b], fl_cmdLen := fl_cmdLen c + 1\<rparr> \<Longrightarrow>
   flash_switch (fl_cmd e ! 0) e = (complete, d) \<Longrightarrow>
   spi_flash_writeByte b oob c = (if complete then d\<lparr>fl_cmdLen := 0\<rparr> else d)"
  by (simp add: spi_flash_writeByte_def Let_def)

text \<open>Commands of a single byte that change nothing, and bytes that are no command.\<close>

definition fl_neutral :: "u8 \<Rightarrow> bool" where
  "fl_neutral b \<longleftrightarrow> b \<notin> {CmdReset, CmdReadJEDECId, CmdSectorErase, CmdSectorErase4, CmdPageProgram, CmdPageProgram4, CmdReadData, CmdReadData4}"

lemma fl_neutral_cmds [simp]:
  "fl_neutral 0" "fl_neutral 0xff" "fl_neutral drv_CmdWriteEnable" "fl_neutral drv_CmdReadStatusRegister1" "fl_neutral drv_CmdEnableReset"
  by (simp_all add: fl_neutral_def flash_cmds flash_drv_cmds)

lemma fl_write_neutral:
  assumes "fl_clean j c" "\<not> bProgramming c" "fl_neutral b"
  shows "spi_flash_writeByte b oob c = c\<lparr>fl_cmd := (fl_cmd c)[0 := b]\<rparr>"
proof -
  define e where "e = c\<lparr>fl_cmd := (fl_cmd c)[unat (fl_cmdLen c) := b], fl_cmdLen := fl_cmdLen c + 1\<rparr>"
  have "fl_cmd e ! 0 = b" using assms(1) by (simp add: e_def fl_clean_def)
  moreover have "flash_switch b e = (True, e)" using assms(3) by (simp add: flash_switch_def fl_neutral_def)
  ultimately show ?thesis
    using fl_write_cmd [OF assms(2) e_def, of True e oob] assms(1) by (simp add: e_def fl_clean_def)
qed

lemma fl_step_neutral:
  assumes "fl_idle m j c" "fl_neutral b"
  shows "fl_idle m j (fst (fl_step b c)) \<and> snd (fl_step b c) = 0"
  using assms fl_write_neutral [of j c b 0] by (simp add: fl_step_eq fl_next_def fl_defs flash_core_upd)

lemma fl_step_reading:
  assumes "fl_reading off m j c" "fl_neutral b"
  shows "fl_reading (off + 1) m j (fst (fl_step b c)) \<and> snd (fl_step b c) = (if off < kFlashBytes then m off else 0xff)"
  using assms fl_write_neutral [of j c b 0] by (simp add: fl_step_eq fl_next_def fl_defs flash_core_upd)

lemma fl_step_prog:
  assumes "fl_prog off m j c"
  shows "fl_prog (off + 1) (if off < kFlashBytes then m(off := b) else m) j (fst (fl_step b c)) \<and> snd (fl_step b c) = 0"
  using assms by (simp add: fl_step_eq fl_next_def fl_defs flash_core_upd spi_flash_writeByte_def Let_def)

text \<open>A command with a four-byte address.\<close>

lemma ucast_and_ff [simp]: "ucast (a AND 0xff :: u32) = (ucast a :: u8)"
proof -
  have m: "(0xff :: u32) = mask 8" by (simp add: mask_eq_exp_minus_1)
  show ?thesis unfolding m by (intro bit_word_eqI) (simp add: bit_simps)
qed

lemma address_bytes_join:
  "push_bit 24 (ucast (ucast (drop_bit 24 a) :: u8)) OR push_bit 16 (ucast (ucast (drop_bit 16 a) :: u8)) OR
   push_bit 8 (ucast (ucast (drop_bit 8 a) :: u8)) OR ucast (ucast a :: u8) = (a :: u32)" (is "?l = a")
proof (rule bit_word_eqI)
  fix n :: nat
  assume "n < LENGTH(32)"
  then consider "n < 8" | "8 \<le> n" "n < 16" | "16 \<le> n" "n < 24" | "24 \<le> n" "n < 32" by force
  then show "bit ?l n = bit a n" by cases (auto simp: bit_simps)
qed

lemma getAddress32_cmd:
  "length xs = 8 \<Longrightarrow> getAddress32 (xs[0 := c, 1 := ucast (drop_bit 24 a), 2 := ucast (drop_bit 16 a), 3 := ucast (drop_bit 8 a), 4 := ucast a]) 1 = a"
  using address_bytes_join [of a] by (simp add: getAddress32_def nth_list_update)

lemma fl_address_cmd:
  assumes "fl_idle m j c" and sw: "\<And>e :: spi_flash. flash_switch C e = flash_addr_cmd 5 (\<lambda>cmd. getAddress32 cmd 1) act e"
  shows "\<exists>xs. length xs = 8 \<and> snd (fl_steps (address_cmd C a) (c, y)) =
    fl_next (spidevicedpi_reset ((act (c\<lparr>fl_cmd := xs, fl_cmdLen := 5, memOffset := a\<rparr>))\<lparr>fl_cmdLen := 0\<rparr>))"
proof -
  have c: "\<not> bProgramming c" "\<not> bReading c" "fl_cmdLen c = 0" "length (fl_cmd c) = 8" "\<not> fl_rspIdx c < fl_rspLen c" "spidevicedpi_reset c = c"
    using assms(1) by (simp_all add: fl_defs)
  have C: "fl_cmdLen e < 5 \<Longrightarrow> flash_switch C e = (False, e)"
      "\<not> fl_cmdLen e < 5 \<Longrightarrow> flash_switch C e = (True, act (e\<lparr>memOffset := getAddress32 (fl_cmd e) 1\<rparr>))" for e :: spi_flash
    by (simp_all add: sw flash_addr_cmd_def not_less)
  have st: "fl_step b (c\<lparr>fl_cmd := xs, fl_cmdLen := n\<rparr>) = (c\<lparr>fl_cmd := xs[unat n := b], fl_cmdLen := n + 1\<rparr>, 0)"
    if "xs[unat n := b] ! 0 = C" "n < 4" for b n xs
  proof -
    have "n + 1 < 5" using that(2) by (simp add: word_less_nat_alt unat_word_ariths)
    then have "spi_flash_writeByte b 0 (c\<lparr>fl_cmd := xs, fl_cmdLen := n\<rparr>) = c\<lparr>fl_cmd := xs[unat n := b], fl_cmdLen := n + 1\<rparr>"
      using fl_write_cmd [OF _ refl, of "c\<lparr>fl_cmd := xs, fl_cmdLen := n\<rparr>" b False] that(1) c by (simp add: C)
    with c show ?thesis by (simp add: fl_step_eq fl_next_def flash_core_upd)
  qed
  have st0: "fl_step C c = (c\<lparr>fl_cmd := (fl_cmd c)[0 := C], fl_cmdLen := 1\<rparr>, 0)"
  proof -
    have "c\<lparr>fl_cmd := fl_cmd c, fl_cmdLen := 0\<rparr> = c" using c(3) by simp
    with st [of "fl_cmd c" 0 C] c(4) show ?thesis by simp
  qed
  have fin: "fl_step b (c\<lparr>fl_cmd := xs, fl_cmdLen := 4\<rparr>) =
      fl_next (spidevicedpi_reset ((act (c\<lparr>fl_cmd := xs[4 := b], fl_cmdLen := 5, memOffset := getAddress32 (xs[4 := b]) 1\<rparr>))\<lparr>fl_cmdLen := 0\<rparr>))"
    if "xs ! 0 = C" for b xs
    using fl_write_cmd [OF _ refl, of "c\<lparr>fl_cmd := xs, fl_cmdLen := 4\<rparr>" b True] that c by (simp add: fl_step_eq C)
  define xs where "xs = (fl_cmd c)[0 := C, 1 := ucast (drop_bit 24 a), 2 := ucast (drop_bit 16 a), 3 := ucast (drop_bit 8 a), 4 := ucast a]"
  have g: "getAddress32 xs 1 = a" unfolding xs_def by (rule getAddress32_cmd [OF c(4)])
  have "snd (fl_steps (address_cmd C a) (c, y)) =
      fl_next (spidevicedpi_reset ((act (c\<lparr>fl_cmd := xs, fl_cmdLen := 5, memOffset := getAddress32 xs 1\<rparr>))\<lparr>fl_cmdLen := 0\<rparr>))"
    unfolding address_cmd_def xs_def using c(4)
    by (simp add: split_beta st0 st fin)
  with g c(4) show ?thesis by (intro exI [of _ xs]) (simp add: xs_def)
qed

definition flash_byte :: "(u32 \<Rightarrow> u8) \<Rightarrow> u32 \<Rightarrow> u8" where
  "flash_byte m a = (if a < kFlashBytes then m a else 0xff)"

definition flash_bytes :: "(u32 \<Rightarrow> u8) \<Rightarrow> u32 \<Rightarrow> nat \<Rightarrow> u8 list" where
  "flash_bytes m a n = map (\<lambda>i. flash_byte m (a + of_nat i)) [0..<n]"

fun flash_store :: "u32 \<Rightarrow> u8 list \<Rightarrow> (u32 \<Rightarrow> u8) \<Rightarrow> u32 \<Rightarrow> u8" where
  "flash_store a [] m = m"
| "flash_store a (b # bs) m = flash_store (a + 1) bs (if a < kFlashBytes then m(a := b) else m)"

definition flash_erase :: "u32 \<Rightarrow> (u32 \<Rightarrow> u8) \<Rightarrow> u32 \<Rightarrow> u8" where
  "flash_erase a m = (\<lambda>p. if p < kFlashBytes \<and> drop_bit 12 p = drop_bit 12 a then 0xff else m p)"

lemma fl_read_cmd:
  assumes "fl_idle m j c"
  shows "fl_reading (a + 1) m j (fst (snd (fl_steps (address_cmd CmdReadData4Addr a) (c, y)))) \<and>
    snd (snd (fl_steps (address_cmd CmdReadData4Addr a) (c, y))) = flash_byte m a"
proof -
  have "flash_switch CmdReadData4Addr e = flash_addr_cmd 5 (\<lambda>cmd. getAddress32 cmd 1) (\<lambda>d. d\<lparr>bReading := True\<rparr>) e" for e :: spi_flash
    by (simp add: flash_switch_def flash_cmds flash_drv_cmds)
  from fl_address_cmd [OF assms this, of a y] assms show ?thesis
    by (auto simp: fl_next_def fl_defs flash_core_upd flash_byte_def)
qed

lemma fl_prog_cmd:
  assumes "fl_idle m j c"
  shows "fl_prog a m j (fst (snd (fl_steps (address_cmd CmdPageProgram4Addr a) (c, y))))"
proof -
  have "flash_switch CmdPageProgram4Addr e = flash_addr_cmd 5 (\<lambda>cmd. getAddress32 cmd 1) (\<lambda>d. d\<lparr>bProgramming := True\<rparr>) e" for e :: spi_flash
    by (simp add: flash_switch_def flash_cmds flash_drv_cmds)
  from fl_address_cmd [OF assms this, of a y] assms show ?thesis
    by (auto simp: fl_next_def fl_defs flash_core_upd)
qed

lemma fl_erase_cmd:
  assumes "fl_idle m j c"
  shows "fl_erasing a m j (fst (snd (fl_steps (address_cmd CmdSectorErase4Addr a) (c, y))))"
proof -
  have "flash_switch CmdSectorErase4Addr e = flash_addr_cmd 5 (\<lambda>cmd. getAddress32 cmd 1) (\<lambda>d. d\<lparr>bErasing := True\<rparr>) e" for e :: spi_flash
    by (simp add: flash_switch_def flash_cmds flash_drv_cmds)
  from fl_address_cmd [OF assms this, of a y] assms show ?thesis
    by (auto simp: fl_next_def fl_defs flash_core_upd)
qed

lemma fl_prog_steps:
  "fl_prog a m j c \<Longrightarrow> \<exists>off. fl_prog off (flash_store a bs m) j (fst (snd (fl_steps bs (c, y))))"
proof (induction bs arbitrary: a m c y)
  case (Cons b bs)
  from Cons.IH [OF fl_step_prog [OF Cons.prems, of b, THEN conjunct1], of "snd (fl_step b c)"] show ?case
    by (simp add: split_beta)
qed auto

lemma fl_reading_steps:
  assumes "fl_reading (a + 1) m j c" "y = flash_byte m a" "fl_neutral v"
  shows "fst (fl_steps (replicate n v) (c, y)) = flash_bytes m a n \<and>
    fl_reading (a + of_nat n + 1) m j (fst (snd (fl_steps (replicate n v) (c, y))))"
  using assms(1,2)
proof (induction n arbitrary: a c y)
  case (Suc n)
  have "fl_reading (a + 1 + 1) m j (fst (fl_step v c))" "snd (fl_step v c) = flash_byte m (a + 1)"
    using fl_step_reading [OF Suc.prems(1) assms(3)] by (simp_all add: flash_byte_def)
  from Suc.IH [OF this] have IH: "fst (fl_steps (replicate n v) (fl_step v c)) = flash_bytes m (a + 1) n"
     "fl_reading (a + 1 + of_nat n + 1) m j (fst (snd (fl_steps (replicate n v) (fl_step v c))))"
    by simp_all
  have "flash_bytes m a (Suc n) = flash_byte m a # flash_bytes m (a + 1) n"
    by (simp add: flash_bytes_def upt_conv_Cons map_Suc_upt [symmetric] comp_def add.assoc del: upt_Suc)
  moreover have "a + of_nat (Suc n) + 1 = a + 1 + of_nat n + (1 :: u32)" by (simp add: add.commute add.left_commute)
  ultimately show ?case using IH Suc.prems(2) by (simp add: split_beta del: of_nat_Suc)
qed (simp add: flash_bytes_def)

lemma fl_idle_steps:
  "fl_idle m j c \<Longrightarrow> fl_neutral v \<Longrightarrow> fl_idle m j (fst (snd (fl_steps (replicate n v) (c, 0)))) \<and>
     snd (snd (fl_steps (replicate n v) (c, 0))) = 0 \<and> fst (fl_steps (replicate n v) (c, 0)) = replicate n 0"
proof (induction n arbitrary: c)
  case (Suc n)
  then show ?case using fl_step_neutral [OF Suc.prems] by (cases "fl_step v c") (simp add: split_beta)
qed simp

section \<open>Chip select\<close>

definition fl_parked :: "fl_bus \<Rightarrow> spi_flash \<Rightarrow> bool" where
  "fl_parked b c \<longleftrightarrow> (case b of (d, q) \<Rightarrow> spidevicedpi_reset d = c \<and> inBits d = 0 \<and> unat (outBits d) \<le> 7 \<and> \<not> bit (outByte d) 0)"

lemma fl_select:
  assumes "fl_parked b c" "fl_idle m j c" "\<not> bit new 0"
  shows "fl_rel (flash_csf old new b) (c, None)"
proof -
  have "dev_read spi_flash_readByte 0 c = (c, None)"
    using assms(2) by (simp add: dev_read_def spi_flash_readByte_def Let_def fl_defs)
  moreover have "new AND 1 = 0" using assms(3) by (simp add: and_one_eq mod_2_eq_odd bit_0)
  then have "flash_csf old new b = b" by (simp add: flash_csf_def csEdge_def spi_flash_csChanged_def split_beta)
  ultimately show ?thesis using assms(1) by (auto simp: fl_parked_def)
qed

lemma fl_csChanged_core: "spidevicedpi_reset (spi_flash_csChanged a oob d) = spi_flash_csChanged a oob (spidevicedpi_reset d)"
  by (simp add: spi_flash_csChanged_def eraseSector_def Let_def flash_core_upd cong: if_cong)

lemma fl_deselect:
  assumes "fl_rel b (c, out)" "\<not> bit old 0" "bit new 0"
  shows "fl_parked (flash_csf old new b) (spi_flash_csChanged False 0 c)"
proof -
  obtain d q where b: "b = (d, q)" by fastforce
  with assms(1) have d: "spidevicedpi_reset d = c" "inBits d = 0" "unat (outBits d) \<le> 7" "\<not> bit (outByte d) 0"
    by (cases out; auto)+
  have "new AND 1 \<noteq> 0" using assms(3) by (simp add: and_one_eq mod_2_eq_odd bit_0)
  then have "flash_csf old new b = (spi_flash_csChanged False 0 d, q)" using assms(2,3) by (simp add: flash_csf_def csEdge_def b)
  moreover have "inBits (spi_flash_csChanged False 0 d) = 0" "unat (outBits (spi_flash_csChanged False 0 d)) \<le> 7"
     "\<not> bit (outByte (spi_flash_csChanged False 0 d)) 0"
    using d(2-4) by (simp_all add: spi_flash_csChanged_def eraseSector_def Let_def)
  ultimately show ?thesis by (simp add: fl_parked_def fl_csChanged_core d(1))
qed

lemma fl_end_idle:
  "fl_idle m j c \<Longrightarrow> fl_idle m j (spi_flash_csChanged False 0 c)"
  "fl_prog off m j c \<Longrightarrow> fl_idle m j (spi_flash_csChanged False 0 c)"
  "fl_reading off m j c \<Longrightarrow> fl_idle m j (spi_flash_csChanged False 0 c)"
  by (simp_all add: spi_flash_csChanged_def fl_defs flash_core_upd)

text \<open>A sector is erased when the flash is deselected: the 4 KiB around the address, if they are in the flash at all.\<close>

lemma sector_mask: "(a :: u32) AND NOT (kPageSize - 1) = push_bit 12 (drop_bit 12 a)"
proof -
  have m: "kPageSize - 1 = mask 12" by (simp add: kPageSize_def mask_eq_exp_minus_1)
  show ?thesis unfolding m by (rule bit_word_eqI) (auto simp: bit_simps)
qed

lemma sector_range:
  fixes a p :: u32
  defines "s \<equiv> a AND NOT (kPageSize - 1)"
  shows "s \<le> p \<and> p - s < kPageSize \<longleftrightarrow> drop_bit 12 p = drop_bit 12 a"
    and "s \<le> kFlashBytes - kPageSize \<longleftrightarrow> a < kFlashBytes"
proof -
  have s: "unat s = 4096 * (unat a div 4096)"
  proof -
    have "unat s = take_bit 32 (push_bit 12 (drop_bit 12 (unat a)))"
      unfolding s_def sector_mask by (simp only: unsigned_push_bit_eq unat_drop_bit_eq) simp
    also have "\<dots> = 4096 * (unat a div 4096)"
      using unsigned_less [of a, where 'a = nat]
      by (subst take_bit_nat_eq_self) (simp_all add: push_bit_eq_mult drop_bit_eq_div)
    finally show ?thesis .
  qed
  have "drop_bit 12 p = drop_bit 12 a \<longleftrightarrow> unat p div 4096 = unat a div 4096"
    by (simp only: word_unat_eq_iff unat_drop_bit_eq) (simp add: drop_bit_eq_div)
  moreover have "s \<le> p \<and> p - s < kPageSize \<longleftrightarrow> unat s \<le> unat p \<and> unat p - unat s < 4096"
    by (auto simp: word_le_nat_alt word_less_nat_alt unat_sub kPageSize_def)
  moreover have "4096 * x \<le> y \<and> y - 4096 * x < 4096 \<longleftrightarrow> y div 4096 = x" for x y :: nat
    using mult_div_mod_eq [of 4096 y] mod_less_divisor [of 4096 y] by (auto intro!: div_nat_eqI)
  ultimately show "s \<le> p \<and> p - s < kPageSize \<longleftrightarrow> drop_bit 12 p = drop_bit 12 a" unfolding s by simp
  show "s \<le> kFlashBytes - kPageSize \<longleftrightarrow> a < kFlashBytes"
    by (simp add: word_le_nat_alt word_less_nat_alt s kFlashBytes_def kPageSize_def) linarith
qed

lemma fl_end_erase: "fl_erasing a m j c \<Longrightarrow> fl_idle (if a < kFlashBytes then flash_erase a m else m) j (spi_flash_csChanged False 0 c)"
proof -
  assume c: "fl_erasing a m j c"
  have "(\<lambda>p. if a AND NOT (kPageSize - 1) \<le> p \<and> p - (a AND NOT (kPageSize - 1)) < kPageSize then 0xff else m p) = flash_erase a m"
    if "a < kFlashBytes"
  proof -
    have "p < kFlashBytes" if "drop_bit 12 p = drop_bit 12 a" for p
      using sector_range(2) [of p] sector_range(2) [of a] \<open>a < kFlashBytes\<close> that by (simp add: sector_mask)
    then show ?thesis by (auto simp: flash_erase_def sector_range(1))
  qed
  with c show ?thesis
    by (simp add: spi_flash_csChanged_def eraseSector_def Let_def sector_range(2) fl_defs flash_core_upd cong: if_cong)
qed

text \<open>Reset and identification.\<close>

lemma fl_step_reset: "fl_idle m j c \<Longrightarrow> fl_idle m j (fst (fl_step CmdReset c))"
proof -
  assume c: "fl_idle m j c"
  define e where "e = c\<lparr>fl_cmd := (fl_cmd c)[unat (fl_cmdLen c) := CmdReset], fl_cmdLen := fl_cmdLen c + 1\<rparr>"
  have "\<not> bProgramming c" "fl_cmd e ! 0 = CmdReset" using c by (simp_all add: fl_defs e_def)
  moreover have "flash_switch CmdReset e = (True, spi_flash_reset e)" by (simp add: flash_switch_def flash_cmds)
  ultimately have w: "spi_flash_writeByte CmdReset 0 c = (spi_flash_reset e)\<lparr>fl_cmdLen := 0\<rparr>"
    using fl_write_cmd [OF _ e_def, of True "spi_flash_reset e" 0] by simp
  have "spidevicedpi_reset e = e" using c by (simp add: e_def fl_defs flash_core_upd)
  with c w show ?thesis by (simp add: fl_step_eq fl_next_def spi_flash_reset_def fl_defs flash_core_upd) (simp add: e_def)
qed

lemma replicate_3: "replicate 3 v = [v, v, v]"
  by (simp add: numeral_3_eq_3)

lemma fl_jedec:
  assumes "fl_idle m j c" "fl_neutral v"
  shows "fst (fl_steps (replicate 3 v) (fl_step CmdReadJEDECId c)) = [ucast (drop_bit 16 j), ucast (drop_bit 8 j), ucast j] \<and>
    fl_idle m j (fst (snd (fl_steps (replicate 3 v) (fl_step CmdReadJEDECId c))))"
proof -
  define e where "e = c\<lparr>fl_cmd := (fl_cmd c)[unat (fl_cmdLen c) := CmdReadJEDECId], fl_cmdLen := fl_cmdLen c + 1\<rparr>"
  define rsp where "rsp = (fl_rsp c)[0 := ucast (drop_bit 16 j), 1 := ucast (drop_bit 8 j), 2 := ucast j]"
  define at where "at i xs = c\<lparr>fl_cmd := xs, fl_rsp := rsp, fl_rspLen := 3, fl_rspIdx := i\<rparr>" for i xs
  have c: "\<not> bProgramming c" "\<not> bReading c" "fl_cmdLen c = 0" "length (fl_cmd c) = 8" "length (fl_rsp c) = 16"
     "spidevicedpi_reset c = c" "jedec_id c = j"
    using assms(1) by (simp_all add: fl_defs)
  have "fl_cmd e ! 0 = CmdReadJEDECId" using c by (simp add: e_def)
  moreover have "flash_switch CmdReadJEDECId e = (True, e\<lparr>fl_rsp := rsp, fl_rspLen := 3, fl_rspIdx := 0\<rparr>)"
    using c by (simp add: flash_switch_def flash_cmds e_def rsp_def)
  ultimately have "spi_flash_writeByte CmdReadJEDECId 0 c = at 0 (fl_cmd e)"
    using fl_write_cmd [OF c(1) e_def, of True _ 0] c by (simp add: e_def at_def)
  then have 1: "fl_step CmdReadJEDECId c = (at 1 (fl_cmd e), rsp ! 0)"
    using c by (simp add: fl_step_eq fl_next_def at_def flash_core_upd word_less_nat_alt)
  have w: "spi_flash_writeByte v 0 (at i xs) = at i (xs[0 := v])" if "length xs = 8" for i xs
  proof -
    define e' where "e' = (at i xs)\<lparr>fl_cmd := (fl_cmd (at i xs))[unat (fl_cmdLen (at i xs)) := v], fl_cmdLen := fl_cmdLen (at i xs) + 1\<rparr>"
    have "flash_switch (fl_cmd e' ! 0) e' = (True, e')"
      using c that assms(2) by (simp add: e'_def at_def flash_switch_def fl_neutral_def)
    then show ?thesis
      using fl_write_cmd [OF _ e'_def, of True e' 0] c by (simp add: e'_def at_def)
  qed
  have 2: "fl_step v (at i xs) = (at (if i < 3 then i + 1 else i) (xs[0 := v]), if i < 3 then rsp ! unat i else 0)" if "length xs = 8" for i xs
    using c w [OF that] by (simp add: fl_step_eq fl_next_def) (simp add: at_def flash_core_upd)
  have "length (fl_cmd e) = 8" using c by (simp add: e_def)
  moreover have "rsp ! 0 = ucast (drop_bit 16 j)" "rsp ! 1 = ucast (drop_bit 8 j)" "rsp ! 2 = ucast j" using c by (simp_all add: rsp_def)
  ultimately show ?thesis
    using assms(1) unfolding replicate_3 by (simp add: 1 2 split_beta) (simp add: at_def fl_defs flash_core_upd rsp_def)
qed

section \<open>The driver on the flash\<close>

text \<open>Between two operations of the driver: the controller is idle, the flash is not selected and holds \<open>m\<close>.\<close>

definition flash_holds :: "('s \<Rightarrow> fl_bus ctl) \<Rightarrow> 's \<Rightarrow> (u32 \<Rightarrow> u8) \<Rightarrow> u32 \<Rightarrow> bool" where
  "flash_holds view s m j \<longleftrightarrow> ctl_idle (view s) \<and> bit (selects (view s)) 0 \<and>
     (\<exists>c. fl_parked (bus (view s)) c \<and> fl_idle m j c)"

locale flash_slot = spi_controller ops view delay flash_xf flash_csf
  for ops :: "'s spi_ops" and view :: "'s \<Rightarrow> fl_bus ctl" and delay
begin

definition on :: "'s \<Rightarrow> spi_flash \<Rightarrow> u8 option \<Rightarrow> bool" where
  "on s c out \<longleftrightarrow> ctl_idle (view s) \<and> \<not> bit (selects (view s)) 0 \<and> fl_rel (bus (view s)) (c, out)"

lemma select_on: "flash_holds view s m j \<Longrightarrow> \<exists>c. on (flash_set_cs ops True s) c None \<and> fl_idle m j c"
  using fl_select [of "bus (view s)" _ m j "selects (view s) AND NOT 1" "selects (view s)"]
  by (auto simp: flash_holds_def on_def flash_set_cs_def v_set_chipSelects v_get_chipSelects ctl_idle_def bit_simps)

lemma deselect_holds:
  "on s c out \<Longrightarrow> fl_idle m j (spi_flash_csChanged False 0 c) \<Longrightarrow> flash_holds view (flash_set_cs ops False s) m j"
  using fl_deselect [of "bus (view s)" c out "selects (view s)" "selects (view s) OR 1"]
  by (auto simp: flash_holds_def on_def flash_set_cs_def v_set_chipSelects v_get_chipSelects ctl_idle_def bit_simps)

lemma on_wait_idle [simp]: "on (wait_idle ops s) c out = on s c out"
  by (simp add: on_def v_wait_idle)

lemma on_write:
  assumes "on s c out"
  shows "on (blocking_write ops (b # bs) s) (fst (snd (fl_steps bs (fl_step b c)))) (Some (snd (snd (fl_steps bs (fl_step b c)))))"
proof -
  have s: "ctl_idle (view s)" "\<not> bit (selects (view s)) 0" "fl_rel (bus (view s)) (c, out)" using assms by (simp_all add: on_def)
  from flash_xf_step [OF s(2,3), of b] obtain x b1 where
    1: "flash_xf (selects (view s)) b (bus (view s)) = (x, b1)" "fl_rel b1 (fst (fl_step b c), Some (snd (fl_step b c)))" by blast
  from xfers_fl [OF s(2) 1(2), of bs] 1(1) s show ?thesis
    by (auto simp: on_def v_blocking_write ctl_idle_def)
qed

lemma on_read:
  assumes "on s c (Some y)"
  obtains v s' where "fl_neutral v" "blocking_read ops n s = (fst (fl_steps (replicate n v) (c, y)), s')"
    "on s' (fst (snd (fl_steps (replicate n v) (c, y)))) (Some (snd (snd (fl_steps (replicate n v) (c, y)))))"
proof -
  define v where "v = copi_idle (cfg (view s))"
  have v: "fl_neutral v" by (simp add: v_def copi_idle_def)
  have s: "ctl_idle (view s)" "\<not> bit (selects (view s)) 0" "fl_rel (bus (view s)) (c, Some y)" using assms by (simp_all add: on_def)
  obtain ys s' where r: "blocking_read ops n s = (ys, s')" by fastforce
  from xfers_fl [OF s(2), of "bus (view s)" "(c, y)" "replicate n v"] s(3) obtain b where
    b: "xfers (flash_xf (selects (view s))) (replicate n v) (bus (view s)) = (fst (fl_steps (replicate n v) (c, y)), b)"
      "fl_rel b (fst (snd (fl_steps (replicate n v) (c, y))), Some (snd (snd (fl_steps (replicate n v) (c, y)))))" by auto
  from v_blocking_read [OF s(1) r b(1) [unfolded v_def]] b(2) s r v show thesis
    by (intro that) (auto simp: on_def ctl_idle_def v_def)
qed

lemma command_neutral:
  assumes "flash_holds view s m j" "fl_neutral b"
  shows "flash_holds view (flash_command ops [b] s) m j"
proof -
  obtain c where c: "on (flash_set_cs ops True s) c None" "fl_idle m j c" using select_on [OF assms(1)] by blast
  have "on (wait_idle ops (blocking_write ops [b] (flash_set_cs ops True s))) (fst (fl_step b c)) (Some (snd (fl_step b c)))"
    using on_write [OF c(1), of b "[]"] by simp
  from deselect_holds [OF this fl_end_idle(1)] fl_step_neutral [OF c(2) assms(2)] show ?thesis
    unfolding flash_command_def by blast
qed

lemma command_reset:
  assumes "flash_holds view s m j"
  shows "flash_holds view (flash_reset ops s) m j"
proof -
  have "flash_holds view (flash_command ops [CmdReset] s') m j" if h: "flash_holds view s' m j" for s'
  proof -
    obtain c where c: "on (flash_set_cs ops True s') c None" "fl_idle m j c" using select_on [OF h] by blast
    have "on (wait_idle ops (blocking_write ops [CmdReset] (flash_set_cs ops True s'))) (fst (fl_step CmdReset c)) (Some (snd (fl_step CmdReset c)))"
      using on_write [OF c(1), of CmdReset "[]"] by simp
    from deselect_holds [OF this fl_end_idle(1) [OF fl_step_reset [OF c(2)]]] show ?thesis unfolding flash_command_def .
  qed
  moreover have "drv_CmdReset = CmdReset" by (simp add: flash_cmds flash_drv_cmds)
  ultimately show ?thesis using command_neutral [OF assms] by (simp add: flash_reset_def)
qed

lemma wait_ready_returns:
  assumes "flash_holds view s m j"
  shows "\<exists>s'. wait_ready ops s = Some s' \<and> flash_holds view s' m j"
proof -
  obtain c where c: "on (flash_set_cs ops True s) c None" "fl_idle m j c" using select_on [OF assms] by blast
  define s1 where "s1 = blocking_write ops [drv_CmdReadStatusRegister1] (flash_set_cs ops True s)"
  obtain c1 where c1: "on s1 c1 (Some 0)" "fl_idle m j c1"
    using on_write [OF c(1), of drv_CmdReadStatusRegister1 "[]"] fl_step_neutral [OF c(2), of drv_CmdReadStatusRegister1]
    by (simp add: s1_def)
  obtain v s2 where s2: "fl_neutral v" "blocking_read ops 1 s1 = (fst (fl_steps (replicate 1 v) (c1, 0)), s2)"
    "on s2 (fst (snd (fl_steps (replicate 1 v) (c1, 0)))) (Some (snd (snd (fl_steps (replicate 1 v) (c1, 0)))))"
    using on_read [OF c1(1), of 1] .
  have "status_loop ops s1 = Some s2"
    using fl_idle_steps [OF c1(2) s2(1), of 1] s2(2) by (subst status_loop.simps) (simp del: fl_steps.simps)
  moreover have "flash_holds view (flash_set_cs ops False s2) m j"
    using fl_idle_steps [OF c1(2) s2(1), of 1] by (intro deselect_holds [OF s2(3) fl_end_idle(1)]) blast
  ultimately show ?thesis by (simp add: wait_ready_def s1_def)
qed

lemma address_command:
  assumes "on s c out"
  shows "on (blocking_write ops (address_cmd C a @ bs) s) (fst (snd (fl_steps (address_cmd C a @ bs) (c, y))))
    (Some (snd (snd (fl_steps (address_cmd C a @ bs) (c, y)))))"
  using on_write [OF assms, of C "tl (address_cmd C a) @ bs"] by (simp add: address_cmd_def split_beta)

lemma erase_refines:
  assumes "flash_holds view s m j"
  shows "\<exists>s'. erase_sector ops a s = Some s' \<and> flash_holds view s' (if a < kFlashBytes then flash_erase a m else m) j"
proof -
  obtain c where c: "on (flash_set_cs ops True (flash_command ops [drv_CmdWriteEnable] s)) c None" "fl_idle m j c"
    using select_on [OF command_neutral [OF assms, of drv_CmdWriteEnable]] by auto
  show ?thesis
    unfolding erase_sector_def flash_command_def [of ops "address_cmd _ _"] Let_def
    using address_command [OF c(1), of CmdSectorErase4Addr a "[]" 0]
    by (intro wait_ready_returns deselect_holds fl_end_erase) (simp, rule fl_erase_cmd [OF c(2)])
qed

lemma write_refines:
  assumes "flash_holds view s m j" "length data = 256"
  shows "\<exists>s'. flash_write_page ops a data s = Some s' \<and> flash_holds view s' (flash_store a data m) j"
proof -
  obtain c where c: "on (flash_set_cs ops True (flash_command ops [drv_CmdWriteEnable] s)) c None" "fl_idle m j c"
    using select_on [OF command_neutral [OF assms(1), of drv_CmdWriteEnable]] by auto
  define s1 where "s1 = blocking_write ops (address_cmd CmdPageProgram4Addr a) (flash_set_cs ops True (flash_command ops [drv_CmdWriteEnable] s))"
  obtain c1 y where c1: "on s1 c1 (Some y)" "fl_prog a m j c1"
    using address_command [OF c(1), of CmdPageProgram4Addr a "[]" 0] fl_prog_cmd [OF c(2), of a 0] by (auto simp: s1_def)
  obtain b bs where d: "data = b # bs" using assms(2) by (cases data) auto
  obtain off where "fl_prog off (flash_store a data m) j (fst (snd (fl_steps data (c1, y))))"
    using fl_prog_steps [OF c1(2)] by blast
  moreover have "on (blocking_write ops data s1) (fst (snd (fl_steps data (c1, y)))) (Some (snd (snd (fl_steps data (c1, y)))))"
    using on_write [OF c1(1), of b bs] by (simp add: d split_beta)
  ultimately have "flash_holds view (flash_set_cs ops False (wait_idle ops (blocking_write ops data s1))) (flash_store a data m) j"
    by (intro deselect_holds [OF _ fl_end_idle(2)]) simp_all
  from wait_ready_returns [OF this] show ?thesis using assms(2) by (simp add: flash_write_page_def s1_def Let_def)
qed

text \<open>A read command has been sent, and the flash answers from \<open>a\<close> on.\<close>

definition answers :: "'s \<Rightarrow> u32 \<Rightarrow> (u32 \<Rightarrow> u8) \<Rightarrow> u32 \<Rightarrow> bool" where
  "answers s a m j \<longleftrightarrow> (\<exists>c. on s c (Some (flash_byte m a)) \<and> fl_reading (a + 1) m j c)"

lemma read_begins:
  assumes "flash_holds view s m j"
  shows "answers (blocking_write ops (address_cmd CmdReadData4Addr a) (flash_set_cs ops True s)) a m j"
proof -
  obtain c where c: "on (flash_set_cs ops True s) c None" "fl_idle m j c" using select_on [OF assms] by blast
  show ?thesis
    using address_command [OF c(1), of CmdReadData4Addr a "[]" 0] fl_read_cmd [OF c(2), of a 0] by (auto simp: answers_def)
qed

lemma read_ends:
  assumes "answers s a m j"
  shows "\<exists>s'. blocking_read ops n s = (flash_bytes m a n, s') \<and> flash_holds view (flash_set_cs ops False s') m j"
proof -
  obtain c where c: "on s c (Some (flash_byte m a))" "fl_reading (a + 1) m j c" using assms by (auto simp: answers_def)
  obtain v s2 where s2: "fl_neutral v" "blocking_read ops n s = (fst (fl_steps (replicate n v) (c, flash_byte m a)), s2)"
    "on s2 (fst (snd (fl_steps (replicate n v) (c, flash_byte m a)))) (Some (snd (snd (fl_steps (replicate n v) (c, flash_byte m a)))))"
    using on_read [OF c(1)] .
  note r = fl_reading_steps [OF c(2) refl s2(1), of n]
  have "flash_holds view (flash_set_cs ops False s2) m j"
    using r by (intro deselect_holds [OF s2(3) fl_end_idle(3)]) blast
  then show ?thesis using s2(2) r by simp
qed

lemma read_refines:
  assumes "flash_holds view s m j"
  shows "\<exists>s'. flash_read ops a len s = (flash_bytes m a (unat len), s') \<and> flash_holds view s' m j"
  using read_ends [OF read_begins [OF assms, of a], where n = "unat len"] by (auto simp: flash_read_def)

text \<open>Some bytes into the read, the flash goes on answering.\<close>

lemma answers_on:
  assumes "answers s a m j" "bus (view s') = snd (xfers (flash_xf (selects (view s))) (replicate i (copi_idle (cfg (view s)))) (bus (view s)))"
  shows "\<exists>c out. fl_rel (bus (view s')) (c, out) \<and> fl_reading (a + of_nat i + 1) m j c"
proof -
  define v where "v = copi_idle (cfg (view s))"
  have v: "fl_neutral v" by (simp add: v_def copi_idle_def)
  obtain c where c: "\<not> bit (selects (view s)) 0" "fl_rel (bus (view s)) (c, Some (flash_byte m a))" "fl_reading (a + 1) m j c"
    using assms(1) by (auto simp: answers_def on_def)
  from xfers_fl [OF c(1), of "bus (view s)" "(c, flash_byte m a)" "replicate i v"] c(2)
  have "fl_rel (bus (view s')) (fst (snd (fl_steps (replicate i v) (c, flash_byte m a))),
      Some (snd (snd (fl_steps (replicate i v) (c, flash_byte m a)))))"
    using assms(2) by (auto simp flip: v_def)
  with fl_reading_steps [OF c(3) refl v, of i] show ?thesis by blast
qed

lemma jedec_refines:
  assumes "flash_holds view s m j"
  shows "\<exists>s'. read_jedec_id ops s = ([ucast (drop_bit 16 j), ucast (drop_bit 8 j), ucast j], s') \<and> flash_holds view s' m j"
proof -
  obtain c where c: "on (flash_set_cs ops True s) c None" "fl_idle m j c" using select_on [OF assms] by blast
  define s1 where "s1 = blocking_write ops [CmdReadJEDECId] (flash_set_cs ops True s)"
  define p where "p = fl_step CmdReadJEDECId c"
  have "on s1 (fst p) (Some (snd p))" using on_write [OF c(1), of CmdReadJEDECId "[]"] by (simp add: s1_def p_def)
  from on_read [OF this, of 3] obtain v s2 where s2: "fl_neutral v" "blocking_read ops 3 s1 = (fst (fl_steps (replicate 3 v) p), s2)"
    "on s2 (fst (snd (fl_steps (replicate 3 v) p))) (Some (snd (snd (fl_steps (replicate 3 v) p))))" by (auto simp: p_def)
  note r = fl_jedec [OF c(2) s2(1), folded p_def]
  have "flash_holds view (flash_set_cs ops False s2) m j"
    using r by (intro deselect_holds [OF s2(3) fl_end_idle(1)]) blast
  moreover have "drv_CmdReadJEDECId = CmdReadJEDECId" by (simp add: flash_cmds flash_drv_cmds)
  ultimately show ?thesis using s2(2) r by (simp add: read_jedec_id_def s1_def)
qed

end

interpretation sim_flash: flash_slot "sim_spi ic flash_xf flash_csf" "\<lambda>v. v" "\<lambda>_. 0"
  by unfold_locales

text \<open>A flash just constructed, all its bytes as they happen to be, on a controller that selects nothing.\<close>

definition raw_flash :: "(u32 \<Rightarrow> u8) \<Rightarrow> spi_flash" where
  "raw_flash m = \<lparr>inBits = 0, inByte = 0, outBits = 0, outByte = 0, oobOut = 0, bProgramming = True, bReading = True, bErasing = True,
     fl_cmdLen = 0, fl_cmd = replicate 8 0, fl_rspLen = 9, fl_rspIdx = 0, fl_rsp = replicate 16 0, memOffset = 0, fl_mem = m, jedec_id = 0\<rparr>"

definition flash_power_on :: "(u32 \<Rightarrow> u8) \<Rightarrow> u32 \<Rightarrow> fl_bus ctl" where
  "flash_power_on m j = \<lparr>bus = (spi_flash_new (raw_flash m) j, 1), selects = 0xf, cfg = 0, ctrl = 0, txq = [], rxq = [], room = 0\<rparr>"

lemma flash_power_on_holds: "flash_holds (\<lambda>v. v) (flash_power_on m j) m j"
  by (simp add: flash_holds_def flash_power_on_def fl_parked_def ctl_idle_def fl_defs spi_flash_new_def spi_flash_reset_def raw_flash_def
    spidevicedpi_reset_def bit_numeral_rec)

section \<open>Sequences of driver calls\<close>

datatype flash_op = Reset | Jedec | Erase u32 | Write u32 "u8 list" | Read u32 u32

fun flash_op_ok :: "flash_op \<Rightarrow> bool" where
  "flash_op_ok (Write a data) = (length data = 256)"
| "flash_op_ok _ = True"

text \<open>The calls on the driver, and on an array of bytes with an identification.\<close>

fun flash_call :: "'s spi_ops \<Rightarrow> flash_op \<Rightarrow> 's \<Rightarrow> (u8 list \<times> 's) option" where
  "flash_call ops Reset s = Some ([], flash_reset ops s)"
| "flash_call ops Jedec s = Some (read_jedec_id ops s)"
| "flash_call ops (Erase a) s = map_option (Pair []) (erase_sector ops a s)"
| "flash_call ops (Write a data) s = map_option (Pair []) (flash_write_page ops a data s)"
| "flash_call ops (Read a len) s = Some (flash_read ops a len s)"

fun array_call :: "u32 \<Rightarrow> flash_op \<Rightarrow> (u32 \<Rightarrow> u8) \<Rightarrow> u8 list \<times> (u32 \<Rightarrow> u8)" where
  "array_call j Reset m = ([], m)"
| "array_call j Jedec m = ([ucast (drop_bit 16 j), ucast (drop_bit 8 j), ucast j], m)"
| "array_call j (Erase a) m = ([], if a < kFlashBytes then flash_erase a m else m)"
| "array_call j (Write a data) m = ([], flash_store a data m)"
| "array_call j (Read a len) m = (flash_bytes m a (unat len), m)"

fun flash_calls :: "'s spi_ops \<Rightarrow> flash_op list \<Rightarrow> 's \<Rightarrow> (u8 list list \<times> 's) option" where
  "flash_calls ops [] s = Some ([], s)"
| "flash_calls ops (x # xs) s = do { (r, s) \<leftarrow> flash_call ops x s; (rs, s) \<leftarrow> flash_calls ops xs s; Some (r # rs, s) }"

fun array_calls :: "u32 \<Rightarrow> flash_op list \<Rightarrow> (u32 \<Rightarrow> u8) \<Rightarrow> u8 list list \<times> (u32 \<Rightarrow> u8)" where
  "array_calls j [] m = ([], m)"
| "array_calls j (x # xs) m = (case array_call j x m of (r, m) \<Rightarrow> (case array_calls j xs m of (rs, m) \<Rightarrow> (r # rs, m)))"

lemma flash_call_refines:
  assumes "flash_slot ops view delay" "flash_holds view s m j" "flash_op_ok x"
  shows "\<exists>s'. flash_call ops x s = Some (fst (array_call j x m), s') \<and> flash_holds view s' (snd (array_call j x m)) j"
proof (cases x)
  case Reset
  then show ?thesis using flash_slot.command_reset [OF assms(1,2)] by simp
next
  case Jedec
  then show ?thesis using flash_slot.jedec_refines [OF assms(1,2)] by auto
next
  case (Erase a)
  then show ?thesis using flash_slot.erase_refines [OF assms(1,2), of a] by auto
next
  case (Write a data)
  then show ?thesis using flash_slot.write_refines [OF assms(1,2), of data a] assms(3) by auto
next
  case (Read a len)
  then show ?thesis using flash_slot.read_refines [OF assms(1,2), of a len] by auto
qed

text \<open>What a page write leaves in the array.\<close>

lemma flash_store_at:
  assumes "unat a + length bs \<le> 2 ^ 25"
  shows "flash_store a bs m p = (if unat a \<le> unat p \<and> unat p < unat a + length bs then bs ! (unat p - unat a) else m p)"
  using assms
proof (induction bs arbitrary: a m)
  case (Cons b bs)
  then have a: "unat (a + 1) = Suc (unat a)" "a < kFlashBytes"
    by (simp_all add: unat_word_ariths word_less_nat_alt kFlashBytes_def)
  have "unat p = unat a \<longleftrightarrow> p = a" by (simp add: word_unat_eq_iff)
  with Cons a show ?case by (auto simp: nth_Cons')
qed auto

lemma flash_bytes_store:
  assumes "unat a + length bs \<le> 2 ^ 25"
  shows "flash_bytes (flash_store a bs m) a (length bs) = bs"
proof (rule nth_equalityI)
  fix i assume "i < length (flash_bytes (flash_store a bs m) a (length bs))"
  then have i: "i < length bs" by (simp add: flash_bytes_def)
  then have "unat (a + of_nat i) = unat a + i"
    using assms by (simp add: unat_word_ariths unat_of_nat)
  with i assms show "flash_bytes (flash_store a bs m) a (length bs) ! i = bs ! i"
    by (simp add: flash_bytes_def flash_byte_def flash_store_at word_less_nat_alt kFlashBytes_def)
qed (simp add: flash_bytes_def)

section \<open>Properties\<close>



text \<open>C22. A page written with \<open>write_page\<close> is read back unchanged by \<open>read\<close>, wherever in the flash it lies.\<close>

theorem flash_write_read:
  assumes "flash_slot ops view delay" "flash_holds view s m j" "length data = 256" "unat a + 256 \<le> 32 * 1024 * 1024"
  shows "\<exists>s1 s2. flash_write_page ops a data s = Some s1 \<and> flash_read ops a 256 s1 = (data, s2) \<and>
    flash_holds view s2 (flash_store a data m) j"
proof -
  from flash_slot.write_refines [OF assms(1-3), of a] obtain s1 where
    1: "flash_write_page ops a data s = Some s1" "flash_holds view s1 (flash_store a data m) j" by blast
  have "flash_bytes (flash_store a data m) a 256 = data"
    using flash_bytes_store [of a data m] assms(3,4) by simp
  with flash_slot.read_refines [OF assms(1) 1(2), of a 256] 1(1) show ?thesis by auto
qed

theorem flash_write_read_witness:
  "\<exists>s1 s2. flash_write_page (sim_spi True flash_xf flash_csf) 0x1ffff00 (replicate 256 0x5a) (flash_power_on (\<lambda>_. 0xff) 0xef4018) = Some s1 \<and>
    flash_read (sim_spi True flash_xf flash_csf) 0x1ffff00 256 s1 = (replicate 256 0x5a, s2) \<and>
    flash_holds (\<lambda>v. v) s2 (flash_store 0x1ffff00 (replicate 256 0x5a) (\<lambda>_. 0xff)) 0xef4018"
  by (rule flash_write_read [OF sim_flash.flash_slot_axioms flash_power_on_holds]) simp_all

end
