(* ===== verification/Rpi_Eeprom.thy ===== *)
theory Rpi_Eeprom
  imports I2c_Device "HOL-Library.Monad_Syntax"
begin

unbundle bit_operations_syntax

text \<open>
  The parser of the identification EEPROM of Raspberry Pi HATs (\<open>sw/cheri/common/rpi-hat-eeprom.hh\<close>) and the check of a Sense HAT built on
  it (\<open>i2c_epi_hat_id_epprom_check\<close> in \<open>sw/cheri/tests/i2c_tests.hh\<close>). Indices are 32-bit and wrap; reading outside the
  buffer is the value \<open>None\<close>. An out parameter is a result; members a function leaves alone come from the argument
  \<open>raw\<close>.
\<close>

lemma ucast_u8_u16_u8: "ucast (ucast (x :: u8) :: u16) = x"
  by (rule bit_word_eqI) (simp add: bit_simps)

section \<open>Reading the buffer\<close>

definition AtomHeaderLength :: u32 where "AtomHeaderLength = 8"
definition VendorHeaderLength :: u32 where "VendorHeaderLength = 22"
definition EepromHeaderLength :: u32 where "EepromHeaderLength = 12"
definition Crc16Poly :: u16 where "Crc16Poly = 0xA001"
definition VendorInfo :: u16 where "VendorInfo = 1"

definition rd :: "u8 list \<Rightarrow> u32 \<Rightarrow> u8 option" where
  "rd buf i = (if unat i < length buf then Some (buf ! unat i) else None)"

lemma unat_plus_one_less: "i < (stop :: u32) \<Longrightarrow> unat (i + 1) = Suc (unat i)"
  using unsigned_less [of stop, where 'a = nat] by (simp add: word_less_nat_alt unat_word_ariths)

text \<open>The eight steps for a byte, and the loop over the bytes.\<close>

fun hat_crc_bits :: "nat \<Rightarrow> u16 \<Rightarrow> u16" where
  "hat_crc_bits 0 crc = crc"
| "hat_crc_bits (Suc b) crc =
    hat_crc_bits b (if crc AND 1 \<noteq> 0 then drop_bit 1 crc XOR Crc16Poly else drop_bit 1 crc)"

definition hat_crc_byte :: "u16 \<Rightarrow> u8 \<Rightarrow> u16" where
  "hat_crc_byte crc b = hat_crc_bits 8 (crc XOR ucast b)"

function hat_crc_loop :: "u8 list \<Rightarrow> u32 \<Rightarrow> u16 \<Rightarrow> u32 \<Rightarrow> u16 option" where
  "hat_crc_loop buf stop crc i =
    (if i < stop then do { b \<leftarrow> rd buf i; hat_crc_loop buf stop (hat_crc_byte crc b) (i + 1) } else Some crc)"
  by pat_completeness auto
termination
  by (relation "measure (\<lambda>(buf, stop, crc, i). unat stop - unat i)") (auto simp: unat_plus_one_less word_less_nat_alt)

declare hat_crc_loop.simps [simp del]

definition hat_calc_crc16 :: "u8 list \<Rightarrow> u32 \<Rightarrow> u32 \<Rightarrow> u16 option" where
  "hat_calc_crc16 buf start_index len = hat_crc_loop buf (start_index + len) 0 start_index"

definition read_buf_16b :: "u8 list \<Rightarrow> u32 \<Rightarrow> u16 option" where
  "read_buf_16b buf i = do { a \<leftarrow> rd buf i; b \<leftarrow> rd buf (i + 1); Some (le16 a b) }"

definition read_buf_32b :: "u8 list \<Rightarrow> u32 \<Rightarrow> u32 option" where
  "read_buf_32b buf i = do { a \<leftarrow> rd buf i; b \<leftarrow> rd buf (i + 1); c \<leftarrow> rd buf (i + 2); d \<leftarrow> rd buf (i + 3); Some (le32 a b c d) }"

section \<open>The parser\<close>

record eeprom_header =
  signature :: "u8 list"
  version :: u8
  num_atoms :: u16
  eeprom_length :: u32

record atom_info =
  atom_type :: u16
  atom_count :: u16
  atom_length :: u32
  atom_crc :: u16

record vendor_atom =
  uuid :: "u8 list"
  pid :: u16
  pver :: u16
  vendor_str_len :: u8
  product_str_len :: u8

definition parse_header :: "u8 list \<Rightarrow> u32 \<Rightarrow> eeprom_header \<Rightarrow> (bool \<times> eeprom_header) option" where
  "parse_header buf buf_size raw =
    (if buf_size < 12 then Some (False, raw)
     else do {
       s0 \<leftarrow> rd buf 0; s1 \<leftarrow> rd buf 1; s2 \<leftarrow> rd buf 2; s3 \<leftarrow> rd buf 3;
       v \<leftarrow> rd buf 4;
       n \<leftarrow> read_buf_16b buf 6;
       l \<leftarrow> read_buf_32b buf 8;
       let h = \<lparr>signature = [s0, s1, s2, s3], version = v, num_atoms = n, eeprom_length = l\<rparr>;
       if \<not> (s0 = 0x52 \<and> s1 = 0x2d \<and> s2 = 0x50 \<and> s3 = 0x69) then Some (False, h)
       else if buf_size < l then Some (False, h)
       else Some (True, h) })"

definition parse_atom_info :: "u8 list \<Rightarrow> u32 \<Rightarrow> u32 \<Rightarrow> atom_info \<Rightarrow> (bool \<times> atom_info) option" where
  "parse_atom_info buf start_index buf_size raw =
    (if start_index + AtomHeaderLength + 2 > buf_size then Some (False, raw)
     else do {
       t \<leftarrow> read_buf_16b buf start_index;
       n \<leftarrow> read_buf_16b buf (start_index + 2);
       l \<leftarrow> read_buf_32b buf (start_index + 4);
       let info = raw\<lparr>atom_type := t, atom_count := n, atom_length := l\<rparr>;
       if start_index + l > buf_size then Some (False, info)
       else do {
         c \<leftarrow> read_buf_16b buf (start_index + AtomHeaderLength + l - 2);
         let info = info\<lparr>atom_crc := c\<rparr>;
         calc_crc \<leftarrow> hat_calc_crc16 buf start_index (AtomHeaderLength + l - 2);
         Some (calc_crc = c, info) } })"

text \<open>The copy loop of the UUID.\<close>

fun read_bytes :: "u8 list \<Rightarrow> u32 \<Rightarrow> nat \<Rightarrow> u8 list option" where
  "read_bytes buf i 0 = Some []"
| "read_bytes buf i (Suc n) = do { b \<leftarrow> rd buf i; bs \<leftarrow> read_bytes buf (i + 1) n; Some (b # bs) }"

definition parse_vendor_info :: "u8 list \<Rightarrow> u32 \<Rightarrow> u32 \<Rightarrow> vendor_atom \<Rightarrow> (bool \<times> vendor_atom) option" where
  "parse_vendor_info buf start_index buf_size raw =
    (if start_index + 22 > buf_size then Some (False, raw)
     else do {
       u \<leftarrow> read_bytes buf start_index 16;
       p \<leftarrow> read_buf_16b buf (start_index + 16);
       v \<leftarrow> read_buf_16b buf (start_index + 18);
       vl \<leftarrow> rd buf (start_index + 20);
       pl \<leftarrow> rd buf (start_index + 21);
       let va = \<lparr>uuid = u, pid = p, pver = v, vendor_str_len = vl, product_str_len = pl\<rparr>;
       Some (\<not> start_index + VendorHeaderLength + ucast vl + ucast pl > buf_size, va) })"

section \<open>The check of a Sense HAT\<close>

definition expectedRiPiHatVendor :: "u8 list" where
  "expectedRiPiHatVendor = [0x52, 0x61, 0x73, 0x70, 0x62, 0x65, 0x72, 0x72, 0x79, 0x20, 0x50, 0x69]"

definition expectedRiPiHatProduct :: "u8 list" where
  "expectedRiPiHatProduct = [0x53, 0x65, 0x6E, 0x73, 0x65, 0x20, 0x48, 0x41, 0x54]"

text \<open>The comparison stops at the first difference.\<close>

fun buf_cmp :: "u8 list \<Rightarrow> u32 \<Rightarrow> u8 list \<Rightarrow> bool option" where
  "buf_cmp buf i [] = Some True"
| "buf_cmp buf i (x # xs) = do { b \<leftarrow> rd buf i; if b \<noteq> x then Some False else buf_cmp buf (i + 1) xs }"

text \<open>The checks of a vendor atom whose data starts at the index: whether it could be parsed, and the failures.\<close>

definition vendor_check :: "u8 list \<Rightarrow> u32 \<Rightarrow> u32 \<Rightarrow> vendor_atom \<Rightarrow> (bool \<times> nat) option" where
  "vendor_check buf buf_size vi raw = do {
     (ok, va) \<leftarrow> parse_vendor_info buf vi buf_size raw;
     if \<not> ok then Some (False, 1)
     else do {
       f1 \<leftarrow> (if unat (vendor_str_len va) \<noteq> length expectedRiPiHatVendor then Some 1
              else map_option (\<lambda>e. if e then 0 else 1) (buf_cmp buf (vi + VendorHeaderLength) expectedRiPiHatVendor));
       f2 \<leftarrow> (if unat (product_str_len va) \<noteq> length expectedRiPiHatProduct then Some 1
              else map_option (\<lambda>e. if e then 0 else 1)
                (buf_cmp buf (vi + VendorHeaderLength + ucast (vendor_str_len va)) expectedRiPiHatProduct));
       Some (True, f1 + f2) } }"

text \<open>The loop over the atoms: \<open>n\<close> are left, \<open>i\<close> is the number of the next. \<open>Inl\<close> is the early return; a vendor atom that cannot be parsed
  continues without advancing the index.\<close>

fun atoms_loop :: "u8 list \<Rightarrow> u32 \<Rightarrow> atom_info \<Rightarrow> vendor_atom \<Rightarrow> nat \<Rightarrow> nat \<Rightarrow> u32 \<Rightarrow> nat \<Rightarrow> (nat + nat \<times> u32) option" where
  "atoms_loop buf buf_size ra rv 0 i atom_index failures = Some (Inr (failures, atom_index))"
| "atoms_loop buf buf_size ra rv (Suc n) i atom_index failures = do {
     (ok, info) \<leftarrow> parse_atom_info buf atom_index buf_size ra;
     if \<not> ok then Some (Inl (failures + 1))
     else do {
       let failures = (if unat (atom_count info) \<noteq> i then failures + 1 else failures);
       (next, f) \<leftarrow> (if atom_type info = VendorInfo then vendor_check buf buf_size (atom_index + AtomHeaderLength) rv else Some (True, 0));
       let atom_index = (if next then atom_index + (atom_length info + AtomHeaderLength) else atom_index);
       atoms_loop buf buf_size ra rv n (Suc i) atom_index (failures + f) } }"

definition i2c_epi_hat_id_epprom_check :: "u8 list \<Rightarrow> u32 \<Rightarrow> eeprom_header \<Rightarrow> atom_info \<Rightarrow> vendor_atom \<Rightarrow> nat option" where
  "i2c_epi_hat_id_epprom_check buf len rh ra rv = do {
     (ok, h) \<leftarrow> parse_header buf len rh;
     if \<not> ok then Some 1
     else do {
       r \<leftarrow> atoms_loop buf len ra rv (unat (num_atoms h)) 0 EepromHeaderLength 0;
       Some (case r of Inl f \<Rightarrow> f | Inr (f, atom_index) \<Rightarrow> if atom_index \<noteq> eeprom_length h then f + 1 else f) } }"

section \<open>Reads inside the buffer\<close>

lemma rd_in: "unat i < length buf \<Longrightarrow> rd buf i = Some (buf ! unat i)"
  by (simp add: rd_def)

lemma unat_add_in: "unat (i :: u32) + n < 2 ^ 32 \<Longrightarrow> unat (i + of_nat n) = unat i + n"
  by (simp add: unat_word_ariths unat_of_nat)

lemma unat_add_num: "unat (i :: u32) + numeral n < 2 ^ 32 \<Longrightarrow> unat (i + numeral n) = unat i + numeral n"
  using unat_add_in [of i "numeral n"] by simp

lemma unat_add_1: "unat (i :: u32) + 1 < 2 ^ 32 \<Longrightarrow> unat (i + 1) = unat i + 1"
  using unat_add_in [of i 1] by simp

text \<open>Reading at the position after \<open>pre\<close>.\<close>

definition at_index :: "u8 list \<Rightarrow> u32 \<Rightarrow> u8 list \<Rightarrow> bool" where
  "at_index buf i xs \<longleftrightarrow> (\<exists>pre post. buf = pre @ xs @ post \<and> unat i = length pre \<and> length pre + length xs < 2 ^ 32)"

lemma at_index_Cons:
  assumes "at_index buf i (x # xs)"
  shows "rd buf i = Some x" "at_index buf (i + 1) xs"
proof -
  obtain pre post where p: "buf = pre @ (x # xs) @ post" "unat i = length pre" "length pre + length (x # xs) < 2 ^ 32"
    using assms by (auto simp: at_index_def)
  then show "rd buf i = Some x" by (simp add: rd_def)
  have "unat (i + 1) = length (pre @ [x])" using p unat_add_1 [of i] by simp
  with p show "at_index buf (i + 1) xs" unfolding at_index_def by (intro exI [of _ "pre @ [x]"] exI [of _ post]) simp
qed

lemma at_index_append: "at_index buf i (xs @ ys) \<Longrightarrow> at_index buf i xs \<and> at_index buf (i + of_nat (length xs)) ys"
proof -
  assume "at_index buf i (xs @ ys)"
  then obtain pre post where p: "buf = pre @ (xs @ ys) @ post" "unat i = length pre" "length pre + length (xs @ ys) < 2 ^ 32"
    by (auto simp: at_index_def)
  have "unat (i + of_nat (length xs)) = length (pre @ xs)" using p unat_add_in [of i "length xs"] by simp
  with p show ?thesis unfolding at_index_def
    by (intro conjI exI [of _ pre] exI [of _ "ys @ post"] exI [of _ "pre @ xs"] exI [of _ post]) simp_all
qed

lemma at_index_drop: "at_index buf i xs \<Longrightarrow> k \<le> length xs \<Longrightarrow> at_index buf (i + of_nat k) (drop k xs)"
  using at_index_append [of buf i "take k xs" "drop k xs"] by simp

lemma hat_crc_loop_at:
  "at_index buf i xs \<Longrightarrow> hat_crc_loop buf (i + of_nat (length xs)) crc i = Some (foldl hat_crc_byte crc xs)"
proof (induction xs arbitrary: i crc)
  case Nil
  then show ?case by (simp add: hat_crc_loop.simps)
next
  case (Cons x xs)
  have "i < i + of_nat (length (x # xs))"
    using Cons.prems unat_add_in [of i "length (x # xs)"] by (auto simp: at_index_def word_less_nat_alt)
  moreover have "i + of_nat (length (x # xs)) = i + 1 + of_nat (length xs)" by simp
  ultimately show ?case
    using Cons.IH [OF at_index_Cons(2) [OF Cons.prems]] at_index_Cons(1) [OF Cons.prems]
    by (subst hat_crc_loop.simps) (simp add: add.assoc)
qed

section \<open>Atoms\<close>

definition le16_bytes :: "u16 \<Rightarrow> u8 list" where
  "le16_bytes w = [ucast w, ucast (drop_bit 8 w)]"

definition le32_bytes :: "u32 \<Rightarrow> u8 list" where
  "le32_bytes w = [ucast w, ucast (drop_bit 8 w), ucast (drop_bit 16 w), ucast (drop_bit 24 w)]"

lemma le16_bytes_join: "le16 (ucast w) (ucast (drop_bit 8 w)) = w"
  by (rule bit_word_eqI) (auto simp: le16_def bit_simps)

lemma le32_bytes_join: "le32 (ucast w) (ucast (drop_bit 8 w)) (ucast (drop_bit 16 w)) (ucast (drop_bit 24 w)) = w"
proof (rule bit_word_eqI)
  fix n :: nat
  assume "n < LENGTH(32)"
  then consider "n < 8" | "8 \<le> n" "n < 16" | "16 \<le> n" "n < 24" | "24 \<le> n" "n < 32" by force
  then show "bit (le32 (ucast w) (ucast (drop_bit 8 w)) (ucast (drop_bit 16 w)) (ucast (drop_bit 24 w))) n = bit w n"
    by cases (auto simp: le32_def bit_simps)
qed

lemma read_buf_16b_at: "at_index buf i (a # b # xs) \<Longrightarrow> read_buf_16b buf i = Some (le16 a b)"
  using at_index_Cons [of buf i a "b # xs"] at_index_Cons(1) [of buf "i + 1" b xs] by (simp add: read_buf_16b_def)

lemma read_buf_32b_at: "at_index buf i (a # b # c # d # xs) \<Longrightarrow> read_buf_32b buf i = Some (le32 a b c d)"
proof -
  assume 0: "at_index buf i (a # b # c # d # xs)"
  note 1 = at_index_Cons(2) [OF 0]
  note 2 = at_index_Cons(2) [OF 1, unfolded add.assoc one_add_one]
  have 3: "at_index buf (i + 3) (d # xs)" using at_index_Cons(2) [OF 2] by (simp add: add.assoc)
  show ?thesis using 0 1 2 3 [THEN at_index_Cons(1)] by (simp add: read_buf_32b_def at_index_Cons(1))
qed

text \<open>An atom of the specification: its header, its data and the checksum of both.\<close>

definition atom_body :: "u16 \<Rightarrow> u16 \<Rightarrow> u8 list \<Rightarrow> u8 list" where
  "atom_body t n data = le16_bytes t @ le16_bytes n @ le32_bytes (of_nat (length data + 2)) @ data"

definition atom_bytes :: "u16 \<Rightarrow> u16 \<Rightarrow> u8 list \<Rightarrow> u16 \<Rightarrow> u8 list" where
  "atom_bytes t n data crc = atom_body t n data @ le16_bytes crc"

lemma length_atom [simp]: "length (atom_body t n data) = length data + 8" "length (atom_bytes t n data crc) = length data + 10"
  by (simp_all add: atom_body_def atom_bytes_def le16_bytes_def le32_bytes_def)

text \<open>What the parser makes of such an atom, whatever its checksum.\<close>

lemma parse_atom_info_at:
  assumes "buf = pre @ atom_bytes t n data crc @ post" "length buf < 2 ^ 32"
  shows "parse_atom_info buf (of_nat (length pre)) (of_nat (length buf)) raw =
    Some (foldl hat_crc_byte 0 (atom_body t n data) = crc,
      raw\<lparr>atom_type := t, atom_count := n, atom_length := of_nat (length data + 2), atom_crc := crc\<rparr>)"
proof -
  let ?i = "of_nat (length pre) :: u32" and ?l = "of_nat (length data + 2) :: u32"
  have len: "length buf = length pre + (length data + 10) + length post" using assms(1) by simp
  have i: "unat ?i = length pre" using assms(2) len by (simp add: unat_of_nat)
  have at: "at_index buf ?i (atom_bytes t n data crc)"
    using assms(1,2) len i unfolding at_index_def by (intro exI [of _ pre] exI [of _ post]) simp
  note atom = at [unfolded atom_bytes_def atom_body_def le16_bytes_def le32_bytes_def append.simps append_assoc]
  have h: "read_buf_16b buf ?i = Some t" "read_buf_16b buf (?i + 2) = Some n" "read_buf_32b buf (?i + 4) = Some ?l"
    using read_buf_16b_at [OF atom] read_buf_16b_at [OF at_index_drop [OF atom, of 2, simplified]]
      read_buf_32b_at [OF at_index_drop [OF atom, of 4, simplified]]
    by (simp_all add: le16_bytes_join le32_bytes_join del: of_nat_add)
  have "drop (length data + 8) (atom_bytes t n data crc) = le16_bytes crc" by (simp add: atom_bytes_def)
  then have c: "read_buf_16b buf (?i + of_nat (length data + 8)) = Some crc"
    using at_index_drop [OF at, of "length data + 8"] read_buf_16b_at [of buf "?i + of_nat (length data + 8)" "ucast crc" "ucast (drop_bit 8 crc)" "[]"]
    by (simp add: le16_bytes_def le16_bytes_join)
  have e: "?i + AtomHeaderLength + ?l - 2 = ?i + of_nat (length data + 8)" "AtomHeaderLength + ?l - 2 = of_nat (length (atom_body t n data))"
    by (simp_all add: AtomHeaderLength_def)
  have crc: "hat_calc_crc16 buf ?i (AtomHeaderLength + ?l - 2) = Some (foldl hat_crc_byte 0 (atom_body t n data))"
    unfolding hat_calc_crc16_def e(2) using at_index_append [OF at [unfolded atom_bytes_def]] by (intro hat_crc_loop_at) blast
  have b: "unat (of_nat (length buf) :: u32) = length buf" using assms(2) by (simp add: unat_of_nat)
  have s: "unat (?i + 10) = length pre + 10" "unat (?i + ?l) = length pre + (length data + 2)"
    using assms(2) len i unat_add_in [of ?i 10] unat_add_in [of ?i "length data + 2"] by (simp_all add: unat_of_nat)
  have "\<not> ?i + AtomHeaderLength + 2 > of_nat (length buf)" "\<not> ?i + ?l > of_nat (length buf)"
    unfolding word_less_nat_alt b using s len by (simp_all add: AtomHeaderLength_def add.assoc del: of_nat_add)
  with h c crc e(1) show ?thesis by (simp add: parse_atom_info_def Let_def del: of_nat_add)
qed

section \<open>The checksum\<close>

definition hat_crc_shift :: "u16 \<Rightarrow> u16" where
  "hat_crc_shift x = (if x AND 1 \<noteq> 0 then drop_bit 1 x XOR Crc16Poly else drop_bit 1 x)"

lemma hat_crc_bits_shift: "hat_crc_bits n x = (hat_crc_shift ^^ n) x"
  by (induction n arbitrary: x) (simp_all add: hat_crc_shift_def funpow_swap1)

lemma bit_hat_crc_shift:
  "bit (hat_crc_shift x) 15 = bit x 0"
  "bit (hat_crc_shift x) n = (if n < 15 then bit x (Suc n) \<noteq> (bit x 0 \<and> bit Crc16Poly n) else n = 15 \<and> bit x 0)"
proof -
  have *: "x AND 1 \<noteq> 0 \<longleftrightarrow> bit x 0" by (simp add: and_one_eq mod_2_eq_odd bit_0)
  have 15: "bit Crc16Poly 15" by (simp add: Crc16Poly_def bit_numeral_rec)
  show "bit (hat_crc_shift x) n = (if n < 15 then bit x (Suc n) \<noteq> (bit x 0 \<and> bit Crc16Poly n) else n = 15 \<and> bit x 0)"
    using 15 unfolding hat_crc_shift_def *
    by (cases "n < 15"; cases "n = 15") (auto simp: bit_simps dest: bit_imp_le_length)
  then show "bit (hat_crc_shift x) 15 = bit x 0"
    using 15 unfolding hat_crc_shift_def * by (auto simp: bit_simps dest: bit_imp_le_length)
qed

lemma hat_crc_shift_inject: "hat_crc_shift x = hat_crc_shift y \<Longrightarrow> x = y"
proof (rule bit_word_eqI)
  fix n assume eq: "hat_crc_shift x = hat_crc_shift y" and n: "n < LENGTH(16)"
  have 0: "bit x 0 = bit y 0" using arg_cong [OF eq, of "\<lambda>w. bit w 15"] by (simp add: bit_hat_crc_shift(1))
  show "bit x n = bit y n"
  proof (cases n)
    case 0
    with \<open>bit x 0 = bit y 0\<close> show ?thesis by simp
  next
    case (Suc k)
    with n 0 arg_cong [OF eq, of "\<lambda>w. bit w k"] show ?thesis by (auto simp: bit_hat_crc_shift(2) split: if_splits)
  qed
qed

lemma hat_crc_byte_inject: "hat_crc_byte c b = hat_crc_byte c' b' \<longleftrightarrow> c XOR ucast b = c' XOR ucast b'"
proof -
  have "(hat_crc_shift ^^ n) x = (hat_crc_shift ^^ n) y \<Longrightarrow> x = y" for n x y
    by (induction n) (auto dest: hat_crc_shift_inject)
  then show ?thesis by (auto simp: hat_crc_byte_def hat_crc_bits_shift)
qed

lemma hat_crc_inject: "foldl hat_crc_byte c xs = foldl hat_crc_byte c' xs \<longleftrightarrow> c = c'"
  by (induction xs arbitrary: c c') (simp_all add: hat_crc_byte_inject word_xor_right_cancel)

lemma hat_crc_differs:
  assumes "a \<noteq> b"
  shows "foldl hat_crc_byte 0 (pre @ a # post) \<noteq> foldl hat_crc_byte 0 (pre @ b # post)"
proof -
  have "(ucast a :: u16) \<noteq> ucast b" using assms by (metis ucast_u8_u16_u8)
  then have "c XOR ucast a \<noteq> c XOR ucast b" for c :: u16 by (metis word_xor_right_cancel xor.commute)
  then show ?thesis by (simp add: hat_crc_inject hat_crc_byte_inject)
qed

text \<open>The checksum on natural numbers, for evaluation.\<close>

definition crc_nat :: "nat \<Rightarrow> nat" where
  "crc_nat c = (if even c then c div 2 else xor (c div 2) 40961)"

definition crc_nat8 :: "nat \<Rightarrow> nat \<Rightarrow> nat" where
  "crc_nat8 c b = crc_nat (crc_nat (crc_nat (crc_nat (crc_nat (crc_nat (crc_nat (crc_nat (xor c b))))))))"

lemma crc_nat_simps: "crc_nat 0 = 0" "crc_nat 1 = 40961" "crc_nat (Suc 0) = 40961" "crc_nat (numeral (num.Bit0 n)) = numeral n" "crc_nat (numeral (num.Bit1 n)) = xor (numeral n) 40961"
  by (simp_all add: crc_nat_def)

lemma unat_hat_crc_shift: "unat (hat_crc_shift x) = crc_nat (unat x)"
proof -
  have "bit (unat x) 0 = bit x 0" by (simp only: bit_unsigned_iff possible_bit_nat) simp
  then have "x AND 1 \<noteq> 0 \<longleftrightarrow> odd (unat x)" by (simp add: and_one_eq mod_2_eq_odd bit_0)
  then show ?thesis
    by (auto simp: hat_crc_shift_def crc_nat_def Crc16Poly_def unsigned_xor_eq) (simp_all only: unat_drop_bit_eq, simp_all add: drop_bit_eq_div)
qed

lemma unat_hat_crc_byte: "unat (hat_crc_byte c b) = crc_nat8 (unat c) (unat b)"
  by (simp add: hat_crc_byte_def hat_crc_bits_shift crc_nat8_def unat_hat_crc_shift unsigned_xor_eq unat_ucast_u8_u16 eval_nat_numeral)

lemma hat_crc_nat: "foldl hat_crc_byte 0 xs = of_nat (foldl crc_nat8 0 (map unat xs))"
proof -
  have "unat (foldl hat_crc_byte c xs) = foldl crc_nat8 (unat c) (map unat xs)" for c
    by (induction xs arbitrary: c) (simp_all add: unat_hat_crc_byte)
  from this [of 0] show ?thesis by (metis unat_0 of_nat_unat ucast_id)
qed


section \<open>The simulated EEPROM\<close>

lemma atom_in_buffer:
  assumes "take 8 (drop i buf) = le16_bytes t @ le16_bytes n @ le32_bytes (of_nat (len + 2))"
    "take 2 (drop (i + 8 + len) buf) = le16_bytes crc" "i + 10 + len \<le> length buf" "length buf < 2 ^ 32"
  shows "parse_atom_info buf (of_nat i) (of_nat (length buf)) raw =
    Some (foldl hat_crc_byte 0 (take (8 + len) (drop i buf)) = crc,
      raw\<lparr>atom_type := t, atom_count := n, atom_length := of_nat (len + 2), atom_crc := crc\<rparr>)"
proof -
  let ?d = "take len (drop (i + 8) buf)"
  have l: "length ?d = len" using assms(3) by simp
  have body: "atom_body t n ?d = take (8 + len) (drop i buf)"
    unfolding atom_body_def l take_add [of 8 len "drop i buf"] assms(1) by (simp only: append_assoc drop_drop add.commute)
  have "atom_bytes t n ?d crc = take (8 + len + 2) (drop i buf)"
    unfolding atom_bytes_def body assms(2) [symmetric] take_add [of "8 + len" 2 "drop i buf"] by (simp only: drop_drop ac_simps)
  then have "buf = take i buf @ atom_bytes t n ?d crc @ drop (i + (8 + len + 2)) buf"
    by (metis append_take_drop_id drop_drop add.commute)
  from parse_atom_info_at [OF this assms(4), of raw] show ?thesis
    using assms(3) by (simp add: body l min_def)
qed

lemma length_hat_id: "length hat_id = 1024"
  by (simp add: hat_id_def)

lemma hat_atoms:
  "parse_atom_info hat_id 12 0x400 raw = Some (True, raw\<lparr>atom_type := 1, atom_count := 0, atom_length := 45, atom_crc := 10111\<rparr>)"
  "parse_atom_info hat_id 65 0x400 raw = Some (True, raw\<lparr>atom_type := 2, atom_count := 1, atom_length := 32, atom_crc := 28397\<rparr>)"
  "parse_atom_info hat_id 105 0x400 raw = Some (True, raw\<lparr>atom_type := 3, atom_count := 2, atom_length := 895, atom_crc := 29961\<rparr>)"
proof -
  have c: "foldl hat_crc_byte 0 (take 51 (drop 12 hat_id)) = 10111" "foldl hat_crc_byte 0 (take 38 (drop 65 hat_id)) = 28397"
     "foldl hat_crc_byte 0 (take 901 (drop 105 hat_id)) = 29961"
    unfolding hat_crc_nat hat_id_def by (simp_all add: crc_nat8_def crc_nat_simps)
  have h: "take 8 (drop 12 hat_id) = le16_bytes 1 @ le16_bytes 0 @ le32_bytes 45" "take 2 (drop 63 hat_id) = le16_bytes 10111"
    "take 8 (drop 65 hat_id) = le16_bytes 2 @ le16_bytes 1 @ le32_bytes 32" "take 2 (drop 103 hat_id) = le16_bytes 28397"
    "take 8 (drop 105 hat_id) = le16_bytes 3 @ le16_bytes 2 @ le32_bytes 895" "take 2 (drop 1006 hat_id) = le16_bytes 29961"
    unfolding hat_id_def by (simp_all add: le16_bytes_def le32_bytes_def)
  show "parse_atom_info hat_id 12 0x400 raw = Some (True, raw\<lparr>atom_type := 1, atom_count := 0, atom_length := 45, atom_crc := 10111\<rparr>)"
    using atom_in_buffer [of 12 hat_id 1 0 43 10111 raw] h c by (simp add: length_hat_id)
  show "parse_atom_info hat_id 65 0x400 raw = Some (True, raw\<lparr>atom_type := 2, atom_count := 1, atom_length := 32, atom_crc := 28397\<rparr>)"
    using atom_in_buffer [of 65 hat_id 2 1 30 28397 raw] h c by (simp add: length_hat_id)
  show "parse_atom_info hat_id 105 0x400 raw = Some (True, raw\<lparr>atom_type := 3, atom_count := 2, atom_length := 895, atom_crc := 29961\<rparr>)"
    using atom_in_buffer [of 105 hat_id 3 2 893 29961 raw] h c by (simp add: length_hat_id)
qed

lemma read_bytes_numeral: "read_bytes buf i (numeral n) =
    do { b \<leftarrow> rd buf i; bs \<leftarrow> read_bytes buf (i + 1) (pred_numeral n); Some (b # bs) }"
  by (simp add: numeral_eq_Suc)

lemma rd_hat: "rd hat_id i = (if unat i < 1024 then Some (hat_id ! unat i) else None)"
  by (simp add: rd_def length_hat_id)

lemma hat_header: "parse_header hat_id 0x400 raw =
    Some (True, \<lparr>signature = [0x52, 0x2d, 0x50, 0x69], version = 1, num_atoms = 3, eeprom_length = 1008\<rparr>)"
  by (simp add: parse_header_def read_buf_16b_def read_buf_32b_def rd_hat)
    (simp add: hat_id_def le16_def le32_def)

lemma buf_cmp_at: "at_index buf i xs \<Longrightarrow> buf_cmp buf i xs = Some True"
  by (induction xs arbitrary: i) (simp_all add: at_index_Cons)

lemma at_index_take:
  assumes "take n (drop (unat i) buf) = xs" "length xs = n" "unat i \<le> length buf" "length buf < 2 ^ 32"
  shows "at_index buf i xs"
proof -
  have "buf = take (unat i) buf @ xs @ drop n (drop (unat i) buf)"
    unfolding assms(1) [symmetric] by (simp only: append_take_drop_id)
  moreover have "length (take (unat i) buf) + length xs \<le> length buf"
    using arg_cong [OF calculation, of length] by simp
  ultimately show ?thesis
    using assms(3,4) unfolding at_index_def by (intro exI [of _ "take (unat i) buf"] exI [of _ "drop n (drop (unat i) buf)"]) simp
qed

lemma hat_vendor: "vendor_check hat_id 0x400 20 raw = Some (True, 0)"
proof -
  have "hat_id ! 40 = 12" "hat_id ! 41 = 9" by (simp_all add: hat_id_def)
  then have p: "\<exists>u p v. parse_vendor_info hat_id 20 0x400 raw = Some (True, \<lparr>uuid = u, pid = p, pver = v, vendor_str_len = 12, product_str_len = 9\<rparr>)"
    by (simp add: parse_vendor_info_def read_buf_16b_def read_bytes_numeral rd_hat VendorHeaderLength_def)
  have "take 12 (drop 42 hat_id) = expectedRiPiHatVendor" "take 9 (drop 54 hat_id) = expectedRiPiHatProduct"
    by (simp_all add: hat_id_def expectedRiPiHatVendor_def expectedRiPiHatProduct_def)
  moreover have len: "length expectedRiPiHatVendor = 12" "length expectedRiPiHatProduct = 9"
    by (simp_all add: expectedRiPiHatVendor_def expectedRiPiHatProduct_def)
  ultimately have "buf_cmp hat_id 42 expectedRiPiHatVendor = Some True" "buf_cmp hat_id 54 expectedRiPiHatProduct = Some True"
    using at_index_take [of 12 42 hat_id expectedRiPiHatVendor] at_index_take [of 9 54 hat_id expectedRiPiHatProduct]
    by (simp_all add: buf_cmp_at length_hat_id)
  with p len show ?thesis by (auto simp: vendor_check_def VendorHeaderLength_def)
qed

lemma hat_loop: "atoms_loop hat_id 0x400 ra rv 3 0 12 0 = Some (Inr (0, 1008))"
  by (simp add: numeral_3_eq_3 hat_atoms hat_vendor VendorInfo_def AtomHeaderLength_def)

section \<open>Whole images\<close>

text \<open>
  An image as the specification of the EEPROM prescribes it: the header, then the atoms one after the other. The contents
  of an atom are the fields of a vendor atom or the data of any other; its number and its checksum are what the image says,
  right or wrong.
\<close>

datatype hat_contents =
    VendorContents "u8 list" u16 u16 "u8 list" "u8 list"
  | OtherContents u16 "u8 list"

record hat_atom =
  hat_contents :: hat_contents
  hat_number :: u16
  hat_checksum :: u16

fun contents_type :: "hat_contents \<Rightarrow> u16" where
  "contents_type (VendorContents _ _ _ _ _) = VendorInfo"
| "contents_type (OtherContents t _) = t"

fun contents_bytes :: "hat_contents \<Rightarrow> u8 list" where
  "contents_bytes (VendorContents u p v vs ps) =
     u @ le16_bytes p @ le16_bytes v @ [of_nat (length vs), of_nat (length ps)] @ vs @ ps"
| "contents_bytes (OtherContents _ data) = data"

fun contents_ok :: "hat_contents \<Rightarrow> bool" where
  "contents_ok (VendorContents u p v vs ps) \<longleftrightarrow> length u = 16 \<and> length vs < 256 \<and> length ps < 256"
| "contents_ok (OtherContents t _) \<longleftrightarrow> t \<noteq> VendorInfo"

definition hat_atom_body :: "hat_atom \<Rightarrow> u8 list" where
  "hat_atom_body a = atom_body (contents_type (hat_contents a)) (hat_number a) (contents_bytes (hat_contents a))"

definition hat_atom_bytes :: "hat_atom \<Rightarrow> u8 list" where
  "hat_atom_bytes a = hat_atom_body a @ le16_bytes (hat_checksum a)"

definition hat_header_bytes :: "u8 \<Rightarrow> u8 \<Rightarrow> u16 \<Rightarrow> u32 \<Rightarrow> u8 list" where
  "hat_header_bytes v r n l = [0x52, 0x2d, 0x50, 0x69, v, r] @ le16_bytes n @ le32_bytes l"

text \<open>What is wrong with an image: the failures the check has to count.\<close>

definition checksum_ok :: "hat_atom \<Rightarrow> bool" where
  "checksum_ok a \<longleftrightarrow> foldl hat_crc_byte 0 (hat_atom_body a) = hat_checksum a"

fun contents_failures :: "hat_contents \<Rightarrow> nat" where
  "contents_failures (VendorContents u p v vs ps) =
     (if vs = expectedRiPiHatVendor then 0 else 1) + (if ps = expectedRiPiHatProduct then 0 else 1)"
| "contents_failures (OtherContents _ _) = 0"

definition atom_failures :: "nat \<times> hat_atom \<Rightarrow> nat" where
  "atom_failures = (\<lambda>(i, a). (if unat (hat_number a) = i then 0 else 1) + contents_failures (hat_contents a))"

definition hat_failures :: "u32 \<Rightarrow> nat \<Rightarrow> hat_atom list \<Rightarrow> nat" where
  "hat_failures len size' atoms =
    (if size' < unat len then 1
     else let good = takeWhile checksum_ok atoms
       in sum_list (map atom_failures (enumerate 0 good)) +
          (if length good < length atoms then 1
           else if unat len = 12 + length (concat (map hat_atom_bytes atoms)) then 0 else 1))"

lemma read_bytes_at: "at_index buf i (xs @ ys) \<Longrightarrow> read_bytes buf i (length xs) = Some xs"
proof (induction xs arbitrary: i)
  case (Cons x xs)
  then show ?case using at_index_Cons [of buf i x "xs @ ys"] by simp
qed simp

lemma buf_cmp_eq: "at_index buf i (ys @ zs) \<Longrightarrow> length ys = length xs \<Longrightarrow> buf_cmp buf i xs = Some (ys = xs)"
proof (induction xs arbitrary: i ys)
  case (Cons x xs)
  then obtain y ys' where "ys = y # ys'" "length ys' = length xs" by (cases ys) auto
  then show ?case using Cons.IH [of "i + 1" ys'] at_index_Cons [of buf i y "ys' @ zs"] Cons.prems(1) by auto
qed simp

text \<open>The checks of a vendor atom.\<close>

lemma vendor_check_at:
  assumes at: "at_index buf i (contents_bytes (VendorContents u p v vs ps) @ rest)"
    and ok: "contents_ok (VendorContents u p v vs ps)" and b: "length buf < 2 ^ 32"
  shows "vendor_check buf (of_nat (length buf)) i raw = Some (True, contents_failures (VendorContents u p v vs ps))"
proof -
  have len: "length u = 16" "length vs < 256" "length ps < 256" using ok by simp_all
  let ?xs = "contents_bytes (VendorContents u p v vs ps) @ rest"
  have fit: "unat i + 22 + length vs + length ps \<le> length buf"
    using at len unfolding at_index_def by (auto simp: le16_bytes_def)
  have bu: "unat (of_nat (length buf) :: u32) = length buf" using b by (simp add: unat_of_nat)
  have w: "unat (of_nat (length vs) :: u8) = length vs" "unat (of_nat (length ps) :: u8) = length ps"
    using len by (simp_all add: unat_of_nat)
  have wu: "(ucast (of_nat (length vs) :: u8) :: u32) = of_nat (length vs)" "(ucast (of_nat (length ps) :: u8) :: u32) = of_nat (length ps)"
    using w by (metis unsigned_of_nat of_nat_unat ucast_id)+
  have 1: "read_bytes buf i 16 = Some u" using read_bytes_at [of buf i u] at len(1) by auto
  have d: "at_index buf (i + 16) (drop 16 ?xs)" "at_index buf (i + 18) (drop 18 ?xs)" "at_index buf (i + 20) (drop 20 ?xs)"
      "at_index buf (i + 21) (drop 21 ?xs)" "at_index buf (i + 22) (drop 22 ?xs)"
      "at_index buf (i + 22 + of_nat (length vs)) (drop (22 + length vs) ?xs)"
    using at_index_drop [OF at, of 16] at_index_drop [OF at, of 18] at_index_drop [OF at, of 20] at_index_drop [OF at, of 21]
      at_index_drop [OF at, of 22] at_index_drop [OF at, of "22 + length vs"] len by (simp_all add: le16_bytes_def add.assoc)
  have x: "drop 16 ?xs = le16_bytes p @ drop 18 ?xs" "drop 18 ?xs = le16_bytes v @ drop 20 ?xs"
     "drop 20 ?xs = of_nat (length vs) # drop 21 ?xs" "drop 21 ?xs = of_nat (length ps) # drop 22 ?xs"
     "drop 22 ?xs = vs @ ps @ rest"
    using len(1) by (simp_all add: le16_bytes_def)
  have x6: "drop (22 + length vs) ?xs = ps @ rest"
    using arg_cong [OF x(5), of "drop (length vs)"] by (simp only: drop_drop add.commute [of 22]) simp
  have r: "read_buf_16b buf (i + 16) = Some p" "read_buf_16b buf (i + 18) = Some v"
    using d(1,2) unfolding x(1,2) le16_bytes_def append.simps by (simp_all add: read_buf_16b_at le16_bytes_join)
  have l: "rd buf (i + 20) = Some (of_nat (length vs))" "rd buf (i + 21) = Some (of_nat (length ps))"
    using d(3,4) unfolding x(3,4) by (auto dest: at_index_Cons(1))
  have u: "unat (i + 22) = unat i + 22" "unat (i + 22 + of_nat (length vs) + of_nat (length ps)) = unat i + 22 + length vs + length ps"
    using fit b unat_add_num [of i] unat_add_in [of i "22 + length vs + length ps"] by (simp_all add: add.assoc)
  have p: "parse_vendor_info buf i (of_nat (length buf)) raw =
    Some (True, \<lparr>uuid = u, pid = p, pver = v, vendor_str_len = of_nat (length vs), product_str_len = of_nat (length ps)\<rparr>)"
    using fit 1 r l by (simp add: parse_vendor_info_def word_less_nat_alt bu u VendorHeaderLength_def wu Let_def)
  have c: "length vs = length expectedRiPiHatVendor \<Longrightarrow> buf_cmp buf (i + 22) expectedRiPiHatVendor = Some (vs = expectedRiPiHatVendor)"
    "length ps = length expectedRiPiHatProduct \<Longrightarrow>
      buf_cmp buf (i + 22 + of_nat (length vs)) expectedRiPiHatProduct = Some (ps = expectedRiPiHatProduct)"
    using buf_cmp_eq d(5,6) unfolding x(5) x6 by blast+
  show ?thesis
    unfolding vendor_check_def p VendorHeaderLength_def using c w wu by auto
qed

lemma hat_atom_bytes_atom:
  "hat_atom_bytes a = atom_bytes (contents_type (hat_contents a)) (hat_number a) (contents_bytes (hat_contents a)) (hat_checksum a)"
  by (simp add: hat_atom_bytes_def hat_atom_body_def atom_bytes_def)

text \<open>The check of an atom's contents, whatever they are.\<close>

lemma contents_check:
  assumes "at_index buf i (contents_bytes c @ rest)" "contents_ok c" "length buf < 2 ^ 32"
  shows "(if contents_type c = VendorInfo then vendor_check buf (of_nat (length buf)) i raw else Some (True, 0)) =
    Some (True, contents_failures c)"
proof (cases c)
  case (VendorContents u p v vs ps)
  then show ?thesis using vendor_check_at [of buf i u p v vs ps rest raw] assms by simp
next
  case (OtherContents t data)
  then show ?thesis using assms(2) by simp
qed

lemma atoms_loop_image:
  assumes b: "length buf < 2 ^ 32"
  shows "buf = pre @ concat (map hat_atom_bytes atoms) @ post \<Longrightarrow> \<forall>a\<in>set atoms. contents_ok (hat_contents a) \<Longrightarrow>
    atoms_loop buf (of_nat (length buf)) ra rv (length atoms) i (of_nat (length pre)) f =
      (let good = takeWhile checksum_ok atoms; n = f + sum_list (map atom_failures (enumerate i good))
       in Some (if length good < length atoms then Inl (n + 1)
         else Inr (n, of_nat (length (pre @ concat (map hat_atom_bytes atoms))))))"
proof (induction atoms arbitrary: pre i f)
  case (Cons a as)
  let ?c = "hat_contents a" and ?rest = "concat (map hat_atom_bytes as) @ post" and ?i = "of_nat (length pre) :: u32"
  have buf: "buf = pre @ atom_bytes (contents_type ?c) (hat_number a) (contents_bytes ?c) (hat_checksum a) @ ?rest"
    using Cons.prems(1) by (simp add: hat_atom_bytes_atom [of a])
  define info where "info = ra\<lparr>atom_type := contents_type ?c, atom_count := hat_number a,
    atom_length := of_nat (length (contents_bytes ?c) + 2), atom_crc := hat_checksum a\<rparr>"
  have parse: "parse_atom_info buf ?i (of_nat (length buf)) ra = Some (checksum_ok a, info)"
    using parse_atom_info_at [OF buf b, of ra] by (simp add: checksum_ok_def hat_atom_body_def info_def)
  show ?case
  proof (cases "checksum_ok a")
    case False
    then show ?thesis by (simp add: parse)
  next
    case True
    have fit: "length pre + 8 + length (contents_bytes ?c) < 2 ^ 32"
      using b arg_cong [OF buf, of length] by simp
    have "at_index buf (?i + 8) (contents_bytes ?c @ le16_bytes (hat_checksum a) @ ?rest)"
      unfolding at_index_def
      by (rule exI [of _ "pre @ le16_bytes (contents_type ?c) @ le16_bytes (hat_number a) @ le32_bytes (of_nat (length (contents_bytes ?c) + 2))"],
        rule exI [of _ "[]"])
       (use buf b fit in \<open>simp add: atom_bytes_def atom_body_def unat_add_num unat_of_nat le16_bytes_def le32_bytes_def\<close>)
    from contents_check [OF this _ b, of rv] Cons.prems(2)
    have v: "(if contents_type ?c = VendorInfo then vendor_check buf (of_nat (length buf)) (?i + 8) rv else Some (True, 0)) =
      Some (True, contents_failures ?c)" by simp
    have next_i: "?i + (of_nat (length (contents_bytes ?c) + 2) + 8) = of_nat (length (pre @ hat_atom_bytes a))"
      by (simp add: hat_atom_bytes_atom)
    let ?f = "f + atom_failures (i, a)"
    have step: "atoms_loop buf (of_nat (length buf)) ra rv (length (a # as)) i ?i f =
      atoms_loop buf (of_nat (length buf)) ra rv (length as) (Suc i) (of_nat (length (pre @ hat_atom_bytes a))) ?f"
    proof -
      have fields: "atom_type info = contents_type ?c" "atom_count info = hat_number a"
        "atom_length info = of_nat (length (contents_bytes ?c) + 2)" by (simp_all add: info_def)
      have "(if unat (hat_number a) \<noteq> i then f + 1 else f) + contents_failures ?c = ?f" by (simp add: atom_failures_def)
      then show ?thesis
        by (simp only: list.size(4) add_0_right add_Suc_right One_nat_def [symmetric] Suc_eq_plus1 [symmetric] atoms_loop.simps Let_def parse
          Option.bind.simps prod.case True not_True_eq_False if_False if_True fields AtomHeaderLength_def v next_i)
    qed
    have "buf = (pre @ hat_atom_bytes a) @ ?rest" using Cons.prems(1) by simp
    from Cons.IH [OF this, of "Suc i" ?f] Cons.prems(2) show ?thesis
      unfolding step using True by (simp add: Let_def add.assoc)
  qed
qed simp

lemma hat_image_header:
  assumes "buf = hat_header_bytes v r n len @ post" "length buf < 2 ^ 32"
  shows "parse_header buf (of_nat (length buf)) raw =
    Some (\<not> length buf < unat len, \<lparr>signature = [0x52, 0x2d, 0x50, 0x69], version = v, num_atoms = n, eeprom_length = len\<rparr>)"
proof -
  have bu: "unat (of_nat (length buf) :: u32) = length buf" using assms(2) by (simp add: unat_of_nat)
  have l: "12 \<le> length buf" by (simp add: assms(1) hat_header_bytes_def le16_bytes_def le32_bytes_def)
  have at: "at_index buf 0 (hat_header_bytes v r n len @ post)"
    unfolding at_index_def by (rule exI [of _ "[]"], rule exI [of _ "[]"]) (use assms in simp)
  note h = at [unfolded hat_header_bytes_def le16_bytes_def le32_bytes_def append.simps append_assoc]
  have "read_buf_16b buf 6 = Some n" "read_buf_32b buf 8 = Some len"
    using read_buf_16b_at [OF at_index_drop [OF h, of 6, simplified]] read_buf_32b_at [OF at_index_drop [OF h, of 8, simplified]]
    by (simp_all add: le16_bytes_join le32_bytes_join)
  moreover have "rd buf 0 = Some 0x52" "rd buf 1 = Some 0x2d" "rd buf 2 = Some 0x50" "rd buf 3 = Some 0x69" "rd buf 4 = Some v"
    using l by (simp_all add: rd_def) (simp_all add: assms(1) hat_header_bytes_def)
  ultimately show ?thesis using l by (auto simp: parse_header_def word_less_nat_alt bu Let_def)
qed

section \<open>Memory safety\<close>

lemma rd_below: "unat i < length buf \<Longrightarrow> rd buf i \<noteq> None"
  by (simp add: rd_def)

lemma read_bytes_below: "unat i + n \<le> length buf \<Longrightarrow> length buf < 2 ^ 32 \<Longrightarrow> read_bytes buf i n \<noteq> None"
proof (induction n arbitrary: i)
  case (Suc n)
  have "read_bytes buf (i + 1) n \<noteq> None"
    using Suc.IH [of "i + 1"] Suc.prems by (cases "n = 0") (simp_all add: unat_add_1)
  with Suc.prems show ?case by (auto simp: rd_def)
qed simp

lemma read_buf_below:
  "unat i + 2 \<le> length buf \<Longrightarrow> length buf < 2 ^ 32 \<Longrightarrow> \<exists>w. read_buf_16b buf i = Some w"
  "unat i + 4 \<le> length buf \<Longrightarrow> length buf < 2 ^ 32 \<Longrightarrow> \<exists>w. read_buf_32b buf i = Some w"
  using unat_add_1 [of i] unat_add_num [of i "num.Bit0 num.One"] unat_add_num [of i "num.Bit1 num.One"]
  by (simp_all add: read_buf_16b_def read_buf_32b_def rd_def)

section \<open>Properties\<close>

definition blank_atom :: atom_info where
  "blank_atom = \<lparr>atom_type = 0, atom_count = 0, atom_length = 0, atom_crc = 0\<rparr>"

definition blank_vendor :: vendor_atom where
  "blank_vendor = \<lparr>uuid = [], pid = 0, pver = 0, vendor_str_len = 0, product_str_len = 0\<rparr>"

definition blank_header :: eeprom_header where
  "blank_header = \<lparr>signature = [], version = 0, num_atoms = 0, eeprom_length = 0\<rparr>"

definition demo_atom :: "u16 \<Rightarrow> u16 \<Rightarrow> hat_atom" where
  "demo_atom n c = \<lparr>hat_contents = VendorContents (replicate 16 7) 1 2 expectedRiPiHatVendor expectedRiPiHatProduct,
     hat_number = n, hat_checksum = c\<rparr>"

definition demo_other :: "u16 \<Rightarrow> u16 \<Rightarrow> hat_atom" where
  "demo_other n c = \<lparr>hat_contents = OtherContents 2 [3, 4], hat_number = n, hat_checksum = c\<rparr>"

text \<open>
  C32. The check of the identification counts exactly what is wrong with an image. On every image of the form the specification
  prescribes, with any atoms, contents, numbers and checksums, in a buffer of less than 4 GiB, it reports: one failure if the length in
  the header exceeds the buffer; otherwise, for the atoms up to the first with a bad checksum, one for each number out of order, one for
  each wrong vendor and each wrong product string, and one more for the bad checksum or, if there is none, for a length in the
  header that is not that of the image. So it reports no failure exactly for the images in which all of these are right, and it reads
  nothing outside the buffer.
\<close>
theorem hat_check_counts:
  assumes "buf = hat_header_bytes v r (of_nat (length atoms)) len @ concat (map hat_atom_bytes atoms) @ post"
    "length atoms < 2 ^ 16" "length buf < 2 ^ 32" "\<forall>a\<in>set atoms. contents_ok (hat_contents a)"
  shows "i2c_epi_hat_id_epprom_check buf (of_nat (length buf)) rh ra rv = Some (hat_failures len (length buf) atoms)"
proof (cases "length buf < unat len")
  case True
  then show ?thesis
    using hat_image_header [OF assms(1,3), of rh] by (simp add: i2c_epi_hat_id_epprom_check_def hat_failures_def)
next
  case False
  let ?h = "hat_header_bytes v r (of_nat (length atoms)) len" and ?as = "concat (map hat_atom_bytes atoms)"
  have h: "length ?h = 12" by (simp add: hat_header_bytes_def le16_bytes_def le32_bytes_def)
  have n: "unat (of_nat (length atoms) :: u16) = length atoms" using assms(2) by (simp add: unat_of_nat)
  have "length (?h @ ?as) < 2 ^ 32" using assms(1,3) by simp
  then have e: "(of_nat (length (?h @ ?as)) = len) \<longleftrightarrow> unat len = 12 + length ?as"
  proof -
    have "unat (of_nat (length (?h @ ?as)) :: u32) = length (?h @ ?as)"
      using \<open>length (?h @ ?as) < 2 ^ 32\<close> by (simp only: unat_of_nat take_bit_nat_eq_self) simp
    then show ?thesis unfolding word_unat_eq_iff using h by auto
  qed
  from atoms_loop_image [OF assms(3,1,4), of ra rv 0 0] h
  have l: "atoms_loop buf (of_nat (length buf)) ra rv (length atoms) 0 EepromHeaderLength 0 =
    (let good = takeWhile checksum_ok atoms; n = sum_list (map atom_failures (enumerate 0 good))
       in Some (if length good < length atoms then Inl (n + 1) else Inr (n, of_nat (length (?h @ ?as)))))"
    by (simp add: EepromHeaderLength_def)
  show ?thesis
    using False hat_image_header [OF assms(1,3), of rh] e l n
    by (simp add: i2c_epi_hat_id_epprom_check_def hat_failures_def Let_def del: length_append)
qed

text \<open>An image of two atoms with right checksums, the second of which is numbered five instead of one.\<close>

theorem hat_check_counts_witness:
  "\<exists>c0 c1. i2c_epi_hat_id_epprom_check
      (hat_header_bytes 1 0 (of_nat (length [demo_atom 0 c0, demo_other 5 c1])) 77 @
        concat (map hat_atom_bytes [demo_atom 0 c0, demo_other 5 c1]) @ [0xff])
      (of_nat (length (hat_header_bytes 1 0 (of_nat (length [demo_atom 0 c0, demo_other 5 c1])) 77 @
        concat (map hat_atom_bytes [demo_atom 0 c0, demo_other 5 c1]) @ [0xff])))
      blank_header blank_atom blank_vendor = Some 1"
proof -
  let ?c0 = "foldl hat_crc_byte 0 (hat_atom_body (demo_atom 0 0))" and ?c1 = "foldl hat_crc_byte 0 (hat_atom_body (demo_other 5 0))"
  let ?atoms = "[demo_atom 0 ?c0, demo_other 5 ?c1]"
  let ?buf = "hat_header_bytes 1 0 (of_nat (length ?atoms)) 77 @ concat (map hat_atom_bytes ?atoms) @ [0xff]"
  have len: "length (hat_atom_bytes (demo_atom n c)) = 53" "length (hat_atom_bytes (demo_other n c)) = 12" for n c
    by (simp_all add: demo_atom_def demo_other_def hat_atom_bytes_atom expectedRiPiHatVendor_def expectedRiPiHatProduct_def le16_bytes_def)
  have ok: "checksum_ok (demo_atom 0 ?c0)" "checksum_ok (demo_other 5 ?c1)"
    by (simp_all add: checksum_ok_def hat_atom_body_def demo_atom_def demo_other_def)
  have buf: "length ?buf = 78" by (simp add: len) (simp add: hat_header_bytes_def le16_bytes_def le32_bytes_def)
  have "i2c_epi_hat_id_epprom_check ?buf (of_nat (length ?buf)) blank_header blank_atom blank_vendor =
      Some (hat_failures 77 (length ?buf) ?atoms)"
    by (rule hat_check_counts [OF refl]) (use buf in
      \<open>simp_all add: demo_atom_def demo_other_def VendorInfo_def expectedRiPiHatVendor_def expectedRiPiHatProduct_def\<close>)
  moreover have "hat_failures 77 (length ?buf) ?atoms = 1"
  proof -
    have "atom_failures (0, demo_atom 0 ?c0) = 0" "atom_failures (Suc 0, demo_other 5 ?c1) = 1"
      by (simp_all add: atom_failures_def demo_atom_def demo_other_def)
    then show ?thesis unfolding buf using ok by (simp add: hat_failures_def len)
  qed
  ultimately show ?thesis by metis
qed

text \<open>
  The simulated Sense HAT passes its own check: the first KiB of the memory of a newly constructed EEPROM has no failure.
\<close>
theorem hat_image_accepted:
  assumes "1024 \<le> length (mem raw)"
  shows "i2c_epi_hat_id_epprom_check (take 1024 (mem (hat_new raw))) 0x400 rh ra rv = Some 0"
proof -
  have "take 1024 (mem (hat_new raw)) = hat_id"
    using assms by (simp add: hat_new_def hat_busReset_def blit_def length_hat_id)
  then show ?thesis
    by (simp add: i2c_epi_hat_id_epprom_check_def hat_header EepromHeaderLength_def hat_loop)
qed

theorem hat_image_accepted_witness:
  "i2c_epi_hat_id_epprom_check (take 1024 (mem (hat_new \<lparr>hat_byteCount = 0, currAddr = 0, mem = replicate 8192 0\<rparr>))) 0x400
     blank_header blank_atom blank_vendor = Some 0"
  by (rule hat_image_accepted) simp

text \<open>
  Atoms round trip: an atom laid out the way the specification of the EEPROM prescribes, with any type, number and data and
  its checksum, is found by \<open>parse_atom_info\<close> wherever in the buffer it stands, and the fields are the ones stored.
\<close>
theorem atom_roundtrip:
  assumes "buf = pre @ atom_bytes t n data crc @ post" "length buf < 2 ^ 32" "crc = foldl hat_crc_byte 0 (atom_body t n data)"
  shows "parse_atom_info buf (of_nat (length pre)) (of_nat (length buf)) raw =
    Some (True, raw\<lparr>atom_type := t, atom_count := n, atom_length := of_nat (length data + 2), atom_crc := crc\<rparr>)"
  using parse_atom_info_at [OF assms(1,2), of raw] assms(3) by simp

theorem atom_roundtrip_witness:
  "\<exists>crc. parse_atom_info ([7] @ atom_bytes 3 2 [1, 2, 3] crc @ [9]) (of_nat (length [7 :: u8])) (of_nat (length ([7] @ atom_bytes 3 2 [1, 2, 3] crc @ [9]))) blank_atom =
    Some (True, blank_atom\<lparr>atom_type := 3, atom_count := 2, atom_length := of_nat (length [1, 2, 3 :: u8] + 2), atom_crc := crc\<rparr>)"
  by (rule exI [of _ "foldl hat_crc_byte 0 (atom_body 3 2 [1, 2, 3])"], rule atom_roundtrip [OF refl]) simp_all

text \<open>
  C33. The checksum of an atom guards its type, its number and its data: if a single byte of them is damaged, in any way and at any
  position, \<open>parse_atom_info\<close> rejects the atom.
\<close>
theorem atom_rejects_damage:
  assumes "atom_body t n data = p @ a # q" "atom_body t' n' data' = p @ b # q" "a \<noteq> b"
    "crc = foldl hat_crc_byte 0 (atom_body t n data)"
    "buf = pre @ atom_bytes t' n' data' crc @ post" "length buf < 2 ^ 32"
  shows "\<exists>info. parse_atom_info buf (of_nat (length pre)) (of_nat (length buf)) raw = Some (False, info)"
  using parse_atom_info_at [OF assms(5,6), of raw] hat_crc_differs [OF assms(3), of p q] assms(1,2,4) by simp

theorem atom_rejects_damage_witness:
  "\<exists>crc info. parse_atom_info ([] @ atom_bytes 3 2 [1, 5, 3] crc @ []) (of_nat (length ([] :: u8 list))) (of_nat (length ([] @ atom_bytes 3 2 [1, 5, 3] crc @ []))) blank_atom =
     Some (False, info)"
proof -
  let ?p = "take 9 (atom_body 3 2 [1, 2, 3])"
  have "atom_body 3 2 [1, 2, 3] = ?p @ 2 # [3]" "atom_body 3 2 [1, 5, 3] = ?p @ 5 # [3]"
    by (simp_all add: atom_body_def le16_bytes_def le32_bytes_def)
  from atom_rejects_damage [OF this _ refl refl, of "[]" "[]" blank_atom] show ?thesis by auto
qed

text \<open>
  The parsers of the header and of the vendor data never read outside the buffer, whatever it holds: on a buffer of the given
  size, with an index below 2 GiB, they return a verdict.
\<close>
theorem hat_parse_in_bounds:
  assumes "length buf < 2 ^ 32" "unat i < 2 ^ 31"
  shows "(\<exists>r. parse_header buf (of_nat (length buf)) rh = Some r) \<and> (\<exists>r. parse_vendor_info buf i (of_nat (length buf)) rv = Some r)"
proof -
  have b: "unat (of_nat (length buf) :: u32) = length buf" using assms(1) by (simp add: unat_of_nat)
  have "\<exists>r. parse_header buf (of_nat (length buf)) rh = Some r"
  proof (cases "length buf < 12")
    case False
    then obtain n l where "read_buf_16b buf 6 = Some n" "read_buf_32b buf 8 = Some l"
      using read_buf_below(1) [of 6 buf] read_buf_below(2) [of 8 buf] assms(1) by auto
    moreover have "buf \<noteq> []" using False by auto
    ultimately show ?thesis using False by (simp add: parse_header_def word_less_nat_alt b rd_def Let_def) blast
  qed (simp add: parse_header_def word_less_nat_alt b, blast)
  moreover have "\<exists>r. parse_vendor_info buf i (of_nat (length buf)) rv = Some r"
  proof (cases "length buf < unat i + 22")
    case True
    then show ?thesis using assms(2) by (simp add: parse_vendor_info_def word_less_nat_alt b unat_add_num) blast
  next
    case False
    have u: "unat (i + 16) = unat i + 16" "unat (i + 18) = unat i + 18" "unat (i + 20) = unat i + 20" "unat (i + 21) = unat i + 21"
      "unat (i + 22) = unat i + 22"
      using assms(2) by (simp_all add: unat_add_num)
    obtain bs p v where "read_bytes buf i 16 = Some bs" "read_buf_16b buf (i + 16) = Some p" "read_buf_16b buf (i + 18) = Some v"
      using False assms(1) u read_bytes_below [of i 16 buf] read_buf_below(1) [of "i + 16" buf] read_buf_below(1) [of "i + 18" buf] by auto
    with False u show ?thesis by (simp add: parse_vendor_info_def word_less_nat_alt b rd_def Let_def)
  qed
  ultimately show ?thesis by blast
qed

theorem hat_parse_in_bounds_witness:
  "(\<exists>r. parse_header [0x52, 0x2d] (of_nat (length [0x52, 0x2d :: u8])) blank_header = Some r) \<and>
   (\<exists>r. parse_vendor_info [0x52, 0x2d] 1 (of_nat (length [0x52, 0x2d :: u8])) blank_vendor = Some r)"
  by (rule hat_parse_in_bounds) simp_all

text \<open>
  A defect of \<open>parse_atom_info\<close>: the test that the buffer holds the entire atom leaves out the eight bytes of the atom's header. An
  atom that fits into the buffer only without them passes the test, and the checksum is then read outside the buffer.
\<close>
theorem atom_read_overruns:
  assumes "buf = pre @ le16_bytes t @ le16_bytes n @ le32_bytes l @ data" "2 \<le> length data" "length buf < 2 ^ 31"
    "unat l \<le> length data + 8" "length data < unat l"
  shows "parse_atom_info buf (of_nat (length pre)) (of_nat (length buf)) raw = None"
proof -
  let ?i = "of_nat (length pre) :: u32"
  have len: "length buf = length pre + 8 + length data" using assms(1) by (simp add: le16_bytes_def le32_bytes_def)
  have b: "unat (of_nat (length buf) :: u32) = length buf" and i: "unat ?i = length pre"
    using assms(3) len by (simp_all only: unat_of_nat, simp_all)
  have at: "at_index buf ?i (le16_bytes t @ le16_bytes n @ le32_bytes l @ data)"
    unfolding at_index_def using assms(1,3) i len by (intro exI [of _ pre] exI [of _ "[]"]) simp
  note at' = at [unfolded le16_bytes_def le32_bytes_def append.simps]
  have h: "read_buf_16b buf ?i = Some t" "read_buf_16b buf (?i + 2) = Some n" "read_buf_32b buf (?i + 4) = Some l"
    using read_buf_16b_at [OF at'] read_buf_16b_at [OF at_index_drop [OF at', of 2, simplified]]
      read_buf_32b_at [OF at_index_drop [OF at', of 4, simplified]]
    by (simp_all add: le16_bytes_join le32_bytes_join)
  have "unat (?i + 10) = length pre + 10" using i len assms(3) unat_add_num [of ?i] by simp
  moreover have il: "unat (?i + l) = length pre + unat l"
    using i len assms(3,4) by (simp add: unat_word_ariths)
  ultimately have chk: "\<not> ?i + AtomHeaderLength + 2 > of_nat (length buf)" "\<not> ?i + l > of_nat (length buf)"
    unfolding word_less_nat_alt b using len assms(2,4) by (simp_all add: AtomHeaderLength_def add.assoc)
  have e: "?i + AtomHeaderLength + l - 2 = ?i + l + 6" by (simp add: AtomHeaderLength_def)
  have "unat (?i + l + 6) = length pre + unat l + 6" "unat (?i + l + 7) = length pre + unat l + 7"
    using il len assms(3,4) unat_add_num [of "?i + l"] by simp_all
  then have "read_buf_16b buf (?i + AtomHeaderLength + l - 2) = None"
    unfolding e using len assms(5) by (simp add: read_buf_16b_def rd_def add.assoc)
  with chk h show ?thesis by (simp add: parse_atom_info_def)
qed

theorem atom_read_overruns_witness:
  "parse_atom_info ([] @ le16_bytes 1 @ le16_bytes 0 @ le32_bytes 10 @ [0, 0]) (of_nat (length ([] :: u8 list)))
     (of_nat (length ([] @ le16_bytes 1 @ le16_bytes 0 @ le32_bytes 10 @ [0, 0]))) blank_atom = None"
  by (rule atom_read_overruns [OF refl]) (simp_all add: le16_bytes_def le32_bytes_def)

end
