(* ===== verification/Mmio.thy ===== *)
theory Mmio
  imports Prelude "HOL-Library.Monad_Syntax"
begin

text \<open>
  The accesses of the drivers of the older software stack (\<open>sw/legacy/common/dev_access.h\<close>): 32-bit loads and stores, which may both
  change the machine. What is behind an address is not part of the modelled code, so the accesses are a parameter over an
  unspecified machine state.
\<close>

record 's mmio =
  DEV_READ :: "u32 \<Rightarrow> 's \<Rightarrow> u32 \<times> 's"
  DEV_WRITE :: "u32 \<Rightarrow> u32 \<Rightarrow> 's \<Rightarrow> 's"

end
