(* ===== verification/Usb_Device.thy ===== *)
theory Usb_Device
  imports Mmio
begin

unbundle bit_operations_syntax

text \<open>
  The driver of the USB device (\<open>sw/legacy/common/usbdev.c\<close>, \<open>usbdev.h\<close>): the bitmap of packet buffers, the word-based copies
  to and from packet memory, the transmission of a packet and the service routine with the control pipe. The controller is not
  part of the modelled code: \<open>usb_hw\<close> gives the 32-bit loads and stores over an unspecified machine state. An
  array of the caller is its address and its contents. \<open>None\<close> is a call that does not return: an assertion that fails, an
  access past the end of an array, or a controller that stays busy for ever.
\<close>

section \<open>Registers\<close>

type_synonym 's usb_hw = "'s mmio"

definition USBDEV_USBCTRL :: u32 where "USBDEV_USBCTRL = 0x10"
definition USBDEV_EP_OUT_ENABLE :: u32 where "USBDEV_EP_OUT_ENABLE = 0x14"
definition USBDEV_EP_IN_ENABLE :: u32 where "USBDEV_EP_IN_ENABLE = 0x18"
definition USBDEV_USBSTAT :: u32 where "USBDEV_USBSTAT = 0x1C"
definition USBDEV_AVOUTBUFFER :: u32 where "USBDEV_AVOUTBUFFER = 0x20"
definition USBDEV_AVSETUPBUFFER :: u32 where "USBDEV_AVSETUPBUFFER = 0x24"
definition USBDEV_RXFIFO :: u32 where "USBDEV_RXFIFO = 0x28"
definition USBDEV_RXENABLE_SETUP :: u32 where "USBDEV_RXENABLE_SETUP = 0x2C"
definition USBDEV_RXENABLE_OUT :: u32 where "USBDEV_RXENABLE_OUT = 0x30"
definition USBDEV_IN_SENT :: u32 where "USBDEV_IN_SENT = 0x38"
definition USBDEV_OUT_STALL :: u32 where "USBDEV_OUT_STALL = 0x3C"
definition USBDEV_IN_STALL :: u32 where "USBDEV_IN_STALL = 0x40"
definition USBDEV_CONFIGIN_0 :: u32 where "USBDEV_CONFIGIN_0 = 0x44"
definition USBDEV_PHY_CONFIG :: u32 where "USBDEV_PHY_CONFIG = 0x8C"
definition USBDEV_BUFFER :: u32 where "USBDEV_BUFFER = 0x800"
definition USBDEV_CTRL_ENABLE :: u32 where "USBDEV_CTRL_ENABLE = 1"
definition USBDEV_STAT_AV_OUT_FULL :: u32 where "USBDEV_STAT_AV_OUT_FULL = 0x00800000"
definition USBDEV_STAT_RX_DEPTH :: u32 where "USBDEV_STAT_RX_DEPTH = 0x0F000000"
definition USBDEV_STAT_AV_SETUP_FULL :: u32 where "USBDEV_STAT_AV_SETUP_FULL = 0x40000000"
definition USBDEV_CONFIGIN_BUFFER :: u32 where "USBDEV_CONFIGIN_BUFFER = 0x1F"
definition USBDEV_CONFIGIN_RDY :: u32 where "USBDEV_CONFIGIN_RDY = 0x80000000"
definition USBDEV_CONFIGIN_SENDING :: u32 where "USBDEV_CONFIGIN_SENDING = 0x20000000"
definition USBDEV_RXFIFO_BUFFER :: u32 where "USBDEV_RXFIFO_BUFFER = 0x1F"
definition USBDEV_RXFIFO_SIZE :: u32 where "USBDEV_RXFIFO_SIZE = 0x7F00"
definition USBDEV_RXFIFO_SETUP :: u32 where "USBDEV_RXFIFO_SETUP = 0x80000"
definition USBDEV_RXFIFO_EP :: u32 where "USBDEV_RXFIFO_EP = 0xF00000"
definition USBDEV_PHY_CONFIG_USE_DIFF_RCVR :: u32 where "USBDEV_PHY_CONFIG_USE_DIFF_RCVR = 1"

definition USBDEV_MAX_PACKET_LEN :: nat where "USBDEV_MAX_PACKET_LEN = 64"
definition USBDEV_NUM_BUFFERS :: nat where "USBDEV_NUM_BUFFERS = 32"
definition USBDEV_MAX_ENDPOINTS :: nat where "USBDEV_MAX_ENDPOINTS = 12"

section \<open>The state of the driver\<close>

datatype usbdev_dev_state = Device_Reset | Device_Addressed | Device_Configured

datatype usbdev_ctrl_state = Ctrl_Setup | Ctrl_StatusSetAddr | Ctrl_StatusGetDesc | Ctrl_StatusSetConfig

type_synonym carray = "u32 \<times> u8 list"

record usbdev_state =
  usb_base :: u32
  buf_free :: u32
  dev_dscr :: carray
  dev_len :: u8
  cfg_dscr :: carray
  cfg_len :: u16
  test_dscr :: carray
  test_len :: u8
  dev_addr :: u8
  dev_state :: usbdev_dev_state
  ctrl_state :: usbdev_ctrl_state

definition USBDEV_READ :: "'s usb_hw \<Rightarrow> usbdev_state \<Rightarrow> u32 \<Rightarrow> 's \<Rightarrow> u32 \<times> 's" where
  "USBDEV_READ hw u off h = DEV_READ hw (usb_base u + off) h"

definition USBDEV_WRITE :: "'s usb_hw \<Rightarrow> usbdev_state \<Rightarrow> u32 \<Rightarrow> u32 \<Rightarrow> 's \<Rightarrow> 's" where
  "USBDEV_WRITE hw u off d h = DEV_WRITE hw (usb_base u + off) d h"

definition USBDEV_BUF_START :: "usbdev_state \<Rightarrow> u8 \<Rightarrow> u32" where
  "USBDEV_BUF_START u buf = usb_base u + USBDEV_BUFFER + ucast buf * of_nat USBDEV_MAX_PACKET_LEN"

section \<open>Packet buffers\<close>

function buf_alloc_loop :: "nat \<Rightarrow> usbdev_state \<Rightarrow> int \<times> usbdev_state" where
  "buf_alloc_loop b u =
    (if b < USBDEV_NUM_BUFFERS
     then if buf_free u AND push_bit b 1 \<noteq> 0 then (int b, u\<lparr>buf_free := buf_free u AND NOT (push_bit b 1)\<rparr>)
          else buf_alloc_loop (b + 1) u
     else (- 1, u))"
  by pat_completeness auto
termination
  by (relation "measure (\<lambda>(b, u). USBDEV_NUM_BUFFERS - b)") auto

declare buf_alloc_loop.simps [simp del]

definition usbdev_buf_alloc :: "usbdev_state \<Rightarrow> int \<times> usbdev_state" where
  "usbdev_buf_alloc u = buf_alloc_loop 0 u"

definition usbdev_buf_release :: "u8 \<Rightarrow> usbdev_state \<Rightarrow> int \<times> usbdev_state" where
  "usbdev_buf_release buf u =
    (let b_bit = push_bit (unat buf) 1
     in if USBDEV_NUM_BUFFERS \<le> unat buf \<or> buf_free u AND b_bit \<noteq> 0 then (- 1, u)
        else (0, u\<lparr>buf_free := buf_free u OR b_bit\<rparr>))"

declare push_bit_of_1 [simp del]

lemma and_push_bit_1: "(w :: u32) AND push_bit b 1 \<noteq> 0 \<longleftrightarrow> b < 32 \<and> bit w b"
proof
  assume "w AND push_bit b 1 \<noteq> 0"
  then obtain n where "bit (w AND push_bit b 1) n" by (auto simp: bit_eq_iff)
  then show "b < 32 \<and> bit w b" by (auto simp: bit_simps)
next
  assume "b < 32 \<and> bit w b"
  then have "bit (w AND push_bit b 1) b" by (simp add: bit_simps)
  then show "w AND push_bit b 1 \<noteq> 0" by (metis bit_0_eq bot_apply bot_bool_def)
qed

lemma unat_clear_bit: "bit (w :: u32) b \<Longrightarrow> unat (w AND NOT (push_bit b 1)) < unat w"
proof -
  assume b: "bit w b"
  then have "b < 32" using bit_imp_le_length [of w b] by simp
  have "w AND NOT (push_bit b 1) \<noteq> w"
  proof
    assume "w AND NOT (push_bit b 1) = w"
    then have "bit (w AND NOT (push_bit b 1)) b" using b by simp
    then show False using \<open>b < 32\<close> by (simp add: bit_simps)
  qed
  moreover have "w AND NOT (push_bit b 1) \<le> w" by (rule word_and_le2)
  ultimately show ?thesis by (simp add: word_le_nat_alt word_unat_eq_iff)
qed

lemma buf_alloc_loop_less:
  "buf_alloc_loop b u = (i, u') \<Longrightarrow> 0 \<le> i \<Longrightarrow> unat (buf_free u') < unat (buf_free u)"
proof (induction b u arbitrary: i u' rule: buf_alloc_loop.induct)
  case (1 b u)
  show ?case
  proof (cases "b < USBDEV_NUM_BUFFERS \<and> buf_free u AND push_bit b 1 \<noteq> 0")
    case True
    then have "bit (buf_free u) b" by (simp add: and_push_bit_1)
    then show ?thesis using 1(2) True by (auto simp: buf_alloc_loop.simps [of b] unat_clear_bit)
  next
    case False
    then show ?thesis using 1 by (auto simp: buf_alloc_loop.simps [of b] split: if_splits)
  qed
qed

text \<open>The two loops that keep the controller supplied with buffers: each turn takes a buffer from the bitmap.\<close>

function supply_loop :: "'s usb_hw \<Rightarrow> u32 \<Rightarrow> u32 \<Rightarrow> u32 \<Rightarrow> usbdev_state \<Rightarrow> 's \<Rightarrow> u32 \<times> usbdev_state \<times> 's" where
  "supply_loop hw full reg usbstat u h =
    (if usbstat AND full = 0
     then case usbdev_buf_alloc u of (buf, u') \<Rightarrow>
       if buf < 0 then (usbstat, u', h)
       else case USBDEV_READ hw u' USBDEV_USBSTAT (USBDEV_WRITE hw u' reg (of_int buf) h) of (usbstat', h') \<Rightarrow>
         supply_loop hw full reg usbstat' u' h'
     else (usbstat, u, h))"
  by pat_completeness auto
termination
  by (relation "measure (\<lambda>(hw, full, reg, s, u, h). unat (buf_free u))")
    (auto simp: usbdev_buf_alloc_def not_less intro!: buf_alloc_loop_less [OF sym])

declare supply_loop.simps [simp del]

definition usbdev_supply_buffers :: "'s usb_hw \<Rightarrow> usbdev_state \<Rightarrow> 's \<Rightarrow> usbdev_state \<times> 's" where
  "usbdev_supply_buffers hw u h =
    (case USBDEV_READ hw u USBDEV_USBSTAT h of (usbstat, h) \<Rightarrow>
     case supply_loop hw USBDEV_STAT_AV_SETUP_FULL USBDEV_AVSETUPBUFFER usbstat u h of (usbstat, u, h) \<Rightarrow>
     case supply_loop hw USBDEV_STAT_AV_OUT_FULL USBDEV_AVOUTBUFFER usbstat u h of (usbstat, u, h) \<Rightarrow> (u, h))"

section \<open>Endpoints\<close>

definition ep_mask :: "u8 \<Rightarrow> u32" where
  "ep_mask ep = push_bit (unat ep) 1"

definition usbdev_ep_config ::
  "'s usb_hw \<Rightarrow> usbdev_state \<Rightarrow> u8 \<Rightarrow> bool \<Rightarrow> bool \<Rightarrow> bool \<Rightarrow> 's \<Rightarrow> int \<times> 's" where
  "usbdev_ep_config hw u ep inn out setup h =
    (if USBDEV_MAX_ENDPOINTS \<le> unat ep then (- 1, h)
     else case USBDEV_READ hw u USBDEV_EP_OUT_ENABLE h of (out_enable, h) \<Rightarrow>
       case USBDEV_READ hw u USBDEV_EP_IN_ENABLE h of (in_enable, h) \<Rightarrow>
       case USBDEV_READ hw u USBDEV_RXENABLE_SETUP h of (rxsetup_en, h) \<Rightarrow>
       case USBDEV_READ hw u USBDEV_RXENABLE_OUT h of (rxout_en, h) \<Rightarrow>
       let set_ep = (\<lambda>v on. (v AND NOT (ep_mask ep)) OR (if on then ep_mask ep else 0));
           h = USBDEV_WRITE hw u USBDEV_EP_OUT_ENABLE (set_ep out_enable out) h;
           h = USBDEV_WRITE hw u USBDEV_EP_IN_ENABLE (set_ep in_enable inn) h;
           h = USBDEV_WRITE hw u USBDEV_RXENABLE_SETUP (set_ep rxsetup_en setup) h;
           h = USBDEV_WRITE hw u USBDEV_RXENABLE_OUT (set_ep rxout_en out) h
       in (0, h))"

definition usbdev_ep_stalling :: "'s usb_hw \<Rightarrow> usbdev_state \<Rightarrow> u8 \<Rightarrow> bool \<Rightarrow> 's \<Rightarrow> int \<times> 's" where
  "usbdev_ep_stalling hw u ep stalling h =
    (if USBDEV_MAX_ENDPOINTS \<le> unat ep then (- 1, h)
     else case USBDEV_READ hw u USBDEV_OUT_STALL h of (out_stall, h) \<Rightarrow>
       case USBDEV_READ hw u USBDEV_IN_STALL h of (in_stall, h) \<Rightarrow>
       let set_ep = (\<lambda>v. (v AND NOT (ep_mask ep)) OR (if stalling then ep_mask ep else 0));
           h = USBDEV_WRITE hw u USBDEV_OUT_STALL (set_ep out_stall) h;
           h = USBDEV_WRITE hw u USBDEV_IN_STALL (set_ep in_stall) h
       in (0, h))"

definition usbdev_fin :: "'s usb_hw \<Rightarrow> usbdev_state \<Rightarrow> 's \<Rightarrow> int \<times> 's" where
  "usbdev_fin hw u h = (0, USBDEV_WRITE hw u USBDEV_USBCTRL 0 h)"

definition usbdev_init ::
  "'s usb_hw \<Rightarrow> u32 \<Rightarrow> carray \<Rightarrow> u8 \<Rightarrow> carray \<Rightarrow> u16 \<Rightarrow> carray \<Rightarrow> u8 \<Rightarrow> usbdev_state \<Rightarrow> 's \<Rightarrow> int \<times> usbdev_state \<times> 's" where
  "usbdev_init hw bas dev dlen cfg clen test tlen u h =
    (let u = u\<lparr>usb_base := bas, buf_free := ucast (push_bit USBDEV_NUM_BUFFERS 1 - 1 :: u64),
               dev_state := Device_Reset, ctrl_state := Ctrl_Setup\<rparr>;
         h = USBDEV_WRITE hw u USBDEV_PHY_CONFIG USBDEV_PHY_CONFIG_USE_DIFF_RCVR h;
         h = snd (usbdev_ep_config hw u 0 True True True h);
         u = u\<lparr>dev_dscr := dev, dev_len := dlen, cfg_dscr := cfg, cfg_len := clen, test_dscr := test, test_len := tlen\<rparr>
     in case usbdev_supply_buffers hw u h of (u, h) \<Rightarrow> (0, u, USBDEV_WRITE hw u USBDEV_USBCTRL USBDEV_CTRL_ENABLE h))"

section \<open>Packet memory\<close>

text \<open>
  \<open>usbdev_memcpy\<close> advances both pointers in step, so an index \<open>i\<close> stands for the two. A packet is at most 64 bytes: the first
  loop moves 16 bytes a turn, the second a word, and the tail is assembled from (or split into) single bytes because the
  controller accepts whole words only.
\<close>

definition put_word :: "'s usb_hw \<Rightarrow> u32 \<Rightarrow> u8 list \<Rightarrow> nat \<Rightarrow> 's \<Rightarrow> 's option" where
  "put_word hw dp bs i h =
    (if i + 4 \<le> length bs
     then Some (DEV_WRITE hw (dp + of_nat i) (le32 (bs ! i) (bs ! (i + 1)) (bs ! (i + 2)) (bs ! (i + 3))) h) else None)"

function copy16_to :: "'s usb_hw \<Rightarrow> u32 \<Rightarrow> u8 list \<Rightarrow> nat \<Rightarrow> nat \<Rightarrow> 's \<Rightarrow> (nat \<times> 's) option" where
  "copy16_to hw dp bs i e h =
    (if i < e
     then do { h \<leftarrow> put_word hw dp bs i h;
               h \<leftarrow> put_word hw dp bs (i + 4) h;
               h \<leftarrow> put_word hw dp bs (i + 8) h;
               h \<leftarrow> put_word hw dp bs (i + 12) h;
               copy16_to hw dp bs (i + 16) e h }
     else Some (i, h))"
  by pat_completeness auto
termination
  by (relation "measure (\<lambda>(hw, dp, bs, i, e, h). e - i)") auto

lemma unat_minus_4: "4 \<le> (len :: u8) \<Longrightarrow> unat (len - 4) = unat len - 4"
  by (simp add: unat_sub)

lemma unat_minus_4_less: "4 \<le> (len :: u8) \<Longrightarrow> unat (len - 4) < unat len"
  by (simp add: unat_minus_4 word_le_nat_alt)

function copy4_to :: "'s usb_hw \<Rightarrow> u32 \<Rightarrow> u8 list \<Rightarrow> nat \<Rightarrow> u8 \<Rightarrow> 's \<Rightarrow> (nat \<times> u8 \<times> 's) option" where
  "copy4_to hw dp bs i len h =
    (if 4 \<le> len then do { h \<leftarrow> put_word hw dp bs i h; copy4_to hw dp bs (i + 4) (len - 4) h } else Some (i, len, h))"
  by pat_completeness auto
termination
  by (relation "measure (\<lambda>(hw, dp, bs, i, len, h). unat len)") (auto simp: unat_minus_4_less)

definition tail_to :: "'s usb_hw \<Rightarrow> u32 \<Rightarrow> u8 list \<Rightarrow> nat \<Rightarrow> u8 \<Rightarrow> 's \<Rightarrow> 's option" where
  "tail_to hw dp bs i len h =
    (if i + unat len \<le> length bs
     then let d = ucast (bs ! i);
              d = (if 1 < len then d OR push_bit 8 (ucast (bs ! (i + 1))) else d);
              d = (if 2 < len then d OR push_bit 16 (ucast (bs ! (i + 2))) else d)
          in Some (DEV_WRITE hw (dp + of_nat i) d h)
     else None)"

definition usbdev_memcpy_to :: "'s usb_hw \<Rightarrow> u32 \<Rightarrow> u8 list \<Rightarrow> u8 \<Rightarrow> 's \<Rightarrow> 's option" where
  "usbdev_memcpy_to hw dp bs len h =
    do { (i, h) \<leftarrow> copy16_to hw dp bs 0 (unat (len AND NOT 15)) h;
         (i, len, h) \<leftarrow> copy4_to hw dp bs i (len AND 15) h;
         if 0 < len then tail_to hw dp bs i len h else Some h }"

definition get_word :: "'s usb_hw \<Rightarrow> u32 \<Rightarrow> nat \<Rightarrow> u8 list \<times> 's \<Rightarrow> (u8 list \<times> 's) option" where
  "get_word hw sp i = (\<lambda>(dst, h).
    if i + 4 \<le> length dst
    then case DEV_READ hw (sp + of_nat i) h of (w, h) \<Rightarrow>
      Some (blit dst i [ucast w, ucast (drop_bit 8 w), ucast (drop_bit 16 w), ucast (drop_bit 24 w)], h)
    else None)"

function copy16_from :: "'s usb_hw \<Rightarrow> u32 \<Rightarrow> nat \<Rightarrow> nat \<Rightarrow> u8 list \<times> 's \<Rightarrow> (nat \<times> u8 list \<times> 's) option" where
  "copy16_from hw sp i e s =
    (if i < e
     then do { s \<leftarrow> get_word hw sp i s;
               s \<leftarrow> get_word hw sp (i + 4) s;
               s \<leftarrow> get_word hw sp (i + 8) s;
               s \<leftarrow> get_word hw sp (i + 12) s;
               copy16_from hw sp (i + 16) e s }
     else Some (i, s))"
  by pat_completeness auto
termination
  by (relation "measure (\<lambda>(hw, sp, i, e, s). e - i)") auto

function copy4_from :: "'s usb_hw \<Rightarrow> u32 \<Rightarrow> nat \<Rightarrow> u8 \<Rightarrow> u8 list \<times> 's \<Rightarrow> (nat \<times> u8 \<times> u8 list \<times> 's) option" where
  "copy4_from hw sp i len s =
    (if 4 \<le> len then do { s \<leftarrow> get_word hw sp i s; copy4_from hw sp (i + 4) (len - 4) s } else Some (i, len, s))"
  by pat_completeness auto
termination
  by (relation "measure (\<lambda>(hw, sp, i, len, s). unat len)") (auto simp: unat_minus_4_less)

declare copy16_to.simps [simp del] copy4_to.simps [simp del] copy16_from.simps [simp del] copy4_from.simps [simp del]

definition tail_from :: "'s usb_hw \<Rightarrow> u32 \<Rightarrow> nat \<Rightarrow> u8 \<Rightarrow> u8 list \<times> 's \<Rightarrow> (u8 list \<times> 's) option" where
  "tail_from hw sp i len = (\<lambda>(dst, h).
    if i + unat len \<le> length dst
    then case DEV_READ hw (sp + of_nat i) h of (s, h) \<Rightarrow>
      let dst = dst[i := ucast s];
          dst = (if 1 < len then dst[i + 1 := ucast (drop_bit 8 s)] else dst);
          dst = (if 2 < len then dst[i + 2 := ucast (drop_bit 16 s)] else dst)
      in Some (dst, h)
    else None)"

definition usbdev_memcpy_from :: "'s usb_hw \<Rightarrow> u32 \<Rightarrow> u8 list \<Rightarrow> u8 \<Rightarrow> 's \<Rightarrow> (u8 list \<times> 's) option" where
  "usbdev_memcpy_from hw sp dst len h =
    do { (i, s) \<leftarrow> copy16_from hw sp 0 (unat (len AND NOT 15)) (dst, h);
         (i, len, s) \<leftarrow> copy4_from hw sp i (len AND 15) s;
         if 0 < len then tail_from hw sp i len s else Some s }"

definition usbdev_buf_read :: "'s usb_hw \<Rightarrow> usbdev_state \<Rightarrow> carray \<Rightarrow> u8 \<Rightarrow> u8 \<Rightarrow> 's \<Rightarrow> (u8 list \<times> 's) option" where
  "usbdev_buf_read hw u dp buf len h =
    (if fst dp AND 3 = 0 \<and> unat buf < USBDEV_NUM_BUFFERS \<and> unat len \<le> USBDEV_MAX_PACKET_LEN
     then usbdev_memcpy_from hw (USBDEV_BUF_START u buf) (snd dp) len h else None)"

definition usbdev_buf_write :: "'s usb_hw \<Rightarrow> usbdev_state \<Rightarrow> u8 \<Rightarrow> carray \<Rightarrow> u8 \<Rightarrow> 's \<Rightarrow> 's option" where
  "usbdev_buf_write hw u buf sp len h =
    (if fst sp AND 3 = 0 \<and> unat buf < USBDEV_NUM_BUFFERS \<and> unat len \<le> USBDEV_MAX_PACKET_LEN
     then usbdev_memcpy_to hw (USBDEV_BUF_START u buf) (snd sp) len h else None)"

section \<open>Sending a packet\<close>

definition configin_offset :: "u8 \<Rightarrow> u32" where
  "configin_offset ep = USBDEV_CONFIGIN_0 + push_bit 2 (ucast ep)"

text \<open>The loop that waits while a packet is being collected; a controller that never ends it makes it \<open>None\<close>.\<close>

partial_function (option) await_sending :: "'s usb_hw \<Rightarrow> u32 \<Rightarrow> u32 \<Rightarrow> 's \<Rightarrow> (u32 \<times> 's) option" where
  "await_sending hw addr inn h =
    (if inn AND USBDEV_CONFIGIN_SENDING \<noteq> 0
     then case DEV_READ hw addr h of (inn, h) \<Rightarrow> await_sending hw addr inn h
     else Some (inn, h))"

definition usbdev_retract :: "'s usb_hw \<Rightarrow> u8 \<Rightarrow> usbdev_state \<Rightarrow> 's \<Rightarrow> (usbdev_state \<times> 's) option" where
  "usbdev_retract hw ep u h =
    (case USBDEV_READ hw u (configin_offset ep) h of (inn, h) \<Rightarrow>
     if inn AND USBDEV_CONFIGIN_RDY \<noteq> 0
     then case USBDEV_READ hw u (configin_offset ep)
                 (USBDEV_WRITE hw u (configin_offset ep) (inn AND NOT USBDEV_CONFIGIN_RDY) h) of (inn, h) \<Rightarrow>
       do { (inn, h) \<leftarrow> await_sending hw (usb_base u + configin_offset ep) inn h;
            Some (snd (usbdev_buf_release (ucast (inn AND USBDEV_CONFIGIN_BUFFER)) u), h) }
     else Some (u, h))"

definition usbdev_packet_send ::
  "'s usb_hw \<Rightarrow> u8 \<Rightarrow> u8 \<Rightarrow> carray \<Rightarrow> u8 \<Rightarrow> usbdev_state \<Rightarrow> 's \<Rightarrow> (int \<times> usbdev_state \<times> 's) option" where
  "usbdev_packet_send hw ep buf sp len u h =
    do { (u, h) \<leftarrow> usbdev_retract hw ep u h;
         h \<leftarrow> usbdev_buf_write hw u buf sp len h;
         let inn = push_bit 8 (ucast len) OR ucast buf;
         Some (0, u, USBDEV_WRITE hw u (configin_offset ep) (inn OR USBDEV_CONFIGIN_RDY) h) }"

section \<open>The control pipe and the service routine\<close>

definition kUsbSetupReqSetAddress :: u8 where "kUsbSetupReqSetAddress = 5"
definition kUsbSetupReqGetDescriptor :: u8 where "kUsbSetupReqGetDescriptor = 6"
definition kUsbSetupReqSetConfiguration :: u8 where "kUsbSetupReqSetConfiguration = 9"
definition kUsbDescTypeDevice :: u8 where "kUsbDescTypeDevice = 1"
definition kUsbDescTypeConfiguration :: u8 where "kUsbDescTypeConfiguration = 2"
definition kVendorSetupReqTestConfig :: u8 where "kVendorSetupReqTestConfig = 0x7C"

text \<open>A reply on endpoint zero: send the packet in the buffer of the request, go to the next state, keep the buffer.\<close>

definition ep0_reply ::
  "'s usb_hw \<Rightarrow> u8 \<Rightarrow> carray \<Rightarrow> u16 \<Rightarrow> usbdev_ctrl_state \<Rightarrow> usbdev_state \<Rightarrow> 's \<Rightarrow> (bool \<times> usbdev_state \<times> 's) option" where
  "ep0_reply hw buf sp wLen next u h =
    do { (r, u, h) \<leftarrow> usbdev_packet_send hw 0 buf sp (ucast wLen) u h; Some (False, u\<lparr>ctrl_state := next\<rparr>, h) }"

definition clamp_len :: "u16 \<Rightarrow> u16 \<Rightarrow> u16" where
  "clamp_len wLen n = (if wLen > n then n else wLen)"

definition ep0_request ::
  "'s usb_hw \<Rightarrow> u8 \<Rightarrow> u8 list \<Rightarrow> usbdev_state \<Rightarrow> 's \<Rightarrow> (bool \<times> usbdev_state \<times> 's) option" where
  "ep0_request hw buf data u h =
    (let wValue = le16 (data ! 2) (data ! 3); wLen = le16 (data ! 6) (data ! 7) in
     if data ! 1 = kUsbSetupReqGetDescriptor then
       if data ! 3 = kUsbDescTypeDevice then
         ep0_reply hw buf (dev_dscr u) (clamp_len wLen (ucast (dev_len u))) Ctrl_StatusGetDesc u h
       else if data ! 3 = kUsbDescTypeConfiguration then
         ep0_reply hw buf (cfg_dscr u) (clamp_len wLen (cfg_len u)) Ctrl_StatusGetDesc u h
       else Some (True, u, snd (usbdev_ep_stalling hw u 0 True h))
     else if data ! 1 = kUsbSetupReqSetAddress then
       ep0_reply hw buf (0, data) 0 Ctrl_StatusSetAddr (u\<lparr>dev_addr := ucast wValue\<rparr>) h
     else if data ! 1 = kUsbSetupReqSetConfiguration then
       ep0_reply hw buf (0, data) 0 Ctrl_StatusSetConfig u h
     else if data ! 1 = kVendorSetupReqTestConfig then
       ep0_reply hw buf (test_dscr u) (clamp_len wLen (ucast (test_len u))) Ctrl_StatusGetDesc u h
     else Some (True, u\<lparr>ctrl_state := Ctrl_Setup\<rparr>, h))"

text \<open>The local array \<open>data\<close> is aligned by its declaration; all eight bytes are overwritten by the packet.\<close>

definition usbdev_ep0_recv ::
  "'s usb_hw \<Rightarrow> bool \<Rightarrow> u8 \<Rightarrow> u8 \<Rightarrow> usbdev_state \<Rightarrow> 's \<Rightarrow> (bool \<times> usbdev_state \<times> 's) option" where
  "usbdev_ep0_recv hw setup buf sz u h =
    (case ctrl_state u of
       Ctrl_Setup \<Rightarrow>
         if setup \<and> sz = 8
         then do { (data, h) \<leftarrow> usbdev_buf_read hw u (0, replicate 8 0) buf sz h; ep0_request hw buf data u h }
         else Some (True, u, h)
     | _ \<Rightarrow> Some (True, u\<lparr>ctrl_state := Ctrl_Setup\<rparr>, h))"

definition usbdev_ep0_sent :: "'s usb_hw \<Rightarrow> usbdev_state \<Rightarrow> 's \<Rightarrow> bool \<times> usbdev_state \<times> 's" where
  "usbdev_ep0_sent hw u h =
    (case ctrl_state u of
       Ctrl_StatusSetAddr \<Rightarrow>
         (True, u\<lparr>dev_state := Device_Addressed, ctrl_state := Ctrl_Setup\<rparr>,
          USBDEV_WRITE hw u USBDEV_USBCTRL (push_bit 16 (ucast (dev_addr u)) OR USBDEV_CTRL_ENABLE) h)
     | Ctrl_StatusSetConfig \<Rightarrow> (True, u\<lparr>dev_state := Device_Configured, ctrl_state := Ctrl_Setup\<rparr>, h)
     | _ \<Rightarrow> (True, u\<lparr>ctrl_state := Ctrl_Setup\<rparr>, h))"

text \<open>One endpoint whose packet has been sent, and the loop over the endpoints.\<close>

definition sent_ep :: "'s usb_hw \<Rightarrow> u8 \<Rightarrow> usbdev_state \<Rightarrow> 's \<Rightarrow> usbdev_state \<times> 's" where
  "sent_ep hw ep u h =
    (case USBDEV_READ hw u (configin_offset ep) h of (inn, h) \<Rightarrow>
     let buf = ucast (inn AND USBDEV_CONFIGIN_BUFFER) in
     case (if ep = 0 then usbdev_ep0_sent hw u h else (True, u, h)) of (release, u, h) \<Rightarrow>
       (if release then snd (usbdev_buf_release buf u) else u, h))"

function sent_loop :: "'s usb_hw \<Rightarrow> u32 \<Rightarrow> nat \<Rightarrow> usbdev_state \<Rightarrow> 's \<Rightarrow> usbdev_state \<times> 's" where
  "sent_loop hw sent ep u h =
    (if sent \<noteq> 0 \<and> ep < USBDEV_MAX_ENDPOINTS
     then if sent AND push_bit ep 1 \<noteq> 0
          then case sent_ep hw (of_nat ep) u h of (u, h) \<Rightarrow> sent_loop hw (sent AND NOT (push_bit ep 1)) (ep + 1) u h
          else sent_loop hw sent (ep + 1) u h
     else (u, h))"
  by pat_completeness auto
termination
  by (relation "measure (\<lambda>(hw, sent, ep, u, h). USBDEV_MAX_ENDPOINTS - ep)") auto

declare sent_loop.simps [simp del]

definition usbdev_service_sending :: "'s usb_hw \<Rightarrow> usbdev_state \<Rightarrow> 's \<Rightarrow> usbdev_state \<times> 's" where
  "usbdev_service_sending hw u h =
    (case USBDEV_READ hw u USBDEV_IN_SENT h of (sent, h) \<Rightarrow>
     if sent \<noteq> 0 then sent_loop hw sent 0 u (USBDEV_WRITE hw u USBDEV_IN_SENT sent h) else (u, h))"

definition usbdev_service_recving :: "'s usb_hw \<Rightarrow> usbdev_state \<Rightarrow> 's \<Rightarrow> (usbdev_state \<times> 's) option" where
  "usbdev_service_recving hw u h =
    (case USBDEV_READ hw u USBDEV_USBSTAT h of (usbstat, h) \<Rightarrow>
     if usbstat AND USBDEV_STAT_RX_DEPTH \<noteq> 0
     then case USBDEV_READ hw u USBDEV_RXFIFO h of (rxfifo, h) \<Rightarrow>
       let setup = rxfifo AND USBDEV_RXFIFO_SETUP \<noteq> 0;
           buf = ucast (rxfifo AND USBDEV_RXFIFO_BUFFER);
           sz = ucast (drop_bit 8 (rxfifo AND USBDEV_RXFIFO_SIZE));
           ep = ucast (drop_bit 20 (rxfifo AND USBDEV_RXFIFO_EP)) :: u8
       in do { (release, u, h) \<leftarrow> (if ep = 0 then usbdev_ep0_recv hw setup buf sz u h else Some (True, u, h));
               Some (if release then snd (usbdev_buf_release buf u) else u, h) }
     else Some (u, h))"

definition usbdev_service :: "'s usb_hw \<Rightarrow> usbdev_state \<Rightarrow> 's \<Rightarrow> (int \<times> usbdev_state \<times> 's) option" where
  "usbdev_service hw u h =
    (case usbdev_service_sending hw u h of (u, h) \<Rightarrow>
     case usbdev_supply_buffers hw u h of (u, h) \<Rightarrow>
     do { (u, h) \<leftarrow> usbdev_service_recving hw u h; Some (0, u, h) })"

definition usbdev_active :: "usbdev_state \<Rightarrow> bool" where
  "usbdev_active u \<longleftrightarrow> dev_state u = Device_Configured"

end
