(* ===== verification/Usb_Memory.thy ===== *)
theory Usb_Memory
  imports Usb_Device
begin

unbundle bit_operations_syntax

text \<open>
  Correctness of the copies to and from packet memory (\<open>usbdev_memcpy\<close>, \<open>usbdev_buf_read\<close>, \<open>usbdev_buf_write\<close>): the unrolled loops
  are the plain loop over the words, and what is written to a buffer is what is read back from it, for every length a packet
  may have.
\<close>

section \<open>The unrolled loops are the plain loops\<close>

fun puts :: "'s usb_hw \<Rightarrow> u32 \<Rightarrow> u8 list \<Rightarrow> nat \<Rightarrow> nat \<Rightarrow> 's \<Rightarrow> 's option" where
  "puts hw dp bs i 0 h = Some h"
| "puts hw dp bs i (Suc n) h = do { h \<leftarrow> put_word hw dp bs i h; puts hw dp bs (i + 4) n h }"

fun gets :: "'s usb_hw \<Rightarrow> u32 \<Rightarrow> nat \<Rightarrow> nat \<Rightarrow> u8 list \<times> 's \<Rightarrow> (u8 list \<times> 's) option" where
  "gets hw sp i 0 s = Some s"
| "gets hw sp i (Suc n) s = do { s \<leftarrow> get_word hw sp i s; gets hw sp (i + 4) n s }"

lemma unat_eq_of_nat_iff: "unat (w :: u8) = n \<Longrightarrow> w = of_nat n"
  by auto

lemma copy16_to_puts:
  "copy16_to hw dp bs i (i + 16 * k) h = do { h \<leftarrow> puts hw dp bs i (4 * k) h; Some (i + 16 * k, h) }"
proof (induction k arbitrary: i h)
  case 0
  then show ?case by (simp add: copy16_to.simps)
next
  case (Suc k)
  have e: "i + 16 * Suc k = (i + 16) + 16 * k" by simp
  have f: "4 * Suc k = Suc (Suc (Suc (Suc (4 * k))))" by simp
  have IH: "copy16_to hw dp bs (i + 16) (i + (16 + 16 * k)) h = do { h \<leftarrow> puts hw dp bs (i + 16) (4 * k) h; Some (i + (16 + 16 * k), h) }" for h
    using Suc.IH [of "i + 16"] by (simp add: add.assoc)
  show ?case
    by (subst copy16_to.simps) (auto simp: e f IH Option.bind_assoc add.assoc simp del: mult_Suc_right intro!: Option.bind_cong)
qed

lemma copy16_from_gets:
  "copy16_from hw sp i (i + 16 * k) s = do { s \<leftarrow> gets hw sp i (4 * k) s; Some (i + 16 * k, s) }"
proof (induction k arbitrary: i s)
  case 0
  then show ?case by (simp add: copy16_from.simps)
next
  case (Suc k)
  have e: "i + 16 * Suc k = (i + 16) + 16 * k" by simp
  have f: "4 * Suc k = Suc (Suc (Suc (Suc (4 * k))))" by simp
  have IH: "copy16_from hw sp (i + 16) (i + (16 + 16 * k)) s = do { s \<leftarrow> gets hw sp (i + 16) (4 * k) s; Some (i + (16 + 16 * k), s) }" for s
    using Suc.IH [of "i + 16"] by (simp add: add.assoc)
  show ?case
    by (subst copy16_from.simps) (auto simp: e f IH Option.bind_assoc add.assoc simp del: mult_Suc_right intro!: Option.bind_cong)
qed

lemma four_le: "unat (len :: u8) = 4 * k + r \<Longrightarrow> r < 4 \<Longrightarrow> 4 \<le> len \<longleftrightarrow> k \<noteq> 0"
  by (auto simp: word_le_nat_alt)

lemma copy4_to_puts:
  "unat len = 4 * k + r \<Longrightarrow> r < 4 \<Longrightarrow>
    copy4_to hw dp bs i len h = do { h \<leftarrow> puts hw dp bs i k h; Some (i + 4 * k, of_nat r, h) }"
proof (induction k arbitrary: i len h)
  case 0
  then have "len = of_nat r" by (metis add.left_neutral mult_0_right unat_eq_of_nat_iff)
  then show ?case using 0 four_le [OF 0] by (simp add: copy4_to.simps)
next
  case (Suc k)
  have l: "4 \<le> len" using four_le [OF Suc.prems] by simp
  have s: "unat (len - 4) = 4 * k + r" using Suc.prems l by (simp add: unat_minus_4)
  show ?case
    by (subst copy4_to.simps) (auto simp: l Suc.IH [OF s Suc.prems(2)] add.assoc Option.bind_assoc intro!: Option.bind_cong)
qed

lemma copy4_from_gets:
  "unat len = 4 * k + r \<Longrightarrow> r < 4 \<Longrightarrow>
    copy4_from hw sp i len s = do { s \<leftarrow> gets hw sp i k s; Some (i + 4 * k, of_nat r, s) }"
proof (induction k arbitrary: i len s)
  case 0
  then have "len = of_nat r" by (metis add.left_neutral mult_0_right unat_eq_of_nat_iff)
  then show ?case using 0 four_le [OF 0] by (simp add: copy4_from.simps)
next
  case (Suc k)
  have l: "4 \<le> len" using four_le [OF Suc.prems] by simp
  have s: "unat (len - 4) = 4 * k + r" using Suc.prems l by (simp add: unat_minus_4)
  show ?case
    by (subst copy4_from.simps) (auto simp: l Suc.IH [OF s Suc.prems(2)] add.assoc Option.bind_assoc intro!: Option.bind_cong)
qed

lemma puts_add: "puts hw dp bs i (m + n) h = do { h \<leftarrow> puts hw dp bs i m h; puts hw dp bs (i + 4 * m) n h }"
  by (induction m arbitrary: i h) (auto simp: Option.bind_assoc add.assoc intro!: Option.bind_cong)

lemma gets_add: "gets hw sp i (m + n) s = do { s \<leftarrow> gets hw sp i m s; gets hw sp (i + 4 * m) n s }"
  by (induction m arbitrary: i s) (auto simp: Option.bind_assoc add.assoc intro!: Option.bind_cong)

lemma unat_and_15: "unat ((len :: u8) AND 15) = unat len mod 16"
proof -
  have "len AND 15 = take_bit 4 len" by (simp add: take_bit_eq_mask mask_eq_exp_minus_1)
  then show ?thesis by (simp only: unsigned_take_bit_eq) (simp add: take_bit_eq_mod)
qed

lemma unat_and_not_15: "unat ((len :: u8) AND NOT 15) = 16 * (unat len div 16)"
proof -
  have "len AND NOT 15 = push_bit 4 (drop_bit 4 len)"
    by (rule bit_word_eqI) (auto simp: bit_simps nat_less_8_cases)
  then show ?thesis
    using unsigned_less [of len, where 'a = nat]
    by (simp only: unsigned_push_bit_eq unsigned_drop_bit_eq) (simp add: push_bit_eq_mult drop_bit_eq_div take_bit_eq_mod)
qed

text \<open>With a remainder of the length modulo four, the words first and then the tail.\<close>

lemma memcpy_to_puts:
  "usbdev_memcpy_to hw dp bs len h =
    do { h \<leftarrow> puts hw dp bs 0 (unat len div 4) h;
         if unat len mod 4 \<noteq> 0 then tail_to hw dp bs (4 * (unat len div 4)) (of_nat (unat len mod 4)) h else Some h }"
proof -
  let ?k = "unat len div 16" and ?m = "unat len mod 16 div 4" and ?r = "unat len mod 4"
  have r: "unat (len AND 15) = 4 * ?m + ?r" unfolding unat_and_15 by presburger
  have n: "unat len div 4 = 4 * ?k + ?m" by presburger
  have z: "(0 :: u8) < of_nat ?r \<longleftrightarrow> ?r \<noteq> 0" 
    by (simp add: word_less_nat_alt unat_of_nat)
  have e: "16 * ?k + 4 * ?m = 4 * (unat len div 4)" by presburger
  have "usbdev_memcpy_to hw dp bs len h = do { h \<leftarrow> puts hw dp bs 0 (4 * ?k + ?m) h;
      if ?r \<noteq> 0 then tail_to hw dp bs (16 * ?k + 4 * ?m) (of_nat ?r) h else Some h }"
    unfolding usbdev_memcpy_to_def unat_and_not_15
    using copy16_to_puts [of hw dp bs 0 ?k h] by (simp add: copy4_to_puts [OF r] puts_add z Option.bind_assoc)
  then show ?thesis by (simp only: e n [symmetric])
qed

lemma memcpy_from_gets:
  "usbdev_memcpy_from hw sp dst len h =
    do { s \<leftarrow> gets hw sp 0 (unat len div 4) (dst, h);
         if unat len mod 4 \<noteq> 0 then tail_from hw sp (4 * (unat len div 4)) (of_nat (unat len mod 4)) s else Some s }"
proof -
  let ?k = "unat len div 16" and ?m = "unat len mod 16 div 4" and ?r = "unat len mod 4"
  have r: "unat (len AND 15) = 4 * ?m + ?r" unfolding unat_and_15 by presburger
  have n: "unat len div 4 = 4 * ?k + ?m" by presburger
  have z: "(0 :: u8) < of_nat ?r \<longleftrightarrow> ?r \<noteq> 0" by (simp add: word_less_nat_alt unat_of_nat)
  have e: "16 * ?k + 4 * ?m = 4 * (unat len div 4)" by presburger
  have "usbdev_memcpy_from hw sp dst len h = do { s \<leftarrow> gets hw sp 0 (4 * ?k + ?m) (dst, h);
      if ?r \<noteq> 0 then tail_from hw sp (16 * ?k + 4 * ?m) (of_nat ?r) s else Some s }"
    unfolding usbdev_memcpy_from_def unat_and_not_15
    using copy16_from_gets [of hw sp 0 ?k "(dst, h)"]
    by (simp add: copy4_from_gets [OF r] gets_add z Option.bind_assoc)
  then show ?thesis by (simp only: e n [symmetric])
qed

section \<open>Packet memory as a memory\<close>

text \<open>
  The hypothesis on the controller: the packet memory, 32 buffers of 16 words from offset \<open>0x800\<close>, keeps what is stored. \<open>mem\<close> is
  the view of it in the machine state.
\<close>

definition packet_word :: "u32 \<Rightarrow> nat \<Rightarrow> u32" where
  "packet_word bas k = bas + USBDEV_BUFFER + of_nat (4 * k)"

definition packet_memory :: "'s usb_hw \<Rightarrow> u32 \<Rightarrow> ('s \<Rightarrow> u32 \<Rightarrow> u32) \<Rightarrow> bool" where
  "packet_memory hw bas mem \<longleftrightarrow> (\<forall>h k v. k < 512 \<longrightarrow>
     mem (DEV_WRITE hw (packet_word bas k) v h) = (mem h)(packet_word bas k := v) \<and>
     fst (DEV_READ hw (packet_word bas k) h) = mem h (packet_word bas k) \<and>
     mem (snd (DEV_READ hw (packet_word bas k) h)) = mem h)"

lemma packet_read:
  "packet_memory hw bas mem \<Longrightarrow> k < 512 \<Longrightarrow>
    \<exists>h'. DEV_READ hw (packet_word bas k) h = (mem h (packet_word bas k), h') \<and> mem h' = mem h"
  unfolding packet_memory_def by (metis prod.collapse)

definition list_word :: "u8 list \<Rightarrow> nat \<Rightarrow> u32" where
  "list_word bs i = le32 (bs ! i) (bs ! (i + 1)) (bs ! (i + 2)) (bs ! (i + 3))"

lemma bit_u8_ge: "8 \<le> n \<Longrightarrow> \<not> bit (a :: u8) n"
  using bit_imp_le_length [of a n] by auto

lemma le32_bytes_of [simp]:
  "ucast (le32 a b c d) = a" "ucast (drop_bit 8 (le32 a b c d)) = b"
  "ucast (drop_bit 16 (le32 a b c d)) = c" "ucast (drop_bit 24 (le32 a b c d)) = d"
  by (rule bit_word_eqI, auto simp: le32_def bit_simps bit_u8_ge)+

lemma buf_word: "USBDEV_BUF_START u buf + of_nat (4 * k) = packet_word (usb_base u) (16 * unat buf + k)"
  by (simp add: USBDEV_BUF_START_def packet_word_def USBDEV_MAX_PACKET_LEN_def algebra_simps)

lemma packet_word_inject: "k < 512 \<Longrightarrow> k' < 512 \<Longrightarrow> packet_word bas k = packet_word bas k' \<longleftrightarrow> k = k'"
proof
  assume k: "k < 512" "k' < 512" and "packet_word bas k = packet_word bas k'"
  then have "(of_nat (4 * k) :: u32) = of_nat (4 * k')" unfolding packet_word_def by (simp only: add_left_cancel)
  then have "unat (of_nat (4 * k) :: u32) = unat (of_nat (4 * k') :: u32)" by simp
  then show "k = k'" using k by (simp only: unat_of_nat) simp
qed simp

fun put_mem :: "u32 \<Rightarrow> u8 list \<Rightarrow> nat \<Rightarrow> nat \<Rightarrow> nat \<Rightarrow> (u32 \<Rightarrow> u32) \<Rightarrow> u32 \<Rightarrow> u32" where
  "put_mem bas bs q k 0 m = m"
| "put_mem bas bs q k (Suc n) m = put_mem bas bs q (k + 1) n (m(packet_word bas (q + k) := list_word bs (4 * k)))"

lemma puts_mem:
  assumes "packet_memory hw (usb_base u) mem"
  shows "4 * (k + n) \<le> length bs \<Longrightarrow> k + n \<le> 16 \<Longrightarrow> unat buf < 32 \<Longrightarrow>
    \<exists>h'. puts hw (USBDEV_BUF_START u buf) bs (4 * k) n h = Some h' \<and>
         mem h' = put_mem (usb_base u) bs (16 * unat buf) k n (mem h)"
proof (induction n arbitrary: k h)
  case 0
  then show ?case by simp
next
  case (Suc n)
  let ?h = "DEV_WRITE hw (packet_word (usb_base u) (16 * unat buf + k)) (list_word bs (4 * k)) h"
  have p: "put_word hw (USBDEV_BUF_START u buf) bs (4 * k) h = Some ?h"
    using Suc.prems by (simp only: put_word_def buf_word list_word_def) simp
  have m: "mem ?h = (mem h)(packet_word (usb_base u) (16 * unat buf + k) := list_word bs (4 * k))"
    using assms Suc.prems unfolding packet_memory_def by simp
  have b: "4 * (k + 1 + n) \<le> length bs" "k + 1 + n \<le> 16" using Suc.prems by auto
  have i: "4 * k + 4 = 4 * (k + 1)" by simp
  show ?case
    using Suc.IH [OF b Suc.prems(3), of ?h, unfolded m] by (simp only: puts.simps put_mem.simps p Option.bind.simps i)
qed

lemma put_mem_other: "(\<And>j. k \<le> j \<Longrightarrow> j < k + n \<Longrightarrow> a \<noteq> packet_word bas (q + j)) \<Longrightarrow> put_mem bas bs q k n m a = m a"
proof (induction n arbitrary: k m)
  case (Suc n)
  have "put_mem bas bs q (k + 1) n (m(packet_word bas (q + k) := list_word bs (4 * k))) a
      = (m(packet_word bas (q + k) := list_word bs (4 * k))) a"
    by (rule Suc.IH) (use Suc.prems in auto)
  then show ?case using Suc.prems [of k] by simp
qed simp

lemma put_mem_at:
  "k \<le> j \<Longrightarrow> j < k + n \<Longrightarrow> q + k + n \<le> 512 \<Longrightarrow> put_mem bas bs q k n m (packet_word bas (q + j)) = list_word bs (4 * j)"
proof (induction n arbitrary: k m)
  case (Suc n)
  show ?case
  proof (cases "j = k")
    case True
    then show ?thesis using Suc.prems by (simp add: put_mem_other packet_word_inject)
  next
    case False
    then show ?thesis using Suc.IH [of "k + 1"] Suc.prems by simp
  qed
qed simp

lemma drop_four:
  "i + 4 \<le> length bs \<Longrightarrow> drop i bs = bs ! i # bs ! (i + 1) # bs ! (i + 2) # bs ! (i + 3) # drop (i + 4) bs"
  by (simp add: Cons_nth_drop_Suc [symmetric] numeral_eq_Suc)

lemma gets_mem:
  assumes "packet_memory hw (usb_base u) mem"
  shows "4 * (k + n) \<le> length bs \<Longrightarrow> 4 * (k + n) \<le> length dst \<Longrightarrow> k + n \<le> 16 \<Longrightarrow> unat buf < 32 \<Longrightarrow>
    (\<And>j. k \<le> j \<Longrightarrow> j < k + n \<Longrightarrow> mem h (packet_word (usb_base u) (16 * unat buf + j)) = list_word bs (4 * j)) \<Longrightarrow>
    \<exists>h'. gets hw (USBDEV_BUF_START u buf) (4 * k) n (dst, h) =
      Some (take (4 * k) dst @ take (4 * n) (drop (4 * k) bs) @ drop (4 * (k + n)) dst, h') \<and> mem h' = mem h"
proof (induction n arbitrary: k h dst)
  case 0
  then show ?case by simp
next
  case (Suc n)
  let ?a = "packet_word (usb_base u) (16 * unat buf + k)"
  let ?d = "blit dst (4 * k) [bs ! (4 * k), bs ! (4 * k + 1), bs ! (4 * k + 2), bs ! (4 * k + 3)]"
  have q: "16 * unat buf + k < 512" using Suc.prems(3,4) by simp
  obtain h1 where r: "DEV_READ hw ?a h = (list_word bs (4 * k), h1)" and m: "mem h1 = mem h"
    using packet_read [OF assms q, of h] Suc.prems(5) [of k] by auto
  have g: "get_word hw (USBDEV_BUF_START u buf) (4 * k) (dst, h) = Some (?d, h1)"
    using Suc.prems r by (simp only: get_word_def buf_word) (simp add: list_word_def)
  have l: "length ?d = length dst" using Suc.prems by (simp add: length_blit)
  have d: "take (4 * (k + 1)) ?d @ take (4 * n) (drop (4 * (k + 1)) bs) @ drop (4 * (k + 1 + n)) ?d =
      take (4 * k) dst @ take (4 * Suc n) (drop (4 * k) bs) @ drop (4 * (k + Suc n)) dst"
  proof -
    let ?w = "[bs ! (4 * k), bs ! (4 * k + 1), bs ! (4 * k + 2), bs ! (4 * k + 3)]"
    have f: "drop (4 * k) bs = ?w @ drop (4 * (k + 1)) bs"
      using drop_four [of "4 * k" bs] Suc.prems(1) by (simp add: add.commute)
    have "take (4 * (k + 1)) ?d = take (4 * k) dst @ ?w"
      using take_blit [of "4 * k" ?w dst] Suc.prems(2) by (simp add: numeral_eq_Suc)
    moreover have "drop (4 * (k + 1 + n)) ?d = drop (4 * (k + Suc n)) dst"
      using drop_blit [of "4 * k" ?w "4 * (k + 1 + n)" dst] Suc.prems(2) by simp
    moreover have "take (4 * Suc n) (drop (4 * k) bs) = ?w @ take (4 * n) (drop (4 * (k + 1)) bs)"
      unfolding f by (subst take_append) simp
    ultimately show ?thesis by (simp only: append_assoc)
  qed
  have b: "4 * (k + 1 + n) \<le> length bs" "4 * (k + 1 + n) \<le> length ?d" "k + 1 + n \<le> 16" using Suc.prems l by auto
  have w: "mem h1 (packet_word (usb_base u) (16 * unat buf + j)) = list_word bs (4 * j)" if "k + 1 \<le> j" "j < k + 1 + n" for j
    using Suc.prems(5) [of j] that m by simp
  have i: "4 * k + 4 = 4 * (k + 1)" by simp
  show ?case
    using Suc.IH [OF b Suc.prems(4) w] by (simp only: gets.simps g Option.bind.simps i d m)
qed

section \<open>Round trip\<close>

text \<open>The word that carries the last one to three bytes.\<close>

definition tail_word :: "u8 list \<Rightarrow> nat \<Rightarrow> nat \<Rightarrow> u32" where
  "tail_word bs i r = le32 (bs ! i) (if 1 < r then bs ! (i + 1) else 0) (if 2 < r then bs ! (i + 2) else 0) 0"

lemma of_nat_u8_less: "r < 4 \<Longrightarrow> (1 < (of_nat r :: u8)) = (1 < r)" "r < 4 \<Longrightarrow> (2 < (of_nat r :: u8)) = (2 < r)"
  by (simp_all add: word_less_nat_alt unat_of_nat)

lemma tail_to_word:
  "i + r \<le> length bs \<Longrightarrow> r < 4 \<Longrightarrow> tail_to hw dp bs i (of_nat r) h = Some (DEV_WRITE hw (dp + of_nat i) (tail_word bs i r) h)"
  by (auto simp: tail_to_def tail_word_def le32_def of_nat_u8_less unat_of_nat Let_def or.assoc)

lemma tail_from_word:
  "i + r \<le> length dst \<Longrightarrow> i + r \<le> length bs \<Longrightarrow> 0 < r \<Longrightarrow> r < 4 \<Longrightarrow> DEV_READ hw (sp + of_nat i) h = (tail_word bs i r, h') \<Longrightarrow>
    tail_from hw sp i (of_nat r) (dst, h) = Some (take i dst @ take r (drop i bs) @ drop (i + r) dst, h')"
proof -
  assume a: "i + r \<le> length dst" "i + r \<le> length bs" "0 < r" "r < 4" "DEV_READ hw (sp + of_nat i) h = (tail_word bs i r, h')"
  then have "r = 1 \<or> r = 2 \<or> r = 3" by auto
  then show ?thesis
    using a by (elim disjE) (auto simp: tail_from_def tail_word_def of_nat_u8_less upd_conv_take_nth_drop nth_append,
      simp_all add: numeral_eq_Suc Cons_nth_drop_Suc [symmetric])
qed

lemma buf_write_read:
  assumes mem: "packet_memory hw (usb_base u) mem"
    and buf: "unat buf < 32" and len: "unat len \<le> 64" "unat len \<le> length bs" "unat len \<le> length dst"
    and al: "sa AND 3 = 0" "da AND 3 = 0"
  shows "\<exists>h1 h2. usbdev_buf_write hw u buf (sa, bs) len h = Some h1 \<and>
    usbdev_buf_read hw u (da, dst) buf len h1 = Some (take (unat len) bs @ drop (unat len) dst, h2) \<and> mem h2 = mem h1 \<and>
    (\<forall>a. (\<forall>k < 16. a \<noteq> packet_word (usb_base u) (16 * unat buf + k)) \<longrightarrow> mem h1 a = mem h a)"
proof -
  let ?n = "unat len div 4" and ?r = "unat len mod 4" and ?b = "usb_base u" and ?q = "16 * unat buf"
  let ?p = "USBDEV_BUF_START u buf"
  have n: "4 * (0 + ?n) \<le> length bs" "4 * (0 + ?n) \<le> length dst" "0 + ?n \<le> 16" using len by auto
  have l: "4 * ?n + ?r = unat len" by simp
  obtain g where g: "puts hw ?p bs 0 ?n h = Some g" "mem g = put_mem ?b bs ?q 0 ?n (mem h)"
    using puts_mem [OF mem n(1,3) buf, of h] by auto
  have other: "mem g a = mem h a" if "\<forall>k < 16. a \<noteq> packet_word ?b (?q + k)" for a
    unfolding g(2) by (rule put_mem_other) (use that n(3) in auto)
  have at: "mem g (packet_word ?b (?q + j)) = list_word bs (4 * j)" if "j < ?n" for j
    unfolding g(2) by (rule put_mem_at) (use that n(3) buf in auto)
  show ?thesis
  proof (cases "?r = 0")
    case True
    obtain g' where g': "gets hw ?p 0 ?n (dst, g) = Some (take (4 * ?n) bs @ drop (4 * ?n) dst, g')" "mem g' = mem g"
      using gets_mem [OF mem n buf, of g] at by auto
    show ?thesis using True g g' other l buf len al
      by (auto simp: usbdev_buf_write_def usbdev_buf_read_def memcpy_to_puts memcpy_from_gets
          USBDEV_NUM_BUFFERS_def USBDEV_MAX_PACKET_LEN_def)
  next
    case False
    then have k: "?n < 16" using len(1) by presburger
    then have "?q + ?n < 512" using buf by linarith
    let ?w = "packet_word ?b (?q + ?n)"
    let ?g = "DEV_WRITE hw ?w (tail_word bs (4 * ?n) ?r) g"
    have t: "tail_to hw ?p bs (4 * ?n) (of_nat ?r) g = Some ?g"
      using tail_to_word [of "4 * ?n" ?r bs hw ?p g] len by (simp only: buf_word l)
    have m: "mem ?g = (mem g)(?w := tail_word bs (4 * ?n) ?r)"
      using mem \<open>?q + ?n < 512\<close> unfolding packet_memory_def by simp
    have at': "mem ?g (packet_word ?b (?q + j)) = list_word bs (4 * j)" if "j < ?n" for j
      using at [OF that] that \<open>?q + ?n < 512\<close> unfolding m by (simp add: packet_word_inject)
    obtain g' where g': "gets hw ?p 0 ?n (dst, ?g) = Some (take (4 * ?n) bs @ drop (4 * ?n) dst, g')" "mem g' = mem ?g"
      using gets_mem [OF mem n buf, of ?g] at' by auto
    obtain g'' where g'': "DEV_READ hw ?w g' = (tail_word bs (4 * ?n) ?r, g'')" "mem g'' = mem g'"
      using packet_read [OF mem \<open>?q + ?n < 512\<close>, of g'] g'(2) m by auto
    let ?d = "take (4 * ?n) bs @ drop (4 * ?n) dst"
    have f: "tail_from hw ?p (4 * ?n) (of_nat ?r) (?d, g')
        = Some (take (4 * ?n) ?d @ take ?r (drop (4 * ?n) bs) @ drop (4 * ?n + ?r) ?d, g'')"
    proof (rule tail_from_word)
      show "4 * ?n + ?r \<le> length ?d" using len by simp
      show "4 * ?n + ?r \<le> length bs" using len by simp
      show "DEV_READ hw (?p + of_nat (4 * ?n)) g' = (tail_word bs (4 * ?n) ?r, g'')" using g''(1) by (simp only: buf_word)
    qed (use False in simp_all)
    have e: "take (4 * ?n) ?d @ take ?r (drop (4 * ?n) bs) @ drop (4 * ?n + ?r) ?d = take (unat len) bs @ drop (unat len) dst"
    proof -
      have "take (4 * ?n + ?r) bs = take (4 * ?n) bs @ take ?r (drop (4 * ?n) bs)" by (rule take_add)
      moreover have "take (4 * ?n) ?d = take (4 * ?n) bs" "drop (4 * ?n + ?r) ?d = drop (4 * ?n + ?r) dst"
        using n by simp_all
      ultimately show ?thesis unfolding l by simp
    qed
    show ?thesis using False g g' g'' t f [unfolded e] other m k buf len al
      by (auto simp: usbdev_buf_write_def usbdev_buf_read_def memcpy_to_puts memcpy_from_gets
          USBDEV_NUM_BUFFERS_def USBDEV_MAX_PACKET_LEN_def)
  qed
qed

text \<open>A machine whose state is the memory itself.\<close>

definition plain_memory :: "(u32 \<Rightarrow> u32) usb_hw" where
  "plain_memory = \<lparr>DEV_READ = (\<lambda>a m. (m a, m)), DEV_WRITE = (\<lambda>a v m. m(a := v))\<rparr>"

lemma plain_memory_packet: "packet_memory plain_memory bas (\<lambda>m. m)"
  by (simp add: packet_memory_def plain_memory_def)

definition blank_usb :: usbdev_state where
  "blank_usb = \<lparr>usb_base = 0x80400000, buf_free = 0xFFFFFFFF, dev_dscr = (0, []), dev_len = 0, cfg_dscr = (0, []), cfg_len = 0,
     test_dscr = (0, []), test_len = 0, dev_addr = 0, dev_state = Device_Reset, ctrl_state = Ctrl_Setup\<rparr>"

text \<open>
  C26. What \<open>usbdev_buf_write\<close> stores in a packet buffer is what \<open>usbdev_buf_read\<close> returns, for every length up to the 64 bytes of
  a packet and whatever the length modulo the word size; bytes of the destination beyond the length are kept, and no word
  outside the buffer changes. Both calls return.
\<close>

theorem usb_buffer_roundtrip:
  assumes mem: "packet_memory hw (usb_base u) mem"
    and buf: "unat buf < 32" and len: "unat len \<le> 64" "unat len \<le> length bs" "unat len \<le> length dst"
    and al: "sa AND 3 = 0" "da AND 3 = 0"
  shows "\<exists>h1 h2. usbdev_buf_write hw u buf (sa, bs) len h = Some h1 \<and>
    usbdev_buf_read hw u (da, dst) buf len h1 = Some (take (unat len) bs @ drop (unat len) dst, h2) \<and> mem h2 = mem h1 \<and>
    (\<forall>a. (\<forall>k < 16. a \<noteq> packet_word (usb_base u) (16 * unat buf + k)) \<longrightarrow> mem h1 a = mem h a)"
  by (rule buf_write_read [OF assms])

lemma usb_buffer_roundtrip_witness:
  "\<exists>h1 h2. usbdev_buf_write plain_memory blank_usb 3 (8, [1, 2, 3, 4, 5, 6, 7]) 7 (\<lambda>a. 0) = Some h1 \<and>
    usbdev_buf_read plain_memory blank_usb (4, replicate 8 0xEE) 3 7 h1 = Some ([1, 2, 3, 4, 5, 6, 7, 0xEE], h2) \<and> h2 = h1 \<and>
    (\<forall>a. (\<forall>k < 16. a \<noteq> packet_word (usb_base blank_usb) (16 * unat (3 :: u8) + k)) \<longrightarrow> h1 a = 0)"
  using usb_buffer_roundtrip [OF plain_memory_packet, where u = blank_usb and buf = 3 and len = 7 and bs = "[1, 2, 3, 4, 5, 6, 7]"
      and dst = "replicate 8 0xEE" and sa = 8 and da = 4 and h = "\<lambda>a. 0"]
  by simp

end
