(* ===== verification/Usb_Service.thy ===== *)
theory Usb_Service
  imports Usb_Memory
begin

unbundle bit_operations_syntax

text \<open>
  The service routine of the USB driver over any controller that keeps the laws of \<open>usb_controller\<close>: every packet buffer is at each
  moment in exactly one place: free for software, held by the controller, or lost with a reply that a SETUP has cancelled; and every
  call returns.
\<close>

section \<open>What the driver relies on\<close>

text \<open>
  The view of a controller: the buffers it holds and will give back (in one of the FIFOs, or at an IN endpoint, waiting or
  collected), the buffer number in each \<open>CONFIGIN\<close> register, and the endpoints with no packet waiting. \<open>ok\<close> is the controller's own
  invariant. The laws are those of the register documentation for what software does; what the host does happens between the calls
  of the driver (\<open>usb_run\<close> below), so it neither collects a packet nor cancels it while software replaces it. The access pairs the
  driver always makes together (status before \<open>RXFIFO\<close>, read and clear of \<open>IN_SENT\<close>) are described together.
\<close>

record usb_view =
  owns :: "nat set"
  in_buf :: "nat \<Rightarrow> nat"
  idle :: "nat \<Rightarrow> bool"

definition CONFIGIN :: "nat \<Rightarrow> u32" where
  "CONFIGIN e = configin_offset (of_nat e)"

definition plain_regs :: "u32 set" where
  "plain_regs = {USBDEV_USBCTRL, USBDEV_EP_OUT_ENABLE, USBDEV_EP_IN_ENABLE, USBDEV_RXENABLE_SETUP, USBDEV_RXENABLE_OUT,
     USBDEV_OUT_STALL, USBDEV_IN_STALL, USBDEV_PHY_CONFIG, USBDEV_USBSTAT} \<union> {USBDEV_BUFFER + of_nat (4 * k) | k. k < 512}"

definition same_view :: "('s \<Rightarrow> usb_view) \<Rightarrow> ('s \<Rightarrow> bool) \<Rightarrow> 's \<Rightarrow> 's \<Rightarrow> bool" where
  "same_view view ok h h' \<longleftrightarrow> view h' = view h \<and> (ok h \<longrightarrow> ok h')"

definition sent_eps :: "u32 \<Rightarrow> nat \<Rightarrow> nat set" where
  "sent_eps s e = {i. e \<le> i \<and> i < 12 \<and> bit s i}"

definition usb_plain_law :: "'s usb_hw \<Rightarrow> u32 \<Rightarrow> ('s \<Rightarrow> usb_view) \<Rightarrow> ('s \<Rightarrow> bool) \<Rightarrow> bool" where
  "usb_plain_law hw bas view ok \<longleftrightarrow>
    (\<forall>h. \<forall>r \<in> plain_regs. (\<forall>v. same_view view ok h (DEV_WRITE hw (bas + r) v h)) \<and> same_view view ok h (snd (DEV_READ hw (bas + r) h)))"

definition usb_supply_law :: "'s usb_hw \<Rightarrow> u32 \<Rightarrow> ('s \<Rightarrow> usb_view) \<Rightarrow> ('s \<Rightarrow> bool) \<Rightarrow> bool" where
  "usb_supply_law hw bas view ok \<longleftrightarrow>
    (\<forall>h b. \<forall>r \<in> {USBDEV_AVSETUPBUFFER, USBDEV_AVOUTBUFFER}. ok h \<and> b < 32 \<and> b \<notin> owns (view h) \<longrightarrow>
       ok (DEV_WRITE hw (bas + r) (of_nat b) h) \<and>
       view (DEV_WRITE hw (bas + r) (of_nat b) h) = (view h)\<lparr>owns := insert b (owns (view h))\<rparr>)"

definition usb_receive_law :: "'s usb_hw \<Rightarrow> u32 \<Rightarrow> ('s \<Rightarrow> usb_view) \<Rightarrow> ('s \<Rightarrow> bool) \<Rightarrow> bool" where
  "usb_receive_law hw bas view ok \<longleftrightarrow>
    (\<forall>h s h1 x h2. ok h \<and> DEV_READ hw (bas + USBDEV_USBSTAT) h = (s, h1) \<and> s AND USBDEV_STAT_RX_DEPTH \<noteq> 0 \<and>
       DEV_READ hw (bas + USBDEV_RXFIFO) h1 = (x, h2) \<longrightarrow>
       ok h2 \<and> unat (x AND USBDEV_RXFIFO_BUFFER) \<in> owns (view h) \<and>
       view h2 = (view h)\<lparr>owns := owns (view h) - {unat (x AND USBDEV_RXFIFO_BUFFER)}\<rparr>)"

definition usb_sent_law :: "'s usb_hw \<Rightarrow> u32 \<Rightarrow> ('s \<Rightarrow> usb_view) \<Rightarrow> ('s \<Rightarrow> bool) \<Rightarrow> bool" where
  "usb_sent_law hw bas view ok \<longleftrightarrow>
    (\<forall>h s h1. ok h \<and> DEV_READ hw (bas + USBDEV_IN_SENT) h = (s, h1) \<longrightarrow>
       (if s = 0 then same_view view ok h h1
        else let h2 = DEV_WRITE hw (bas + USBDEV_IN_SENT) s h1; bufs = in_buf (view h) ` sent_eps s 0
             in ok h2 \<and> inj_on (in_buf (view h)) (sent_eps s 0) \<and> bufs \<subseteq> owns (view h) \<and>
                owns (view h2) = owns (view h) - bufs \<and> in_buf (view h2) = in_buf (view h)))"

definition usb_in_law :: "'s usb_hw \<Rightarrow> u32 \<Rightarrow> ('s \<Rightarrow> usb_view) \<Rightarrow> ('s \<Rightarrow> bool) \<Rightarrow> bool" where
  "usb_in_law hw bas view ok \<longleftrightarrow>
    (\<forall>h e v h1. ok h \<and> e < 12 \<and> DEV_READ hw (bas + CONFIGIN e) h = (v, h1) \<longrightarrow>
       same_view view ok h h1 \<and> unat (v AND USBDEV_CONFIGIN_BUFFER) = in_buf (view h) e \<and>
       (if v AND USBDEV_CONFIGIN_RDY = 0 then idle (view h) e
        else let h2 = DEV_WRITE hw (bas + CONFIGIN e) (v AND NOT USBDEV_CONFIGIN_RDY) h1
             in ok h2 \<and> in_buf (view h) e \<in> owns (view h) \<and>
                view h2 = (view h)\<lparr>owns := owns (view h) - {in_buf (view h) e}, idle := (idle (view h))(e := True)\<rparr>))"

definition usb_present_law :: "'s usb_hw \<Rightarrow> u32 \<Rightarrow> ('s \<Rightarrow> usb_view) \<Rightarrow> ('s \<Rightarrow> bool) \<Rightarrow> bool" where
  "usb_present_law hw bas view ok \<longleftrightarrow>
    (\<forall>h e len b. ok h \<and> e < 12 \<and> idle (view h) e \<and> unat b < 32 \<and> unat b \<notin> owns (view h) \<and> unat len \<le> 64 \<longrightarrow>
       (let h2 = DEV_WRITE hw (bas + CONFIGIN e)
                   ((push_bit 8 (ucast (len :: u8)) OR ucast (b :: u8)) OR USBDEV_CONFIGIN_RDY) h
        in ok h2 \<and> owns (view h2) = insert (unat b) (owns (view h))))"

definition usb_done_law :: "'s usb_hw \<Rightarrow> u32 \<Rightarrow> ('s \<Rightarrow> bool) \<Rightarrow> bool" where
  "usb_done_law hw bas ok \<longleftrightarrow>
    (\<forall>h e. ok h \<and> e < 12 \<longrightarrow> (\<exists>n. let a = bas + CONFIGIN e in
       fst (DEV_READ hw a (((\<lambda>h. snd (DEV_READ hw a h)) ^^ n) h)) AND USBDEV_CONFIGIN_SENDING = 0))"

definition usb_controller :: "'s usb_hw \<Rightarrow> u32 \<Rightarrow> ('s \<Rightarrow> usb_view) \<Rightarrow> ('s \<Rightarrow> bool) \<Rightarrow> bool" where
  "usb_controller hw bas view ok \<longleftrightarrow>
    usb_plain_law hw bas view ok \<and> usb_supply_law hw bas view ok \<and> usb_receive_law hw bas view ok \<and>
    usb_sent_law hw bas view ok \<and> usb_in_law hw bas view ok \<and> usb_present_law hw bas view ok \<and> usb_done_law hw bas ok"

section \<open>The bitmap and the controller\<close>

text \<open>\<open>parted view ok held u h\<close>: a buffer is free exactly if neither the controller nor a call in progress (\<open>held\<close>) has it.\<close>

definition parted :: "('s \<Rightarrow> usb_view) \<Rightarrow> ('s \<Rightarrow> bool) \<Rightarrow> nat set \<Rightarrow> usbdev_state \<Rightarrow> 's \<Rightarrow> bool" where
  "parted view ok held u h \<longleftrightarrow> ok h \<and> held \<inter> owns (view h) = {} \<and>
    (\<forall>b < 32. bit (buf_free u) b \<longleftrightarrow> b \<notin> owns (view h) \<union> held)"

lemma parted_same: "same_view view ok h h' \<Longrightarrow> parted view ok held u h \<Longrightarrow> parted view ok held u h'"
  by (auto simp: same_view_def parted_def)

lemma parted_free: "buf_free u' = buf_free u \<Longrightarrow> parted view ok held u' h \<longleftrightarrow> parted view ok held u h"
  by (simp add: parted_def)

lemma bit_clear: "bit (w AND NOT (push_bit b 1) :: u32) n \<longleftrightarrow> bit w n \<and> n \<noteq> b"
  using bit_imp_le_length [of w n] by (auto simp: bit_simps)

lemma bit_set: "b < 32 \<Longrightarrow> bit (w OR push_bit b 1 :: u32) n \<longleftrightarrow> bit w n \<or> n = b"
  by (auto simp: bit_simps)

lemma buf_alloc_loop_cases:
  "buf_alloc_loop b u = (i, u') \<Longrightarrow>
    (i = - 1 \<and> u' = u \<and> (\<forall>n. b \<le> n \<and> n < 32 \<longrightarrow> \<not> bit (buf_free u) n)) \<or>
    (\<exists>n. b \<le> n \<and> n < 32 \<and> i = int n \<and> bit (buf_free u) n \<and> u' = u\<lparr>buf_free := buf_free u AND NOT (push_bit n 1)\<rparr> \<and>
         (\<forall>m. b \<le> m \<and> m < n \<longrightarrow> \<not> bit (buf_free u) m))"
proof (induction b u arbitrary: i u' rule: buf_alloc_loop.induct)
  case (1 b u)
  show ?case
  proof (cases "b < 32 \<and> \<not> bit (buf_free u) b")
    case True
    then have s: "buf_alloc_loop (b + 1) u = (i, u')"
      using "1.prems" by (simp add: buf_alloc_loop.simps [of b] and_push_bit_1 USBDEV_NUM_BUFFERS_def)
    have "(i = - 1 \<and> u' = u \<and> (\<forall>n. b + 1 \<le> n \<and> n < 32 \<longrightarrow> \<not> bit (buf_free u) n)) \<or>
      (\<exists>n. b + 1 \<le> n \<and> n < 32 \<and> i = int n \<and> bit (buf_free u) n \<and> u' = u\<lparr>buf_free := buf_free u AND NOT (push_bit n 1)\<rparr> \<and>
         (\<forall>m. b + 1 \<le> m \<and> m < n \<longrightarrow> \<not> bit (buf_free u) m))"
      using "1.IH" [OF _ _ s] True by (simp add: and_push_bit_1 USBDEV_NUM_BUFFERS_def)
    then show ?thesis
    proof (elim disjE exE conjE)
      assume "i = - 1" "u' = u" "\<forall>n. b + 1 \<le> n \<and> n < 32 \<longrightarrow> \<not> bit (buf_free u) n"
      then show ?thesis using True by (metis Suc_eq_plus1 le_neq_implies_less less_eq_Suc_le)
    next
      fix n
      assume "b + 1 \<le> n" "n < 32" "i = int n" "bit (buf_free u) n" "u' = u\<lparr>buf_free := buf_free u AND NOT (push_bit n 1)\<rparr>"
        "\<forall>m. b + 1 \<le> m \<and> m < n \<longrightarrow> \<not> bit (buf_free u) m"
      then show ?thesis using True by (intro disjI2 exI [of _ n]) (metis Suc_eq_plus1 Suc_leD le_neq_implies_less less_eq_Suc_le)
    qed
  next
    case False
    then show ?thesis
      using "1.prems" by (auto simp: buf_alloc_loop.simps [of b] and_push_bit_1 USBDEV_NUM_BUFFERS_def split: if_splits)
  qed
qed

lemma parted_alloc:
  assumes "parted view ok held u h" "usbdev_buf_alloc u = (i, u')"
  shows "if i < 0 then u' = u
    else \<exists>b < 32. i = int b \<and> b \<notin> owns (view h) \<and> b \<notin> held \<and> parted view ok (insert b held) u' h \<and>
                  u' = u\<lparr>buf_free := buf_free u'\<rparr>"
proof (cases "i < 0")
  case True
  then show ?thesis using buf_alloc_loop_cases [OF assms(2) [unfolded usbdev_buf_alloc_def]] by auto
next
  case False
  then obtain b where b: "b < 32" "i = int b" "bit (buf_free u) b" "u' = u\<lparr>buf_free := buf_free u AND NOT (push_bit b 1)\<rparr>"
    using buf_alloc_loop_cases [OF assms(2) [unfolded usbdev_buf_alloc_def]] by auto
  then show ?thesis using assms(1) False by (auto simp: parted_def bit_clear)
qed

lemma parted_release:
  "parted view ok held u h \<Longrightarrow> unat buf \<in> held \<Longrightarrow> unat buf < 32 \<Longrightarrow>
    parted view ok (held - {unat buf}) (snd (usbdev_buf_release buf u)) h"
  by (auto simp: parted_def usbdev_buf_release_def Let_def USBDEV_NUM_BUFFERS_def and_push_bit_1 bit_set)

lemma release_fields: "snd (usbdev_buf_release buf u) = u\<lparr>buf_free := buf_free (snd (usbdev_buf_release buf u))\<rparr>"
  by (simp add: usbdev_buf_release_def Let_def)

section \<open>The driver keeps the partition\<close>

text \<open>The members the service routine never changes, and descriptors that fit a packet.\<close>

definition same_config :: "usbdev_state \<Rightarrow> usbdev_state \<Rightarrow> bool" where
  "same_config u u' \<longleftrightarrow> usb_base u' = usb_base u \<and> dev_dscr u' = dev_dscr u \<and> dev_len u' = dev_len u \<and>
    cfg_dscr u' = cfg_dscr u \<and> cfg_len u' = cfg_len u \<and> test_dscr u' = test_dscr u \<and> test_len u' = test_len u"

definition fits :: "carray \<Rightarrow> nat \<Rightarrow> bool" where
  "fits a n \<longleftrightarrow> fst a AND 3 = 0 \<and> n \<le> 64 \<and> n \<le> length (snd a)"

definition dscr_ok :: "usbdev_state \<Rightarrow> bool" where
  "dscr_ok u \<longleftrightarrow> fits (dev_dscr u) (unat (dev_len u)) \<and> fits (cfg_dscr u) (unat (cfg_len u)) \<and> fits (test_dscr u) (unat (test_len u))"

lemma same_config_refl [simp]: "same_config u u"
  by (simp add: same_config_def)

lemma same_config_trans: "same_config u u' \<Longrightarrow> same_config u' u'' \<Longrightarrow> same_config u u''"
  by (simp add: same_config_def)

lemma same_config_base: "same_config u u' \<Longrightarrow> usb_base u' = usb_base u"
  by (simp add: same_config_def)

lemma same_config_dscr: "same_config u u' \<Longrightarrow> dscr_ok u' = dscr_ok u"
  by (simp add: same_config_def dscr_ok_def)

lemma same_config_free: "u' = u\<lparr>buf_free := buf_free u'\<rparr> \<Longrightarrow> same_config u u'"
  by (cases u, cases u') (simp add: same_config_def)

lemma same_config_release [simp]: "same_config u (snd (usbdev_buf_release buf u))"
  by (rule same_config_free) (rule release_fields)

lemma plain_read:
  "usb_plain_law hw bas view ok \<Longrightarrow> r \<in> plain_regs \<Longrightarrow> DEV_READ hw (bas + r) h = (v, h') \<Longrightarrow> same_view view ok h h'"
  unfolding usb_plain_law_def by (metis snd_conv)

lemma plain_write: "usb_plain_law hw bas view ok \<Longrightarrow> r \<in> plain_regs \<Longrightarrow> same_view view ok h (DEV_WRITE hw (bas + r) v h)"
  unfolding usb_plain_law_def by blast

lemma plain_regs_simps [simp]:
  "USBDEV_USBCTRL \<in> plain_regs" "USBDEV_EP_OUT_ENABLE \<in> plain_regs" "USBDEV_EP_IN_ENABLE \<in> plain_regs"
  "USBDEV_RXENABLE_SETUP \<in> plain_regs" "USBDEV_RXENABLE_OUT \<in> plain_regs" "USBDEV_OUT_STALL \<in> plain_regs"
  "USBDEV_IN_STALL \<in> plain_regs" "USBDEV_PHY_CONFIG \<in> plain_regs" "USBDEV_USBSTAT \<in> plain_regs"
  by (simp_all add: plain_regs_def)

lemma free_base: "(v :: usbdev_state) = u\<lparr>buf_free := buf_free v\<rparr> \<Longrightarrow> usb_base v = usb_base u"
  by (rule same_config_base [OF same_config_free])

lemma free_trans: "(v :: usbdev_state) = u\<lparr>buf_free := buf_free v\<rparr> \<Longrightarrow> w = v\<lparr>buf_free := buf_free w\<rparr> \<Longrightarrow> w = u\<lparr>buf_free := buf_free w\<rparr>"
  by (cases u, cases v, cases w) simp

lemma supply_write_parted:
  assumes "usb_supply_law hw bas view ok" "r \<in> {USBDEV_AVSETUPBUFFER, USBDEV_AVOUTBUFFER}"
    "parted view ok (insert b H) u h" "b < 32" "b \<notin> H" "b \<notin> owns (view h)"
  shows "parted view ok H u (DEV_WRITE hw (bas + r) (of_nat b) h)"
proof -
  have "ok h" using assms(3) by (simp add: parted_def)
  then have "ok (DEV_WRITE hw (bas + r) (of_nat b) h)"
    "view (DEV_WRITE hw (bas + r) (of_nat b) h) = (view h)\<lparr>owns := insert b (owns (view h))\<rparr>"
    using assms unfolding usb_supply_law_def by blast+
  then show ?thesis using assms(3,5) by (auto simp: parted_def)
qed

lemma supply_loop_parted:
  assumes laws: "usb_plain_law hw bas view ok" "usb_supply_law hw bas view ok" and r: "r \<in> {USBDEV_AVSETUPBUFFER, USBDEV_AVOUTBUFFER}"
  shows "parted view ok H u h \<Longrightarrow> usb_base u = bas \<Longrightarrow> supply_loop hw full r s u h = (s', u', h') \<Longrightarrow>
    parted view ok H u' h' \<and> u' = u\<lparr>buf_free := buf_free u'\<rparr>"
proof (induction "unat (buf_free u)" arbitrary: s u h rule: less_induct)
  case less
  obtain i v where a: "usbdev_buf_alloc u = (i, v)" by (cases "usbdev_buf_alloc u")
  note pa = parted_alloc [OF less.prems(1) a]
  show ?case
  proof (cases "s AND full = 0 \<and> \<not> i < 0")
    case False
    then show ?thesis using less.prems a pa by (auto simp: supply_loop.simps [of hw full r s u h] split: if_splits)
  next
    case True
    then obtain b where b: "b < 32" "i = int b" "b \<notin> owns (view h)" "b \<notin> H" "parted view ok (insert b H) v h" "v = u\<lparr>buf_free := buf_free v\<rparr>"
      using pa by auto
    have bv: "usb_base v = bas" using free_base [OF b(6)] less.prems(2) by simp
    let ?h = "DEV_WRITE hw (bas + r) (of_nat b) h"
    obtain t k where t: "DEV_READ hw (bas + USBDEV_USBSTAT) ?h = (t, k)" by (cases "DEV_READ hw (bas + USBDEV_USBSTAT) ?h")
    have p: "parted view ok H v k"
      by (rule parted_same [OF plain_read [OF laws(1) _ t] supply_write_parted [OF laws(2) r b(5,1,4,3)]]) simp
    have l: "unat (buf_free v) < unat (buf_free u)"
      using a True buf_alloc_loop_less by (simp add: usbdev_buf_alloc_def not_less)
    have "supply_loop hw full r t v k = (s', u', h')"
      using less.prems(3) a True t bv b(2) by (simp add: supply_loop.simps [of hw full r s u h] USBDEV_READ_def USBDEV_WRITE_def)
    from less.hyps [OF l p bv this] show ?thesis using free_trans [OF b(6)] by blast
  qed
qed

lemma supply_buffers_parted:
  assumes laws: "usb_plain_law hw bas view ok" "usb_supply_law hw bas view ok"
    and p: "parted view ok H u h" and bas: "usb_base u = bas" and run: "usbdev_supply_buffers hw u h = (u', h')"
  shows "parted view ok H u' h' \<and> u' = u\<lparr>buf_free := buf_free u'\<rparr>"
proof -
  obtain s h1 s2 u2 h2 s3 where
    1: "DEV_READ hw (bas + USBDEV_USBSTAT) h = (s, h1)" and
    2: "supply_loop hw USBDEV_STAT_AV_SETUP_FULL USBDEV_AVSETUPBUFFER s u h1 = (s2, u2, h2)" and
    3: "supply_loop hw USBDEV_STAT_AV_OUT_FULL USBDEV_AVOUTBUFFER s2 u2 h2 = (s3, u', h')"
    using run bas by (auto simp: usbdev_supply_buffers_def USBDEV_READ_def split: prod.splits)
  have p1: "parted view ok H u h1" by (rule parted_same [OF plain_read [OF laws(1) _ 1] p]) simp
  from supply_loop_parted [OF laws _ p1 bas 2]
  have p2: "parted view ok H u2 h2" and f2: "u2 = u\<lparr>buf_free := buf_free u2\<rparr>" by auto
  have b2: "usb_base u2 = bas" using free_base [OF f2] bas by simp
  from supply_loop_parted [OF laws _ p2 b2 3] show ?thesis using free_trans [OF f2] by auto
qed

text \<open>Packets that were sent: each endpoint in turn gives its buffer back.\<close>

lemma in_read:
  assumes "usb_in_law hw bas view ok" "ok h" "e < 12" "DEV_READ hw (bas + CONFIGIN e) h = (v, h')"
  shows "same_view view ok h h'" "unat (v AND USBDEV_CONFIGIN_BUFFER) = in_buf (view h) e"
  using assms unfolding usb_in_law_def by blast+

lemma unat_buffer_field:
  "unat (ucast (v AND USBDEV_CONFIGIN_BUFFER :: u32) :: u8) = unat (v AND USBDEV_CONFIGIN_BUFFER)" (is ?A)
  "unat (v AND USBDEV_CONFIGIN_BUFFER) < 32" (is ?B)
proof -
  have "v AND USBDEV_CONFIGIN_BUFFER = take_bit 5 v" by (simp add: USBDEV_CONFIGIN_BUFFER_def take_bit_eq_mask mask_eq_exp_minus_1)
  then have "unat (v AND USBDEV_CONFIGIN_BUFFER) = unat v mod 32" by (simp only: unsigned_take_bit_eq) (simp add: take_bit_eq_mod)
  then show B: ?B by simp
  then show ?A by (simp add: unsigned_ucast_eq take_bit_nat_eq_self)
qed

lemma ep0_sent_same:
  "usb_plain_law hw (usb_base u) view ok \<Longrightarrow> usbdev_ep0_sent hw u h = (r, u', h') \<Longrightarrow>
    r \<and> same_config u u' \<and> buf_free u' = buf_free u \<and> same_view view ok h h'"
  by (auto simp: usbdev_ep0_sent_def same_config_def USBDEV_WRITE_def same_view_def split: usbdev_ctrl_state.splits
      dest: plain_write [where r = USBDEV_USBCTRL])

lemma CONFIGIN_addr: "e < 12 \<Longrightarrow> configin_offset (of_nat e) = CONFIGIN e"
  by (simp add: CONFIGIN_def)

lemma sent_ep_parted:
  assumes laws: "usb_plain_law hw (usb_base u) view ok" "usb_in_law hw (usb_base u) view ok"
    and p: "parted view ok held u h" and e: "e < 12" "in_buf (view h) e \<in> held"
    and run: "sent_ep hw (of_nat e) u h = (u', h')"
  shows "parted view ok (held - {in_buf (view h) e}) u' h' \<and> same_config u u' \<and> view h' = view h"
proof -
  obtain v k where r: "DEV_READ hw (usb_base u + CONFIGIN e) h = (v, k)" by (cases "DEV_READ hw (usb_base u + CONFIGIN e) h")
  have "ok h" using p by (simp add: parted_def)
  note in_read = in_read [OF laws(2) this e(1) r]
  let ?b = "ucast (v AND USBDEV_CONFIGIN_BUFFER) :: u8"
  have b: "unat ?b = in_buf (view h) e" "unat ?b < 32" using unat_buffer_field [of v] in_read(2) by simp_all
  define ep where "ep = (of_nat e :: u8)"
  have r': "USBDEV_READ hw u (configin_offset ep) h = (v, k)" using r by (simp add: ep_def USBDEV_READ_def CONFIGIN_def)
  have run': "sent_ep hw ep u h = (u', h')" using run by (simp only: ep_def)
  obtain w m where w: "same_config u w" "buf_free w = buf_free u" "same_view view ok k m"
    and u': "u' = snd (usbdev_buf_release ?b w)" "h' = m"
  proof (cases "ep = 0")
    case True
    obtain t w m where s: "usbdev_ep0_sent hw u k = (t, w, m)" by (cases "usbdev_ep0_sent hw u k")
    note q = ep0_sent_same [OF laws(1) s]
    then have "u' = snd (usbdev_buf_release ?b w) \<and> h' = m"
      using run' [unfolded True] by (simp add: sent_ep_def r' [unfolded True] s Let_def)
    then show thesis using q by (elim conjE) (rule that)
  next
    case False
    then have "u' = snd (usbdev_buf_release ?b u) \<and> h' = k"
      using run' by (simp add: sent_ep_def r' Let_def)
    moreover have "same_view view ok k k" by (simp add: same_view_def)
    ultimately show thesis using that [of u k] by simp
  qed
  have "parted view ok held u m" by (rule parted_same [OF w(3) parted_same [OF in_read(1) p]])
  then have "parted view ok held w m" by (simp only: parted_free [OF w(2)])
  then have "parted view ok (held - {unat ?b}) u' m" unfolding u' by (rule parted_release) (use b e in simp_all)
  moreover have "same_config u u'" unfolding u' by (rule same_config_trans [OF w(1)]) simp
  moreover have "view h' = view h" using w(3) in_read(1) unfolding u'(2) same_view_def by simp
  ultimately show ?thesis unfolding b(1) u'(2) by blast
qed

lemma sent_eps_step:
  "e < 12 \<Longrightarrow> sent_eps s e = (if bit s e then insert e (sent_eps (s AND NOT (push_bit e 1)) (e + 1)) else sent_eps s (e + 1))"
  by (auto simp: sent_eps_def bit_clear Suc_le_eq order_le_less)

lemma sent_eps_end: "s = 0 \<or> \<not> e < 12 \<Longrightarrow> sent_eps s e = {}"
  by (auto simp: sent_eps_def)

lemma sent_loop_parted:
  assumes laws: "usb_plain_law hw bas view ok" "usb_in_law hw bas view ok"
  shows "usb_base u = bas \<Longrightarrow> parted view ok (H \<union> in_buf (view h) ` sent_eps s e) u h \<Longrightarrow>
    H \<inter> in_buf (view h) ` sent_eps s e = {} \<Longrightarrow> inj_on (in_buf (view h)) (sent_eps s e) \<Longrightarrow>
    sent_loop hw s e u h = (u', h') \<Longrightarrow> parted view ok H u' h' \<and> same_config u u'"
proof (induction "12 - e" arbitrary: e s u h)
  case 0
  then show ?case by (simp add: sent_loop.simps [of hw s e] sent_eps_end USBDEV_MAX_ENDPOINTS_def)
next
  case (Suc n)
  then have e: "e < 12" "n = 12 - (e + 1)" by simp_all
  show ?case
  proof (cases "s \<noteq> 0 \<and> bit s e")
    case False
    then have "s = 0 \<or> s \<noteq> 0 \<and> \<not> bit s e" by blast
    then show ?thesis
    proof
      assume "s = 0"
      then show ?thesis using Suc.prems by (simp add: sent_loop.simps [of hw 0 e] sent_eps_end)
    next
      assume "s \<noteq> 0 \<and> \<not> bit s e"
      then show ?thesis
        using Suc.hyps(1) [OF e(2) Suc.prems(1), of h s] Suc.prems e
        by (simp add: sent_loop.simps [of hw s e] and_push_bit_1 USBDEV_MAX_ENDPOINTS_def sent_eps_step)
    qed
  next
    case True
    let ?s = "s AND NOT (push_bit e 1)" and ?f = "in_buf (view h)"
    have st: "sent_eps s e = insert e (sent_eps ?s (e + 1))" using sent_eps_step [OF e(1), of s] True by simp
    obtain w m where w: "sent_ep hw (of_nat e) u h = (w, m)" by (cases "sent_ep hw (of_nat e) u h")
    from sent_ep_parted [OF laws [folded Suc.prems(1)] Suc.prems(2) e(1) _ w]
    have p: "parted view ok (H \<union> ?f ` sent_eps s e - {?f e}) w m" and c: "same_config u w" and v: "view m = view h"
      using st by auto
    have "?f ` sent_eps s e - {?f e} = ?f ` sent_eps ?s (e + 1)"
      using Suc.prems(4) unfolding st by (auto simp: inj_on_def sent_eps_def)
    moreover have "?f e \<notin> H" using Suc.prems(3) unfolding st by auto
    ultimately have "H \<union> ?f ` sent_eps s e - {?f e} = H \<union> ?f ` sent_eps ?s (e + 1)" by blast
    with p v have "parted view ok (H \<union> in_buf (view m) ` sent_eps ?s (e + 1)) w m" by simp
    moreover have "H \<inter> in_buf (view m) ` sent_eps ?s (e + 1) = {}" using Suc.prems(3) unfolding st v by auto
    moreover have "inj_on (in_buf (view m)) (sent_eps ?s (e + 1))" using Suc.prems(4) unfolding st v by simp
    moreover have "sent_loop hw ?s (e + 1) w m = (u', h')"
      using Suc.prems(5) True e w by (simp add: sent_loop.simps [of hw s e] and_push_bit_1 USBDEV_MAX_ENDPOINTS_def)
    ultimately have "parted view ok H u' h' \<and> same_config w u'"
      using Suc.hyps(1) [OF e(2)] same_config_base [OF c] Suc.prems(1) by metis
    then show ?thesis using same_config_trans [OF c] by blast
  qed
qed

lemma service_sending_parted:
  assumes laws: "usb_plain_law hw (usb_base u) view ok" "usb_in_law hw (usb_base u) view ok" "usb_sent_law hw (usb_base u) view ok"
    and p: "parted view ok H u h" and run: "usbdev_service_sending hw u h = (u', h')"
  shows "parted view ok H u' h' \<and> same_config u u'"
proof -
  obtain s k where r: "DEV_READ hw (usb_base u + USBDEV_IN_SENT) h = (s, k)" by (cases "DEV_READ hw (usb_base u + USBDEV_IN_SENT) h")
  have "ok h" using p by (simp add: parted_def)
  note law = laws(3) [unfolded usb_sent_law_def Let_def, rule_format, OF conjI [OF this r]]
  show ?thesis
  proof (cases "s = 0")
    case True
    then show ?thesis using law run r parted_same [OF _ p] by (simp add: usbdev_service_sending_def USBDEV_READ_def)
  next
    case False
    let ?h = "DEV_WRITE hw (usb_base u + USBDEV_IN_SENT) s k"
    have l: "ok ?h" "inj_on (in_buf (view h)) (sent_eps s 0)" "in_buf (view h) ` sent_eps s 0 \<subseteq> owns (view h)"
      "owns (view ?h) = owns (view h) - in_buf (view h) ` sent_eps s 0" "in_buf (view ?h) = in_buf (view h)"
      using law False by simp_all
    then have "parted view ok (H \<union> in_buf (view ?h) ` sent_eps s 0) u ?h" using p by (auto simp: parted_def)
    moreover have "H \<inter> in_buf (view ?h) ` sent_eps s 0 = {}" using p l(3,5) by (auto simp: parted_def)
    moreover have "sent_loop hw s 0 u ?h = (u', h')"
      using run r False by (simp add: usbdev_service_sending_def USBDEV_READ_def USBDEV_WRITE_def)
    ultimately show ?thesis using sent_loop_parted [OF laws(1,2) refl] l(2,5) by metis
  qed
qed

text \<open>Packet memory is outside the view.\<close>

lemma same_view_refl [simp]: "same_view view ok h h"
  by (simp add: same_view_def)

lemma same_view_trans: "same_view view ok h h' \<Longrightarrow> same_view view ok h' h'' \<Longrightarrow> same_view view ok h h''"
  by (simp add: same_view_def)

lemma packet_reg: "k < 512 \<Longrightarrow> USBDEV_BUFFER + of_nat (4 * k) \<in> plain_regs"
  by (auto simp: plain_regs_def)

lemma packet_same:
  assumes "usb_plain_law hw bas view ok" "k < 512"
  shows "same_view view ok h (DEV_WRITE hw (packet_word bas k) v h)" "same_view view ok h (snd (DEV_READ hw (packet_word bas k) h))"
  using assms packet_reg [OF assms(2)] unfolding usb_plain_law_def packet_word_def add.assoc by blast+

lemma puts_same:
  assumes "usb_plain_law hw (usb_base u) view ok"
  shows "4 * (k + n) \<le> length bs \<Longrightarrow> k + n \<le> 16 \<Longrightarrow> unat buf < 32 \<Longrightarrow>
    \<exists>h'. puts hw (USBDEV_BUF_START u buf) bs (4 * k) n h = Some h' \<and> same_view view ok h h'"
proof (induction n arbitrary: k h)
  case 0
  then show ?case by simp
next
  case (Suc n)
  let ?h = "DEV_WRITE hw (packet_word (usb_base u) (16 * unat buf + k)) (list_word bs (4 * k)) h"
  have p: "put_word hw (USBDEV_BUF_START u buf) bs (4 * k) h = Some ?h"
    using Suc.prems by (simp only: put_word_def buf_word list_word_def) simp
  have m: "same_view view ok h ?h" by (rule packet_same [OF assms]) (use Suc.prems in simp)
  have b: "4 * (k + 1 + n) \<le> length bs" "k + 1 + n \<le> 16" using Suc.prems by auto
  have i: "4 * k + 4 = 4 * (k + 1)" by simp
  from Suc.IH [OF b Suc.prems(3), of ?h] same_view_trans [OF m] show ?case
    by (simp only: puts.simps p Option.bind.simps i) blast
qed

lemma gets_same:
  assumes "usb_plain_law hw (usb_base u) view ok"
  shows "4 * (k + n) \<le> length dst \<Longrightarrow> k + n \<le> 16 \<Longrightarrow> unat buf < 32 \<Longrightarrow>
    \<exists>d h'. gets hw (USBDEV_BUF_START u buf) (4 * k) n (dst, h) = Some (d, h') \<and> length d = length dst \<and> same_view view ok h h'"
proof (induction n arbitrary: k h dst)
  case 0
  then show ?case by simp
next
  case (Suc n)
  obtain w h1 where r: "DEV_READ hw (packet_word (usb_base u) (16 * unat buf + k)) h = (w, h1)"
    by (cases "DEV_READ hw (packet_word (usb_base u) (16 * unat buf + k)) h")
  let ?d = "blit dst (4 * k) [ucast w, ucast (drop_bit 8 w), ucast (drop_bit 16 w), ucast (drop_bit 24 w)]"
  have g: "get_word hw (USBDEV_BUF_START u buf) (4 * k) (dst, h) = Some (?d, h1)"
    using Suc.prems r by (simp only: get_word_def buf_word) simp
  have l: "length ?d = length dst" using Suc.prems by (simp add: length_blit)
  have m: "same_view view ok h h1" using packet_same(2) [OF assms, of "16 * unat buf + k" h] Suc.prems r by simp
  have b: "4 * (k + 1 + n) \<le> length ?d" "k + 1 + n \<le> 16" using Suc.prems l by auto
  have i: "4 * k + 4 = 4 * (k + 1)" by simp
  from Suc.IH [OF b Suc.prems(3), of h1] same_view_trans [OF m] show ?case
    by (simp only: gets.simps g Option.bind.simps i l) blast
qed

lemma buf_write_same:
  assumes law: "usb_plain_law hw (usb_base u) view ok" and buf: "unat buf < 32" and f: "fits sp (unat len)"
  shows "\<exists>h'. usbdev_buf_write hw u buf sp len h = Some h' \<and> same_view view ok h h'"
proof -
  let ?n = "unat len div 4" and ?r = "unat len mod 4" and ?p = "USBDEV_BUF_START u buf"
  have n: "4 * (0 + ?n) \<le> length (snd sp)" "0 + ?n \<le> 16" using f by (auto simp: fits_def)
  have w: "usbdev_buf_write hw u buf sp len h = usbdev_memcpy_to hw ?p (snd sp) len h"
    using f buf by (simp add: usbdev_buf_write_def fits_def USBDEV_NUM_BUFFERS_def USBDEV_MAX_PACKET_LEN_def)
  obtain g where g: "puts hw ?p (snd sp) 0 ?n h = Some g" "same_view view ok h g"
    using puts_same [OF law n buf, of h] by auto
  show ?thesis
  proof (cases "?r = 0")
    case True
    then show ?thesis using g by (simp add: w memcpy_to_puts)
  next
    case False
    have l: "4 * ?n + ?r = unat len" by simp
    have k: "16 * unat buf + ?n < 512"
    proof -
      have "unat len \<le> 64" using f by (simp add: fits_def)
      then have "?n < 16" using False by presburger
      then show ?thesis using buf by linarith
    qed
    let ?g = "DEV_WRITE hw (packet_word (usb_base u) (16 * unat buf + ?n)) (tail_word (snd sp) (4 * ?n) ?r) g"
    have "tail_to hw ?p (snd sp) (4 * ?n) (of_nat ?r) g = Some ?g"
      using tail_to_word [of "4 * ?n" ?r "snd sp" hw ?p g] f by (simp only: buf_word l fits_def)
    moreover have "same_view view ok h ?g" by (rule same_view_trans [OF g(2) packet_same(1) [OF law k]])
    ultimately show ?thesis using False g(1) by (simp add: w memcpy_to_puts)
  qed
qed

lemma buf_read_same:
  assumes law: "usb_plain_law hw (usb_base u) view ok" and buf: "unat buf < 32"
  shows "\<exists>d h'. usbdev_buf_read hw u (0, replicate 8 0) buf 8 h = Some (d, h') \<and> length d = 8 \<and> same_view view ok h h'"
  using gets_same [OF law, of 0 2 "replicate 8 0" buf h] buf
  by (auto simp: usbdev_buf_read_def memcpy_from_gets USBDEV_NUM_BUFFERS_def USBDEV_MAX_PACKET_LEN_def)

text \<open>A packet presented on an IN endpoint, after the one before has been retracted.\<close>

lemma await_returns:
  assumes law: "usb_in_law hw bas view ok" and e: "e < 12"
  shows "ok h \<Longrightarrow> unat (v AND USBDEV_CONFIGIN_BUFFER) = in_buf (view h) e \<Longrightarrow>
    fst (DEV_READ hw (bas + CONFIGIN e) (((\<lambda>h. snd (DEV_READ hw (bas + CONFIGIN e) h)) ^^ n) h)) AND USBDEV_CONFIGIN_SENDING = 0 \<Longrightarrow>
    \<exists>v' h'. await_sending hw (bas + CONFIGIN e) v h = Some (v', h') \<and> same_view view ok h h' \<and>
      unat (v' AND USBDEV_CONFIGIN_BUFFER) = in_buf (view h) e"
proof (induction n arbitrary: h v)
  case 0
  obtain v1 h1 where r: "DEV_READ hw (bas + CONFIGIN e) h = (v1, h1)" by (cases "DEV_READ hw (bas + CONFIGIN e) h")
  note q = in_read [OF law 0(1) e r]
  have z: "v1 AND USBDEV_CONFIGIN_SENDING = 0" using 0(3) r by simp
  show ?case
  proof (cases "v AND USBDEV_CONFIGIN_SENDING = 0")
    case True
    then show ?thesis using 0 by (simp add: await_sending.simps)
  next
    case False
    have "await_sending hw (bas + CONFIGIN e) v h = Some (v1, h1)"
      by (subst await_sending.simps) (simp add: False r, subst await_sending.simps, simp add: z)
    then show ?thesis using q by simp
  qed
next
  case (Suc n)
  obtain v1 h1 where r: "DEV_READ hw (bas + CONFIGIN e) h = (v1, h1)" by (cases "DEV_READ hw (bas + CONFIGIN e) h")
  note q = in_read [OF law Suc.prems(1) e r]
  show ?case
  proof (cases "v AND USBDEV_CONFIGIN_SENDING = 0")
    case True
    then show ?thesis using Suc.prems by (simp add: await_sending.simps)
  next
    case False
    have a: "await_sending hw (bas + CONFIGIN e) v h = await_sending hw (bas + CONFIGIN e) v1 h1"
      by (subst await_sending.simps) (simp add: False r)
    have v: "view h1 = view h" "ok h1" using q(1) Suc.prems(1) by (auto simp: same_view_def)
    have "fst (DEV_READ hw (bas + CONFIGIN e) (((\<lambda>h. snd (DEV_READ hw (bas + CONFIGIN e) h)) ^^ n) h1)) AND USBDEV_CONFIGIN_SENDING = 0"
      using Suc.prems(3) r by (simp only: funpow_Suc_right o_apply snd_conv)
    from Suc.IH [OF v(2) _ this, of v1] obtain v' h' where
      "await_sending hw (bas + CONFIGIN e) v1 h1 = Some (v', h')" "same_view view ok h1 h'" "unat (v' AND USBDEV_CONFIGIN_BUFFER) = in_buf (view h) e"
      using q(2) v(1) by auto
    then show ?thesis using a same_view_trans [OF q(1)] by auto
  qed
qed

lemma retract_parted:
  assumes laws: "usb_in_law hw (usb_base u) view ok" "usb_done_law hw (usb_base u) ok"
    and p: "parted view ok held u h" and e: "e < 12"
  shows "\<exists>u' h'. usbdev_retract hw (of_nat e) u h = Some (u', h') \<and> parted view ok held u' h' \<and> idle (view h') e \<and>
    u' = u\<lparr>buf_free := buf_free u'\<rparr>"
proof -
  let ?a = "usb_base u + CONFIGIN e"
  obtain v k where r: "DEV_READ hw ?a h = (v, k)" by (cases "DEV_READ hw ?a h")
  have "ok h" using p by (simp add: parted_def)
  note q = in_read [OF laws(1) this e r]
  note law = laws(1) [unfolded usb_in_law_def Let_def, rule_format, OF conjI [OF \<open>ok h\<close> conjI [OF e r]]]
  show ?thesis
  proof (cases "v AND USBDEV_CONFIGIN_RDY = 0")
    case True
    then have "usbdev_retract hw (of_nat e) u h = Some (u, k)"
      using r by (simp add: usbdev_retract_def USBDEV_READ_def CONFIGIN_def)
    moreover have "idle (view k) e" using law True q(1) by (simp add: same_view_def)
    ultimately show ?thesis using parted_same [OF q(1) p] by simp
  next
    case False
    let ?h2 = "DEV_WRITE hw ?a (v AND NOT USBDEV_CONFIGIN_RDY) k"
    have l: "ok ?h2" "in_buf (view h) e \<in> owns (view h)"
      "view ?h2 = (view h)\<lparr>owns := owns (view h) - {in_buf (view h) e}, idle := (idle (view h))(e := True)\<rparr>"
      using law False by simp_all
    have p2: "parted view ok (insert (in_buf (view h) e) held) u ?h2" using p l by (auto simp: parted_def)
    obtain v3 h3 where r3: "DEV_READ hw ?a ?h2 = (v3, h3)" by (cases "DEV_READ hw ?a ?h2")
    note q3 = in_read [OF laws(1) l(1) e r3]
    have v3: "view h3 = view ?h2" "ok h3" using q3(1) l(1) by (auto simp: same_view_def)
    obtain n where "fst (DEV_READ hw ?a (((\<lambda>h. snd (DEV_READ hw ?a h)) ^^ n) h3)) AND USBDEV_CONFIGIN_SENDING = 0"
      using laws(2) v3(2) e unfolding usb_done_law_def Let_def by blast
    from await_returns [OF laws(1) e v3(2) _ this, of v3] q3(2) v3(1) obtain v4 h4 where
      a: "await_sending hw ?a v3 h3 = Some (v4, h4)" "same_view view ok h3 h4" and b4: "unat (v4 AND USBDEV_CONFIGIN_BUFFER) = in_buf (view ?h2) e"
      by auto
    let ?b = "ucast (v4 AND USBDEV_CONFIGIN_BUFFER) :: u8"
    let ?u = "snd (usbdev_buf_release ?b u)"
    have run: "usbdev_retract hw (of_nat e) u h = Some (?u, h4)"
      using r r3 a(1) False by (simp add: usbdev_retract_def USBDEV_READ_def USBDEV_WRITE_def CONFIGIN_def)
    have b: "unat ?b = in_buf (view h) e" "unat ?b < 32" using unat_buffer_field [of v4] b4 l(3) by simp_all
    have s: "same_view view ok ?h2 h4" by (rule same_view_trans [OF q3(1) a(2)])
    have "parted view ok (insert (in_buf (view h) e) held - {unat ?b}) ?u h4"
      by (rule parted_release [OF parted_same [OF s p2]]) (use b in simp_all)
    moreover have "in_buf (view h) e \<notin> held" using p l(2) by (auto simp: parted_def)
    ultimately have "parted view ok held ?u h4" unfolding b(1) by simp
    moreover have "idle (view h4) e" using s l(3) by (simp add: same_view_def)
    ultimately show ?thesis using run release_fields by blast
  qed
qed

lemma packet_send_parted:
  assumes laws: "usb_controller hw (usb_base u) view ok" and p: "parted view ok held u h" and e: "e < 12"
    and buf: "unat buf \<in> held" "unat buf < 32" and f: "fits sp (unat len)"
  shows "\<exists>u' h'. usbdev_packet_send hw (of_nat e) buf sp len u h = Some (0, u', h') \<and>
    parted view ok (held - {unat buf}) u' h' \<and> u' = u\<lparr>buf_free := buf_free u'\<rparr>"
proof -
  have l: "usb_plain_law hw (usb_base u) view ok" "usb_in_law hw (usb_base u) view ok" "usb_done_law hw (usb_base u) ok"
    "usb_present_law hw (usb_base u) view ok"
    using laws by (simp_all add: usb_controller_def)
  obtain v k where r: "usbdev_retract hw (of_nat e) u h = Some (v, k)" "parted view ok held v k" "idle (view k) e" "v = u\<lparr>buf_free := buf_free v\<rparr>"
    using retract_parted [OF l(2,3) p e] by blast
  have bv: "usb_base v = usb_base u" by (rule free_base [OF r(4)])
  obtain m where w: "usbdev_buf_write hw v buf sp len k = Some m" "same_view view ok k m"
    using buf_write_same [OF l(1) [folded bv] buf(2) f] by blast
  have pm: "parted view ok held v m" by (rule parted_same [OF w(2) r(2)])
  let ?h = "DEV_WRITE hw (usb_base u + CONFIGIN e) ((push_bit 8 (ucast len) OR ucast buf) OR USBDEV_CONFIGIN_RDY) m"
  have "ok m" "unat buf \<notin> owns (view m)" "idle (view m) e" using pm buf(1) w(2) r(3) by (auto simp: parted_def same_view_def)
  then have "ok ?h \<and> owns (view ?h) = insert (unat buf) (owns (view m))"
    using l(4) e buf(2) f unfolding usb_present_law_def Let_def fits_def by blast
  then have "parted view ok (held - {unat buf}) v ?h" using pm buf by (auto simp: parted_def)
  moreover have "usbdev_packet_send hw (of_nat e) buf sp len u h = Some (0, v, ?h)"
    using r(1) w(1) bv by (simp add: usbdev_packet_send_def USBDEV_WRITE_def CONFIGIN_def Let_def)
  ultimately show ?thesis using r(4) by blast
qed

section \<open>The service routine\<close>

lemma unat_clamp: "unat (clamp_len w n) \<le> unat n" "unat (clamp_len w n) \<le> unat w"
  by (auto simp: clamp_len_def word_le_nat_alt word_less_nat_alt)

lemma fits_clamp: "fits sp (unat n) \<Longrightarrow> fits sp (unat (ucast (clamp_len w n) :: u8))"
proof -
  assume f: "fits sp (unat n)"
  then have "unat (clamp_len w n) \<le> 64" using unat_clamp(1) [of w n] by (simp add: fits_def)
  then have "unat (ucast (clamp_len w n) :: u8) = unat (clamp_len w n)" by (simp add: unsigned_ucast_eq take_bit_nat_eq_self)
  then show ?thesis using f unat_clamp(1) [of w n] by (simp add: fits_def)
qed

declare unat_ucast_u8_u16 [simp]

text \<open>What \<open>ep0_recv\<close> does with the buffer of the packet: it keeps it for the reply or leaves it to the caller.\<close>

definition kept :: "bool \<Rightarrow> u8 \<Rightarrow> nat set" where
  "kept release buf = (if release then {unat buf} else {})"

definition recv_ok :: "('s \<Rightarrow> usb_view) \<Rightarrow> ('s \<Rightarrow> bool) \<Rightarrow> nat set \<Rightarrow> u8 \<Rightarrow> usbdev_state \<Rightarrow> (bool \<times> usbdev_state \<times> 's) option \<Rightarrow> bool" where
  "recv_ok view ok H buf u res \<longleftrightarrow>
    (\<exists>release u' h'. res = Some (release, u', h') \<and> parted view ok (kept release buf \<union> H) u' h' \<and> same_config u u')"

lemma kept_simps [simp]: "kept True buf = {unat buf}" "kept False buf = {}"
  by (simp_all add: kept_def)

lemma recv_ok_Some [simp]:
  "recv_ok view ok H buf u (Some (release, u', h')) \<longleftrightarrow> parted view ok (kept release buf \<union> H) u' h' \<and> same_config u u'"
  by (simp add: recv_ok_def)

lemma ep0_reply_ok:
  assumes laws: "usb_controller hw (usb_base u) view ok" and p: "parted view ok (insert (unat buf) H) u h" and buf: "unat buf < 32" "unat buf \<notin> H"
    and f: "fits sp (unat (ucast n :: u8))"
  shows "recv_ok view ok H buf u (ep0_reply hw buf sp n c u h)"
proof -
  obtain u' h' where "usbdev_packet_send hw 0 buf sp (ucast n) u h = Some (0, u', h')" "parted view ok H u' h'"
    "u' = u\<lparr>buf_free := buf_free u'\<rparr>"
    using packet_send_parted [OF laws p _ _ buf(1) f, of 0] buf(2) by auto
  then show ?thesis
    using same_config_free [of u' u] by (simp add: ep0_reply_def parted_def same_config_def)
qed

lemma write_after:
  "usb_plain_law hw bas view ok \<Longrightarrow> r \<in> plain_regs \<Longrightarrow> same_view view ok h k \<Longrightarrow> same_view view ok h (DEV_WRITE hw (bas + r) v k)"
  by (rule same_view_trans [OF _ plain_write])

lemma read_after:
  "usb_plain_law hw bas view ok \<Longrightarrow> r \<in> plain_regs \<Longrightarrow> same_view view ok h k \<Longrightarrow> same_view view ok h (snd (DEV_READ hw (bas + r) k))"
  by (rule same_view_trans [OF _ plain_read]) (auto simp: prod_eq_iff)

lemma ep_stalling_same:
  "usb_plain_law hw (usb_base u) view ok \<Longrightarrow> same_view view ok h (snd (usbdev_ep_stalling hw u ep on h))"
  unfolding usbdev_ep_stalling_def USBDEV_READ_def USBDEV_WRITE_def Let_def split_beta
  by (auto intro!: write_after read_after)

lemma ep0_request_ok:
  assumes laws: "usb_controller hw (usb_base u) view ok" and p: "parted view ok (insert (unat buf) H) u h" and buf: "unat buf < 32" "unat buf \<notin> H"
    and d: "dscr_ok u"
  shows "recv_ok view ok H buf u (ep0_request hw buf data u h)"
proof -
  have l: "usb_plain_law hw (usb_base u) view ok" using laws by (simp add: usb_controller_def)
  have dev: "fits (dev_dscr u) (unat (ucast (clamp_len w (ucast (dev_len u))) :: u8))"
    and cfg: "fits (cfg_dscr u) (unat (ucast (clamp_len w (cfg_len u)) :: u8))"
    and test: "fits (test_dscr u) (unat (ucast (clamp_len w (ucast (test_len u))) :: u8))"
    and zero: "fits (0, data) (unat (ucast (0 :: u16) :: u8))" for w
    using d by (auto simp: dscr_ok_def intro!: fits_clamp) (simp add: fits_def)
  have addr: "recv_ok view ok H buf u (ep0_reply hw buf (0, data) 0 c (u\<lparr>dev_addr := x\<rparr>) h)" for c x
    using ep0_reply_ok [where u = "u\<lparr>dev_addr := x\<rparr>" and sp = "(0, data)" and n = 0 and c = c and view = view and ok = ok and h = h and H = H and buf = buf and hw = hw] laws p buf zero
    by (simp add: parted_def recv_ok_def same_config_def)
  have stall: "recv_ok view ok H buf u (Some (True, u, snd (usbdev_ep_stalling hw u 0 True h)))"
    using parted_same [OF ep_stalling_same [OF l] p] by simp
  have other: "recv_ok view ok H buf u (Some (True, u\<lparr>ctrl_state := Ctrl_Setup\<rparr>, h))"
    using p by (simp add: parted_def same_config_def)
  show ?thesis
    unfolding ep0_request_def Let_def
    using ep0_reply_ok [OF laws p buf dev] ep0_reply_ok [OF laws p buf cfg] ep0_reply_ok [OF laws p buf test]
      ep0_reply_ok [OF laws p buf zero] addr stall other
    by (simp split: if_split)
qed

lemma ep0_recv_ok:
  assumes laws: "usb_controller hw (usb_base u) view ok" and p: "parted view ok (insert (unat buf) H) u h" and buf: "unat buf < 32" "unat buf \<notin> H"
    and d: "dscr_ok u"
  shows "recv_ok view ok H buf u (usbdev_ep0_recv hw setup buf sz u h)"
proof (cases "ctrl_state u = Ctrl_Setup \<and> setup \<and> sz = 8")
  case True
  have l: "usb_plain_law hw (usb_base u) view ok" using laws by (simp add: usb_controller_def)
  obtain dat k where r: "usbdev_buf_read hw u (0, replicate 8 0) buf 8 h = Some (dat, k)" "same_view view ok h k"
    using buf_read_same [OF l buf(1)] by blast
  then show ?thesis
    using ep0_request_ok [OF laws parted_same [OF r(2) p] buf d, of dat] True by (simp add: usbdev_ep0_recv_def)
next
  case False
  then show ?thesis
    using p by (auto simp: usbdev_ep0_recv_def parted_def same_config_def split: usbdev_ctrl_state.splits)
qed

lemma service_recving_parted:
  assumes laws: "usb_controller hw (usb_base u) view ok" and p: "parted view ok H u h" and d: "dscr_ok u"
  shows "\<exists>u' h'. usbdev_service_recving hw u h = Some (u', h') \<and> parted view ok H u' h' \<and> same_config u u'"
proof -
  have l: "usb_plain_law hw (usb_base u) view ok" "usb_receive_law hw (usb_base u) view ok" using laws by (simp_all add: usb_controller_def)
  obtain s k where r: "DEV_READ hw (usb_base u + USBDEV_USBSTAT) h = (s, k)" by (cases "DEV_READ hw (usb_base u + USBDEV_USBSTAT) h")
  show ?thesis
  proof (cases "s AND USBDEV_STAT_RX_DEPTH = 0")
    case True
    have "parted view ok H u k" by (rule parted_same [OF plain_read [OF l(1) _ r] p]) simp
    then show ?thesis using r True by (simp add: usbdev_service_recving_def USBDEV_READ_def)
  next
    case False
    obtain x m where x: "DEV_READ hw (usb_base u + USBDEV_RXFIFO) k = (x, m)" by (cases "DEV_READ hw (usb_base u + USBDEV_RXFIFO) k")
    let ?b = "ucast (x AND USBDEV_RXFIFO_BUFFER) :: u8"
    have ub: "unat ?b = unat (x AND USBDEV_RXFIFO_BUFFER)" "unat ?b < 32"
      using unat_buffer_field [of x] by (simp_all add: USBDEV_RXFIFO_BUFFER_def USBDEV_CONFIGIN_BUFFER_def)
    have "ok h" using p by (simp add: parted_def)
    then have m: "ok m \<and> unat ?b \<in> owns (view h) \<and> view m = (view h)\<lparr>owns := owns (view h) - {unat ?b}\<rparr>"
      using l(2) r x False unfolding usb_receive_law_def ub(1) by blast
    then have pm: "parted view ok (insert (unat ?b) H) u m" and nb: "unat ?b \<notin> H" using p by (auto simp: parted_def)
    define ep where "ep = (ucast (drop_bit 20 (x AND USBDEV_RXFIFO_EP)) :: u8)"
    define res where "res = (if ep = 0 then usbdev_ep0_recv hw (x AND USBDEV_RXFIFO_SETUP \<noteq> 0) ?b
      (ucast (drop_bit 8 (x AND USBDEV_RXFIFO_SIZE))) u m else Some (True, u, m))"
    have "recv_ok view ok H ?b u res"
      unfolding res_def using ep0_recv_ok [OF laws pm ub(2) nb d] pm by simp
    then obtain rel u' h' where res: "res = Some (rel, u', h')" "parted view ok (kept rel ?b \<union> H) u' h'" "same_config u u'"
      unfolding recv_ok_def by blast
    have "usbdev_service_recving hw u h =
        do { (release, u, h) \<leftarrow> res; Some (if release then snd (usbdev_buf_release ?b u) else u, h) }"
      unfolding usbdev_service_recving_def USBDEV_READ_def r prod.case x Let_def res_def ep_def using False by (simp only: if_P simp_thms)
    then have run: "usbdev_service_recving hw u h = Some (if rel then snd (usbdev_buf_release ?b u') else u', h')"
      unfolding res(1) by simp
    have "parted view ok H (if rel then snd (usbdev_buf_release ?b u') else u') h'"
      using parted_release [of view ok "insert (unat ?b) H" u' h' ?b] res(2) ub(2) nb by (simp add: kept_def split: if_splits)
    moreover have "same_config u (if rel then snd (usbdev_buf_release ?b u') else u')"
      using same_config_trans [OF res(3)] res(3) by simp
    ultimately show ?thesis using run by blast
  qed
qed

lemma service_parted:
  assumes laws: "usb_controller hw (usb_base u) view ok" and p: "parted view ok H u h" and d: "dscr_ok u"
  shows "\<exists>u' h'. usbdev_service hw u h = Some (0, u', h') \<and> parted view ok H u' h' \<and> same_config u u'"
proof -
  have l: "usb_plain_law hw (usb_base u) view ok" "usb_supply_law hw (usb_base u) view ok" "usb_in_law hw (usb_base u) view ok"
    "usb_sent_law hw (usb_base u) view ok"
    using laws by (simp_all add: usb_controller_def)
  obtain v k where 1: "usbdev_service_sending hw u h = (v, k)" by (cases "usbdev_service_sending hw u h")
  from service_sending_parted [OF l(1,3,4) p 1] have pv: "parted view ok H v k" and cv: "same_config u v" by auto
  obtain w m where 2: "usbdev_supply_buffers hw v k = (w, m)" by (cases "usbdev_supply_buffers hw v k")
  from supply_buffers_parted [OF l(1,2) pv same_config_base [OF cv] 2]
  have pw: "parted view ok H w m" and cw: "same_config u w" using same_config_trans [OF cv same_config_free] by auto
  obtain u' h' where 3: "usbdev_service_recving hw w m = Some (u', h')" "parted view ok H u' h'" "same_config w u'"
    using service_recving_parted [where hw = hw and u = w and view = view and ok = ok and h = m and H = H] laws pw d same_config_base [OF cw] same_config_dscr [OF cw] by auto
  show ?thesis using 1 2 3 same_config_trans [OF cw 3(3)] by (simp add: usbdev_service_def)
qed

lemma ep_config_same:
  "usb_plain_law hw (usb_base u) view ok \<Longrightarrow> same_view view ok h (snd (usbdev_ep_config hw u ep i out setup h))"
  unfolding usbdev_ep_config_def USBDEV_READ_def USBDEV_WRITE_def Let_def split_beta
  by (auto intro!: write_after read_after)

lemma init_parted:
  assumes laws: "usb_controller hw bas view ok" and h: "ok h" "owns (view h) = {}"
  shows "\<exists>u' h'. usbdev_init hw bas dev dlen cfg clen test tlen u h = (0, u', h') \<and> parted view ok {} u' h' \<and>
    usb_base u' = bas \<and> dev_dscr u' = dev \<and> dev_len u' = dlen \<and> cfg_dscr u' = cfg \<and> cfg_len u' = clen \<and>
    test_dscr u' = test \<and> test_len u' = tlen \<and> dev_state u' = Device_Reset \<and> ctrl_state u' = Ctrl_Setup"
proof -
  have l: "usb_plain_law hw bas view ok" "usb_supply_law hw bas view ok" using laws by (simp_all add: usb_controller_def)
  let ?u = "u\<lparr>usb_base := bas, buf_free := ucast (push_bit USBDEV_NUM_BUFFERS 1 - 1 :: u64),
    dev_state := Device_Reset, ctrl_state := Ctrl_Setup\<rparr>"
  let ?v = "?u\<lparr>dev_dscr := dev, dev_len := dlen, cfg_dscr := cfg, cfg_len := clen, test_dscr := test, test_len := tlen\<rparr>"
  let ?h1 = "DEV_WRITE hw (bas + USBDEV_PHY_CONFIG) USBDEV_PHY_CONFIG_USE_DIFF_RCVR h"
  let ?h2 = "snd (usbdev_ep_config hw ?u 0 True True True ?h1)"
  have "ucast (push_bit USBDEV_NUM_BUFFERS 1 - 1 :: u64) = (- 1 :: u32)" by (simp add: USBDEV_NUM_BUFFERS_def push_bit_of_1)
  then have "parted view ok {} ?v h" using h by (simp add: parted_def)
  moreover have "same_view view ok h ?h2"
    by (rule same_view_trans [OF plain_write [OF l(1), of USBDEV_PHY_CONFIG] ep_config_same]) (use l(1) in simp_all)
  ultimately have p: "parted view ok {} ?v ?h2" by (rule parted_same [rotated])
  obtain w m where s: "usbdev_supply_buffers hw ?v ?h2 = (w, m)" by (cases "usbdev_supply_buffers hw ?v ?h2")
  from supply_buffers_parted [OF l p _ s] have pw: "parted view ok {} w m" and w: "w = ?v\<lparr>buf_free := buf_free w\<rparr>" by auto
  have f: "usb_base w = bas" "dev_dscr w = dev" "dev_len w = dlen" "cfg_dscr w = cfg" "cfg_len w = clen" "test_dscr w = test"
    "test_len w = tlen" "dev_state w = Device_Reset" "ctrl_state w = Ctrl_Setup"
    by (subst w, simp)+
  have "usbdev_init hw bas dev dlen cfg clen test tlen u h = (0, w, DEV_WRITE hw (bas + USBDEV_USBCTRL) USBDEV_CTRL_ENABLE m)"
    using s by (simp add: usbdev_init_def Let_def USBDEV_WRITE_def f(1))
  moreover have "parted view ok {} w (DEV_WRITE hw (bas + USBDEV_USBCTRL) USBDEV_CTRL_ENABLE m)"
    by (rule parted_same [OF plain_write [OF l(1)] pw]) simp
  ultimately show ?thesis using f by blast
qed

section \<open>Runs\<close>

text \<open>
  An initialised driver and its controller as they can come about: calls of \<open>usbdev_service\<close>, and between them what the host does. Its
  transactions move the buffers the controller holds from one place in it to another: a packet is received into a supplied
  buffer, a packet that waits is collected. A SETUP on an endpoint where a reply waits also cancels the reply: the register's \<open>rdy\<close> bit
  is cleared and \<open>pend\<close> set, and the controller will not give the buffer back by itself. The programmer's guide
  asks software to write the reply back; this driver overwrites the register with its next reply. The set argument collects the
  buffers of the replies that were cancelled.
\<close>

inductive usb_run :: "'s usb_hw \<Rightarrow> ('s \<Rightarrow> usb_view) \<Rightarrow> ('s \<Rightarrow> bool) \<Rightarrow> usbdev_state \<Rightarrow> 's \<Rightarrow> nat set \<Rightarrow> usbdev_state \<Rightarrow> 's \<Rightarrow> bool"
  for hw view ok u1 h1 where
  run_start: "usb_run hw view ok u1 h1 {} u1 h1"
| run_service: "usb_run hw view ok u1 h1 L u h \<Longrightarrow> usbdev_service hw u h = Some (r, u', h') \<Longrightarrow> usb_run hw view ok u1 h1 L u' h'"
| run_host: "usb_run hw view ok u1 h1 L u h \<Longrightarrow> ok h' \<Longrightarrow> owns (view h') = owns (view h) \<Longrightarrow> usb_run hw view ok u1 h1 L u h'"
| run_cancel: "usb_run hw view ok u1 h1 L u h \<Longrightarrow> ok h' \<Longrightarrow> e < 12 \<Longrightarrow> \<not> idle (view h) e \<Longrightarrow> in_buf (view h) e \<in> owns (view h) \<Longrightarrow>
    owns (view h') = owns (view h) - {in_buf (view h) e} \<Longrightarrow> usb_run hw view ok u1 h1 (insert (in_buf (view h) e) L) u h'"

lemma run_parted:
  assumes laws: "usb_controller hw (usb_base u1) view ok" and p: "parted view ok {} u1 h1" and d: "dscr_ok u1"
  shows "usb_run hw view ok u1 h1 L u h \<Longrightarrow> parted view ok L u h \<and> same_config u1 u"
proof (induction rule: usb_run.induct)
  case run_start
  then show ?case using p by simp
next
  case (run_service L u h r u' h')
  note p = conjunct1 [OF run_service.IH] and c = conjunct2 [OF run_service.IH]
  have "usb_controller hw (usb_base u) view ok" "dscr_ok u"
    unfolding same_config_base [OF c] same_config_dscr [OF c] by (rule laws, rule d)
  from service_parted [OF this(1) p this(2)] obtain v k where
    "usbdev_service hw u h = Some (0, v, k)" "parted view ok L v k" "same_config u v" by blast
  then show ?case using run_service.hyps(2) same_config_trans [OF c] by simp
next
  case (run_host L u h h')
  then show ?case by (auto simp: parted_def)
next
  case (run_cancel L u h h' e)
  then show ?case by (auto simp: parted_def)
qed

end
