(* ===== verification/Usb_System.thy ===== *)
theory Usb_System
  imports Usb_Service
begin

unbundle bit_operations_syntax

text \<open>
  The properties of the USB driver: the partition of the packet buffers, the requests of the control pipe and the packets that
  answer them, over every controller that keeps the laws of \<open>usb_controller\<close>, and a controller that does.
\<close>

section \<open>A controller\<close>

text \<open>
  A controller that keeps the laws, at address zero: the host uses a supplied buffer for a setup packet whenever software looks at
  the status and nothing waits in the receive FIFO, and has collected every waiting packet when software asks.
\<close>

record demo_usb =
  avs :: "nat list"
  rxd :: "nat list"
  txb :: "nat \<Rightarrow> nat"
  pend :: "nat \<Rightarrow> bool"
  pmem :: "u32 \<Rightarrow> u32"

definition demo_status :: "demo_usb \<Rightarrow> demo_usb" where
  "demo_status h = (if rxd h = [] \<and> avs h \<noteq> [] then h\<lparr>rxd := [hd (avs h)], avs := tl (avs h)\<rparr> else h)"

definition demo_ep :: "u32 \<Rightarrow> nat" where
  "demo_ep a = (unat a - 0x44) div 4"

definition demo_read :: "u32 \<Rightarrow> demo_usb \<Rightarrow> u32 \<times> demo_usb" where
  "demo_read a h =
    (if a = USBDEV_USBSTAT
     then ((if 2 \<le> length (avs h) then USBDEV_STAT_AV_SETUP_FULL else 0) OR (if 4 \<le> length (avs h) then USBDEV_STAT_AV_OUT_FULL else 0) OR
           (if rxd (demo_status h) = [] then 0 else 0x01000000), demo_status h)
     else if a = USBDEV_RXFIFO
     then (case rxd h of [] \<Rightarrow> (0, h) | b # bs \<Rightarrow> (of_nat b OR 0x80800, h\<lparr>rxd := bs\<rparr>))
     else if a = USBDEV_IN_SENT then (horner_sum of_bool 2 (map (pend h) [0..<12]), h)
     else if 0x44 \<le> a \<and> a < 0x74
     then (of_nat (txb h (demo_ep a)) OR (if pend h (demo_ep a) then USBDEV_CONFIGIN_RDY else 0), h)
     else (pmem h a, h))"

definition demo_write :: "u32 \<Rightarrow> u32 \<Rightarrow> demo_usb \<Rightarrow> demo_usb" where
  "demo_write a v h =
    (if a = USBDEV_AVSETUPBUFFER \<or> a = USBDEV_AVOUTBUFFER then h\<lparr>avs := avs h @ [unat v]\<rparr>
     else if a = USBDEV_IN_SENT then h\<lparr>pend := (\<lambda>e. pend h e \<and> \<not> bit v e)\<rparr>
     else if 0x44 \<le> a \<and> a < 0x74
     then h\<lparr>txb := (txb h)(demo_ep a := unat (v AND USBDEV_CONFIGIN_BUFFER)), pend := (pend h)(demo_ep a := v AND USBDEV_CONFIGIN_RDY \<noteq> 0)\<rparr>
     else h\<lparr>pmem := (pmem h)(a := v)\<rparr>)"

definition demo_hw :: "demo_usb usb_hw" where
  "demo_hw = \<lparr>DEV_READ = demo_read, DEV_WRITE = demo_write\<rparr>"

definition demo_view :: "demo_usb \<Rightarrow> usb_view" where
  "demo_view h = \<lparr>owns = set (avs h) \<union> set (rxd h) \<union> txb h ` {e. e < 12 \<and> pend h e}, in_buf = txb h, idle = (\<lambda>e. \<not> pend h e)\<rparr>"

definition demo_ok :: "demo_usb \<Rightarrow> bool" where
  "demo_ok h \<longleftrightarrow> distinct (avs h @ rxd h) \<and> (\<forall>b \<in> set (avs h @ rxd h). b < 32) \<and> (\<forall>e < 12. txb h e < 32) \<and>
    inj_on (txb h) {e. e < 12 \<and> pend h e} \<and> (\<forall>e < 12. pend h e \<longrightarrow> txb h e \<notin> set (avs h @ rxd h))"

lemma demo_sel [simp]: "DEV_READ demo_hw = demo_read" "DEV_WRITE demo_hw = demo_write"
  by (simp_all add: demo_hw_def)

lemmas demo_regs = USBDEV_USBCTRL_def USBDEV_EP_OUT_ENABLE_def USBDEV_EP_IN_ENABLE_def USBDEV_RXENABLE_SETUP_def USBDEV_RXENABLE_OUT_def
  USBDEV_OUT_STALL_def USBDEV_IN_STALL_def USBDEV_PHY_CONFIG_def USBDEV_USBSTAT_def USBDEV_AVSETUPBUFFER_def USBDEV_AVOUTBUFFER_def
  USBDEV_RXFIFO_def USBDEV_IN_SENT_def

lemma demo_CONFIGIN: "e < 12 \<Longrightarrow> unat (CONFIGIN e) = 0x44 + 4 * e"
  by (simp only: CONFIGIN_def configin_offset_def USBDEV_CONFIGIN_0_def push_bit_eq_mult unat_word_ariths unsigned_ucast_eq unat_of_nat)
    (simp add: unat_of_nat take_bit_nat_eq_self)

lemma demo_configin [simp]:
  assumes "e < 12"
  shows "demo_ep (CONFIGIN e) = e" "0x44 \<le> CONFIGIN e" "CONFIGIN e < 0x74" "CONFIGIN e \<noteq> USBDEV_USBSTAT" "CONFIGIN e \<noteq> USBDEV_RXFIFO"
    "CONFIGIN e \<noteq> USBDEV_IN_SENT" "CONFIGIN e \<noteq> USBDEV_AVSETUPBUFFER" "CONFIGIN e \<noteq> USBDEV_AVOUTBUFFER"
  using demo_CONFIGIN [OF assms] assms by (auto simp: demo_ep_def demo_regs word_le_nat_alt word_less_nat_alt)

lemma demo_status_same: "same_view demo_view demo_ok h (demo_status h)"
proof (cases "rxd h = [] \<and> avs h \<noteq> []")
  case True
  then obtain b bs where "avs h = b # bs" by (cases "avs h") auto
  then show ?thesis using True by (auto simp: same_view_def demo_status_def demo_view_def demo_ok_def)
qed (auto simp: demo_status_def)

lemma demo_packet_addr: "k < 512 \<Longrightarrow> unat (USBDEV_BUFFER + of_nat (4 * k)) = 0x800 + 4 * k"
  by (simp only: USBDEV_BUFFER_def unat_word_ariths unat_of_nat) simp

lemma demo_mem_same: "same_view demo_view demo_ok h (h\<lparr>pmem := m\<rparr>)"
  by (simp add: same_view_def demo_view_def demo_ok_def)

lemma demo_packet: "packet_memory demo_hw 0 pmem"
proof -
  have "r \<noteq> 0x1C" "r \<noteq> 0x28" "r \<noteq> 0x38" "\<not> r < 0x74" "r \<noteq> 0x24" "r \<noteq> 0x20" if "unat r = 0x800 + 4 * k" for r :: u32 and k
    using that by (auto simp: word_less_nat_alt)
  note regs = this
  show ?thesis
    unfolding packet_memory_def packet_word_def
    using regs [OF demo_packet_addr] by (simp add: demo_read_def demo_write_def demo_regs)
qed

lemma demo_plain: "usb_plain_law demo_hw 0 demo_view demo_ok"
proof -
  have "same_view demo_view demo_ok h (demo_write r v h) \<and> same_view demo_view demo_ok h (snd (demo_read r h))" if "r \<in> plain_regs" for r h v
    using that
  proof (cases "\<exists>k < 512. r = USBDEV_BUFFER + of_nat (4 * k)")
    case True
    then obtain k where k: "unat r = 0x800 + 4 * k" using demo_packet_addr by blast
    then have "r \<noteq> 0x1C" "r \<noteq> 0x28" "r \<noteq> 0x38" "\<not> r < 0x74" "r \<noteq> 0x24" "r \<noteq> 0x20" by (auto simp: word_less_nat_alt)
    then show ?thesis by (simp add: demo_read_def demo_write_def demo_regs demo_mem_same)
  next
    case False
    then show ?thesis
      using that demo_status_same by (auto simp: plain_regs_def demo_read_def demo_write_def demo_regs demo_mem_same)
  qed
  then show ?thesis by (simp add: usb_plain_law_def)
qed

lemma demo_supply: "usb_supply_law demo_hw 0 demo_view demo_ok"
  by (auto simp: usb_supply_law_def demo_write_def demo_view_def demo_ok_def demo_regs unat_of_nat)

lemma demo_buffer: "b < 32 \<Longrightarrow> unat ((of_nat b OR (x :: u32)) AND 0x1F) = b" if "x AND 0x1F = 0"
proof -
  assume b: "b < 32"
  have "(of_nat b OR x) AND 0x1F = (of_nat b AND 0x1F) OR (x AND 0x1F)" by (rule bit_word_eqI) (auto simp: bit_simps)
  also have "\<dots> = take_bit 5 (of_nat b)" using that by (simp add: take_bit_eq_mask mask_eq_exp_minus_1)
  finally show ?thesis using b by (simp only: unsigned_take_bit_eq unat_of_nat) (simp add: take_bit_eq_mod)
qed

lemma demo_status_field: "((if p then 0x40000000 else 0) OR (if q then 0x00800000 else 0) OR (if r then 0 else 0x01000000)) AND 0x0F000000
    = (if r then 0 else 0x01000000 :: u32)"
  by simp

lemma demo_receive: "usb_receive_law demo_hw 0 demo_view demo_ok"
  unfolding usb_receive_law_def
proof (intro allI impI, elim conjE)
  fix h s h1 x h2
  assume h: "demo_ok h" and s: "DEV_READ demo_hw (0 + USBDEV_USBSTAT) h = (s, h1)" "s AND USBDEV_STAT_RX_DEPTH \<noteq> 0"
    and x: "DEV_READ demo_hw (0 + USBDEV_RXFIFO) h1 = (x, h2)"
  have h1: "h1 = demo_status h" using s(1) by (auto simp: demo_read_def)
  have "rxd h1 \<noteq> []"
    using s h1 demo_status_field by (auto simp: demo_read_def USBDEV_STAT_RX_DEPTH_def USBDEV_STAT_AV_SETUP_FULL_def USBDEV_STAT_AV_OUT_FULL_def split: if_splits)
  then obtain b bs where b: "rxd h1 = b # bs" by (cases "rxd h1") auto
  have v: "demo_view h1 = demo_view h" and o: "demo_ok h1" using demo_status_same [of h] h by (simp_all add: h1 same_view_def)
  have x': "x = of_nat b OR 0x80800" "h2 = h1\<lparr>rxd := bs\<rparr>" using x b by (simp_all add: demo_read_def demo_regs)
  have "unat (x AND USBDEV_RXFIFO_BUFFER) = b"
    using demo_buffer [of "0x80800" b] o b unfolding x' USBDEV_RXFIFO_BUFFER_def demo_ok_def by simp
  then show "demo_ok h2 \<and> unat (x AND USBDEV_RXFIFO_BUFFER) \<in> owns (demo_view h) \<and>
      demo_view h2 = (demo_view h)\<lparr>owns := owns (demo_view h) - {unat (x AND USBDEV_RXFIFO_BUFFER)}\<rparr>"
    using o b unfolding v [symmetric] x' by (auto simp: demo_ok_def demo_view_def)
qed

lemma demo_sent_bits: "bit (horner_sum of_bool 2 (map (pend h) [0..<12]) :: u32) e \<longleftrightarrow> e < 12 \<and> pend h e"
  by (auto simp: bit_horner_sum_bit_word_iff)

lemma demo_sent: "usb_sent_law demo_hw 0 demo_view demo_ok"
  unfolding usb_sent_law_def
proof (intro allI impI, elim conjE)
  fix h s h1
  assume h: "demo_ok h" and r: "DEV_READ demo_hw (0 + USBDEV_IN_SENT) h = (s, h1)"
  have s: "s = horner_sum of_bool 2 (map (pend h) [0..<12])" "h1 = h" using r by (auto simp: demo_read_def demo_regs)
  have e: "sent_eps s 0 = {e. e < 12 \<and> pend h e}" by (auto simp: sent_eps_def s(1) demo_sent_bits)
  let ?h = "demo_write USBDEV_IN_SENT s h"
  have w: "?h = h\<lparr>pend := (\<lambda>e. pend h e \<and> \<not> e < 12)\<rparr>"
  proof -
    have "(\<lambda>e. pend h e \<and> \<not> bit s e) = (\<lambda>e. pend h e \<and> \<not> e < 12)" by (auto simp: s(1) demo_sent_bits)
    then show ?thesis by (simp add: demo_write_def demo_regs)
  qed
  show "if s = 0 then same_view demo_view demo_ok h h1
    else let h2 = DEV_WRITE demo_hw (0 + USBDEV_IN_SENT) s h1; bufs = in_buf (demo_view h) ` sent_eps s 0
      in demo_ok h2 \<and> inj_on (in_buf (demo_view h)) (sent_eps s 0) \<and> bufs \<subseteq> owns (demo_view h) \<and>
         owns (demo_view h2) = owns (demo_view h) - bufs \<and> in_buf (demo_view h2) = in_buf (demo_view h)"
    using h by (auto simp: s(2) e w Let_def demo_ok_def demo_view_def inj_on_def)
qed

lemma RDY_bit: "USBDEV_CONFIGIN_RDY = push_bit 31 1"
  by (simp add: USBDEV_CONFIGIN_RDY_def push_bit_of_1)

lemma BUFFER_mask: "USBDEV_CONFIGIN_BUFFER = mask 5"
  by (simp add: USBDEV_CONFIGIN_BUFFER_def mask_eq_exp_minus_1)

lemma demo_in: "usb_in_law demo_hw 0 demo_view demo_ok"
  unfolding usb_in_law_def
proof (intro allI impI, elim conjE)
  fix h e v h1
  assume h: "demo_ok h" and e: "e < 12" and r: "DEV_READ demo_hw (0 + CONFIGIN e) h = (v, h1)"
  have v: "v = of_nat (txb h e) OR (if pend h e then USBDEV_CONFIGIN_RDY else 0)" "h1 = h"
    using r e by (auto simp: demo_read_def)
  have b: "txb h e < 32" using h e by (simp add: demo_ok_def)
  have f: "unat (v AND USBDEV_CONFIGIN_BUFFER) = txb h e"
    using demo_buffer [OF _ b, of "if pend h e then USBDEV_CONFIGIN_RDY else 0"] by (simp add: v(1) USBDEV_CONFIGIN_BUFFER_def USBDEV_CONFIGIN_RDY_def)
  have "\<not> bit (of_nat (txb h e) :: u32) 31" using b by (simp add: bit_of_nat_iff bit_nat_def)
  then have "bit v 31 \<longleftrightarrow> pend h e" by (auto simp: v(1) RDY_bit bit_simps)
  then have y: "v AND USBDEV_CONFIGIN_RDY = 0 \<longleftrightarrow> \<not> pend h e" using and_push_bit_1 [of v 31] unfolding RDY_bit by auto
  have "(v AND NOT USBDEV_CONFIGIN_RDY) AND USBDEV_CONFIGIN_BUFFER = v AND USBDEV_CONFIGIN_BUFFER"
    by (simp add: USBDEV_CONFIGIN_RDY_def USBDEV_CONFIGIN_BUFFER_def and.assoc)
  then have w: "demo_write (CONFIGIN e) (v AND NOT USBDEV_CONFIGIN_RDY) h = h\<lparr>pend := (pend h)(e := False)\<rparr>"
    using e f by (simp add: demo_write_def and.assoc)
  show "same_view demo_view demo_ok h h1 \<and> unat (v AND USBDEV_CONFIGIN_BUFFER) = in_buf (demo_view h) e \<and>
    (if v AND USBDEV_CONFIGIN_RDY = 0 then idle (demo_view h) e
     else let h2 = DEV_WRITE demo_hw (0 + CONFIGIN e) (v AND NOT USBDEV_CONFIGIN_RDY) h1
          in demo_ok h2 \<and> in_buf (demo_view h) e \<in> owns (demo_view h) \<and>
             demo_view h2 = (demo_view h)\<lparr>owns := owns (demo_view h) - {in_buf (demo_view h) e}, idle := (idle (demo_view h))(e := True)\<rparr>)"
    using h e f y w by (auto simp: v(2) Let_def demo_ok_def demo_view_def inj_on_def)
qed

lemma demo_present: "usb_present_law demo_hw 0 demo_view demo_ok"
  unfolding usb_present_law_def Let_def
proof (intro allI impI, elim conjE)
  fix h e and len b :: u8
  assume h: "demo_ok h" and e: "e < 12" and i: "idle (demo_view h) e" and b: "unat b < 32" "unat b \<notin> owns (demo_view h)"
  let ?v = "(push_bit 8 (ucast len) OR ucast b) OR USBDEV_CONFIGIN_RDY"
  have "?v AND USBDEV_CONFIGIN_BUFFER = take_bit 5 (ucast b)"
    unfolding BUFFER_mask by (rule bit_word_eqI) (auto simp: RDY_bit bit_simps)
  then have f: "unat (?v AND USBDEV_CONFIGIN_BUFFER) = unat b"
    using b(1) by (simp only: unsigned_take_bit_eq) (simp add: unsigned_ucast_eq take_bit_nat_eq_self)
  have "bit ?v 31" by (simp add: RDY_bit bit_simps)
  then have r: "?v AND USBDEV_CONFIGIN_RDY \<noteq> 0" using and_push_bit_1 [of ?v 31] unfolding RDY_bit by simp
  have w: "DEV_WRITE demo_hw (0 + CONFIGIN e) ?v h = h\<lparr>txb := (txb h)(e := unat b), pend := (pend h)(e := True)\<rparr>"
    using e f r by (simp add: demo_write_def)
  let ?P = "{i. i < 12 \<and> pend h i}" and ?f = "(txb h)(e := unat b)"
  have n: "e \<notin> ?P" using i by (simp add: demo_view_def)
  have s: "{i. i < 12 \<and> ((pend h)(e := True)) i} = insert e ?P" using e by auto
  have im: "?f ` insert e ?P = insert (unat b) (txb h ` ?P)" using n by auto
  have o: "inj_on (txb h) ?P" "unat b \<notin> txb h ` ?P" "unat b \<notin> set (avs h @ rxd h)"
    using h b(2) by (auto simp: demo_ok_def demo_view_def)
  have inj: "inj_on ?f (insert e ?P)"
    unfolding inj_on_insert using inj_on_fun_updI [OF o(1,2), of e] n o(2) by auto
  have "demo_ok (h\<lparr>txb := ?f, pend := (pend h)(e := True)\<rparr>)"
    using h b(1) o(3) inj [folded s] unfolding demo_ok_def by simp
  moreover have "owns (demo_view (h\<lparr>txb := ?f, pend := (pend h)(e := True)\<rparr>)) = insert (unat b) (owns (demo_view h))"
    using im [folded s] unfolding demo_view_def by simp
  ultimately show "demo_ok (DEV_WRITE demo_hw (0 + CONFIGIN e) ?v h) \<and>
      owns (demo_view (DEV_WRITE demo_hw (0 + CONFIGIN e) ?v h)) = insert (unat b) (owns (demo_view h))"
    unfolding w by blast
qed

lemma demo_done: "usb_done_law demo_hw 0 demo_ok"
  unfolding usb_done_law_def Let_def
proof (intro allI impI, elim conjE)
  fix h and e :: nat
  assume h: "demo_ok h" and e: "e < 12"
  have "\<not> bit (of_nat (txb h e) :: u32) 29" using h e by (auto simp: demo_ok_def bit_of_nat_iff bit_nat_def div_eq_0_iff)
  then have "\<not> bit (fst (demo_read (CONFIGIN e) h)) 29" using e by (simp add: demo_read_def RDY_bit bit_simps)
  moreover have "USBDEV_CONFIGIN_SENDING = push_bit 29 1" by (simp add: USBDEV_CONFIGIN_SENDING_def push_bit_of_1)
  ultimately have "fst (demo_read (CONFIGIN e) h) AND USBDEV_CONFIGIN_SENDING = 0" using and_push_bit_1 [of _ 29] by auto
  then show "\<exists>n. fst (DEV_READ demo_hw (0 + CONFIGIN e) (((\<lambda>h. snd (DEV_READ demo_hw (0 + CONFIGIN e) h)) ^^ n) h)) AND USBDEV_CONFIGIN_SENDING = 0"
    by (intro exI [of _ 0]) simp
qed

lemma demo_controller: "usb_controller demo_hw 0 demo_view demo_ok"
  by (simp add: usb_controller_def demo_plain demo_supply demo_receive demo_sent demo_in demo_present demo_done)

definition demo_reset :: demo_usb where
  "demo_reset = \<lparr>avs = [], rxd = [], txb = (\<lambda>e. 0), pend = (\<lambda>e. False), pmem = (\<lambda>a. 0)\<rparr>"

section \<open>Packet buffers\<close>


text \<open>
  A controller whose host asks for the device descriptor in every packet. Initialised and serviced once, the driver has presented
  the reply on endpoint zero, in buffer zero; a SETUP then cancels it.
\<close>

definition demo_asked :: demo_usb where
  "demo_asked = demo_reset\<lparr>pmem := (\<lambda>a. if a AND 4 = 0 then 0x01000680 else 0x00120000)\<rparr>"

declare await_sending.simps [code]

lemma demo_replies:
  "case usbdev_init demo_hw 0 (0, replicate 18 1) 18 (4, replicate 32 2) 32 (8, replicate 16 3) 16 blank_usb demo_asked of (r, u, h) \<Rightarrow>
     (case usbdev_service demo_hw u h of Some (r, u, h) \<Rightarrow> r = 0 \<and> pend h 0 \<and> txb h 0 = 0 | None \<Rightarrow> False)"
  by code_simp

lemma demo_cancel:
  assumes "demo_ok h" "pend h 0"
  shows "demo_ok (h\<lparr>pend := (pend h)(0 := False)\<rparr>)"
    "owns (demo_view (h\<lparr>pend := (pend h)(0 := False)\<rparr>)) = owns (demo_view h) - {txb h 0}"
proof -
  let ?P = "{e. e < 12 \<and> pend h e}" and ?Q = "{e. e < 12 \<and> ((pend h)(0 := False)) e}"
  have Q: "?Q = ?P - {0}" by auto
  have inj: "inj_on (txb h) ?P" and z: "0 \<in> ?P" using assms by (simp_all add: demo_ok_def)
  have "inj_on (txb h) ?Q" unfolding Q by (rule inj_on_subset [OF inj]) blast
  then show "demo_ok (h\<lparr>pend := (pend h)(0 := False)\<rparr>)"
    using assms(1) unfolding demo_ok_def by simp
  have "txb h ` ?Q = txb h ` ?P - {txb h 0}"
    unfolding Q using inj_on_image_set_diff [OF inj, of ?P "{0}"] z by simp
  moreover have "txb h 0 \<notin> set (avs h) \<union> set (rxd h)" using assms by (simp add: demo_ok_def)
  ultimately show "owns (demo_view (h\<lparr>pend := (pend h)(0 := False)\<rparr>)) = owns (demo_view h) - {txb h 0}"
    unfolding demo_view_def by (simp only: usb_view.simps demo_usb.simps Un_Diff Diff_insert_absorb Diff_empty) simp
qed


section \<open>The control pipe\<close>

text \<open>A request of eight bytes in a packet buffer.\<close>

definition holds_request :: "('s \<Rightarrow> u32 \<Rightarrow> u32) \<Rightarrow> usbdev_state \<Rightarrow> u8 \<Rightarrow> u8 list \<Rightarrow> 's \<Rightarrow> bool" where
  "holds_request mem u buf req h \<longleftrightarrow> length req = 8 \<and>
    mem h (packet_word (usb_base u) (16 * unat buf)) = list_word req 0 \<and>
    mem h (packet_word (usb_base u) (16 * unat buf + 1)) = list_word req 4"

lemma request_read:
  assumes law: "usb_plain_law hw (usb_base u) view ok" and mem: "packet_memory hw (usb_base u) mem" and buf: "unat buf < 32"
    and req: "holds_request mem u buf req h"
  shows "\<exists>k. usbdev_buf_read hw u (0, replicate 8 0) buf 8 h = Some (req, k) \<and> same_view view ok h k"
proof -
  have w: "mem h (packet_word (usb_base u) (16 * unat buf + j)) = list_word req (4 * j)" if "j < 2" for j
    using req that by (cases j) (auto simp: holds_request_def)
  have l: "length req = 8" using req by (simp add: holds_request_def)
  have "\<exists>k. gets hw (USBDEV_BUF_START u buf) 0 2 (replicate 8 0, h) = Some (req, k)"
    using gets_mem [OF mem, of 0 2 req "replicate 8 0" buf h] w l buf by auto
  then have "\<exists>k. usbdev_buf_read hw u (0, replicate 8 0) buf 8 h = Some (req, k)"
    using buf by (simp add: usbdev_buf_read_def memcpy_from_gets USBDEV_NUM_BUFFERS_def USBDEV_MAX_PACKET_LEN_def)
  then show ?thesis using buf_read_same [OF law buf, of h] by auto
qed

text \<open>What a reply leaves: the packet in the buffer of the request, and that buffer presented on endpoint zero.\<close>

definition presented :: "'s usb_hw \<Rightarrow> usbdev_state \<Rightarrow> u8 \<Rightarrow> u8 list \<Rightarrow> 's \<Rightarrow> bool" where
  "presented hw u buf pkt h \<longleftrightarrow>
    (\<exists>m. h = DEV_WRITE hw (usb_base u + CONFIGIN 0) ((push_bit 8 (of_nat (length pkt)) OR ucast buf) OR USBDEV_CONFIGIN_RDY) m \<and>
      (\<forall>dst. length pkt \<le> length dst \<longrightarrow>
        (\<exists>k. usbdev_buf_read hw u (0, dst) buf (of_nat (length pkt)) m = Some (pkt @ drop (length pkt) dst, k))))"

lemma reply_presents:
  assumes laws: "usb_controller hw (usb_base u) view ok" and mem: "packet_memory hw (usb_base u) mem"
    and p: "parted view ok {unat buf} u h" and buf: "unat buf < 32" and f: "fits sp (unat (ucast n :: u8))"
  shows "\<exists>v k. ep0_reply hw buf sp n c u h = Some (False, v\<lparr>ctrl_state := c\<rparr>, k) \<and> v = u\<lparr>buf_free := buf_free v\<rparr> \<and>
    presented hw u buf (take (unat (ucast n :: u8)) (snd sp)) k"
proof -
  have l: "usb_in_law hw (usb_base u) view ok" "usb_done_law hw (usb_base u) ok" using laws by (simp_all add: usb_controller_def)
  let ?n = "ucast n :: u8"
  obtain v g where r: "usbdev_retract hw 0 u h = Some (v, g)" "v = u\<lparr>buf_free := buf_free v\<rparr>"
    using retract_parted [OF l p, of 0] by auto
  have bv: "usb_base v = usb_base u" by (rule free_base [OF r(2)])
  have same: "usbdev_buf_write hw v = usbdev_buf_write hw u"
    by (intro ext) (simp add: usbdev_buf_write_def USBDEV_BUF_START_def bv)
  note wr = buf_write_read [OF mem buf, of ?n "snd sp" _ "fst sp" 0 g]
  have n: "unat ?n \<le> 64" "unat ?n \<le> length (snd sp)" "fst sp AND 3 = 0" using f by (auto simp: fits_def)
  obtain m where m: "usbdev_buf_write hw u buf sp ?n g = Some m"
    using wr [OF n(1,2) _ n(3), of "replicate 64 0"] n(1) by auto
  let ?k = "DEV_WRITE hw (usb_base u + CONFIGIN 0) ((push_bit 8 (ucast ?n) OR ucast buf) OR USBDEV_CONFIGIN_RDY) m"
  have "usbdev_packet_send hw 0 buf sp ?n u h = Some (0, v, ?k)"
    using r(1) m by (simp add: usbdev_packet_send_def same USBDEV_WRITE_def CONFIGIN_def Let_def bv)
  then have 1: "ep0_reply hw buf sp n c u h = Some (False, v\<lparr>ctrl_state := c\<rparr>, ?k)" by (simp add: ep0_reply_def)
  let ?pkt = "take (unat ?n) (snd sp)"
  have lp: "length ?pkt = unat ?n" using n(2) by simp
  have "\<exists>k. usbdev_buf_read hw u (0, dst) buf ?n m = Some (?pkt @ drop (unat ?n) dst, k)" if "unat ?n \<le> length dst" for dst
    using wr [OF n(1,2) that n(3)] m by auto
  then have "presented hw u buf ?pkt ?k"
    unfolding presented_def lp by (intro exI [of _ m]) simp
  then show ?thesis using 1 r(2) by blast
qed

lemma recv_request:
  assumes "usb_plain_law hw (usb_base u) view ok" "packet_memory hw (usb_base u) mem" "unat buf < 32" "holds_request mem u buf req h"
    "ctrl_state u = Ctrl_Setup" "parted view ok held u h"
  shows "\<exists>k. usbdev_ep0_recv hw True buf 8 u h = ep0_request hw buf req u k \<and> parted view ok held u k"
  using request_read [OF assms(1-4)] assms(5) parted_same [OF _ assms(6)] by (auto simp: usbdev_ep0_recv_def)

lemma unat_clamp_fits: "fits sp (unat n) \<Longrightarrow> unat (ucast (clamp_len w n) :: u8) = min (unat w) (unat n)"
proof -
  assume f: "fits sp (unat n)"
  have c: "unat (clamp_len w n) = min (unat w) (unat n)" by (auto simp: clamp_len_def word_less_nat_alt)
  then have "unat (clamp_len w n) \<le> 64" using f by (auto simp: fits_def min_def)
  then show ?thesis using c by (simp add: unsigned_ucast_eq take_bit_nat_eq_self)
qed

definition asked_descriptor :: "usbdev_state \<Rightarrow> u8 list \<Rightarrow> (u8 list \<times> nat) option" where
  "asked_descriptor u req =
    (if req ! 1 = kUsbSetupReqGetDescriptor then
       if req ! 3 = kUsbDescTypeDevice then Some (snd (dev_dscr u), unat (dev_len u))
       else if req ! 3 = kUsbDescTypeConfiguration then Some (snd (cfg_dscr u), unat (cfg_len u)) else None
     else if req ! 1 = kVendorSetupReqTestConfig then Some (snd (test_dscr u), unat (test_len u)) else None)"

lemmas request_codes = kUsbSetupReqGetDescriptor_def kUsbSetupReqSetAddress_def kUsbSetupReqSetConfiguration_def
  kVendorSetupReqTestConfig_def kUsbDescTypeDevice_def kUsbDescTypeConfiguration_def

text \<open>
  The request for a descriptor is answered with it: when a setup packet asks for the device, the configuration or the test
  descriptor, the driver presents on endpoint zero a packet with the first bytes of that descriptor, as many as the request
  asks for and the descriptor has, in the buffer the request came in.
\<close>

theorem usb_descriptor_reply:
  assumes laws: "usb_controller hw (usb_base u) view ok" and mem: "packet_memory hw (usb_base u) mem"
    and p: "parted view ok {unat buf} u h" and buf: "unat buf < 32" and d: "dscr_ok u" and c: "ctrl_state u = Ctrl_Setup"
    and req: "holds_request mem u buf req h" and asked: "asked_descriptor u req = Some (dscr, len)"
  shows "\<exists>u' k. usbdev_ep0_recv hw True buf 8 u h = Some (False, u', k) \<and> ctrl_state u' = Ctrl_StatusGetDesc \<and>
    presented hw u buf (take (min (unat (le16 (req ! 6) (req ! 7))) len) dscr) k"
proof -
  have l: "usb_plain_law hw (usb_base u) view ok" using laws by (simp add: usb_controller_def)
  obtain k where k: "usbdev_ep0_recv hw True buf 8 u h = ep0_request hw buf req u k" "parted view ok {unat buf} u k"
    using recv_request [OF l mem buf req c p] by blast
  obtain sp n where e: "ep0_request hw buf req u k = ep0_reply hw buf sp (clamp_len (le16 (req ! 6) (req ! 7)) n) Ctrl_StatusGetDesc u k"
    and sp: "dscr = snd sp" "len = unat n" "fits sp (unat n)"
    using asked d by (auto simp: asked_descriptor_def ep0_request_def Let_def dscr_ok_def request_codes split: if_splits)
  from reply_presents [OF laws mem k(2) buf fits_clamp [OF sp(3)]]
  show ?thesis unfolding k(1) e sp unat_clamp_fits [OF sp(3)] by fastforce
qed

lemma ucast_le16: "ucast (le16 a b) = a"
  by (rule bit_word_eqI) (auto simp: le16_def bit_simps)

lemma free_fields: "(v :: usbdev_state) = u\<lparr>buf_free := buf_free v\<rparr> \<Longrightarrow> dev_state v = dev_state u \<and> dev_addr v = dev_addr u"
  by (cases u, cases v) simp

text \<open>The state machine of the pipe: what a request does at once, and what it does when the reply has been sent.\<close>

definition after_reply :: "'s usb_hw \<Rightarrow> usbdev_state \<Rightarrow> usbdev_ctrl_state \<Rightarrow> u8 \<Rightarrow> usbdev_state \<times> 's \<Rightarrow> 's \<Rightarrow> bool" where
  "after_reply hw u c a s g \<longleftrightarrow> ctrl_state (fst s) = Ctrl_Setup \<and>
    (case c of
       Ctrl_StatusSetAddr \<Rightarrow> dev_state (fst s) = Device_Addressed \<and>
         snd s = DEV_WRITE hw (usb_base u + USBDEV_USBCTRL) (push_bit 16 (ucast a) OR USBDEV_CTRL_ENABLE) g
     | Ctrl_StatusSetConfig \<Rightarrow> dev_state (fst s) = Device_Configured \<and> snd s = g
     | _ \<Rightarrow> dev_state (fst s) = dev_state u \<and> snd s = g)"

lemma sent_after_reply:
  "ctrl_state u' = c \<Longrightarrow> dev_state u' = dev_state u \<Longrightarrow> usb_base u' = usb_base u \<Longrightarrow>
    \<exists>u'' g'. usbdev_ep0_sent hw u' g = (True, u'', g') \<and> after_reply hw u c (dev_addr u') (u'', g') g"
  by (cases c) (auto simp: usbdev_ep0_sent_def after_reply_def USBDEV_WRITE_def)

lemma reply_then_sent:
  assumes laws: "usb_controller hw (usb_base u) view ok" and mem: "packet_memory hw (usb_base u) mem"
    and p: "parted view ok {unat buf} u h" and buf: "unat buf < 32" and f: "fits sp (unat (ucast n :: u8))"
  shows "\<exists>u' k u'' g'. ep0_reply hw buf sp n c (u\<lparr>dev_addr := a\<rparr>) h = Some (False, u', k) \<and> dev_state u' = dev_state u \<and>
    usbdev_ep0_sent hw u' g = (True, u'', g') \<and> after_reply hw u c a (u'', g') g"
proof -
  let ?u = "u\<lparr>dev_addr := a\<rparr>"
  obtain v k where r: "ep0_reply hw buf sp n c ?u h = Some (False, v\<lparr>ctrl_state := c\<rparr>, k)" "v = ?u\<lparr>buf_free := buf_free v\<rparr>"
    using reply_presents [of hw ?u view ok mem buf h sp n c] laws mem p buf f by (auto simp: parted_def)
  have v: "dev_state v = dev_state u" "dev_addr v = a" "usb_base v = usb_base u"
    using free_fields [OF r(2)] free_base [OF r(2)] by simp_all
  obtain u'' g' where "usbdev_ep0_sent hw (v\<lparr>ctrl_state := c\<rparr>) g = (True, u'', g')" "after_reply hw u c a (u'', g') g"
    using sent_after_reply [of "v\<lparr>ctrl_state := c\<rparr>" c u hw g] v by auto
  then show ?thesis using r(1) v(1) by (intro exI [of _ "v\<lparr>ctrl_state := c\<rparr>"]) simp
qed

definition reply_state :: "u8 list \<Rightarrow> usbdev_ctrl_state" where
  "reply_state req = (if req ! 1 = kUsbSetupReqSetAddress then Ctrl_StatusSetAddr
     else if req ! 1 = kUsbSetupReqSetConfiguration then Ctrl_StatusSetConfig else Ctrl_StatusGetDesc)"

text \<open>
  C25. The control pipe changes the state of the device only as the host asks. Handling a request never changes it; once the reply
  has been collected, a request to set the address makes the device addressed and writes that address to the controller, a
  request to set the configuration makes it configured, and no other request changes the state or the controller. The
  pipe is ready for the next request in each case.
\<close>

theorem usb_control_requests:
  assumes laws: "usb_controller hw (usb_base u) view ok" and mem: "packet_memory hw (usb_base u) mem"
    and p: "parted view ok {unat buf} u h" and buf: "unat buf < 32" and d: "dscr_ok u" and c: "ctrl_state u = Ctrl_Setup"
    and req: "holds_request mem u buf req h"
  shows "\<exists>rel u' k u'' g'. usbdev_ep0_recv hw True buf 8 u h = Some (rel, u', k) \<and> dev_state u' = dev_state u \<and>
    usbdev_ep0_sent hw u' g = (True, u'', g') \<and> after_reply hw u (reply_state req) (req ! 2) (u'', g') g"
proof -
  have l: "usb_plain_law hw (usb_base u) view ok" using laws by (simp add: usb_controller_def)
  obtain k where k: "usbdev_ep0_recv hw True buf 8 u h = ep0_request hw buf req u k" "parted view ok {unat buf} u k"
    using recv_request [OF l mem buf req c p] by blast
  note reply = reply_then_sent [OF laws mem k(2) buf, of _ _ _ _ g]
  have quiet: "\<exists>u'' g'. usbdev_ep0_sent hw (u\<lparr>ctrl_state := Ctrl_Setup\<rparr>) g = (True, u'', g') \<and> after_reply hw u Ctrl_StatusGetDesc (req ! 2) (u'', g') g"
    by (simp add: usbdev_ep0_sent_def after_reply_def)
  have zero: "fits (0, req) (unat (ucast (0 :: u16) :: u8))" by (simp add: fits_def)
  have same: "u\<lparr>dev_addr := dev_addr u\<rparr> = u" "u\<lparr>ctrl_state := Ctrl_Setup\<rparr> = u" using c by simp_all
  consider (addr) "req ! 1 = kUsbSetupReqSetAddress" | (conf) "req ! 1 = kUsbSetupReqSetConfiguration"
    | (dscr) x where "asked_descriptor u req = Some x"
    | (none) "req ! 1 \<noteq> kUsbSetupReqSetAddress" "req ! 1 \<noteq> kUsbSetupReqSetConfiguration" "asked_descriptor u req = None"
    by (cases "asked_descriptor u req") auto
  then show ?thesis
  proof cases
    case addr
    then have "ep0_request hw buf req u k = ep0_reply hw buf (0, req) 0 Ctrl_StatusSetAddr (u\<lparr>dev_addr := req ! 2\<rparr>) k"
      by (simp add: ep0_request_def request_codes ucast_le16 Let_def)
    then show ?thesis using reply [OF zero, of Ctrl_StatusSetAddr "req ! 2"] addr unfolding k(1) reply_state_def by auto
  next
    case conf
    then have "ep0_request hw buf req u k = ep0_reply hw buf (0, req) 0 Ctrl_StatusSetConfig u k"
      by (simp add: ep0_request_def request_codes Let_def)
    then show ?thesis using reply [OF zero, of Ctrl_StatusSetConfig "dev_addr u"] conf
      unfolding k(1) reply_state_def same by (auto simp: request_codes after_reply_def)
  next
    case dscr
    then obtain sp n where "ep0_request hw buf req u k = ep0_reply hw buf sp (clamp_len (le16 (req ! 6) (req ! 7)) n) Ctrl_StatusGetDesc u k"
      and sp: "fits sp (unat n)" and s: "reply_state req = Ctrl_StatusGetDesc"
      using d by (auto simp: asked_descriptor_def ep0_request_def Let_def dscr_ok_def request_codes reply_state_def split: if_splits)
    then show ?thesis using reply [OF fits_clamp [OF sp], of "le16 (req ! 6) (req ! 7)" Ctrl_StatusGetDesc "dev_addr u"]
      unfolding k(1) s same by (fastforce simp: after_reply_def)
  next
    case none
    then have "reply_state req = Ctrl_StatusGetDesc" by (simp add: reply_state_def)
    moreover have "\<exists>k'. ep0_request hw buf req u k = Some (True, u, k')"
      using none by (auto simp: asked_descriptor_def ep0_request_def Let_def same split: if_splits)
    ultimately show ?thesis using quiet unfolding k(1) same by auto
  qed
qed

text \<open>
  A configuration descriptor longer than a packet is not answered: the length is passed on as eight bits, and when what is left
  exceeds 64 the assertion in the copy ends the program as soon as a host asks for the whole descriptor.
\<close>

theorem usb_long_descriptor_aborts:
  assumes laws: "usb_controller hw (usb_base u) view ok" and mem: "packet_memory hw (usb_base u) mem"
    and p: "parted view ok {unat buf} u h" and buf: "unat buf < 32" and c: "ctrl_state u = Ctrl_Setup"
    and req: "holds_request mem u buf req h" "req ! 1 = kUsbSetupReqGetDescriptor" "req ! 3 = kUsbDescTypeConfiguration"
    and long: "64 < unat (cfg_len u) mod 256" "unat (cfg_len u) \<le> unat (le16 (req ! 6) (req ! 7))"
  shows "usbdev_ep0_recv hw True buf 8 u h = None"
proof -
  have l: "usb_plain_law hw (usb_base u) view ok" "usb_in_law hw (usb_base u) view ok" "usb_done_law hw (usb_base u) ok"
    using laws by (simp_all add: usb_controller_def)
  obtain k where k: "usbdev_ep0_recv hw True buf 8 u h = ep0_request hw buf req u k" "parted view ok {unat buf} u k"
    using recv_request [OF l(1) mem buf req(1) c p] by blast
  have n: "clamp_len (le16 (req ! 6) (req ! 7)) (cfg_len u) = cfg_len u"
    using long(2) by (auto simp: clamp_len_def word_less_nat_alt word_unat_eq_iff)
  have "\<not> unat (ucast (cfg_len u) :: u8) \<le> USBDEV_MAX_PACKET_LEN"
    using long(1) by (simp add: USBDEV_MAX_PACKET_LEN_def unsigned_ucast_eq take_bit_eq_mod)
  then have w: "usbdev_buf_write hw v buf sp (ucast (cfg_len u)) g = None" for v sp g
    by (simp add: usbdev_buf_write_def)
  obtain v g where "usbdev_retract hw 0 u k = Some (v, g)" using retract_parted [OF l(2,3) k(2), of 0] by auto
  then have "ep0_reply hw buf (cfg_dscr u) (cfg_len u) c' u k = None" for c'
    by (simp add: ep0_reply_def usbdev_packet_send_def w)
  then show ?thesis using req(2,3) by (simp add: k(1) ep0_request_def n Let_def request_codes)
qed

section \<open>Witnesses on the controller\<close>

text \<open>A configured driver with one request in buffer 3, the others free.\<close>

definition demo_driver :: usbdev_state where
  "demo_driver = blank_usb\<lparr>usb_base := 0, buf_free := 0xFFFFFFF7, dev_dscr := (0, [18, 1, 0, 2]), dev_len := 4,
     cfg_dscr := (4, [9, 2]), cfg_len := 2\<rparr>"

definition demo_request :: "u32 \<Rightarrow> u32 \<Rightarrow> demo_usb" where
  "demo_request a b = demo_reset\<lparr>pmem := (\<lambda>x. 0)(0x8C0 := a, 0x8C4 := b)\<rparr>"

lemma demo_parted: "parted demo_view demo_ok {unat (3 :: u8)} demo_driver (demo_request a b)"
proof -
  have "bit (0xFFFFFFF7 :: u32) n \<longleftrightarrow> n < 32 \<and> n \<noteq> 3" for n
  proof -
    have "(0xFFFFFFF7 :: u32) = NOT (push_bit 3 1)" by (simp add: push_bit_of_1)
    moreover have "bit (NOT (push_bit 3 1) :: u32) n \<longleftrightarrow> n < 32 \<and> n \<noteq> 3" by (auto simp: bit_simps)
    ultimately show ?thesis by (simp only:)
  qed
  then show ?thesis
    by (auto simp: parted_def demo_request_def demo_reset_def demo_ok_def demo_view_def demo_driver_def)
qed

lemma demo_holds:
  "length req = 8 \<Longrightarrow> list_word req 0 = a \<Longrightarrow> list_word req 4 = b \<Longrightarrow> holds_request pmem demo_driver 3 req (demo_request a b)"
  by (simp add: holds_request_def demo_request_def packet_word_def USBDEV_BUFFER_def demo_driver_def)

lemma demo_driver_base: "usb_base demo_driver = 0"
  by (simp add: demo_driver_def)

lemma usb_descriptor_reply_witness:
  "\<exists>u' k. usbdev_ep0_recv demo_hw True 3 8 demo_driver (demo_request 0x01000680 0x00030000) = Some (False, u', k) \<and>
    ctrl_state u' = Ctrl_StatusGetDesc \<and> presented demo_hw demo_driver 3 [18, 1, 0] k"
proof -
  have "\<exists>u' k. usbdev_ep0_recv demo_hw True 3 8 demo_driver (demo_request 0x01000680 0x00030000) = Some (False, u', k) \<and>
    ctrl_state u' = Ctrl_StatusGetDesc \<and>
    presented demo_hw demo_driver 3 (take (min (unat (le16 ([0x80, 6, 0, 1, 0, 0, 3, 0] ! 6) ([0x80, 6, 0, 1, 0, 0, 3, 0] ! 7))) 4) [18, 1, 0, 2]) k"
    by (rule usb_descriptor_reply [OF _ _ demo_parted, of _ pmem])
      (simp_all add: demo_driver_base demo_controller demo_packet demo_holds list_word_def le32_def push_bit_of_1,
       simp_all add: demo_driver_def blank_usb_def dscr_ok_def fits_def asked_descriptor_def request_codes)
  then show ?thesis by (simp add: le16_def)
qed

lemma usb_control_requests_witness:
  "\<exists>rel u' k u'' g'. usbdev_ep0_recv demo_hw True 3 8 demo_driver (demo_request 0x00210500 0) = Some (rel, u', k) \<and>
    dev_state u' = Device_Reset \<and> usbdev_ep0_sent demo_hw u' demo_reset = (True, u'', g') \<and> dev_state u'' = Device_Addressed \<and>
    g' = DEV_WRITE demo_hw USBDEV_USBCTRL 0x00210001 demo_reset"
proof -
  have "\<exists>rel u' k u'' g'. usbdev_ep0_recv demo_hw True 3 8 demo_driver (demo_request 0x00210500 0) = Some (rel, u', k) \<and>
    dev_state u' = dev_state demo_driver \<and> usbdev_ep0_sent demo_hw u' demo_reset = (True, u'', g') \<and>
    after_reply demo_hw demo_driver (reply_state [0, 5, 0x21, 0, 0, 0, 0, 0]) ([0, 5, 0x21, 0, 0, 0, 0, 0] ! 2) (u'', g') demo_reset"
    by (rule usb_control_requests [OF _ _ demo_parted, of _ pmem])
      (simp_all add: demo_driver_base demo_controller demo_packet demo_holds list_word_def le32_def push_bit_of_1,
       simp_all add: demo_driver_def blank_usb_def dscr_ok_def fits_def)
  then show ?thesis
    by (auto simp: after_reply_def reply_state_def request_codes demo_driver_def blank_usb_def USBDEV_CTRL_ENABLE_def simp del: demo_sel)
qed

lemma usb_long_descriptor_aborts_witness:
  "usbdev_ep0_recv demo_hw True 3 8 (demo_driver\<lparr>cfg_len := 80\<rparr>) (demo_request 0x02000680 0x00FF0000) = None"
proof -
  let ?u = "demo_driver\<lparr>cfg_len := 80\<rparr>"
  have p: "parted demo_view demo_ok {unat (3 :: u8)} ?u (demo_request 0x02000680 0x00FF0000)"
    using demo_parted by (simp add: parted_def)
  have h: "holds_request pmem ?u 3 [0x80, 6, 0, 2, 0, 0, 0xFF, 0] (demo_request 0x02000680 0x00FF0000)"
    using demo_holds [of "[0x80, 6, 0, 2, 0, 0, 0xFF, 0]"] by (simp add: holds_request_def list_word_def le32_def)
  show ?thesis
    by (rule usb_long_descriptor_aborts [OF _ _ p _ _ h])
      (simp_all add: demo_driver_base demo_controller demo_packet request_codes le16_def,
       simp add: demo_driver_def blank_usb_def)
qed

end
