(* ===== verification/Timer.thy ===== *)
theory Timer
  imports Mmio
begin

unbundle bit_operations_syntax

text \<open>
  The machine timer of the older software stack (\<open>sw/legacy/common/timer.c\<close>): reading the 64-bit time through two 32-bit registers, setting
  the 64-bit compare value through two stores, and the interrupt handler. The control registers of the processor that
  the inline assembly sets are the record \<open>csrs\<close>. \<open>None\<close> is a read that never sees the time stand still long enough.
\<close>

section \<open>The driver\<close>

definition TIMER_BASE :: u32 where "TIMER_BASE = 0x80040000"
definition TIMER_MTIMECMP_REG :: u32 where "TIMER_MTIMECMP_REG = 0x4000"
definition TIMER_MTIMECMPH_REG :: u32 where "TIMER_MTIMECMPH_REG = 0x4004"
definition TIMER_MTIME_REG :: u32 where "TIMER_MTIME_REG = 0xbff8"
definition TIMER_MTIMEH_REG :: u32 where "TIMER_MTIMEH_REG = 0xbffc"
definition TIMER_IRQ :: u32 where "TIMER_IRQ = push_bit 7 1"
definition MSTATUS_MIE :: u32 where "MSTATUS_MIE = push_bit 3 1"

record csrs =
  mie :: u32
  mstatus :: u32

record timer_vars =
  time_elapsed :: u64
  time_increment :: u64

definition enable_interrupts :: "u32 \<Rightarrow> csrs \<Rightarrow> csrs" where
  "enable_interrupts enable_mask c = c\<lparr>mie := mie c OR enable_mask\<rparr>"

definition disable_interrupts :: "u32 \<Rightarrow> csrs \<Rightarrow> csrs" where
  "disable_interrupts disable_mask c = c\<lparr>mie := mie c AND NOT disable_mask\<rparr>"

definition arch_local_irq_save :: "csrs \<Rightarrow> u32 \<times> csrs" where
  "arch_local_irq_save c = (mstatus c, c\<lparr>mstatus := mstatus c AND NOT MSTATUS_MIE\<rparr>)"

definition arch_local_irq_restore :: "u32 \<Rightarrow> csrs \<Rightarrow> csrs" where
  "arch_local_irq_restore saved c = c\<lparr>mstatus := mstatus c OR (saved AND MSTATUS_MIE)\<rparr>"

definition arch_local_irq_enable :: "csrs \<Rightarrow> csrs" where
  "arch_local_irq_enable c = c\<lparr>mstatus := mstatus c OR MSTATUS_MIE\<rparr>"

definition arch_local_irq_disable :: "csrs \<Rightarrow> csrs" where
  "arch_local_irq_disable c = c\<lparr>mstatus := mstatus c AND NOT MSTATUS_MIE\<rparr>"

definition timecmp_update :: "'s mmio \<Rightarrow> u64 \<Rightarrow> 's \<Rightarrow> 's" where
  "timecmp_update hw new_time h =
    (let h = DEV_WRITE hw (TIMER_BASE + TIMER_MTIMECMP_REG) (- 1) h;
         h = DEV_WRITE hw (TIMER_BASE + TIMER_MTIMECMPH_REG) (ucast (drop_bit 32 new_time)) h
     in DEV_WRITE hw (TIMER_BASE + TIMER_MTIMECMP_REG) (ucast new_time) h)"

partial_function (option) timer_read :: "'s mmio \<Rightarrow> 's \<Rightarrow> (u64 \<times> 's) option" where
  "timer_read hw h =
    (case DEV_READ hw (TIMER_BASE + TIMER_MTIMEH_REG) h of (current_timeh, h) \<Rightarrow>
     case DEV_READ hw (TIMER_BASE + TIMER_MTIME_REG) h of (current_time, h) \<Rightarrow>
     case DEV_READ hw (TIMER_BASE + TIMER_MTIMEH_REG) h of (again, h) \<Rightarrow>
     if current_timeh \<noteq> again then timer_read hw h
     else Some (push_bit 32 (ucast current_timeh) OR ucast current_time, h))"

definition increment_timecmp :: "'s mmio \<Rightarrow> u64 \<Rightarrow> 's \<Rightarrow> 's option" where
  "increment_timecmp hw time_base h = do { (t, h) \<leftarrow> timer_read hw h; Some (timecmp_update hw (t + time_base) h) }"

definition simple_timer_handler :: "'s mmio \<Rightarrow> timer_vars \<Rightarrow> 's \<Rightarrow> (timer_vars \<times> 's) option" where
  "simple_timer_handler hw v h =
    do { h \<leftarrow> increment_timecmp hw (time_increment v) h; Some (v\<lparr>time_elapsed := time_elapsed v + 1\<rparr>, h) }"

definition get_elapsed_time :: "timer_vars \<Rightarrow> u64" where
  "get_elapsed_time v = time_elapsed v"

definition timer_enable :: "'s mmio \<Rightarrow> u64 \<Rightarrow> timer_vars \<Rightarrow> csrs \<Rightarrow> 's \<Rightarrow> (timer_vars \<times> csrs \<times> 's) option" where
  "timer_enable hw time_base v c h =
    do { h \<leftarrow> increment_timecmp hw time_base h;
         Some (v\<lparr>time_elapsed := 0, time_increment := time_base\<rparr>, arch_local_irq_enable (enable_interrupts TIMER_IRQ c), h) }"

definition timer_disable :: "csrs \<Rightarrow> csrs" where
  "timer_disable c = disable_interrupts 0x80 c"

section \<open>What the driver relies on\<close>

text \<open>
  The time register advances while it is read: a load returns the half of the time at some moment between the beginning and the
  end of the access, and takes fewer than \<open>2\<^sup>29\<close> ticks. \<open>now\<close> is the time since reset, as a number that does not wrap.
\<close>

definition timer_counts :: "'s mmio \<Rightarrow> ('s \<Rightarrow> nat) \<Rightarrow> bool" where
  "timer_counts hw now \<longleftrightarrow>
    (\<forall>h. \<exists>T h'. DEV_READ hw (TIMER_BASE + TIMER_MTIMEH_REG) h = (of_nat (T div 2 ^ 32), h') \<and>
       now h \<le> T \<and> T \<le> now h' \<and> now h' < now h + 2 ^ 29) \<and>
    (\<forall>h. \<exists>T h'. DEV_READ hw (TIMER_BASE + TIMER_MTIME_REG) h = (of_nat T, h') \<and>
       now h \<le> T \<and> T \<le> now h' \<and> now h' < now h + 2 ^ 29)"

lemma unat_join:
  assumes "T < 2 ^ 64"
  shows "unat (push_bit 32 (ucast (of_nat (T div 2 ^ 32) :: u32)) OR ucast (of_nat T :: u32) :: u64) = T"
proof -
  have "push_bit 32 (ucast (of_nat (T div 2 ^ 32) :: u32)) OR ucast (of_nat T :: u32) = (of_nat T :: u64)"
    unfolding drop_bit_eq_div [symmetric] by (rule bit_word_eqI) (auto simp: bit_simps simp del: drop_bit_of_nat)
  then show ?thesis using assms by (simp only: unat_of_nat) simp
qed

text \<open>One round of the loop: three moments, and the time if the first and the last agree in their upper halves.\<close>

lemma timer_round:
  assumes "timer_counts hw now"
  shows "\<exists>a b c h'. now h \<le> a \<and> a \<le> b \<and> b \<le> c \<and> c \<le> now h' \<and> now h' < now h + 3 * 2 ^ 29 \<and>
    timer_read hw h = (if (of_nat (a div 2 ^ 32) :: u32) \<noteq> of_nat (c div 2 ^ 32) then timer_read hw h'
      else Some (push_bit 32 (ucast (of_nat (a div 2 ^ 32) :: u32)) OR ucast (of_nat b :: u32), h'))"
proof -
  obtain a h1 where 1: "DEV_READ hw (TIMER_BASE + TIMER_MTIMEH_REG) h = (of_nat (a div 2 ^ 32), h1)"
    "now h \<le> a" "a \<le> now h1" "now h1 < now h + 2 ^ 29"
    using assms unfolding timer_counts_def by blast
  obtain b h2 where 2: "DEV_READ hw (TIMER_BASE + TIMER_MTIME_REG) h1 = (of_nat b, h2)"
    "now h1 \<le> b" "b \<le> now h2" "now h2 < now h1 + 2 ^ 29"
    using assms unfolding timer_counts_def by blast
  obtain c h3 where 3: "DEV_READ hw (TIMER_BASE + TIMER_MTIMEH_REG) h2 = (of_nat (c div 2 ^ 32), h3)"
    "now h2 \<le> c" "c \<le> now h3" "now h3 < now h2 + 2 ^ 29"
    using assms unfolding timer_counts_def by blast
  have "timer_read hw h = (if (of_nat (a div 2 ^ 32) :: u32) \<noteq> of_nat (c div 2 ^ 32) then timer_read hw h3
      else Some (push_bit 32 (ucast (of_nat (a div 2 ^ 32) :: u32)) OR ucast (of_nat b :: u32), h3))"
    by (subst timer_read.simps) (simp only: 1(1) 2(1) 3(1) prod.case)
  then show ?thesis using 1 2 3 by (intro exI [of _ a] exI [of _ b] exI [of _ c] exI [of _ h3]) simp
qed

lemma upper_half_eq:
  assumes "a < 2 ^ 64" "c < 2 ^ 64"
  shows "(of_nat (a div 2 ^ 32) :: u32) = of_nat (c div 2 ^ 32) \<longleftrightarrow> a div 2 ^ 32 = c div 2 ^ 32"
proof
  assume "(of_nat (a div 2 ^ 32) :: u32) = of_nat (c div 2 ^ 32)"
  then have "unat (of_nat (a div 2 ^ 32) :: u32) = unat (of_nat (c div 2 ^ 32) :: u32)" by simp
  then show "a div 2 ^ 32 = c div 2 ^ 32" using assms by (simp only: unat_of_nat) (simp add: div_less_iff_less_mult)
qed simp

lemma round_result:
  assumes "a \<le> b" "b \<le> c" "c < 2 ^ 64" "a div 2 ^ 32 = c div 2 ^ 32"
  shows "unat (push_bit 32 (ucast (of_nat (a div 2 ^ 32) :: u32)) OR ucast (of_nat b :: u32) :: u64) = b"
proof -
  have "a div 2 ^ 32 \<le> b div 2 ^ 32" "b div 2 ^ 32 \<le> c div 2 ^ 32" using assms(1,2) by (simp_all add: div_le_mono)
  then have "a div 2 ^ 32 = b div 2 ^ 32" using assms(4) by simp
  then show ?thesis using unat_join [of b] assms(2,3) by simp
qed

text \<open>
  C27. \<open>timer_read\<close> returns, and what it returns is the time at some moment during the call, although the two halves are read one after
  the other while the time goes on. At most two rounds are needed, because the upper half changes at most once in \<open>2\<^sup>32\<close> ticks.
\<close>

theorem timer_read_exact:
  assumes law: "timer_counts hw now" and bound: "now h + 2 ^ 32 \<le> 2 ^ 64"
  shows "\<exists>t h'. timer_read hw h = Some (t, h') \<and> now h \<le> unat t \<and> unat t \<le> now h'"
proof -
  obtain a b c k where 1: "now h \<le> a" "a \<le> b" "b \<le> c" "c \<le> now k" "now k < now h + 3 * 2 ^ 29"
    and r1: "timer_read hw h = (if (of_nat (a div 2 ^ 32) :: u32) \<noteq> of_nat (c div 2 ^ 32) then timer_read hw k
      else Some (push_bit 32 (ucast (of_nat (a div 2 ^ 32) :: u32)) OR ucast (of_nat b :: u32), k))"
    using timer_round [OF law, of h] by blast
  have u1: "a < 2 ^ 64" "c < 2 ^ 64" using 1 bound by simp_all
  show ?thesis
  proof (cases "a div 2 ^ 32 = c div 2 ^ 32")
    case True
    then show ?thesis using r1 1 round_result [OF 1(2,3) u1(2) True] by (simp add: True)
  next
    case False
    obtain a' b' c' m where 2: "now k \<le> a'" "a' \<le> b'" "b' \<le> c'" "c' \<le> now m" "now m < now k + 3 * 2 ^ 29"
      and r2: "timer_read hw k = (if (of_nat (a' div 2 ^ 32) :: u32) \<noteq> of_nat (c' div 2 ^ 32) then timer_read hw m
        else Some (push_bit 32 (ucast (of_nat (a' div 2 ^ 32) :: u32)) OR ucast (of_nat b' :: u32), m))"
      using timer_round [OF law, of k] by blast
    have u2: "a' < 2 ^ 64" "c' < 2 ^ 64" using 1 2 bound by simp_all
    have "c' < a + 2 ^ 32" using 1 2 by simp
    then have "c' div 2 ^ 32 \<le> a div 2 ^ 32 + 1" using div_le_mono [of c' "a + 2 ^ 32" "2 ^ 32"] by simp
    moreover have "a div 2 ^ 32 < c div 2 ^ 32" using False div_le_mono [of a c "2 ^ 32"] 1(2,3) by simp
    moreover have "c div 2 ^ 32 \<le> a' div 2 ^ 32" "a' div 2 ^ 32 \<le> c' div 2 ^ 32" using 1 2 by (simp_all add: div_le_mono)
    ultimately have e: "a' div 2 ^ 32 = c' div 2 ^ 32" by linarith
    have "timer_read hw h = timer_read hw k" using r1 upper_half_eq [OF u1] False by simp
    also have "\<dots> = Some (push_bit 32 (ucast (of_nat (a' div 2 ^ 32) :: u32)) OR ucast (of_nat b' :: u32), m)"
      unfolding r2 e by simp
    finally show ?thesis using 1 2 round_result [OF 2(2,3) u2(2) e] by (intro exI conjI) (assumption, simp_all)
  qed
qed

text \<open>A clock that advances by one tick with every access.\<close>

definition demo_clock :: "nat mmio" where
  "demo_clock = \<lparr>DEV_READ = (\<lambda>a n. (if a = TIMER_BASE + TIMER_MTIMEH_REG then of_nat (n div 2 ^ 32) else of_nat n, n + 1)),
     DEV_WRITE = (\<lambda>a v n. n)\<rparr>"

lemma timer_read_exact_witness: "\<exists>t h'. timer_read demo_clock 0xFFFFFFFF = Some (t, h') \<and> 0xFFFFFFFF \<le> unat t \<and> unat t \<le> h'"
proof (rule timer_read_exact [where now = "\<lambda>n. n"])
  show "timer_counts demo_clock (\<lambda>n. n)"
    by (auto simp: timer_counts_def demo_clock_def TIMER_BASE_def TIMER_MTIME_REG_def TIMER_MTIMEH_REG_def)
qed simp

section \<open>The compare value\<close>

text \<open>
  The compare register behind the two halves; \<open>low\<close> remembers the smallest value it has had, so that an interrupt that fires too
  early shows.
\<close>

definition timer_compares :: "'s mmio \<Rightarrow> ('s \<Rightarrow> u64) \<Rightarrow> ('s \<Rightarrow> u64) \<Rightarrow> bool" where
  "timer_compares hw cmp low \<longleftrightarrow> (\<forall>h v.
    (let h' = DEV_WRITE hw (TIMER_BASE + TIMER_MTIMECMP_REG) v h
     in cmp h' = (cmp h AND NOT (mask 32)) OR ucast v \<and> low h' = min (low h) (cmp h')) \<and>
    (let h' = DEV_WRITE hw (TIMER_BASE + TIMER_MTIMECMPH_REG) v h
     in cmp h' = (cmp h AND mask 32) OR push_bit 32 (ucast v) \<and> low h' = min (low h) (cmp h')))"

lemma or_mask_ge: "x \<le> x OR (mask 32 :: u64)"
  by (rule le_word_or2)

text \<open>
  Setting the compare value never lets it fall below both the old and the new one, so no interrupt fires that neither of them would
  cause: the lower half is set to its maximum before the upper half changes. At the end the register holds the new value.
\<close>

theorem timecmp_update_quiet:
  assumes law: "timer_compares hw cmp low"
  shows "cmp (timecmp_update hw n h) = n \<and> min (low h) (min (cmp h) n) \<le> low (timecmp_update hw n h)"
proof -
  let ?h1 = "DEV_WRITE hw (TIMER_BASE + TIMER_MTIMECMP_REG) (- 1) h"
  let ?h2 = "DEV_WRITE hw (TIMER_BASE + TIMER_MTIMECMPH_REG) (ucast (drop_bit 32 n)) ?h1"
  let ?h3 = "DEV_WRITE hw (TIMER_BASE + TIMER_MTIMECMP_REG) (ucast n) ?h2"
  have 1: "cmp ?h1 = (cmp h AND NOT (mask 32)) OR ucast (- 1 :: u32)" "low ?h1 = min (low h) (cmp ?h1)"
    and 2: "cmp ?h2 = (cmp ?h1 AND mask 32) OR push_bit 32 (ucast (ucast (drop_bit 32 n) :: u32))" "low ?h2 = min (low ?h1) (cmp ?h2)"
    and 3: "cmp ?h3 = (cmp ?h2 AND NOT (mask 32)) OR ucast (ucast n :: u32)" "low ?h3 = min (low ?h2) (cmp ?h3)"
    using law unfolding timer_compares_def Let_def by blast+
  have c1: "cmp ?h1 = cmp h OR mask 32" unfolding 1(1) by (rule bit_word_eqI) (auto simp: bit_simps)
  have c2: "cmp ?h2 = n OR mask 32" unfolding 2(1) c1 by (rule bit_word_eqI) (auto simp: bit_simps)
  have c3: "cmp ?h3 = n" unfolding 3(1) c2 by (rule bit_word_eqI) (auto simp: bit_simps)
  have "low ?h3 = min (min (min (low h) (cmp h OR mask 32)) (n OR mask 32)) n"
    unfolding 3(2) 2(2) 1(2) c1 c2 c3 ..
  moreover have "cmp h \<le> cmp h OR mask 32" "n \<le> n OR mask 32" by (rule or_mask_ge)+
  ultimately have "min (low h) (min (cmp h) n) \<le> low ?h3" by (simp add: min_le_iff_disj)
  then show ?thesis using c3 by (simp add: timecmp_update_def Let_def)
qed

definition demo_compare :: "(u64 \<times> u64) mmio" where
  "demo_compare = \<lparr>DEV_READ = (\<lambda>a s. (0, s)), DEV_WRITE = (\<lambda>a v (c, l).
     let c' = (if a = TIMER_BASE + TIMER_MTIMECMP_REG then (c AND NOT (mask 32)) OR ucast v else (c AND mask 32) OR push_bit 32 (ucast v))
     in (c', min l c'))\<rparr>"

lemma timecmp_update_quiet_witness:
  "fst (timecmp_update demo_compare 0x100000005 (0xFFFFFFFF0, 0xFFFFFFFF0)) = 0x100000005 \<and>
   (0x100000005 :: u64) \<le> snd (timecmp_update demo_compare 0x100000005 (0xFFFFFFFF0, 0xFFFFFFFF0))"
proof -
  have "timer_compares demo_compare fst snd"
    by (auto simp: timer_compares_def demo_compare_def Let_def TIMER_BASE_def TIMER_MTIMECMP_REG_def TIMER_MTIMECMPH_REG_def)
  from timecmp_update_quiet [OF this, of "0x100000005" "(0xFFFFFFFF0, 0xFFFFFFFF0)"] show ?thesis by simp
qed

end
