(* ===== verification/Legacy_System.thy ===== *)
theory Legacy_System
  imports Timer
begin

unbundle bit_operations_syntax

text \<open>
  The runtime of the older software stack (\<open>sw/legacy/common/sonata_system.c\<close>, \<open>uart.c\<close>): the UART, the output of strings and numbers, and
  the installation of exception handlers. \<open>None\<close> is a transmitter that stays full for ever or a string without an end.
  \<open>snputhexn\<close> returns the digits it stores; how many they are is its result in the code.
\<close>

section \<open>UART\<close>

definition UART_CTRL_REG :: u32 where "UART_CTRL_REG = 0x10"
definition UART_STATUS_REG :: u32 where "UART_STATUS_REG = 0x14"
definition UART_RX_REG :: u32 where "UART_RX_REG = 0x18"
definition UART_TX_REG :: u32 where "UART_TX_REG = 0x1C"
definition UART_STATUS_RX_EMPTY :: u32 where "UART_STATUS_RX_EMPTY = 0x20"
definition UART_STATUS_TX_FULL :: u32 where "UART_STATUS_TX_FULL = 1"
definition UART0_BASE :: u32 where "UART0_BASE = 0x80100000"
definition UART_IRQ :: u32 where "UART_IRQ = push_bit 8 1"
definition BAUD_RATE :: u64 where "BAUD_RATE = 921600"
definition SYSCLK_FREQ :: u64 where "SYSCLK_FREQ = 40000000"

definition uart_enable_rx_int :: "csrs \<Rightarrow> csrs" where
  "uart_enable_rx_int c = arch_local_irq_enable (enable_interrupts UART_IRQ c)"

definition uart_init :: "'s mmio \<Rightarrow> u32 \<Rightarrow> 's \<Rightarrow> int \<times> 's" where
  "uart_init hw uart h =
    (let nco = ucast (push_bit 20 BAUD_RATE div SYSCLK_FREQ) :: u32
     in (0, DEV_WRITE hw (uart + UART_CTRL_REG) (push_bit 16 nco OR 0x3) h))"

definition uart_in :: "'s mmio \<Rightarrow> u32 \<Rightarrow> 's \<Rightarrow> int \<times> 's" where
  "uart_in hw uart h =
    (case DEV_READ hw (uart + UART_STATUS_REG) h of (s, h) \<Rightarrow>
     if s AND UART_STATUS_RX_EMPTY = 0 then case DEV_READ hw (uart + UART_RX_REG) h of (r, h) \<Rightarrow> (sint r, h) else (- 1, h))"

partial_function (option) uart_out :: "'s mmio \<Rightarrow> u32 \<Rightarrow> u8 \<Rightarrow> 's \<Rightarrow> 's option" where
  "uart_out hw uart c h =
    (case DEV_READ hw (uart + UART_STATUS_REG) h of (s, h) \<Rightarrow>
     if s AND UART_STATUS_TX_FULL \<noteq> 0 then uart_out hw uart c h
     else Some (DEV_WRITE hw (uart + UART_TX_REG) (ucast c) h))"

section \<open>Output\<close>

definition putchar :: "'s mmio \<Rightarrow> u8 \<Rightarrow> 's \<Rightarrow> 's option" where
  "putchar hw c h =
    do { h \<leftarrow> (if c = 0x0A then uart_out hw UART0_BASE 0x0D h else Some h);
         uart_out hw UART0_BASE c h }"

definition getchar :: "'s mmio \<Rightarrow> 's \<Rightarrow> int \<times> 's" where
  "getchar hw h = uart_in hw UART0_BASE h"

fun putstr :: "'s mmio \<Rightarrow> u8 list \<Rightarrow> 's \<Rightarrow> 's option" where
  "putstr hw [] h = None"
| "putstr hw (c # cs) h = (if c = 0 then Some h else do { h \<leftarrow> putchar hw c h; putstr hw cs h })"

definition puts_line :: "'s mmio \<Rightarrow> u8 list \<Rightarrow> 's \<Rightarrow> 's option" where
  "puts_line hw str h = do { h \<leftarrow> putstr hw str h; putchar hw 0x0A h }"

definition hex_udigits :: "u8 list" where
  "hex_udigits = [0x30, 0x31, 0x32, 0x33, 0x34, 0x35, 0x36, 0x37, 0x38, 0x39, 0x41, 0x42, 0x43, 0x44, 0x45, 0x46]"

definition dec_powers :: "u32 list" where
  "dec_powers = [1, 10, 100, 1000, 10000, 100000, 1000000, 10000000, 100000000, 1000000000]"

fun hex_loop :: "nat \<Rightarrow> u32 \<Rightarrow> u8 list" where
  "hex_loop 0 h = []"
| "hex_loop (Suc n) h = hex_udigits ! unat (drop_bit 28 h) # hex_loop n (push_bit 4 h)"

definition snputhexn :: "nat \<Rightarrow> u32 \<Rightarrow> nat \<Rightarrow> u8 list" where
  "snputhexn sz h n =
    (let h' = (if n < 8 then push_bit ((8 - n) * 4) h else h);
         n' = (if n < 8 then n else 8);
         n'' = (if n' > sz then sz else n')
     in hex_loop n'' h')"

fun putchars :: "'s mmio \<Rightarrow> u8 list \<Rightarrow> 's \<Rightarrow> 's option" where
  "putchars hw [] h = Some h"
| "putchars hw (c # cs) h = do { h \<leftarrow> putchar hw c h; putchars hw cs h }"

definition puthexn :: "'s mmio \<Rightarrow> u32 \<Rightarrow> nat \<Rightarrow> 's \<Rightarrow> 's option" where
  "puthexn hw v n h = putchars hw (snputhexn 8 v n) h"

definition puthex :: "'s mmio \<Rightarrow> u32 \<Rightarrow> 's \<Rightarrow> 's option" where
  "puthex hw v h = puthexn hw v 8 h"

function dec_digits :: "u32 \<Rightarrow> nat \<Rightarrow> nat" where
  "dec_digits d idx = (if idx < length dec_powers \<and> dec_powers ! idx \<le> d then dec_digits d (idx + 1) else idx)"
  by pat_completeness auto
termination
  by (relation "measure (\<lambda>(d, idx). length dec_powers - idx)") auto

declare dec_digits.simps [simp del]

fun dec_loop :: "'s mmio \<Rightarrow> u32 \<Rightarrow> nat \<Rightarrow> 's \<Rightarrow> 's option" where
  "dec_loop hw d 0 h = Some h"
| "dec_loop hw d (Suc idx) h =
    (let num = d div dec_powers ! idx;
         d = d - num * dec_powers ! idx
     in do { h \<leftarrow> putchar hw (0x30 + ucast num) h; dec_loop hw d idx h })"

definition putdec :: "'s mmio \<Rightarrow> u32 \<Rightarrow> 's \<Rightarrow> 's option" where
  "putdec hw d h = (if d \<noteq> 0 then dec_loop hw d (dec_digits d 0) h else putchar hw 0x30 h)"

definition sim_halt :: "'s mmio \<Rightarrow> 's \<Rightarrow> 's" where
  "sim_halt hw h = DEV_WRITE hw (0x20000 + 0x8) 1 h"

section \<open>Exception handlers\<close>

definition install_exception_handler :: "'s mmio \<Rightarrow> u32 \<Rightarrow> u32 \<Rightarrow> u32 \<Rightarrow> 's \<Rightarrow> int \<times> 's" where
  "install_exception_handler hw exc_vectors vector_num handler_fn h =
    (if vector_num \<ge> 32 then (1, h)
     else let handler_jmp_loc = exc_vectors + 4 * vector_num;
              offset = handler_fn - handler_jmp_loc
       in if sint offset \<ge> 2 ^ 19 \<or> sint offset < - (2 ^ 19) then (2, h)
          else let jmp_ins = push_bit 20 (offset AND 0x7fe) OR push_bit 9 (offset AND 0x800) OR (offset AND 0xff000) OR
                     push_bit 11 (offset AND 0x100000) OR 0x6f
            in (0, DEV_WRITE hw handler_jmp_loc jmp_ins h))"

definition timer_init :: "'s mmio \<Rightarrow> u32 \<Rightarrow> u32 \<Rightarrow> 's \<Rightarrow> 's" where
  "timer_init hw exc_vectors simple_handler h = snd (install_exception_handler hw exc_vectors 7 simple_handler h)"

section \<open>Numbers are printed as numbers\<close>

fun decimal :: "nat \<Rightarrow> u8 list" where
  "decimal n = (if n < 10 then [0x30 + of_nat n] else decimal (n div 10) @ [0x30 + of_nat (n mod 10)])"

declare decimal.simps [simp del]

text \<open>The digits the loop prints: a fixed number of them, from the highest power down.\<close>

fun padded :: "nat \<Rightarrow> nat \<Rightarrow> u8 list" where
  "padded 0 n = []"
| "padded (Suc k) n = (0x30 + of_nat (n div 10 ^ k)) # padded k (n mod 10 ^ k)"

lemma dec_power: "k < 10 \<Longrightarrow> unat (dec_powers ! k) = 10 ^ k"
proof -
  assume "k < 10"
  then have "k \<in> {0, 1, 2, 3, 4, 5, 6, 7, 8, 9}" by auto
  then show ?thesis by (elim insertE) (simp_all add: dec_powers_def)
qed

lemma dec_loop_padded: "k \<le> 10 \<Longrightarrow> dec_loop hw d k h = putchars hw (padded k (unat d)) h"
proof (induction k arbitrary: d h)
  case (Suc k)
  have p: "unat (dec_powers ! k) = 10 ^ k" using Suc.prems by (simp add: dec_power)
  have "ucast (d div dec_powers ! k) = (of_nat (unat d div 10 ^ k) :: u8)"
    by (metis p unat_div of_nat_unat)
  moreover have "d - d div dec_powers ! k * dec_powers ! k = d mod dec_powers ! k" by (rule minus_div_mult_eq_mod)
  moreover have "unat (d mod dec_powers ! k) = unat d mod 10 ^ k" by (simp add: unat_mod p)
  ultimately show ?case using Suc.IH Suc.prems by (auto simp: Let_def intro!: Option.bind_cong)
qed simp

lemma padded_snoc: "n < 10 ^ Suc k \<Longrightarrow> padded (Suc k) n = padded k (n div 10) @ [0x30 + of_nat (n mod 10)]"
proof (induction k arbitrary: n)
  case 0
  then show ?case by simp
next
  case (Suc k)
  have "padded (Suc (Suc k)) n = (0x30 + of_nat (n div 10 ^ Suc k)) # padded (Suc k) (n mod 10 ^ Suc k)" by simp
  also have "padded (Suc k) (n mod 10 ^ Suc k) = padded k (n mod 10 ^ Suc k div 10) @ [0x30 + of_nat (n mod 10 ^ Suc k mod 10)]"
    by (rule Suc.IH) simp
  also have "n mod 10 ^ Suc k mod 10 = n mod 10" by (simp add: mod_mod_cancel)
  also have "n mod 10 ^ Suc k div 10 = (n div 10) mod 10 ^ k" by (simp add: mod_mult2_eq)
  also have "n div 10 ^ Suc k = n div 10 div 10 ^ k" by (simp add: div_mult2_eq)
  finally show ?case by simp
qed

lemma padded_decimal: "10 ^ k \<le> n \<Longrightarrow> n < 10 ^ Suc k \<Longrightarrow> padded (Suc k) n = decimal n"
proof (induction k arbitrary: n)
  case 0
  then show ?case by (simp add: decimal.simps)
next
  case (Suc k)
  then have "10 ^ k \<le> n div 10" "n div 10 < 10 ^ Suc k" by (simp_all add: less_eq_div_iff_mult_less_eq div_less_iff_less_mult mult.commute)
  moreover have "\<not> n < 10"
  proof -
    have "10 \<le> 10 * (10 :: nat) ^ k" by simp
    also have "\<dots> \<le> n" using Suc.prems(1) by simp
    finally show ?thesis by simp
  qed
  ultimately show ?case using Suc.IH [of "n div 10"] padded_snoc [OF Suc.prems(2)] by (simp add: decimal.simps [of n])
qed

lemma dec_digits_bound:
  "idx \<le> 10 \<Longrightarrow> (\<forall>j < idx. 10 ^ j \<le> unat d) \<Longrightarrow>
    dec_digits d idx \<le> 10 \<and> (\<forall>j < dec_digits d idx. 10 ^ j \<le> unat d) \<and> unat d < 10 ^ dec_digits d idx"
proof (induction d idx rule: dec_digits.induct)
  case (1 d idx)
  have l: "length dec_powers = 10" by (simp add: dec_powers_def)
  show ?case
  proof (cases "idx < 10 \<and> dec_powers ! idx \<le> d")
    case True
    then have "10 ^ idx \<le> unat d" using dec_power [of idx] by (auto simp: word_le_nat_alt)
    then have "\<forall>j < idx + 1. 10 ^ j \<le> unat d" using "1.prems"(2) by (auto simp: less_Suc_eq)
    moreover have "dec_digits d idx = dec_digits d (idx + 1)" using True l by (simp add: dec_digits.simps [of d idx])
    ultimately show ?thesis using "1.IH" True l by simp
  next
    case False
    then have e: "dec_digits d idx = idx" using l by (auto simp: dec_digits.simps [of d idx])
    have "unat d < 10 ^ idx"
    proof (cases "idx < 10")
      case True
      then show ?thesis using False dec_power [of idx] by (auto simp: word_le_nat_alt)
    next
      case False
      then have "idx = 10" using "1.prems"(1) by simp
      then show ?thesis using unsigned_less [of d, where 'a = nat] by simp
    qed
    then show ?thesis using e "1.prems" by simp
  qed
qed

text \<open>
  \<open>putdec\<close> prints the decimal representation of every 32-bit number, with no leading zeros, zero included.
\<close>

theorem putdec_decimal: "putdec hw d h = putchars hw (decimal (unat d)) h"
proof (cases "d = 0")
  case True
  then show ?thesis by (simp add: putdec_def decimal.simps bind_eq_Some_conv split: bind_split)
next
  case False
  let ?k = "dec_digits d 0"
  have k: "?k \<le> 10" "\<forall>j < ?k. 10 ^ j \<le> unat d" "unat d < 10 ^ ?k" using dec_digits_bound [of 0 d] by simp_all
  have "unat d \<noteq> 0" using False by (simp add: unat_eq_zero)
  then obtain m where m: "?k = Suc m" using k(3) by (cases ?k) auto
  then have "padded ?k (unat d) = decimal (unat d)" using padded_decimal [of m "unat d"] k by simp
  then show ?thesis using False dec_loop_padded [OF k(1), of hw d h] by (simp add: putdec_def)
qed

section \<open>Handlers are reached\<close>

text \<open>What the processor makes of the instruction: the offset of a \<open>jal\<close>, as the instruction set defines it.\<close>

definition jal_offset :: "u32 \<Rightarrow> u32" where
  "jal_offset i = signed_take_bit 20
    (push_bit 1 (drop_bit 21 i AND 0x3ff) OR push_bit 11 (drop_bit 20 i AND 1) OR (i AND 0xff000) OR push_bit 20 (drop_bit 31 i))"

lemma small_sign:
  assumes "- (2 ^ 19) \<le> sint (w :: u32)" "sint w < 2 ^ 19" "19 \<le> n" "n < 32"
  shows "bit w n \<longleftrightarrow> bit w 31"
proof -
  have e: "signed_take_bit 19 (sint w) = sint w" using assms(1,2) by (simp add: signed_take_bit_int_eq_self)
  have a: "bit (sint w) m \<longleftrightarrow> bit (sint w) 19" if "19 \<le> m" for m
    using that by (subst e [symmetric]) (simp add: bit_signed_take_bit_iff min_absorb2)
  have b: "bit (sint w) m \<longleftrightarrow> bit w m" if "m < 32" for m
    using that by (simp add: bit_sint_iff)
  show ?thesis using a [of n] a [of 31] b [of n] b [of 31] assms(3,4) by simp
qed

lemma jal_offset_encode:
  assumes "- (2 ^ 19) \<le> sint (w :: u32)" "sint w < 2 ^ 19" "\<not> bit w 0"
  shows "jal_offset (push_bit 20 (w AND 0x7fe) OR push_bit 9 (w AND 0x800) OR (w AND 0xff000) OR push_bit 11 (w AND 0x100000) OR 0x6f) = w"
proof (rule bit_word_eqI)
  fix n
  assume "n < LENGTH(32)"
  let ?i = "push_bit 20 (w AND 0x7fe) OR push_bit 9 (w AND 0x800) OR (w AND 0xff000) OR push_bit 11 (w AND 0x100000) OR 0x6f"
  let ?r = "push_bit 1 (drop_bit 21 ?i AND 0x3ff) OR push_bit 11 (drop_bit 20 ?i AND 1) OR (?i AND 0xff000) OR push_bit 20 (drop_bit 31 ?i)"
  have low: "bit ?r m \<longleftrightarrow> bit w m" if "m \<le> 20" for m
  proof -
    have "m \<in> {0, 1, 2, 3, 4, 5, 6, 7, 8, 9, 10, 11, 12, 13, 14, 15, 16, 17, 18, 19, 20}" using that by (simp only: insert_iff empty_iff) presburger
    then show ?thesis 
      using assms(3) unfolding bit_or_iff bit_push_bit_iff bit_and_iff bit_drop_bit_eq o_apply by (elim insertE) (simp_all add: bit_simps)
  qed
  have "bit (jal_offset ?i) n \<longleftrightarrow> bit ?r (min 20 n)" using \<open>n < LENGTH(32)\<close> unfolding jal_offset_def by (simp only: bit_signed_take_bit_iff) simp
  also have "\<dots> \<longleftrightarrow> bit w (min 20 n)" by (rule low) simp
  also have "\<dots> \<longleftrightarrow> bit w n"
    using small_sign [OF assms(1,2), of n] small_sign [OF assms(1,2), of 20] \<open>n < LENGTH(32)\<close> by (simp add: min_def)
  finally show "bit (jal_offset ?i) n \<longleftrightarrow> bit w n" .
qed

text \<open>
  C29. The instruction \<open>install_exception_handler\<close> stores in the vector table is a jump to the handler: executed at the address of its
  vector, with the offset decoded as the instruction set prescribes and no return address kept, it continues at the
  handler. A vector number of 32 or more is refused with 1, a handler farther than \<open>2\<^sup>19\<close> bytes away with 2, and then nothing is
  stored.
\<close>

theorem handler_installed:
  assumes "\<not> bit (handler - (vectors + 4 * n)) 0"
  shows "(n \<ge> 32 \<longrightarrow> install_exception_handler hw vectors n handler h = (1, h)) \<and>
    (n < 32 \<longrightarrow>
      (if sint (handler - (vectors + 4 * n)) \<in> {- (2 ^ 19) ..< 2 ^ 19}
       then \<exists>i. install_exception_handler hw vectors n handler h = (0, DEV_WRITE hw (vectors + 4 * n) i h) \<and>
                i AND 0xfff = 0x06f \<and> (vectors + 4 * n) + jal_offset i = handler
       else install_exception_handler hw vectors n handler h = (2, h)))"
proof -
  let ?a = "vectors + 4 * n" and ?o = "handler - (vectors + 4 * n)"
  let ?i = "push_bit 20 (?o AND 0x7fe) OR push_bit 9 (?o AND 0x800) OR (?o AND 0xff000) OR push_bit 11 (?o AND 0x100000) OR 0x6f"
  have m: "?i AND 0xfff = 0x06f"
  proof -
    have f: "(0xfff :: u32) = mask 12" by (simp add: mask_eq_exp_minus_1)
    have "bit ?i k \<longleftrightarrow> bit (0x6f :: u32) k" if "k < 12" for k
    proof -
      have "k \<in> {0, 1, 2, 3, 4, 5, 6, 7, 8, 9, 10, 11}" using that by (simp only: insert_iff empty_iff) presburger
      then show ?thesis unfolding bit_or_iff bit_push_bit_iff bit_and_iff by (elim insertE) simp_all
    qed
    then have "?i AND mask 12 = 0x6f AND mask 12" by (auto simp: bit_eq_iff bit_and_iff bit_mask_iff simp del: bit_or_iff)
    also have "\<dots> = (0x6f :: u32)" unfolding f [symmetric] by simp
    finally show ?thesis unfolding f .
  qed
  have "install_exception_handler hw vectors n handler h = (0, DEV_WRITE hw ?a ?i h) \<and> ?a + jal_offset ?i = handler"
    if "n < 32" "- (2 ^ 19) \<le> sint ?o" "sint ?o < 2 ^ 19"
    using that jal_offset_encode [OF that(2,3) assms] by (simp add: install_exception_handler_def Let_def)
  moreover have "install_exception_handler hw vectors n handler h = (2, h)" if "n < 32" "\<not> (- (2 ^ 19) \<le> sint ?o \<and> sint ?o < 2 ^ 19)"
    using that by (auto simp: install_exception_handler_def Let_def)
  moreover have "install_exception_handler hw vectors n handler h = (1, h)" if "n \<ge> 32"
    using that by (simp add: install_exception_handler_def)
  ultimately show ?thesis using m by auto
qed

lemma handler_installed_witness:
  "\<exists>i. install_exception_handler demo_compare 0x100000 7 0x101234 (0, 0) = (0, DEV_WRITE demo_compare 0x10001C i (0, 0)) \<and>
     i AND 0xfff = 0x06f \<and> 0x10001C + jal_offset i = 0x101234"
proof -
  have "\<not> bit ((0x101234 :: u32) - (0x100000 + 4 * 7)) 0" by simp
  from handler_installed [OF this, of demo_compare "(0, 0)"] show ?thesis by simp
qed

end
