(* ===== verification/Plic.thy ===== *)
theory Plic
  imports Legacy_System
begin

unbundle bit_operations_syntax

text \<open>
  The drivers of the interrupt controller: class \<open>SonataPlic\<close> (\<open>sw/cheri/common/sonata_plic.hh\<close>), which reaches the registers through bounded
  capabilities, and \<open>sw/legacy/common/rv_plic.c\<close>, which also dispatches interrupts. \<open>None\<close> is an access outside the bounds of a capability
  or an array, a call of a handler that is not there, or a dispatcher that never runs out of interrupts.
\<close>

section \<open>Class \<open>SonataPlic\<close>\<close>

definition PLIC_ADDRESS :: u32 where "PLIC_ADDRESS = 0x88000000"
definition MaxIntrID :: u32 where "MaxIntrID = 31"
definition PriorityOffset :: u32 where "PriorityOffset = 0x0"
definition PendingOffset :: u32 where "PendingOffset = 0x1000"
definition EnableOffset :: u32 where "EnableOffset = 0x2000"
definition ThresholdOffset :: u32 where "ThresholdOffset = 0x200000"
definition ClaimOffset :: u32 where "ClaimOffset = 0x200004"

text \<open>A member is a capability to words: its address and its length in bytes.\<close>

record plic_field =
  field_addr :: u32
  field_size :: u32

record SonataPlic =
  plicPrios :: plic_field
  plicPendings :: plic_field
  plicEnables :: plic_field
  plicThres :: plic_field
  plicClaim :: plic_field

definition field_ok :: "plic_field \<Rightarrow> u32 \<Rightarrow> bool" where
  "field_ok f i \<longleftrightarrow> 4 * unat i + 4 \<le> unat (field_size f)"

definition field_read :: "'s mmio \<Rightarrow> plic_field \<Rightarrow> u32 \<Rightarrow> 's \<Rightarrow> (u32 \<times> 's) option" where
  "field_read hw f i h = (if field_ok f i then Some (DEV_READ hw (field_addr f + 4 * i) h) else None)"

definition field_write :: "'s mmio \<Rightarrow> plic_field \<Rightarrow> u32 \<Rightarrow> u32 \<Rightarrow> 's \<Rightarrow> 's option" where
  "field_write hw f i v h = (if field_ok f i then Some (DEV_WRITE hw (field_addr f + 4 * i) v h) else None)"

definition setField :: "u32 \<Rightarrow> u32 \<Rightarrow> plic_field" where
  "setField offset sz = \<lparr>field_addr = PLIC_ADDRESS + offset, field_size = sz\<rparr>"

function clear_loop :: "'s mmio \<Rightarrow> plic_field \<Rightarrow> nat \<Rightarrow> nat \<Rightarrow> 's \<Rightarrow> 's option" where
  "clear_loop hw f i n h =
    (if i < n then do { h \<leftarrow> field_write hw f (of_nat i) 0 h; clear_loop hw f (i + 1) n h } else Some h)"
  by pat_completeness auto
termination
  by (relation "measure (\<lambda>(hw, f, i, n, h). n - i)") auto

declare clear_loop.simps [simp del]

definition SonataPlic_new :: "'s mmio \<Rightarrow> 's \<Rightarrow> (SonataPlic \<times> 's) option" where
  "SonataPlic_new hw h =
    (let nSources = (MaxIntrID + 31) AND NOT 0x1f;
         nSourcesGroups = drop_bit 5 nSources;
         p = \<lparr>plicPrios = setField PriorityOffset (nSources * 4), plicPendings = setField PendingOffset (nSources div 8),
              plicEnables = setField EnableOffset (nSources div 8), plicThres = setField ThresholdOffset 4,
              plicClaim = setField ClaimOffset 4\<rparr>
     in do { h \<leftarrow> clear_loop hw (plicEnables p) 0 (unat nSourcesGroups) h;
             h \<leftarrow> clear_loop hw (plicPrios p) 1 (unat MaxIntrID + 1) h;
             h \<leftarrow> field_write hw (plicThres p) 0 0 h;
             Some (p, h) })"

definition interrupt_enable :: "'s mmio \<Rightarrow> SonataPlic \<Rightarrow> u32 \<Rightarrow> 's \<Rightarrow> 's option" where
  "interrupt_enable hw p num h =
    (let idx = drop_bit 5 num; bitPos = num AND 0x1f
     in do { (v, h) \<leftarrow> field_read hw (plicEnables p) idx h;
             field_write hw (plicEnables p) idx (v OR push_bit (unat bitPos) 1) h })"

definition interrupt_disable :: "'s mmio \<Rightarrow> SonataPlic \<Rightarrow> u32 \<Rightarrow> 's \<Rightarrow> 's option" where
  "interrupt_disable hw p num h =
    (let idx = drop_bit 5 num; bitPos = num AND 0x1f
     in do { (v, h) \<leftarrow> field_read hw (plicEnables p) idx h;
             field_write hw (plicEnables p) idx (v AND NOT (push_bit (unat bitPos) 1)) h })"

definition priority_set :: "'s mmio \<Rightarrow> SonataPlic \<Rightarrow> u32 \<Rightarrow> u32 \<Rightarrow> 's \<Rightarrow> 's option" where
  "priority_set hw p src prio h = field_write hw (plicPrios p) src prio h"

definition interrupt_claim :: "'s mmio \<Rightarrow> SonataPlic \<Rightarrow> 's \<Rightarrow> (u32 option \<times> 's) option" where
  "interrupt_claim hw p h =
    do { (claim, h) \<leftarrow> field_read hw (plicClaim p) 0 h; Some (if claim = 0 then None else Some claim, h) }"

definition interrupt_complete :: "'s mmio \<Rightarrow> SonataPlic \<Rightarrow> u32 \<Rightarrow> 's \<Rightarrow> 's option" where
  "interrupt_complete hw p src h = field_write hw (plicClaim p) 0 src h"

section \<open>\<open>rv_plic.c\<close>\<close>

definition RV_PLIC_BASE :: u32 where "RV_PLIC_BASE = 0x88000000"
definition RV_PLIC_IRQ_PRIO_BASE_REG :: u32 where "RV_PLIC_IRQ_PRIO_BASE_REG = 0x000000"
definition RV_PLIC_IRQ_PENDING_BASE_REG :: u32 where "RV_PLIC_IRQ_PENDING_BASE_REG = 0x001000"
definition RV_PLIC_IRQ_ENABLE_BASE_REG :: u32 where "RV_PLIC_IRQ_ENABLE_BASE_REG = 0x002000"
definition RV_PLIC_CTX_THRESHOLD_REG :: u32 where "RV_PLIC_CTX_THRESHOLD_REG = 0x200000"
definition RV_PLIC_CTX_CLAIM_REG :: u32 where "RV_PLIC_CTX_CLAIM_REG = 0x200004"
definition RV_PLIC_CTX_COMPLETION_REG :: u32 where "RV_PLIC_CTX_COMPLETION_REG = 0x200004"
definition NUM_IRQS :: nat where "NUM_IRQS = 32"

text \<open>The table of handlers; an entry is a null pointer (\<open>None\<close>) or a function, which may not return.\<close>

type_synonym 's irq_handlers = "(u32 \<Rightarrow> 's \<Rightarrow> 's option) option list"

definition call_handler :: "'s irq_handlers \<Rightarrow> u32 \<Rightarrow> 's \<Rightarrow> 's option" where
  "call_handler hs irq h =
    (if unat irq < length hs then case hs ! unat irq of None \<Rightarrow> None | Some f \<Rightarrow> f irq h else None)"

partial_function (option) rv_plic_handler :: "'s mmio \<Rightarrow> 's irq_handlers \<Rightarrow> 's \<Rightarrow> 's option" where
  "rv_plic_handler hw hs h =
    (case DEV_READ hw (RV_PLIC_BASE + RV_PLIC_CTX_CLAIM_REG) h of (claim, h) \<Rightarrow>
     if claim = 0 then Some h
     else do { h \<leftarrow> call_handler hs claim h;
               rv_plic_handler hw hs (DEV_WRITE hw (RV_PLIC_BASE + RV_PLIC_CTX_COMPLETION_REG) claim h) })"

fun write_words :: "'s mmio \<Rightarrow> u32 \<Rightarrow> nat list \<Rightarrow> 's \<Rightarrow> 's" where
  "write_words hw addr [] h = h"
| "write_words hw addr (i # is) h = write_words hw addr is (DEV_WRITE hw (addr + 4 * of_nat i) 0 h)"

definition rv_plic_init :: "'s mmio \<Rightarrow> u32 \<Rightarrow> u32 \<Rightarrow> csrs \<Rightarrow> 's \<Rightarrow> csrs \<times> 's" where
  "rv_plic_init hw exc_vectors handler c h =
    (let h = write_words hw (RV_PLIC_BASE + RV_PLIC_IRQ_PRIO_BASE_REG) [1..<NUM_IRQS] h;
         h = write_words hw (RV_PLIC_BASE + RV_PLIC_IRQ_ENABLE_BASE_REG) [0..<(NUM_IRQS + 31) div 32] h;
         h = DEV_WRITE hw (RV_PLIC_BASE + RV_PLIC_CTX_THRESHOLD_REG) 0 h;
         h = snd (install_exception_handler hw exc_vectors 16 handler h)
     in (arch_local_irq_enable (enable_interrupts (push_bit 16 1) c), h))"

definition rv_plic_register_irq :: "u32 \<Rightarrow> (u32 \<Rightarrow> 's \<Rightarrow> 's option) \<Rightarrow> 's irq_handlers \<Rightarrow> 's irq_handlers option" where
  "rv_plic_register_irq irq handler hs = (if unat irq < length hs then Some (hs[unat irq := Some handler]) else None)"

definition rv_plic_pending :: "'s mmio \<Rightarrow> u32 \<Rightarrow> 's \<Rightarrow> bool \<times> 's" where
  "rv_plic_pending hw irq h =
    (case DEV_READ hw (RV_PLIC_BASE + RV_PLIC_IRQ_PENDING_BASE_REG + irq div 32 * 4) h of (v, h) \<Rightarrow>
     (v AND push_bit (unat (irq mod 32)) 1 \<noteq> 0, h))"

definition rv_plic_enable :: "'s mmio \<Rightarrow> u32 \<Rightarrow> 's \<Rightarrow> 's" where
  "rv_plic_enable hw irq h =
    (let h = DEV_WRITE hw (RV_PLIC_BASE + RV_PLIC_IRQ_PRIO_BASE_REG + 4 * irq) 1 h;
         addr = RV_PLIC_BASE + RV_PLIC_IRQ_ENABLE_BASE_REG + irq div 32 * 4
     in case DEV_READ hw addr h of (reg, h) \<Rightarrow> DEV_WRITE hw addr (reg OR push_bit (unat (irq mod 32)) 1) h)"

definition rv_plic_disable :: "'s mmio \<Rightarrow> u32 \<Rightarrow> 's \<Rightarrow> 's" where
  "rv_plic_disable hw irq h =
    (let addr = RV_PLIC_BASE + RV_PLIC_IRQ_ENABLE_BASE_REG + irq div 32 * 4
     in case DEV_READ hw addr h of (reg, h) \<Rightarrow>
        DEV_WRITE hw (RV_PLIC_BASE + RV_PLIC_IRQ_PRIO_BASE_REG + 4 * irq) 0
          (DEV_WRITE hw addr (reg AND NOT (push_bit (unat (irq mod 32)) 1)) h))"

section \<open>The registers as a table\<close>

text \<open>
  The enable register, in which the bit of source 0 does not exist, and the priorities of sources 1 to 31, as far as they fit the
  width the controller has (\<open>maxprio\<close>).
\<close>

record plic_table =
  enabled :: u32
  prios :: "nat \<Rightarrow> u32"

definition plic_regs :: "'s mmio \<Rightarrow> u32 \<Rightarrow> ('s \<Rightarrow> plic_table) \<Rightarrow> bool" where
  "plic_regs hw maxprio tab \<longleftrightarrow> (\<forall>h.
    fst (DEV_READ hw (PLIC_ADDRESS + EnableOffset) h) = enabled (tab h) \<and>
    tab (snd (DEV_READ hw (PLIC_ADDRESS + EnableOffset) h)) = tab h \<and>
    (\<forall>v. \<not> bit v 0 \<longrightarrow> tab (DEV_WRITE hw (PLIC_ADDRESS + EnableOffset) v h) = (tab h)\<lparr>enabled := v\<rparr>) \<and>
    (\<forall>i v. 1 \<le> i \<and> i < 32 \<and> v \<le> maxprio \<longrightarrow>
       tab (DEV_WRITE hw (PLIC_ADDRESS + of_nat (4 * i)) v h) = (tab h)\<lparr>prios := (prios (tab h))(i := v)\<rparr>) \<and>
    tab (DEV_WRITE hw (PLIC_ADDRESS + ThresholdOffset) 0 h) = tab h)"

text \<open>The operations of software, and what they do to the set of enabled interrupts and their priorities.\<close>

datatype plic_op = Enable u32 | Disable u32 | Priority u32 u32

fun plic_exec :: "'s mmio \<Rightarrow> SonataPlic \<Rightarrow> plic_op \<Rightarrow> 's \<Rightarrow> 's option" where
  "plic_exec hw p (Enable src) h = interrupt_enable hw p src h"
| "plic_exec hw p (Disable src) h = interrupt_disable hw p src h"
| "plic_exec hw p (Priority src prio) h = priority_set hw p src prio h"

fun plic_run :: "'s mmio \<Rightarrow> SonataPlic \<Rightarrow> plic_op list \<Rightarrow> 's \<Rightarrow> 's option" where
  "plic_run hw p [] h = Some h"
| "plic_run hw p (x # xs) h = do { h \<leftarrow> plic_exec hw p x h; plic_run hw p xs h }"

fun plic_spec :: "plic_op \<Rightarrow> nat set \<times> (nat \<Rightarrow> u32) \<Rightarrow> nat set \<times> (nat \<Rightarrow> u32)" where
  "plic_spec (Enable src) (E, P) = (insert (unat src) E, P)"
| "plic_spec (Disable src) (E, P) = (E - {unat src}, P)"
| "plic_spec (Priority src prio) (E, P) = (E, P(unat src := prio))"

fun plic_op_ok :: "u32 \<Rightarrow> plic_op \<Rightarrow> bool" where
  "plic_op_ok maxprio (Enable src) \<longleftrightarrow> 1 \<le> src \<and> src \<le> MaxIntrID"
| "plic_op_ok maxprio (Disable src) \<longleftrightarrow> 1 \<le> src \<and> src \<le> MaxIntrID"
| "plic_op_ok maxprio (Priority src prio) \<longleftrightarrow> 1 \<le> src \<and> src \<le> MaxIntrID \<and> prio \<le> maxprio"

definition plic_abs :: "plic_table \<Rightarrow> nat set \<times> (nat \<Rightarrow> u32)" where
  "plic_abs t = ({i. bit (enabled t) i}, prios t)"

lemma plic_regs_simps:
  assumes "plic_regs hw maxprio tab"
  shows "\<exists>k. DEV_READ hw (PLIC_ADDRESS + EnableOffset) h = (enabled (tab h), k) \<and> tab k = tab h"
    and "\<not> bit v 0 \<Longrightarrow> tab (DEV_WRITE hw (PLIC_ADDRESS + EnableOffset) v h) = (tab h)\<lparr>enabled := v\<rparr>"
    and "1 \<le> i \<Longrightarrow> i < 32 \<Longrightarrow> v \<le> maxprio \<Longrightarrow>
      tab (DEV_WRITE hw (PLIC_ADDRESS + of_nat (4 * i)) v h) = (tab h)\<lparr>prios := (prios (tab h))(i := v)\<rparr>"
    and "tab (DEV_WRITE hw (PLIC_ADDRESS + ThresholdOffset) 0 h) = tab h"
  using assms unfolding plic_regs_def by (metis prod.collapse, blast+)

definition plic_object :: SonataPlic where
  "plic_object = \<lparr>plicPrios = setField PriorityOffset 128, plicPendings = setField PendingOffset 4,
     plicEnables = setField EnableOffset 4, plicThres = setField ThresholdOffset 4, plicClaim = setField ClaimOffset 4\<rparr>"

lemma clear_prios:
  assumes law: "plic_regs hw maxprio tab"
  shows "1 \<le> i \<Longrightarrow> i \<le> 32 \<Longrightarrow> \<exists>h'. clear_loop hw (plicPrios plic_object) i 32 h = Some h' \<and>
    enabled (tab h') = enabled (tab h) \<and> (\<forall>j. i \<le> j \<and> j < 32 \<longrightarrow> prios (tab h') j = 0) \<and> (\<forall>j < i. prios (tab h') j = prios (tab h) j)"
proof (induction "32 - i" arbitrary: i h)
  case 0
  then show ?case by (auto simp: clear_loop.simps [of hw _ 32])
next
  case (Suc n)
  then have i: "i < 32" "n = 32 - (i + 1)" by simp_all
  let ?h = "DEV_WRITE hw (PLIC_ADDRESS + of_nat (4 * i)) 0 h"
  have "field_write hw (plicPrios plic_object) (of_nat i) 0 h = Some ?h"
    using i by (simp add: field_write_def field_ok_def plic_object_def setField_def PriorityOffset_def unat_of_nat take_bit_nat_eq_self)
  then have s: "clear_loop hw (plicPrios plic_object) i 32 h = clear_loop hw (plicPrios plic_object) (i + 1) 32 ?h"
    using i by (simp add: clear_loop.simps [of hw _ i])
  have t: "tab ?h = (tab h)\<lparr>prios := (prios (tab h))(i := 0)\<rparr>" by (rule plic_regs_simps(3) [OF law]) (use Suc.prems i in auto)
  obtain h' where h': "clear_loop hw (plicPrios plic_object) (i + 1) 32 ?h = Some h'" "enabled (tab h') = enabled (tab ?h)"
    "\<forall>j. i + 1 \<le> j \<and> j < 32 \<longrightarrow> prios (tab h') j = 0" "\<forall>j < i + 1. prios (tab h') j = prios (tab ?h) j"
    using Suc.hyps(1) [OF i(2), of ?h] i by auto
  have "prios (tab h') j = 0" if "i \<le> j" "j < 32" for j
    using that h'(3,4) t by (cases "j = i") auto
  then show ?case using s h' t by auto
qed

lemma plic_new:
  assumes law: "plic_regs hw maxprio tab"
  shows "\<exists>h'. SonataPlic_new hw h = Some (plic_object, h') \<and> enabled (tab h') = 0 \<and> (\<forall>j. 1 \<le> j \<and> j < 32 \<longrightarrow> prios (tab h') j = 0)"
proof -
  have n: "(MaxIntrID + 31) AND NOT 0x1f = 32" "drop_bit 5 (32 :: u32) = 1" by (simp_all add: MaxIntrID_def)
  let ?h1 = "DEV_WRITE hw (PLIC_ADDRESS + EnableOffset) 0 h"
  have 1: "clear_loop hw (plicEnables plic_object) 0 (unat (1 :: u32)) h = Some ?h1"
    by (simp add: clear_loop.simps [of hw _ 0] clear_loop.simps [of hw _ "Suc 0"] field_write_def field_ok_def plic_object_def setField_def)
  have t1: "tab ?h1 = (tab h)\<lparr>enabled := 0\<rparr>" by (rule plic_regs_simps(2) [OF law]) simp
  obtain h2 where 2: "clear_loop hw (plicPrios plic_object) 1 32 ?h1 = Some h2" "enabled (tab h2) = 0"
    "\<forall>j. 1 \<le> j \<and> j < 32 \<longrightarrow> prios (tab h2) j = 0"
    using clear_prios [OF law, of 1 ?h1] t1 by auto
  let ?h3 = "DEV_WRITE hw (PLIC_ADDRESS + ThresholdOffset) 0 h2"
  have 3: "field_write hw (plicThres plic_object) 0 0 h2 = Some ?h3"
    by (simp add: field_write_def field_ok_def plic_object_def setField_def)
  have o: "\<lparr>plicPrios = setField PriorityOffset (32 * 4), plicPendings = setField PendingOffset (32 div 8),
      plicEnables = setField EnableOffset (32 div 8), plicThres = setField ThresholdOffset 4, plicClaim = setField ClaimOffset 4\<rparr> = plic_object"
    by (simp add: plic_object_def)
  have "SonataPlic_new hw h = Some (plic_object, ?h3)"
    unfolding SonataPlic_new_def n Let_def o using 1 2(1) 3 by (simp add: MaxIntrID_def)
  then show ?thesis using 2 plic_regs_simps(4) [OF law, of h2] by simp
qed

lemma source_word:
  assumes "src \<le> MaxIntrID"
  shows "drop_bit 5 src = 0" "unat (src AND 0x1f) = unat src" "unat src < 32"
proof -
  show u: "unat src < 32" using assms by (simp add: MaxIntrID_def word_le_nat_alt)
  show "drop_bit 5 src = 0"
    using u by (intro word_unat_eq_iff [THEN iffD2]) (simp only: unat_drop_bit_eq, simp add: drop_bit_eq_div)
  have "src AND 0x1f = take_bit 5 src" by (simp add: take_bit_eq_mask mask_eq_exp_minus_1)
  then show "unat (src AND 0x1f) = unat src" using u by (simp only: unsigned_take_bit_eq) (simp add: take_bit_nat_eq_self)
qed

lemma enables_field: "field_ok (plicEnables plic_object) 0" "field_addr (plicEnables plic_object) + 4 * 0 = PLIC_ADDRESS + EnableOffset"
  by (simp_all add: field_ok_def plic_object_def setField_def)

lemma prios_field:
  "unat i < 32 \<Longrightarrow> field_ok (plicPrios plic_object) i"
  "field_addr (plicPrios plic_object) + 4 * i = PLIC_ADDRESS + of_nat (4 * unat i)"
  by (simp_all add: field_ok_def plic_object_def setField_def PriorityOffset_def)

text \<open>Changing one bit of the enable register.\<close>

lemma enable_update:
  assumes law: "plic_regs hw maxprio tab" and src: "src \<le> MaxIntrID"
    and f: "\<And>v. \<not> bit v 0 \<Longrightarrow> \<not> bit (f v (push_bit (unat src) 1)) 0" and z: "\<not> bit (enabled (tab h)) 0"
  shows "\<exists>h'. do { (v, h) \<leftarrow> field_read hw (plicEnables plic_object) (drop_bit 5 src) h;
           field_write hw (plicEnables plic_object) (drop_bit 5 src) (f v (push_bit (unat (src AND 0x1f)) 1)) h } = Some h' \<and>
    tab h' = (tab h)\<lparr>enabled := f (enabled (tab h)) (push_bit (unat src) 1)\<rparr>"
proof -
  obtain k where k: "DEV_READ hw (PLIC_ADDRESS + EnableOffset) h = (enabled (tab h), k)" "tab k = tab h"
    using plic_regs_simps(1) [OF law, of h] by blast
  show ?thesis
    using plic_regs_simps(2) [OF law f [OF z], of k] k
    by (simp only: field_read_def field_write_def source_word [OF src] enables_field if_True Option.bind.simps prod.case) simp
qed

lemma plic_exec_refines:
  assumes law: "plic_regs hw maxprio tab" and ok: "plic_op_ok maxprio x" and z: "\<not> bit (enabled (tab h)) 0"
  shows "\<exists>h'. plic_exec hw plic_object x h = Some h' \<and> plic_abs (tab h') = plic_spec x (plic_abs (tab h)) \<and> \<not> bit (enabled (tab h')) 0"
proof (cases x)
  case (Enable src)
  then have src: "src \<le> MaxIntrID" "unat src \<noteq> 0" using ok by (auto simp: word_le_nat_alt)
  have f: "\<not> bit v 0 \<Longrightarrow> \<not> bit (v OR push_bit (unat src) 1) 0" for v :: u32 using src(2) by (simp add: bit_simps)
  from enable_update [OF law src(1), of "(OR)", OF f z] obtain h' where
    h': "plic_exec hw plic_object x h = Some h'" "tab h' = (tab h)\<lparr>enabled := enabled (tab h) OR push_bit (unat src) 1\<rparr>"
    unfolding Enable by (auto simp: interrupt_enable_def Let_def)
  then show ?thesis
    using f [OF z] source_word(3) [OF src(1)] by (auto simp: Enable plic_abs_def bit_simps)
next
  case (Disable src)
  then have src: "src \<le> MaxIntrID" using ok by simp
  have f: "\<not> bit v 0 \<Longrightarrow> \<not> bit (v AND NOT (push_bit (unat src) 1)) 0" for v :: u32 by (simp add: bit_simps)
  from enable_update [OF law src, of "\<lambda>v w. v AND NOT w", OF f z] obtain h' where
    h': "plic_exec hw plic_object x h = Some h'" "tab h' = (tab h)\<lparr>enabled := enabled (tab h) AND NOT (push_bit (unat src) 1)\<rparr>"
    unfolding Disable by (auto simp: interrupt_disable_def Let_def)
  have "bit (enabled (tab h) AND NOT (push_bit (unat src) 1)) i \<longleftrightarrow> bit (enabled (tab h)) i \<and> i \<noteq> unat src" for i
    using bit_imp_le_length [of "enabled (tab h)" i] by (auto simp: bit_simps)
  with h' f [OF z] show ?thesis by (auto simp: Disable plic_abs_def)
next
  case (Priority src prio)
  then have src: "src \<le> MaxIntrID" "1 \<le> unat src" "prio \<le> maxprio" using ok by (auto simp: word_le_nat_alt)
  have s: "unat src < 32" using source_word(3) [OF src(1)] .
  have "plic_exec hw plic_object x h = Some (DEV_WRITE hw (PLIC_ADDRESS + of_nat (4 * unat src)) prio h)"
    unfolding Priority plic_exec.simps priority_set_def field_write_def prios_field(2) using prios_field(1) [OF s] by (simp only: if_True)
  then show ?thesis using plic_regs_simps(3) [OF law src(2) s src(3), of h] z by (simp add: Priority plic_abs_def)
qed

lemma plic_run_refines:
  assumes law: "plic_regs hw maxprio tab"
  shows "list_all (plic_op_ok maxprio) xs \<Longrightarrow> \<not> bit (enabled (tab h)) 0 \<Longrightarrow>
    \<exists>h'. plic_run hw plic_object xs h = Some h' \<and> plic_abs (tab h') = fold plic_spec xs (plic_abs (tab h))"
proof (induction xs arbitrary: h)
  case (Cons x xs)
  obtain k where k: "plic_exec hw plic_object x h = Some k" "plic_abs (tab k) = plic_spec x (plic_abs (tab h))" "\<not> bit (enabled (tab k)) 0"
    using plic_exec_refines [OF law _ Cons.prems(2)] Cons.prems(1) by auto
  then show ?case using Cons.IH [of k] Cons.prems(1) by simp
qed simp

text \<open>
  C30. The driver of the interrupt controller implements a set of enabled interrupts and a table of priorities: constructed on a controller
  in any state, it starts from the empty set, and every sequence of calls for existing interrupts stays within the
  capabilities and leaves in the registers exactly the set and the priorities the calls describe, each interrupt independent
  of the others.
\<close>

theorem plic_refines_table:
  assumes "plic_regs hw maxprio tab" "list_all (plic_op_ok maxprio) xs"
  shows "\<exists>p h0 P h'. SonataPlic_new hw h = Some (p, h0) \<and> (\<forall>j. 1 \<le> j \<and> j < 32 \<longrightarrow> P j = 0) \<and>
    plic_run hw p xs h0 = Some h' \<and> ({i. bit (enabled (tab h')) i}, prios (tab h')) = fold plic_spec xs ({}, P)"
proof -
  obtain h0 where h0: "SonataPlic_new hw h = Some (plic_object, h0)" "enabled (tab h0) = 0" "\<forall>j. 1 \<le> j \<and> j < 32 \<longrightarrow> prios (tab h0) j = 0"
    using plic_new [OF assms(1)] by blast
  obtain h' where "plic_run hw plic_object xs h0 = Some h'" "plic_abs (tab h') = fold plic_spec xs (plic_abs (tab h0))"
    using plic_run_refines [OF assms, of h0] h0(2) by auto
  then show ?thesis using h0 by (auto simp: plic_abs_def)
qed

definition demo_plic :: "plic_table mmio" where
  "demo_plic = \<lparr>DEV_READ = (\<lambda>a t. (if a = PLIC_ADDRESS + EnableOffset then enabled t else 0, t)),
     DEV_WRITE = (\<lambda>a v t. if a = PLIC_ADDRESS + EnableOffset then t\<lparr>enabled := v\<rparr>
       else if unat (a - PLIC_ADDRESS) < 128 then t\<lparr>prios := (prios t)(unat (a - PLIC_ADDRESS) div 4 := v)\<rparr> else t)\<rparr>"

lemma demo_plic_regs: "plic_regs demo_plic 7 (\<lambda>t. t)"
proof -
  have u: "unat (of_nat (4 * i) :: u32) = 4 * i" if "i < 32" for i using that by (simp only: unat_of_nat) simp
  have n: "PLIC_ADDRESS + of_nat (4 * i) \<noteq> PLIC_ADDRESS + EnableOffset" if "i < 32" for i
  proof
    assume "PLIC_ADDRESS + of_nat (4 * i) = PLIC_ADDRESS + EnableOffset"
    then have "unat (of_nat (4 * i) :: u32) = unat EnableOffset" by (simp only: add_left_cancel)
    then show False using u [OF that] that by (simp add: EnableOffset_def)
  qed
  show ?thesis
    unfolding plic_regs_def demo_plic_def using n u
    by (auto simp del: of_nat_mult of_nat_numeral) (simp_all add: EnableOffset_def ThresholdOffset_def)
qed

lemma plic_refines_table_witness:
  "\<exists>p h0 P h'. SonataPlic_new demo_plic \<lparr>enabled = 0xFF, prios = (\<lambda>_. 9)\<rparr> = Some (p, h0) \<and> (\<forall>j. 1 \<le> j \<and> j < 32 \<longrightarrow> P j = 0) \<and>
    plic_run demo_plic p [Enable 8, Priority 8 3, Enable 16, Disable 8] h0 = Some h' \<and>
    ({i. bit (enabled h') i}, prios h') = ({16}, P(8 := 3))"
proof -
  have "list_all (plic_op_ok 7) [Enable 8, Priority 8 3, Enable 16, Disable 8]" by (simp add: MaxIntrID_def)
  from plic_refines_table [OF demo_plic_regs this, of "\<lparr>enabled = 0xFF, prios = (\<lambda>_. 9)\<rparr>"] show ?thesis
    by (simp add: insert_Diff_if)
qed

section \<open>Dispatching\<close>

text \<open>
  What a dispatch does, event by event: the controller hands an interrupt out, a handler runs, software signals completion.
  \<open>waiting\<close> are the interrupts the controller will hand out, \<open>trace\<close> the events so far.
\<close>

datatype plic_event = Claimed u32 | Handled u32 | Completed u32

definition plic_queue :: "'s mmio \<Rightarrow> ('s \<Rightarrow> u32 list) \<Rightarrow> ('s \<Rightarrow> plic_event list) \<Rightarrow> bool" where
  "plic_queue hw waiting trace \<longleftrightarrow> (\<forall>h.
    (let (c, h') = DEV_READ hw (RV_PLIC_BASE + RV_PLIC_CTX_CLAIM_REG) h
     in case waiting h of
          [] \<Rightarrow> c = 0 \<and> waiting h' = [] \<and> trace h' = trace h
        | x # xs \<Rightarrow> c = x \<and> waiting h' = xs \<and> trace h' = trace h @ [Claimed x]) \<and>
    (\<forall>c. let h' = DEV_WRITE hw (RV_PLIC_BASE + RV_PLIC_CTX_COMPLETION_REG) c h
         in waiting h' = waiting h \<and> trace h' = trace h @ [Completed c]))"

text \<open>The interrupt has a handler: a function that returns, and whose run is the event \<open>Handled\<close> of that interrupt.\<close>

definition handles :: "'s irq_handlers \<Rightarrow> ('s \<Rightarrow> u32 list) \<Rightarrow> ('s \<Rightarrow> plic_event list) \<Rightarrow> u32 \<Rightarrow> bool" where
  "handles hs waiting trace irq \<longleftrightarrow> irq \<noteq> 0 \<and>
    (\<forall>h. \<exists>h'. call_handler hs irq h = Some h' \<and> waiting h' = waiting h \<and> trace h' = trace h @ [Handled irq])"

definition served :: "u32 \<Rightarrow> plic_event list" where
  "served irq = [Claimed irq, Handled irq, Completed irq]"

lemma plic_queue_claim:
  assumes "plic_queue hw waiting trace" "DEV_READ hw (RV_PLIC_BASE + RV_PLIC_CTX_CLAIM_REG) h = (c, k)"
  shows "case waiting h of [] \<Rightarrow> c = 0 \<and> waiting k = [] \<and> trace k = trace h
    | x # xs \<Rightarrow> c = x \<and> waiting k = xs \<and> trace k = trace h @ [Claimed x]"
  using assms(1) [unfolded plic_queue_def, THEN spec, of h] assms(2) by simp

lemma plic_queue_complete:
  assumes "plic_queue hw waiting trace"
  shows "waiting (DEV_WRITE hw (RV_PLIC_BASE + RV_PLIC_CTX_COMPLETION_REG) c m) = waiting m"
    "trace (DEV_WRITE hw (RV_PLIC_BASE + RV_PLIC_CTX_COMPLETION_REG) c m) = trace m @ [Completed c]"
  using assms unfolding plic_queue_def Let_def by metis+

text \<open>
  C31. The dispatcher serves every interrupt that waits: when each of them has a handler that returns, and no other arrives during the
  dispatch, it returns, nothing waits any more, and what has happened is, for one interrupt after the other in the order in which
  the controller hands them out: it was claimed, the handler registered for it ran, once, and only then it was completed.
\<close>

theorem rv_plic_handler_serves:
  assumes law: "plic_queue hw waiting trace" and hs: "list_all (handles hs waiting trace) (waiting h)"
  shows "\<exists>h'. rv_plic_handler hw hs h = Some h' \<and> waiting h' = [] \<and> trace h' = trace h @ concat (map served (waiting h))"
  using hs
proof (induction "waiting h" arbitrary: h)
  case Nil
  obtain c k where k: "DEV_READ hw (RV_PLIC_BASE + RV_PLIC_CTX_CLAIM_REG) h = (c, k)"
    by (cases "DEV_READ hw (RV_PLIC_BASE + RV_PLIC_CTX_CLAIM_REG) h")
  have "c = 0" "waiting k = []" "trace k = trace h" using plic_queue_claim [OF law k] Nil(1) [symmetric] by simp_all
  then show ?case using k Nil(1) by (subst rv_plic_handler.simps) simp
next
  case (Cons x xs)
  obtain c k where k: "DEV_READ hw (RV_PLIC_BASE + RV_PLIC_CTX_CLAIM_REG) h = (c, k)"
    by (cases "DEV_READ hw (RV_PLIC_BASE + RV_PLIC_CTX_CLAIM_REG) h")
  have c: "c = x" "waiting k = xs" "trace k = trace h @ [Claimed x]"
    using plic_queue_claim [OF law k] Cons(2) [symmetric] by simp_all
  have hx: "handles hs waiting trace x" and hxs: "list_all (handles hs waiting trace) xs" using Cons.prems Cons(2) [symmetric] by simp_all
  obtain m where m: "call_handler hs x k = Some m" "waiting m = xs" "trace m = trace h @ [Claimed x, Handled x]" "x \<noteq> 0"
    using hx c unfolding handles_def by fastforce
  let ?w = "DEV_WRITE hw (RV_PLIC_BASE + RV_PLIC_CTX_COMPLETION_REG) x m"
  have w: "waiting ?w = xs" "trace ?w = trace h @ served x" using plic_queue_complete [OF law, of x m] m by (simp_all add: served_def)
  obtain h' where "rv_plic_handler hw hs ?w = Some h'" "waiting h' = []" "trace h' = trace ?w @ concat (map served (waiting ?w))"
    using Cons(1) [of ?w] w(1) hxs by auto
  moreover have "rv_plic_handler hw hs h = rv_plic_handler hw hs ?w"
    by (subst rv_plic_handler.simps) (simp add: k c(1) m(1,4))
  ultimately show ?case using w Cons(2) [symmetric] by simp
qed

text \<open>A controller that hands out interrupts 16 and 8, and a table with a handler for each: both only note that they ran.\<close>

definition demo_dispatch :: "(u32 list \<times> plic_event list) mmio" where
  "demo_dispatch = \<lparr>DEV_READ = (\<lambda>a (w, f). case w of [] \<Rightarrow> (0, (w, f)) | x # xs \<Rightarrow> (x, (xs, f @ [Claimed x]))),
     DEV_WRITE = (\<lambda>a v (w, f). (w, f @ [Completed v]))\<rparr>"

definition demo_handlers :: "(u32 list \<times> plic_event list) irq_handlers" where
  "demo_handlers = (replicate 32 None)
     [8 := Some (\<lambda>irq (w, f). Some (w, f @ [Handled 8])), 16 := Some (\<lambda>irq (w, f). Some (w, f @ [Handled 16]))]"

lemma rv_plic_handler_serves_witness:
  "\<exists>h'. rv_plic_handler demo_dispatch demo_handlers ([16, 8], []) = Some h' \<and> fst h' = [] \<and>
    snd h' = [Claimed 16, Handled 16, Completed 16, Claimed 8, Handled 8, Completed 8]"
proof -
  have "plic_queue demo_dispatch fst snd" by (auto simp: plic_queue_def demo_dispatch_def split: list.splits)
  moreover have "list_all (handles demo_handlers fst snd) (fst ([16, 8] :: u32 list, [] :: plic_event list))"
    by (simp add: handles_def call_handler_def demo_handlers_def)
  ultimately have "\<exists>h'. rv_plic_handler demo_dispatch demo_handlers ([16, 8], []) = Some h' \<and> fst h' = [] \<and>
      snd h' = snd ([16, 8] :: u32 list, [] :: plic_event list) @ concat (map served (fst ([16, 8], [] :: plic_event list)))"
    by (rule rv_plic_handler_serves)
  then show ?thesis by (simp add: served_def)
qed

end
