(* ===== verification/Console.thy ===== *)
theory Console
  imports Prelude
begin

unbundle bit_operations_syntax

text \<open>
  The output helpers of the capability software, \<open>sw/cheri/common/uart-utils.hh\<close> and \<open>sw/cheri/common/console.hh\<close>. What has been
  written to a UART is the list of the characters given to \<open>blocking_write\<close>, the newest at the end. A C string is a
  buffer of characters that holds a NUL; a buffer without one is read past its end, which is None.
  The formatter behind \<open>Log\<close> is a library outside the repository: the text it makes of a byte is a parameter.
\<close>

definition NUL :: char where "NUL = char_of (0 :: nat)"

abbreviation c_str :: "string \<Rightarrow> string" where
  "c_str t \<equiv> t @ [NUL]"

section \<open>uart-utils.hh\<close>

fun write_str :: "string \<Rightarrow> string \<Rightarrow> string option" where
  "write_str [] out = None"
| "write_str (c # str) out = (if c \<noteq> NUL then write_str str (out @ [c]) else Some out)"

text \<open>The loop of \<open>to_hex\<close> from step \<open>i\<close>; \<open>Digits\<close> is the template argument.\<close>

function to_hex_loop :: "nat \<Rightarrow> nat \<Rightarrow> string \<Rightarrow> u32 \<Rightarrow> string" where
  "to_hex_loop Digits i str_buf num =
    (if i < Digits
     then to_hex_loop Digits (i + 1)
       (if num AND 0xf < 10 then str_buf[Digits - 1 - i := char_of (unat (num AND 0xf) + 48)]
        else str_buf[Digits - 1 - i := char_of (unat (num AND 0xf) + 97 - 10)])
       (drop_bit 4 num)
     else str_buf[Digits := NUL])"
  by pat_completeness auto

termination by (relation "measure (\<lambda>(d, i, _). d - i)") auto

declare to_hex_loop.simps [simp del]

definition to_hex :: "nat \<Rightarrow> string \<Rightarrow> u32 \<Rightarrow> string" where
  "to_hex Digits str_buf num = to_hex_loop Digits 0 str_buf num"

text \<open>The buffers of the two callers are not initialised: \<open>raw\<close> is what happens to be in them.\<close>

definition write_hex :: "string \<Rightarrow> u32 \<Rightarrow> string \<Rightarrow> string option" where
  "write_hex raw num out = write_str (to_hex 8 (take 9 raw) num) out"

definition write_hex8b :: "string \<Rightarrow> u8 \<Rightarrow> string \<Rightarrow> string option" where
  "write_hex8b raw num out = write_str (to_hex 2 (take 3 raw) (ucast num)) out"

section \<open>console.hh\<close>

text \<open>\<open>while (n--) uart->blocking_write(*buf++)\<close>, a read outside the buffer being None.\<close>

fun uart_write :: "string \<Rightarrow> nat \<Rightarrow> string \<Rightarrow> string option" where
  "uart_write buf 0 out = Some out"
| "uart_write [] (Suc n) out = None"
| "uart_write (c # buf) (Suc n) out = uart_write buf n (out @ [c])"

definition isprint :: "u8 \<Rightarrow> bool" where
  "isprint c \<longleftrightarrow> 0x20 \<le> c \<and> c \<le> 0x7e"

text \<open>One row of text: the characters from \<open>aoff\<close> up to and including \<open>off\<close>. The formatter stops at a NUL, and \<open>text[0]\<close>
  never is one.\<close>

definition dump_text :: "u8 list \<Rightarrow> nat \<Rightarrow> nat \<Rightarrow> string" where
  "dump_text buf aoff off = map (\<lambda>i. if isprint (buf ! i) then char_of (unat (buf ! i)) else CHR ''.'') [aoff..<Suc off]"

fun dump_loop :: "(u8 \<Rightarrow> string) \<Rightarrow> u8 list \<Rightarrow> nat list \<Rightarrow> string \<Rightarrow> string" where
  "dump_loop hex02 buf [] out = out"
| "dump_loop hex02 buf (off # offs) out =
    (let out = out @ hex02 (buf ! off)
     in dump_loop hex02 buf offs
       (if off AND 0xf = 0xf then out @ '' : '' @ dump_text buf (off - off mod 16) off @ [CHR 0x0A] else out @ '' ''))"

definition dump_bytes :: "(u8 \<Rightarrow> string) \<Rightarrow> u8 list \<Rightarrow> nat \<Rightarrow> string \<Rightarrow> string option" where
  "dump_bytes hex02 buf blkBytes out = (if blkBytes \<le> length buf then Some (dump_loop hex02 buf [0..<blkBytes] out) else None)"

fun write_str_ucs2 :: "u16 list \<Rightarrow> nat \<Rightarrow> string \<Rightarrow> string option" where
  "write_str_ucs2 ucs 0 out = Some out"
| "write_str_ucs2 [] (Suc m) out = None"
| "write_str_ucs2 (u # ucs) (Suc m) out =
    (if u \<noteq> 0 then write_str_ucs2 ucs m (out @ [if 0x20 \<le> u \<and> u < 0x80 then char_of (unat u) else CHR ''.'']) else Some out)"

section \<open>Strings\<close>

lemma write_str_c_str: "NUL \<notin> set t \<Longrightarrow> write_str (t @ NUL # rest) out = Some (out @ t)"
  by (induction t arbitrary: out) auto

section \<open>Hexadecimal digits\<close>

definition hex_digit :: "nat \<Rightarrow> char" where
  "hex_digit d = char_of (if d < 10 then d + 48 else d + 87)"

text \<open>The last \<open>n\<close> hexadecimal digits of a number, most significant first, and their value.\<close>

fun hex_digits :: "nat \<Rightarrow> nat \<Rightarrow> string" where
  "hex_digits 0 x = []"
| "hex_digits (Suc n) x = hex_digits n (x div 16) @ [hex_digit (x mod 16)]"

definition digit_value :: "char \<Rightarrow> nat option" where
  "digit_value c = (let v = of_char c :: nat in
     if 48 \<le> v \<and> v \<le> 57 then Some (v - 48) else if 97 \<le> v \<and> v \<le> 102 then Some (v - 87) else None)"

fun hex_value :: "nat \<Rightarrow> string \<Rightarrow> nat option" where
  "hex_value acc [] = Some acc"
| "hex_value acc (c # cs) = (case digit_value c of None \<Rightarrow> None | Some d \<Rightarrow> hex_value (acc * 16 + d) cs)"

lemma length_hex_digits [simp]: "length (hex_digits n x) = n"
  by (induction n arbitrary: x) auto

lemma digit_value_hex_digit [simp]: "d < 16 \<Longrightarrow> digit_value (hex_digit d) = Some d"
  by (auto simp: digit_value_def hex_digit_def Let_def)

lemma hex_value_append: "hex_value acc (xs @ ys) = (case hex_value acc xs of None \<Rightarrow> None | Some a \<Rightarrow> hex_value a ys)"
  by (induction xs arbitrary: acc) (auto split: option.splits)

lemma hex_value_digits: "hex_value acc (hex_digits n x) = Some (acc * 16 ^ n + x mod 16 ^ n)"
proof (induction n arbitrary: x)
  case (Suc n)
  have "x mod 16 ^ Suc n = x div 16 mod 16 ^ n * 16 + x mod 16"
    using mod_mult2_eq [of x 16 "16 ^ n"] by (simp add: mult.commute)
  with Suc show ?case by (simp add: hex_value_append algebra_simps)
qed simp

lemma NUL_hex_digits: "NUL \<notin> set (hex_digits n x)"
proof (induction n arbitrary: x)
  case (Suc n)
  have "digit_value NUL = None" by (simp add: digit_value_def NUL_def)
  then have "NUL \<noteq> hex_digit (x mod 16)" by (metis digit_value_hex_digit mod_less_divisor option.distinct(1) zero_less_numeral)
  with Suc show ?case by simp
qed simp

lemma low_digit: "unat (num AND 0xf) = unat num mod 16" "unat (drop_bit 4 num) = unat num div 16" for num :: u32
proof -
  have m: "(0xf :: u32) = mask 4" by (simp add: mask_eq_exp_minus_1)
  show "unat (num AND 0xf) = unat num mod 16"
    unfolding m by (simp only: take_bit_eq_mask [symmetric] unsigned_take_bit_eq) (simp add: take_bit_eq_mod)
  show "unat (drop_bit 4 num) = unat num div 16" by (simp only: unat_drop_bit_eq) (simp add: drop_bit_eq_div)
qed

lemma to_hex_digit:
  "(if num AND 0xf < 10 then b[k := char_of (unat (num AND 0xf) + 48)] else b[k := char_of (unat (num AND 0xf) + 97 - 10)]) =
   b[k := hex_digit (unat num mod 16)]" for num :: u32
proof -
  have "num AND 0xf < 10 \<longleftrightarrow> unat num mod 16 < 10" by (simp only: word_less_nat_alt low_digit) simp
  then show ?thesis by (simp only: low_digit hex_digit_def) (simp add: add.commute)
qed

lemma to_hex_loop_eq:
  "i \<le> D \<Longrightarrow> length b = D + 1 \<Longrightarrow>
   to_hex_loop D i b num = hex_digits (D - i) (unat num) @ drop (D - i) (take D b) @ [NUL]"
proof (induction "D - i" arbitrary: i b num)
  case 0
  then show ?case by (subst to_hex_loop.simps) (simp add: list_eq_iff_nth_eq nth_append nth_list_update)
next
  case (Suc n)
  define b1 where "b1 = b[D - 1 - i := hex_digit (unat num mod 16)]"
  have i: "i < D" "D - i = Suc n" "D - Suc i = n" "D - 1 - i = n" using Suc.hyps(2) by simp_all
  have "to_hex_loop D i b num = to_hex_loop D (i + 1) b1 (drop_bit 4 num)"
    by (subst to_hex_loop.simps) (simp only: to_hex_digit b1_def i(1) if_True)
  also have "\<dots> = hex_digits n (unat num div 16) @ drop n (take D b1) @ [NUL]"
    using Suc.hyps(1) [of "i + 1" b1 "drop_bit 4 num"] i Suc.prems by (simp add: b1_def low_digit)
  also have "drop n (take D b1) = hex_digit (unat num mod 16) # drop (Suc n) (take D b)"
    using i Suc.prems by (simp add: b1_def list_eq_iff_nth_eq nth_Cons' nth_list_update)
  finally show ?case by (simp add: i(2))
qed

lemma to_hex_eq: "length b = D + 1 \<Longrightarrow> to_hex D b num = hex_digits D (unat num) @ [NUL]"
  by (simp add: to_hex_def to_hex_loop_eq)

lemma write_hex_eq: "9 \<le> length raw \<Longrightarrow> write_hex raw num out = Some (out @ hex_digits 8 (unat num))"
  using write_str_c_str [OF NUL_hex_digits, of 8 "unat num" "[]" out] by (simp add: write_hex_def to_hex_eq)

section \<open>Properties\<close>

text \<open>The digits written are the number: \<open>to_hex\<close> with its template argument \<open>Digits\<close> fills its buffer, whatever was in it, with a
  string of that many lowercase hexadecimal digits, closed by the terminator in the last place, and
  reading it back gives the number modulo \<open>16 ^ Digits\<close>; writing the string to the UART sends exactly these characters.\<close>

theorem to_hex_roundtrip:
  assumes "length str_buf = Digits + 1"
  shows "\<exists>t. to_hex Digits str_buf num = t @ [NUL] \<and> length t = Digits \<and> NUL \<notin> set t \<and>
    hex_value 0 t = Some (unat num mod 16 ^ Digits) \<and> write_str (to_hex Digits str_buf num) out = Some (out @ t)"
  using hex_value_digits [of 0 Digits "unat num"] write_str_c_str [OF NUL_hex_digits, of Digits "unat num" "[]" out]
  by (intro exI [of _ "hex_digits Digits (unat num)"]) (simp add: to_hex_eq [OF assms] NUL_hex_digits)

theorem to_hex_roundtrip_witness:
  "\<exists>t. to_hex 8 (replicate 9 CHR ''?'') 0xdeadbeef = t @ [NUL] \<and> length t = 8 \<and> NUL \<notin> set t \<and>
    hex_value 0 t = Some 0xdeadbeef \<and> write_str (to_hex 8 (replicate 9 CHR ''?'') 0xdeadbeef) ''0x'' = Some (''0x'' @ t)"
  using to_hex_roundtrip [where str_buf = "replicate 9 CHR ''?''" and Digits = "8" and num = "0xdeadbeef" and out = "''0x''"] by simp

end
