(* ===== verification/Boot_Loader.thy ===== *)
theory Boot_Loader
  imports Flash_Driver Console
begin

unbundle bit_operations_syntax

text \<open>
  The boot loader: the start-up code \<open>sw/cheri/boot/boot.S\<close> and the loader \<open>sw/cheri/boot/boot_loader.cc\<close> with the structures of
  \<open>elf.h\<close>, over an arbitrary SPI controller. Memory is reached through capabilities only: a store outside the bounds of its
  capability traps. How bounds are rounded and which addresses a capability can hold is fixed by the encoding of the
  processor, a parameter \<open>cheri\<close> with its documented laws as the locale \<open>cheri_encoding\<close>. \<open>cheri.hh\<close> and the blocks of registers
  (\<open>platform-uart.hh\<close>, \<open>platform-gpio.hh\<close>) come from the operating system, and initialising the UART only sets its speed.
\<close>

section \<open>Capabilities\<close>

record capability =
  cap_valid :: bool
  cap_address :: u32
  cap_base :: nat
  cap_top :: nat

record cheri =
  round_bounds :: "nat \<Rightarrow> nat \<Rightarrow> nat \<times> nat"
  in_range :: "nat \<Rightarrow> nat \<Rightarrow> u32 \<Rightarrow> bool"

locale cheri_encoding =
  fixes ch :: cheri
  assumes round_contains: "b \<le> t \<Longrightarrow> round_bounds ch b t = (b', t') \<Longrightarrow> b' \<le> b \<and> t \<le> t'"
    and round_monotone: "round_bounds ch b0 t0 = (b0, t0) \<Longrightarrow> b0 \<le> b \<Longrightarrow> b \<le> t \<Longrightarrow> t \<le> t0 \<Longrightarrow>
      round_bounds ch b t = (b', t') \<Longrightarrow> b0 \<le> b' \<and> t' \<le> t0"
    and in_bounds_in_range: "b \<le> unat a \<Longrightarrow> unat a < t \<Longrightarrow> in_range ch b t a"

definition cap_set_address :: "cheri \<Rightarrow> u32 \<Rightarrow> capability \<Rightarrow> capability" where
  "cap_set_address ch a c = c\<lparr>cap_address := a, cap_valid := cap_valid c \<and> in_range ch (cap_base c) (cap_top c) a\<rparr>"

text \<open>Bounds around the current address; asking for more than there is makes the capability invalid. \<open>set_inexact\<close> takes
  the rounded bounds, an assignment to the bounds does not accept rounding.\<close>

definition cap_set_inexact :: "cheri \<Rightarrow> u32 \<Rightarrow> capability \<Rightarrow> capability" where
  "cap_set_inexact ch len c = (let b = unat (cap_address c); t = b + unat len; (b', t') = round_bounds ch b t in
     c\<lparr>cap_base := b', cap_top := t', cap_valid := cap_valid c \<and> cap_base c \<le> b \<and> t \<le> cap_top c\<rparr>)"

definition cap_set_exact :: "cheri \<Rightarrow> u32 \<Rightarrow> capability \<Rightarrow> capability" where
  "cap_set_exact ch len c = (let b = unat (cap_address c); t = b + unat len; c' = cap_set_inexact ch len c in
     c'\<lparr>cap_valid := cap_valid c' \<and> round_bounds ch b t = (b, t)\<rparr>)"

definition cap_allows :: "capability \<Rightarrow> u32 \<Rightarrow> nat \<Rightarrow> bool" where
  "cap_allows c a n \<longleftrightarrow> cap_valid c \<and> cap_base c \<le> unat a \<and> unat a + n \<le> cap_top c"

text \<open>Stores of consecutive bytes through a capability, up to the first that traps; the result tells whether none did.\<close>

fun store_bytes :: "capability \<Rightarrow> u32 \<Rightarrow> u8 list \<Rightarrow> (u32 \<Rightarrow> u8) \<Rightarrow> bool \<times> (u32 \<Rightarrow> u8)" where
  "store_bytes c a [] m = (True, m)"
| "store_bytes c a (b # bs) m = (if cap_allows c a 1 then store_bytes c (a + 1) bs (m(a := b)) else (False, m))"

section \<open>boot.S\<close>

text \<open>\<open>bl_memset\<close>: whole words when address and length are aligned, single bytes otherwise. A loop counts its length down to zero, by
  four a word.\<close>

definition word_bytes :: "u32 \<Rightarrow> u8 list" where
  "word_bytes w = [ucast w, ucast (drop_bit 8 w), ucast (drop_bit 16 w), ucast (drop_bit 24 w)]"

definition broadcast :: "u32 \<Rightarrow> u32" where
  "broadcast a1 = (let a1 = a1 AND 0xff; a3 = push_bit 8 a1; a1 = a3 OR a1; a3 = push_bit 16 a1 in a1 OR a3)"

primrec word_fill :: "capability \<Rightarrow> u32 \<Rightarrow> u32 \<Rightarrow> nat \<Rightarrow> (u32 \<Rightarrow> u8) \<Rightarrow> bool \<times> (u32 \<Rightarrow> u8)" where
  "word_fill c a0 a1 0 m = (True, m)"
| "word_fill c a0 a1 (Suc n) m =
    (if cap_allows c a0 4 then word_fill c (a0 + 4) a1 n (snd (store_bytes c a0 (word_bytes a1) m)) else (False, m))"

primrec bytes_fill :: "capability \<Rightarrow> u32 \<Rightarrow> u32 \<Rightarrow> nat \<Rightarrow> (u32 \<Rightarrow> u8) \<Rightarrow> bool \<times> (u32 \<Rightarrow> u8)" where
  "bytes_fill c a0 a1 0 m = (True, m)"
| "bytes_fill c a0 a1 (Suc n) m =
    (if cap_allows c a0 1 then bytes_fill c (a0 + 1) a1 n (m(a0 := ucast a1)) else (False, m))"

definition bl_memset :: "capability \<Rightarrow> u32 \<Rightarrow> u32 \<Rightarrow> u32 \<Rightarrow> (u32 \<Rightarrow> u8) \<Rightarrow> bool \<times> (u32 \<Rightarrow> u8)" where
  "bl_memset c a0 a1 a2 m =
    (if a0 AND 3 \<noteq> 0 then bytes_fill c a0 a1 (unat a2) m
     else if a2 AND 3 \<noteq> 0 then bytes_fill c a0 a1 (unat a2) m
     else word_fill c a0 (broadcast a1) (unat a2 div 4) m)"

section \<open>elf.h\<close>

definition PT_LOAD :: u32 where "PT_LOAD = 1"
definition ET_EXEC :: u16 where "ET_EXEC = 2"
definition EI_CLASS :: nat where "EI_CLASS = 4"
definition ELFCLASS32 :: u8 where "ELFCLASS32 = 1"
definition EM_RISCV :: u16 where "EM_RISCV = 243"
definition EF_RISCV_CHERIABI :: u32 where "EF_RISCV_CHERIABI = 0x00010000"
definition EF_RISCV_CAP_MODE :: u32 where "EF_RISCV_CAP_MODE = 0x00020000"
definition ELFMAG :: "u8 list" where "ELFMAG = [0x7f, 0x45, 0x4c, 0x46]"

record Elf32_Ehdr =
  e_ident :: "u8 list"
  e_type :: u16
  e_machine :: u16
  e_version :: u32
  e_entry :: u32
  e_phoff :: u32
  e_shoff :: u32
  e_flags :: u32
  e_ehsize :: u16
  e_phentsize :: u16
  e_phnum :: u16
  e_shentsize :: u16
  e_shnum :: u16
  e_shstrndx :: u16

record Elf32_Phdr =
  p_type :: u32
  p_offset :: u32
  p_vaddr :: u32
  p_paddr :: u32
  p_filesz :: u32
  p_memsz :: u32
  p_flags :: u32
  p_align :: u32

text \<open>The structures are read as the bytes they are in memory, 52 and 32 of them, little endian.\<close>

definition half_at :: "u8 list \<Rightarrow> nat \<Rightarrow> u16" where
  "half_at bs i = le16 (bs ! i) (bs ! (i + 1))"

definition word_at :: "u8 list \<Rightarrow> nat \<Rightarrow> u32" where
  "word_at bs i = le32 (bs ! i) (bs ! (i + 1)) (bs ! (i + 2)) (bs ! (i + 3))"

definition ehdr_of :: "u8 list \<Rightarrow> Elf32_Ehdr" where
  "ehdr_of bs = \<lparr>e_ident = take 16 bs, e_type = half_at bs 16, e_machine = half_at bs 18, e_version = word_at bs 20,
     e_entry = word_at bs 24, e_phoff = word_at bs 28, e_shoff = word_at bs 32, e_flags = word_at bs 36,
     e_ehsize = half_at bs 40, e_phentsize = half_at bs 42, e_phnum = half_at bs 44, e_shentsize = half_at bs 46,
     e_shnum = half_at bs 48, e_shstrndx = half_at bs 50\<rparr>"

definition phdr_of :: "u8 list \<Rightarrow> Elf32_Phdr" where
  "phdr_of bs = \<lparr>p_type = word_at bs 0, p_offset = word_at bs 4, p_vaddr = word_at bs 8, p_paddr = word_at bs 12,
     p_filesz = word_at bs 16, p_memsz = word_at bs 20, p_flags = word_at bs 24, p_align = word_at bs 28\<rparr>"

section \<open>boot_loader.cc\<close>

text \<open>The state of the loader: the machine behind the SPI controller, the memory, what the UART has sent. The locals of the loader, \<open>ehdr\<close> and
  \<open>phdr\<close> among them, are values here: its stack, which grows down from 0x101000 in the first 4 KiB of the static RAM, is not part of
  \<open>bt_ram\<close>, and the stores to it are not modelled. A run ends with a result, or it complains and waits forever, or it traps.\<close>

record 's boot =
  bt_spi :: 's
  bt_ram :: "u32 \<Rightarrow> u8"
  bt_out :: string

datatype 'a outcome = Done 'a | Complained | Trapped

definition SoftwareSlots :: "u32 list" where
  "SoftwareSlots = [0 * 10 * 1024 * 1024, 1 * 10 * 1024 * 1024, 2 * 10 * 1024 * 1024]"

definition SoftwareSelectGpioPins :: "nat list" where
  "SoftwareSelectGpioPins = [13, 14, 15]"

definition ESC :: char where "ESC = char_of (0x1b :: nat)"
definition CRLF :: string where "CRLF = [CHR 0x0D, CHR 0x0A]"

definition prefix_text :: string where
  "prefix_text = ESC # ''[35mbootloader'' @ ESC # ''[0m: ''"

text \<open>\<open>write_str\<close> of a constant, and \<open>write_hex\<close>; the buffer of \<open>write_hex\<close> is not initialised and its contents
  do not matter (\<open>write_hex_eq\<close>), so it is given zeros here.\<close>

definition say :: "string \<Rightarrow> 's boot \<Rightarrow> 's boot" where
  "say t st = st\<lparr>bt_out := the (write_str (c_str t) (bt_out st))\<rparr>"

definition say_hex :: "u32 \<Rightarrow> 's boot \<Rightarrow> 's boot" where
  "say_hex n st = st\<lparr>bt_out := the (write_hex (replicate 9 NUL) n (bt_out st))\<rparr>"

definition complain_and_loop :: "string \<Rightarrow> 's boot \<Rightarrow> 'a outcome \<times> 's boot" where
  "complain_and_loop t st = (Complained, say t (say prefix_text st))"

text \<open>\<open>gpio->input\<close> is read once in every round, and may differ between rounds: \<open>input i\<close> is the value of read \<open>i\<close>.\<close>

fun select_loop :: "(nat \<Rightarrow> u32) \<Rightarrow> nat list \<Rightarrow> nat \<Rightarrow> nat" where
  "select_loop input [] i = 0"
| "select_loop input (pin # pins) i = (if input i AND push_bit pin 1 \<noteq> 0 then i else select_loop input pins (i + 1))"

definition read_selected_software_slot :: "(nat \<Rightarrow> u32) \<Rightarrow> nat" where
  "read_selected_software_slot input = select_loop input SoftwareSelectGpioPins 0"

definition debug_print_phdr :: "Elf32_Phdr \<Rightarrow> 's boot \<Rightarrow> 's boot" where
  "debug_print_phdr phdr st =
    (let st = say prefix_text st;
         st = say '' '' (say_hex (p_offset phdr) st);
         st = say '' '' (say_hex (p_vaddr phdr) st);
         st = say '' '' (say_hex (p_filesz phdr) st)
     in say CRLF (say_hex (p_memsz phdr) st))"

definition write_hex_with_prefix :: "string \<Rightarrow> u32 \<Rightarrow> 's boot \<Rightarrow> 's boot" where
  "write_hex_with_prefix msg value st = say CRLF (say_hex value (say msg (say prefix_text st)))"

definition boot_read :: "'s spi_ops \<Rightarrow> u32 \<Rightarrow> u32 \<Rightarrow> 's boot \<Rightarrow> u8 list \<times> 's boot" where
  "boot_read ops address len st = (case flash_read ops address len (bt_spi st) of (bs, s) \<Rightarrow> (bs, st\<lparr>bt_spi := s\<rparr>))"

text \<open>A read through a capability. \<open>blocking_read\<close> stores each byte as it arrives, so a store that traps stops it there: the bytes
  before are in memory, the rest is not collected, and \<open>set_cs(false)\<close> is not reached.\<close>

fun stored :: "capability \<Rightarrow> u32 \<Rightarrow> u8 list \<Rightarrow> nat" where
  "stored c a [] = 0"
| "stored c a (b # bs) = (if cap_allows c a 1 then Suc (stored c (a + 1) bs) else 0)"

definition boot_read_to :: "'s spi_ops \<Rightarrow> u32 \<Rightarrow> capability \<Rightarrow> u32 \<Rightarrow> u32 \<Rightarrow> 's boot \<Rightarrow> bool \<times> 's boot" where
  "boot_read_to ops address segment data_out len st =
    (let s = flash_set_cs ops True (bt_spi st);
         s = blocking_write ops (address_cmd CmdReadData4Addr address) s;
         (bs, s') = blocking_read ops (unat len) s;
         (ok, m) = store_bytes segment data_out bs (bt_ram st);
         s = (if ok then flash_set_cs ops False s' else blocking_read_stopped ops (unat len) (stored segment data_out bs) s)
     in (ok, st\<lparr>bt_spi := s, bt_ram := m\<rparr>))"

text \<open>The two tests of the header.\<close>

definition magic_ok :: "Elf32_Ehdr \<Rightarrow> bool" where
  "magic_ok ehdr \<longleftrightarrow> e_ident ehdr ! 0 = ELFMAG ! 0 \<and> e_ident ehdr ! 1 = ELFMAG ! 1 \<and>
     e_ident ehdr ! 2 = ELFMAG ! 2 \<and> e_ident ehdr ! 3 = ELFMAG ! 3"

definition kind_ok :: "Elf32_Ehdr \<Rightarrow> bool" where
  "kind_ok ehdr \<longleftrightarrow> e_ident ehdr ! EI_CLASS = ELFCLASS32 \<and> e_type ehdr = ET_EXEC \<and> e_machine ehdr = EM_RISCV \<and>
     e_flags ehdr AND (EF_RISCV_CHERIABI OR EF_RISCV_CAP_MODE) = (EF_RISCV_CHERIABI OR EF_RISCV_CAP_MODE)"

text \<open>The capability for a segment.\<close>

definition segment_cap :: "cheri \<Rightarrow> capability \<Rightarrow> capability \<Rightarrow> Elf32_Phdr \<Rightarrow> capability" where
  "segment_cap ch sram hyperram phdr =
    (let segment = if p_vaddr phdr \<ge> of_nat (cap_top sram) then hyperram else sram;
         segment = cap_set_address ch (p_vaddr phdr) segment
     in cap_set_inexact ch (p_memsz phdr) segment)"

text \<open>The loop that copies a segment, 0x400 bytes at a time, from \<open>offset\<close>; the sums are 32 bits wide. A trap ends it in the middle of a
  read.\<close>

partial_function (option) load_chunks :: "'s spi_ops \<Rightarrow> u32 \<Rightarrow> capability \<Rightarrow> Elf32_Phdr \<Rightarrow> u32 \<Rightarrow> 's boot \<Rightarrow> (bool \<times> 's boot) option" where
  "load_chunks ops addr segment phdr offset st =
    (if offset < p_filesz phdr
     then (let size = min (p_filesz phdr) (offset + 0x400) - offset;
               (ok, st) = boot_read_to ops (addr + p_offset phdr + offset) segment (cap_address segment + offset) size st
           in if ok then load_chunks ops addr segment phdr (offset + 0x400) st else Some (False, st))
     else Some (True, st))"

text \<open>One program header.\<close>

definition load_segment :: "'s spi_ops \<Rightarrow> cheri \<Rightarrow> u32 \<Rightarrow> capability \<Rightarrow> capability \<Rightarrow> Elf32_Phdr \<Rightarrow> 's boot \<Rightarrow> (unit outcome \<times> 's boot) option" where
  "load_segment ops ch addr sram hyperram phdr st =
    (let segment = segment_cap ch sram hyperram phdr
     in if \<not> cap_valid segment
        then Some (complain_and_loop (''Cannot get a valid capability for segment'' @ [CHR 0x0A]) (debug_print_phdr phdr st))
        else do {
          (ok, st) \<leftarrow> load_chunks ops addr segment phdr 0 st;
          if \<not> ok then Some (Trapped, st)
          else (let (ok, m) = bl_memset segment (cap_address segment + p_filesz phdr) 0 (p_memsz phdr - p_filesz phdr) (bt_ram st);
                    st = st\<lparr>bt_ram := m\<rparr>
                in Some (if ok then Done () else Trapped, st)) })"

fun load_phdrs :: "'s spi_ops \<Rightarrow> cheri \<Rightarrow> u32 \<Rightarrow> capability \<Rightarrow> capability \<Rightarrow> Elf32_Ehdr \<Rightarrow> u32 list \<Rightarrow> 's boot \<Rightarrow> (unit outcome \<times> 's boot) option" where
  "load_phdrs ops ch addr sram hyperram ehdr [] st = Some (Done (), st)"
| "load_phdrs ops ch addr sram hyperram ehdr (i # is) st =
    (let phdr_read_addr = addr + e_phoff ehdr;
         (bs, st) = boot_read ops (phdr_read_addr + ucast (e_phentsize ehdr) * i) 32 st;
         phdr = phdr_of bs
     in if p_type phdr \<noteq> PT_LOAD then load_phdrs ops ch addr sram hyperram ehdr is st
        else do {
          (r, st) \<leftarrow> load_segment ops ch addr sram hyperram phdr st;
          case r of Done _ \<Rightarrow> load_phdrs ops ch addr sram hyperram ehdr is st | _ \<Rightarrow> Some (r, st) })"

definition read_elf :: "'s spi_ops \<Rightarrow> cheri \<Rightarrow> u32 \<Rightarrow> capability \<Rightarrow> capability \<Rightarrow> 's boot \<Rightarrow> (u32 outcome \<times> 's boot) option" where
  "read_elf ops ch addr sram hyperram st =
    (let st = say (''Loading software from flash...'' @ CRLF) (say prefix_text st);
         (bs, st) = boot_read ops addr 52 st;
         ehdr = ehdr_of bs
     in if \<not> magic_ok ehdr then Some (complain_and_loop (''Failed ELF Magic Check'' @ CRLF) st)
        else if \<not> kind_ok ehdr then Some (complain_and_loop (''ELF file is not 32-bit CHERI RISC-V executable'' @ CRLF) st)
        else do {
          (r, st) \<leftarrow> load_phdrs ops ch addr sram hyperram ehdr (map of_nat [0..<unat (e_phnum ehdr)]) st;
          Some (case r of Done _ \<Rightarrow> Done (e_entry ehdr) | Complained \<Rightarrow> Complained | Trapped \<Rightarrow> Trapped, st) })"

text \<open>The entry points. \<open>sysinfo\<close> is the first three words of the system information block.\<close>

definition SRAM_ADDRESS :: u32 where "SRAM_ADDRESS = 0x00100000"
definition SRAM_BOUNDS :: u32 where "SRAM_BOUNDS = 0x00020000"
definition HYPERRAM_ADDRESS :: u32 where "HYPERRAM_ADDRESS = 0x40000000"
definition HYPERRAM_BOUNDS :: u32 where "HYPERRAM_BOUNDS = 0x00100000"

definition sram_cap :: "cheri \<Rightarrow> capability \<Rightarrow> capability" where
  "sram_cap ch root = cap_set_exact ch (SRAM_BOUNDS - 0x1000) (cap_set_address ch (SRAM_ADDRESS + 0x1000) root)"

definition hyperram_cap :: "cheri \<Rightarrow> capability \<Rightarrow> capability" where
  "hyperram_cap ch root = cap_set_exact ch HYPERRAM_BOUNDS (cap_set_address ch HYPERRAM_ADDRESS root)"

definition rom_loader_entry :: "'s spi_ops \<Rightarrow> cheri \<Rightarrow> capability \<Rightarrow> u32 list \<Rightarrow> (nat \<Rightarrow> u32) \<Rightarrow> 's boot \<Rightarrow> (u32 outcome \<times> 's boot) option" where
  "rom_loader_entry ops ch root sysinfo input st =
    (let sram = sram_cap ch root;
         hyperram = hyperram_cap ch root;
         st = st\<lparr>bt_spi := flash_reset ops (spi_init ops False False True 0 (bt_spi st))\<rparr>;
         st = say ''Sonata system git SHA: '' (say prefix_text st);
         st = say_hex (sysinfo ! 1) (say_hex (sysinfo ! 0) st);
         st = (if sysinfo ! 2 \<noteq> 0 then say '' (dirty)'' st else st);
         st = say CRLF st;
         software_slot = read_selected_software_slot input;
         st = say ''Selected software slot: '' (say prefix_text st);
         st = say (char_of (of_char (CHR ''1'') + software_slot) # CRLF) st
     in do {
          (r, st) \<leftarrow> read_elf ops ch (SoftwareSlots ! software_slot) sram hyperram st;
          Some (case r of Done entrypoint \<Rightarrow> (r, say (''Booting into program, hopefully.'' @ CRLF) (say prefix_text st)) | _ \<Rightarrow> (r, st)) })"

text \<open>\<open>csrs\<close> are \<open>mepc\<close>, \<open>mcause\<close> and \<open>mtval\<close>.\<close>

definition exception_handler :: "u32 list \<Rightarrow> 's boot \<Rightarrow> 's boot" where
  "exception_handler csrs st =
    (let st = say (''Exception happened during loading.'' @ CRLF) (say prefix_text st);
         st = write_hex_with_prefix ''mepc  : '' (csrs ! 0) st;
         st = write_hex_with_prefix ''mcause: '' (csrs ! 1) st
     in write_hex_with_prefix ''mtval : '' (csrs ! 2) st)"

text \<open>The start-up code: clears the revocation bitmap, runs the loader and jumps to the address it returns (Done), or, after a trap, reports
  it and waits forever.\<close>

definition boot_start :: "'s spi_ops \<Rightarrow> cheri \<Rightarrow> capability \<Rightarrow> u32 list \<Rightarrow> (nat \<Rightarrow> u32) \<Rightarrow> u32 list \<Rightarrow> 's boot \<Rightarrow> (u32 outcome \<times> 's boot) option" where
  "boot_start ops ch root sysinfo input csrs st =
    (case bl_memset (cap_set_address ch 0x30000000 root) 0x30000000 0 2048 (bt_ram st) of (ok, m) \<Rightarrow>
       (let st = st\<lparr>bt_ram := m\<rparr>
        in if ok then do {
             (r, st) \<leftarrow> rom_loader_entry ops ch root sysinfo input st;
             Some (if r = Trapped then (r, exception_handler csrs st) else (r, st)) }
           else Some (Trapped, exception_handler csrs st)))"

end
