(* ===== verification/Boot_System.thy ===== *)
theory Boot_System
  imports Boot_Loader Flash_System
begin

unbundle bit_operations_syntax

text \<open>
  The boot loader with the simulated flash. A load in chunks is one store of the bytes of the file, the two loops of \<open>bl_memset\<close>
  are one store of zeros, and a segment becomes an update of the memory; what the loader accepts is described
  without capabilities.
\<close>

section \<open>Stores\<close>

definition patch :: "u32 \<Rightarrow> u8 list \<Rightarrow> (u32 \<Rightarrow> u8) \<Rightarrow> u32 \<Rightarrow> u8" where
  "patch a bs m p = (if unat a \<le> unat p \<and> unat p < unat a + length bs then bs ! (unat p - unat a) else m p)"

lemma unat_add_nat: "unat (a :: u32) + n < 2 ^ 32 \<Longrightarrow> unat (a + of_nat n) = unat a + n"
  by (simp add: unat_word_ariths unat_of_nat)

lemma store_bytes_append:
  "store_bytes c a (xs @ ys) m =
    (case store_bytes c a xs m of (ok, m') \<Rightarrow> if ok then store_bytes c (a + of_nat (length xs)) ys m' else (False, m'))"
  by (induction xs arbitrary: a m) (auto simp: algebra_simps split: prod.splits)

lemma store_bytes_frame:
  "snd (store_bytes c a bs m) p \<noteq> m p \<Longrightarrow> cap_allows c p 1"
proof (induction c a bs m rule: store_bytes.induct)
  case (2 c a b bs m)
  define m1 where "m1 = m(a := b)"
  have "p \<noteq> a \<Longrightarrow> m1 p = m p" by (simp add: m1_def)
  with 2 show ?case unfolding store_bytes.simps m1_def [symmetric]
    by (cases "cap_allows c a 1"; cases "p = a") (simp_all flip: m1_def)
qed simp

lemma patch_Cons: "unat a + length bs < 2 ^ 32 \<Longrightarrow> patch a (b # bs) m = patch (a + 1) bs (m(a := b))"
proof (rule ext)
  fix p :: u32
  assume l: "unat a + length bs < 2 ^ 32"
  have "unat p = unat a \<longleftrightarrow> p = a" by (simp add: word_unat_eq_iff)
  moreover have "unat (a + 1) = Suc (unat a)" if "bs \<noteq> []"
    using unat_add_nat [of a 1] l that by (cases bs) simp_all
  ultimately show "patch a (b # bs) m p = patch (a + 1) bs (m(a := b)) p"
    by (cases bs) (auto simp: patch_def nth_Cons')
qed

text \<open>A capability that ends below the end of the address space, or a range that does: then addresses do not wrap.\<close>

abbreviation no_wrap :: "capability \<Rightarrow> u32 \<Rightarrow> nat \<Rightarrow> bool" where
  "no_wrap c a n \<equiv> cap_top c < 2 ^ 32 \<or> unat a + n < 2 ^ 32"

lemma no_wrap_next:
  assumes "no_wrap c a (k + n)" "cap_allows c a k"
  shows "no_wrap c (a + of_nat k) n" and "unat a + k < 2 ^ 32"
proof -
  show k: "unat a + k < 2 ^ 32" using assms by (auto simp: cap_allows_def)
  show "no_wrap c (a + of_nat k) n" using assms(1) unat_add_nat [OF k] by auto
qed

lemma store_bytes_ok:
  assumes "no_wrap c a (length bs)"
  shows "fst (store_bytes c a bs m) \<longleftrightarrow> bs = [] \<or> cap_allows c a (length bs)"
    and "fst (store_bytes c a bs m) \<Longrightarrow> snd (store_bytes c a bs m) = patch a bs m"
proof -
  have "(fst (store_bytes c a bs m) \<longleftrightarrow> bs = [] \<or> cap_allows c a (length bs)) \<and>
    (fst (store_bytes c a bs m) \<longrightarrow> snd (store_bytes c a bs m) = patch a bs m)"
    using assms
  proof (induction bs arbitrary: a m)
    case (Cons b bs)
    define m1 where "m1 = m(a := b)"
    show ?case
    proof (cases "cap_allows c a 1")
      case True
      have nw: "no_wrap c (a + 1) (length bs)" and a: "unat (a + 1) = Suc (unat a)"
        using no_wrap_next [of c a 1 "length bs"] unat_add_nat [of a 1] Cons.prems True by simp_all
      have "cap_allows c a (Suc (length bs)) \<longleftrightarrow> bs = [] \<or> cap_allows c (a + 1) (length bs)"
        using True a by (cases bs) (auto simp: cap_allows_def)
      moreover from this have "patch a (b # bs) m = patch (a + 1) bs m1" if "fst (store_bytes c (a + 1) bs m1)"
        unfolding m1_def using that Cons.IH [OF nw, of m1] Cons.prems True no_wrap_next(2) [of c a 1 "length bs"]
        by (intro patch_Cons) (auto simp: cap_allows_def)
      ultimately show ?thesis using True Cons.IH [OF nw, of m1] by (simp flip: m1_def)
    qed (auto simp: cap_allows_def)
  qed (auto simp: patch_def fun_eq_iff)
  then show "fst (store_bytes c a bs m) \<longleftrightarrow> bs = [] \<or> cap_allows c a (length bs)"
    and "fst (store_bytes c a bs m) \<Longrightarrow> snd (store_bytes c a bs m) = patch a bs m" by blast+
qed

section \<open>The two loops of \<open>bl_memset\<close>\<close>

lemma bytes_fill_eq: "bytes_fill c a v n m = store_bytes c a (replicate n (ucast v)) m"
  by (induction n arbitrary: a m) auto

lemma word_bytes_broadcast: "word_bytes (broadcast v) = replicate 4 (ucast v)"
proof -
  have b: "bit (broadcast v) k \<longleftrightarrow> k < 32 \<and> bit v (k mod 8)" for k
  proof -
    have m: "(0xff :: u32) = mask 8" by (simp add: mask_eq_exp_minus_1)
    show ?thesis
    proof (cases "k < 32")
      case True
      then consider "k < 8" | "8 \<le> k" "k < 16" | "16 \<le> k" "k < 24" | "24 \<le> k" "k < 32" by force
      then show ?thesis
        by cases (auto simp: broadcast_def Let_def m bit_simps le_mod_geq)
    qed (use bit_imp_le_length [of "broadcast v" k] in auto)
  qed
  have m: "(16 + k) mod 8 = k" "(24 + k) mod 8 = k" if "k < 8" for k :: nat using that by presburger+
  have "(ucast (drop_bit n (broadcast v)) :: u8) = ucast v" if "n = 0 \<or> n = 8 \<or> n = 16 \<or> n = 24" for n
    by (rule bit_word_eqI) (use that m in \<open>auto simp: bit_simps b\<close>)
  from this [of 0] this [of 8] this [of 16] this [of 24] show ?thesis
    by (simp add: word_bytes_def numeral_eq_Suc)
qed

lemma word_fill_frame: "snd (word_fill c a v n m) p \<noteq> m p \<Longrightarrow> cap_allows c p 1"
proof (induction n arbitrary: a m)
  case (Suc n)
  define m1 where "m1 = snd (store_bytes c a (word_bytes v) m)"
  from Suc.prems have "snd (word_fill c (a + 4) v n m1) p \<noteq> m p"
    by (cases "cap_allows c a 4") (simp_all add: m1_def)
  then have "snd (word_fill c (a + 4) v n m1) p \<noteq> m1 p \<or> m1 p \<noteq> m p" by auto
  then show ?case using Suc.IH store_bytes_frame unfolding m1_def by blast
qed simp

lemma word_fill_ok:
  assumes "no_wrap c a (4 * n)"
  shows "(fst (word_fill c a v n m) \<longleftrightarrow> n = 0 \<or> cap_allows c a (4 * n)) \<and>
    (fst (word_fill c a v n m) \<longrightarrow> word_fill c a v n m = store_bytes c a (concat (replicate n (word_bytes v))) m)"
  using assms
proof (induction n arbitrary: a m)
  case (Suc n)
  define m1 where "m1 = snd (store_bytes c a (word_bytes v) m)"
  have l: "length (word_bytes v) = 4" by (simp add: word_bytes_def)
  show ?case
  proof (cases "cap_allows c a 4")
    case True
    have nw: "no_wrap c (a + 4) (4 * n)" "no_wrap c a 4" and a: "unat (a + 4) = unat a + 4"
      using no_wrap_next [of c a 4 "4 * n"] unat_add_nat [of a 4] Suc.prems True by auto
    have s: "store_bytes c a (word_bytes v) m = (True, m1)"
      using store_bytes_ok(1) [of c a "word_bytes v" m] nw(2) True by (simp add: l m1_def prod_eq_iff)
    have "cap_allows c a (4 * Suc n) \<longleftrightarrow> n = 0 \<or> cap_allows c (a + 4) (4 * n)"
      using True a by (cases n) (auto simp: cap_allows_def)
    with Suc.IH [OF nw(1), of m1] True s show ?thesis by (simp add: store_bytes_append l)
  qed (auto simp: cap_allows_def)
qed (simp add: cap_allows_def)

lemma concat_replicate_replicate: "concat (replicate n (replicate k x)) = replicate (n * k) x"
  by (induction n) (simp_all add: replicate_add [symmetric] add.commute)

lemma memset_count:
  fixes n :: u32
  assumes "n AND 3 = 0"
  shows "4 * (unat n div 4) = unat n"
proof -
  have m: "(3 :: u32) = mask 2" by (simp add: mask_eq_exp_minus_1)
  have "unat (n AND 3) = unat n mod 4"
    unfolding m by (simp only: take_bit_eq_mask [symmetric] unsigned_take_bit_eq) (simp add: take_bit_eq_mod)
  with assms show ?thesis using mult_div_mod_eq [of 4 "unat n"] by simp
qed

lemma bl_memset_ok:
  assumes "no_wrap c a (unat n)"
  shows "fst (bl_memset c a v n m) \<longleftrightarrow> n = 0 \<or> cap_allows c a (unat n)"
    and "fst (bl_memset c a v n m) \<Longrightarrow> snd (bl_memset c a v n m) = patch a (replicate (unat n) (ucast v)) m"
proof -
  have r: "replicate (unat n) (ucast v) = [] \<longleftrightarrow> n = 0" by (simp add: unat_eq_0)
  have w: "concat (replicate k (word_bytes (broadcast v))) = replicate (k * 4) (ucast v)" for k
    by (simp only: word_bytes_broadcast concat_replicate_replicate)
  consider "bl_memset c a v n m = bytes_fill c a v (unat n) m"
    | "bl_memset c a v n m = word_fill c a (broadcast v) (unat n div 4) m" "n AND 3 = 0"
    by (cases "a AND 3 = 0"; cases "n AND 3 = 0") (simp_all add: bl_memset_def)
  then have "(fst (bl_memset c a v n m) \<longleftrightarrow> n = 0 \<or> cap_allows c a (unat n)) \<and>
    (fst (bl_memset c a v n m) \<longrightarrow> snd (bl_memset c a v n m) = patch a (replicate (unat n) (ucast v)) m)"
  proof cases
    case 1
    then show ?thesis
      using store_bytes_ok [of c a "replicate (unat n) (ucast v)" m] assms by (simp add: bytes_fill_eq unat_eq_0)
  next
    case 2
    note k = memset_count [OF 2(2)]
    have z: "unat n div 4 = 0 \<longleftrightarrow> n = 0" using k by (metis div_0 mult_0_right unat_eq_0)
    have "fst (word_fill c a (broadcast v) (unat n div 4) m) \<longleftrightarrow> n = 0 \<or> cap_allows c a (unat n)"
      "fst (word_fill c a (broadcast v) (unat n div 4) m) \<Longrightarrow>
        word_fill c a (broadcast v) (unat n div 4) m = store_bytes c a (replicate (unat n) (ucast v)) m"
      using word_fill_ok [of c a "unat n div 4" "broadcast v" m] assms k z unfolding w by (simp_all add: mult.commute)
    moreover have "fst (store_bytes c a (replicate (unat n) (ucast v)) m) \<longleftrightarrow> n = 0 \<or> cap_allows c a (unat n)"
      "fst (store_bytes c a (replicate (unat n) (ucast v)) m) \<Longrightarrow>
        snd (store_bytes c a (replicate (unat n) (ucast v)) m) = patch a (replicate (unat n) (ucast v)) m"
      using store_bytes_ok [of c a "replicate (unat n) (ucast v)" m] assms by (simp_all add: unat_eq_0)
    ultimately show ?thesis unfolding 2(1) by auto
  qed
  then show "fst (bl_memset c a v n m) \<longleftrightarrow> n = 0 \<or> cap_allows c a (unat n)"
    and "fst (bl_memset c a v n m) \<Longrightarrow> snd (bl_memset c a v n m) = patch a (replicate (unat n) (ucast v)) m"
    by blast+
qed

lemma bl_memset_frame: "snd (bl_memset c a v n m) p \<noteq> m p \<Longrightarrow> cap_allows c p 1"
  using word_fill_frame store_bytes_frame by (auto simp: bl_memset_def bytes_fill_eq split: if_splits)


section \<open>Loading from the flash\<close>

lemma flash_bytes_add: "flash_bytes m a (k + l) = flash_bytes m a k @ flash_bytes m (a + of_nat k) l"
  by (rule nth_equalityI) (auto simp: flash_bytes_def nth_append add.assoc simp flip: of_nat_add)

lemma length_flash_bytes [simp]: "length (flash_bytes m a n) = n"
  by (simp add: flash_bytes_def)

context flash_slot
begin

lemma boot_read_eq:
  assumes "flash_holds view (bt_spi st) m j"
  shows "\<exists>s'. boot_read ops a len st = (flash_bytes m a (unat len), st\<lparr>bt_spi := s'\<rparr>) \<and> flash_holds view s' m j"
  using read_refines [OF assms, of a len] by (auto simp: boot_read_def)

text \<open>How the loader leaves the flash: idle and unchanged, or, after a trap only, in the middle of a read.\<close>

definition cut :: "'s \<Rightarrow> (u32 \<Rightarrow> u8) \<Rightarrow> u32 \<Rightarrow> bool" where
  "cut s m j \<longleftrightarrow> (\<exists>n k s0 a. k < n \<and> s = blocking_read_stopped ops n k s0 \<and> answers s0 a m j)"

definition left :: "bool \<Rightarrow> 's \<Rightarrow> (u32 \<Rightarrow> u8) \<Rightarrow> u32 \<Rightarrow> bool" where
  "left trapped s m j \<longleftrightarrow> flash_holds view s m j \<or> trapped \<and> cut s m j"

lemma left_False [simp]: "left False s m j \<longleftrightarrow> flash_holds view s m j"
  by (simp add: left_def)

lemma leftI: "flash_holds view s m j \<Longrightarrow> left t s m j"
  by (simp add: left_def)

lemma stored_less: "\<not> fst (store_bytes c a bs m) \<Longrightarrow> stored c a bs < length bs"
  by (induction bs arbitrary: a m) (auto split: if_splits)

lemma boot_read_to_run:
  fixes seg :: capability and d a len :: u32
  assumes "flash_holds view (bt_spi st) m j"
  defines "r \<equiv> store_bytes seg d (flash_bytes m a (unat len)) (bt_ram st)"
  shows "\<exists>s. boot_read_to ops a seg d len st = (fst r, st\<lparr>bt_spi := s, bt_ram := snd r\<rparr>) \<and> left (\<not> fst r) s m j"
proof -
  define s1 where "s1 = blocking_write ops (address_cmd CmdReadData4Addr a) (flash_set_cs ops True (bt_spi st))"
  define k where "k = stored seg d (flash_bytes m a (unat len))"
  have s1: "answers s1 a m j" unfolding s1_def by (rule read_begins [OF assms(1)])
  obtain s2 where s2: "blocking_read ops (unat len) s1 = (flash_bytes m a (unat len), s2)" "flash_holds view (flash_set_cs ops False s2) m j"
    using read_ends [OF s1] by blast
  define s3 where "s3 = (if fst r then flash_set_cs ops False s2 else blocking_read_stopped ops (unat len) k s1)"
  have "boot_read_to ops a seg d len st = (fst r, st\<lparr>bt_spi := s3, bt_ram := snd r\<rparr>)"
    by (simp add: boot_read_to_def s2(1) split_beta s3_def k_def r_def flip: s1_def)
  moreover have "k < unat len" if "\<not> fst r" using stored_less [of seg d "flash_bytes m a (unat len)" "bt_ram st"] that by (simp add: r_def k_def)
  then have "left (\<not> fst r) s3 m j" using s1 s2(2) by (auto simp: left_def cut_def s3_def)
  ultimately show ?thesis by blast
qed

lemma chunk_size:
  fixes off len :: u32
  assumes "off < len" "unat off + 0x400 < 2 ^ 32"
  shows "unat (min len (off + 0x400) - off) = min (unat len - unat off) 0x400"
proof -
  have o: "unat (off + 0x400) = unat off + 0x400" using unat_add_nat [of off "0x400"] assms(2) by simp
  have "off \<le> min len (off + 0x400)" using assms(1) o by (simp add: word_le_nat_alt word_less_nat_alt)
  moreover have "unat (min len (off + 0x400)) = min (unat len) (unat off + 0x400)"
    using o by (simp add: min_def word_le_nat_alt)
  ultimately show ?thesis by (simp add: unat_sub)
qed

lemma load_chunks_done: "\<not> off < p_filesz ph \<Longrightarrow> load_chunks ops addr seg ph off st = Some (True, st)"
  by (subst load_chunks.simps) simp

lemma load_chunks_step:
  fixes seg :: capability and addr :: u32
  assumes "flash_holds view (bt_spi st) m j" "off < p_filesz ph" "unat off + 0x400 < 2 ^ 32"
  defines "r \<equiv> store_bytes seg (cap_address seg + off)
    (flash_bytes m (addr + p_offset ph + off) (min (unat (p_filesz ph) - unat off) 0x400)) (bt_ram st)"
  shows "\<exists>s. left (\<not> fst r) s m j \<and> load_chunks ops addr seg ph off st =
    (if fst r then load_chunks ops addr seg ph (off + 0x400) (st\<lparr>bt_spi := s, bt_ram := snd r\<rparr>)
     else Some (False, st\<lparr>bt_spi := s, bt_ram := snd r\<rparr>))"
proof -
  have n: "unat (min (p_filesz ph) (off + 0x400) - off) = min (unat (p_filesz ph) - unat off) 0x400"
    by (rule chunk_size [OF assms(2,3)])
  obtain s where "boot_read_to ops (addr + p_offset ph + off) seg (cap_address seg + off) (min (p_filesz ph) (off + 0x400) - off) st =
      (fst r, st\<lparr>bt_spi := s, bt_ram := snd r\<rparr>)" "left (\<not> fst r) s m j"
    using boot_read_to_run [OF assms(1), where seg = seg and d = "cap_address seg + off" and a = "addr + p_offset ph + off"
      and len = "min (p_filesz ph) (off + 0x400) - off"]
    unfolding n r_def by blast
  then show ?thesis
    by (intro exI [of _ s]) (subst load_chunks.simps, use assms(2) in simp)
qed

text \<open>The chunks are one store of what is left of the file.\<close>

lemma load_chunks_eq:
  assumes "flash_holds view (bt_spi st) m j" "0x400 \<le> unat (cap_address seg)" "unat (cap_address seg) + unat off < 2 ^ 32"
    "cap_top seg < 2 ^ 32"
  shows "\<exists>s. load_chunks ops addr seg ph off st =
    (let (ok, ram) = store_bytes seg (cap_address seg + off)
       (flash_bytes m (addr + p_offset ph + off) (unat (p_filesz ph) - unat off)) (bt_ram st)
     in Some (ok, st\<lparr>bt_spi := s, bt_ram := ram\<rparr>)) \<and>
    left (\<not> fst (store_bytes seg (cap_address seg + off)
       (flash_bytes m (addr + p_offset ph + off) (unat (p_filesz ph) - unat off)) (bt_ram st))) s m j"
  using assms(1,3)
proof (induction "unat (p_filesz ph) - unat off" arbitrary: off st rule: less_induct)
  case less
  define F where "F = unat (p_filesz ph) - unat off"
  define n where "n = min F 0x400"
  define a where "a = cap_address seg + off"
  define f where "f = addr + p_offset ph + off"
  show ?case
  proof (cases "off < p_filesz ph")
    case False
    moreover from this have "F = 0" unfolding F_def word_less_nat_alt by simp
    ultimately show ?thesis using less.prems(1)
      by (intro exI [of _ "bt_spi st"]) (simp add: load_chunks_done flash_bytes_def flip: F_def)
  next
    case True
    define r where "r = store_bytes seg a (flash_bytes m f n) (bt_ram st)"
    have o: "unat off + 0x400 < 2 ^ 32" "unat (off + 0x400) = unat off + 0x400"
      using unat_add_nat [of off "0x400"] less.prems(2) assms(2) by simp_all
    obtain s where s: "left (\<not> fst r) s m j" "load_chunks ops addr seg ph off st =
        (if fst r then load_chunks ops addr seg ph (off + 0x400) (st\<lparr>bt_spi := s, bt_ram := snd r\<rparr>)
         else Some (False, st\<lparr>bt_spi := s, bt_ram := snd r\<rparr>))"
      using load_chunks_step [OF less.prems(1) True o(1), where seg = seg and addr = addr] unfolding r_def n_def F_def a_def f_def by blast
    have "flash_bytes m f F = flash_bytes m f n @ flash_bytes m (f + of_nat n) (F - n)"
      using flash_bytes_add [of m f n "F - n"] by (simp add: n_def)
    then have whole: "store_bytes seg a (flash_bytes m f F) (bt_ram st) =
        (if fst r then store_bytes seg (a + of_nat n) (flash_bytes m (f + of_nat n) (F - n)) (snd r) else (False, snd r))"
      by (simp add: store_bytes_append r_def split_beta)
    consider "\<not> fst r" | "fst r" "F \<le> 0x400" | "fst r" "0x400 < F" by linarith
    then show ?thesis
    proof cases
      case 1
      with s whole show ?thesis by (intro exI [of _ s]) (simp flip: a_def f_def F_def)
    next
      case 2
      then have "\<not> off + 0x400 < p_filesz ph" unfolding word_less_nat_alt o(2) F_def by simp
      with 2 s whole show ?thesis
        by (intro exI [of _ s]) (simp add: load_chunks_done n_def min_def flash_bytes_def flip: a_def f_def F_def)
    next
      case 3
      then have n: "n = 0x400" by (simp add: n_def)
      have "cap_allows seg a 0x400"
        using 3(1) store_bytes_ok(1) [of seg a "flash_bytes m f n" "bt_ram st"] assms(4)
        by (auto simp: r_def n simp flip: length_0_conv)
      then have "unat (cap_address seg) + unat (off + 0x400) < 2 ^ 32"
        using less.prems(2) assms(4) unat_add_nat [of "cap_address seg" "unat off"] by (simp add: cap_allows_def a_def o(2))
      moreover have "unat (p_filesz ph) - unat (off + 0x400) = F - n" by (simp add: F_def n o(2))
      moreover have "F - n < unat (p_filesz ph) - unat off" using 3(2) by (simp add: n flip: F_def)
      moreover have "cap_address seg + (off + 0x400) = a + of_nat n" "addr + p_offset ph + (off + 0x400) = f + of_nat n"
        by (simp_all add: a_def f_def n add.assoc)
      ultimately obtain s2 where "load_chunks ops addr seg ph (off + 0x400) (st\<lparr>bt_spi := s, bt_ram := snd r\<rparr>) =
          (let (ok, ram) = store_bytes seg (a + of_nat n) (flash_bytes m (f + of_nat n) (F - n)) (snd r)
           in Some (ok, st\<lparr>bt_spi := s2, bt_ram := ram\<rparr>))"
          "left (\<not> fst (store_bytes seg (a + of_nat n) (flash_bytes m (f + of_nat n) (F - n)) (snd r))) s2 m j"
        using less.hyps [of "off + 0x400" "st\<lparr>bt_spi := s, bt_ram := snd r\<rparr>"] s(1) 3(1) by auto
      with s 3 whole show ?thesis
        by (intro exI [of _ s2]) (simp flip: a_def f_def F_def)
    qed
  qed
qed

end

section \<open>What a bootable image is\<close>

text \<open>The memory a segment must lie in, by its address: the hyperram from the end of the static RAM on, else the static RAM without its
  first 4 KiB.\<close>

definition window :: "Elf32_Phdr \<Rightarrow> nat \<times> nat" where
  "window ph = (if 0x120000 \<le> p_vaddr ph then (0x40000000, 0x40100000) else (0x101000, 0x120000))"

definition in_windows :: "u32 \<Rightarrow> bool" where
  "in_windows p \<longleftrightarrow> 0x101000 \<le> p \<and> p < 0x120000 \<or> 0x40000000 \<le> p \<and> p < 0x40100000"

definition segment_ok :: "Elf32_Phdr \<Rightarrow> bool" where
  "segment_ok ph \<longleftrightarrow> fst (window ph) \<le> unat (p_vaddr ph) \<and> unat (p_vaddr ph) + unat (p_memsz ph) \<le> snd (window ph) \<and>
     p_filesz ph \<le> p_memsz ph"

text \<open>A segment in memory: its bytes of the file, then zeros.\<close>

definition segment_image :: "(u32 \<Rightarrow> u8) \<Rightarrow> u32 \<Rightarrow> Elf32_Phdr \<Rightarrow> (u32 \<Rightarrow> u8) \<Rightarrow> u32 \<Rightarrow> u8" where
  "segment_image m addr ph = patch (p_vaddr ph)
     (flash_bytes m (addr + p_offset ph) (unat (p_filesz ph)) @ replicate (unat (p_memsz ph) - unat (p_filesz ph)) 0)"

definition elf_header :: "(u32 \<Rightarrow> u8) \<Rightarrow> u32 \<Rightarrow> Elf32_Ehdr" where
  "elf_header m addr = ehdr_of (flash_bytes m addr 52)"

definition elf_phdr :: "(u32 \<Rightarrow> u8) \<Rightarrow> u32 \<Rightarrow> u32 \<Rightarrow> Elf32_Phdr" where
  "elf_phdr m addr i = phdr_of (flash_bytes m (addr + e_phoff (elf_header m addr) + ucast (e_phentsize (elf_header m addr)) * i) 32)"

definition elf_segments :: "(u32 \<Rightarrow> u8) \<Rightarrow> u32 \<Rightarrow> Elf32_Phdr list" where
  "elf_segments m addr = filter (\<lambda>ph. p_type ph = PT_LOAD) (map (elf_phdr m addr) (map of_nat [0..<unat (e_phnum (elf_header m addr))]))"

definition elf_ok :: "(u32 \<Rightarrow> u8) \<Rightarrow> u32 \<Rightarrow> bool" where
  "elf_ok m addr \<longleftrightarrow> magic_ok (elf_header m addr) \<and> kind_ok (elf_header m addr) \<and> (\<forall>ph \<in> set (elf_segments m addr). segment_ok ph)"

definition elf_image :: "(u32 \<Rightarrow> u8) \<Rightarrow> u32 \<Rightarrow> (u32 \<Rightarrow> u8) \<Rightarrow> u32 \<Rightarrow> u8" where
  "elf_image m addr = fold (segment_image m addr) (elf_segments m addr)"

text \<open>Where the selected image starts.\<close>

definition slot_address :: "(nat \<Rightarrow> u32) \<Rightarrow> u32" where
  "slot_address input = SoftwareSlots ! read_selected_software_slot input"

section \<open>The loader\<close>

text \<open>The board: an SPI controller with the flash, the encoding of capabilities and the capability the loader is given. The two memories are
  ranges the encoding can express.\<close>

locale boot_board = flash_slot ops view delay + cheri_encoding ch
  for ops :: "'s spi_ops" and view :: "'s \<Rightarrow> fl_bus ctl" and delay and ch :: cheri +
  fixes root :: capability
  assumes root: "cap_valid root" "cap_base root = 0" "cap_top root = 2 ^ 32"
    and windows: "round_bounds ch 0x101000 0x120000 = (0x101000, 0x120000)" "round_bounds ch 0x40000000 0x40100000 = (0x40000000, 0x40100000)"
begin

lemma root_range: "in_range ch 0 (2 ^ 32) a"
  using in_bounds_in_range [of 0 a "2 ^ 32"] unsigned_less [of a, where 'a = nat] by simp

lemma sram_cap: "cap_valid (sram_cap ch root)" "cap_base (sram_cap ch root) = 0x101000" "cap_top (sram_cap ch root) = 0x120000"
  using root root_range [of "0x101000"] windows
  by (simp_all add: sram_cap_def cap_set_exact_def cap_set_inexact_def cap_set_address_def SRAM_ADDRESS_def SRAM_BOUNDS_def)

lemma hyperram_cap:
  "cap_valid (hyperram_cap ch root)" "cap_base (hyperram_cap ch root) = 0x40000000" "cap_top (hyperram_cap ch root) = 0x40100000"
  using root root_range [of "0x40000000"] windows
  by (simp_all add: hyperram_cap_def cap_set_exact_def cap_set_inexact_def cap_set_address_def HYPERRAM_ADDRESS_def HYPERRAM_BOUNDS_def)

abbreviation seg :: "Elf32_Phdr \<Rightarrow> capability" where
  "seg ph \<equiv> segment_cap ch (sram_cap ch root) (hyperram_cap ch root) ph"

lemma segment_cap_eq:
  "seg ph = cap_set_inexact ch (p_memsz ph) (cap_set_address ch (p_vaddr ph)
     (if 0x120000 \<le> p_vaddr ph then hyperram_cap ch root else sram_cap ch root))"
  by (simp add: segment_cap_def sram_cap(3))

lemma seg_address [simp]: "cap_address (seg ph) = p_vaddr ph"
  by (simp add: segment_cap_eq cap_set_inexact_def cap_set_address_def split_beta Let_def)

lemma seg_valid:
  assumes "cap_valid (seg ph)"
  shows "fst (window ph) \<le> unat (p_vaddr ph)" "unat (p_vaddr ph) + unat (p_memsz ph) \<le> snd (window ph)"
    "cap_base (seg ph) \<le> unat (p_vaddr ph)" "unat (p_vaddr ph) + unat (p_memsz ph) \<le> cap_top (seg ph)"
    "fst (window ph) \<le> cap_base (seg ph)" "cap_top (seg ph) \<le> snd (window ph)"
proof -
  define b where "b = unat (p_vaddr ph)"
  define t where "t = b + unat (p_memsz ph)"
  define w where "w = window ph"
  have w: "round_bounds ch (fst w) (snd w) = (fst w, snd w)"
    using windows by (simp add: w_def window_def)
  have v: "fst w \<le> b \<and> t \<le> snd w"
    using assms sram_cap hyperram_cap
    by (simp add: segment_cap_eq cap_set_inexact_def cap_set_address_def split_beta Let_def b_def t_def w_def window_def split: if_splits)
  obtain b' t' where r: "round_bounds ch b t = (b', t')" by fastforce
  have "cap_base (seg ph) = b'" "cap_top (seg ph) = t'"
    using r by (simp_all add: segment_cap_eq cap_set_inexact_def cap_set_address_def Let_def b_def t_def)
  moreover have "b' \<le> b \<and> t \<le> t'" using round_contains [of b t b' t'] r by (simp add: t_def)
  moreover have "fst w \<le> b' \<and> t' \<le> snd w" using round_monotone [OF w, of b t b' t'] r v by (simp add: t_def)
  ultimately show "fst (window ph) \<le> unat (p_vaddr ph)" "unat (p_vaddr ph) + unat (p_memsz ph) \<le> snd (window ph)"
    "cap_base (seg ph) \<le> unat (p_vaddr ph)" "unat (p_vaddr ph) + unat (p_memsz ph) \<le> cap_top (seg ph)"
    "fst (window ph) \<le> cap_base (seg ph)" "cap_top (seg ph) \<le> snd (window ph)"
    using v by (simp_all add: b_def t_def w_def)
qed

lemma seg_validI:
  assumes "segment_ok ph" "unat (p_vaddr ph) < snd (window ph)"
  shows "cap_valid (seg ph)"
  using assms sram_cap hyperram_cap in_bounds_in_range [of "fst (window ph)" "p_vaddr ph" "snd (window ph)"]
  by (simp add: segment_cap_eq cap_set_inexact_def cap_set_address_def split_beta Let_def segment_ok_def window_def split: if_splits)

lemma seg_allows_window: "cap_allows (seg ph) p 1 \<Longrightarrow> in_windows p"
  using seg_valid [of ph] by (auto simp: cap_allows_def in_windows_def window_def word_le_nat_alt word_less_nat_alt split: if_splits)

text \<open>The rest of a segment is cleared exactly when its size in the file is no more than its size in memory; otherwise the difference wraps, and
  the fill runs into the end of the capability.\<close>

lemma clear_rest:
  fixes ram m :: "u32 \<Rightarrow> u8" and ph :: Elf32_Phdr and addr :: u32
  assumes "cap_valid (seg ph)" "unat (p_vaddr ph) + unat (p_filesz ph) < 2 ^ 32"
  defines "r \<equiv> bl_memset (seg ph) (p_vaddr ph + p_filesz ph) 0 (p_memsz ph - p_filesz ph)
    (patch (p_vaddr ph) (flash_bytes m (addr + p_offset ph) (unat (p_filesz ph))) ram)"
  shows "fst r \<longleftrightarrow> p_filesz ph \<le> p_memsz ph" and "fst r \<Longrightarrow> snd r = segment_image m addr ph ram"
proof -
  define d where "d = p_memsz ph - p_filesz ph"
  note v = seg_valid [OF assms(1)]
  have top: "cap_top (seg ph) < 2 ^ 32" using v(6) by (auto simp: window_def split: if_splits)
  have sum: "unat (p_vaddr ph + p_filesz ph) = unat (p_vaddr ph) + unat (p_filesz ph)"
    using unat_add_nat [of "p_vaddr ph" "unat (p_filesz ph)"] assms(2) by simp
  have d: "unat d = unat (p_memsz ph) - unat (p_filesz ph) \<and> unat (p_filesz ph) \<le> unat (p_memsz ph)" if "p_filesz ph \<le> p_memsz ph"
    using that by (simp add: d_def unat_sub word_le_nat_alt)
  show *: "fst r \<longleftrightarrow> p_filesz ph \<le> p_memsz ph"
  proof
    assume "p_filesz ph \<le> p_memsz ph"
    from d [OF this] show "fst r"
      using bl_memset_ok(1) [OF disjI1 [OF top]] v assms(1) by (simp add: r_def cap_allows_def sum flip: d_def)
  next
    assume "fst r"
    then have "d = 0 \<or> unat (p_vaddr ph) + unat (p_filesz ph) + unat d < 2 ^ 32"
      using bl_memset_ok(1) [OF disjI1 [OF top]] top by (auto simp: r_def cap_allows_def sum d_def)
    then have "unat (p_filesz ph + d) = unat (p_filesz ph) + unat d"
      using unat_add_nat [of "p_filesz ph" "unat d"] by auto
    then show "p_filesz ph \<le> p_memsz ph" by (simp add: d_def word_le_nat_alt)
  qed
  assume r: "fst r"
  then have "snd r = patch (p_vaddr ph + p_filesz ph) (replicate (unat d) 0)
      (patch (p_vaddr ph) (flash_bytes m (addr + p_offset ph) (unat (p_filesz ph))) ram)"
    using bl_memset_ok(2) [OF disjI1 [OF top]] by (simp add: r_def d_def)
  then show "snd r = segment_image m addr ph ram"
    using d r * by (auto simp: fun_eq_iff segment_image_def patch_def sum nth_append)
qed

text \<open>One segment: the loader goes on only past a segment in its window that holds its file bytes.\<close>

lemma load_segment_run:
  assumes "flash_holds view (bt_spi st) m j"
  shows "\<exists>r st'. load_segment ops ch addr (sram_cap ch root) (hyperram_cap ch root) ph st = Some (r, st') \<and>
    left (r = Trapped) (bt_spi st') m j \<and> (\<forall>p. bt_ram st' p \<noteq> bt_ram st p \<longrightarrow> in_windows p) \<and>
    (r = Done () \<longrightarrow> segment_ok ph \<and> bt_ram st' = segment_image m addr ph (bt_ram st)) \<and>
    (segment_ok ph \<and> unat (p_vaddr ph) < snd (window ph) \<longrightarrow> r = Done ())"
proof (cases "cap_valid (seg ph)")
  case False
  then show ?thesis
    using assms seg_validI [of ph]
    by (auto simp: load_segment_def complain_and_loop_def debug_print_phdr_def say_def say_hex_def Let_def)
next
  case True
  note v = seg_valid [OF True]
  define F where "F = flash_bytes m (addr + p_offset ph) (unat (p_filesz ph))"
  have top: "cap_top (seg ph) < 2 ^ 32" "0x400 \<le> unat (p_vaddr ph)"
    using v(1,6) by (auto simp: window_def split: if_splits)
  obtain s where s: "left (\<not> fst (store_bytes (seg ph) (p_vaddr ph) F (bt_ram st))) s m j" "load_chunks ops addr (seg ph) ph 0 st =
      Some (fst (store_bytes (seg ph) (p_vaddr ph) F (bt_ram st)),
        st\<lparr>bt_spi := s, bt_ram := snd (store_bytes (seg ph) (p_vaddr ph) F (bt_ram st))\<rparr>)"
    using load_chunks_eq [OF assms, of "seg ph" 0 addr ph] top unsigned_less [of "p_vaddr ph", where 'a = nat]
    by (auto simp: split_beta F_def)
  define m1 where "m1 = snd (store_bytes (seg ph) (p_vaddr ph) F (bt_ram st))"
  define r where "r = bl_memset (seg ph) (p_vaddr ph + p_filesz ph) 0 (p_memsz ph - p_filesz ph) m1"
  have fr: "m1 p \<noteq> bt_ram st p \<Longrightarrow> in_windows p" "snd r p \<noteq> m1 p \<Longrightarrow> in_windows p" for p
    using store_bytes_frame bl_memset_frame seg_allows_window unfolding m1_def r_def by blast+
  show ?thesis
  proof (cases "fst (store_bytes (seg ph) (p_vaddr ph) F (bt_ram st))")
    case False
    have "\<not> segment_ok ph"
      using False store_bytes_ok(1) [OF disjI1 [OF top(1)], of "p_vaddr ph" F "bt_ram st"] True v
      by (auto simp: segment_ok_def cap_allows_def F_def word_le_nat_alt)
    with False True s fr(1) show ?thesis by (auto simp: load_segment_def m1_def)
  next
    case ok: True
    have "F = [] \<or> cap_allows (seg ph) (p_vaddr ph) (unat (p_filesz ph))" and m1: "m1 = patch (p_vaddr ph) F (bt_ram st)"
      using store_bytes_ok [OF disjI1 [OF top(1)], of "p_vaddr ph" F "bt_ram st"] ok by (auto simp: F_def m1_def)
    then have "unat (p_vaddr ph) + unat (p_filesz ph) < 2 ^ 32"
      using top(1) unsigned_less [of "p_vaddr ph", where 'a = nat] by (auto simp: F_def cap_allows_def flash_bytes_def)
    note fits = clear_rest [OF True this, where m = m and addr = addr and ram = "bt_ram st", folded F_def m1, folded r_def]
    have run: "load_segment ops ch addr (sram_cap ch root) (hyperram_cap ch root) ph st =
        Some (if fst r then Done () else Trapped, st\<lparr>bt_spi := s, bt_ram := snd r\<rparr>)"
      using True ok s(2) by (simp add: load_segment_def r_def m1_def split_beta Let_def)
    moreover have "flash_holds view s m j" using s(1) ok by simp
    then have "left (r' = Trapped) s m j" for r' :: "unit outcome" by (rule leftI)
    ultimately show ?thesis using fr fits v by (auto simp: segment_ok_def) metis+
  qed
qed

lemma load_phdrs_run:
  assumes "flash_holds view (bt_spi st) m j" "ehdr = elf_header m addr"
  defines "L \<equiv> \<lambda>is. filter (\<lambda>ph. p_type ph = PT_LOAD) (map (elf_phdr m addr) is)"
  shows "\<exists>r st'. load_phdrs ops ch addr (sram_cap ch root) (hyperram_cap ch root) ehdr is st = Some (r, st') \<and>
    left (r = Trapped) (bt_spi st') m j \<and> (\<forall>p. bt_ram st' p \<noteq> bt_ram st p \<longrightarrow> in_windows p) \<and>
    (r = Done () \<longrightarrow> (\<forall>ph \<in> set (L is). segment_ok ph) \<and> bt_ram st' = fold (segment_image m addr) (L is) (bt_ram st)) \<and>
    ((\<forall>ph \<in> set (L is). segment_ok ph \<and> unat (p_vaddr ph) < snd (window ph)) \<longrightarrow> r = Done ())"
  using assms(1)
proof (induction "is" arbitrary: st)
  case Nil
  then show ?case by (simp add: L_def)
next
  case (Cons i "is")
  obtain s where s: "flash_holds view s m j"
    "boot_read ops (addr + e_phoff ehdr + ucast (e_phentsize ehdr) * i) 32 st =
      (flash_bytes m (addr + e_phoff ehdr + ucast (e_phentsize ehdr) * i) 32, st\<lparr>bt_spi := s\<rparr>)"
    using boot_read_eq [OF Cons.prems, of _ 32] by auto
  define st1 where "st1 = st\<lparr>bt_spi := s\<rparr>"
  have st1: "flash_holds view (bt_spi st1) m j" "bt_ram st1 = bt_ram st" using s(1) by (simp_all add: st1_def)
  have step: "load_phdrs ops ch addr (sram_cap ch root) (hyperram_cap ch root) ehdr (i # is) st =
      (if p_type (elf_phdr m addr i) \<noteq> PT_LOAD then load_phdrs ops ch addr (sram_cap ch root) (hyperram_cap ch root) ehdr is st1
       else do {
         (r, st) \<leftarrow> load_segment ops ch addr (sram_cap ch root) (hyperram_cap ch root) (elf_phdr m addr i) st1;
         case r of Done _ \<Rightarrow> load_phdrs ops ch addr (sram_cap ch root) (hyperram_cap ch root) ehdr is st | _ \<Rightarrow> Some (r, st) })"
    unfolding assms(2) by (simp add: s(2) [unfolded assms(2)] elf_phdr_def flip: st1_def)
  show ?case
  proof (cases "p_type (elf_phdr m addr i) = PT_LOAD")
    case False
    with Cons.IH [OF st1(1)] step st1(2) show ?thesis by (simp add: L_def)
  next
    case True
    obtain r st2 where 2: "load_segment ops ch addr (sram_cap ch root) (hyperram_cap ch root) (elf_phdr m addr i) st1 = Some (r, st2)"
      "left (r = Trapped) (bt_spi st2) m j" "\<And>p. bt_ram st2 p \<noteq> bt_ram st p \<Longrightarrow> in_windows p"
      "r = Done () \<Longrightarrow> segment_ok (elf_phdr m addr i) \<and> bt_ram st2 = segment_image m addr (elf_phdr m addr i) (bt_ram st)"
      "segment_ok (elf_phdr m addr i) \<and> unat (p_vaddr (elf_phdr m addr i)) < snd (window (elf_phdr m addr i)) \<Longrightarrow> r = Done ()"
      using load_segment_run [OF st1(1), of addr "elf_phdr m addr i"] unfolding st1(2) by blast
    have L: "L (i # is) = elf_phdr m addr i # L is" using True by (simp add: L_def)
    show ?thesis
    proof (cases "r = Done ()")
      case True
      have "load_phdrs ops ch addr (sram_cap ch root) (hyperram_cap ch root) ehdr (i # is) st =
          load_phdrs ops ch addr (sram_cap ch root) (hyperram_cap ch root) ehdr is st2"
        using step \<open>p_type (elf_phdr m addr i) = PT_LOAD\<close> 2(1) True by simp
      moreover have "flash_holds view (bt_spi st2) m j" using 2(2) True by simp
      note Cons.IH [OF this]
      ultimately show ?thesis unfolding L using 2(3,4) True by (auto; metis)
    next
      case False
      have "load_phdrs ops ch addr (sram_cap ch root) (hyperram_cap ch root) ehdr (i # is) st = Some (r, st2)"
        using step \<open>p_type (elf_phdr m addr i) = PT_LOAD\<close> 2(1) False by (cases r) simp_all
      with 2 False show ?thesis unfolding L by auto
    qed
  qed
qed

lemma say_fields [simp]:
  "bt_spi (say t st) = bt_spi st" "bt_ram (say t st) = bt_ram st" "bt_spi (say_hex n st) = bt_spi st" "bt_ram (say_hex n st) = bt_ram st"
  by (simp_all add: say_def say_hex_def)

lemma exception_handler_fields [simp]:
  "bt_spi (exception_handler csrs st) = bt_spi st" "bt_ram (exception_handler csrs st) = bt_ram st"
  by (simp_all add: exception_handler_def write_hex_with_prefix_def Let_def)

lemma read_elf_run:
  assumes "flash_holds view (bt_spi st) m j"
  shows "\<exists>r st'. read_elf ops ch addr (sram_cap ch root) (hyperram_cap ch root) st = Some (r, st') \<and>
    left (r = Trapped) (bt_spi st') m j \<and> (\<forall>p. bt_ram st' p \<noteq> bt_ram st p \<longrightarrow> in_windows p) \<and>
    (\<forall>e. r = Done e \<longrightarrow> elf_ok m addr \<and> e = e_entry (elf_header m addr) \<and> bt_ram st' = elf_image m addr (bt_ram st)) \<and>
    (elf_ok m addr \<and> (\<forall>ph \<in> set (elf_segments m addr). unat (p_vaddr ph) < snd (window ph)) \<longrightarrow> r = Done (e_entry (elf_header m addr)))"
proof -
  define st1 where "st1 = say (''Loading software from flash...'' @ CRLF) (say prefix_text st)"
  have st1: "flash_holds view (bt_spi st1) m j" "bt_ram st1 = bt_ram st" using assms by (simp_all add: st1_def)
  obtain s where s: "boot_read ops addr 52 st1 = (flash_bytes m addr 52, st1\<lparr>bt_spi := s\<rparr>)" "flash_holds view s m j"
    using boot_read_eq [OF st1(1), of addr 52] by auto
  define st2 where "st2 = st1\<lparr>bt_spi := s\<rparr>"
  have st2: "flash_holds view (bt_spi st2) m j" "bt_ram st2 = bt_ram st" using s(2) st1(2) by (simp_all add: st2_def)
  define h where "h = elf_header m addr"
  obtain r st3 where 3: "load_phdrs ops ch addr (sram_cap ch root) (hyperram_cap ch root) h (map of_nat [0..<unat (e_phnum h)]) st2 = Some (r, st3)"
    "left (r = Trapped) (bt_spi st3) m j" "\<forall>p. bt_ram st3 p \<noteq> bt_ram st p \<longrightarrow> in_windows p"
    "r = Done () \<longrightarrow> (\<forall>ph \<in> set (elf_segments m addr). segment_ok ph) \<and> bt_ram st3 = elf_image m addr (bt_ram st)"
    "(\<forall>ph \<in> set (elf_segments m addr). segment_ok ph \<and> unat (p_vaddr ph) < snd (window ph)) \<longrightarrow> r = Done ()"
    using load_phdrs_run [OF st2(1) h_def, of "map of_nat [0..<unat (e_phnum h)]"]
    unfolding st2(2) elf_segments_def elf_image_def h_def by blast
  have run: "read_elf ops ch addr (sram_cap ch root) (hyperram_cap ch root) st =
      (if \<not> magic_ok h then Some (complain_and_loop (''Failed ELF Magic Check'' @ CRLF) st2)
       else if \<not> kind_ok h then Some (complain_and_loop (''ELF file is not 32-bit CHERI RISC-V executable'' @ CRLF) st2)
       else Some (case r of Done _ \<Rightarrow> Done (e_entry h) | Complained \<Rightarrow> Complained | Trapped \<Rightarrow> Trapped, st3))"
    unfolding read_elf_def Let_def st1_def [symmetric] s(1) prod.case st2_def [symmetric] elf_header_def [symmetric] h_def [symmetric]
    by (simp only: 3(1) bind.bind_lunit prod.case)
  show ?thesis
  proof (cases "magic_ok h \<and> kind_ok h")
    case True
    with run 3 show ?thesis by (cases r) (auto simp: elf_ok_def h_def)
  next
    case False
    then obtain t where "read_elf ops ch addr (sram_cap ch root) (hyperram_cap ch root) st = Some (complain_and_loop t st2)"
      using run by (cases "magic_ok h") auto
    with False st2 show ?thesis by (auto simp: elf_ok_def h_def complain_and_loop_def)
  qed
qed

lemma init_holds: "flash_holds view s m j \<Longrightarrow> flash_holds view (spi_init ops a b c d s) m j"
proof -
  assume h: "flash_holds view s m j"
  then have v: "view (spi_init ops a b c d s) = (view s)\<lparr>cfg := cfg (view (spi_init ops a b c d s))\<rparr>"
    by (intro v_init) (simp add: flash_holds_def)
  have "bus (view (spi_init ops a b c d s)) = bus (view s)" "selects (view (spi_init ops a b c d s)) = selects (view s)"
    "ctl_idle (view (spi_init ops a b c d s)) = ctl_idle (view s)"
    unfolding ctl_idle_def by (subst v, simp)+
  with h show ?thesis by (simp add: flash_holds_def)
qed

lemma clear_bitmap:
  "bl_memset (cap_set_address ch 0x30000000 root) 0x30000000 0 2048 ram = (True, patch 0x30000000 (replicate 2048 0) ram)"
proof -
  have c: "cap_allows (cap_set_address ch 0x30000000 root) 0x30000000 2048"
    using root root_range by (simp add: cap_allows_def cap_set_address_def)
  have "no_wrap (cap_set_address ch 0x30000000 root) 0x30000000 (unat (2048 :: u32))" by simp
  note m = bl_memset_ok [OF this, of 0 ram]
  have "fst (bl_memset (cap_set_address ch 0x30000000 root) 0x30000000 0 2048 ram)" using m(1) c by simp
  with m(2) [OF this] show ?thesis by (simp add: prod_eq_iff)
qed

text \<open>From the reset to the jump.\<close>

lemma boot_start_run:
  fixes input :: "nat \<Rightarrow> u32"
  assumes "flash_holds view (bt_spi st) m j"
  defines "addr \<equiv> slot_address input" and "ram \<equiv> patch 0x30000000 (replicate 2048 0) (bt_ram st)"
  shows "\<exists>r st'. boot_start ops ch root sysinfo input csrs st = Some (r, st') \<and>
    left (r = Trapped) (bt_spi st') m j \<and> (\<forall>p. bt_ram st' p \<noteq> ram p \<longrightarrow> in_windows p) \<and>
    (\<forall>e. r = Done e \<longrightarrow> elf_ok m addr \<and> e = e_entry (elf_header m addr) \<and> bt_ram st' = elf_image m addr ram) \<and>
    (elf_ok m addr \<and> (\<forall>ph \<in> set (elf_segments m addr). unat (p_vaddr ph) < snd (window ph)) \<longrightarrow> r = Done (e_entry (elf_header m addr)))"
proof -
  define say_more where "say_more st = (let st = say ''Sonata system git SHA: '' (say prefix_text st);
         st = say_hex (sysinfo ! 1) (say_hex (sysinfo ! 0) st);
         st = (if sysinfo ! 2 \<noteq> 0 then say '' (dirty)'' st else st);
         st = say CRLF st;
         st = say ''Selected software slot: '' (say prefix_text st)
     in say (char_of (of_char (CHR ''1'') + read_selected_software_slot input) # CRLF) st)" for st :: "'s boot"
  define st1 where "st1 = say_more (st\<lparr>bt_ram := ram, bt_spi := flash_reset ops (spi_init ops False False True 0 (bt_spi (st\<lparr>bt_ram := ram\<rparr>)))\<rparr>)"
  have m: "bt_spi (say_more st) = bt_spi st" "bt_ram (say_more st) = bt_ram st" for st :: "'s boot"
    by (simp_all add: say_more_def Let_def)
  have st1: "flash_holds view (bt_spi st1) m j" "bt_ram st1 = ram"
    using command_reset [OF init_holds [OF assms(1)]] by (simp_all add: st1_def m)
  from read_elf_run [OF st1(1), of addr] obtain r st2 where
    2: "read_elf ops ch addr (sram_cap ch root) (hyperram_cap ch root) st1 = Some (r, st2)"
      "left (r = Trapped) (bt_spi st2) m j" "\<forall>p. bt_ram st2 p \<noteq> ram p \<longrightarrow> in_windows p"
      "\<forall>e. r = Done e \<longrightarrow> elf_ok m addr \<and> e = e_entry (elf_header m addr) \<and> bt_ram st2 = elf_image m addr ram"
      "elf_ok m addr \<and> (\<forall>ph \<in> set (elf_segments m addr). unat (p_vaddr ph) < snd (window ph)) \<longrightarrow> r = Done (e_entry (elf_header m addr))"
    unfolding st1(2) by blast
  define st3 where "st3 = (case r of Done e \<Rightarrow> say (''Booting into program, hopefully.'' @ CRLF) (say prefix_text st2) | _ \<Rightarrow> st2)"
  have "rom_loader_entry ops ch root sysinfo input (st\<lparr>bt_ram := ram\<rparr>) =
      Some (case r of Done entrypoint \<Rightarrow> (r, say (''Booting into program, hopefully.'' @ CRLF) (say prefix_text st2)) | _ \<Rightarrow> (r, st2))"
    unfolding rom_loader_entry_def Let_def 2(1) [unfolded st1_def say_more_def Let_def addr_def slot_address_def] bind.bind_lunit prod.case ..
  also have "\<dots> = Some (r, st3)" unfolding st3_def by (cases r) (simp_all only: outcome.case)
  finally have "boot_start ops ch root sysinfo input csrs st = Some (if r = Trapped then (r, exception_handler csrs st3) else (r, st3))"
    unfolding boot_start_def clear_bitmap [of "bt_ram st", folded ram_def] prod.case Let_def if_True
    by (simp only: bind.bind_lunit prod.case)
  moreover have "bt_spi st3 = bt_spi st2" "bt_ram st3 = bt_ram st2" unfolding st3_def by (cases r; simp)+
  moreover define st4 where "st4 = (if r = Trapped then exception_handler csrs st3 else st3)"
  ultimately have "boot_start ops ch root sysinfo input csrs st = Some (r, st4)" "bt_spi st4 = bt_spi st2" "bt_ram st4 = bt_ram st2"
    by (cases "r = Trapped"; simp only: if_True if_False exception_handler_fields)+
  with 2(2-5) show ?thesis by (intro exI [of _ r] exI [of _ st4]) (simp only: simp_thms)
qed

text \<open>A bootable image leads to the jump.\<close>

lemma boot_start_done:
  assumes "flash_holds view (bt_spi st) m j" "elf_ok m (slot_address input)"
    "\<forall>ph \<in> set (elf_segments m (slot_address input)). unat (p_vaddr ph) < snd (window ph)"
  shows "\<exists>st'. boot_start ops ch root sysinfo input csrs st = Some (Done (e_entry (elf_header m (slot_address input))), st') \<and>
    flash_holds view (bt_spi st') m j \<and>
    bt_ram st' = elf_image m (slot_address input) (patch 0x30000000 (replicate 2048 0) (bt_ram st))"
proof -
  obtain r st' where 1: "boot_start ops ch root sysinfo input csrs st = Some (r, st')" "left (r = Trapped) (bt_spi st') m j"
      "\<forall>e. r = Done e \<longrightarrow> bt_ram st' = elf_image m (slot_address input) (patch 0x30000000 (replicate 2048 0) (bt_ram st))"
      "r = Done (e_entry (elf_header m (slot_address input)))"
    using boot_start_run [OF assms(1), where sysinfo = sysinfo and input = input and csrs = csrs] assms(2,3) by blast
  then show ?thesis by simp
qed

end

section \<open>A read that a trap stops\<close>

text \<open>The flash is selected and sends the bytes it holds; the controller may still have to collect the rest of the read.\<close>

definition flash_mid_read :: "('s \<Rightarrow> fl_bus ctl) \<Rightarrow> 's \<Rightarrow> (u32 \<Rightarrow> u8) \<Rightarrow> u32 \<Rightarrow> bool" where
  "flash_mid_read view s m j \<longleftrightarrow> \<not> bit (selects (view s)) 0 \<and> (\<exists>c out a. fl_rel (bus (view s)) (c, out) \<and> fl_reading a m j c)"

text \<open>What a board does when a store of \<open>blocking_read\<close> traps: the chip selects are as before, and at least the bytes up to
  that one have been exchanged, at most the whole read, for the controller may run ahead as far as its FIFO allows.\<close>

locale stopping_board = boot_board +
  assumes v_read_stopped: "ctl_idle (view s) \<Longrightarrow> k < n \<Longrightarrow>
    selects (view (blocking_read_stopped ops n k s)) = selects (view s) \<and>
    (\<exists>i. k < i \<and> i \<le> n \<and> bus (view (blocking_read_stopped ops n k s)) =
      snd (xfers (flash_xf (selects (view s))) (replicate i (copi_idle (cfg (view s)))) (bus (view s))))"
begin

lemma left_mid_read: "left t s m j \<Longrightarrow> flash_holds view s m j \<or> t \<and> flash_mid_read view s m j"
proof -
  have "flash_mid_read view s m j" if mid: "cut s m j"
  proof -
    obtain n k s0 a where c: "k < n" "s = blocking_read_stopped ops n k s0" "answers s0 a m j"
      using mid by (auto simp: cut_def)
    then have "ctl_idle (view s0)" "\<not> bit (selects (view s0)) 0" by (auto simp: answers_def on_def)
    with v_read_stopped [OF this(1) c(1)] answers_on [OF c(3)] show ?thesis
      unfolding flash_mid_read_def c(2) by metis
  qed
  then show "left t s m j \<Longrightarrow> flash_holds view s m j \<or> t \<and> flash_mid_read view s m j" by (auto simp: left_def)
qed

end

section \<open>A board\<close>

text \<open>An encoding with granules of eight bytes: bounds are rounded outwards to multiples of eight, and an address may lie anywhere up to the
  end of its bounds.\<close>

definition granule_cheri :: cheri where
  "granule_cheri = \<lparr>round_bounds = (\<lambda>b t. (b div 8 * 8, (t + 7) div 8 * 8)), in_range = (\<lambda>b t a. b \<le> unat a \<and> unat a \<le> t)\<rparr>"

definition all_memory :: capability where
  "all_memory = \<lparr>cap_valid = True, cap_address = 0, cap_base = 0, cap_top = 2 ^ 32\<rparr>"

lemma granule_monotone:
  fixes b0 t0 b t :: nat
  assumes "b0 div 8 * 8 = b0" "(t0 + 7) div 8 * 8 = t0" "b0 \<le> b" "t \<le> t0"
  shows "b0 \<le> b div 8 * 8 \<and> (t + 7) div 8 * 8 \<le> t0"
  using assms div_le_mono [of b0 b 8] div_le_mono [of "t + 7" "t0 + 7" 8] by linarith

interpretation granules: cheri_encoding granule_cheri
proof unfold_locales
  fix b t b' t' :: nat
  assume "b \<le> t" "round_bounds granule_cheri b t = (b', t')"
  then show "b' \<le> b \<and> t \<le> t'" by (auto simp: granule_cheri_def)
next
  fix b0 t0 b t b' t' :: nat
  assume "round_bounds granule_cheri b0 t0 = (b0, t0)" "b0 \<le> b" "b \<le> t" "t \<le> t0" "round_bounds granule_cheri b t = (b', t')"
  then show "b0 \<le> b' \<and> t' \<le> t0" using granule_monotone [of b0 t0 b t] by (auto simp: granule_cheri_def)
qed (simp add: granule_cheri_def)

interpretation sim_board: boot_board "sim_spi ic flash_xf flash_csf" "\<lambda>v. v" "\<lambda>_. 0" granule_cheri all_memory
  by unfold_locales (simp_all add: granule_cheri_def all_memory_def)

interpretation sim_stopping: stopping_board "sim_spi ic flash_xf flash_csf" "\<lambda>v. v" "\<lambda>_. 0" granule_cheri all_memory
proof unfold_locales
  fix s :: "fl_bus ctl" and k n :: nat
  assume "k < n"
  then show "selects (blocking_read_stopped (sim_spi ic flash_xf flash_csf) n k s) = selects s \<and>
    (\<exists>i. k < i \<and> i \<le> n \<and> bus (blocking_read_stopped (sim_spi ic flash_xf flash_csf) n k s) =
      snd (xfers (flash_xf (selects s)) (replicate i (copi_idle (cfg s))) (bus s)))"
    by (intro conjI exI [of _ "k + 1"]) (simp_all add: sim_spi_def del: replicate.simps xfers.simps)
qed

text \<open>A program of one instruction and four bytes of zeros, in the second slot; the flash is erased elsewhere.\<close>

definition demo_elf :: "u8 list" where
  "demo_elf = [0x7f, 0x45, 0x4c, 0x46, 1, 1, 1, 0, 0, 0, 0, 0, 0, 0, 0, 0, 2, 0, 0xf3, 0, 1, 0, 0, 0, 0x00, 0x20, 0x10, 0,
     0x34, 0, 0, 0, 0, 0, 0, 0, 0, 0, 3, 0, 0x34, 0, 0x20, 0, 1, 0, 0, 0, 0, 0, 0, 0,
     1, 0, 0, 0, 0x54, 0, 0, 0, 0x00, 0x20, 0x10, 0, 0x00, 0x20, 0x10, 0, 4, 0, 0, 0, 8, 0, 0, 0, 5, 0, 0, 0, 4, 0, 0, 0,
     0x13, 0x05, 0, 0]"

definition demo_flash :: "u32 \<Rightarrow> u8" where
  "demo_flash = patch 0xa00000 demo_elf (\<lambda>_. 0xff)"

lemma flash_bytes_patch:
  assumes "unat a + length bs \<le> 2 ^ 25" "i + n \<le> length bs"
  shows "flash_bytes (patch a bs m) (a + of_nat i) n = take n (drop i bs)"
proof (rule nth_equalityI)
  fix k
  assume k: "k < length (flash_bytes (patch a bs m) (a + of_nat i) n)"
  then have u: "unat (a + of_nat i + of_nat k) = unat a + (i + k)"
    using unat_add_nat [of a "i + k"] assms by (simp add: add.assoc)
  with k assms show "flash_bytes (patch a bs m) (a + of_nat i) n ! k = take n (drop i bs) ! k"
    by (simp add: flash_bytes_def flash_byte_def patch_def word_less_nat_alt kFlashBytes_def)
qed (use assms(2) in simp)

lemma length_demo_elf: "length demo_elf = 88"
  by (simp add: demo_elf_def)

lemma demo_header:
  "elf_header demo_flash 0xa00000 = \<lparr>e_ident = [0x7f, 0x45, 0x4c, 0x46, 1, 1, 1, 0, 0, 0, 0, 0, 0, 0, 0, 0], e_type = 2,
     e_machine = 0xf3, e_version = 1, e_entry = 0x102000, e_phoff = 0x34, e_shoff = 0, e_flags = 0x30000, e_ehsize = 0x34,
     e_phentsize = 0x20, e_phnum = 1, e_shentsize = 0, e_shnum = 0, e_shstrndx = 0\<rparr>"
proof -
  have "flash_bytes demo_flash 0xa00000 52 = take 52 demo_elf"
    using flash_bytes_patch [of "0xa00000" demo_elf 0 52] by (simp add: demo_flash_def length_demo_elf)
  then show ?thesis
    by (simp add: elf_header_def ehdr_of_def half_at_def word_at_def le16_def le32_def demo_elf_def)
qed

lemma demo_segments:
  "elf_segments demo_flash 0xa00000 = [\<lparr>p_type = 1, p_offset = 0x54, p_vaddr = 0x102000, p_paddr = 0x102000, p_filesz = 4,
     p_memsz = 8, p_flags = 5, p_align = 4\<rparr>]"
proof -
  have "flash_bytes demo_flash 0xa00034 32 = take 32 (drop 52 demo_elf)"
    using flash_bytes_patch [of "0xa00000" demo_elf 52 32] by (simp add: demo_flash_def length_demo_elf)
  then show ?thesis
    by (simp add: elf_segments_def elf_phdr_def demo_header phdr_of_def word_at_def le32_def demo_elf_def PT_LOAD_def)
qed

lemma demo_ok: "elf_ok demo_flash 0xa00000" "slot_address (\<lambda>_. 0x4000) = 0xa00000"
proof -
  show "elf_ok demo_flash 0xa00000"
    by (simp add: elf_ok_def demo_segments demo_header magic_ok_def kind_ok_def segment_ok_def window_def ELFMAG_def EI_CLASS_def
      ELFCLASS32_def ET_EXEC_def EM_RISCV_def EF_RISCV_CHERIABI_def EF_RISCV_CAP_MODE_def)
  show "slot_address (\<lambda>_. 0x4000) = 0xa00000"
    by (simp add: slot_address_def read_selected_software_slot_def SoftwareSelectGpioPins_def SoftwareSlots_def push_bit_eq_mult)
qed

definition demo_board :: "(u32 \<Rightarrow> u8) \<Rightarrow> fl_bus ctl boot" where
  "demo_board m = \<lparr>bt_spi = flash_power_on m 0, bt_ram = (\<lambda>_. 0xaa), bt_out = []\<rparr>"

lemma demo_board_holds: "flash_holds (\<lambda>v. v) (bt_spi (demo_board m)) m 0" "bt_ram (demo_board m) = (\<lambda>_. 0xaa)"
  by (simp_all add: demo_board_def flash_power_on_holds)

lemma demo_boots:
  "\<exists>st'. boot_start (sim_spi False flash_xf flash_csf) granule_cheri all_memory [1, 2, 0] (\<lambda>_. 0x4000) [0, 0, 0] (demo_board demo_flash) =
    Some (Done 0x102000, st')"
proof -
  have "\<forall>ph \<in> set (elf_segments demo_flash 0xa00000). unat (p_vaddr ph) < snd (window ph)"
    by (simp add: demo_segments window_def)
  then have "\<exists>st'. boot_start (sim_spi False flash_xf flash_csf) granule_cheri all_memory [1, 2, 0] (\<lambda>_. 0x4000) [0, 0, 0] (demo_board demo_flash) =
      Some (Done (e_entry (elf_header demo_flash 0xa00000)), st')"
    using boot_board.boot_start_done [OF sim_board.boot_board_axioms [of False] demo_board_holds(1) [of demo_flash], where input = "\<lambda>_. 0x4000" and sysinfo = "[1, 2, 0]"
      and csrs = "[0, 0, 0]"] demo_ok(1)
    unfolding demo_ok(2) by blast
  then show ?thesis by (simp add: demo_header)
qed

section \<open>Properties\<close>



text \<open>C16. The loader jumps only into such an image: whatever the flash holds, if the loader gets as far as the jump, then the header of the
  selected slot is that of a CHERI RISC-V executable, every segment lies in the memory its address selects and is no larger in the
  file than in memory, the jump goes to the entry point and the memory is the image. A segment whose size in the file exceeds its
  size in memory, which makes the length of the final \<open>bl_memset\<close> wrap, never boots.\<close>

theorem boot_jumps_only_into_image:
  assumes "boot_board ops view delay ch root" "flash_holds view (bt_spi st) m j"
    "boot_start ops ch root sysinfo input csrs st = Some (Done e, st')"
  shows "elf_ok m (slot_address input) \<and> e = e_entry (elf_header m (slot_address input)) \<and>
    bt_ram st' = elf_image m (slot_address input) (patch 0x30000000 (replicate 2048 0) (bt_ram st))"
  using boot_board.boot_start_run [OF assms(1,2), where sysinfo = sysinfo and input = input and csrs = csrs] assms(3) by auto

theorem boot_jumps_only_into_image_witness:
  "\<exists>st'. boot_start (sim_spi False flash_xf flash_csf) granule_cheri all_memory [1, 2, 0] (\<lambda>_. 0x4000) [0, 0, 0] (demo_board demo_flash) =
      Some (Done 0x102000, st') \<and> elf_ok demo_flash 0xa00000 \<and> (0x102000 :: u32) = e_entry (elf_header demo_flash 0xa00000) \<and>
    bt_ram st' = elf_image demo_flash 0xa00000 (patch 0x30000000 (replicate 2048 0) (\<lambda>_. 0xaa))"
proof -
  obtain st' where r: "boot_start (sim_spi False flash_xf flash_csf) granule_cheri all_memory [1, 2, 0] (\<lambda>_. 0x4000) [0, 0, 0] (demo_board demo_flash) =
      Some (Done 0x102000, st')" using demo_boots by blast
  from r boot_jumps_only_into_image [OF sim_board.boot_board_axioms demo_board_holds(1) r, unfolded demo_ok(2) demo_board_holds(2)]
  show ?thesis by blast
qed

text \<open>C4. The loader is confined and always comes to an end: on every board that fulfils the contracts, from every state with the flash
  idle, whatever bytes the flash holds, the loader arrives at the jump, or complains, or traps and reports the trap. In each case the stores
  through its capabilities have changed nothing outside the revocation bitmap and the two memories it loads into, so no
  segment reaches its own code and stack in the first 4 KiB of the static RAM (its locals, on that stack, are values of the
  model), and the flash holds what it held. Past a jump or a complaint the flash is idle and deselected. After a trap it may be left selected and in the middle of
  the read whose store trapped, because \<open>set_cs(false)\<close> is not reached.\<close>

theorem boot_confined:
  assumes "stopping_board ops view delay ch root" "flash_holds view (bt_spi st) m j"
  shows "\<exists>r st'. boot_start ops ch root sysinfo input csrs st = Some (r, st') \<and>
    (flash_holds view (bt_spi st') m j \<or> r = Trapped \<and> flash_mid_read view (bt_spi st') m j) \<and>
    (\<forall>p. bt_ram st' p \<noteq> bt_ram st p \<longrightarrow>
       0x30000000 \<le> p \<and> p < 0x30000800 \<or> 0x101000 \<le> p \<and> p < 0x120000 \<or> 0x40000000 \<le> p \<and> p < 0x40100000)"
proof -
  note board = stopping_board.axioms(1) [OF assms(1)]
  obtain r st' where r: "boot_start ops ch root sysinfo input csrs st = Some (r, st')" "flash_slot.left ops view (r = Trapped) (bt_spi st') m j"
    "\<And>p. bt_ram st' p \<noteq> patch 0x30000000 (replicate 2048 0) (bt_ram st) p \<Longrightarrow> in_windows p"
    using boot_board.boot_start_run [OF board assms(2), where sysinfo = sysinfo and input = input and csrs = csrs] by blast
  note stopping_board.left_mid_read [OF assms(1) r(2)]
  moreover have "0x30000000 \<le> p \<and> p < 0x30000800" if "patch 0x30000000 (replicate 2048 0) (bt_ram st) p \<noteq> bt_ram st p" for p :: u32
    using that by (simp add: patch_def word_le_nat_alt word_less_nat_alt split: if_splits)
  with r(3) have "\<forall>p. bt_ram st' p \<noteq> bt_ram st p \<longrightarrow>
      0x30000000 \<le> p \<and> p < 0x30000800 \<or> 0x101000 \<le> p \<and> p < 0x120000 \<or> 0x40000000 \<le> p \<and> p < 0x40100000"
    unfolding in_windows_def by metis
  ultimately show ?thesis using r(1) by blast
qed

theorem boot_confined_witness:
  "\<exists>r st'. boot_start (sim_spi True flash_xf flash_csf) granule_cheri all_memory [1, 2, 0] (\<lambda>_. 0) [0, 0, 0] (demo_board (\<lambda>_. 0x7f)) = Some (r, st') \<and>
    (flash_holds (\<lambda>v. v) (bt_spi st') (\<lambda>_. 0x7f) 0 \<or> r = Trapped \<and> flash_mid_read (\<lambda>v. v) (bt_spi st') (\<lambda>_. 0x7f) 0) \<and>
    (\<forall>p. bt_ram st' p \<noteq> 0xaa \<longrightarrow>
       0x30000000 \<le> p \<and> p < 0x30000800 \<or> 0x101000 \<le> p \<and> p < 0x120000 \<or> 0x40000000 \<le> p \<and> p < 0x40100000)"
  using boot_confined [OF sim_stopping.stopping_board_axioms [of True] demo_board_holds(1) [of "\<lambda>_. 0x7f"], where input = "\<lambda>_. 0"
    and sysinfo = "[1, 2, 0]" and csrs = "[0, 0, 0]"]
  by (simp only: demo_board_holds(2))

end
