(* ===== verification/Legacy_Spi.thy ===== *)
theory Legacy_Spi
  imports Mmio Spi_Controller
begin

unbundle bit_operations_syntax

text \<open>
  The SPI driver of the older software stack (\<open>sw/legacy/common/spi.c\<close>, \<open>spi.h\<close>) over the registers of the SPI block. The block
  works on its own while software looks at it: it is a step relation (\<open>blk_step\<close>), and between any two accesses it
  may take any number of steps. What an access does is the locale \<open>spi_block\<close>, the register behaviour
  of \<open>doc/ip/spi.md\<close> for FIFOs of a given depth.
\<close>

section \<open>The driver\<close>

definition SPI_CONTROL :: u32 where "SPI_CONTROL = 0x10"
definition SPI_STATUS :: u32 where "SPI_STATUS = 0x14"
definition SPI_START :: u32 where "SPI_START = 0x18"
definition SPI_RX_FIFO :: u32 where "SPI_RX_FIFO = 0x1c"
definition SPI_TX_FIFO :: u32 where "SPI_TX_FIFO = 0x20"
definition SPI_CS :: u32 where "SPI_CS = 0x28"

lemmas spi_reg_defs = SPI_CONTROL_def SPI_STATUS_def SPI_START_def SPI_RX_FIFO_def SPI_TX_FIFO_def SPI_CS_def

record spi =
  spi_reg :: u32
  spi_speed :: u32

definition spi_init_struct :: "u32 \<Rightarrow> u32 \<Rightarrow> spi \<Rightarrow> spi" where
  "spi_init_struct r speed spi = spi\<lparr>spi_reg := r, spi_speed := speed\<rparr>"

partial_function (option) spi_wait_idle :: "'s mmio \<Rightarrow> spi \<Rightarrow> 's \<Rightarrow> 's option" where
  "spi_wait_idle hw spi h =
    (case DEV_READ hw (spi_reg spi + SPI_STATUS) h of (w, h) \<Rightarrow> if w AND 0x40000 = 0 then spi_wait_idle hw spi h else Some h)"

definition spi_set_cs :: "'s mmio \<Rightarrow> spi \<Rightarrow> u8 \<Rightarrow> bool \<Rightarrow> 's \<Rightarrow> 's" where
  "spi_set_cs hw spi cs_line cs_level h =
    (case DEV_READ hw (spi_reg spi + SPI_CS) h of (cs, h) \<Rightarrow>
     let cs = (if cs_level then cs OR push_bit (unat cs_line) 1 else cs AND NOT (push_bit (unat cs_line) 1))
     in DEV_WRITE hw (spi_reg spi + SPI_CS) cs h)"

text \<open>\<open>while (tx_avail < 120) tx_avail = 128 - (status & 0xff)\<close>\<close>

partial_function (option) tx_refill :: "'s mmio \<Rightarrow> spi \<Rightarrow> u32 \<Rightarrow> 's \<Rightarrow> (u32 \<times> 's) option" where
  "tx_refill hw spi tx_avail h =
    (if tx_avail < 120
     then case DEV_READ hw (spi_reg spi + SPI_STATUS) h of (w, h) \<Rightarrow> tx_refill hw spi (128 - (w AND 0xff)) h
     else Some (tx_avail, h))"

text \<open>The loops over \<open>i\<close> run over the indices still to come; an index outside the buffer is None.\<close>

fun tx_loop :: "'s mmio \<Rightarrow> spi \<Rightarrow> u8 list \<Rightarrow> nat list \<Rightarrow> u32 \<Rightarrow> 's \<Rightarrow> 's option" where
  "tx_loop hw spi data [] tx_avail h = Some h"
| "tx_loop hw spi data (i # is) tx_avail h =
    do { (tx_avail, h) \<leftarrow> (if tx_avail = 0 then tx_refill hw spi tx_avail h else Some (tx_avail, h));
         if i < length data
         then tx_loop hw spi data is (tx_avail - 1) (DEV_WRITE hw (spi_reg spi + SPI_TX_FIFO) (ucast (data ! i)) h)
         else None }"

definition spi_tx :: "'s mmio \<Rightarrow> spi \<Rightarrow> u8 list \<Rightarrow> u32 \<Rightarrow> 's \<Rightarrow> 's option" where
  "spi_tx hw spi data len h =
    do { h \<leftarrow> spi_wait_idle hw spi h;
         let h = DEV_WRITE hw (spi_reg spi + SPI_CONTROL) 0x4 h;
             h = DEV_WRITE hw (spi_reg spi + SPI_START) len h
         in tx_loop hw spi data [0..<unat len] 0 h }"

partial_function (option) rx_wait :: "'s mmio \<Rightarrow> spi \<Rightarrow> 's \<Rightarrow> 's option" where
  "rx_wait hw spi h =
    (case DEV_READ hw (spi_reg spi + SPI_STATUS) h of (w, h) \<Rightarrow> if drop_bit 8 w AND 0xff = 0 then rx_wait hw spi h else Some h)"

fun rx_loop :: "'s mmio \<Rightarrow> spi \<Rightarrow> nat list \<Rightarrow> u8 list \<Rightarrow> 's \<Rightarrow> (u8 list \<times> 's) option" where
  "rx_loop hw spi [] data h = Some (data, h)"
| "rx_loop hw spi (i # is) data h =
    do { h \<leftarrow> rx_wait hw spi h;
         case DEV_READ hw (spi_reg spi + SPI_RX_FIFO) h of (w, h) \<Rightarrow>
         if i < length data then rx_loop hw spi is (data[i := ucast w]) h else None }"

definition spi_rx :: "'s mmio \<Rightarrow> spi \<Rightarrow> u8 list \<Rightarrow> u32 \<Rightarrow> 's \<Rightarrow> (u8 list \<times> 's) option" where
  "spi_rx hw spi data len h =
    do { h \<leftarrow> spi_wait_idle hw spi h;
         let h = DEV_WRITE hw (spi_reg spi + SPI_CONTROL) 0x8 h;
             h = DEV_WRITE hw (spi_reg spi + SPI_START) len h
         in rx_loop hw spi [0..<unat len] data h }"

section \<open>The SPI block\<close>

text \<open>The bus, the two enables, the bytes the running operation has still to exchange, the FIFOs.\<close>

record 'b blk =
  bbus :: 'b
  txe :: bool
  rxe :: bool
  remaining :: nat
  txf :: "u8 list"
  rxf :: "u8 list"

text \<open>The block exchanges a byte when it has one to send (or sends none) and room for the answer (or keeps none).\<close>

inductive blk_step :: "nat \<Rightarrow> (u8 \<Rightarrow> 'b \<Rightarrow> u8 \<times> 'b) \<Rightarrow> u8 \<Rightarrow> 'b blk \<Rightarrow> 'b blk \<Rightarrow> bool"
  for depth :: nat and xf :: "u8 \<Rightarrow> 'b \<Rightarrow> u8 \<times> 'b" and idle :: u8 where
  transmit: "txe v \<Longrightarrow> \<not> rxe v \<Longrightarrow> remaining v = Suc n \<Longrightarrow> txf v = b # bs \<Longrightarrow>
    blk_step depth xf idle v (v\<lparr>bbus := snd (xf b (bbus v)), remaining := n, txf := bs\<rparr>)"
| receive: "\<not> txe v \<Longrightarrow> rxe v \<Longrightarrow> remaining v = Suc n \<Longrightarrow> length (rxf v) < depth \<Longrightarrow>
    blk_step depth xf idle v (v\<lparr>bbus := snd (xf idle (bbus v)), remaining := n, rxf := rxf v @ [fst (xf idle (bbus v))]\<rparr>)"
| exchange: "txe v \<Longrightarrow> rxe v \<Longrightarrow> remaining v = Suc n \<Longrightarrow> txf v = b # bs \<Longrightarrow> length (rxf v) < depth \<Longrightarrow>
    blk_step depth xf idle v (v\<lparr>bbus := snd (xf b (bbus v)), remaining := n, txf := bs, rxf := rxf v @ [fst (xf b (bbus v))]\<rparr>)"

inductive_cases blk_stepE: "blk_step depth xf idle v v'"

abbreviation blk_steps :: "nat \<Rightarrow> (u8 \<Rightarrow> 'b \<Rightarrow> u8 \<times> 'b) \<Rightarrow> u8 \<Rightarrow> 'b blk \<Rightarrow> 'b blk \<Rightarrow> bool" where
  "blk_steps depth xf idle \<equiv> (blk_step depth xf idle)\<^sup>*\<^sup>*"

definition blk_push :: "nat \<Rightarrow> u8 \<Rightarrow> 'b blk \<Rightarrow> 'b blk" where
  "blk_push depth b v = (if length (txf v) < depth then v\<lparr>txf := txf v @ [b]\<rparr> else v)"

definition blk_status :: "u32 \<Rightarrow> 'b blk \<Rightarrow> bool" where
  "blk_status w v \<longleftrightarrow> unat (w AND 0xff) = length (txf v) \<and> unat (drop_bit 8 w AND 0xff) = length (rxf v) \<and>
     (w AND 0x40000 = 0 \<longleftrightarrow> remaining v \<noteq> 0)"

definition quiet :: "'b blk \<Rightarrow> bool" where
  "quiet v \<longleftrightarrow> remaining v = 0 \<and> txf v = [] \<and> rxf v = []"

definition blk_ok :: "nat \<Rightarrow> 'b blk \<Rightarrow> bool" where
  "blk_ok depth v \<longleftrightarrow> length (txf v) \<le> depth \<and> length (rxf v) \<le> depth"

text \<open>
  An access happens at some moment: the block takes steps before and after it. \<open>delay\<close> bounds how often the status can be read
  while a step that is possible does not happen.
\<close>

locale spi_block =
  fixes hw :: "'s mmio" and reg :: u32 and view :: "'s \<Rightarrow> 'b blk" and delay :: "'s \<Rightarrow> nat"
    and depth :: nat and xf :: "u8 \<Rightarrow> 'b \<Rightarrow> u8 \<times> 'b" and idle :: u8
  assumes v_status: "blk_ok depth (view s) \<Longrightarrow> DEV_READ hw (reg + SPI_STATUS) s = (w, s') \<Longrightarrow>
      \<exists>v. blk_steps depth xf idle (view s) v \<and> blk_status w v \<and> blk_steps depth xf idle v (view s')"
    and v_progress: "DEV_READ hw (reg + SPI_STATUS) s = (w, s') \<Longrightarrow> blk_step depth xf idle (view s) v \<Longrightarrow>
      view s' = view s \<Longrightarrow> delay s' < delay s"
    and v_tx: "\<exists>v. blk_steps depth xf idle (view s) v \<and>
      blk_steps depth xf idle (blk_push depth (ucast w) v) (view (DEV_WRITE hw (reg + SPI_TX_FIFO) w s))"
    and v_rx: "rxf (view s) \<noteq> [] \<Longrightarrow> DEV_READ hw (reg + SPI_RX_FIFO) s = (w, s') \<Longrightarrow>
      \<exists>v. blk_steps depth xf idle (view s) v \<and> ucast w = hd (rxf v) \<and> blk_steps depth xf idle (v\<lparr>rxf := tl (rxf v)\<rparr>) (view s')"
    and v_control: "remaining (view s) = 0 \<Longrightarrow> w AND 3 = 0 \<Longrightarrow>
      view (DEV_WRITE hw (reg + SPI_CONTROL) w s) = (view s)\<lparr>txe := bit w 2, rxe := bit w 3\<rparr>"
    and v_start: "remaining (view s) = 0 \<Longrightarrow> unat w \<le> 0x7ff \<Longrightarrow>
      blk_steps depth xf idle ((view s)\<lparr>remaining := unat w\<rparr>) (view (DEV_WRITE hw (reg + SPI_START) w s))"
    and depth: "0 < depth" "depth < 256"
begin

abbreviation "step \<equiv> blk_step depth xf idle"
abbreviation "steps \<equiv> blk_steps depth xf idle"

lemma step_remaining: "step v v' \<Longrightarrow> remaining v = Suc (remaining v')"
  by (auto elim: blk_stepE)

lemma steps_keep: "steps v v' \<Longrightarrow> (\<And>u u'. I u \<Longrightarrow> step u u' \<Longrightarrow> I u') \<Longrightarrow> I v \<Longrightarrow> I v'"
  by (induction rule: rtranclp_induct) blast+

lemma steps_remaining: "steps v v' \<Longrightarrow> remaining v' \<le> remaining v \<and> (remaining v' = remaining v \<longrightarrow> v' = v)"
proof (induction rule: rtranclp_induct)
  case (step y z)
  then show ?case using step_remaining [OF step.hyps(2)] by simp
qed simp

lemma steps_done: "remaining v = 0 \<Longrightarrow> steps v v' \<Longrightarrow> v' = v"
  using steps_remaining [of v v'] by simp

text \<open>Reading the status gets on as long as a step is possible.\<close>

lemma poll:
  assumes "blk_ok depth (view s)" "DEV_READ hw (reg + SPI_STATUS) s = (w, s')"
  shows "\<exists>v. steps (view s) v \<and> blk_status w v \<and> steps v (view s') \<and> steps (view s) (view s') \<and>
    (Ex (step (view s)) \<longrightarrow> (s', s) \<in> measures [\<lambda>s. remaining (view s), delay])"
proof -
  obtain v where v: "steps (view s) v" "blk_status w v" "steps v (view s')" using v_status [OF assms] by blast
  then have s: "steps (view s) (view s')" by (meson rtranclp_trans)
  have "(s', s) \<in> measures [\<lambda>s. remaining (view s), delay]" if "step (view s) u" for u
    using steps_remaining [OF s] v_progress [OF assms(2) that] by (cases "view s' = view s") auto
  with v s show ?thesis by blast
qed

lemma wait_idle_returns:
  assumes "spi_reg spi = reg" "\<And>u. I u \<Longrightarrow> blk_ok depth u" "\<And>u u'. I u \<Longrightarrow> step u u' \<Longrightarrow> I u'" "\<And>u. I u \<Longrightarrow> remaining u \<noteq> 0 \<Longrightarrow> Ex (step u)" "I (view s)"
  shows "\<exists>s'. spi_wait_idle hw spi s = Some s' \<and> I (view s') \<and> remaining (view s') = 0"
  using assms(5)
proof (induction s rule: wf_induct_rule [OF wf_measures [of "[\<lambda>s. remaining (view s), delay]"]])
  case (1 s)
  obtain w s' where r: "DEV_READ hw (reg + SPI_STATUS) s = (w, s')" by fastforce
  from poll [OF assms(2) [OF 1(2)] r] obtain v where v: "steps (view s) v" "blk_status w v" "steps v (view s')" "steps (view s) (view s')"
    "Ex (step (view s)) \<longrightarrow> (s', s) \<in> measures [\<lambda>s. remaining (view s), delay]" by blast
  have I: "I (view s')" "I v" using steps_keep [where I = I, OF v(4)] steps_keep [where I = I, OF v(1)] assms(3) 1(2) by blast+
  show ?case
  proof (cases "w AND 0x40000 = 0")
    case True
    then have "remaining (view s) \<noteq> 0" using v(2) steps_done [OF _ v(1)] by (auto simp: blk_status_def)
    then have "(s', s) \<in> measures [\<lambda>s. remaining (view s), delay]" using v(5) assms(4) [OF 1(2)] by blast
    from 1(1) [OF this I(1)] True show ?thesis by (subst spi_wait_idle.simps) (simp add: assms(1) r)
  next
    case False
    then have "spi_wait_idle hw spi s = Some s'" by (subst spi_wait_idle.simps) (simp add: assms(1) r)
    moreover have "remaining v = 0" using False v(2) by (simp add: blk_status_def)
    ultimately show ?thesis using steps_done [OF _ v(3)] I by auto
  qed
qed

subsection \<open>Transmission\<close>

text \<open>
  \<open>i\<close> bytes of \<open>data\<close> have been given to the block, \<open>k\<close> of them are on the bus. The driver takes the FIFO for one of
  128 bytes; what keeps its bytes safe is that a command is no longer than the FIFO really is.
\<close>

definition sending :: "u8 list \<Rightarrow> 'b \<Rightarrow> nat \<Rightarrow> 'b blk \<Rightarrow> bool" where
  "sending data b i v \<longleftrightarrow> blk_ok depth v \<and> txe v \<and> \<not> rxe v \<and> rxf v = [] \<and> i \<le> length data \<and> (\<exists>k \<le> i. bbus v = snd (xfers xf (take k data) b) \<and>
     txf v = drop k (take i data) \<and> remaining v = length data - k)"

lemma snd_xfers_snoc: "snd (xfers xf (xs @ [x]) b) = snd (xf x (snd (xfers xf xs b)))"
  by (simp add: xfers_append split_beta)

lemma sending_step:
  assumes "sending data b i v" "step v v'"
  shows "sending data b i v' \<and> length (txf v') \<le> length (txf v)"
proof -
  obtain k where k: "k \<le> i" "bbus v = snd (xfers xf (take k data) b)" "txf v = drop k (take i data)" "remaining v = length data - k"
    using assms(1) by (auto simp: sending_def)
  from assms obtain n c cs where v': "v' = v\<lparr>bbus := snd (xf c (bbus v)), remaining := n, txf := cs\<rparr>"
      "remaining v = Suc n" "txf v = c # cs" "i \<le> length data"
    by (auto elim!: blk_stepE simp: sending_def)
  then have ki: "k < i" using k(3) by (cases "k < i") auto
  then have "c = data ! k" "cs = drop (Suc k) (take i data)"
    using v'(3,4) k(3) Cons_nth_drop_Suc [of k "take i data"] by auto
  moreover have "snd (xf (data ! k) (bbus v)) = snd (xfers xf (take (Suc k) data) b)"
    using ki v'(4) by (simp add: take_Suc_conv_app_nth snd_xfers_snoc k(2))
  ultimately show ?thesis
    using assms(1) ki v'(1,2,3) k(4) by (auto simp: sending_def blk_ok_def intro!: exI [of _ "Suc k"])
qed

lemma sending_steps: "steps v v' \<Longrightarrow> sending data b i v \<Longrightarrow> sending data b i v' \<and> length (txf v') \<le> length (txf v)"
proof (induction rule: rtranclp_induct)
  case (step y z)
  then show ?case using sending_step [of data b i y z] by auto
qed simp

lemma sending_can_step:
  assumes "sending data b i v" "txf v \<noteq> []"
  shows "Ex (step v)"
proof -
  obtain k where k: "k \<le> i" "txf v = drop k (take i data)" "remaining v = length data - k" "i \<le> length data" "txe v" "\<not> rxe v"
    using assms(1) by (auto simp: sending_def)
  with assms(2) have "k < length data" by auto
  then have "remaining v \<noteq> 0" using k(3) by simp
  then obtain n where "remaining v = Suc n" using not0_implies_Suc by blast
  with k(5,6) assms(2) show ?thesis by (cases "txf v") (auto intro: blk_step.transmit)
qed

lemma sending_push:
  assumes "sending data b i v" "i < length data" "length (txf v) < depth"
  shows "sending data b (Suc i) (blk_push depth (data ! i) v) \<and> length (txf (blk_push depth (data ! i) v)) = Suc (length (txf v))"
proof -
  obtain k where k: "k \<le> i" "bbus v = snd (xfers xf (take k data) b)" "txf v = drop k (take i data)" "remaining v = length data - k"
    using assms(1) by (auto simp: sending_def)
  have "txf v @ [data ! i] = drop k (take (Suc i) data)" using k(1,3) assms(2) by (simp add: take_Suc_conv_app_nth)
  with assms k show ?thesis by (auto simp: sending_def blk_push_def blk_ok_def intro!: exI [of _ k])
qed

lemma refill_returns:
  assumes "spi_reg spi = reg" "sending data b i (view s)" "length (txf (view s)) + unat av \<le> 128"
  shows "\<exists>av' s'. tx_refill hw spi av s = Some (av', s') \<and> sending data b i (view s') \<and> length (txf (view s')) + unat av' \<le> 128 \<and> 120 \<le> av'"
  using assms(2,3)
proof (induction s arbitrary: av rule: wf_induct_rule [OF wf_measures [of "[\<lambda>s. remaining (view s), delay]"]])
  case (1 s)
  show ?case
  proof (cases "av < 120")
    case False
    with 1 show ?thesis by (subst tx_refill.simps) auto
  next
    case True
    obtain w s' where r: "DEV_READ hw (reg + SPI_STATUS) s = (w, s')" by fastforce
    from poll [OF _ r] 1(2) obtain v where v: "steps (view s) v" "blk_status w v" "steps v (view s')" "steps (view s) (view s')"
      "Ex (step (view s)) \<longrightarrow> (s', s) \<in> measures [\<lambda>s. remaining (view s), delay]" by (auto simp: sending_def)
    have l: "sending data b i v" "length (txf v) \<le> 128" "sending data b i (view s')" "length (txf (view s')) \<le> length (txf v)"
      "length (txf v) \<le> length (txf (view s))"
      using sending_steps [OF v(1) 1(2)] sending_steps [OF v(3)] 1(3) by auto
    have av: "unat (128 - (w AND 0xff)) = 128 - length (txf v)"
      using v(2) l(2) by (simp add: unat_sub word_le_nat_alt blk_status_def)
    have step: "tx_refill hw spi av s = tx_refill hw spi (128 - (w AND 0xff)) s'"
      using True by (subst tx_refill.simps) (simp add: assms(1) r)
    show ?thesis
    proof (cases "128 - (w AND 0xff) < 120")
      case False
      then have "tx_refill hw spi (128 - (w AND 0xff)) s' = Some (128 - (w AND 0xff), s')" by (subst tx_refill.simps) simp
      with step False l(2-4) av show ?thesis by auto
    next
      case True
      then have "txf (view s) \<noteq> []" using av l(5) unfolding word_less_nat_alt av by auto
      from 1(1) [OF v(5) [rule_format, OF sending_can_step [OF 1(2) this]] l(3), of "128 - (w AND 0xff)"] step l(2,4) av show ?thesis by auto
    qed
  qed
qed

lemma tx_loop_sends:
  assumes "spi_reg spi = reg" "length data \<le> depth" "sending data b i (view s)" "length (txf (view s)) + unat av \<le> 128" "n = length data"
  shows "\<exists>s'. tx_loop hw spi data [i..<n] av s = Some s' \<and> sending data b n (view s')"
  using assms(3-5)
proof (induction "n - i" arbitrary: i av s)
  case 0
  then have "i = n" by (simp add: sending_def)
  with 0 show ?case by simp
next
  case (Suc k)
  then have i: "i < length data" "[i..<n] = i # [Suc i..<n]" by (auto simp: upt_conv_Cons)
  have "120 \<le> x \<Longrightarrow> x \<noteq> 0" for x :: u32 by auto
  then obtain av' s1 where 1: "(if av = 0 then tx_refill hw spi av s else Some (av, s)) = Some (av', s1)"
    "sending data b i (view s1)" "length (txf (view s1)) + unat av' \<le> 128" "av' \<noteq> 0"
    using refill_returns [OF assms(1) Suc.prems(1,2)] Suc.prems(1,2) by (cases "av = 0") fastforce+
  define s2 where "s2 = DEV_WRITE hw (reg + SPI_TX_FIFO) (ucast (data ! i)) s1"
  obtain v where v: "steps (view s1) v" "steps (blk_push depth (data ! i) v) (view s2)"
    using v_tx [of s1 "ucast (data ! i)"] by (auto simp: s2_def)
  have l: "sending data b i v" "length (txf v) \<le> length (txf (view s1))" using sending_steps [OF v(1) 1(2)] by auto
  have av: "unat (av' - 1) = unat av' - 1" "0 < unat av'" using 1(4) by (simp_all add: unat_minus_one unat_gt_0)
  have "length (txf v) \<le> i" using l(1) by (auto simp: sending_def)
  with i(1) assms(2) have "length (txf v) < depth" by simp
  note p = sending_push [OF l(1) i(1) this]
  have s2: "sending data b (Suc i) (view s2)" "length (txf (view s2)) + unat (av' - 1) \<le> 128"
    using sending_steps [OF v(2) p [THEN conjunct1]] p l(2) 1(3) av by linarith+
  have "tx_loop hw spi data [i..<n] av s = tx_loop hw spi data [Suc i..<n] (av' - 1) s2"
    using 1(1) i by (simp add: s2_def assms(1))
  with Suc.hyps(1) [of "Suc i", OF _ s2 Suc.prems(3)] Suc.hyps(2) show ?case by simp
qed

lemma quiet_wait: "spi_reg spi = reg \<Longrightarrow> quiet (view s) \<Longrightarrow> \<exists>s'. spi_wait_idle hw spi s = Some s' \<and> view s' = view s"
  using wait_idle_returns [of spi "\<lambda>u. u = view s \<and> quiet u" s] step_remaining by (fastforce simp: quiet_def blk_ok_def)

lemma tx_sends:
  assumes "spi_reg spi = reg" "length data \<le> depth" "quiet (view s)" "unat len = length data"
  shows "\<exists>s'. spi_tx hw spi data len s = Some s' \<and> sending data (bbus (view s)) (length data) (view s')"
proof -
  obtain s1 where 1: "spi_wait_idle hw spi s = Some s1" "view s1 = view s" using quiet_wait [OF assms(1,3)] by blast
  define s2 where "s2 = DEV_WRITE hw (reg + SPI_CONTROL) 0x4 s1"
  have 2: "view s2 = (view s)\<lparr>txe := True, rxe := False\<rparr>"
    using v_control [of s1 4] assms(3) by (simp add: s2_def 1(2) quiet_def)
  define s3 where "s3 = DEV_WRITE hw (reg + SPI_START) len s2"
  have "steps ((view s2)\<lparr>remaining := unat len\<rparr>) (view s3)"
    using v_start [of s2 len] assms(2-4) depth by (simp add: s3_def 2 quiet_def)
  moreover have "sending data (bbus (view s)) 0 ((view s2)\<lparr>remaining := unat len\<rparr>)"
    using assms(3,4) by (simp add: sending_def 2 quiet_def blk_ok_def)
  ultimately have 3: "sending data (bbus (view s)) 0 (view s3)" "length (txf (view s3)) + unat (0 :: u32) \<le> 128"
    using sending_steps by (force simp: 2 assms(3) [unfolded quiet_def])+
  from tx_loop_sends [OF assms(1,2) 3 refl] 1(1) show ?thesis
    by (auto simp: spi_tx_def assms(1,4) s2_def s3_def)
qed

lemma sent_wait:
  assumes "spi_reg spi = reg" "sending data b (length data) (view s)"
  shows "\<exists>s'. spi_wait_idle hw spi s = Some s' \<and> quiet (view s') \<and> bbus (view s') = snd (xfers xf data b)"
proof -
  have "Ex (step u)" if "sending data b (length data) u" "remaining u \<noteq> 0" for u
    using that by (intro sending_can_step [OF that(1)]) (auto simp: sending_def)
  moreover have "sending data b (length data) u \<Longrightarrow> blk_ok depth u" for u by (simp add: sending_def)
  ultimately obtain s' where s': "spi_wait_idle hw spi s = Some s'" "sending data b (length data) (view s')" "remaining (view s') = 0"
    using wait_idle_returns [OF assms(1), of "sending data b (length data)" s] sending_step assms(2) by blast
  then show ?thesis by (auto simp: sending_def quiet_def)
qed

subsection \<open>Reception\<close>

text \<open>\<open>k\<close> bytes have been exchanged, software has taken \<open>i\<close> of the answers.\<close>

abbreviation answers :: "'b \<Rightarrow> nat \<Rightarrow> u8 list" where
  "answers b k \<equiv> fst (xfers xf (replicate k idle) b)"

definition receiving :: "'b \<Rightarrow> nat \<Rightarrow> nat \<Rightarrow> 'b blk \<Rightarrow> bool" where
  "receiving b n i v \<longleftrightarrow> blk_ok depth v \<and> \<not> txe v \<and> rxe v \<and> txf v = [] \<and> (\<exists>k. i \<le> k \<and> k \<le> n \<and> bbus v = snd (xfers xf (replicate k idle) b) \<and>
     rxf v = drop i (answers b k) \<and> remaining v = n - k)"

lemma answers_Suc: "answers b (Suc k) = answers b k @ [fst (xf idle (snd (xfers xf (replicate k idle) b)))]"
  "snd (xfers xf (replicate (Suc k) idle) b) = snd (xf idle (snd (xfers xf (replicate k idle) b)))"
  using xfers_append [of xf "replicate k idle" "[idle]" b]
  by (simp_all add: split_beta flip: replicate_append_same)

lemma receiving_step:
  assumes "receiving b n i v" "step v v'"
  shows "receiving b n i v' \<and> (rxf v \<noteq> [] \<longrightarrow> rxf v' \<noteq> [])"
proof -
  obtain k where k: "i \<le> k" "k \<le> n" "bbus v = snd (xfers xf (replicate k idle) b)" "rxf v = drop i (answers b k)" "remaining v = n - k"
    using assms(1) by (auto simp: receiving_def)
  from assms obtain r where v': "v' = v\<lparr>bbus := snd (xf idle (bbus v)), remaining := r, rxf := rxf v @ [fst (xf idle (bbus v))]\<rparr>"
      "remaining v = Suc r" "length (rxf v) < depth"
    by (auto elim!: blk_stepE simp: receiving_def)
  with k have kn: "k < n" by simp
  have "drop i (answers b k) @ [fst (xf idle (bbus v))] = drop i (answers b (Suc k))"
    using k(1) by (simp add: answers_Suc k(3) del: replicate_Suc)
  with kn k v' assms(1) show ?thesis
    unfolding receiving_def by (auto simp: answers_Suc blk_ok_def simp del: replicate_Suc intro!: exI [of _ "Suc k"])
qed

lemma receiving_steps: "steps v v' \<Longrightarrow> receiving b n i v \<Longrightarrow> receiving b n i v' \<and> (rxf v \<noteq> [] \<longrightarrow> rxf v' \<noteq> [])"
proof (induction rule: rtranclp_induct)
  case (step y z)
  then show ?case using receiving_step [of b n i y z] by blast
qed simp

lemma receiving_can_step: "receiving b n i v \<Longrightarrow> i < n \<Longrightarrow> rxf v = [] \<Longrightarrow> Ex (step v)"
  using depth by (fastforce simp: receiving_def dest!: Suc_diff_Suc [symmetric] intro: blk_step.receive)

lemma rx_wait_returns:
  assumes "spi_reg spi = reg" "receiving b n i (view s)" "i < n"
  shows "\<exists>s'. rx_wait hw spi s = Some s' \<and> receiving b n i (view s') \<and> rxf (view s') \<noteq> []"
  using assms(2)
proof (induction s rule: wf_induct_rule [OF wf_measures [of "[\<lambda>s. remaining (view s), delay]"]])
  case (1 s)
  obtain w s' where r: "DEV_READ hw (reg + SPI_STATUS) s = (w, s')" by fastforce
  from poll [OF _ r] 1(2) obtain v where v: "steps (view s) v" "blk_status w v" "steps v (view s')" "steps (view s) (view s')"
    "Ex (step (view s)) \<longrightarrow> (s', s) \<in> measures [\<lambda>s. remaining (view s), delay]" by (auto simp: receiving_def)
  have l: "receiving b n i v" "rxf (view s) \<noteq> [] \<Longrightarrow> rxf v \<noteq> []" "receiving b n i (view s')" "rxf v \<noteq> [] \<Longrightarrow> rxf (view s') \<noteq> []"
    using receiving_steps [OF v(1) 1(2)] receiving_steps [OF v(3)] by blast+
  have e: "drop_bit 8 w AND 0xff = 0 \<longleftrightarrow> rxf v = []" using v(2) by (auto simp: blk_status_def unat_eq_0)
  show ?case
  proof (cases "rxf v = []")
    case True
    then have "(s', s) \<in> measures [\<lambda>s. remaining (view s), delay]"
      using v(5) l(2) receiving_can_step [OF 1(2) assms(3)] by blast
    from 1(1) [OF this l(3)] True show ?thesis by (subst rx_wait.simps) (simp add: assms(1) r e)
  next
    case False
    then have "rx_wait hw spi s = Some s'" by (subst rx_wait.simps) (simp add: assms(1) r e)
    with False l show ?thesis by blast
  qed
qed

lemma answers_nth:
  assumes "i < k" "k \<le> n"
  shows "answers b k ! i = answers b n ! i"
proof -
  have "replicate n idle = replicate k idle @ replicate (n - k) idle" using assms(2) by (simp flip: replicate_add)
  then show ?thesis using assms by (simp add: xfers_append split_beta nth_append)
qed

lemma rx_pop:
  assumes "receiving b n i (view s)" "rxf (view s) \<noteq> []" "DEV_READ hw (reg + SPI_RX_FIFO) s = (w, s')"
  shows "ucast w = answers b n ! i \<and> receiving b n (Suc i) (view s')"
proof -
  obtain v where v: "steps (view s) v" "ucast w = hd (rxf v)" "steps (v\<lparr>rxf := tl (rxf v)\<rparr>) (view s')"
    using v_rx [OF assms(2,3)] by blast
  have r: "receiving b n i v" "rxf v \<noteq> []" using receiving_steps [OF v(1) assms(1)] assms(2) by blast+
  then obtain k where "i \<le> k" and k: "k \<le> n" "rxf v = drop i (answers b k)" "\<not> txe v" "rxe v" "txf v = []"
    "bbus v = snd (xfers xf (replicate k idle) b)" "remaining v = n - k"
    by (auto simp: receiving_def)
  then have "i < k" using r(2) by (cases "i = k") auto
  note k = this k
  have "hd (rxf v) = answers b n ! i" using k(1,2,3) by (simp add: hd_drop_conv_nth answers_nth)
  moreover have "receiving b n (Suc i) (v\<lparr>rxf := tl (rxf v)\<rparr>)"
    using k r(1) by (auto simp: receiving_def blk_ok_def tl_drop drop_Suc intro!: exI [of _ k])
  ultimately show ?thesis using receiving_steps [OF v(3)] v(2) by metis
qed

lemma rx_loop_receives:
  assumes "spi_reg spi = reg" "receiving b n i (view s)" "n \<le> length data" "i \<le> n"
  shows "\<exists>s'. rx_loop hw spi [i..<n] data s = Some (take i data @ drop i (answers b n) @ drop n data, s') \<and> receiving b n n (view s')"
  using assms(2-4)
proof (induction "n - i" arbitrary: i data s)
  case 0
  then show ?case by simp
next
  case (Suc m)
  then have i: "i < n" "[i..<n] = i # [Suc i..<n]" by (auto simp: upt_conv_Cons)
  obtain s1 where 1: "rx_wait hw spi s = Some s1" "receiving b n i (view s1)" "rxf (view s1) \<noteq> []"
    using rx_wait_returns [OF assms(1) Suc.prems(1) i(1)] by blast
  obtain w s2 where 2: "DEV_READ hw (reg + SPI_RX_FIFO) s1 = (w, s2)" by fastforce
  note p = rx_pop [OF 1(2,3) 2]
  define data1 where "data1 = data[i := answers b n ! i]"
  have "rx_loop hw spi [i..<n] data s = rx_loop hw spi [Suc i..<n] data1 s2"
    using 1(1) 2 i p Suc.prems(2) by (simp add: assms(1) data1_def)
  moreover have "take (Suc i) data1 @ drop (Suc i) (answers b n) @ drop n data1 = take i data @ drop i (answers b n) @ drop n data"
    using i(1) Suc.prems(2) Cons_nth_drop_Suc [of i "answers b n"]
    by (simp add: data1_def take_Suc_conv_app_nth)
  moreover have "\<exists>s'. rx_loop hw spi [Suc i..<n] data1 s2 = Some (take (Suc i) data1 @ drop (Suc i) (answers b n) @ drop n data1, s') \<and>
      receiving b n n (view s')"
    using Suc.hyps(2) p i(1) Suc.prems(2) by (intro Suc.hyps(1)) (simp_all add: data1_def)
  ultimately show ?case by simp
qed

lemma rx_receives:
  assumes "spi_reg spi = reg" "spi_wait_idle hw spi s = Some s0" "quiet (view s0)" "unat len \<le> length data" "unat len \<le> 0x7ff"
  shows "\<exists>s'. spi_rx hw spi data len s = Some (answers (bbus (view s0)) (unat len) @ drop (unat len) data, s') \<and> quiet (view s') \<and>
    bbus (view s') = snd (xfers xf (replicate (unat len) idle) (bbus (view s0)))"
proof -
  define s2 where "s2 = DEV_WRITE hw (reg + SPI_CONTROL) 0x8 s0"
  have 2: "view s2 = (view s0)\<lparr>txe := False, rxe := True\<rparr>"
    using v_control [of s0 8] assms(3) by (simp add: s2_def quiet_def)
  define s3 where "s3 = DEV_WRITE hw (reg + SPI_START) len s2"
  have "steps ((view s2)\<lparr>remaining := unat len\<rparr>) (view s3)"
    using v_start [of s2 len] assms(3,5) by (simp add: s3_def 2 quiet_def)
  moreover have "receiving (bbus (view s0)) (unat len) 0 ((view s2)\<lparr>remaining := unat len\<rparr>)"
    using assms(3) by (auto simp: receiving_def 2 quiet_def blk_ok_def intro!: exI [of _ 0])
  ultimately have "receiving (bbus (view s0)) (unat len) 0 (view s3)" using receiving_steps by blast
  from rx_loop_receives [OF assms(1) this assms(4)] obtain s' where
    "rx_loop hw spi [0..<unat len] data s3 = Some (answers (bbus (view s0)) (unat len) @ drop (unat len) data, s')"
    "receiving (bbus (view s0)) (unat len) (unat len) (view s')" by auto
  with assms(2) show ?thesis by (auto simp: spi_rx_def assms(1) s2_def s3_def receiving_def quiet_def)
qed

end

section \<open>A block\<close>

text \<open>A block that takes a step only when its status is read, that is, whose bus is slow compared to the processor.\<close>

definition blk_next :: "nat \<Rightarrow> (u8 \<Rightarrow> 'b \<Rightarrow> u8 \<times> 'b) \<Rightarrow> u8 \<Rightarrow> 'b blk \<Rightarrow> 'b blk" where
  "blk_next depth xf idle v =
    (if remaining v = 0 \<or> (txe v \<and> txf v = []) \<or> (rxe v \<and> \<not> length (rxf v) < depth) \<or> (\<not> txe v \<and> \<not> rxe v) then v
     else let c = (if txe v then hd (txf v) else idle);
              u = v\<lparr>bbus := snd (xf c (bbus v)), remaining := remaining v - 1\<rparr>;
              u = (if txe v then u\<lparr>txf := tl (txf v)\<rparr> else u)
          in if rxe v then u\<lparr>rxf := rxf v @ [fst (xf c (bbus v))]\<rparr> else u)"

definition status_word :: "'b blk \<Rightarrow> u32" where
  "status_word v = of_nat (length (txf v) + 256 * length (rxf v) + (if remaining v = 0 then 0x40000 else 0))"

definition lazy_block :: "u32 \<Rightarrow> nat \<Rightarrow> (u8 \<Rightarrow> 'b \<Rightarrow> u8 \<times> 'b) \<Rightarrow> u8 \<Rightarrow> 'b blk mmio" where
  "lazy_block reg depth xf idle = \<lparr>
     DEV_READ = (\<lambda>a v. if a = reg + SPI_STATUS then (status_word (blk_next depth xf idle v), blk_next depth xf idle v)
       else if a = reg + SPI_RX_FIFO then (case rxf v of [] \<Rightarrow> (0, v) | y # ys \<Rightarrow> (ucast y, v\<lparr>rxf := ys\<rparr>)) else (0, v)),
     DEV_WRITE = (\<lambda>a w v. if a = reg + SPI_TX_FIFO then blk_push depth (ucast w) v
       else if remaining v \<noteq> 0 then v
       else if a = reg + SPI_CONTROL then v\<lparr>txe := bit w 2, rxe := bit w 3, txf := (if bit w 0 then [] else txf v), rxf := (if bit w 1 then [] else rxf v)\<rparr>
       else if a = reg + SPI_START then v\<lparr>remaining := unat (w AND 0x7ff)\<rparr> else v)\<rparr>"

lemma blk_next_steps: "blk_steps depth xf idle v (blk_next depth xf idle v)"
proof -
  have "blk_next depth xf idle v = v \<or> blk_step depth xf idle v (blk_next depth xf idle v)"
    by (cases "txe v"; cases "rxe v"; cases "remaining v"; cases "txf v") (auto simp: blk_next_def Let_def intro: blk_step.intros)
  then show ?thesis by auto
qed

lemma blk_next_moves:
  assumes "blk_step depth xf idle v v'"
  shows "blk_next depth xf idle v \<noteq> v"
proof -
  have "remaining (blk_next depth xf idle v) < remaining v"
    using assms by (auto elim!: blk_stepE simp: blk_next_def Let_def)
  then show ?thesis by auto
qed

lemma packed_levels:
  fixes a b :: nat
  assumes "a < 256" "b < 256"
  shows "(a + 256 * b + (if c then 0x40000 else 0)) mod 256 = a" "(a + 256 * b + (if c then 0x40000 else 0)) div 256 mod 256 = b"
    "even ((a + 256 * b + (if c then 0x40000 else 0)) div 2 ^ 18) \<longleftrightarrow> \<not> c"
proof -
  define k where "k = b + 256 * (if c then 4 else 0)"
  have s: "a + 256 * b + (if c then 0x40000 else 0) = a + 256 * k" by (simp add: k_def)
  show "(a + 256 * b + (if c then 0x40000 else 0)) mod 256 = a" unfolding s using assms(1) by simp
  have "(a + 256 * k) div 256 = k" using assms(1) by simp
  then show "(a + 256 * b + (if c then 0x40000 else 0)) div 256 mod 256 = b"
    unfolding s using assms(2) by (simp only: k_def mod_mult_self2 mod_less)
  have "(a + 256 * b + (if c then 0x40000 else 0)) div 0x40000 = (if c then 1 else 0)"
    using assms by (cases c) (simp_all add: div_add_self2)
  moreover have "(2 :: nat) ^ 18 = 0x40000" by simp
  ultimately show "even ((a + 256 * b + (if c then 0x40000 else 0)) div 2 ^ 18) \<longleftrightarrow> \<not> c"
    by (simp only: split: if_split) simp
qed

lemma status_word:
  assumes "length (txf v) < 256" "length (rxf v) < 256"
  shows "blk_status (status_word v) v"
proof -
  define n where "n = length (txf v) + 256 * length (rxf v) + (if remaining v = 0 then 0x40000 else 0)"
  have "n < 2 ^ 32" using assms by (auto simp: n_def)
  moreover have "status_word v = of_nat n" by (simp only: status_word_def n_def)
  ultimately have n: "unat (status_word v) = n" by (simp add: unat_of_nat)
  have m: "(0xff :: u32) = mask 8" by (simp add: mask_eq_exp_minus_1)
  have "unat (status_word v AND 0xff) = length (txf v)"
    unfolding m using assms by (simp only: take_bit_eq_mask [symmetric] unsigned_take_bit_eq n) (simp add: take_bit_eq_mod n_def packed_levels del: if_split)
  moreover have "unat (drop_bit 8 (status_word v) AND 0xff) = length (rxf v)"
    unfolding m using assms
    by (simp only: take_bit_eq_mask [symmetric] unsigned_take_bit_eq unat_drop_bit_eq n)
      (simp add: take_bit_eq_mod drop_bit_eq_div n_def packed_levels del: if_split)
  moreover have "status_word v AND 0x40000 = 0 \<longleftrightarrow> remaining v \<noteq> 0"
  proof -
    have "status_word v AND 0x40000 = 0 \<longleftrightarrow> \<not> bit (status_word v) 18"
      using and_exp_eq_0_iff_not_bit [of "status_word v" 18] by simp
    also have "\<dots> \<longleftrightarrow> even (n div 2 ^ 18)"
    proof -
      have "bit (unat (status_word v)) 18 \<longleftrightarrow> bit (status_word v) 18" by (simp only: bit_unsigned_iff) simp
      then show ?thesis unfolding n bit_iff_odd [of n] by blast
    qed
    also have "\<dots> \<longleftrightarrow> remaining v \<noteq> 0" using assms unfolding n_def by (simp only: packed_levels)
    finally show ?thesis .
  qed
  ultimately show ?thesis by (simp add: blk_status_def)
qed

lemma lazy_spi_block:
  fixes xf :: "u8 \<Rightarrow> 'b \<Rightarrow> u8 \<times> 'b"
  assumes "0 < depth" "depth < 256"
  shows "spi_block (lazy_block reg depth xf idle) reg (\<lambda>v. v) (\<lambda>_. 0) depth xf idle"
proof unfold_locales
  fix s s' w
  assume "blk_ok depth s" "DEV_READ (lazy_block reg depth xf idle) (reg + SPI_STATUS) s = (w, s')"
  then have r: "w = status_word (blk_next depth xf idle s)" "s' = blk_next depth xf idle s" "blk_ok depth s"
    by (auto simp: lazy_block_def)
  then have "blk_ok depth s'" by (auto simp: blk_ok_def blk_next_def Let_def)
  then have "blk_status w s'" using status_word [of s'] assms(2) by (simp add: r(1,2) blk_ok_def)
  with r(2) blk_next_steps show "\<exists>v. blk_steps depth xf idle s v \<and> blk_status w v \<and> blk_steps depth xf idle v s'" by blast
next
  fix s s' w v
  assume "DEV_READ (lazy_block reg depth xf idle) (reg + SPI_STATUS) s = (w, s')" "blk_step depth xf idle s v" "s' = s"
  then show "(0 :: nat) < 0" using blk_next_moves [of depth xf idle s v] by (auto simp: lazy_block_def)
next
  fix s w
  show "\<exists>v. blk_steps depth xf idle s v \<and>
      blk_steps depth xf idle (blk_push depth (ucast w) v) (DEV_WRITE (lazy_block reg depth xf idle) (reg + SPI_TX_FIFO) w s)"
    by (intro exI [of _ s]) (simp add: lazy_block_def)
next
  fix s s' w
  assume "rxf s \<noteq> []" "DEV_READ (lazy_block reg depth xf idle) (reg + SPI_RX_FIFO) s = (w, s')"
  then show "\<exists>v. blk_steps depth xf idle s v \<and> ucast w = hd (rxf v) \<and> blk_steps depth xf idle (v\<lparr>rxf := tl (rxf v)\<rparr>) s'"
    by (intro exI [of _ s]) (auto simp: lazy_block_def spi_reg_defs neq_Nil_conv)
next
  fix s :: "'b blk" and w :: u32
  assume "remaining s = 0" "w AND 3 = 0"
  then show "DEV_WRITE (lazy_block reg depth xf idle) (reg + SPI_CONTROL) w s = s\<lparr>txe := bit w 2, rxe := bit w 3\<rparr>"
    using bit_and_iff [of w 3 0] bit_and_iff [of w 3 1] by (simp add: lazy_block_def spi_reg_defs bit_numeral_rec)
next
  fix s :: "'b blk" and w :: u32
  assume "remaining s = 0" "unat w \<le> 0x7ff"
  then show "blk_steps depth xf idle (s\<lparr>remaining := unat w\<rparr>) (DEV_WRITE (lazy_block reg depth xf idle) (reg + SPI_START) w s)"
  proof -
    have m: "(0x7ff :: u32) = mask 11" by (simp add: mask_eq_exp_minus_1)
    have "unat (w AND 0x7ff) = unat w"
      unfolding m using \<open>unat w \<le> 0x7ff\<close> by (simp only: take_bit_eq_mask [symmetric] unsigned_take_bit_eq) (simp add: take_bit_eq_mod)
    with \<open>remaining s = 0\<close> show ?thesis by (simp add: lazy_block_def spi_reg_defs)
  qed
qed (use assms in simp_all)

interpretation fifo8: spi_block "lazy_block reg 8 xf idle" reg "\<lambda>v. v" "\<lambda>_. 0" 8 xf idle
  by (rule lazy_spi_block) simp_all

section \<open>A block with short FIFOs\<close>

text \<open>With a FIFO of eight bytes and a slow bus every byte from the ninth on is lost, and the operation waits for it for ever.\<close>

lemma tx_loop_overruns:
  assumes "spi_reg spi = reg" "n \<le> length data" "i \<le> n" "n - i \<le> unat av" "txf v = take 8 (take i data)"
  shows "tx_loop (lazy_block reg 8 xf idle) spi data [i..<n] av v = Some (v\<lparr>txf := take 8 (take n data)\<rparr>)"
  using assms(3-5)
proof (induction "n - i" arbitrary: i av v)
  case 0
  then have "i = n" by simp
  with 0 show ?case by simp
next
  case (Suc k)
  then have i: "i < length data" "[i..<n] = i # [Suc i..<n]" and a0: "av \<noteq> 0"
    using assms(2) by (auto simp: upt_conv_Cons unat_minus_one split: if_splits)
  have av: "n - Suc i \<le> unat (av - 1)" using unat_minus_one [OF a0] Suc.prems(2) by simp
  define v1 where "v1 = DEV_WRITE (lazy_block reg 8 xf idle) (reg + SPI_TX_FIFO) (ucast (data ! i)) v"
  have v1: "v1 = v\<lparr>txf := take 8 (take (Suc i) data)\<rparr>"
    using Suc.prems(3) i(1) by (simp add: v1_def lazy_block_def blk_push_def take_Suc_conv_app_nth min_def)
  have "tx_loop (lazy_block reg 8 xf idle) spi data [i..<n] av v = tx_loop (lazy_block reg 8 xf idle) spi data [Suc i..<n] (av - 1) v1"
    using i a0 by (simp add: v1_def assms(1))
  also have "\<dots> = Some (v1\<lparr>txf := take 8 (take n data)\<rparr>)"
    using Suc.hyps(2) av i(1) by (intro Suc.hyps(1)) (simp_all add: v1)
  finally show ?case by (simp add: v1)
qed

definition stuck :: "'b blk \<Rightarrow> bool" where
  "stuck v \<longleftrightarrow> txe v \<and> \<not> rxe v \<and> rxf v = [] \<and> length (txf v) \<le> 8 \<and> length (txf v) < remaining v"

lemma stuck_next: "stuck v \<Longrightarrow> stuck (blk_next 8 xf idle v) \<and> status_word (blk_next 8 xf idle v) AND 0x40000 = 0"
proof -
  assume "stuck v"
  then have s: "stuck (blk_next 8 xf idle v)" by (cases "txf v") (auto simp: stuck_def blk_next_def Let_def)
  then have "blk_status (status_word (blk_next 8 xf idle v)) (blk_next 8 xf idle v)" by (intro status_word) (auto simp: stuck_def)
  with s show ?thesis by (auto simp: stuck_def blk_status_def)
qed

lemma wait_idle_stuck:
  fixes v :: "'b blk" and spi :: spi and xf :: "u8 \<Rightarrow> 'b \<Rightarrow> u8 \<times> 'b"
  shows "spi_wait_idle hw spi v = Some v' \<Longrightarrow> hw = lazy_block (spi_reg spi) 8 xf idle \<longrightarrow> \<not> stuck v"
proof (rule spi_wait_idle.raw_induct [of "\<lambda>hw spi v v'. hw = lazy_block (spi_reg spi) 8 xf idle \<longrightarrow> \<not> stuck v" hw spi v v'])
  fix W :: "'b blk mmio \<Rightarrow> spi \<Rightarrow> 'b blk \<Rightarrow> 'b blk option" and hw spi v v'
  assume 1: "\<And>hw spi v v'. W hw spi v = Some v' \<Longrightarrow> hw = lazy_block (spi_reg spi) 8 xf idle \<longrightarrow> \<not> stuck v"
    "(case DEV_READ hw (spi_reg spi + SPI_STATUS) v of (w, h) \<Rightarrow> if w AND 0x40000 = 0 then W hw spi h else Some h) = Some v'"
  show "hw = lazy_block (spi_reg spi) 8 xf idle \<longrightarrow> \<not> stuck v"
  proof (intro impI notI)
    assume h: "hw = lazy_block (spi_reg spi) 8 xf idle" "stuck v"
    then have "W hw spi (blk_next 8 xf idle v) = Some v'"
      using 1(2) stuck_next [OF h(2), of xf idle] by (simp add: lazy_block_def)
    from 1(1) [OF this] h stuck_next [OF h(2), of xf idle] show False by simp
  qed
qed

section \<open>Properties\<close>


lemma replicate_2: "replicate 2 x = [x, x]"
  by (simp add: numeral_2_eq_2)

definition echo_bus :: "u8 \<Rightarrow> u8 \<Rightarrow> u8 \<times> u8" where
  "echo_bus x b = (b, x)"


text \<open>C37. The SPI block of the system has FIFOs of eight bytes (\<open>doc/ip/spi.md\<close>, \<open>spi.sv\<close>), and there the same driver loses data: the
  free space it computes is 128 less the level, so after one look at the status it stores up to 128 bytes without
  another. On a block whose bus is slow compared to the processor, a command of nine to 128 bytes leaves only its first eight bytes in
  the FIFO, and the wait for the end of the operation, the first thing the next call of the driver does, never ends.\<close>

theorem spi_tx_overruns:
  assumes "quiet v" "8 < length data" "length data \<le> 128" "unat len = length data"
  shows "\<exists>v'. spi_tx (lazy_block (spi_reg spi) 8 xf idle) spi data len v = Some v' \<and> txf v' = take 8 data \<and>
    remaining v' = length data \<and> bbus v' = bbus v \<and> spi_wait_idle (lazy_block (spi_reg spi) 8 xf idle) spi v' = None"
proof -
  define hw where "hw = lazy_block (spi_reg spi) 8 xf idle"
  define v3 where "v3 = v\<lparr>txe := True, rxe := False, remaining := length data\<rparr>"
  have q: "remaining v = 0" "txf v = []" "rxf v = []" using assms(1) by (simp_all add: quiet_def)
  have "spi_wait_idle hw spi v = Some v"
    by (subst spi_wait_idle.simps) (simp add: hw_def lazy_block_def blk_next_def status_word_def q)
  moreover have "DEV_WRITE hw (spi_reg spi + SPI_CONTROL) 4 v = v\<lparr>txe := True, rxe := False\<rparr>"
    by (simp add: hw_def lazy_block_def spi_reg_defs q bit_numeral_rec)
  moreover have "DEV_WRITE hw (spi_reg spi + SPI_START) len (v\<lparr>txe := True, rxe := False\<rparr>) = v3"
  proof -
    have m: "(0x7ff :: u32) = mask 11" by (simp add: mask_eq_exp_minus_1)
    have "unat (len AND 0x7ff) = unat len"
      unfolding m using assms(3,4) by (simp only: take_bit_eq_mask [symmetric] unsigned_take_bit_eq) (simp add: take_bit_eq_mod)
    then show ?thesis using assms(4) by (simp add: hw_def lazy_block_def spi_reg_defs q v3_def)
  qed
  moreover have "tx_refill hw spi 0 v3 = Some (128, v3)"
  proof -
    have "blk_next 8 xf idle v3 = v3" "status_word v3 = 0"
      using assms(2) by (auto simp: blk_next_def v3_def q status_word_def)
    then have "DEV_READ hw (spi_reg spi + SPI_STATUS) v3 = (0, v3)" by (simp add: hw_def lazy_block_def)
    then show ?thesis by (subst tx_refill.simps) (simp, subst tx_refill.simps, simp)
  qed
  ultimately have "spi_tx hw spi data len v = Some (v3\<lparr>txf := take 8 data\<rparr>)"
  proof -
    assume a: "spi_wait_idle hw spi v = Some v" "DEV_WRITE hw (spi_reg spi + SPI_CONTROL) 4 v = v\<lparr>txe := True, rxe := False\<rparr>"
      "DEV_WRITE hw (spi_reg spi + SPI_START) len (v\<lparr>txe := True, rxe := False\<rparr>) = v3" "tx_refill hw spi 0 v3 = Some (128, v3)"
    have "data \<noteq> []" using assms(2) by (cases data) simp_all
    then have i: "[0..<length data] = 0 # [Suc 0..<length data]" by (simp add: upt_conv_Cons)
    have "tx_loop hw spi data [0..<length data] 128 v3 = Some (v3\<lparr>txf := take 8 data\<rparr>)"
      using tx_loop_overruns [of spi "spi_reg spi" "length data" data 0 128 v3 xf idle] assms(3) by (simp add: hw_def v3_def q)
    moreover have "tx_loop hw spi data [0..<length data] 0 v3 = tx_loop hw spi data [0..<length data] 128 v3"
      unfolding i using \<open>data \<noteq> []\<close> by (simp add: a(4))
    ultimately show ?thesis by (simp add: spi_tx_def a(1-3) assms(4))
  qed
  moreover have "stuck (v3\<lparr>txf := take 8 data\<rparr>)" using assms(2) by (simp add: stuck_def v3_def q)
  then have "spi_wait_idle hw spi (v3\<lparr>txf := take 8 data\<rparr>) = None"
    using wait_idle_stuck [of hw spi] unfolding hw_def by (cases "spi_wait_idle (lazy_block (spi_reg spi) 8 xf idle) spi (v3\<lparr>txf := take 8 data\<rparr>)") auto
  ultimately show ?thesis unfolding hw_def [symmetric] by (simp add: v3_def)
qed

theorem spi_tx_overruns_witness:
  "\<exists>v'. spi_tx (lazy_block 0x80302000 8 echo_bus 0) \<lparr>spi_reg = 0x80302000, spi_speed = 0\<rparr> (replicate 64 7) 64
      \<lparr>bbus = 0, txe = False, rxe = False, remaining = 0, txf = [], rxf = []\<rparr> = Some v' \<and> txf v' = replicate 8 7 \<and>
    remaining v' = 64 \<and> spi_wait_idle (lazy_block 0x80302000 8 echo_bus 0) \<lparr>spi_reg = 0x80302000, spi_speed = 0\<rparr> v' = None"
proof -
  have "quiet \<lparr>bbus = 0 :: u8, txe = False, rxe = False, remaining = 0, txf = [], rxf = []\<rparr>" by (simp add: quiet_def)
  from spi_tx_overruns [OF this, of "replicate 64 7" 64 "\<lparr>spi_reg = 0x80302000, spi_speed = 0\<rparr>" echo_bus 0] show ?thesis
    by (simp del: replicate.simps) blast
qed

end
