(* ===== verification/Legacy_I2c.thy ===== *)
theory Legacy_I2c
  imports Legacy_System
begin

unbundle bit_operations_syntax

text \<open>
  The I2C, GPIO and PWM drivers of the older software stack (\<open>sw/legacy/common/i2c.c\<close>, \<open>gpio.c\<close>, \<open>pwm.c\<close> and their headers) over
  the loads and stores of \<open>dev_access.h\<close>. \<open>None\<close> is a polling loop that never ends or an access outside a buffer.
  The cycle counter is read with an instruction: a
  parameter \<open>get_mcycle\<close>.
\<close>

section \<open>Registers\<close>

definition I2C_INTR_STATE :: u32 where "I2C_INTR_STATE = 0x00"
definition I2C_CTRL :: u32 where "I2C_CTRL = 0x10"
definition I2C_STATUS :: u32 where "I2C_STATUS = 0x14"
definition I2C_RDATA :: u32 where "I2C_RDATA = 0x18"
definition I2C_FDATA :: u32 where "I2C_FDATA = 0x1C"
definition I2C_TIMING0 :: u32 where "I2C_TIMING0 = 0x3C"
definition I2C_TIMING1 :: u32 where "I2C_TIMING1 = 0x40"
definition I2C_TIMING2 :: u32 where "I2C_TIMING2 = 0x44"
definition I2C_TIMING3 :: u32 where "I2C_TIMING3 = 0x48"
definition I2C_TIMING4 :: u32 where "I2C_TIMING4 = 0x4C"
definition I2C_CONTROLLER_EVENTS :: u32 where "I2C_CONTROLLER_EVENTS = 0x78"
definition I2C_INTR_STATE_CONTROLLER_HALT :: u32 where "I2C_INTR_STATE_CONTROLLER_HALT = push_bit 4 1"
definition I2C_CTRL_ENABLEHOST :: u32 where "I2C_CTRL_ENABLEHOST = 1"
definition I2C_STATUS_FMTFULL :: u32 where "I2C_STATUS_FMTFULL = 1"
definition I2C_STATUS_FMTEMPTY :: u32 where "I2C_STATUS_FMTEMPTY = 4"
definition I2C_FDATA_READB :: u32 where "I2C_FDATA_READB = 0x400"
definition I2C_FDATA_STOP :: u32 where "I2C_FDATA_STOP = 0x200"
definition I2C_FDATA_START :: u32 where "I2C_FDATA_START = 0x100"
definition I2C_CONTROLLER_EVENTS_NACK :: u32 where "I2C_CONTROLLER_EVENTS_NACK = push_bit 0 1"
definition I2C_CONTROLLER_EVENTS_UNHANDLED_NACK_TIMEOUT :: u32 where "I2C_CONTROLLER_EVENTS_UNHANDLED_NACK_TIMEOUT = push_bit 1 1"
definition I2C_CONTROLLER_EVENTS_BUS_TIMEOUT :: u32 where "I2C_CONTROLLER_EVENTS_BUS_TIMEOUT = push_bit 2 1"
definition I2C_CONTROLLER_EVENTS_ARBITRATION_LOST :: u32 where "I2C_CONTROLLER_EVENTS_ARBITRATION_LOST = push_bit 3 1"

lemmas i2c_reg_defs = I2C_INTR_STATE_def I2C_CTRL_def I2C_STATUS_def I2C_RDATA_def I2C_FDATA_def I2C_TIMING0_def I2C_TIMING1_def
  I2C_TIMING2_def I2C_TIMING3_def I2C_TIMING4_def I2C_CONTROLLER_EVENTS_def

section \<open>The timing parameters\<close>

definition spc_thigh :: "u16 list" where "spc_thigh = [4000, 600, 260]"
definition spc_tlow :: "u16 list" where "spc_tlow = [4700, 1300, 150]"
definition spc_thd_sta :: "u16 list" where "spc_thd_sta = [4000, 600, 260]"
definition spc_tsu_sta :: "u16 list" where "spc_tsu_sta = [4700, 600, 260]"
definition spc_thd_dat :: "u16 list" where "spc_thd_dat = [5000, 1, 1]"
definition spc_tsu_dat :: "u16 list" where "spc_tsu_dat = [250, 100, 50]"
definition spc_t_buf :: "u16 list" where "spc_t_buf = [4700, 1300, 500]"
definition spc_tsu_sto :: "u16 list" where "spc_tsu_sto = [4000, 600, 260]"

lemmas spc_defs = spc_thigh_def spc_tlow_def spc_thd_sta_def spc_tsu_sta_def spc_thd_dat_def spc_tsu_dat_def spc_t_buf_def spc_tsu_sto_def

definition round_up_divide :: "u32 \<Rightarrow> u32 \<Rightarrow> u16" where
  "round_up_divide a b = (let result = (a - 1) div b + 1 in ucast result)"

definition i2c_set_host_mode :: "'s mmio \<Rightarrow> u32 \<Rightarrow> 's \<Rightarrow> 's" where
  "i2c_set_host_mode hw i2c h = DEV_WRITE hw (i2c + I2C_CTRL) I2C_CTRL_ENABLEHOST h"

text \<open>The report on the console: a text and a number for each parameter, and the end of the line.\<close>

fun print_fields :: "'s mmio \<Rightarrow> (string \<times> u32) list \<Rightarrow> 's \<Rightarrow> 's option" where
  "print_fields hw [] h = putchar hw 0x0A h"
| "print_fields hw ((label, v) # fs) h =
    do { h \<leftarrow> putstr hw (map of_char label @ [0]) h; h \<leftarrow> putdec hw v h; print_fields hw fs h }"

definition i2c_set_speed :: "'s mmio \<Rightarrow> u32 \<Rightarrow> u32 \<Rightarrow> 's \<Rightarrow> 's option" where
  "i2c_set_speed hw i2c speed_khz h =
    (let sysclk_khz = (ucast SYSCLK_FREQ + 999) div 1000;
         clk_period = 1000 * 1000 div sysclk_khz;
         mode = (if speed_khz > 100 then 1 else 0) + (if speed_khz > 400 then 1 else 0 :: nat);
         thigh = round_up_divide (ucast (spc_thigh ! mode)) clk_period;
         tlow = round_up_divide (ucast (spc_tlow ! mode)) clk_period;
         t_f = round_up_divide (20 * 3 div 5) clk_period;
         t_r = round_up_divide 120 clk_period;
         thd_sta = round_up_divide (ucast (spc_thd_sta ! mode)) clk_period;
         tsu_sta = round_up_divide (ucast (spc_tsu_sta ! mode)) clk_period;
         thd_dat = round_up_divide (ucast (spc_thd_dat ! mode)) clk_period;
         tsu_dat = round_up_divide (ucast (spc_tsu_dat ! mode)) clk_period;
         t_buf = round_up_divide (ucast (spc_t_buf ! mode)) clk_period;
         tsu_sto = round_up_divide (ucast (spc_tsu_sto ! mode)) clk_period;
         tlow = (if (ucast tlow :: u32) < ucast thd_dat + 1 then ucast (ucast thd_dat + 1 :: u32) else tlow);
         t_buf = (if (ucast t_buf :: u32) < ucast tsu_sta + 1 then ucast (ucast tsu_sta + 1 :: u32) else t_buf);
         nl = (\<lambda>label. CHR 0x0A # label)
     in do { h \<leftarrow> print_fields hw
           [(''clk_period: '', clk_period), (nl ''thigh:   '', ucast thigh), (nl ''tlow:    '', ucast tlow), (nl ''t_f:     '', ucast t_f),
            (nl ''t_r:     '', ucast t_r), (nl ''thd_sta: '', ucast thd_sta), (nl ''tsu_sta: '', ucast tsu_sta),
            (nl ''thd_dat: '', ucast thd_dat), (nl ''tsu_dat: '', ucast tsu_dat), (nl ''t_buf:   '', ucast t_buf),
            (nl ''tsu_sto: '', ucast tsu_sto)] h;
     let h = DEV_WRITE hw (i2c + I2C_TIMING0) (push_bit 16 (ucast tlow) OR ucast thigh) h;
         h = DEV_WRITE hw (i2c + I2C_TIMING1) (push_bit 16 (ucast t_f) OR ucast t_r) h;
         h = DEV_WRITE hw (i2c + I2C_TIMING2) (push_bit 16 (ucast thd_sta) OR ucast tsu_sta) h;
         h = DEV_WRITE hw (i2c + I2C_TIMING3) (push_bit 16 (ucast thd_dat) OR ucast tsu_dat) h
     in Some (DEV_WRITE hw (i2c + I2C_TIMING4) (push_bit 16 (ucast t_buf) OR ucast tsu_sto) h) })"

section \<open>Transfers\<close>

text \<open>\<open>while (0u != (I2C_STATUS_FMTFULL & DEV_READ(i2c + I2C_STATUS)))\<close>, and the wait for the opposite of \<open>FMTEMPTY\<close>.\<close>

partial_function (option) wait_fmt_room :: "'s mmio \<Rightarrow> u32 \<Rightarrow> 's \<Rightarrow> 's option" where
  "wait_fmt_room hw i2c h =
    (case DEV_READ hw (i2c + I2C_STATUS) h of (w, h) \<Rightarrow> if I2C_STATUS_FMTFULL AND w \<noteq> 0 then wait_fmt_room hw i2c h else Some h)"

definition write_raw_fmt :: "'s mmio \<Rightarrow> u32 \<Rightarrow> u32 \<Rightarrow> 's \<Rightarrow> (int \<times> 's) option" where
  "write_raw_fmt hw i2c fmt h = do { h \<leftarrow> wait_fmt_room hw i2c h; Some (0, DEV_WRITE hw (i2c + I2C_FDATA) fmt h) }"

fun write_raw_bytes :: "'s mmio \<Rightarrow> u32 \<Rightarrow> u8 list \<Rightarrow> nat \<Rightarrow> 's \<Rightarrow> (int \<times> 's) option" where
  "write_raw_bytes hw i2c data 0 h = Some (0, h)"
| "write_raw_bytes hw i2c data (Suc n) h = do {
     h \<leftarrow> wait_fmt_room hw i2c h;
     case data of [] \<Rightarrow> None | b # bs \<Rightarrow> write_raw_bytes hw i2c bs n (DEV_WRITE hw (i2c + I2C_FDATA) (ucast b) h) }"

partial_function (option) wait_fmt_empty :: "'s mmio \<Rightarrow> u32 \<Rightarrow> 's \<Rightarrow> (int \<times> 's) option" where
  "wait_fmt_empty hw i2c h =
    (case DEV_READ hw (i2c + I2C_STATUS) h of (w, h) \<Rightarrow> if I2C_STATUS_FMTEMPTY AND w = 0 then wait_fmt_empty hw i2c h else Some (0, h))"

definition reset_controller_events :: "'s mmio \<Rightarrow> u32 \<Rightarrow> 's \<Rightarrow> 's" where
  "reset_controller_events hw i2c h =
    DEV_WRITE hw (i2c + I2C_CONTROLLER_EVENTS) (I2C_CONTROLLER_EVENTS_NACK OR I2C_CONTROLLER_EVENTS_UNHANDLED_NACK_TIMEOUT OR
      I2C_CONTROLLER_EVENTS_BUS_TIMEOUT OR I2C_CONTROLLER_EVENTS_ARBITRATION_LOST) h"

text \<open>The loop at the end of \<open>i2c_write\<close>.\<close>

partial_function (option) halt_loop :: "'s mmio \<Rightarrow> u32 \<Rightarrow> int \<Rightarrow> 's \<Rightarrow> (int \<times> 's) option" where
  "halt_loop hw i2c rc h =
    (case DEV_READ hw (i2c + I2C_STATUS) h of (w, h) \<Rightarrow>
     if I2C_STATUS_FMTEMPTY AND w \<noteq> 0
     then case DEV_READ hw (i2c + I2C_INTR_STATE) h of (i, h) \<Rightarrow>
       if I2C_INTR_STATE_CONTROLLER_HALT AND i \<noteq> 0 then Some (- 1, reset_controller_events hw i2c h) else halt_loop hw i2c rc h
     else Some (rc, h))"

definition i2c_write :: "'s mmio \<Rightarrow> u32 \<Rightarrow> u8 \<Rightarrow> u8 list \<Rightarrow> nat \<Rightarrow> bool \<Rightarrow> 's \<Rightarrow> (int \<times> 's) option" where
  "i2c_write hw i2c addr7 data n skip_stop h = do {
     (rc, h) \<leftarrow> write_raw_fmt hw i2c (I2C_FDATA_START OR push_bit 1 (ucast addr7) OR 0) h;
     if rc \<noteq> 0 then Some (rc, h)
     else do {
       (r, h) \<leftarrow> (if n > 1 then write_raw_bytes hw i2c data (n - 1) h else Some (0, h));
       if 0 < n \<and> n \<le> length data
       then do {
         (rc, h) \<leftarrow> write_raw_fmt hw i2c ((if skip_stop then 0 else I2C_FDATA_STOP) OR ucast (data ! (n - 1))) h;
         halt_loop hw i2c rc h }
       else None } }"

text \<open>Reading a chunk: the buffer, the index where \<open>buf\<close> points, the count to go.\<close>

fun read_chunk :: "'s mmio \<Rightarrow> ('s \<Rightarrow> u32 \<times> 's) \<Rightarrow> u32 \<Rightarrow> u32 \<Rightarrow> u32 \<Rightarrow> nat \<Rightarrow> u8 list \<Rightarrow> nat \<Rightarrow> int \<Rightarrow> 's \<Rightarrow> (int \<times> u8 list \<times> nat \<times> 's) option" where
  "read_chunk hw get_mcycle i2c start_time timeout_cycles 0 buf p rc h = Some (rc, buf, p, h)"
| "read_chunk hw get_mcycle i2c start_time timeout_cycles (Suc chunk) buf p rc h =
    (case get_mcycle h of (now, h) \<Rightarrow>
     if now - start_time \<ge> timeout_cycles then Some (- 1, buf, p, h)
     else case DEV_READ hw (i2c + I2C_RDATA) h of (w, h) \<Rightarrow>
       if p < length buf then read_chunk hw get_mcycle i2c start_time timeout_cycles chunk (buf[p := ucast w]) (p + 1) rc h else None)"

text \<open>The address of a read: a result other than 0 is a target that did not answer.\<close>

definition read_address :: "'s mmio \<Rightarrow> u32 \<Rightarrow> u8 \<Rightarrow> 's \<Rightarrow> (int \<times> 's) option" where
  "read_address hw i2c addr7 h = do {
     (rc, h) \<leftarrow> write_raw_fmt hw i2c (I2C_FDATA_START OR push_bit 1 (ucast addr7) OR 1) h;
     if rc \<noteq> 0 then Some (rc, h)
     else do {
       (rc, h) \<leftarrow> wait_fmt_empty hw i2c h;
       if rc \<noteq> 0 then Some (rc, h)
       else case DEV_READ hw (i2c + I2C_INTR_STATE) h of (i, h) \<Rightarrow>
         if I2C_INTR_STATE_CONTROLLER_HALT AND i \<noteq> 0 then Some (- 1, reset_controller_events hw i2c h) else Some (rc, h) } }"

function read_loop :: "'s mmio \<Rightarrow> ('s \<Rightarrow> u32 \<times> 's) \<Rightarrow> u32 \<Rightarrow> u8 \<Rightarrow> u32 \<Rightarrow> u32 \<Rightarrow> nat \<Rightarrow> u8 list \<Rightarrow> nat \<Rightarrow> int \<Rightarrow> 's \<Rightarrow> (int \<times> u8 list \<times> 's) option" where
  "read_loop hw get_mcycle i2c addr7 start_time timeout_cycles n buf p rc h =
    (if n > 0
     then do {
       (rc, h) \<leftarrow> read_address hw i2c addr7 h;
       if rc \<noteq> 0 then Some (rc, buf, h)
       else let chunk = (if n \<ge> 255 then 255 else n) in do {
         (r, h) \<leftarrow> write_raw_fmt hw i2c ((if chunk \<ge> n then I2C_FDATA_STOP else 0) OR I2C_FDATA_READB OR of_nat chunk) h;
         (rc, h) \<leftarrow> wait_fmt_empty hw i2c h;
         (rc, buf, p, h) \<leftarrow> (if rc = 0 then read_chunk hw get_mcycle i2c start_time timeout_cycles chunk buf p rc h else Some (rc, buf, p, h));
         read_loop hw get_mcycle i2c addr7 start_time timeout_cycles (n - chunk) buf p rc h } }
     else Some (rc, buf, h))"
  by pat_completeness auto

termination by (relation "measure (\<lambda>(_, _, _, _, _, _, n, _). n)") auto

declare read_loop.simps [simp del]

definition i2c_read :: "'s mmio \<Rightarrow> ('s \<Rightarrow> u32 \<times> 's) \<Rightarrow> u32 \<Rightarrow> u8 \<Rightarrow> u8 list \<Rightarrow> nat \<Rightarrow> u32 \<Rightarrow> 's \<Rightarrow> (int \<times> u8 list \<times> 's) option" where
  "i2c_read hw get_mcycle i2c addr7 buf n timeout_usecs h =
    (let timeout_cycles = ucast (ucast timeout_usecs * (SYSCLK_FREQ div 1000) div 1000) :: u32
     in case get_mcycle h of (start_time, h) \<Rightarrow> read_loop hw get_mcycle i2c addr7 start_time timeout_cycles n buf 0 0 h)"

section \<open>GPIO and PWM\<close>

definition set_outputs :: "'s mmio \<Rightarrow> u32 \<Rightarrow> u32 \<Rightarrow> 's \<Rightarrow> 's" where
  "set_outputs hw gpio outputs h = DEV_WRITE hw gpio outputs h"

definition read_gpio :: "'s mmio \<Rightarrow> u32 \<Rightarrow> 's \<Rightarrow> u32 \<times> 's" where
  "read_gpio hw gpio h = DEV_READ hw gpio h"

definition set_output_bit :: "'s mmio \<Rightarrow> u32 \<Rightarrow> u32 \<Rightarrow> u32 \<Rightarrow> 's \<Rightarrow> 's" where
  "set_output_bit hw gpio output_bit_index output_bit h =
    (let output_bit = output_bit AND 1;
         (output_bits, h) = read_gpio hw gpio h;
         output_bits = output_bits AND NOT (push_bit (unat output_bit_index) 1);
         output_bits = output_bits OR push_bit (unat output_bit_index) output_bit
     in set_outputs hw gpio output_bits h)"

definition get_output_bit :: "'s mmio \<Rightarrow> u32 \<Rightarrow> u32 \<Rightarrow> 's \<Rightarrow> u32 \<times> 's" where
  "get_output_bit hw gpio output_bit_index h =
    (case read_gpio hw gpio h of (output_bits, h) \<Rightarrow> (drop_bit (unat output_bit_index) output_bits AND 1, h))"

definition set_pwm :: "'s mmio \<Rightarrow> u32 \<Rightarrow> u32 \<Rightarrow> u32 \<Rightarrow> 's \<Rightarrow> 's" where
  "set_pwm hw pwm counter pulse_width h = DEV_WRITE hw pwm pulse_width (DEV_WRITE hw (pwm + 4) counter h)"

section \<open>Timing\<close>

text \<open>A count of clock cycles of 25 ns that is the least to last \<open>ns\<close> nanoseconds.\<close>

definition least_cycles :: "u16 \<Rightarrow> u16 \<Rightarrow> bool" where
  "least_cycles ns f \<longleftrightarrow> unat ns \<le> 25 * unat f \<and> 25 * unat f < unat ns + 25"

definition speed_mode :: "u32 \<Rightarrow> nat" where
  "speed_mode speed_khz = (if speed_khz \<le> 100 then 0 else if speed_khz \<le> 400 then 1 else 2)"

definition timing :: "u16 \<Rightarrow> u16 \<Rightarrow> u32" where
  "timing high low = push_bit 16 (ucast high) OR ucast low"

lemma clk_period: "1000 * 1000 div ((ucast SYSCLK_FREQ + 999) div 1000) = (25 :: u32)"
  by (simp add: SYSCLK_FREQ_def)

lemma round_up_divide_25:
  fixes ns :: u16
  assumes "ns \<noteq> 0"
  shows "least_cycles ns (round_up_divide (ucast ns) 25)"
proof -
  define k where "k = unat ns"
  have k: "0 < k" "k < 2 ^ 16" using assms unsigned_less [of ns, where 'a = nat] by (simp_all add: k_def unat_gt_0)
  have u: "unat (ucast ns :: u32) = k" by (simp add: k_def)
  then have "(ucast ns :: u32) \<noteq> 0" using k(1) by (metis less_irrefl unat_0)
  then have "unat (ucast ns - 1 :: u32) = k - 1" using u by (simp add: unat_minus_one)
  then have d: "unat ((ucast ns - 1 :: u32) div 25 + 1) = (k - 1) div 25 + 1"
    using k by (simp add: unat_word_ariths unat_div)
  have "unat (round_up_divide (ucast ns) 25) = (k - 1) div 25 + 1"
    unfolding round_up_divide_def Let_def using k d by (simp add: unsigned_ucast_eq take_bit_nat_eq_self)
  moreover have "k \<le> 25 * ((k - 1) div 25 + 1)" "25 * ((k - 1) div 25 + 1) < k + 25" using k(1) by presburger+
  ultimately show ?thesis by (simp add: least_cycles_def k_def)
qed

text \<open>A count raised to exceed another by one still lasts.\<close>

lemma raised_cycles:
  assumes "least_cycles ns f" "unat g < 1000"
  defines "f' \<equiv> (if (ucast f :: u32) < ucast g + 1 then ucast (ucast g + 1 :: u32) else f)"
  shows "unat ns \<le> 25 * unat f' \<and> g < f'"
proof -
  have g: "unat (ucast g + 1 :: u32) = unat g + 1" "unat (ucast (ucast g + 1 :: u32) :: u16) = unat g + 1"
    using assms(2) by (simp_all add: unat_word_ariths unsigned_ucast_eq take_bit_nat_eq_self)
  show ?thesis
    using assms(1) by (cases "unat f < unat g + 1") (simp_all add: f'_def least_cycles_def word_less_nat_alt g)
qed

lemma speed_mode_less: "speed_mode speed_khz < 3"
  by (simp add: speed_mode_def)

lemma tables:
  assumes "k < 3" "xs \<in> {spc_thigh, spc_tlow, spc_thd_sta, spc_tsu_sta, spc_thd_dat, spc_tsu_dat, spc_t_buf, spc_tsu_sto}"
  shows "xs ! k \<noteq> 0 \<and> unat (xs ! k) \<le> 5000"
proof -
  have "k \<in> {0, 1, 2}" using assms(1) by auto
  with assms(2) show ?thesis by (auto simp: spc_defs)
qed

lemma least_cycles_small: "least_cycles ns f \<Longrightarrow> unat ns \<le> 5000 \<Longrightarrow> unat f < 1000"
  by (simp add: least_cycles_def)

section \<open>The words queued\<close>

text \<open>
  What queueing relies on: \<open>fmt\<close> is the sequence of words the format FIFO has been given. Reading the status gives the FIFO no word,
  and a full FIFO gets room after at most \<open>delay\<close> reads.
\<close>

locale i2c_host =
  fixes hw :: "'s mmio" and i2c :: u32 and fmt :: "'s \<Rightarrow> u32 list" and delay :: "'s \<Rightarrow> nat"
  assumes v_status: "DEV_READ hw (i2c + I2C_STATUS) s = (w, s') \<Longrightarrow> fmt s' = fmt s"
    and v_full: "DEV_READ hw (i2c + I2C_STATUS) s = (w, s') \<Longrightarrow> I2C_STATUS_FMTFULL AND w \<noteq> 0 \<Longrightarrow> delay s' < delay s"
    and v_fdata: "fmt (DEV_WRITE hw (i2c + I2C_FDATA) w s) = fmt s @ [w]"
begin

lemma room_returns: "\<exists>s'. wait_fmt_room hw i2c s = Some s' \<and> fmt s' = fmt s"
proof (induction "delay s" arbitrary: s rule: less_induct)
  case less
  obtain w s' where r: "DEV_READ hw (i2c + I2C_STATUS) s = (w, s')" by fastforce
  show ?case
    using less [OF v_full [OF r]] v_status [OF r] by (subst wait_fmt_room.simps) (auto simp: r)
qed

lemma raw_fmt_queues: "\<exists>s'. write_raw_fmt hw i2c w s = Some (0, s') \<and> fmt s' = fmt s @ [w]"
  using room_returns [of s] by (auto simp: write_raw_fmt_def v_fdata)

lemma raw_bytes_queues:
  "n \<le> length data \<Longrightarrow> \<exists>s'. write_raw_bytes hw i2c data n s = Some (0, s') \<and> fmt s' = fmt s @ map ucast (take n data)"
proof (induction n arbitrary: data s)
  case (Suc n)
  then obtain b bs where d: "data = b # bs" by (cases data) auto
  obtain s1 where s1: "wait_fmt_room hw i2c s = Some s1" "fmt s1 = fmt s" using room_returns by blast
  from Suc.IH [of bs "DEV_WRITE hw (i2c + I2C_FDATA) (ucast b) s1"] Suc.prems s1 show ?case by (auto simp: d v_fdata)
qed simp

lemma write_queues:
  assumes "0 < n" "n \<le> length data"
  shows "\<exists>s'. fmt s' = fmt s @ (I2C_FDATA_START OR push_bit 1 (ucast addr7)) # map ucast (take (n - 1) data) @
      [(if skip_stop then 0 else I2C_FDATA_STOP) OR ucast (data ! (n - 1))] \<and>
    i2c_write hw i2c addr7 data n skip_stop s = halt_loop hw i2c 0 s'"
proof -
  obtain s1 where 1: "write_raw_fmt hw i2c (I2C_FDATA_START OR push_bit 1 (ucast addr7)) s = Some (0, s1)"
    "fmt s1 = fmt s @ [I2C_FDATA_START OR push_bit 1 (ucast addr7)]" using raw_fmt_queues by blast
  obtain s2 where 2: "(if n > 1 then write_raw_bytes hw i2c data (n - 1) s1 else Some (0, s1)) = Some (0, s2)"
    "fmt s2 = fmt s1 @ map ucast (take (n - 1) data)"
    using raw_bytes_queues [OF le_trans [OF diff_le_self assms(2)], of 1 s1] assms(1) by (cases "n > 1") auto
  obtain s3 where "write_raw_fmt hw i2c ((if skip_stop then 0 else I2C_FDATA_STOP) OR ucast (data ! (n - 1))) s2 = Some (0, s3)"
    "fmt s3 = fmt s2 @ [(if skip_stop then 0 else I2C_FDATA_STOP) OR ucast (data ! (n - 1))]" using raw_fmt_queues by blast
  with 1 2 assms show ?thesis by (intro exI [of _ s3]) (simp add: i2c_write_def)
qed

end

text \<open>A block whose status registers stand still; its state is the words queued.\<close>

definition still_i2c :: "u32 \<Rightarrow> u32 \<Rightarrow> u32 \<Rightarrow> u32 list mmio" where
  "still_i2c i2c status intr = \<lparr>
     DEV_READ = (\<lambda>a s. if a = i2c + I2C_STATUS then (status, s) else if a = i2c + I2C_INTR_STATE then (intr, s) else (0, s)),
     DEV_WRITE = (\<lambda>a w s. if a = i2c + I2C_FDATA then s @ [w] else s)\<rparr>"

interpretation drained: i2c_host "still_i2c i2c I2C_STATUS_FMTEMPTY intr" i2c "\<lambda>s. s" "\<lambda>_. 0"
  by unfold_locales (auto simp: still_i2c_def I2C_STATUS_FMTFULL_def I2C_STATUS_FMTEMPTY_def)

interpretation busy: i2c_host "still_i2c i2c 0 intr" i2c "\<lambda>s. s" "\<lambda>_. 0"
  by unfold_locales (auto simp: still_i2c_def)

lemma halt_loop_drained: "halt_loop hw i2c rc s = Some r \<Longrightarrow> hw \<noteq> still_i2c i2c I2C_STATUS_FMTEMPTY 0"
proof (rule halt_loop.raw_induct [of "\<lambda>hw i2c rc s r. hw \<noteq> still_i2c i2c I2C_STATUS_FMTEMPTY 0" hw i2c rc s r])
  fix L :: "u32 list mmio \<Rightarrow> u32 \<Rightarrow> int \<Rightarrow> u32 list \<Rightarrow> (int \<times> u32 list) option" and hw i2c rc s r
  assume 1: "\<And>hw i2c rc s r. L hw i2c rc s = Some r \<Longrightarrow> hw \<noteq> still_i2c i2c I2C_STATUS_FMTEMPTY 0"
    "(case DEV_READ hw (i2c + I2C_STATUS) s of (w, h) \<Rightarrow>
       if I2C_STATUS_FMTEMPTY AND w \<noteq> 0
       then case DEV_READ hw (i2c + I2C_INTR_STATE) h of (i, h) \<Rightarrow>
         if I2C_INTR_STATE_CONTROLLER_HALT AND i \<noteq> 0 then Some (- 1, reset_controller_events hw i2c h) else L hw i2c rc h
       else Some (rc, h)) = Some r"
  show "hw \<noteq> still_i2c i2c I2C_STATUS_FMTEMPTY 0"
  proof
    assume h: "hw = still_i2c i2c I2C_STATUS_FMTEMPTY 0"
    then have "L hw i2c rc s = Some r"
      using 1(2) by (simp add: still_i2c_def I2C_STATUS_def I2C_INTR_STATE_def I2C_STATUS_FMTEMPTY_def)
    from 1(1) [OF this] h show False by simp
  qed
qed

section \<open>GPIO\<close>

lemma set_output_bits:
  fixes old :: u32
  assumes "i < 32"
  shows "bit (old AND NOT (push_bit i 1) OR push_bit i (b AND 1)) k \<longleftrightarrow> (if k = i then bit b 0 else bit old k)"
  using assms bit_imp_le_length [of old k] by (auto simp: bit_simps bit_1_iff)

section \<open>Properties\<close>

text \<open>C28. The timing parameters meet the tables: for every speed, \<open>i2c_set_speed\<close> reports the parameters on the console and then writes the
  five timing registers with counts of which each is the least number of 25 ns clock cycles that lasts as long as the table of the mode demands (standard up to 100 kHz, fast up
  to 400 kHz, fast plus above); the low time and the bus free time may be raised further, to exceed the data hold and the start
  setup time by a cycle, so that no counter underflows.\<close>

theorem i2c_timing_meets_tables:
  "\<exists>fields thigh tlow t_f t_r thd_sta tsu_sta thd_dat tsu_dat t_buf tsu_sto.
    map snd fields = 25 # map ucast [thigh, tlow, t_f, t_r, thd_sta, tsu_sta, thd_dat, tsu_dat, t_buf, tsu_sto] \<and>
    i2c_set_speed hw i2c speed_khz h = map_option (\<lambda>h.
      DEV_WRITE hw (i2c + 0x4C) (timing t_buf tsu_sto) (DEV_WRITE hw (i2c + 0x48) (timing thd_dat tsu_dat)
        (DEV_WRITE hw (i2c + 0x44) (timing thd_sta tsu_sta) (DEV_WRITE hw (i2c + 0x40) (timing t_f t_r)
          (DEV_WRITE hw (i2c + 0x3C) (timing tlow thigh) h))))) (print_fields hw fields h) \<and>
    least_cycles (spc_thigh ! speed_mode speed_khz) thigh \<and> least_cycles 12 t_f \<and> least_cycles 120 t_r \<and>
    least_cycles (spc_thd_sta ! speed_mode speed_khz) thd_sta \<and> least_cycles (spc_tsu_sta ! speed_mode speed_khz) tsu_sta \<and>
    least_cycles (spc_thd_dat ! speed_mode speed_khz) thd_dat \<and> least_cycles (spc_tsu_dat ! speed_mode speed_khz) tsu_dat \<and>
    least_cycles (spc_tsu_sto ! speed_mode speed_khz) tsu_sto \<and>
    unat (spc_tlow ! speed_mode speed_khz) \<le> 25 * unat tlow \<and> thd_dat < tlow \<and>
    unat (spc_t_buf ! speed_mode speed_khz) \<le> 25 * unat t_buf \<and> tsu_sta < t_buf"
proof -
  define k where "k = speed_mode speed_khz"
  define cyc where "cyc xs = round_up_divide (ucast (xs ! k)) 25" for xs :: "u16 list"
  define tlow where "tlow = (if (ucast (cyc spc_tlow) :: u32) < ucast (cyc spc_thd_dat) + 1 then ucast (ucast (cyc spc_thd_dat) + 1 :: u32) else cyc spc_tlow)"
  define t_buf where "t_buf = (if (ucast (cyc spc_t_buf) :: u32) < ucast (cyc spc_tsu_sta) + 1 then ucast (ucast (cyc spc_tsu_sta) + 1 :: u32) else cyc spc_t_buf)"
  have mode: "(if speed_khz > 100 then 1 else 0) + (if speed_khz > 400 then 1 else 0 :: nat) = k"
    by (auto simp: k_def speed_mode_def word_le_nat_alt word_less_nat_alt)
  have c: "least_cycles (xs ! k) (cyc xs)" "unat (cyc xs) < 1000"
    if "xs \<in> {spc_thigh, spc_tlow, spc_thd_sta, spc_tsu_sta, spc_thd_dat, spc_tsu_dat, spc_t_buf, spc_tsu_sto}" for xs
    using round_up_divide_25 [of "xs ! k"] tables [OF _ that, of k] speed_mode_less least_cycles_small unfolding cyc_def k_def by blast+
  have "least_cycles 12 (round_up_divide (20 * 3 div 5) 25)" "least_cycles 120 (round_up_divide 120 25)"
    using round_up_divide_25 [of 12] round_up_divide_25 [of 120] by simp_all
  moreover have "unat (spc_tlow ! k) \<le> 25 * unat tlow \<and> cyc spc_thd_dat < tlow"
    unfolding tlow_def by (rule raised_cycles) (simp_all add: c)
  moreover have "unat (spc_t_buf ! k) \<le> 25 * unat t_buf \<and> cyc spc_tsu_sta < t_buf"
    unfolding t_buf_def by (rule raised_cycles) (simp_all add: c)
  moreover have "\<exists>fields. map snd fields = 25 # map ucast [cyc spc_thigh, tlow, round_up_divide (20 * 3 div 5) 25, round_up_divide 120 25,
        cyc spc_thd_sta, cyc spc_tsu_sta, cyc spc_thd_dat, cyc spc_tsu_dat, t_buf, cyc spc_tsu_sto] \<and>
      i2c_set_speed hw i2c speed_khz h = map_option (\<lambda>h.
        DEV_WRITE hw (i2c + 0x4C) (timing t_buf (cyc spc_tsu_sto)) (DEV_WRITE hw (i2c + 0x48) (timing (cyc spc_thd_dat) (cyc spc_tsu_dat))
          (DEV_WRITE hw (i2c + 0x44) (timing (cyc spc_thd_sta) (cyc spc_tsu_sta))
            (DEV_WRITE hw (i2c + 0x40) (timing (round_up_divide (20 * 3 div 5) 25) (round_up_divide 120 25))
              (DEV_WRITE hw (i2c + 0x3C) (timing tlow (cyc spc_thigh)) h))))) (print_fields hw fields h)"
    unfolding i2c_set_speed_def Let_def clk_period mode i2c_reg_defs cyc_def [symmetric] tlow_def [symmetric] t_buf_def [symmetric]
      timing_def [symmetric] map_conv_bind_option o_def
    by (intro exI conjI, rule_tac [2] refl) simp
  ultimately show ?thesis
    using c unfolding k_def [symmetric] by (metis insertCI)
qed

text \<open>\<open>i2c_write\<close> queues the message: over every block that fulfils the contract, for at least one byte, it gives the format
  FIFO, in order and without overrunning it, a start with the address, the bytes, and the last byte with the stop unless the caller keeps the
  bus; then only its final wait is left.\<close>

theorem i2c_write_queues:
  assumes "i2c_host hw i2c fmt delay" "data \<noteq> []" "n = length data"
  shows "\<exists>s'. fmt s' = fmt s @ (0x100 OR push_bit 1 (ucast addr7)) # map ucast (butlast data) @
      [(if skip_stop then 0 else 0x200) OR ucast (last data)] \<and>
    i2c_write hw i2c addr7 data n skip_stop s = halt_loop hw i2c 0 s'"
  using i2c_host.write_queues [OF assms(1), of n data s addr7 skip_stop, unfolded I2C_FDATA_START_def I2C_FDATA_STOP_def] assms(2,3)
  by (simp only: butlast_conv_take last_conv_nth length_greater_0_conv simp_thms order_refl)

theorem i2c_write_queues_witness:
  "\<exists>s'. s' = [0x190, 0x12, 0x234] \<and>
    i2c_write (still_i2c 0x80200000 0 0) 0x80200000 0x48 [0x12, 0x34] 2 False [] = halt_loop (still_i2c 0x80200000 0 0) 0x80200000 0 s'"
  using i2c_write_queues [OF busy.i2c_host_axioms [of "0x80200000" 0], of "[0x12, 0x34]" 2 "[]" "0x48" False] by (simp add: push_bit_eq_mult)

text \<open>C39. The final wait of \<open>i2c_write\<close> has its condition the wrong way round: its comment says it waits while the FIFO is not empty, and it
  waits while the FIFO is empty. A message that was sent and acknowledged completely, so that the FIFO stays empty and nothing halts, makes
  it wait for ever; with the FIFO still full of unsent bytes it reports success at once, although the controller has halted
  because the target does not answer.\<close>

theorem i2c_write_waits_wrong:
  assumes "data \<noteq> []" "n = length data"
  shows "i2c_write (still_i2c i2c I2C_STATUS_FMTEMPTY 0) i2c addr7 data n skip_stop s = None \<and>
    (\<exists>s'. i2c_write (still_i2c i2c 0 I2C_INTR_STATE_CONTROLLER_HALT) i2c addr7 data n skip_stop s = Some (0, s'))"
proof
  obtain s1 where "i2c_write (still_i2c i2c I2C_STATUS_FMTEMPTY 0) i2c addr7 data n skip_stop s =
      halt_loop (still_i2c i2c I2C_STATUS_FMTEMPTY 0) i2c 0 s1"
    using drained.write_queues [of n data s addr7 skip_stop i2c 0] assms by auto
  then show "i2c_write (still_i2c i2c I2C_STATUS_FMTEMPTY 0) i2c addr7 data n skip_stop s = None"
    using halt_loop_drained [of "still_i2c i2c I2C_STATUS_FMTEMPTY 0" i2c 0 s1]
    by (cases "halt_loop (still_i2c i2c I2C_STATUS_FMTEMPTY 0) i2c 0 s1") auto
next
  obtain s2 where 2: "i2c_write (still_i2c i2c 0 I2C_INTR_STATE_CONTROLLER_HALT) i2c addr7 data n skip_stop s =
      halt_loop (still_i2c i2c 0 I2C_INTR_STATE_CONTROLLER_HALT) i2c 0 s2"
    using busy.write_queues [of n data s addr7 skip_stop i2c I2C_INTR_STATE_CONTROLLER_HALT] assms by auto
  have "halt_loop (still_i2c i2c 0 I2C_INTR_STATE_CONTROLLER_HALT) i2c 0 s2 = Some (0, s2)"
    by (subst halt_loop.simps) (simp add: still_i2c_def)
  with 2 show "\<exists>s'. i2c_write (still_i2c i2c 0 I2C_INTR_STATE_CONTROLLER_HALT) i2c addr7 data n skip_stop s = Some (0, s')" by auto
qed

theorem i2c_write_waits_wrong_witness:
  "i2c_write (still_i2c 0x80200000 I2C_STATUS_FMTEMPTY 0) 0x80200000 0x48 [0x01] 1 False [] = None \<and>
   (\<exists>s'. i2c_write (still_i2c 0x80200000 0 I2C_INTR_STATE_CONTROLLER_HALT) 0x80200000 0x48 [0x01] 1 False [] = Some (0, s'))"
  using i2c_write_waits_wrong [of "[0x01]" 1 "0x80200000" "0x48" False "[]"] by simp

end
