(* ===== verification/Hal.thy ===== *)
theory Hal
  imports Legacy_Spi Timer
begin

unbundle bit_operations_syntax

text \<open>
  The hardware abstraction layer of the older software stack (\<open>sw/legacy/hal\<close>): the template of register fields (\<open>mmio/mmio.hh\<close>) and the
  classes \<open>Spi\<close>, \<open>Lcd\<close>, \<open>Timer\<close>, \<open>CountDown\<close>, \<open>Uart\<close>, \<open>Gpio\<close> and \<open>Pwm\<close>, on the fields they use of the generated register lists. A
  \<open>Register\<close> is its address and its cached word; a field is its offset and its width in bits, the arguments of the template. \<open>size_t\<close> has 32
  bits. The two halves of the time are fetched in the order in which the text names them. \<open>None\<close> is a loop that never ends
  or an access outside an array.
\<close>

section \<open>Registers and fields\<close>

type_synonym field = "nat \<times> nat"

definition bf_mask :: "field \<Rightarrow> u32" where
  "bf_mask f = (case f of (off, bits) \<Rightarrow> if bits = 32 then - 1 else push_bit off (push_bit bits 1 - 1))"

definition bf_max :: "field \<Rightarrow> u32" where
  "bf_max f = push_bit (snd f) 1 - 1"

definition bf_clear :: "field \<Rightarrow> u32 \<Rightarrow> u32" where
  "bf_clear f w = w AND NOT (bf_mask f)"

definition bf_write :: "field \<Rightarrow> u32 \<Rightarrow> u32 \<Rightarrow> u32" where
  "bf_write f v w = bf_clear f w OR (push_bit (fst f) v AND bf_mask f)"

definition bf_set :: "field \<Rightarrow> u32 \<Rightarrow> u32" where
  "bf_set f w = w OR push_bit (fst f) 1"

definition bf_reset :: "field \<Rightarrow> u32 \<Rightarrow> u32" where
  "bf_reset f w = bf_clear f w"

definition bf_toggle :: "field \<Rightarrow> u32 \<Rightarrow> u32" where
  "bf_toggle f w = w XOR push_bit (fst f) 1"

definition bf_bit_mask :: "field \<Rightarrow> u32 \<Rightarrow> nat \<Rightarrow> u32 \<Rightarrow> u32" where
  "bf_bit_mask f v offset w =
    (let w = w AND NOT (push_bit (fst f + offset) 1 AND bf_mask f) in w OR (push_bit (fst f + offset) v AND bf_mask f))"

definition bf_bit :: "field \<Rightarrow> bool \<Rightarrow> u32 \<Rightarrow> u32" where
  "bf_bit f b w = w OR push_bit (fst f) (of_bool b)"

definition bf_is_set :: "field \<Rightarrow> u32 \<Rightarrow> bool" where
  "bf_is_set f w \<longleftrightarrow> w AND bf_mask f = bf_mask f"

definition bf_get :: "field \<Rightarrow> u32 \<Rightarrow> u32" where
  "bf_get f w = drop_bit (fst f) (w AND bf_mask f)"

record Register =
  r_addr :: u32
  r_cache :: u32

definition reg_at :: "u32 \<Rightarrow> Register" where
  "reg_at a = \<lparr>r_addr = a, r_cache = 0\<rparr>"

definition reg_commit :: "'s mmio \<Rightarrow> Register \<Rightarrow> 's \<Rightarrow> 's" where
  "reg_commit hw r h = DEV_WRITE hw (r_addr r) (r_cache r) h"

definition reg_fetch :: "'s mmio \<Rightarrow> Register \<Rightarrow> 's \<Rightarrow> Register \<times> 's" where
  "reg_fetch hw r h = (case DEV_READ hw (r_addr r) h of (w, h) \<Rightarrow> (r\<lparr>r_cache := w\<rparr>, h))"

abbreviation on_cache :: "(u32 \<Rightarrow> u32) \<Rightarrow> Register \<Rightarrow> Register" where
  "on_cache f r \<equiv> r\<lparr>r_cache := f (r_cache r)\<rparr>"

section \<open>SPI\<close>

definition spi_cpol :: field where "spi_cpol = (31, 1)"
definition spi_cpha :: field where "spi_cpha = (30, 1)"
definition spi_msb_first :: field where "spi_msb_first = (29, 1)"
definition spi_half_clk_period :: field where "spi_half_clk_period = (16, 13)"
definition spi_sw_reset :: field where "spi_sw_reset = (31, 1)"
definition spi_rx_enable :: field where "spi_rx_enable = (3, 1)"
definition spi_tx_enable :: field where "spi_tx_enable = (2, 1)"
definition spi_rx_clear :: field where "spi_rx_clear = (1, 1)"
definition spi_tx_clear :: field where "spi_tx_clear = (0, 1)"
definition spi_idle :: field where "spi_idle = (18, 1)"
definition spi_rx_fifo_level :: field where "spi_rx_fifo_level = (8, 8)"
definition spi_tx_fifo_level :: field where "spi_tx_fifo_level = (0, 8)"
definition spi_byte_count :: field where "spi_byte_count = (0, 11)"
definition spi_rx_data :: field where "spi_rx_data = (0, 8)"
definition spi_tx_data :: field where "spi_tx_data = (0, 8)"
definition spi_cs :: field where "spi_cs = (0, 5)"

lemmas spi_fields = spi_cpol_def spi_cpha_def spi_msb_first_def spi_half_clk_period_def spi_sw_reset_def spi_rx_enable_def
  spi_tx_enable_def spi_rx_clear_def spi_tx_clear_def spi_idle_def spi_rx_fifo_level_def spi_tx_fifo_level_def spi_byte_count_def
  spi_rx_data_def spi_tx_data_def spi_cs_def

definition hal_spi_new :: "'s mmio \<Rightarrow> u32 \<Rightarrow> bool \<Rightarrow> bool \<Rightarrow> bool \<Rightarrow> u16 \<Rightarrow> 's \<Rightarrow> 's" where
  "hal_spi_new hw base clock_polarity clock_phase msb clock_divider h =
    (let cf = reg_at (base + 0xc);
         cf = on_cache (bf_bit spi_cpol clock_polarity) cf;
         cf = on_cache (bf_bit spi_cpha clock_phase) cf;
         cf = on_cache (bf_bit spi_msb_first msb) cf;
         cf = on_cache (bf_write spi_half_clk_period (ucast clock_divider)) cf;
         h = reg_commit hw cf h;
         cr = reg_at (base + 0x10);
         cr = on_cache (bf_set spi_tx_clear) cr;
         cr = on_cache (bf_set spi_rx_clear) cr;
         cr = on_cache (bf_set spi_sw_reset) cr
     in reg_commit hw cr h)"

text \<open>\<open>while (available == 0) available = 8 - level\<close>, and the wait for the end of the operation.\<close>

partial_function (option) hal_tx_room :: "'s mmio \<Rightarrow> u32 \<Rightarrow> u32 \<Rightarrow> 's \<Rightarrow> (u32 \<times> 's) option" where
  "hal_tx_room hw base available h =
    (if available = 0
     then case reg_fetch hw (reg_at (base + 0x14)) h of (status, h) \<Rightarrow>
       hal_tx_room hw base (8 - bf_get spi_tx_fifo_level (r_cache status)) h
     else Some (available, h))"

partial_function (option) hal_idle_wait :: "'s mmio \<Rightarrow> u32 \<Rightarrow> 's \<Rightarrow> 's option" where
  "hal_idle_wait hw base h =
    (case reg_fetch hw (reg_at (base + 0x14)) h of (status, h) \<Rightarrow>
     if \<not> bf_is_set spi_idle (r_cache status) then hal_idle_wait hw base h else Some h)"

fun hal_tx_loop :: "'s mmio \<Rightarrow> u32 \<Rightarrow> u8 list \<Rightarrow> nat list \<Rightarrow> u32 \<Rightarrow> 's \<Rightarrow> 's option" where
  "hal_tx_loop hw base array [] available h = Some h"
| "hal_tx_loop hw base array (i # is) available h =
    do { (available, h) \<leftarrow> hal_tx_room hw base available h;
         if i < length array
         then hal_tx_loop hw base array is (available - 1)
           (reg_commit hw (on_cache (bf_write spi_tx_data (ucast (array ! i))) (reg_at (base + 0x20))) h)
         else None }"

definition hal_blocking_write :: "'s mmio \<Rightarrow> u32 \<Rightarrow> u8 list \<Rightarrow> u32 \<Rightarrow> 's \<Rightarrow> (bool \<times> 's) option" where
  "hal_blocking_write hw base array sz h =
    (if sz = 0 then Some (False, h)
     else case reg_fetch hw (reg_at (base + 0x10)) h of (cr, h) \<Rightarrow>
       let h = reg_commit hw (on_cache (bf_set spi_tx_enable) cr) h;
           h = reg_commit hw (on_cache (bf_write spi_byte_count sz) (reg_at (base + 0x18))) h
       in do { h \<leftarrow> hal_tx_loop hw base array [0..<unat sz] 0 h; h \<leftarrow> hal_idle_wait hw base h; Some (True, h) })"

partial_function (option) hal_rx_wait :: "'s mmio \<Rightarrow> u32 \<Rightarrow> 's \<Rightarrow> 's option" where
  "hal_rx_wait hw base h =
    (case reg_fetch hw (reg_at (base + 0x14)) h of (status, h) \<Rightarrow>
     if bf_get spi_rx_fifo_level (r_cache status) > 0 then hal_rx_wait hw base h else Some h)"

fun hal_rx_loop :: "'s mmio \<Rightarrow> u32 \<Rightarrow> nat list \<Rightarrow> u8 list \<Rightarrow> 's \<Rightarrow> (u8 list \<times> 's) option" where
  "hal_rx_loop hw base [] array h = Some (array, h)"
| "hal_rx_loop hw base (i # is) array h =
    do { h \<leftarrow> hal_rx_wait hw base h;
         case reg_fetch hw (reg_at (base + 0x1c)) h of (rx_fifo, h) \<Rightarrow>
         if i < length array then hal_rx_loop hw base is (array[i := ucast (bf_get spi_rx_data (r_cache rx_fifo))]) h else None }"

definition hal_blocking_read :: "'s mmio \<Rightarrow> u32 \<Rightarrow> u8 list \<Rightarrow> u32 \<Rightarrow> 's \<Rightarrow> (bool \<times> u8 list \<times> 's) option" where
  "hal_blocking_read hw base array sz h =
    (if sz = 0 \<or> sz > bf_max spi_byte_count then Some (False, array, h)
     else case reg_fetch hw (reg_at (base + 0x10)) h of (cr, h) \<Rightarrow>
       let h = reg_commit hw (on_cache (bf_set spi_rx_enable) cr) h;
           h = reg_commit hw (on_cache (bf_write spi_byte_count sz) (reg_at (base + 0x18))) h
       in do { (array, h) \<leftarrow> hal_rx_loop hw base [0..<unat sz] array h; Some (True, array, h) })"

definition hal_chip_select_assert :: "'s mmio \<Rightarrow> u32 \<Rightarrow> nat \<Rightarrow> bool \<Rightarrow> bool \<Rightarrow> 's \<Rightarrow> 's" where
  "hal_chip_select_assert hw base CS deassert_others asserted h =
    (case reg_fetch hw (reg_at (base + 0x28)) h of (cs, h) \<Rightarrow>
     let cs = (if deassert_others then on_cache (bf_write spi_cs (bf_max spi_cs)) cs else cs);
         cs = on_cache (bf_bit_mask spi_cs (of_bool (\<not> asserted)) CS) cs
     in reg_commit hw cs h)"

definition hal_lcd_chip_select :: "'s mmio \<Rightarrow> u32 \<Rightarrow> bool \<Rightarrow> 's \<Rightarrow> 's" where
  "hal_lcd_chip_select hw base asserted = hal_chip_select_assert hw base 0 False asserted"

definition hal_lcd_command_assert :: "'s mmio \<Rightarrow> u32 \<Rightarrow> bool \<Rightarrow> 's \<Rightarrow> 's" where
  "hal_lcd_command_assert hw base asserted = hal_chip_select_assert hw base 1 False (\<not> asserted)"

definition hal_lcd_reset :: "'s mmio \<Rightarrow> u32 \<Rightarrow> bool \<Rightarrow> 's \<Rightarrow> 's" where
  "hal_lcd_reset hw base asserted = hal_chip_select_assert hw base 2 False asserted"

section \<open>Timer\<close>

definition timer_value :: field where "timer_value = (0, 32)"

definition hal_timer_new :: "'s mmio \<Rightarrow> u32 \<Rightarrow> 's \<Rightarrow> 's" where
  "hal_timer_new hw base h =
    (let h = reg_commit hw (on_cache (bf_write timer_value (- 1)) (reg_at (base + 0x4004))) h
     in reg_commit hw (on_cache (bf_write timer_value (- 1)) (reg_at (base + 0x4000))) h)"

definition hal_timer_get :: "'s mmio \<Rightarrow> u32 \<Rightarrow> 's \<Rightarrow> u64 \<times> 's" where
  "hal_timer_get hw base h =
    (case reg_fetch hw (reg_at (base + 0xbffc)) h of (mtimeh, h) \<Rightarrow>
     case reg_fetch hw (reg_at (base + 0xbff8)) h of (mtimel, h) \<Rightarrow>
       (push_bit 32 (ucast (bf_get timer_value (r_cache mtimeh))) OR ucast (bf_get timer_value (r_cache mtimel)), h))"

partial_function (option) hal_delay_loop :: "'s mmio \<Rightarrow> u32 \<Rightarrow> u64 \<Rightarrow> 's \<Rightarrow> 's option" where
  "hal_delay_loop hw base timeout h =
    (case hal_timer_get hw base h of (t, h) \<Rightarrow> if timeout > t then hal_delay_loop hw base timeout h else Some h)"

definition hal_timeout :: "'s mmio \<Rightarrow> u32 \<Rightarrow> u32 \<Rightarrow> u64 \<Rightarrow> 's \<Rightarrow> u64 \<times> 's" where
  "hal_timeout hw base clock_hz millis h =
    (case hal_timer_get hw base h of (t, h) \<Rightarrow> (millis * ucast clock_hz div 1000 + t, h))"

definition hal_delay :: "'s mmio \<Rightarrow> u32 \<Rightarrow> u32 \<Rightarrow> u64 \<Rightarrow> 's \<Rightarrow> 's option" where
  "hal_delay hw base clock_hz millis h = (case hal_timeout hw base clock_hz millis h of (timeout, h) \<Rightarrow> hal_delay_loop hw base timeout h)"

definition has_timeout :: "'s mmio \<Rightarrow> u32 \<Rightarrow> u64 \<Rightarrow> 's \<Rightarrow> bool \<times> 's" where
  "has_timeout hw base timeout h = (case hal_timer_get hw base h of (t, h) \<Rightarrow> (timeout < t, h))"

partial_function (option) hal_count_wait :: "'s mmio \<Rightarrow> u32 \<Rightarrow> u64 \<Rightarrow> 's \<Rightarrow> 's option" where
  "hal_count_wait hw base timeout h =
    (case has_timeout hw base timeout h of (over, h) \<Rightarrow> if \<not> over then hal_count_wait hw base timeout h else Some h)"

section \<open>UART, GPIO and PWM\<close>

definition uart_nco :: field where "uart_nco = (16, 16)"
definition uart_tx :: field where "uart_tx = (0, 1)"
definition uart_rx :: field where "uart_rx = (1, 1)"
definition uart_txfull :: field where "uart_txfull = (0, 1)"
definition uart_rdata :: field where "uart_rdata = (0, 8)"
definition uart_wdata :: field where "uart_wdata = (0, 8)"

definition hal_uart_new :: "'s mmio \<Rightarrow> u32 \<Rightarrow> u32 \<Rightarrow> u32 \<Rightarrow> 's \<Rightarrow> 's" where
  "hal_uart_new hw base sys_freq baud h =
    (let nco = ucast (push_bit 20 (ucast baud :: u64) div ucast sys_freq);
         cr = reg_at (base + 0x10);
         cr = on_cache (bf_write uart_nco nco) cr;
         cr = on_cache (bf_set uart_tx) cr;
         cr = on_cache (bf_set uart_rx) cr
     in reg_commit hw cr h)"

definition hal_read_byte :: "'s mmio \<Rightarrow> u32 \<Rightarrow> 's \<Rightarrow> u8 \<times> 's" where
  "hal_read_byte hw base h =
    (case reg_fetch hw (reg_at (base + 0x18)) h of (rdata, h) \<Rightarrow> (ucast (bf_get uart_rdata (r_cache rdata)), h))"

partial_function (option) hal_write_byte :: "'s mmio \<Rightarrow> u32 \<Rightarrow> u8 \<Rightarrow> 's \<Rightarrow> 's option" where
  "hal_write_byte hw base c h =
    (case reg_fetch hw (reg_at (base + 0x14)) h of (status, h) \<Rightarrow>
     if bf_is_set uart_txfull (r_cache status) then hal_write_byte hw base c h
     else Some (reg_commit hw (on_cache (bf_write uart_wdata (ucast c)) (reg_at (base + 0x1c))) h))"

definition gpio_word :: field where "gpio_word = (0, 32)"

definition hal_gpio_write :: "'s mmio \<Rightarrow> u32 \<Rightarrow> u32 \<Rightarrow> 's \<Rightarrow> 's" where
  "hal_gpio_write hw base pins h = reg_commit hw (on_cache (bf_write gpio_word pins) (reg_at base)) h"

definition hal_gpio_read :: "'s mmio \<Rightarrow> u32 \<Rightarrow> 's \<Rightarrow> u32 \<times> 's" where
  "hal_gpio_read hw base h = (case reg_fetch hw (reg_at (base + 0x4)) h of (r, h) \<Rightarrow> (bf_get gpio_word (r_cache r), h))"

definition hal_gpio_read_debounce :: "'s mmio \<Rightarrow> u32 \<Rightarrow> 's \<Rightarrow> u32 \<times> 's" where
  "hal_gpio_read_debounce hw base h = (case reg_fetch hw (reg_at (base + 0x8)) h of (r, h) \<Rightarrow> (bf_get gpio_word (r_cache r), h))"

definition pwm_value :: field where "pwm_value = (0, 8)"

definition hal_pwm_set :: "'s mmio \<Rightarrow> u32 \<Rightarrow> u8 \<Rightarrow> u8 \<Rightarrow> 's \<Rightarrow> 's" where
  "hal_pwm_set hw base counter pulse_width h =
    (let h = reg_commit hw (on_cache (bf_write pwm_value (ucast counter)) (reg_at (base + 0x4))) h
     in reg_commit hw (on_cache (bf_write pwm_value (ucast pulse_width)) (reg_at base)) h)"

section \<open>Fields of a word\<close>

abbreviation field_ok :: "field \<Rightarrow> bool" where
  "field_ok f \<equiv> 0 < snd f \<and> fst f + snd f \<le> 32"

abbreviation disjoint_fields :: "field \<Rightarrow> field \<Rightarrow> bool" where
  "disjoint_fields f g \<equiv> fst f + snd f \<le> fst g \<or> fst g + snd g \<le> fst f"

lemma bf_mask_mask: "field_ok f \<Longrightarrow> bf_mask f = push_bit (fst f) (mask (snd f))"
  by (cases f) (auto simp: bf_mask_def mask_eq_exp_minus_1 push_bit_eq_mult)

lemma bit_bf_mask: "field_ok f \<Longrightarrow> bit (bf_mask f) n \<longleftrightarrow> fst f \<le> n \<and> n < fst f + snd f"
  by (auto simp: bf_mask_mask bit_simps)

lemma bf_get_write: "field_ok f \<Longrightarrow> bf_get f (bf_write f v w) = take_bit (snd f) v"
  by (rule bit_word_eqI) (auto simp: bf_get_def bf_write_def bf_clear_def bit_simps bit_bf_mask)

lemma bf_get_write_other:
  "field_ok f \<Longrightarrow> field_ok g \<Longrightarrow> disjoint_fields f g \<Longrightarrow> bf_get g (bf_write f v w) = bf_get g w"
  by (rule bit_word_eqI) (auto simp: bf_get_def bf_write_def bf_clear_def bit_simps bit_bf_mask)

lemma bf_flag:
  assumes "field_ok f" "snd f = 1"
  shows "bf_is_set f w \<longleftrightarrow> bit w (fst f)"
proof
  assume "bf_is_set f w"
  then have "bit (w AND bf_mask f) (fst f) = bit (bf_mask f) (fst f)" by (simp add: bf_is_set_def)
  then show "bit w (fst f)" using assms by (simp add: bit_simps bit_bf_mask)
next
  assume "bit w (fst f)"
  then have "w AND bf_mask f = bf_mask f"
    by (intro bit_word_eqI) (use assms in \<open>auto simp: bit_simps bit_bf_mask less_Suc_eq le_less\<close>)
  then show "bf_is_set f w" by (simp add: bf_is_set_def)
qed

lemma flag_after:
  assumes "field_ok f" "snd f = 1"
  shows "bf_is_set f (bf_set f w)" "\<not> bf_is_set f (bf_reset f w)" "bf_is_set f (bf_toggle f w) \<longleftrightarrow> \<not> bf_is_set f w"
    "bf_is_set f (bf_bit f b w) \<longleftrightarrow> b \<or> bf_is_set f w"
  using assms by (auto simp: bf_flag bf_set_def bf_reset_def bf_clear_def bf_toggle_def bf_bit_def bit_simps bit_bf_mask)

lemma take_bit_AND: "(0xff :: u32) = mask 8" "(0x7ff :: u32) = mask 11"
  by (simp_all add: mask_eq_exp_minus_1)

lemma bf_eval:
  "bf_get spi_tx_fifo_level w = w AND 0xff" "bf_get spi_rx_fifo_level w = drop_bit 8 w AND 0xff"
  "bf_is_set spi_idle w \<longleftrightarrow> w AND 0x40000 \<noteq> 0" "bf_write spi_tx_data (ucast b) 0 = (ucast (b :: u8) :: u32)"
  "bf_write spi_byte_count n 0 = n AND 0x7ff" "bf_set spi_tx_enable w = w OR 4" "bf_set spi_rx_enable w = w OR 8"
proof -
  have m: "bf_mask spi_tx_fifo_level = mask 8" "bf_mask spi_rx_fifo_level = push_bit 8 (mask 8)" "bf_mask spi_tx_data = mask 8"
    "bf_mask spi_byte_count = mask 11"
    by (simp_all add: bf_mask_mask spi_fields)
  show "bf_get spi_tx_fifo_level w = w AND 0xff" unfolding take_bit_AND by (simp add: bf_get_def m, simp add: spi_fields)
  show "bf_get spi_rx_fifo_level w = drop_bit 8 w AND 0xff"
    unfolding take_bit_AND bf_get_def m by (rule bit_word_eqI) (auto simp: spi_fields bit_simps)
  show "bf_is_set spi_idle w \<longleftrightarrow> w AND 0x40000 \<noteq> 0"
    using bf_flag [of spi_idle w] and_exp_eq_0_iff_not_bit [of w 18] by (simp add: spi_fields)
  show "bf_write spi_tx_data (ucast b) 0 = (ucast b :: u32)"
    unfolding bf_write_def m by (rule bit_word_eqI) (auto simp: bf_clear_def spi_fields bit_simps dest: bit_imp_le_length)
  show "bf_write spi_byte_count n 0 = n AND 0x7ff" unfolding take_bit_AND bf_write_def m by (simp add: bf_clear_def, simp add: spi_fields)
qed (simp_all add: bf_set_def spi_fields)

lemma bf_bit_False: "bf_bit f False w = w"
  by (simp add: bf_bit_def)

section \<open>Writing over the SPI block\<close>

lemma idle_wait:
  "spi_wait_idle hw spi s = Some s' \<Longrightarrow> hal_idle_wait hw (spi_reg spi) s = Some s'"
proof (rule spi_wait_idle.raw_induct [of "\<lambda>hw spi s s'. hal_idle_wait hw (spi_reg spi) s = Some s'" hw spi s s'])
  fix W :: "'s mmio \<Rightarrow> spi \<Rightarrow> 's \<Rightarrow> 's option" and hw spi s s'
  assume 1: "\<And>hw spi s s'. W hw spi s = Some s' \<Longrightarrow> hal_idle_wait hw (spi_reg spi) s = Some s'"
    "(case DEV_READ hw (spi_reg spi + SPI_STATUS) s of (w, h) \<Rightarrow> if w AND 0x40000 = 0 then W hw spi h else Some h) = Some s'"
  show "hal_idle_wait hw (spi_reg spi) s = Some s'"
    using 1(2) by (subst hal_idle_wait.simps)
      (auto simp: reg_fetch_def reg_at_def bf_eval SPI_STATUS_def split: prod.splits if_splits intro: 1(1))
qed

text \<open>The class reads the control register before it sets its bits; what it reads is the two enables.\<close>

locale spi_control_block = spi_block +
  assumes v_control_read: "remaining (view s) = 0 \<Longrightarrow> DEV_READ hw (reg + SPI_CONTROL) s = (w, s') \<Longrightarrow>
      view s' = view s \<and> w AND 3 = 0 \<and> bit w 2 = txe (view s) \<and> bit w 3 = rxe (view s)"
begin

lemma room_returns:
  assumes "sending data b i (view s)" "length (txf (view s)) + unat av \<le> 8"
  shows "\<exists>av' s'. hal_tx_room hw reg av s = Some (av', s') \<and> sending data b i (view s') \<and> length (txf (view s')) + unat av' \<le> 8 \<and> av' \<noteq> 0"
  using assms
proof (induction s arbitrary: av rule: wf_induct_rule [OF wf_measures [of "[\<lambda>s. remaining (view s), delay]"]])
  case (1 s)
  show ?case
  proof (cases "av = 0")
    case False
    with 1 show ?thesis by (subst hal_tx_room.simps) auto
  next
    case True
    obtain w s' where r: "DEV_READ hw (reg + SPI_STATUS) s = (w, s')" by fastforce
    from poll [OF _ r] 1(2) obtain v where v: "steps (view s) v" "blk_status w v" "steps v (view s')"
      "Ex (step (view s)) \<longrightarrow> (s', s) \<in> measures [\<lambda>s. remaining (view s), delay]" by (auto simp: sending_def)
    have l: "sending data b i v" "length (txf v) \<le> 8" "sending data b i (view s')" "length (txf (view s')) \<le> length (txf v)"
      "length (txf v) \<le> length (txf (view s))"
      using sending_steps [OF v(1) 1(2)] sending_steps [OF v(3)] 1(3) by auto
    have av: "unat (8 - (w AND 0xff)) = 8 - length (txf v)"
      using v(2) l(2) by (simp add: unat_sub word_le_nat_alt blk_status_def)
    have step: "hal_tx_room hw reg av s = hal_tx_room hw reg (8 - (w AND 0xff)) s'"
      using True r by (subst hal_tx_room.simps) (simp add: reg_fetch_def reg_at_def bf_eval SPI_STATUS_def)
    show ?thesis
    proof (cases "8 - (w AND 0xff) = 0")
      case False
      then have "hal_tx_room hw reg (8 - (w AND 0xff)) s' = Some (8 - (w AND 0xff), s')" by (subst hal_tx_room.simps) simp
      with step False l(2-4) av show ?thesis by auto
    next
      case True
      then have "txf (view s) \<noteq> []" using av l(5) by auto
      from 1(1) [OF v(4) [rule_format, OF sending_can_step [OF 1(2) this]] l(3), of "8 - (w AND 0xff)"] step l(2,4) av show ?thesis by auto
    qed
  qed
qed

lemma hal_tx_loop_sends:
  assumes "depth = 8" "sending data b i (view s)" "length (txf (view s)) + unat av \<le> 8" "n = length data"
  shows "\<exists>s'. hal_tx_loop hw reg data [i..<n] av s = Some s' \<and> sending data b n (view s')"
  using assms(2-4)
proof (induction "n - i" arbitrary: i av s)
  case 0
  then have "i = n" by (simp add: sending_def)
  with 0 show ?case by simp
next
  case (Suc k)
  then have i: "i < length data" "[i..<n] = i # [Suc i..<n]" by (auto simp: upt_conv_Cons)
  obtain av' s1 where 1: "hal_tx_room hw reg av s = Some (av', s1)"
    "sending data b i (view s1)" "length (txf (view s1)) + unat av' \<le> 8" "av' \<noteq> 0"
    using room_returns [OF Suc.prems(1,2)] by blast
  define s2 where "s2 = DEV_WRITE hw (reg + SPI_TX_FIFO) (ucast (data ! i)) s1"
  obtain v where v: "steps (view s1) v" "steps (blk_push depth (data ! i) v) (view s2)"
    using v_tx [of s1 "ucast (data ! i)"] by (auto simp: s2_def)
  have l: "sending data b i v" "length (txf v) \<le> length (txf (view s1))" using sending_steps [OF v(1) 1(2)] by auto
  have av: "unat (av' - 1) = unat av' - 1" "0 < unat av'" using 1(4) by (simp_all add: unat_minus_one unat_gt_0)
  then have "length (txf v) < depth" using l(2) 1(3) assms(1) by simp
  note p = sending_push [OF l(1) i(1) this]
  have s2: "sending data b (Suc i) (view s2)" "length (txf (view s2)) + unat (av' - 1) \<le> 8"
    using sending_steps [OF v(2) p [THEN conjunct1]] p l(2) 1(3) av by linarith+
  have "hal_tx_loop hw reg data [i..<n] av s = hal_tx_loop hw reg data [Suc i..<n] (av' - 1) s2"
    using 1(1) i by (simp add: s2_def reg_commit_def reg_at_def bf_eval SPI_TX_FIFO_def)
  with Suc.hyps(1) [of "Suc i", OF _ s2 Suc.prems(3)] Suc.hyps(2) show ?case by simp
qed

lemma write_sends:
  assumes "depth = 8" "quiet (view s)" "\<not> rxe (view s)" "unat n = length data" "0 < length data" "length data \<le> 0x7ff"
  shows "\<exists>s'. hal_blocking_write hw reg data n s = Some (True, s') \<and> quiet (view s') \<and> \<not> rxe (view s') \<and>
    bbus (view s') = snd (xfers xf data (bbus (view s)))"
proof -
  obtain w s1 where 1: "DEV_READ hw (reg + SPI_CONTROL) s = (w, s1)" by fastforce
  have r: "remaining (view s) = 0" using assms(2) by (simp add: quiet_def)
  note c = v_control_read [OF r 1]
  define s2 where "s2 = DEV_WRITE hw (reg + SPI_CONTROL) (w OR 4) s1"
  have b4: "bit (4 :: u32) 2" "\<not> bit (4 :: u32) 3" by (simp_all add: bit_numeral_rec)
  have "(w OR 4) AND 3 = 0" using c by (simp add: and.commute [of _ 3] bit.conj_disj_distrib)
  then have 2: "view s2 = (view s)\<lparr>txe := True, rxe := False\<rparr>"
    using v_control [of s1 "w OR 4"] r assms(3) c by (simp add: s2_def bit_or_iff b4)
  define s3 where "s3 = DEV_WRITE hw (reg + SPI_START) n s2"
  have "steps ((view s2)\<lparr>remaining := unat n\<rparr>) (view s3)"
    using v_start [of s2 n] r assms(4,6) by (simp add: s3_def 2)
  moreover have "sending data (bbus (view s)) 0 ((view s2)\<lparr>remaining := unat n\<rparr>)"
    using assms(2,4) by (simp add: sending_def 2 quiet_def blk_ok_def)
  ultimately have 3: "sending data (bbus (view s)) 0 (view s3)" "length (txf (view s3)) + unat (0 :: u32) \<le> 8"
    using sending_steps by (force simp: 2 assms(2) [unfolded quiet_def])+
  obtain s4 where 4: "hal_tx_loop hw reg data [0..<length data] 0 s3 = Some s4" "sending data (bbus (view s)) (length data) (view s4)"
    using hal_tx_loop_sends [OF assms(1) 3 refl] by blast
  obtain s5 where 5: "hal_idle_wait hw reg s4 = Some s5" "quiet (view s5)" "bbus (view s5) = snd (xfers xf data (bbus (view s)))" "\<not> rxe (view s5)"
  proof -
    let ?I = "sending data (bbus (view s)) (length data)" and ?spi = "\<lparr>spi_reg = reg, spi_speed = 0\<rparr>"
    have "\<exists>s'. spi_wait_idle hw ?spi s4 = Some s' \<and> ?I (view s') \<and> remaining (view s') = 0"
    proof (rule wait_idle_returns)
      show "blk_ok depth u" if "?I u" for u using that by (simp add: sending_def)
      show "Ex (step u)" if "?I u" "remaining u \<noteq> 0" for u
        using that by (intro sending_can_step [OF that(1)]) (auto simp: sending_def)
    qed (use sending_step 4(2) in simp_all)
    then obtain s5 where s5: "spi_wait_idle hw ?spi s4 = Some s5" "?I (view s5)" "remaining (view s5) = 0" by blast
    have "hal_idle_wait hw reg s4 = Some s5" using idle_wait [OF s5(1)] by simp
    with s5(2,3) show ?thesis by (intro that [of s5]) (auto simp: sending_def quiet_def)
  qed
  have "n AND 0x7ff = n"
    unfolding take_bit_AND by (simp only: take_bit_eq_mask [symmetric]) (rule word_unat_eq_iff [THEN iffD2], simp only: unsigned_take_bit_eq, use assms(4,6) in \<open>simp add: take_bit_eq_mod\<close>)
  moreover have "n \<noteq> 0" using assms(4,5) by auto
  ultimately show ?thesis using 1 4(1) 5
    by (simp add: hal_blocking_write_def reg_fetch_def reg_commit_def reg_at_def bf_eval assms(4) s2_def s3_def spi_reg_defs)
qed

end

section \<open>A block whose control register can be read\<close>

definition control_word :: "'b blk \<Rightarrow> u32" where
  "control_word v = (if txe v then 4 else 0) OR (if rxe v then 8 else 0)"

definition readable_block :: "u32 \<Rightarrow> nat \<Rightarrow> (u8 \<Rightarrow> 'b \<Rightarrow> u8 \<times> 'b) \<Rightarrow> u8 \<Rightarrow> 'b blk mmio" where
  "readable_block reg depth xf idle = (lazy_block reg depth xf idle)
     \<lparr>DEV_READ := (\<lambda>a v. if a = reg + SPI_CONTROL then (control_word v, v) else DEV_READ (lazy_block reg depth xf idle) a v)\<rparr>"

lemma readable_eval:
  "DEV_READ (readable_block reg depth xf idle) (reg + SPI_STATUS) = DEV_READ (lazy_block reg depth xf idle) (reg + SPI_STATUS)"
  "DEV_READ (readable_block reg depth xf idle) (reg + SPI_RX_FIFO) = DEV_READ (lazy_block reg depth xf idle) (reg + SPI_RX_FIFO)"
  "DEV_READ (readable_block reg depth xf idle) (reg + SPI_CONTROL) = (\<lambda>v. (control_word v, v))"
  "DEV_WRITE (readable_block reg depth xf idle) = DEV_WRITE (lazy_block reg depth xf idle)"
  by (simp_all add: readable_block_def spi_reg_defs fun_eq_iff)

interpretation readable8: spi_control_block "readable_block reg 8 xf idle" reg "\<lambda>v. v" "\<lambda>_. 0" 8 xf idle
proof unfold_locales
  fix s s' w
  assume "DEV_READ (readable_block reg 8 xf idle) (reg + SPI_CONTROL) s = (w, s')"
  then show "s' = s \<and> w AND 3 = 0 \<and> bit w 2 = txe s \<and> bit w 3 = rxe s"
    by (cases "txe s"; cases "rxe s") (auto simp: readable_eval control_word_def bit_numeral_rec)
qed (use fifo8.v_status [where 'a = 'a] fifo8.v_progress [where 'a = 'a] fifo8.v_tx [where 'a = 'a] fifo8.v_rx [where 'a = 'a] fifo8.v_control [where 'a = 'a] fifo8.v_start [where 'a = 'a] in \<open>(simp_all only: readable_eval)\<close>)

definition receives :: "'b blk \<Rightarrow> bool" where
  "receives v \<longleftrightarrow> rxe v \<and> \<not> txe v \<and> txf v = [] \<and> length (rxf v) \<le> 8 \<and> (rxf v = [] \<longrightarrow> remaining v \<noteq> 0)"

lemma receives_next:
  assumes "receives v"
  shows "receives (blk_next 8 xf idle v) \<and> bf_get spi_rx_fifo_level (status_word (blk_next 8 xf idle v)) > 0"
proof -
  define u where "u = blk_next 8 xf idle v"
  have u: "receives u" "rxf u \<noteq> []" using assms by (auto simp: receives_def blk_next_def Let_def u_def)
  then have "unat (drop_bit 8 (status_word u) AND 0xff) = length (rxf u)"
    using status_word [of u] by (auto simp: receives_def blk_status_def)
  then have "bf_get spi_rx_fifo_level (status_word u) \<noteq> 0" using u(2) unfolding bf_eval by auto
  then show ?thesis using u(1) by (simp add: u_def word_gt_0)
qed

lemma rx_wait_stuck:
  fixes xf :: "u8 \<Rightarrow> 'b \<Rightarrow> u8 \<times> 'b"
  shows "hal_rx_wait hw base v = Some v' \<Longrightarrow> hw = readable_block base 8 xf idle \<longrightarrow> \<not> receives v"
proof (rule hal_rx_wait.raw_induct [of "\<lambda>hw base v v'. hw = readable_block base 8 xf idle \<longrightarrow> \<not> receives v" hw base v v'])
  fix W :: "'b blk mmio \<Rightarrow> u32 \<Rightarrow> 'b blk \<Rightarrow> 'b blk option" and hw base v v'
  assume 1: "\<And>hw base v v'. W hw base v = Some v' \<Longrightarrow> hw = readable_block base 8 xf idle \<longrightarrow> \<not> receives v"
    "(case reg_fetch hw (reg_at (base + 0x14)) v of (status, h) \<Rightarrow>
      if bf_get spi_rx_fifo_level (r_cache status) > 0 then W hw base h else Some h) = Some v'"
  show "hw = readable_block base 8 xf idle \<longrightarrow> \<not> receives v"
  proof (intro impI notI)
    assume h: "hw = readable_block base 8 xf idle" "receives v"
    have "DEV_READ hw (base + 0x14) v = (status_word (blk_next 8 xf idle v), blk_next 8 xf idle v)"
      by (simp add: h(1) readable_block_def lazy_block_def spi_reg_defs)
    then have "W hw base (blk_next 8 xf idle v) = Some v'"
      using 1(2) receives_next [OF h(2), of xf idle] by (simp add: reg_fetch_def reg_at_def)
    from 1(1) [OF this] h receives_next [OF h(2), of xf idle] show False by simp
  qed
qed

section \<open>The time\<close>

text \<open>The time is exact when its upper half does not change during the call.\<close>

lemma hal_timer_get_exact:
  assumes "timer_counts hw now" "hal_timer_get hw TIMER_BASE h = (t, h')" "now h' < 2 ^ 64" "now h div 2 ^ 32 = now h' div 2 ^ 32"
  shows "now h \<le> unat t \<and> unat t \<le> now h'"
proof -
  obtain a h1 where 1: "DEV_READ hw (TIMER_BASE + TIMER_MTIMEH_REG) h = (of_nat (a div 2 ^ 32), h1)" "now h \<le> a" "a \<le> now h1"
    using assms(1) unfolding timer_counts_def by blast
  obtain b h2 where 2: "DEV_READ hw (TIMER_BASE + TIMER_MTIME_REG) h1 = (of_nat b, h2)" "now h1 \<le> b" "b \<le> now h2"
    using assms(1) unfolding timer_counts_def by blast
  have g: "bf_get timer_value w = w" for w by (simp add: bf_get_def bf_mask_def timer_value_def)
  have r: "t = push_bit 32 (ucast (of_nat (a div 2 ^ 32) :: u32)) OR ucast (of_nat b :: u32)" "h' = h2"
    using assms(2) 1(1) 2(1) by (simp_all add: hal_timer_get_def reg_fetch_def reg_at_def g TIMER_MTIMEH_REG_def TIMER_MTIME_REG_def)
  have "a \<le> b" using 1(3) 2(2) by simp
  then have "a div 2 ^ 32 = b div 2 ^ 32"
    using div_le_mono [of "now h" a "2 ^ 32"] div_le_mono [of a b "2 ^ 32"] div_le_mono [of b "now h'" "2 ^ 32"] assms(4) 1(2) 2(3) r(2) by simp
  then have "unat t = b" using unat_join [of b] 1 2 assms(3) r by simp
  then show ?thesis using 1 2 r(2) by simp
qed

text \<open>The clock that ticks with every access, when the call begins with the last tick before the upper half changes.\<close>

lemma hal_timer_get_tears:
  assumes "k < 2 ^ 32"
  shows "hal_timer_get demo_clock TIMER_BASE (k * 2 ^ 32 + (2 ^ 32 - 1)) = (push_bit 32 (of_nat k), (k + 1) * 2 ^ 32 + 1)"
proof -
  have g: "bf_get timer_value w = w" for w by (simp add: bf_get_def bf_mask_def timer_value_def)
  have d: "(k * 2 ^ 32 + (2 ^ 32 - 1)) div 2 ^ 32 = k" by simp
  have "k * 2 ^ 32 + (2 ^ 32 - 1) + 1 = (k + 1) * 2 ^ 32" by simp
  then have z: "of_nat (k * 2 ^ 32 + (2 ^ 32 - 1) + 1) = (0 :: u32)" by (simp only: word_of_nat_eq_0_iff) simp
  have u: "(ucast (of_nat k :: u32) :: u64) = of_nat k" using assms by (simp add: unsigned_of_nat take_bit_nat_eq_self)
  have h: "DEV_READ demo_clock (TIMER_BASE + 0xbffc) n = (of_nat (n div 2 ^ 32), n + 1)" for n
    by (simp add: demo_clock_def TIMER_MTIMEH_REG_def)
  have l: "DEV_READ demo_clock (TIMER_BASE + 0xbff8) n = (of_nat n, n + 1)" for n
    by (simp add: demo_clock_def TIMER_MTIMEH_REG_def TIMER_BASE_def)
  show ?thesis
    unfolding hal_timer_get_def reg_fetch_def reg_at_def by (simp only: h l prod.case d z g u Register.select_convs Register.update_convs) simp
qed

lemma hal_timer_get_demo:
  assumes "n + 1 < 2 ^ 64" "(n + 1) div 2 ^ 32 = n div 2 ^ 32"
  shows "hal_timer_get demo_clock TIMER_BASE n = (of_nat (n + 1), n + 2)"
proof -
  have c: "timer_counts demo_clock (\<lambda>n. n)"
    by (auto simp: timer_counts_def demo_clock_def TIMER_BASE_def TIMER_MTIME_REG_def TIMER_MTIMEH_REG_def)
  have g: "bf_get timer_value w = w" for w by (simp add: bf_get_def bf_mask_def timer_value_def)
  have e: "hal_timer_get demo_clock TIMER_BASE n = (push_bit 32 (ucast (of_nat (n div 2 ^ 32) :: u32)) OR ucast (of_nat (n + 1) :: u32), n + 2)"
    by (simp add: hal_timer_get_def reg_fetch_def reg_at_def g demo_clock_def TIMER_BASE_def TIMER_MTIMEH_REG_def)
  have "unat (push_bit 32 (ucast (of_nat (n div 2 ^ 32) :: u32)) OR ucast (of_nat (n + 1) :: u32) :: u64) = n + 1"
    using unat_join [OF assms(1)] unfolding assms(2) .
  from arg_cong [where f = "of_nat :: nat \<Rightarrow> u64", OF this] show ?thesis unfolding e by simp
qed

text \<open>A delay that begins at the last tick before the upper half of the time changes ends after four accesses, however long it is meant to be
  (up to 2^32 ticks, 143 seconds at 30 MHz): the class reads the two halves once each, and the time it starts from lies a
  whole upper unit in the past. \<open>timer_read\<close> of the same stack reads the upper half again.\<close>

theorem hal_delay_ends_early:
  assumes "k + 1 < 2 ^ 32" "unat (millis * ucast clock_hz div 1000) \<le> 2 ^ 32"
  shows "hal_delay demo_clock TIMER_BASE clock_hz millis (k * 2 ^ 32 + (2 ^ 32 - 1)) = Some (k * 2 ^ 32 + (2 ^ 32 - 1) + 4)"
proof -
  define d where "d = millis * ucast clock_hz div 1000"
  have k: "k < 2 ^ 32" using assms(1) by simp
  define n where "n = (k + 1) * 2 ^ 32 + 1"
  have n: "n + 1 < 2 ^ 64" using assms(1) unfolding n_def by simp
  have e: "(n + 1) div 2 ^ 32 = n div 2 ^ 32" by (simp add: n_def)
  have u: "unat (of_nat (n + 1) :: u64) = n + 1" using n by (simp only: unat_of_nat) simp
  have p: "unat (push_bit 32 (of_nat k) :: u64) = k * 2 ^ 32" 
  proof -
    have "push_bit 32 (of_nat k) = (of_nat (k * 2 ^ 32) :: u64)" by (simp add: push_bit_eq_mult)
    then show ?thesis using k by (simp only: unat_of_nat) simp
  qed
  have "unat (d + push_bit 32 (of_nat k)) = unat d + k * 2 ^ 32"
    using assms n unfolding n_def by (subst unat_plus_simple [THEN iffD1]) (simp_all add: no_olen_add_nat p d_def)
  then have "\<not> of_nat (n + 1) < d + push_bit 32 (of_nat k)" using assms(2) by (simp only: word_less_nat_alt u) (simp add: n_def d_def)
  then have "hal_delay_loop demo_clock TIMER_BASE (d + push_bit 32 (of_nat k)) n = Some (n + 2)"
    by (subst hal_delay_loop.simps) (simp add: hal_timer_get_demo [OF n e])
  then show ?thesis
    by (simp only: hal_delay_def hal_timeout_def hal_timer_get_tears [OF k] n_def [symmetric] d_def [symmetric] prod.case) (simp add: n_def)
qed

theorem hal_delay_ends_early_witness: "hal_delay demo_clock TIMER_BASE 30000000 60000 0xFFFFFFFF = Some 0x100000003"
  using hal_delay_ends_early [of 0 60000 30000000] by simp

section \<open>Properties of the SPI class\<close>

text \<open>C36. \<open>Spi::blocking_write\<close> works on the FIFOs of eight bytes that the driver of the C library overruns: over every SPI block with such
  FIFOs that fulfils the contract, that is idle with both FIFOs empty, and whose reception is disabled, a call with 1 to 0x7ff bytes
  returns true, the bus has seen exactly the bytes of the array, and the block is idle again, with reception still disabled. The
  conditions matter: \<open>blocking_read\<close> leaves reception enabled, and the write does not disable it; an empty array
  and one longer than the block can count are not covered.\<close>

theorem hal_write_sends:
  assumes "spi_control_block hw base view delay 8 xf idle" "quiet (view s)" "\<not> rxe (view s)" "unat n = length data" "0 < length data"
    "length data \<le> 0x7ff"
  shows "\<exists>s'. hal_blocking_write hw base data n s = Some (True, s') \<and> quiet (view s') \<and> \<not> rxe (view s') \<and>
    bbus (view s') = snd (xfers xf data (bbus (view s)))"
  by (rule spi_control_block.write_sends [OF assms(1) refl assms(2-6)])

theorem hal_write_sends_witness:
  "\<exists>s'. hal_blocking_write (readable_block 0x80302000 8 echo_bus 0) 0x80302000 [1, 2, 3, 4, 5, 6, 7, 8, 9, 10] 10
      \<lparr>bbus = 0, txe = False, rxe = False, remaining = 0, txf = [], rxf = []\<rparr> = Some (True, s') \<and> quiet s' \<and> \<not> rxe s' \<and> bbus s' = 10"
  using hal_write_sends [of "readable_block 0x80302000 8 echo_bus 0" "0x80302000" "\<lambda>v. v" "\<lambda>_. 0" echo_bus 0
      "\<lparr>bbus = 0, txe = False, rxe = False, remaining = 0, txf = [], rxf = []\<rparr>" 10 "[1, 2, 3, 4, 5, 6, 7, 8, 9, 10]"]
    readable8.spi_control_block_axioms [of "0x80302000" echo_bus 0]
  by (simp add: quiet_def echo_bus_def)

text \<open>C38. \<open>Spi::blocking_read\<close> waits while the receive FIFO holds bytes, not while it is empty: as soon as the first byte has arrived
  it never returns, because nothing takes the byte out.\<close>

theorem hal_read_waits_wrong:
  assumes "quiet v" "\<not> txe v" "0 < unat n" "unat n \<le> 0x7ff"
  shows "hal_blocking_read (readable_block base 8 xf idle) base buf n v = None"
proof -
  define hw where "hw = readable_block base 8 xf idle"
  have n: "n AND 0x7ff = n"
    unfolding take_bit_AND by (simp only: take_bit_eq_mask [symmetric]) (rule word_unat_eq_iff [THEN iffD2], simp only: unsigned_take_bit_eq, use assms(4) in \<open>simp add: take_bit_eq_mod\<close>)
  define v1 where "v1 = v\<lparr>rxe := True\<rparr>"
  have q: "remaining v = 0" "txf v = []" "rxf v = []" using assms(1) by (simp_all add: quiet_def)
  have 1: "DEV_WRITE hw (base + 0x10) (control_word v OR 8) v = v1"
    using q assms(2) by (cases "rxe v") (simp_all add: hw_def readable_eval lazy_block_def spi_reg_defs control_word_def bit_numeral_rec v1_def)
  have 2: "DEV_WRITE hw (base + 0x18) n v1 = v1\<lparr>remaining := unat n\<rparr>"
    using q by (simp add: hw_def readable_eval lazy_block_def spi_reg_defs v1_def n)
  have "receives (v1\<lparr>remaining := unat n\<rparr>)" using assms q by (simp add: receives_def v1_def)
  then have w: "hal_rx_wait hw base (v1\<lparr>remaining := unat n\<rparr>) = None"
    using rx_wait_stuck [of hw base] unfolding hw_def by (cases "hal_rx_wait (readable_block base 8 xf idle) base (v1\<lparr>remaining := unat n\<rparr>)") auto
  have i: "[0..<unat n] = 0 # [1..<unat n]" using assms(3) by (simp add: upt_conv_Cons)
  have "n \<noteq> 0" using assms(3) by auto
  moreover have "\<not> n > bf_max spi_byte_count" using assms(4) by (simp add: bf_max_def spi_fields word_less_nat_alt)
  moreover have "DEV_READ hw (base + 0x10) v = (control_word v, v)" by (simp add: hw_def readable_block_def SPI_CONTROL_def)
  ultimately show ?thesis unfolding hw_def [symmetric]
    by (simp add: hal_blocking_read_def reg_fetch_def reg_commit_def reg_at_def bf_eval n 1 2 w i)
qed

theorem hal_read_waits_wrong_witness:
  "hal_blocking_read (readable_block 0x80302000 8 echo_bus 0) 0x80302000 [0, 0, 0] 3
     \<lparr>bbus = 0, txe = False, rxe = False, remaining = 0, txf = [], rxf = []\<rparr> = None"
  by (rule hal_read_waits_wrong) (simp_all add: quiet_def)

text \<open>Writing a field of a register and reading it back gives the value, cut to the width of the field, and every field that does
  not overlap it keeps its value.\<close>

theorem bitfield_roundtrip:
  assumes "field_ok f" "field_ok g" "disjoint_fields f g"
  shows "bf_get f (bf_write f v w) = take_bit (snd f) v \<and> bf_get g (bf_write f v w) = bf_get g w"
  using assms by (simp add: bf_get_write bf_get_write_other)

theorem bitfield_roundtrip_witness:
  "bf_get spi_half_clk_period (bf_write spi_half_clk_period 5 0xe0000000) = 5 \<and>
   bf_get spi_cpol (bf_write spi_half_clk_period 5 0xe0000000) = 1"
  using bitfield_roundtrip [of spi_half_clk_period spi_cpol 5 "0xe0000000"] by (simp add: spi_fields bf_get_def bf_mask_def)

end
