(* ===== verification/Usb_Utils.thy ===== *)
theory Usb_Utils
  imports Prelude "HOL-Library.Monad_Syntax"
begin

unbundle bit_operations_syntax

text \<open>
  Class \<open>UsbdevUtils\<close> (\<open>sw/cheri/common/usbdev-utils.hh\<close>): the default control pipe and the packet buffers of a USB device, and the macros
  that lay out descriptors. The driver class \<open>OpenTitanUsbdev\<close> is not part of the sources: the record \<open>usbdev_ops\<close> has its
  constants and an argument for every member function the class calls, over an unspecified machine state. A pointer to a callback
  function and its handle is a constructor: none, the function of the class itself for endpoint zero, or the \<open>n\<close>-th of the
  client, which the record \<open>usb_client\<close> supplies. \<open>None\<close> is a call that does not return: a failed assertion, an access outside an array, or
  a loop that never ends.
\<close>

declare push_bit_of_1 [simp del]

section \<open>The driver class and the client\<close>

record packet_info =
  buffer_id :: u8
  endpoint_id :: u8
  is_setup :: bool
  packet_size :: u16

record 's usbdev_ops =
  BufferCount :: nat
  MaxEndpoints :: nat
  MaxPacketLength :: nat
  ud_init :: "u64 \<Rightarrow> 's \<Rightarrow> int \<times> u64 \<times> 's"
  ud_connect :: "'s \<Rightarrow> int \<times> 's"
  ud_disconnect :: "'s \<Rightarrow> 's"
  ud_connected :: "'s \<Rightarrow> bool \<times> 's"
  ud_supply_buffers :: "u64 \<Rightarrow> 's \<Rightarrow> u64 \<times> 's"
  ud_out_endpoint_configure :: "u8 \<Rightarrow> bool \<Rightarrow> bool \<Rightarrow> bool \<Rightarrow> 's \<Rightarrow> int \<times> 's"
  ud_in_endpoint_configure :: "u8 \<Rightarrow> bool \<Rightarrow> bool \<Rightarrow> 's \<Rightarrow> int \<times> 's"
  ud_endpoint_stalling_set :: "u8 \<Rightarrow> bool \<Rightarrow> 's \<Rightarrow> int \<times> 's"
  ud_device_address_set :: "u8 \<Rightarrow> 's \<Rightarrow> int \<times> 's"
  ud_packet_send :: "u8 \<Rightarrow> u8 \<Rightarrow> u8 list \<Rightarrow> u8 \<Rightarrow> 's \<Rightarrow> 's"
  ud_retrieve_collected_packet :: "'s \<Rightarrow> int \<times> u8 \<times> u8 \<times> 's"
  ud_packet_take :: "'s \<Rightarrow> packet_info option \<times> 's"
  ud_packet_data_get :: "packet_info \<Rightarrow> u8 list \<Rightarrow> 's \<Rightarrow> u8 list \<times> 's"

datatype recv_callback = Recv_null | ep0_recv_cb | Recv_client nat

datatype done_callback = Done_null | ep0_sent_cb | Done_client nat

section \<open>The object\<close>

datatype DeviceState = Device_Powered | Device_Addressed | Device_Configured

datatype CtrlState = Ctrl_Setup | Ctrl_StatusSetAddr | Ctrl_StatusGetDesc | Ctrl_StatusSetConfig

record UsbdevUtils =
  devAddr :: u8
  devState :: DeviceState
  ctrlState :: CtrlState
  devDscr :: "u8 list"
  devLen :: u8
  cfgDscr :: "u8 list"
  cfgLen :: u16
  testDscr :: "u8 list"
  testLen :: u8
  bufAvail :: u64
  epInCtx :: "done_callback list"
  epOutCtx :: "recv_callback list"
  packetData :: "u8 list"

record 's usb_client =
  client_recv :: "nat \<Rightarrow> u8 \<Rightarrow> bool \<Rightarrow> u8 list \<Rightarrow> u16 \<Rightarrow> UsbdevUtils \<Rightarrow> 's \<Rightarrow> (UsbdevUtils \<times> 's) option"
  client_done :: "nat \<Rightarrow> int \<Rightarrow> UsbdevUtils \<Rightarrow> 's \<Rightarrow> (UsbdevUtils \<times> 's) option"

section \<open>Buffers\<close>

function buf_alloc_loop :: "'s usbdev_ops \<Rightarrow> nat \<Rightarrow> UsbdevUtils \<Rightarrow> u8 option \<times> UsbdevUtils" where
  "buf_alloc_loop dev bufNum u =
    (if bufNum < BufferCount dev
     then if 1 AND drop_bit bufNum (bufAvail u) \<noteq> 0
          then (Some (of_nat bufNum), u\<lparr>bufAvail := bufAvail u AND NOT (push_bit bufNum 1)\<rparr>)
          else buf_alloc_loop dev (bufNum + 1) u
     else (None, u))"
  by pat_completeness auto
termination
  by (relation "measure (\<lambda>(dev, bufNum, u). BufferCount dev - bufNum)") auto

declare buf_alloc_loop.simps [simp del]

definition buf_alloc :: "'s usbdev_ops \<Rightarrow> UsbdevUtils \<Rightarrow> u8 option \<times> UsbdevUtils" where
  "buf_alloc dev u = (if bufAvail u \<noteq> 0 then buf_alloc_loop dev 0 u else (None, u))"

definition buf_release :: "'s usbdev_ops \<Rightarrow> u8 \<Rightarrow> UsbdevUtils \<Rightarrow> 's \<Rightarrow> UsbdevUtils \<times> 's" where
  "buf_release dev bufNum u s =
    (case ud_supply_buffers dev (bufAvail u OR push_bit (unat bufNum) 1) s of (avail, s) \<Rightarrow> (u\<lparr>bufAvail := avail\<rparr>, s))"

definition supply_buffers :: "'s usbdev_ops \<Rightarrow> UsbdevUtils \<Rightarrow> 's \<Rightarrow> UsbdevUtils \<times> 's" where
  "supply_buffers dev u s =
    (case ud_supply_buffers dev (bufAvail u) s of (avail, s) \<Rightarrow> (u\<lparr>bufAvail := avail\<rparr>, s))"

section \<open>Endpoints\<close>

definition setup_out_endpoint ::
  "'s usbdev_ops \<Rightarrow> u8 \<Rightarrow> bool \<Rightarrow> bool \<Rightarrow> bool \<Rightarrow> recv_callback \<Rightarrow> UsbdevUtils \<Rightarrow> 's \<Rightarrow> (bool \<times> UsbdevUtils \<times> 's) option" where
  "setup_out_endpoint dev ep enabled setup isochronous callback u s =
    (case ud_out_endpoint_configure dev ep enabled setup isochronous s of (rc, s) \<Rightarrow>
     if rc \<noteq> 0 then Some (False, u, s)
     else if unat ep < length (epOutCtx u) then Some (True, u\<lparr>epOutCtx := (epOutCtx u)[unat ep := callback]\<rparr>, s)
     else None)"

definition setup_in_endpoint ::
  "'s usbdev_ops \<Rightarrow> u8 \<Rightarrow> bool \<Rightarrow> bool \<Rightarrow> done_callback \<Rightarrow> UsbdevUtils \<Rightarrow> 's \<Rightarrow> (bool \<times> UsbdevUtils \<times> 's) option" where
  "setup_in_endpoint dev ep enabled isochronous callback u s =
    (case ud_in_endpoint_configure dev ep enabled isochronous s of (rc, s) \<Rightarrow>
     if rc \<noteq> 0 then Some (False, u, s)
     else if unat ep < length (epInCtx u) then Some (True, u\<lparr>epInCtx := (epInCtx u)[unat ep := callback]\<rparr>, s)
     else None)"

definition send_data :: "'s usbdev_ops \<Rightarrow> u8 \<Rightarrow> u8 list \<Rightarrow> u16 \<Rightarrow> UsbdevUtils \<Rightarrow> 's \<Rightarrow> (bool \<times> UsbdevUtils \<times> 's) option" where
  "send_data dev ep data pktLen u s =
    (if unat pktLen \<le> MaxPacketLength dev
     then case buf_alloc dev u of
            (None, u) \<Rightarrow> Some (False, u, s)
          | (Some bufNum, u) \<Rightarrow> Some (True, u, ud_packet_send dev bufNum ep data (ucast pktLen) s)
     else None)"

definition connect :: "'s usbdev_ops \<Rightarrow> UsbdevUtils \<Rightarrow> 's \<Rightarrow> bool \<times> UsbdevUtils \<times> 's" where
  "connect dev u s =
    (case ud_connect dev s of (rc, s) \<Rightarrow> if rc \<noteq> 0 then (False, u, s) else (True, u\<lparr>devState := Device_Powered\<rparr>, s))"

definition disconnect :: "'s usbdev_ops \<Rightarrow> UsbdevUtils \<Rightarrow> 's \<Rightarrow> UsbdevUtils \<times> 's" where
  "disconnect dev u s = (u\<lparr>devState := Device_Powered\<rparr>, ud_disconnect dev s)"

definition connected :: "'s usbdev_ops \<Rightarrow> UsbdevUtils \<Rightarrow> 's \<Rightarrow> bool \<times> 's" where
  "connected dev u s = ud_connected dev s"

definition configured :: "UsbdevUtils \<Rightarrow> bool" where
  "configured u \<longleftrightarrow> devState u = Device_Configured"

section \<open>The default control pipe\<close>

definition kUsbSetupReqSetAddress :: u8 where "kUsbSetupReqSetAddress = 5"
definition kUsbSetupReqGetDescriptor :: u8 where "kUsbSetupReqGetDescriptor = 6"
definition kUsbSetupReqSetConfiguration :: u8 where "kUsbSetupReqSetConfiguration = 9"
definition kUsbDescTypeDevice :: u8 where "kUsbDescTypeDevice = 1"
definition kUsbDescTypeConfiguration :: u8 where "kUsbDescTypeConfiguration = 2"
definition kVendorSetupReqTestConfig :: u8 where "kVendorSetupReqTestConfig = 0x7C"

text \<open>\<open>if (wLen > n) wLen = n\<close>, and a reply: send the packet, go to the next state, do not release the buffer.\<close>

definition limited :: "u16 \<Rightarrow> u16 \<Rightarrow> u16" where
  "limited wLen n = (if wLen > n then n else wLen)"

definition ep0_reply ::
  "'s usbdev_ops \<Rightarrow> u8 \<Rightarrow> u8 list \<Rightarrow> u16 \<Rightarrow> CtrlState \<Rightarrow> UsbdevUtils \<Rightarrow> 's \<Rightarrow> (bool \<times> UsbdevUtils \<times> 's) option" where
  "ep0_reply dev bufNum dscr wLen next u s =
    Some (False, u\<lparr>ctrlState := next\<rparr>, ud_packet_send dev bufNum 0 dscr (ucast wLen) s)"

definition ep0_request :: "'s usbdev_ops \<Rightarrow> u8 \<Rightarrow> u8 list \<Rightarrow> UsbdevUtils \<Rightarrow> 's \<Rightarrow> (bool \<times> UsbdevUtils \<times> 's) option" where
  "ep0_request dev bufNum data u s =
    (let wValue = le16 (data ! 2) (data ! 3);
         wLen = le16 (data ! 6) (data ! 7)
     in if data ! 1 = kUsbSetupReqGetDescriptor then
          if data ! 3 = kUsbDescTypeDevice then
            ep0_reply dev bufNum (devDscr u) (limited wLen (ucast (devLen u))) Ctrl_StatusGetDesc u s
          else if data ! 3 = kUsbDescTypeConfiguration then
            ep0_reply dev bufNum (cfgDscr u) (limited wLen (cfgLen u)) Ctrl_StatusGetDesc u s
          else case ud_endpoint_stalling_set dev 0 True s of (rc, s) \<Rightarrow> if rc \<noteq> 0 then None else Some (True, u, s)
        else if data ! 1 = kUsbSetupReqSetAddress then
          ep0_reply dev bufNum [] 0 Ctrl_StatusSetAddr (u\<lparr>devAddr := ucast wValue\<rparr>) s
        else if data ! 1 = kUsbSetupReqSetConfiguration then
          ep0_reply dev bufNum [] 0 Ctrl_StatusSetConfig u s
        else if data ! 1 = kVendorSetupReqTestConfig then
          ep0_reply dev bufNum (testDscr u) (limited wLen (ucast (testLen u))) Ctrl_StatusGetDesc u s
        else Some (True, u\<lparr>ctrlState := Ctrl_Setup\<rparr>, s))"

definition ep0_recv ::
  "'s usbdev_ops \<Rightarrow> u8 \<Rightarrow> bool \<Rightarrow> u8 list \<Rightarrow> u16 \<Rightarrow> UsbdevUtils \<Rightarrow> 's \<Rightarrow> (UsbdevUtils \<times> 's) option" where
  "ep0_recv dev ep setup data pktLen u s =
    (case buf_alloc dev u of
       (None, u) \<Rightarrow> None
     | (Some bufNum, u) \<Rightarrow> do {
         (release, u, s) \<leftarrow>
           (case ctrlState u of
              Ctrl_Setup \<Rightarrow> if setup \<and> pktLen = 8 then ep0_request dev bufNum data u s else Some (True, u, s)
            | _ \<Rightarrow> Some (True, u\<lparr>ctrlState := Ctrl_Setup\<rparr>, s));
         Some (if release then buf_release dev bufNum u s else (u, s)) })"

definition ep0_sent :: "'s usbdev_ops \<Rightarrow> int \<Rightarrow> UsbdevUtils \<Rightarrow> 's \<Rightarrow> (UsbdevUtils \<times> 's) option" where
  "ep0_sent dev rc u s =
    (case ctrlState u of
       Ctrl_StatusSetAddr \<Rightarrow>
         (case ud_device_address_set dev (devAddr u) s of (rc, s) \<Rightarrow>
          if rc \<noteq> 0 then None else Some (u\<lparr>devState := Device_Addressed, ctrlState := Ctrl_Setup\<rparr>, s))
     | Ctrl_StatusSetConfig \<Rightarrow> Some (u\<lparr>devState := Device_Configured, ctrlState := Ctrl_Setup\<rparr>, s)
     | _ \<Rightarrow> Some (u\<lparr>ctrlState := Ctrl_Setup\<rparr>, s))"

section \<open>Servicing the device\<close>

definition call_done :: "'s usbdev_ops \<Rightarrow> 's usb_client \<Rightarrow> u8 \<Rightarrow> int \<Rightarrow> UsbdevUtils \<Rightarrow> 's \<Rightarrow> (UsbdevUtils \<times> 's) option" where
  "call_done dev cl ep rc u s =
    (if unat ep < length (epInCtx u)
     then case epInCtx u ! unat ep of
            Done_null \<Rightarrow> Some (u, s)
          | ep0_sent_cb \<Rightarrow> ep0_sent dev rc u s
          | Done_client n \<Rightarrow> client_done cl n rc u s
     else None)"

definition call_recv ::
  "'s usbdev_ops \<Rightarrow> 's usb_client \<Rightarrow> packet_info \<Rightarrow> UsbdevUtils \<Rightarrow> 's \<Rightarrow> (UsbdevUtils \<times> 's) option" where
  "call_recv dev cl info u s =
    (let ep = endpoint_id info in
     if unat ep < length (epOutCtx u)
     then case epOutCtx u ! unat ep of
            Recv_null \<Rightarrow> Some (u, s)
          | ep0_recv_cb \<Rightarrow> ep0_recv dev ep (is_setup info) (packetData u) (packet_size info) u s
          | Recv_client n \<Rightarrow> client_recv cl n ep (is_setup info) (packetData u) (packet_size info) u s
     else None)"

partial_function (option) retrieve_loop :: "'s usbdev_ops \<Rightarrow> 's usb_client \<Rightarrow> UsbdevUtils \<Rightarrow> 's \<Rightarrow> (UsbdevUtils \<times> 's) option" where
  "retrieve_loop dev cl u s =
    (case ud_retrieve_collected_packet dev s of (rc, ep, bufNum, s) \<Rightarrow>
     if rc \<noteq> 0 then Some (u, s)
     else case buf_release dev bufNum u s of (u, s) \<Rightarrow>
       do { (u, s) \<leftarrow> call_done dev cl ep rc u s; retrieve_loop dev cl u s })"

partial_function (option) take_loop :: "'s usbdev_ops \<Rightarrow> 's usb_client \<Rightarrow> UsbdevUtils \<Rightarrow> 's \<Rightarrow> (UsbdevUtils \<times> 's) option" where
  "take_loop dev cl u s =
    (case ud_packet_take dev s of
       (None, s) \<Rightarrow> Some (u, s)
     | (Some info, s) \<Rightarrow>
         (case ud_packet_data_get dev info (packetData u) s of (data, s) \<Rightarrow>
          case buf_release dev (buffer_id info) (u\<lparr>packetData := data\<rparr>) s of (u, s) \<Rightarrow>
            do { (u, s) \<leftarrow> call_recv dev cl info u s; take_loop dev cl u s }))"

definition service :: "'s usbdev_ops \<Rightarrow> 's usb_client \<Rightarrow> UsbdevUtils \<Rightarrow> 's \<Rightarrow> (UsbdevUtils \<times> 's) option" where
  "service dev cl u s =
    do { (u, s) \<leftarrow> retrieve_loop dev cl u s; case supply_buffers dev u s of (u, s) \<Rightarrow> take_loop dev cl u s }"

section \<open>Construction\<close>

text \<open>The members the constructor does not set are those of \<open>raw\<close>.\<close>

definition UsbdevUtils_new ::
  "'s usbdev_ops \<Rightarrow> u8 list \<Rightarrow> u8 \<Rightarrow> u8 list \<Rightarrow> u16 \<Rightarrow> u8 list \<Rightarrow> u8 \<Rightarrow> UsbdevUtils \<Rightarrow> 's \<Rightarrow> (UsbdevUtils \<times> 's) option" where
  "UsbdevUtils_new dev device device_len cfg cfg_len test test_len raw s =
    (let u = raw\<lparr>devAddr := 0, devState := Device_Powered, ctrlState := Ctrl_Setup, devDscr := device, devLen := device_len,
               cfgDscr := cfg, cfgLen := cfg_len, testDscr := test, testLen := test_len,
               bufAvail := push_bit (BufferCount dev) 1 - 1\<rparr>
     in case ud_init dev (bufAvail u) s of (rc, avail, s) \<Rightarrow>
        let u = u\<lparr>bufAvail := avail\<rparr> in
        if rc \<noteq> 0 then None
        else do {
          (ok, u, s) \<leftarrow> setup_out_endpoint dev 0 True True False ep0_recv_cb u s;
          (ok, u, s) \<leftarrow> (if ok then setup_in_endpoint dev 0 True False ep0_sent_cb u s else Some (ok, u, s));
          if \<not> ok then None
          else Some (supply_buffers dev
            (u\<lparr>epOutCtx := take 1 (epOutCtx u) @ replicate (MaxEndpoints dev - 1) Recv_null,
               epInCtx := take 1 (epInCtx u) @ replicate (MaxEndpoints dev - 1) Done_null\<rparr>) s) })"

section \<open>Descriptors\<close>

definition USB_CFG_DSCR_HEAD :: "u16 \<Rightarrow> u8 \<Rightarrow> u8 list" where
  "USB_CFG_DSCR_HEAD total_len nint = [9, 2, ucast (total_len AND 0xff), ucast (drop_bit 8 total_len), nint, 1, 0, 0xC0, 50]"

definition VEND_INTERFACE_DSCR :: "u8 \<Rightarrow> u8 \<Rightarrow> u8 \<Rightarrow> u8 \<Rightarrow> u8 list" where
  "VEND_INTERFACE_DSCR inum nep subclass protocol = [9, 4, inum, 0, nep, 0xff, subclass, protocol, 0]"

definition USB_EP_DSCR :: "u8 \<Rightarrow> u8 \<Rightarrow> u8 \<Rightarrow> u16 \<Rightarrow> u8 \<Rightarrow> u8 list" where
  "USB_EP_DSCR inn ep attr maxsize interval =
    [7, 5, ep OR (push_bit 7 inn AND 0x80), attr, ucast (maxsize AND 0xff), ucast (drop_bit 8 maxsize), interval]"

definition USB_BULK_EP_DSCR :: "u8 \<Rightarrow> u8 \<Rightarrow> u16 \<Rightarrow> u8 \<Rightarrow> u8 list" where
  "USB_BULK_EP_DSCR inn ep maxsize interval =
    [7, 5, ep OR (push_bit 7 inn AND 0x80), 0x02, ucast (maxsize AND 0xff), ucast (drop_bit 8 maxsize), interval]"

definition USB_TESTUTILS_TEST_DSCR :: "u16 \<Rightarrow> u8 \<Rightarrow> u8 \<Rightarrow> u8 \<Rightarrow> u8 \<Rightarrow> u8 list" where
  "USB_TESTUTILS_TEST_DSCR num arg0 arg1 arg2 arg3 =
    [0x7e, 0x57, 0xc0, 0xf1, 0x10, 0, ucast (num AND 0xff), ucast (drop_bit 8 num), arg0, arg1, arg2, arg3, 0x1f, 0x0c, 0x75, 0xe7]"

end
