(* ===== verification/Usb_Utils_Steps.thy ===== *)
theory Usb_Utils_Steps
  imports Usb_Utils
begin

unbundle bit_operations_syntax

text \<open>
  Class \<open>UsbdevUtils\<close> over the laws of the driver class it calls. What a device shows is a \<open>usb_view\<close>: the buffers it holds for
  reception and for sending, the packet that waits at each endpoint, the packets that have arrived and have been collected, and a log
  of what it was told to do. An endpoint has one register for the packet to send (\<open>configin\<close>): a second one replaces a first that has
  not been collected, and a SETUP cancels it. The buffer of such a packet never comes back, it is lost. The
  locale \<open>usb_port\<close> states what each call does to the view, \<open>usb_callbacks\<close> what the callbacks of a client keep.
\<close>

section \<open>What a device shows\<close>

datatype usb_event = Sent u8 "u8 list" | Stalled u8 bool | Address u8

record usb_view =
  v_rx :: "nat set"
  v_tx :: "nat set"
  v_waiting :: "nat \<Rightarrow> nat option"
  v_lost :: "nat set"
  v_arrived :: "(packet_info \<times> u8 list) list"
  v_collected :: "(u8 \<times> u8) list"
  v_log :: "usb_event list"

text \<open>
  The packets that have arrived are in buffers of the device, belong to an endpoint and fit; reception holds at most \<open>limit\<close> buffers.
  A buffer given for sending waits at one endpoint, has been collected, or is lost. An endpoint whose packet has been collected has no
  other waiting until software has been told.
\<close>

definition arrival_ok :: "'s usbdev_ops \<Rightarrow> usb_view \<Rightarrow> packet_info \<times> u8 list \<Rightarrow> bool" where
  "arrival_ok dev v p \<longleftrightarrow> unat (buffer_id (fst p)) \<in> v_rx v \<and> unat (endpoint_id (fst p)) < MaxEndpoints dev \<and>
     length (snd p) = unat (packet_size (fst p)) \<and> length (snd p) \<le> MaxPacketLength dev"

definition collected_bufs :: "usb_view \<Rightarrow> nat set" where
  "collected_bufs v = (\<lambda>p. unat (snd p)) ` set (v_collected v)"

definition told :: "u8 \<Rightarrow> usb_view \<Rightarrow> bool" where
  "told ep v \<longleftrightarrow> ep \<notin> fst ` set (v_collected v)"

definition sane_tx :: "'s usbdev_ops \<Rightarrow> usb_view \<Rightarrow> bool" where
  "sane_tx dev v \<longleftrightarrow> v_tx v = v_lost v \<union> ran (v_waiting v) \<union> collected_bufs v \<and>
     v_lost v \<inter> ran (v_waiting v) = {} \<and> v_lost v \<inter> collected_bufs v = {} \<and> ran (v_waiting v) \<inter> collected_bufs v = {} \<and>
     inj_on (v_waiting v) (dom (v_waiting v)) \<and> dom (v_waiting v) \<subseteq> {..<MaxEndpoints dev} \<and>
     distinct (map snd (v_collected v)) \<and>
     (\<forall>p \<in> set (v_collected v). unat (fst p) < MaxEndpoints dev \<and> v_waiting v (unat (fst p)) = None)"

definition sane :: "'s usbdev_ops \<Rightarrow> nat \<Rightarrow> usb_view \<Rightarrow> bool" where
  "sane dev limit v \<longleftrightarrow> finite (v_rx v) \<and> card (v_rx v) \<le> limit \<and> v_rx v \<subseteq> {..<256} \<and>
     distinct (map (buffer_id \<circ> fst) (v_arrived v)) \<and> list_all (arrival_ok dev v) (v_arrived v) \<and> sane_tx dev v"

text \<open>A packet is given to an endpoint: the one that waited there is lost.\<close>

definition v_sends :: "nat \<Rightarrow> nat \<Rightarrow> usb_view \<Rightarrow> usb_view" where
  "v_sends ep b v = v\<lparr>v_tx := insert b (v_tx v), v_waiting := (v_waiting v)(ep \<mapsto> b),
     v_lost := v_lost v \<union> set_option (v_waiting v ep)\<rparr>"

lemma v_sends_sel [simp]:
  "v_rx (v_sends ep b v) = v_rx v" "v_tx (v_sends ep b v) = insert b (v_tx v)" "v_waiting (v_sends ep b v) = (v_waiting v)(ep \<mapsto> b)"
  "v_arrived (v_sends ep b v) = v_arrived v" "v_collected (v_sends ep b v) = v_collected v" "v_log (v_sends ep b v) = v_log v"
  "v_lost (v_sends ep b v) = v_lost v \<union> set_option (v_waiting v ep)"
  by (simp_all add: v_sends_def)

text \<open>
  The laws of a device. \<open>p_send\<close> is for an endpoint of which software has been told everything: the collected packet of another would
  be overwritten in the same register.
\<close>

locale usb_port =
  fixes dev :: "'s usbdev_ops" and shows_view :: "'s \<Rightarrow> usb_view \<Rightarrow> bool" and limit :: nat
  assumes counts: "0 < MaxEndpoints dev" "BufferCount dev < 64" "8 \<le> MaxPacketLength dev" "MaxPacketLength dev < 256" "limit < BufferCount dev"
    and p_unique: "shows_view s v \<Longrightarrow> shows_view s w \<Longrightarrow> w = v"
    and p_sane: "shows_view s v \<Longrightarrow> sane dev limit v"
    and p_init: "\<exists>avail' s'. ud_init dev avail s = (0, avail', s') \<and> (\<forall>n. bit avail' n \<longrightarrow> bit avail n) \<and>
      shows_view s' \<lparr>v_rx = {n. bit avail n \<and> \<not> bit avail' n}, v_tx = {}, v_waiting = Map.empty, v_lost = {},
        v_arrived = [], v_collected = [], v_log = []\<rparr>"
    and p_supply: "shows_view s v \<Longrightarrow> ud_supply_buffers dev avail s = (avail', s') \<Longrightarrow> (\<forall>n. bit avail' n \<longrightarrow> bit avail n) \<and>
      (avail \<noteq> 0 \<longrightarrow> 0 < limit \<longrightarrow> v_rx v \<union> {n. bit avail n \<and> \<not> bit avail' n} \<noteq> {}) \<and>
      shows_view s' (v\<lparr>v_rx := v_rx v \<union> {n. bit avail n \<and> \<not> bit avail' n}\<rparr>)"
    and p_connect: "shows_view s v \<Longrightarrow> shows_view (snd (ud_connect dev s)) v"
    and p_disconnect: "shows_view s v \<Longrightarrow> shows_view (ud_disconnect dev s) v"
    and p_connected: "shows_view s v \<Longrightarrow> shows_view (snd (ud_connected dev s)) v"
    and p_out: "shows_view s v \<Longrightarrow> shows_view (snd (ud_out_endpoint_configure dev ep en st iso' s)) v"
    and p_in: "shows_view s v \<Longrightarrow> shows_view (snd (ud_in_endpoint_configure dev ep en iso' s)) v"
    and p_configure: "unat ep < MaxEndpoints dev \<Longrightarrow> fst (ud_out_endpoint_configure dev ep en st iso' s) = 0 \<and>
      fst (ud_in_endpoint_configure dev ep en iso' s) = 0"
    and p_stall: "shows_view s v \<Longrightarrow> \<exists>s'. ud_endpoint_stalling_set dev 0 on s = (0, s') \<and> shows_view s' (v\<lparr>v_log := v_log v @ [Stalled 0 on]\<rparr>)"
    and p_address: "shows_view s v \<Longrightarrow> ud_device_address_set dev a s = (rc, s') \<Longrightarrow>
      shows_view s' (if rc = 0 then v\<lparr>v_log := v_log v @ [Address a]\<rparr> else v)"
    and p_address_ok: "shows_view s v \<Longrightarrow> unat a < 128 \<Longrightarrow> fst (ud_device_address_set dev a s) = 0"
    and p_send: "shows_view s v \<Longrightarrow> unat ep < MaxEndpoints dev \<Longrightarrow> unat sz \<le> MaxPacketLength dev \<Longrightarrow> unat sz \<le> length data \<Longrightarrow>
      unat b < BufferCount dev \<Longrightarrow> unat b \<notin> v_rx v \<union> v_tx v \<Longrightarrow> told ep v \<Longrightarrow>
      shows_view (ud_packet_send dev b ep data sz s)
        ((v_sends (unat ep) (unat b) v)\<lparr>v_log := v_log v @ [Sent ep (take (unat sz) data)]\<rparr>)"
    and p_none_collected: "shows_view s v \<Longrightarrow> v_collected v = [] \<Longrightarrow> ud_retrieve_collected_packet dev s = (rc, ep, b, s') \<Longrightarrow>
      rc \<noteq> 0 \<and> shows_view s' v"
    and p_collected: "shows_view s v \<Longrightarrow> v_collected v = (ep, b) # r \<Longrightarrow>
      \<exists>s'. ud_retrieve_collected_packet dev s = (0, ep, b, s') \<and> shows_view s' (v\<lparr>v_collected := r, v_tx := v_tx v - {unat b}\<rparr>)"
    and p_none_arrived: "shows_view s v \<Longrightarrow> v_arrived v = [] \<Longrightarrow> \<exists>s'. ud_packet_take dev s = (None, s') \<and> shows_view s' v"
    and p_arrived: "shows_view s v \<Longrightarrow> v_arrived v = (info, data) # rest \<Longrightarrow>
      \<exists>s' s''. ud_packet_take dev s = (Some info, s') \<and> ud_packet_data_get dev info buf s' = (blit buf 0 data, s'') \<and>
        shows_view s'' (v\<lparr>v_arrived := rest, v_rx := v_rx v - {unat (buffer_id info)}\<rparr>)"

section \<open>Ownership of the buffers\<close>

text \<open>
  Every buffer is in exactly one place: in the hand of a running operation (\<open>held\<close>), in the bitmap of available buffers, with the
  device for reception, or with the device for sending, waiting at an endpoint, collected, or lost.
\<close>

definition parted :: "'s usbdev_ops \<Rightarrow> nat set \<Rightarrow> UsbdevUtils \<Rightarrow> usb_view \<Rightarrow> bool" where
  "parted dev held u v \<longleftrightarrow> (\<forall>n. of_bool (n \<in> held) + of_bool (bit (bufAvail u) n) + of_bool (n \<in> v_rx v) + of_bool (n \<in> v_tx v) =
     (of_bool (n < BufferCount dev) :: nat))"

text \<open>What the constructor establishes of the members: arrays of the right size, descriptors that are there and fit into a packet.\<close>

definition descriptor_ok :: "'s usbdev_ops \<Rightarrow> u8 list \<Rightarrow> nat \<Rightarrow> bool" where
  "descriptor_ok dev dscr n \<longleftrightarrow> n \<le> length dscr \<and> n \<le> MaxPacketLength dev"

definition wf_utils :: "'s usbdev_ops \<Rightarrow> UsbdevUtils \<Rightarrow> bool" where
  "wf_utils dev u \<longleftrightarrow> length (epInCtx u) = MaxEndpoints dev \<and> length (epOutCtx u) = MaxEndpoints dev \<and>
     length (packetData u) = MaxPacketLength dev \<and> descriptor_ok dev (devDscr u) (unat (devLen u)) \<and>
     descriptor_ok dev (cfgDscr u) (unat (cfgLen u)) \<and> descriptor_ok dev (testDscr u) (unat (testLen u))"

lemma partedD:
  assumes "parted dev held u v"
  shows "n \<in> held \<Longrightarrow> \<not> bit (bufAvail u) n \<and> n \<notin> v_rx v \<and> n \<notin> v_tx v \<and> n < BufferCount dev"
    "bit (bufAvail u) n \<Longrightarrow> n \<notin> held \<and> n \<notin> v_rx v \<and> n \<notin> v_tx v \<and> n < BufferCount dev"
    "n \<in> v_rx v \<Longrightarrow> n \<notin> held \<and> \<not> bit (bufAvail u) n \<and> n \<notin> v_tx v \<and> n < BufferCount dev"
    "n \<in> v_tx v \<Longrightarrow> n \<notin> held \<and> \<not> bit (bufAvail u) n \<and> n \<notin> v_rx v \<and> n < BufferCount dev"
    "n < BufferCount dev \<Longrightarrow> n \<in> held \<or> bit (bufAvail u) n \<or> n \<in> v_rx v \<or> n \<in> v_tx v"
  using assms [unfolded parted_def, rule_format, of n] by (simp_all add: of_bool_def split: if_splits)

lemma partedI:
  assumes "parted dev held u v"
    and "\<And>n. of_bool (n \<in> held') + of_bool (bit (bufAvail u') n) + of_bool (n \<in> v_rx v') + of_bool (n \<in> v_tx v') =
      (of_bool (n \<in> held) + of_bool (bit (bufAvail u) n) + of_bool (n \<in> v_rx v) + of_bool (n \<in> v_tx v) :: nat)"
  shows "parted dev held' u' v'"
  using assms by (simp add: parted_def)

lemma parted_cong:
  "parted dev held u v \<Longrightarrow> bufAvail u' = bufAvail u \<Longrightarrow> v_rx v' = v_rx v \<Longrightarrow> v_tx v' = v_tx v \<Longrightarrow> parted dev held u' v'"
  by (simp add: parted_def)

lemma parted_counts:
  assumes "parted dev {} u v" "bufAvail u = 0" "finite (v_rx v)"
  shows "BufferCount dev \<le> card (v_rx v) + card (v_tx v)"
proof -
  have "{..<BufferCount dev} \<subseteq> v_rx v \<union> v_tx v" using partedD(5) [OF assms(1)] assms(2) by auto
  moreover have "finite (v_tx v)" using partedD(4) [OF assms(1)] by (meson bounded_nat_set_is_finite)
  ultimately have "card {..<BufferCount dev} \<le> card (v_rx v \<union> v_tx v)" using assms(3) by (meson card_mono finite_UnI)
  also have "\<dots> \<le> card (v_rx v) + card (v_tx v)" by (rule card_Un_le)
  finally show ?thesis by simp
qed

text \<open>The same with the places of a buffer for sending told apart.\<close>

definition accounted :: "'s usbdev_ops \<Rightarrow> UsbdevUtils \<Rightarrow> usb_view \<Rightarrow> bool" where
  "accounted dev u v \<longleftrightarrow> (\<forall>n. of_bool (bit (bufAvail u) n) + of_bool (n \<in> v_rx v) + of_bool (n \<in> ran (v_waiting v)) +
     of_bool (n \<in> collected_bufs v) + of_bool (n \<in> v_lost v) = (of_bool (n < BufferCount dev) :: nat))"

lemma parted_accounted:
  assumes "parted dev {} u v" "sane_tx dev v"
  shows "accounted dev u v"
  unfolding accounted_def
proof
  fix n
  have "(of_bool (n \<in> v_tx v) :: nat) = of_bool (n \<in> ran (v_waiting v)) + of_bool (n \<in> collected_bufs v) + of_bool (n \<in> v_lost v)"
    using assms(2) by (auto simp: sane_tx_def of_bool_def)
  then show "of_bool (bit (bufAvail u) n) + of_bool (n \<in> v_rx v) + of_bool (n \<in> ran (v_waiting v)) +
     of_bool (n \<in> collected_bufs v) + of_bool (n \<in> v_lost v) = (of_bool (n < BufferCount dev) :: nat)"
    using assms(1) [unfolded parted_def, rule_format, of n] by simp
qed

lemma sane_tx_none:
  assumes "sane_tx dev v" "v_tx v = {}"
  shows "v_waiting v ep = None" "v_lost v = {}"
proof -
  have "ran (v_waiting v) = {}" "v_lost v = {}" using assms by (auto simp: sane_tx_def)
  then show "v_waiting v ep = None" "v_lost v = {}" by (cases "v_waiting v ep"; auto simp: ran_def)+
qed

lemma told_none [simp]: "v_collected v = [] \<Longrightarrow> told ep v"
  by (simp add: told_def)

lemma and_1_drop_bit: "1 AND drop_bit n (w :: u64) \<noteq> 0 \<longleftrightarrow> bit w n"
  unfolding one_and_eq bit_iff_odd_drop_bit by (simp only: even_iff_mod_2_eq_zero)

lemma buf_alloc_loop_finds:
  "bit (bufAvail u) k \<Longrightarrow> n \<le> k \<Longrightarrow> k < BufferCount dev \<Longrightarrow> BufferCount dev < 64 \<Longrightarrow>
   \<exists>b u'. buf_alloc_loop dev n u = (Some b, u') \<and> bit (bufAvail u) (unat b) \<and>
     u' = u\<lparr>bufAvail := bufAvail u AND NOT (push_bit (unat b) 1)\<rparr>"
proof (induction dev n u rule: buf_alloc_loop.induct)
  case (1 dev n u)
  show ?case
  proof (cases "bit (bufAvail u) n")
    case True
    have "unat (of_nat n :: u8) = n" using "1.prems"(2-4) by (simp add: take_bit_nat_eq_self unsigned_of_nat)
    with True "1.prems"(2,3) show ?thesis by (subst buf_alloc_loop.simps) (simp add: and_1_drop_bit)
  next
    case False
    with "1.prems" have "n + 1 \<le> k" by (metis Suc_eq_plus1 le_antisym not_less_eq_eq)
    with False 1 show ?thesis by (subst buf_alloc_loop.simps) (simp add: and_1_drop_bit)
  qed
qed

lemma bit_and_not_push:
  "bit ((w :: u64) AND NOT (push_bit b 1)) n \<longleftrightarrow> bit w n \<and> n \<noteq> b"
  using bit_imp_le_length [of w n] by (auto simp: bit_simps)

lemma bit_or_push:
  "b < 64 \<Longrightarrow> bit ((w :: u64) OR push_bit b 1) n \<longleftrightarrow> bit w n \<or> n = b"
  by (auto simp: bit_simps)

section \<open>The steps of the driver\<close>

context usb_port begin

lemma none_waits: "shows_view s v \<Longrightarrow> v_tx v = {} \<Longrightarrow> v_waiting v ep = None"
  using p_sane [of s v] by (intro sane_tx_none(1) [of dev]) (simp_all add: sane_def)

lemma alloc_takes:
  assumes "parted dev {} u v" "bufAvail u \<noteq> 0"
  shows "\<exists>b m. buf_alloc dev u = (Some b, u\<lparr>bufAvail := m\<rparr>) \<and> parted dev {unat b} (u\<lparr>bufAvail := m\<rparr>) v"
proof -
  obtain k where k: "bit (bufAvail u) k" using assms(2) by (auto simp: bit_eq_iff)
  then obtain b where b: "buf_alloc_loop dev 0 u = (Some b, u\<lparr>bufAvail := bufAvail u AND NOT (push_bit (unat b) 1)\<rparr>)"
    "bit (bufAvail u) (unat b)"
    using buf_alloc_loop_finds [of u k 0 dev] partedD(2) [OF assms(1), of k] counts(2) by auto
  have "parted dev {unat b} (u\<lparr>bufAvail := bufAvail u AND NOT (push_bit (unat b) 1)\<rparr>) v"
    using b(2) by (intro partedI [OF assms(1)]) (auto simp: bit_and_not_push)
  with b(1) assms(2) show ?thesis by (auto simp: buf_alloc_def)
qed

lemma buffer_left:
  assumes "shows_view s v" "parted dev {} u v" "limit + card (v_tx v) < BufferCount dev"
  shows "bufAvail u \<noteq> 0"
proof
  assume "bufAvail u = 0"
  then show False using parted_counts [OF assms(2)] p_sane [OF assms(1)] assms(3) by (auto simp: sane_def)
qed

lemma supplied:
  assumes "shows_view s v" "parted dev held u v" "ud_supply_buffers dev m s = (m', s')"
    and "\<And>n. bit m n \<longleftrightarrow> bit (bufAvail u) n \<or> n \<in> held"
  shows "\<exists>R. shows_view s' (v\<lparr>v_rx := R\<rparr>) \<and> parted dev {} (u\<lparr>bufAvail := m'\<rparr>) (v\<lparr>v_rx := R\<rparr>) \<and> v_rx v \<subseteq> R \<and> (m \<noteq> 0 \<longrightarrow> 0 < limit \<longrightarrow> R \<noteq> {})"
proof -
  let ?R = "v_rx v \<union> {n. bit m n \<and> \<not> bit m' n}"
  note p = p_supply [OF assms(1,3)]
  note l = conjunct1 [OF p] conjunct1 [OF conjunct2 [OF p]] conjunct2 [OF conjunct2 [OF p]]
  have "parted dev {} (u\<lparr>bufAvail := m'\<rparr>) (v\<lparr>v_rx := ?R\<rparr>)"
  proof (rule partedI [OF assms(2)])
    fix n
    show "of_bool (n \<in> {}) + of_bool (bit (bufAvail (u\<lparr>bufAvail := m'\<rparr>)) n) + of_bool (n \<in> v_rx (v\<lparr>v_rx := ?R\<rparr>)) +
        of_bool (n \<in> v_tx (v\<lparr>v_rx := ?R\<rparr>)) =
      (of_bool (n \<in> held) + of_bool (bit (bufAvail u) n) + of_bool (n \<in> v_rx v) + of_bool (n \<in> v_tx v) :: nat)"
      using assms(2) [unfolded parted_def, rule_format, of n] l(1) [rule_format, of n] assms(4) [of n]
      by (cases "bit m n"; cases "bit m' n"; cases "bit (bufAvail u) n"; cases "n < BufferCount dev"; simp)
  qed
  with l show ?thesis by (intro exI [of _ ?R] conjI) simp_all
qed

lemma supply_step:
  assumes "shows_view s v" "parted dev {} u v"
  shows "\<exists>m s' R. supply_buffers dev u s = (u\<lparr>bufAvail := m\<rparr>, s') \<and> shows_view s' (v\<lparr>v_rx := R\<rparr>) \<and>
    parted dev {} (u\<lparr>bufAvail := m\<rparr>) (v\<lparr>v_rx := R\<rparr>) \<and> v_rx v \<subseteq> R \<and> (bufAvail u \<noteq> 0 \<longrightarrow> 0 < limit \<longrightarrow> R \<noteq> {})"
proof -
  obtain m s' where m: "ud_supply_buffers dev (bufAvail u) s = (m, s')" by fastforce
  with supplied [OF assms m] show ?thesis unfolding supply_buffers_def by auto
qed

lemma release_step:
  assumes "shows_view s v" "parted dev {unat b} u v"
  shows "\<exists>m s' R. buf_release dev b u s = (u\<lparr>bufAvail := m\<rparr>, s') \<and> shows_view s' (v\<lparr>v_rx := R\<rparr>) \<and>
    parted dev {} (u\<lparr>bufAvail := m\<rparr>) (v\<lparr>v_rx := R\<rparr>) \<and> v_rx v \<subseteq> R \<and> (0 < limit \<longrightarrow> R \<noteq> {})"
proof -
  have b: "unat b < 64" using partedD(1) [OF assms(2), of "unat b"] counts(2) by simp
  obtain m s' where m: "ud_supply_buffers dev (bufAvail u OR push_bit (unat b) 1) s = (m, s')" by fastforce
  have "bit (bufAvail u OR push_bit (unat b) 1) n \<longleftrightarrow> bit (bufAvail u) n \<or> n \<in> {unat b}" for n
    using bit_or_push [OF b] by simp
  note bits = this
  have "bit (bufAvail u OR push_bit (unat b) 1) (unat b)" using bits by simp
  then have "bufAvail u OR push_bit (unat b) 1 \<noteq> 0" by (metis bit_0_eq bot_apply bot_bool_def)
  with supplied [OF assms m bits] m show ?thesis unfolding buf_release_def by auto
qed

lemma send_step:
  assumes "shows_view s v" "parted dev {unat b} u v" "unat ep < MaxEndpoints dev"
    "unat sz \<le> MaxPacketLength dev" "unat sz \<le> length data" "told ep v"
  defines "v' \<equiv> (v_sends (unat ep) (unat b) v)\<lparr>v_log := v_log v @ [Sent ep (take (unat sz) data)]\<rparr>"
  shows "shows_view (ud_packet_send dev b ep data sz s) v' \<and> parted dev {} u v' \<and> card (v_tx v') = Suc (card (v_tx v))"
proof -
  have b: "unat b < BufferCount dev" "unat b \<notin> v_rx v \<union> v_tx v" using partedD(1) [OF assms(2), of "unat b"] by simp_all
  have "finite (v_tx v)" using partedD(4) [OF assms(2)] by (meson bounded_nat_set_is_finite)
  moreover have "parted dev {} u v'"
    using b by (intro partedI [OF assms(2)]) (auto simp: v'_def)
  ultimately show ?thesis using p_send [OF assms(1,3,4,5) b assms(6)] b(2) by (simp add: v'_def)
qed

end

section \<open>The control pipe\<close>

text \<open>What a device is told when a request arrives, which state the pipe waits in, and the address it keeps.\<close>

lemmas request_codes = kUsbSetupReqSetAddress_def kUsbSetupReqGetDescriptor_def kUsbSetupReqSetConfiguration_def
  kUsbDescTypeDevice_def kUsbDescTypeConfiguration_def kVendorSetupReqTestConfig_def

definition request_answer :: "UsbdevUtils \<Rightarrow> u8 list \<Rightarrow> usb_event list" where
  "request_answer u req =
    (let n = unat (le16 (req ! 6) (req ! 7))
     in if req ! 1 = 6 then
          if req ! 3 = 1 then [Sent 0 (take (min n (unat (devLen u))) (devDscr u))]
          else if req ! 3 = 2 then [Sent 0 (take (min n (unat (cfgLen u))) (cfgDscr u))]
          else [Stalled 0 True]
        else if req ! 1 = 5 \<or> req ! 1 = 9 then [Sent 0 []]
        else if req ! 1 = 0x7C then [Sent 0 (take (min n (unat (testLen u))) (testDscr u))]
        else [])"

definition request_state :: "u8 list \<Rightarrow> CtrlState" where
  "request_state req =
    (if req ! 1 = 6 then if req ! 3 = 1 \<or> req ! 3 = 2 then Ctrl_StatusGetDesc else Ctrl_Setup
     else if req ! 1 = 5 then Ctrl_StatusSetAddr
     else if req ! 1 = 9 then Ctrl_StatusSetConfig
     else if req ! 1 = 0x7C then Ctrl_StatusGetDesc
     else Ctrl_Setup)"

definition request_addr :: "u8 list \<Rightarrow> u8 \<Rightarrow> u8" where
  "request_addr req a = (if req ! 1 = 5 then ucast (le16 (req ! 2) (req ! 3)) else a)"

text \<open>The state of the device after the host has collected a reply.\<close>

definition device_after :: "CtrlState \<Rightarrow> DeviceState \<Rightarrow> DeviceState" where
  "device_after c d = (case c of Ctrl_StatusSetAddr \<Rightarrow> Device_Addressed | Ctrl_StatusSetConfig \<Rightarrow> Device_Configured | _ \<Rightarrow> d)"

lemma limited_reply:
  assumes "unat n < 256"
  shows "unat (ucast (limited w n) :: u8) = min (unat w) (unat n)"
  using assms by (auto simp: limited_def min_def word_less_nat_alt unsigned_ucast_eq take_bit_nat_eq_self)

lemma unat_ucast_8_16: "unat (ucast (n :: u8) :: u16) = unat n"
  by (rule unat_ucast_u8_u16)

context usb_port begin

lemma reply_step:
  fixes w :: u16
  assumes "shows_view s v" "parted dev {unat b} u v" "descriptor_ok dev dscr (unat n)" "told 0 v"
  defines "v' \<equiv> (v_sends 0 (unat b) v)\<lparr>v_log := v_log v @ [Sent 0 (take (min (unat w) (unat n)) dscr)]\<rparr>"
  shows "\<exists>s'. ep0_reply dev b dscr (limited w n) c u s = Some (False, u\<lparr>ctrlState := c\<rparr>, s') \<and> shows_view s' v' \<and>
    parted dev {} (u\<lparr>ctrlState := c\<rparr>) v'"
proof -
  have n: "unat n \<le> MaxPacketLength dev" "unat n \<le> length dscr" using assms(3) by (simp_all add: descriptor_ok_def)
  then have sz: "unat (ucast (limited w n) :: u8) = min (unat w) (unat n)" using counts(4) by (intro limited_reply) simp
  have "shows_view (ud_packet_send dev b 0 dscr (ucast (limited w n)) s) v' \<and> parted dev {} u v'"
    using send_step [OF assms(1,2), of 0 "ucast (limited w n)" dscr] n counts(1) assms(4) unfolding sz v'_def by auto
  then show ?thesis by (auto simp: ep0_reply_def intro: parted_cong)
qed

lemma empty_reply:
  assumes "shows_view s v" "parted dev {unat b} u v" "told 0 v"
  defines "v' \<equiv> (v_sends 0 (unat b) v)\<lparr>v_log := v_log v @ [Sent 0 []]\<rparr>"
  shows "\<exists>s'. ep0_reply dev b [] 0 c u s = Some (False, u\<lparr>ctrlState := c\<rparr>, s') \<and> shows_view s' v' \<and>
    parted dev {} (u\<lparr>ctrlState := c\<rparr>) v'"
  using reply_step [OF assms(1,2) _ assms(3), of "[]" 0 0 c] by (simp add: descriptor_ok_def limited_def v'_def)

lemma request_step:
  fixes req :: "u8 list"
  assumes "shows_view s v" "wf_utils dev u" "parted dev {unat b} u v" "ctrlState u = Ctrl_Setup" "told 0 v"
  defines "v' \<equiv> (if request_state req = Ctrl_Setup then v else v_sends 0 (unat b) v)\<lparr>v_log := v_log v @ request_answer u req\<rparr>"
    and "u' \<equiv> u\<lparr>devAddr := request_addr req (devAddr u), ctrlState := request_state req\<rparr>"
  shows "\<exists>s'. ep0_request dev b req u s = Some (request_state req = Ctrl_Setup, u', s') \<and> shows_view s' v' \<and>
    parted dev (if request_state req = Ctrl_Setup then {unat b} else {}) u' v'"
proof -
  have d: "descriptor_ok dev (devDscr u) (unat (ucast (devLen u) :: u16))" "descriptor_ok dev (cfgDscr u) (unat (cfgLen u))"
    "descriptor_ok dev (testDscr u) (unat (ucast (testLen u) :: u16))"
    using assms(2) by (simp_all add: wf_utils_def unat_ucast_8_16)
  note parts = v'_def u'_def ep0_request_def Let_def request_codes request_state_def request_answer_def request_addr_def
  consider (dev) "req ! 1 = 6" "req ! 3 = 1" | (cfg) "req ! 1 = 6" "req ! 3 = 2" | (stall) "req ! 1 = 6" "req ! 3 \<noteq> 1" "req ! 3 \<noteq> 2"
    | (addr) "req ! 1 = 5" | (conf) "req ! 1 = 9" | (test) "req ! 1 = 0x7C"
    | (other) "req ! 1 \<noteq> 6" "req ! 1 \<noteq> 5" "req ! 1 \<noteq> 9" "req ! 1 \<noteq> 0x7C" by blast
  then show ?thesis
  proof cases
    case dev
    then show ?thesis
      using reply_step [OF assms(1,3) d(1) assms(5), of "le16 (req ! 6) (req ! 7)" Ctrl_StatusGetDesc] by (simp add: parts unat_ucast_8_16)
  next
    case cfg
    then show ?thesis
      using reply_step [OF assms(1,3) d(2) assms(5), of "le16 (req ! 6) (req ! 7)" Ctrl_StatusGetDesc] by (simp add: parts)
  next
    case stall
    obtain s' where "ud_endpoint_stalling_set dev 0 True s = (0, s')" "shows_view s' (v\<lparr>v_log := v_log v @ [Stalled 0 True]\<rparr>)"
      using p_stall [OF assms(1)] by blast
    with stall assms(4) show ?thesis
      by (intro exI [of _ s']) (simp add: parts, intro parted_cong [OF assms(3)], simp_all)
  next
    case addr
    have p: "parted dev {unat b} (u\<lparr>devAddr := ucast (le16 (req ! 2) (req ! 3))\<rparr>) v" using assms(3) by (simp add: parted_def)
    from addr show ?thesis using empty_reply [OF assms(1) p assms(5), of Ctrl_StatusSetAddr] by (simp add: parts)
  next
    case conf
    then show ?thesis using empty_reply [OF assms(1,3,5), of Ctrl_StatusSetConfig] by (simp add: parts)
  next
    case test
    then show ?thesis
      using reply_step [OF assms(1,3) d(3) assms(5), of "le16 (req ! 6) (req ! 7)" Ctrl_StatusGetDesc] by (simp add: parts unat_ucast_8_16)
  next
    case other
    then show ?thesis using assms(1,4) by (simp add: parts, intro parted_cong [OF assms(3)]) simp_all
  qed
qed

text \<open>A packet on endpoint zero is an answered request in one state only; whatever comes in the others ends the transfer.\<close>

lemma recv_step:
  fixes req :: "u8 list" and len :: u16 and st :: bool
  assumes "shows_view s v" "wf_utils dev u" "parted dev {} u v" "bufAvail u \<noteq> 0" "told 0 v"
  defines "answered \<equiv> ctrlState u = Ctrl_Setup \<and> st \<and> len = 8"
  shows "\<exists>m s' v'. ep0_recv dev ep st req len u s =
      Some (u\<lparr>devAddr := if answered then request_addr req (devAddr u) else devAddr u,
              ctrlState := if answered then request_state req else Ctrl_Setup, bufAvail := m\<rparr>, s') \<and>
    shows_view s' v' \<and> parted dev {} (u\<lparr>bufAvail := m\<rparr>) v' \<and> v_rx v \<subseteq> v_rx v' \<and> v_arrived v' = v_arrived v \<and> v_collected v' = v_collected v \<and>
    v_log v' = v_log v @ (if answered then request_answer u req else []) \<and>
    (if answered \<and> request_state req \<noteq> Ctrl_Setup
     then \<exists>b. v_tx v' = insert (unat (b :: u8)) (v_tx v) \<and> v_waiting v' = (v_waiting v)(0 \<mapsto> unat b)
     else v_tx v' = v_tx v \<and> v_waiting v' = v_waiting v)"
proof -
  obtain b m where a: "buf_alloc dev u = (Some b, u\<lparr>bufAvail := m\<rparr>)" "parted dev {unat b} (u\<lparr>bufAvail := m\<rparr>) v"
    using alloc_takes [OF assms(3,4)] by blast
  let ?u = "u\<lparr>bufAvail := m\<rparr>"
  have wf: "wf_utils dev ?u" using assms(2) by (simp add: wf_utils_def)
  have let_go: "\<exists>m2 s2 R. buf_release dev b u1 s1 = (u1\<lparr>bufAvail := m2\<rparr>, s2) \<and> shows_view s2 (v1\<lparr>v_rx := R\<rparr>) \<and>
      parted dev {} (u1\<lparr>bufAvail := m2\<rparr>) (v1\<lparr>v_rx := R\<rparr>) \<and> v_rx v1 \<subseteq> R"
    if "shows_view s1 v1" "parted dev {unat b} u1 v1" for u1 s1 v1
    using release_step [OF that] by blast
  show ?thesis
  proof (cases answered)
    case True
    then have c: "ctrlState ?u = Ctrl_Setup" "st" "len = 8" by (simp_all add: answered_def)
    let ?u1 = "?u\<lparr>devAddr := request_addr req (devAddr u), ctrlState := request_state req\<rparr>"
    let ?v1 = "(if request_state req = Ctrl_Setup then v else v_sends 0 (unat b) v)\<lparr>v_log := v_log v @ request_answer u req\<rparr>"
    have same: "request_answer ?u req = request_answer u req" by (simp add: request_answer_def Let_def cong: if_cong)
    obtain s1 where r: "ep0_request dev b req ?u s = Some (request_state req = Ctrl_Setup, ?u1, s1)" "shows_view s1 ?v1"
      "parted dev (if request_state req = Ctrl_Setup then {unat b} else {}) ?u1 ?v1"
      using request_step [OF assms(1) wf a(2) c(1) assms(5), of req] unfolding same by auto
    show ?thesis
    proof (cases "request_state req = Ctrl_Setup")
      case nothing: True
      then have z: "request_state req = Ctrl_Setup" by simp
      have p1: "parted dev {unat b} ?u1 ?v1" using r(3) by (simp only: z if_True simp_thms)
      obtain m2 s2 R where l: "buf_release dev b ?u1 s1 = (?u1\<lparr>bufAvail := m2\<rparr>, s2)" "shows_view s2 (?v1\<lparr>v_rx := R\<rparr>)"
        "parted dev {} (?u1\<lparr>bufAvail := m2\<rparr>) (?v1\<lparr>v_rx := R\<rparr>)" "v_rx ?v1 \<subseteq> R"
        using let_go [OF r(2) p1] by (elim exE conjE) (rule that)
      have "parted dev {} (u\<lparr>bufAvail := m2\<rparr>) (?v1\<lparr>v_rx := R\<rparr>)" using l(3) by (simp add: parted_def)
      with True c r(1) l show ?thesis
        by (intro exI [of _ m2] exI [of _ s2] exI [of _ "?v1\<lparr>v_rx := R\<rparr>"]) (simp only: ep0_recv_def a(1), simp add: z)
    next
      case reply: False
      have "parted dev {} (u\<lparr>bufAvail := m\<rparr>) ?v1" using r(3) reply by (simp add: parted_def)
      with True reply c r(1,2) show ?thesis
        by (intro exI [of _ m] exI [of _ s1] exI [of _ ?v1]) (auto simp: ep0_recv_def a(1))
    qed
  next
    case False
    let ?u1 = "?u\<lparr>ctrlState := Ctrl_Setup\<rparr>"
    have q: "(case ctrlState ?u of Ctrl_Setup \<Rightarrow> if st \<and> len = 8 then ep0_request dev b req ?u s else Some (True, ?u, s)
        | _ \<Rightarrow> Some (True, ?u\<lparr>ctrlState := Ctrl_Setup\<rparr>, s)) = Some (True, ?u1, s)"
      using False by (cases "ctrlState u") (auto simp: answered_def)
    have "parted dev {unat b} ?u1 v" using a(2) by (simp add: parted_def)
    then obtain m2 s2 R where l: "buf_release dev b ?u1 s = (?u1\<lparr>bufAvail := m2\<rparr>, s2)" "shows_view s2 (v\<lparr>v_rx := R\<rparr>)"
      "parted dev {} (?u1\<lparr>bufAvail := m2\<rparr>) (v\<lparr>v_rx := R\<rparr>)" "v_rx v \<subseteq> R"
      using let_go [OF assms(1)] by blast
    have "ep0_recv dev ep st req len u s = Some (?u1\<lparr>bufAvail := m2\<rparr>, s2)"
      unfolding ep0_recv_def a(1) prod.case option.case q by (simp add: l(1))
    moreover have "parted dev {} (u\<lparr>bufAvail := m2\<rparr>) (v\<lparr>v_rx := R\<rparr>)" using l(3) by (simp add: parted_def)
    ultimately show ?thesis using False l(2,4)
      by (intro exI [of _ m2] exI [of _ s2] exI [of _ "v\<lparr>v_rx := R\<rparr>"]) simp
  qed
qed

lemma sent_step:
  assumes "shows_view s v" "ep0_sent dev rc u s = r"
  defines "u' \<equiv> u\<lparr>devState := device_after (ctrlState u) (devState u), ctrlState := Ctrl_Setup\<rparr>"
  shows "if r = None then ctrlState u = Ctrl_StatusSetAddr \<and> 128 \<le> unat (devAddr u)
    else \<exists>s'. r = Some (u', s') \<and>
      shows_view s' (v\<lparr>v_log := v_log v @ (if ctrlState u = Ctrl_StatusSetAddr then [Address (devAddr u)] else [])\<rparr>)"
proof (cases "ctrlState u = Ctrl_StatusSetAddr")
  case True
  obtain e s' where e: "ud_device_address_set dev (devAddr u) s = (e, s')" by fastforce
  then show ?thesis
    using True p_address [OF assms(1) e] p_address_ok [OF assms(1), of "devAddr u"] assms(2)
    by (cases "e = 0"; cases "unat (devAddr u) < 128") (auto simp: ep0_sent_def u'_def device_after_def)
next
  case False
  then show ?thesis using assms(1,2) by (cases "ctrlState u") (auto simp: ep0_sent_def u'_def device_after_def)
qed

end

section \<open>Callbacks of a client\<close>

text \<open>
  What a callback may do to the driver: use its public operations, of which at most one sends a packet. The control pipe is private,
  the arrays keep their size, no packet that has arrived or has been collected goes missing, and every buffer is accounted for when it returns.
  A packet is received when all collected packets have been reported.
\<close>

definition kept :: "'s usbdev_ops \<Rightarrow> UsbdevUtils \<Rightarrow> usb_view \<Rightarrow> UsbdevUtils \<Rightarrow> usb_view \<Rightarrow> bool" where
  "kept dev u v u' v' \<longleftrightarrow> wf_utils dev u' \<and> parted dev {} u' v' \<and> ctrlState u' = ctrlState u \<and> devAddr u' = devAddr u \<and>
     v_arrived v' = v_arrived v \<and> v_collected v' = v_collected v \<and> card (v_tx v') \<le> Suc (card (v_tx v))"

locale usb_callbacks = usb_port +
  fixes cl :: "'a usb_client"
  assumes c_recv: "shows_view s v \<Longrightarrow> wf_utils dev u \<Longrightarrow> parted dev {} u v \<Longrightarrow> unat len \<le> MaxPacketLength dev \<Longrightarrow>
      length data = MaxPacketLength dev \<Longrightarrow> unat ep < MaxEndpoints dev \<Longrightarrow> v_collected v = [] \<Longrightarrow>
      \<exists>u' s' v'. client_recv cl n ep su data len u s = Some (u', s') \<and> shows_view s' v' \<and> kept dev u v u' v'"
    and c_done: "shows_view s v \<Longrightarrow> wf_utils dev u \<Longrightarrow> parted dev {} u v \<Longrightarrow>
      \<exists>u' s' v'. client_done cl n rc u s = Some (u', s') \<and> shows_view s' v' \<and> kept dev u v u' v'"

text \<open>
  A host that assigns no address above 127, the pipe waiting to take one, and a driver whose assertions hold: \<open>tame\<close> is the part of the
  driver, \<open>polite\<close> the part of a packet.
\<close>

definition tame :: "UsbdevUtils \<Rightarrow> bool" where
  "tame u \<longleftrightarrow> (ctrlState u = Ctrl_StatusSetAddr \<longrightarrow> unat (devAddr u) < 128)"

definition polite :: "packet_info \<times> u8 list \<Rightarrow> bool" where
  "polite p \<longleftrightarrow> (is_setup (fst p) \<and> packet_size (fst p) = 8 \<and> snd p ! 1 = 5 \<longrightarrow> unat (snd p ! 2) < 128)"

text \<open>A buffer for every packet that waits, next to those that are being sent and the most that reception takes.\<close>

definition roomy :: "'s usbdev_ops \<Rightarrow> nat \<Rightarrow> usb_view \<Rightarrow> bool" where
  "roomy dev limit v \<longleftrightarrow> limit + card (v_tx v) + length (v_arrived v) \<le> BufferCount dev"

definition steady :: "'s usbdev_ops \<Rightarrow> usb_view \<Rightarrow> UsbdevUtils \<Rightarrow> usb_view \<Rightarrow> bool" where
  "steady dev v u' v' \<longleftrightarrow> wf_utils dev u' \<and> parted dev {} u' v' \<and>
     v_arrived v' = v_arrived v \<and> v_collected v' = v_collected v \<and> card (v_tx v') \<le> Suc (card (v_tx v))"

lemma request_addr_polite:
  "polite (info, req) \<Longrightarrow> is_setup info \<Longrightarrow> packet_size info = 8 \<Longrightarrow>
   request_state req = Ctrl_StatusSetAddr \<Longrightarrow> unat (request_addr req a) < 128"
proof -
  assume p: "polite (info, req)" "is_setup info" "packet_size info = 8" "request_state req = Ctrl_StatusSetAddr"
  then have r: "req ! 1 = 5" by (auto simp: request_state_def split: if_splits)
  have "(ucast (le16 x y) :: u8) = x" for x y
    by (rule bit_word_eqI) (auto simp: le16_def bit_simps)
  with p r show ?thesis by (simp add: polite_def request_addr_def)
qed

context usb_callbacks begin

lemma done_step:
  assumes "shows_view s v" "wf_utils dev u" "parted dev {} u v" "unat ep < MaxEndpoints dev"
  shows "(tame u \<longrightarrow> call_done dev cl ep rc u s \<noteq> None) \<and>
    (\<forall>u' s'. call_done dev cl ep rc u s = Some (u', s') \<longrightarrow> (\<exists>v'. shows_view s' v' \<and> steady dev v u' v' \<and> (tame u \<longrightarrow> tame u')))"
proof -
  have l: "unat ep < length (epInCtx u)" using assms(2,4) by (simp add: wf_utils_def)
  show ?thesis
  proof (cases "epInCtx u ! unat ep")
    case Done_null
    with l assms show ?thesis by (auto simp: call_done_def steady_def)
  next
    case ep0_sent_cb
    show ?thesis
    proof (cases "ep0_sent dev rc u s")
      case None
      with sent_step [OF assms(1) None] l ep0_sent_cb show ?thesis by (simp add: call_done_def tame_def)
    next
      case (Some r)
      let ?v = "v\<lparr>v_log := v_log v @ (if ctrlState u = Ctrl_StatusSetAddr then [Address (devAddr u)] else [])\<rparr>"
      obtain u' s' where r: "r = (u', s')" by fastforce
      have "shows_view s' ?v" "bufAvail u' = bufAvail u" "ctrlState u' = Ctrl_Setup" "wf_utils dev u'"
        using sent_step [OF assms(1) Some] assms(2) by (auto simp: r wf_utils_def)
      moreover from this have "steady dev v u' ?v" using assms(3) by (simp add: steady_def parted_def)
      ultimately show ?thesis using l ep0_sent_cb Some by (auto simp: call_done_def r tame_def)
    qed
  next
    case (Done_client n)
    from c_done [OF assms(1-3), of n rc] obtain u' s' v' where
      "client_done cl n rc u s = Some (u', s')" "shows_view s' v'" "kept dev u v u' v'" by blast
    with l Done_client show ?thesis by (auto simp: call_done_def kept_def steady_def tame_def)
  qed
qed

lemma receive_step:
  assumes "shows_view s v" "wf_utils dev u" "parted dev {} u v" "unat (endpoint_id info) < MaxEndpoints dev"
    "unat (packet_size info) \<le> MaxPacketLength dev" "v_collected v = []"
  shows "(bufAvail u \<noteq> 0 \<longrightarrow> call_recv dev cl info u s \<noteq> None) \<and>
    (\<forall>u' s'. call_recv dev cl info u s = Some (u', s') \<longrightarrow>
      (\<exists>v'. shows_view s' v' \<and> steady dev v u' v' \<and> (tame u \<and> polite (info, packetData u) \<longrightarrow> tame u')))"
proof -
  have l: "unat (endpoint_id info) < length (epOutCtx u)" "length (packetData u) = MaxPacketLength dev"
    using assms(2,4) by (simp_all add: wf_utils_def)
  show ?thesis
  proof (cases "epOutCtx u ! unat (endpoint_id info)")
    case Recv_null
    with l assms show ?thesis by (auto simp: call_recv_def steady_def)
  next
    case ep0_recv_cb
    have c: "call_recv dev cl info u s = ep0_recv dev (endpoint_id info) (is_setup info) (packetData u) (packet_size info) u s"
      using l ep0_recv_cb by (simp add: call_recv_def)
    show ?thesis
    proof (cases "bufAvail u = 0")
      case True
      then have "call_recv dev cl info u s = None" by (simp add: c ep0_recv_def buf_alloc_def)
      with True show ?thesis by simp
    next
      case False
      let ?a = "ctrlState u = Ctrl_Setup \<and> is_setup info \<and> packet_size info = 8"
      obtain m s' v' where r: "ep0_recv dev (endpoint_id info) (is_setup info) (packetData u) (packet_size info) u s =
          Some (u\<lparr>devAddr := if ?a then request_addr (packetData u) (devAddr u) else devAddr u,
                  ctrlState := if ?a then request_state (packetData u) else Ctrl_Setup, bufAvail := m\<rparr>, s')"
        "shows_view s' v'" "parted dev {} (u\<lparr>bufAvail := m\<rparr>) v'" "v_arrived v' = v_arrived v" "v_collected v' = v_collected v"
        and tx: "if ?a \<and> request_state (packetData u) \<noteq> Ctrl_Setup
          then \<exists>b. v_tx v' = insert (unat (b :: u8)) (v_tx v) \<and> v_waiting v' = (v_waiting v)(0 \<mapsto> unat b)
          else v_tx v' = v_tx v \<and> v_waiting v' = v_waiting v"
        using recv_step [OF assms(1-3) False told_none [OF assms(6)], of "endpoint_id info" "is_setup info" "packetData u" "packet_size info"]
        by (elim exE conjE) (rule that)
      let ?u = "u\<lparr>devAddr := if ?a then request_addr (packetData u) (devAddr u) else devAddr u,
                  ctrlState := if ?a then request_state (packetData u) else Ctrl_Setup, bufAvail := m\<rparr>"
      have "finite (v_tx v)" using partedD(4) [OF assms(3)] by (meson bounded_nat_set_is_finite)
      then have "card (v_tx v') \<le> Suc (card (v_tx v))" using tx by (auto simp: card_insert_if split: if_splits)
      then have "steady dev v ?u v'" using r(3-5) assms(2) by (simp add: steady_def wf_utils_def parted_def)
      moreover have "tame ?u" if "polite (info, packetData u)"
        using request_addr_polite [OF that] by (auto simp: tame_def)
      ultimately show ?thesis using r(1,2) unfolding c by auto
    qed
  next
    case (Recv_client n)
    from c_recv [OF assms(1-3,5) l(2) assms(4,6), of n "is_setup info"] obtain u' s' v' where
      "client_recv cl n (endpoint_id info) (is_setup info) (packetData u) (packet_size info) u s = Some (u', s')"
      "shows_view s' v'" "kept dev u v u' v'" by blast
    with l Recv_client show ?thesis by (auto simp: call_recv_def kept_def steady_def tame_def Let_def)
  qed
qed

text \<open>The loops: a collected packet frees a buffer before its callback runs, a received one returns its buffer.\<close>

lemma retrieve_loop_runs:
  "shows_view s v \<Longrightarrow> wf_utils dev u \<Longrightarrow> parted dev {} u v \<Longrightarrow>
   (tame u \<longrightarrow> retrieve_loop dev cl u s \<noteq> None) \<and>
   (\<forall>u' s'. retrieve_loop dev cl u s = Some (u', s') \<longrightarrow> (\<exists>v'. shows_view s' v' \<and> wf_utils dev u' \<and> parted dev {} u' v' \<and>
     v_arrived v' = v_arrived v \<and> v_collected v' = [] \<and> card (v_tx v') \<le> card (v_tx v) \<and> (tame u \<longrightarrow> tame u')))"
proof (induction "v_collected v" arbitrary: s u v)
  case Nil
  obtain rc ep b s' where r: "ud_retrieve_collected_packet dev s = (rc, ep, b, s')" by (metis prod_cases4)
  then have "rc \<noteq> 0" "shows_view s' v" using p_none_collected [OF Nil(2)] Nil(1) by auto
  with r Nil show ?case by (subst (1 2) retrieve_loop.simps) auto
next
  case (Cons p r)
  obtain ep b where p: "p = (ep, b)" by fastforce
  have c: "v_collected v = (ep, b) # r" using Cons(2) p by simp
  obtain s1 where 1: "ud_retrieve_collected_packet dev s = (0, ep, b, s1)" "shows_view s1 (v\<lparr>v_collected := r, v_tx := v_tx v - {unat b}\<rparr>)"
    using p_collected [OF Cons(3) c] by blast
  let ?v1 = "v\<lparr>v_collected := r, v_tx := v_tx v - {unat b}\<rparr>"
  have b: "unat b \<in> v_tx v" "unat ep < MaxEndpoints dev" using p_sane [OF Cons(3)] by (simp_all add: sane_def sane_tx_def collected_bufs_def c)
  have fin: "finite (v_tx v)" using partedD(4) [OF Cons(5)] by (meson bounded_nat_set_is_finite)
  have "parted dev {unat b} u ?v1" using b(1) partedD(4) [OF Cons(5) b(1)] by (intro partedI [OF Cons(5)]) auto
  then obtain m s2 R where 2: "buf_release dev b u s1 = (u\<lparr>bufAvail := m\<rparr>, s2)" "shows_view s2 (?v1\<lparr>v_rx := R\<rparr>)"
    "parted dev {} (u\<lparr>bufAvail := m\<rparr>) (?v1\<lparr>v_rx := R\<rparr>)"
    using release_step [OF 1(2)] by blast
  let ?u = "u\<lparr>bufAvail := m\<rparr>" and ?v2 = "?v1\<lparr>v_rx := R\<rparr>"
  have wf: "wf_utils dev ?u" and t: "tame ?u \<longleftrightarrow> tame u" using Cons(4) by (simp_all add: wf_utils_def tame_def)
  have e: "retrieve_loop dev cl u s = do { (u, s) \<leftarrow> call_done dev cl ep 0 ?u s2; retrieve_loop dev cl u s }"
    by (subst retrieve_loop.simps) (simp add: 1(1) 2(1))
  note d = done_step [OF 2(2) wf 2(3) b(2), of 0]
  show ?case
  proof (cases "call_done dev cl ep 0 ?u s2")
    case None
    with d t show ?thesis by (simp add: e)
  next
    case (Some q)
    obtain u3 s3 where q: "q = (u3, s3)" by fastforce
    with d Some obtain v3 where 3: "shows_view s3 v3" "steady dev ?v2 u3 v3" "tame u \<longrightarrow> tame u3" by (auto simp: t)
    have s: "wf_utils dev u3" "parted dev {} u3 v3" "r = v_collected v3" "v_arrived v3 = v_arrived v" "card (v_tx v3) \<le> card (v_tx v)"
      using 3(2) b(1) fin card_Suc_Diff1 [OF fin b(1)] by (simp_all add: steady_def)
    show ?thesis using Cons(1) [OF s(3) 3(1) s(1,2)] 3(3) s(4,5) unfolding e Some q by fastforce
  qed
qed

lemma polite_blit:
  assumes "polite (info, data)" "length data = unat (packet_size info)" "length data \<le> length buf"
  shows "polite (info, blit buf 0 data)"
  using assms counts(3) by (auto simp: polite_def nth_blit)

lemma take_loop_runs:
  "shows_view s v \<Longrightarrow> wf_utils dev u \<Longrightarrow> parted dev {} u v \<Longrightarrow> v_collected v = [] \<Longrightarrow>
   (roomy dev limit v \<longrightarrow> take_loop dev cl u s \<noteq> None) \<and>
   (\<forall>u' s'. take_loop dev cl u s = Some (u', s') \<longrightarrow> (\<exists>v'. shows_view s' v' \<and> wf_utils dev u' \<and> parted dev {} u' v' \<and>
     v_arrived v' = [] \<and> v_collected v' = [] \<and> (tame u \<and> list_all polite (v_arrived v) \<longrightarrow> tame u')))"
proof (induction "v_arrived v" arbitrary: s u v)
  case Nil
  obtain s' where "ud_packet_take dev s = (None, s')" "shows_view s' v" using p_none_arrived [OF Nil(2)] Nil(1) by metis
  with Nil show ?case by (subst (1 2) take_loop.simps) auto
next
  case (Cons p r)
  obtain info data where p: "p = (info, data)" by fastforce
  have a: "v_arrived v = (info, data) # r" using Cons(2) p by simp
  let ?v1 = "v\<lparr>v_arrived := r, v_rx := v_rx v - {unat (buffer_id info)}\<rparr>" and ?u1 = "u\<lparr>packetData := blit (packetData u) 0 data\<rparr>"
  obtain s0 s1 where 1: "ud_packet_take dev s = (Some info, s0)" "ud_packet_data_get dev info (packetData u) s0 = (blit (packetData u) 0 data, s1)"
    "shows_view s1 ?v1"
    using p_arrived [OF Cons(3) a, of "packetData u"] by blast
  have ok: "unat (buffer_id info) \<in> v_rx v" "unat (endpoint_id info) < MaxEndpoints dev"
    "length data = unat (packet_size info)" "unat (packet_size info) \<le> MaxPacketLength dev"
    using p_sane [OF Cons(3)] by (simp_all add: sane_def a arrival_ok_def)
  have len: "length (packetData u) = MaxPacketLength dev" using Cons(4) by (simp add: wf_utils_def)
  have "parted dev {unat (buffer_id info)} ?u1 ?v1"
    using ok(1) partedD(3) [OF Cons(5) ok(1)] by (intro partedI [OF Cons(5)]) auto
  then obtain m s2 R where 2: "buf_release dev (buffer_id info) ?u1 s1 = (?u1\<lparr>bufAvail := m\<rparr>, s2)" "shows_view s2 (?v1\<lparr>v_rx := R\<rparr>)"
    "parted dev {} (?u1\<lparr>bufAvail := m\<rparr>) (?v1\<lparr>v_rx := R\<rparr>)"
    using release_step [OF 1(3)] by blast
  let ?u = "?u1\<lparr>bufAvail := m\<rparr>" and ?v2 = "?v1\<lparr>v_rx := R\<rparr>"
  have wf: "wf_utils dev ?u" and t: "tame ?u \<longleftrightarrow> tame u" using Cons(4) by (simp_all add: wf_utils_def tame_def)
  have e: "take_loop dev cl u s = do { (u, s) \<leftarrow> call_recv dev cl info ?u s2; take_loop dev cl u s }"
    by (subst take_loop.simps) (simp add: 1(1,2) 2(1))
  have room: "bufAvail ?u \<noteq> 0" if "roomy dev limit v"
    using that by (intro buffer_left [OF 2(2,3)]) (simp add: roomy_def a)
  have pol: "polite (info, packetData ?u)" if "list_all polite (v_arrived v)"
    using that ok(3,4) len by (auto simp: a intro: polite_blit)
  have vc: "v_collected ?v2 = []" using Cons(6) by simp
  note d = receive_step [OF 2(2) wf 2(3) ok(2,4) vc]
  show ?case
  proof (cases "call_recv dev cl info ?u s2")
    case None
    with d room show ?thesis by (cases "roomy dev limit v") (simp_all add: e)
  next
    case (Some q)
    obtain u3 s3 where q: "q = (u3, s3)" by fastforce
    with d Some obtain v3 where 3: "shows_view s3 v3" "steady dev ?v2 u3 v3"
      "tame u \<and> polite (info, packetData ?u) \<longrightarrow> tame u3" by (auto simp: t)
    have s: "wf_utils dev u3" "parted dev {} u3 v3" "r = v_arrived v3" "v_collected v3 = []" "card (v_tx v3) \<le> Suc (card (v_tx v))"
      using 3(2) Cons(6) by (simp_all add: steady_def)
    have "roomy dev limit v3" if "roomy dev limit v" using that s(3,5) by (simp add: roomy_def a)
    moreover have "tame u \<and> list_all polite (v_arrived v) \<longrightarrow> tame u3 \<and> list_all polite (v_arrived v3)"
      using 3(3) pol s(3) by (auto simp: a)
    ultimately show ?thesis using Cons(1) [OF s(3) 3(1) s(1,2,4)] unfolding e Some q by fastforce
  qed
qed

lemma service_runs:
  assumes "shows_view s v" "wf_utils dev u" "parted dev {} u v"
  shows "(tame u \<and> roomy dev limit v \<longrightarrow> service dev cl u s \<noteq> None) \<and>
   (\<forall>u' s'. service dev cl u s = Some (u', s') \<longrightarrow> (\<exists>v'. shows_view s' v' \<and> wf_utils dev u' \<and> parted dev {} u' v' \<and>
     v_arrived v' = [] \<and> v_collected v' = [] \<and> (tame u \<and> list_all polite (v_arrived v) \<longrightarrow> tame u')))"
proof (cases "retrieve_loop dev cl u s")
  case None
  with retrieve_loop_runs [OF assms] show ?thesis by (simp add: service_def)
next
  case (Some q)
  obtain u1 s1 where q: "q = (u1, s1)" by fastforce
  with retrieve_loop_runs [OF assms] Some obtain v1 where 1: "shows_view s1 v1" "wf_utils dev u1" "parted dev {} u1 v1"
    "v_arrived v1 = v_arrived v" "v_collected v1 = []" "card (v_tx v1) \<le> card (v_tx v)" "tame u \<longrightarrow> tame u1" by auto
  obtain m s2 R where 2: "supply_buffers dev u1 s1 = (u1\<lparr>bufAvail := m\<rparr>, s2)" "shows_view s2 (v1\<lparr>v_rx := R\<rparr>)"
    "parted dev {} (u1\<lparr>bufAvail := m\<rparr>) (v1\<lparr>v_rx := R\<rparr>)"
    using supply_step [OF 1(1,3)] by blast
  have wf: "wf_utils dev (u1\<lparr>bufAvail := m\<rparr>)" and t: "tame (u1\<lparr>bufAvail := m\<rparr>) \<longleftrightarrow> tame u1"
    using 1(2) by (simp_all add: wf_utils_def tame_def)
  have r: "roomy dev limit (v1\<lparr>v_rx := R\<rparr>)" if "roomy dev limit v" using that 1(4,6) by (simp add: roomy_def)
  have e: "service dev cl u s = take_loop dev cl (u1\<lparr>bufAvail := m\<rparr>) s2" by (simp add: service_def Some q 2(1))
  show ?thesis using take_loop_runs [OF 2(2) wf 2(3)] r 1(4,5,7) unfolding e t by fastforce
qed

end

end
