(* ===== verification/Usb_Utils_System.thy ===== *)
theory Usb_Utils_System
  imports Usb_Utils_Steps
begin

unbundle bit_operations_syntax

text \<open>
  Whole runs of class \<open>UsbdevUtils\<close>: construction, the public operations in any order between the moves of a device, and control
  transfers with a host, which the locale \<open>usb_host\<close> adds. A simulated device, host and client interpret the locales.
\<close>

section \<open>Construction and the public operations\<close>

lemma bit_all_buffers: "bit (push_bit n 1 - 1 :: u64) k \<longleftrightarrow> k < n \<and> k < 64"
  unfolding push_bit_of_1 mask_eq_exp_minus_1 [symmetric] by (auto simp: bit_mask_iff)

definition blank_members :: "'s usbdev_ops \<Rightarrow> UsbdevUtils \<Rightarrow> bool" where
  "blank_members dev raw \<longleftrightarrow> length (epInCtx raw) = MaxEndpoints dev \<and> length (epOutCtx raw) = MaxEndpoints dev \<and>
     length (packetData raw) = MaxPacketLength dev"

text \<open>A driver between two transfers, with nothing to send and buffers for reception.\<close>

definition ready :: "'s usbdev_ops \<Rightarrow> UsbdevUtils \<Rightarrow> usb_view \<Rightarrow> bool" where
  "ready dev u v \<longleftrightarrow> wf_utils dev u \<and> parted dev {} u v \<and> ctrlState u = Ctrl_Setup \<and>
     epOutCtx u ! 0 = ep0_recv_cb \<and> epInCtx u ! 0 = ep0_sent_cb \<and>
     v_tx v = {} \<and> v_arrived v = [] \<and> v_collected v = [] \<and> v_rx v \<noteq> {}"

context usb_port begin

lemma new_runs:
  assumes raw: "blank_members dev raw"
    and dscr: "descriptor_ok dev d (unat dl)" "descriptor_ok dev c (unat cfgl)" "descriptor_ok dev t (unat tl')" and lim: "0 < limit"
  shows "\<exists>u s' v. UsbdevUtils_new dev d dl c cfgl t tl' raw s = Some (u, s') \<and> shows_view s' v \<and> ready dev u v \<and> v_log v = [] \<and>
    devState u = Device_Powered \<and> devAddr u = 0 \<and> devDscr u = d \<and> devLen u = dl \<and> cfgDscr u = c \<and> cfgLen u = cfgl \<and>
    testDscr u = t \<and> testLen u = tl'"
proof -
  let ?all = "push_bit (BufferCount dev) 1 - 1 :: u64"
  let ?u0 = "raw\<lparr>devAddr := 0, devState := Device_Powered, ctrlState := Ctrl_Setup, devDscr := d, devLen := dl,
      cfgDscr := c, cfgLen := cfgl, testDscr := t, testLen := tl'\<rparr>"
  obtain m s1 where 1: "ud_init dev ?all s = (0, m, s1)" "\<forall>n. bit m n \<longrightarrow> bit ?all n"
    "shows_view s1 \<lparr>v_rx = {n. bit ?all n \<and> \<not> bit m n}, v_tx = {}, v_waiting = Map.empty, v_lost = {}, v_arrived = [], v_collected = [], v_log = []\<rparr>"
    using p_init by blast
  let ?v1 = "\<lparr>v_rx = {n. bit ?all n \<and> \<not> bit m n}, v_tx = {}, v_waiting = Map.empty, v_lost = {}, v_arrived = [], v_collected = [], v_log = []\<rparr>"
  obtain s2 where 2: "ud_out_endpoint_configure dev 0 True True False s1 = (0, s2)" "shows_view s2 ?v1"
    using p_configure [where ep = 0 and en = True and st = True and iso' = False and s = s1] p_out [OF 1(3), of 0 True True False] counts(1)
    by (cases "ud_out_endpoint_configure dev 0 True True False s1") simp
  obtain s3 where 3: "ud_in_endpoint_configure dev 0 True False s2 = (0, s3)" "shows_view s3 ?v1"
    using p_configure [where ep = 0 and en = True and st = True and iso' = False and s = s2] p_in [OF 2(2), of 0 True False] counts(1)
    by (cases "ud_in_endpoint_configure dev 0 True False s2") simp
  let ?u = "?u0\<lparr>bufAvail := m, epOutCtx := ep0_recv_cb # replicate (MaxEndpoints dev - 1) Recv_null,
      epInCtx := ep0_sent_cb # replicate (MaxEndpoints dev - 1) Done_null\<rparr>"
  have p: "parted dev {} ?u ?v1"
    unfolding parted_def
  proof
    fix n
    show "of_bool (n \<in> {}) + of_bool (bit (bufAvail ?u) n) + of_bool (n \<in> v_rx ?v1) + of_bool (n \<in> v_tx ?v1) = (of_bool (n < BufferCount dev) :: nat)"
      using spec [OF 1(2), of n] counts(2) by (cases "bit m n") (simp_all add: bit_all_buffers)
  qed
  obtain m4 s4 R where 4: "supply_buffers dev ?u s3 = (?u\<lparr>bufAvail := m4\<rparr>, s4)" "shows_view s4 (?v1\<lparr>v_rx := R\<rparr>)"
    "parted dev {} (?u\<lparr>bufAvail := m4\<rparr>) (?v1\<lparr>v_rx := R\<rparr>)" "v_rx ?v1 \<subseteq> R" "bufAvail ?u \<noteq> 0 \<longrightarrow> 0 < limit \<longrightarrow> R \<noteq> {}"
    using supply_step [OF 3(2) p] by (elim exE conjE) (rule that)
  have "R \<noteq> {}"
  proof (cases "m = 0")
    case True
    then have "0 \<in> v_rx ?v1" using counts(5) by (simp add: bit_all_buffers)
    with 4(4) show ?thesis by blast
  next
    case False
    with 4(5) lim show ?thesis by simp
  qed
  have t: "take (Suc 0) (xs[0 := x]) = [x]" if "length xs = MaxEndpoints dev" for xs :: "'b list" and x
    using that counts(1) by (cases xs) simp_all
  have len: "0 < length (epOutCtx raw)" "0 < length (epInCtx raw)" using raw counts(1) by (simp_all add: blank_members_def)
  have "UsbdevUtils_new dev d dl c cfgl t tl' raw s = Some (?u\<lparr>bufAvail := m4\<rparr>, s4)"
    using raw 4(1) len by (simp add: UsbdevUtils_new_def Let_def 1(1) setup_out_endpoint_def setup_in_endpoint_def 2(1) 3(1) blank_members_def t)
  moreover have "ready dev (?u\<lparr>bufAvail := m4\<rparr>) (?v1\<lparr>v_rx := R\<rparr>)"
    using 4(3) \<open>R \<noteq> {}\<close> dscr raw counts(1) by (simp add: ready_def wf_utils_def blank_members_def)
  ultimately show ?thesis using 4(2)
    by (intro exI [of _ "?u\<lparr>bufAvail := m4\<rparr>"] exI [of _ s4] exI [of _ "?v1\<lparr>v_rx := R\<rparr>"] conjI) simp_all
qed

lemma send_data_step:
  assumes "shows_view s v" "wf_utils dev u" "parted dev {} u v" "unat ep < MaxEndpoints dev" "unat len \<le> length data"
    "unat len \<le> MaxPacketLength dev" "told ep v"
  shows "\<exists>ok u' s' v'. send_data dev ep data len u s = Some (ok, u', s') \<and> shows_view s' v' \<and> kept dev u v u' v'"
proof (cases "bufAvail u = 0")
  case True
  with assms show ?thesis by (auto simp: send_data_def buf_alloc_def kept_def)
next
  case False
  obtain b m where a: "buf_alloc dev u = (Some b, u\<lparr>bufAvail := m\<rparr>)" "parted dev {unat b} (u\<lparr>bufAvail := m\<rparr>) v"
    using alloc_takes [OF assms(3) False] by blast
  have "unat (ucast len :: u8) = unat len"
    using assms(6) counts(4) by (simp add: unsigned_ucast_eq take_bit_nat_eq_self)
  with send_step [OF assms(1) a(2) assms(4) _ _ assms(7), of "ucast len" data] assms(2,5,6) show ?thesis
    by (auto simp: send_data_def a(1) kept_def wf_utils_def)
qed

end

section \<open>Every order of operations\<close>

text \<open>
  What a device does between two calls: packets arrive in buffers it has for reception. A packet that waits at an endpoint is
  collected, or it is cancelled by a SETUP, and then its buffer is lost. A collected packet stays until software is told, a lost
  buffer stays lost, and no buffer changes hands.
\<close>

definition device_moves :: "usb_view \<Rightarrow> usb_view \<Rightarrow> bool" where
  "device_moves v v' \<longleftrightarrow> v_rx v' = v_rx v \<and> v_tx v' = v_tx v \<and> v_waiting v' \<subseteq>\<^sub>m v_waiting v \<and>
     set (v_collected v) \<subseteq> set (v_collected v') \<and> collected_bufs v' \<subseteq> collected_bufs v \<union> ran (v_waiting v) \<and>
     v_lost v \<subseteq> v_lost v' \<and> v_lost v' \<subseteq> v_lost v \<union> ran (v_waiting v)"

text \<open>
  An object and its device as they can come about: constructed, then the public operations of the class and, between them, moves of
  the device. Data is sent on an endpoint of whose collected packets software has been told.
\<close>

inductive utils_reach :: "'s usbdev_ops \<Rightarrow> 's usb_client \<Rightarrow> ('s \<Rightarrow> usb_view \<Rightarrow> bool) \<Rightarrow> UsbdevUtils \<Rightarrow> 's \<Rightarrow> bool"
  for dev cl sv where
  r_new: "blank_members dev raw \<Longrightarrow> descriptor_ok dev d (unat dl) \<Longrightarrow> descriptor_ok dev c (unat cfgl) \<Longrightarrow> descriptor_ok dev t (unat tl') \<Longrightarrow>
    UsbdevUtils_new dev d dl c cfgl t tl' raw s = Some (u, s') \<Longrightarrow> utils_reach dev cl sv u s'"
| r_device: "utils_reach dev cl sv u s \<Longrightarrow> sv s v \<Longrightarrow> sv s' v' \<Longrightarrow> device_moves v v' \<Longrightarrow> utils_reach dev cl sv u s'"
| r_service: "utils_reach dev cl sv u s \<Longrightarrow> service dev cl u s = Some (u', s') \<Longrightarrow> utils_reach dev cl sv u' s'"
| r_send: "utils_reach dev cl sv u s \<Longrightarrow> sv s v \<Longrightarrow> told ep v \<Longrightarrow> unat ep < MaxEndpoints dev \<Longrightarrow> unat len \<le> length data \<Longrightarrow>
    send_data dev ep data len u s = Some (ok, u', s') \<Longrightarrow> utils_reach dev cl sv u' s'"
| r_setup_out: "utils_reach dev cl sv u s \<Longrightarrow> setup_out_endpoint dev ep en su i cb u s = Some (ok, u', s') \<Longrightarrow> utils_reach dev cl sv u' s'"
| r_setup_in: "utils_reach dev cl sv u s \<Longrightarrow> setup_in_endpoint dev ep en i cb' u s = Some (ok, u', s') \<Longrightarrow> utils_reach dev cl sv u' s'"
| r_connect: "utils_reach dev cl sv u s \<Longrightarrow> connect dev u s = (ok, u', s') \<Longrightarrow> utils_reach dev cl sv u' s'"
| r_disconnect: "utils_reach dev cl sv u s \<Longrightarrow> disconnect dev u s = (u', s') \<Longrightarrow> utils_reach dev cl sv u' s'"
| r_connected: "utils_reach dev cl sv u s \<Longrightarrow> connected dev u s = (ok, s') \<Longrightarrow> utils_reach dev cl sv u s'"

context usb_callbacks begin

lemma reach_parted:
  assumes "0 < limit" "utils_reach dev cl shows_view u s"
  shows "\<exists>v. shows_view s v \<and> wf_utils dev u \<and> parted dev {} u v"
  using assms(2)
proof (induction rule: utils_reach.induct)
  case (r_new raw d dl c cfgl t tl' s u s')
  then obtain u' s'' v where "UsbdevUtils_new dev d dl c cfgl t tl' raw s = Some (u', s'')" "shows_view s'' v" "ready dev u' v"
    using new_runs [OF r_new(1-4) assms(1)] by blast
  with r_new(5) show ?case by (auto simp: ready_def)
next
  case (r_device u s v s' v')
  then obtain w where w: "shows_view s w" "wf_utils dev u" "parted dev {} u w" by blast
  have "parted dev {} u v'" using parted_cong [OF w(3)] r_device(4) p_unique [OF w(1) r_device(2)] by (simp add: device_moves_def)
  with w(2) r_device(3) show ?case by blast
next
  case (r_service u s u' s')
  then obtain v where v: "shows_view s v" "wf_utils dev u" "parted dev {} u v" by blast
  from service_runs [OF this] r_service(2) show ?case by blast
next
  case (r_send u s v ep len data ok u' s')
  then have v: "shows_view s v" "wf_utils dev u" "parted dev {} u v" using p_unique by blast+
  have "unat len \<le> MaxPacketLength dev" using r_send(6) by (auto simp: send_data_def split: if_splits)
  from send_data_step [OF v r_send(4,5) this r_send(3)] r_send(6) show ?case by (auto simp: kept_def)
next
  case (r_setup_out u s ep en su i cb ok u' s')
  then obtain v where v: "shows_view s v" "wf_utils dev u" "parted dev {} u v" by blast
  obtain rc s1 where 1: "ud_out_endpoint_configure dev ep en su i s = (rc, s1)" by fastforce
  then have "shows_view s1 v" using p_out [OF v(1), of ep en su i] by simp
  moreover have "s' = s1" "bufAvail u' = bufAvail u" "wf_utils dev u'" using v(2) r_setup_out(2)
    by (auto simp: setup_out_endpoint_def 1 wf_utils_def split: if_splits)
  ultimately show ?case using parted_cong [OF v(3)] by blast
next
  case (r_setup_in u s ep en i cb' ok u' s')
  then obtain v where v: "shows_view s v" "wf_utils dev u" "parted dev {} u v" by blast
  obtain rc s1 where 1: "ud_in_endpoint_configure dev ep en i s = (rc, s1)" by fastforce
  then have "shows_view s1 v" using p_in [OF v(1), of ep en i] by simp
  moreover have "s' = s1" "bufAvail u' = bufAvail u" "wf_utils dev u'" using v(2) r_setup_in(2)
    by (auto simp: setup_in_endpoint_def 1 wf_utils_def split: if_splits)
  ultimately show ?case using parted_cong [OF v(3)] by blast
next
  case (r_connect u s ok u' s')
  then obtain v where v: "shows_view s v" "wf_utils dev u" "parted dev {} u v" by blast
  obtain rc s1 where 1: "ud_connect dev s = (rc, s1)" by fastforce
  then have "shows_view s1 v" using p_connect [OF v(1)] by simp
  moreover have "s' = s1" "bufAvail u' = bufAvail u" "wf_utils dev u'" using v(2) r_connect(2)
    by (auto simp: connect_def 1 wf_utils_def split: if_splits)
  ultimately show ?case using parted_cong [OF v(3)] by blast
next
  case (r_disconnect u s u' s')
  then obtain v where v: "shows_view s v" "wf_utils dev u" "parted dev {} u v" by blast
  have "s' = ud_disconnect dev s" "bufAvail u' = bufAvail u" "wf_utils dev u'" using v(2) r_disconnect(2)
    by (auto simp: disconnect_def wf_utils_def)
  then show ?case using parted_cong [OF v(3)] p_disconnect [OF v(1)] by blast
next
  case (r_connected u s ok s')
  then obtain v where v: "shows_view s v" "wf_utils dev u" "parted dev {} u v" by blast
  have "s' = snd (ud_connected dev s)" using r_connected(2) by (simp add: connected_def)
  then show ?case using v p_connected [OF v(1)] by blast
qed

end

section \<open>Control transfers\<close>

text \<open>
  A host between the calls of \<open>service\<close>: it sends an eight-byte request to endpoint zero, where no reply waits that it would cancel, into
  a buffer the device has for reception, and it collects the reply that waits there.
\<close>

locale usb_host = usb_port +
  fixes request :: "u8 list \<Rightarrow> 'a \<Rightarrow> 'a" and collect :: "'a \<Rightarrow> 'a"
  assumes some_limit: "0 < limit" "limit + 1 < BufferCount dev"
    and h_request: "shows_view s v \<Longrightarrow> v_arrived v = [] \<Longrightarrow> v_rx v \<noteq> {} \<Longrightarrow> v_waiting v 0 = None \<Longrightarrow> length req = 8 \<Longrightarrow>
      \<exists>b. unat b \<in> v_rx v \<and> shows_view (request req s)
        (v\<lparr>v_arrived := [(\<lparr>buffer_id = b, endpoint_id = 0, is_setup = True, packet_size = 8\<rparr>, req)]\<rparr>)"
    and h_nothing: "shows_view s v \<Longrightarrow> v_waiting v 0 = None \<Longrightarrow> shows_view (collect s) v"
    and h_collect: "shows_view s v \<Longrightarrow> v_collected v = [] \<Longrightarrow> v_waiting v 0 = Some (unat b) \<Longrightarrow>
      shows_view (collect s) (v\<lparr>v_collected := [(0, b)], v_waiting := (v_waiting v)(0 := None)\<rparr>)"

fun control_transfers :: "'s usbdev_ops \<Rightarrow> 's usb_client \<Rightarrow> (u8 list \<Rightarrow> 's \<Rightarrow> 's) \<Rightarrow> ('s \<Rightarrow> 's) \<Rightarrow> u8 list list \<Rightarrow>
    UsbdevUtils \<Rightarrow> 's \<Rightarrow> (UsbdevUtils \<times> 's) option" where
  "control_transfers dev cl request collect [] u s = Some (u, s)"
| "control_transfers dev cl request collect (req # reqs) u s = do {
     (u, s) \<leftarrow> service dev cl u (request req s);
     (u, s) \<leftarrow> service dev cl u (collect s);
     control_transfers dev cl request collect reqs u s }"

text \<open>What the host sees of a transfer, and what it does to the state and the address of the device.\<close>

definition set_address :: "u8 list \<Rightarrow> bool" where
  "set_address req \<longleftrightarrow> req ! 1 = 5"

definition transfer_log :: "UsbdevUtils \<Rightarrow> u8 list \<Rightarrow> usb_event list" where
  "transfer_log u req = request_answer u req @ (if set_address req then [Address (req ! 2)] else [])"

definition transfer_state :: "u8 list \<Rightarrow> DeviceState \<times> u8 \<Rightarrow> DeviceState \<times> u8" where
  "transfer_state req d =
    (if set_address req then (Device_Addressed, req ! 2) else if req ! 1 = 9 then (Device_Configured, snd d) else d)"

lemma request_addr_byte: "set_address req \<Longrightarrow> request_addr req a = req ! 2"
proof -
  assume "set_address req"
  moreover have "(ucast (le16 x y) :: u8) = x" for x y by (rule bit_word_eqI) (auto simp: le16_def bit_simps)
  ultimately show ?thesis by (simp add: request_addr_def set_address_def)
qed

definition same_descriptors :: "UsbdevUtils \<Rightarrow> UsbdevUtils \<Rightarrow> bool" where
  "same_descriptors u u' \<longleftrightarrow> devDscr u' = devDscr u \<and> devLen u' = devLen u \<and> cfgDscr u' = cfgDscr u \<and> cfgLen u' = cfgLen u \<and>
     testDscr u' = testDscr u \<and> testLen u' = testLen u"

lemma transfer_log_same: "same_descriptors u u' \<Longrightarrow> transfer_log u' req = transfer_log u req"
  by (simp add: same_descriptors_def transfer_log_def request_answer_def Let_def cong: if_cong)

lemma request_prefix:
  assumes "\<And>k. k < 8 \<Longrightarrow> r ! k = req ! k"
  shows "request_answer u r = request_answer u req" "request_state r = request_state req" "request_addr r a = request_addr req a"
  using assms by (simp_all add: request_answer_def request_state_def request_addr_def Let_def cong: if_cong)

context usb_host begin

lemma retrieve_idle:
  assumes "shows_view s v" "v_collected v = []"
  shows "\<exists>s'. retrieve_loop dev cl u s = Some (u, s') \<and> shows_view s' v"
proof -
  obtain rc ep b s' where r: "ud_retrieve_collected_packet dev s = (rc, ep, b, s')" by (metis prod_cases4)
  with p_none_collected [OF assms r] show ?thesis by (subst retrieve_loop.simps) simp
qed

lemma take_idle:
  assumes "shows_view s v" "v_arrived v = []"
  shows "\<exists>s'. take_loop dev cl u s = Some (u, s') \<and> shows_view s' v"
  using p_none_arrived [OF assms] by (subst take_loop.simps) auto

text \<open>Nothing to do but to supply buffers.\<close>

lemma service_idle:
  assumes "shows_view s v" "ready dev u v"
  shows "\<exists>m s' R. service dev cl u s = Some (u\<lparr>bufAvail := m\<rparr>, s') \<and> shows_view s' (v\<lparr>v_rx := R\<rparr>) \<and>
    ready dev (u\<lparr>bufAvail := m\<rparr>) (v\<lparr>v_rx := R\<rparr>)"
proof -
  have r: "v_collected v = []" "v_arrived v = []" "parted dev {} u v" using assms(2) by (simp_all add: ready_def)
  obtain s1 where 1: "retrieve_loop dev cl u s = Some (u, s1)" "shows_view s1 v" using retrieve_idle [OF assms(1) r(1)] by blast
  obtain m s2 R where 2: "supply_buffers dev u s1 = (u\<lparr>bufAvail := m\<rparr>, s2)" "shows_view s2 (v\<lparr>v_rx := R\<rparr>)"
    "parted dev {} (u\<lparr>bufAvail := m\<rparr>) (v\<lparr>v_rx := R\<rparr>)" "v_rx v \<subseteq> R"
    using supply_step [OF 1(2) r(3)] by blast
  obtain s3 where 3: "take_loop dev cl (u\<lparr>bufAvail := m\<rparr>) s2 = Some (u\<lparr>bufAvail := m\<rparr>, s3)" "shows_view s3 (v\<lparr>v_rx := R\<rparr>)"
    using take_idle [OF 2(2)] r(2) by auto
  have "ready dev (u\<lparr>bufAvail := m\<rparr>) (v\<lparr>v_rx := R\<rparr>)"
    using assms(2) 2(3,4) by (auto simp: ready_def wf_utils_def)
  with 1 2 3 show ?thesis by (intro exI [of _ m] exI [of _ s3] exI [of _ R]) (simp add: service_def)
qed

text \<open>A request that has arrived: \<open>service\<close> answers it, and the pipe waits for the end of the transfer.\<close>

lemma service_request:
  assumes "shows_view s v" "ready dev u v" "length req = 8"
  defines "info b \<equiv> \<lparr>buffer_id = b, endpoint_id = 0, is_setup = True, packet_size = 8\<rparr>"
  assumes b: "unat b \<in> v_rx v" and s': "shows_view s' (v\<lparr>v_arrived := [(info b, req)]\<rparr>)"
  shows "\<exists>p m s'' v'. service dev cl u s' = Some (u\<lparr>packetData := p, devAddr := request_addr req (devAddr u),
      ctrlState := request_state req, bufAvail := m\<rparr>, s'') \<and> shows_view s'' v' \<and> parted dev {} (u\<lparr>bufAvail := m\<rparr>) v' \<and>
    length p = MaxPacketLength dev \<and> v_rx v' \<noteq> {} \<and> v_arrived v' = [] \<and> v_collected v' = [] \<and>
    v_log v' = v_log v @ request_answer u req \<and>
    (if request_state req = Ctrl_Setup then v_tx v' = {} else \<exists>b. v_tx v' = {unat (b :: u8)} \<and> v_waiting v' 0 = Some (unat b))"
proof -
  let ?v1 = "v\<lparr>v_arrived := [(info b, req)]\<rparr>"
  have "parted dev {} u v" using assms(2) by (simp add: ready_def)
  then have "parted dev {} u ?v1" by (rule parted_cong) simp_all
  with assms(2) have r: "v_collected ?v1 = []" "parted dev {} u ?v1" "length (packetData u) = MaxPacketLength dev" "v_tx v = {}"
    by (simp_all add: ready_def wf_utils_def)
  obtain s1 where 1: "retrieve_loop dev cl u s' = Some (u, s1)" "shows_view s1 ?v1" using retrieve_idle [OF s' r(1)] by blast
  obtain m2 s2 R2 where 2: "supply_buffers dev u s1 = (u\<lparr>bufAvail := m2\<rparr>, s2)" "shows_view s2 (?v1\<lparr>v_rx := R2\<rparr>)"
    "parted dev {} (u\<lparr>bufAvail := m2\<rparr>) (?v1\<lparr>v_rx := R2\<rparr>)" "v_rx ?v1 \<subseteq> R2"
    using supply_step [OF 1(2) r(2)] by blast
  let ?p = "blit (packetData u) 0 req"
  let ?v3 = "?v1\<lparr>v_rx := R2\<rparr>\<lparr>v_arrived := [], v_rx := v_rx (?v1\<lparr>v_rx := R2\<rparr>) - {unat (buffer_id (info b))}\<rparr>"
  obtain s3 s4 where 3: "ud_packet_take dev s2 = (Some (info b), s3)" "ud_packet_data_get dev (info b) (packetData u) s3 = (?p, s4)"
    "shows_view s4 ?v3"
    using p_arrived [OF 2(2), of "info b" req "[]" "packetData u"] by auto
  let ?u3 = "u\<lparr>bufAvail := m2, packetData := ?p\<rparr>"
  have inR: "unat b \<in> R2" using b 2(4) by auto
  have "parted dev {unat (buffer_id (info b))} ?u3 ?v3"
    using partedD(3) [OF 2(3), of "unat b"] inR by (intro partedI [OF 2(3)]) (auto simp: info_def)
  then obtain m5 s5 R5 where 5: "buf_release dev (buffer_id (info b)) ?u3 s4 = (?u3\<lparr>bufAvail := m5\<rparr>, s5)"
    "shows_view s5 (?v3\<lparr>v_rx := R5\<rparr>)" "parted dev {} (?u3\<lparr>bufAvail := m5\<rparr>) (?v3\<lparr>v_rx := R5\<rparr>)" "0 < limit \<longrightarrow> R5 \<noteq> {}"
    using release_step [OF 3(3)] by blast
  let ?u5 = "?u3\<lparr>bufAvail := m5\<rparr>" and ?v5 = "?v3\<lparr>v_rx := R5\<rparr>"
  have wf: "wf_utils dev ?u5" using assms(2) by (simp add: ready_def wf_utils_def)
  have left: "bufAvail ?u5 \<noteq> 0" using r(4) some_limit(2) by (intro buffer_left [OF 5(2,3)]) simp
  have c: "ctrlState ?u5 = Ctrl_Setup" "epOutCtx ?u5 ! 0 = ep0_recv_cb" "0 < length (epOutCtx ?u5)"
    using assms(2) counts(1) by (simp_all add: ready_def wf_utils_def)
  have told: "told 0 ?v5" using r(1) by simp
  have same: "?p ! k = req ! k" if "k < 8" for k using that assms(3) r(3) counts(3) by (simp add: nth_blit)
  have ans: "request_answer ?u5 ?p = request_answer u req"
    using request_prefix(1) [OF same] by (simp add: request_answer_def Let_def cong: if_cong)
  have pre: "request_state ?p = request_state req" "request_addr ?p a = request_addr req a" for a
    by (rule request_prefix, erule same)+
  obtain m6 s6 v6 where 6: "ep0_recv dev 0 True ?p 8 ?u5 s5 = Some (?u5\<lparr>devAddr := request_addr req (devAddr u),
      ctrlState := request_state req, bufAvail := m6\<rparr>, s6)" "shows_view s6 v6" "parted dev {} (?u5\<lparr>bufAvail := m6\<rparr>) v6"
    "v_rx ?v5 \<subseteq> v_rx v6" "v_arrived v6 = []" "v_collected v6 = []" "v_log v6 = v_log v @ request_answer u req"
    "if request_state req \<noteq> Ctrl_Setup then \<exists>b. v_tx v6 = insert (unat (b :: u8)) {} \<and> v_waiting v6 = (v_waiting v)(0 \<mapsto> unat b)
     else v_tx v6 = {} \<and> v_waiting v6 = v_waiting v"
    using recv_step [OF 5(2) wf 5(3) left told, where st = True and len = 8 and req = ?p and ep = 0] c(1) r(1,4)
    unfolding ans pre by (auto cong: if_cong)
  obtain s7 where 7: "take_loop dev cl (?u5\<lparr>devAddr := request_addr req (devAddr u), ctrlState := request_state req, bufAvail := m6\<rparr>) s6 =
      Some (?u5\<lparr>devAddr := request_addr req (devAddr u), ctrlState := request_state req, bufAvail := m6\<rparr>, s7)" "shows_view s7 v6"
    using take_idle [OF 6(2,5)] by blast
  have call: "call_recv dev cl (info b) ?u5 s5 = ep0_recv dev 0 True ?p 8 ?u5 s5"
    using c(2,3) by (simp add: call_recv_def info_def)
  have "service dev cl u s' = take_loop dev cl (u\<lparr>bufAvail := m2\<rparr>) s2" by (simp add: service_def 1(1) 2(1))
  also have "\<dots> = do { (u, s) \<leftarrow> call_recv dev cl (info b) ?u5 s5; take_loop dev cl u s }"
    using 3(1,2) 5(1) by (subst take_loop.simps) simp
  also have "\<dots> = Some (?u5\<lparr>devAddr := request_addr req (devAddr u), ctrlState := request_state req, bufAvail := m6\<rparr>, s7)"
    unfolding call 6(1) using 7(1) by simp
  finally have "service dev cl u s' = Some (u\<lparr>packetData := ?p, devAddr := request_addr req (devAddr u),
      ctrlState := request_state req, bufAvail := m6\<rparr>, s7)" by simp
  moreover have "parted dev {} (u\<lparr>bufAvail := m6\<rparr>) v6" using 6(3) by (simp add: parted_def)
  moreover have "v_rx v6 \<noteq> {}" using 6(4) 5(4) some_limit(1) by auto
  ultimately show ?thesis using 6(5-8) 7(2) r(3)
    by (intro exI [of _ ?p] exI [of _ m6] exI [of _ s7] exI [of _ v6]) (auto split: if_splits)
qed

text \<open>The host has collected the reply: the transfer takes effect.\<close>

definition open_transfer :: "UsbdevUtils \<Rightarrow> usb_view \<Rightarrow> u8 \<Rightarrow> bool" where
  "open_transfer u v b \<longleftrightarrow> wf_utils dev u \<and> parted dev {} u v \<and> epOutCtx u ! 0 = ep0_recv_cb \<and> epInCtx u ! 0 = ep0_sent_cb \<and>
     v_tx v = {unat b} \<and> v_waiting v 0 = Some (unat b) \<and> v_arrived v = [] \<and> v_collected v = [] \<and> v_rx v \<noteq> {} \<and> tame u"

lemma service_completes:
  assumes "shows_view s v" "open_transfer u v b"
  defines "u' \<equiv> u\<lparr>devState := device_after (ctrlState u) (devState u), ctrlState := Ctrl_Setup\<rparr>"
  shows "\<exists>m s' v'. service dev cl u (collect s) = Some (u'\<lparr>bufAvail := m\<rparr>, s') \<and> shows_view s' v' \<and> ready dev (u'\<lparr>bufAvail := m\<rparr>) v' \<and>
    v_log v' = v_log v @ (if ctrlState u = Ctrl_StatusSetAddr then [Address (devAddr u)] else [])"
proof -
  note o = assms(2) [unfolded open_transfer_def]
  let ?addr = "if ctrlState u = Ctrl_StatusSetAddr then [Address (devAddr u)] else []"
  let ?v1 = "v\<lparr>v_collected := [(0, b)], v_waiting := (v_waiting v)(0 := None)\<rparr>"
  let ?v2 = "?v1\<lparr>v_collected := [], v_tx := v_tx v - {unat b}\<rparr>"
  have "shows_view (collect s) ?v1" using h_collect [OF assms(1)] o by blast
  then obtain s2 where 2: "ud_retrieve_collected_packet dev (collect s) = (0, 0, b, s2)" "shows_view s2 ?v2"
    using p_collected [of "collect s" ?v1 0 b "[]"] by auto
  have p: "parted dev {} u v" and tx: "unat b \<in> v_tx v" using o by simp_all
  have "parted dev {unat b} u ?v2" using partedD(4) [OF p tx] tx by (intro partedI [OF p]) auto
  then obtain m3 s3 R3 where 3: "buf_release dev b u s2 = (u\<lparr>bufAvail := m3\<rparr>, s3)" "shows_view s3 (?v2\<lparr>v_rx := R3\<rparr>)"
    "parted dev {} (u\<lparr>bufAvail := m3\<rparr>) (?v2\<lparr>v_rx := R3\<rparr>)" "v_rx ?v2 \<subseteq> R3"
    using release_step [OF 2(2)] by blast
  let ?u3 = "u\<lparr>bufAvail := m3\<rparr>" and ?v4 = "?v2\<lparr>v_rx := R3\<rparr>\<lparr>v_log := v_log v @ ?addr\<rparr>"
  have "ep0_sent dev 0 ?u3 s3 \<noteq> None" using sent_step [OF 3(2) refl, of 0 ?u3] o by (auto simp: tame_def cong: if_cong)
  then obtain s4 where 4: "ep0_sent dev 0 ?u3 s3 = Some (u'\<lparr>bufAvail := m3\<rparr>, s4)" "shows_view s4 ?v4"
    using sent_step [OF 3(2) refl, of 0 ?u3] by (auto simp: u'_def cong: if_cong)
  have call: "call_done dev cl 0 0 ?u3 s3 = ep0_sent dev 0 ?u3 s3" using o counts(1) by (simp add: call_done_def wf_utils_def)
  obtain s5 where 5: "retrieve_loop dev cl (u'\<lparr>bufAvail := m3\<rparr>) s4 = Some (u'\<lparr>bufAvail := m3\<rparr>, s5)" "shows_view s5 ?v4"
    using retrieve_idle [OF 4(2)] by auto
  have "parted dev {} (u'\<lparr>bufAvail := m3\<rparr>) ?v4" using 3(3) by (rule parted_cong) simp_all
  then obtain m6 s6 R6 where 6: "supply_buffers dev (u'\<lparr>bufAvail := m3\<rparr>) s5 = (u'\<lparr>bufAvail := m3\<rparr>\<lparr>bufAvail := m6\<rparr>, s6)"
    "shows_view s6 (?v4\<lparr>v_rx := R6\<rparr>)" "parted dev {} (u'\<lparr>bufAvail := m3\<rparr>\<lparr>bufAvail := m6\<rparr>) (?v4\<lparr>v_rx := R6\<rparr>)" "v_rx ?v4 \<subseteq> R6"
    using supply_step [OF 5(2)] by blast
  obtain s7 where 7: "take_loop dev cl (u'\<lparr>bufAvail := m6\<rparr>) s6 = Some (u'\<lparr>bufAvail := m6\<rparr>, s7)" "shows_view s7 (?v4\<lparr>v_rx := R6\<rparr>)"
    using take_idle [OF 6(2), of cl "u'\<lparr>bufAvail := m6\<rparr>"] o by auto
  have "retrieve_loop dev cl u (collect s) = do { (u, s) \<leftarrow> call_done dev cl 0 0 ?u3 s3; retrieve_loop dev cl u s }"
    using 2(1) 3(1) by (subst retrieve_loop.simps) simp
  also have "\<dots> = Some (u'\<lparr>bufAvail := m3\<rparr>, s5)" unfolding call 4(1) using 5(1) by simp
  finally have "service dev cl u (collect s) = Some (u'\<lparr>bufAvail := m6\<rparr>, s7)"
    using 6(1) 7(1) by (simp add: service_def)
  moreover have "ready dev (u'\<lparr>bufAvail := m6\<rparr>) (?v4\<lparr>v_rx := R6\<rparr>)"
  proof -
    have "parted dev {} (u'\<lparr>bufAvail := m6\<rparr>) (?v4\<lparr>v_rx := R6\<rparr>)" using 6(3) by (rule parted_cong) simp_all
    moreover have "R6 \<noteq> {}" using 3(4) 6(4) o by auto
    ultimately show ?thesis using o by (simp add: ready_def wf_utils_def u'_def)
  qed
  ultimately show ?thesis using 7(2) by (intro exI [of _ m6] exI [of _ s7] exI [of _ "?v4\<lparr>v_rx := R6\<rparr>"]) simp
qed

lemma one_transfer:
  assumes "shows_view s v" "ready dev u v" "length req = 8" "set_address req \<longrightarrow> unat (req ! 2) < 128"
  shows "\<exists>u1 s1 u2 s2 v2. service dev cl u (request req s) = Some (u1, s1) \<and> service dev cl u1 (collect s1) = Some (u2, s2) \<and>
    shows_view s2 v2 \<and> ready dev u2 v2 \<and> v_log v2 = v_log v @ transfer_log u req \<and> same_descriptors u u2 \<and>
    (devState u2, devAddr u2) = transfer_state req (devState u, devAddr u)"
proof -
  have "v_arrived v = []" "v_rx v \<noteq> {}" "v_waiting v 0 = None"
    using assms(2) none_waits [OF assms(1)] by (simp_all add: ready_def)
  then obtain b where b: "unat b \<in> v_rx v"
    "shows_view (request req s) (v\<lparr>v_arrived := [(\<lparr>buffer_id = b, endpoint_id = 0, is_setup = True, packet_size = 8\<rparr>, req)]\<rparr>)"
    using h_request [OF assms(1) _ _ _ assms(3)] by blast
  obtain p m s1 v1 where 1: "service dev cl u (request req s) = Some (u\<lparr>packetData := p, devAddr := request_addr req (devAddr u),
      ctrlState := request_state req, bufAvail := m\<rparr>, s1)" "shows_view s1 v1" "parted dev {} (u\<lparr>bufAvail := m\<rparr>) v1"
    "length p = MaxPacketLength dev" "v_rx v1 \<noteq> {}" "v_arrived v1 = []" "v_collected v1 = []"
    "v_log v1 = v_log v @ request_answer u req"
    "if request_state req = Ctrl_Setup then v_tx v1 = {} else \<exists>b. v_tx v1 = {unat (b :: u8)} \<and> v_waiting v1 0 = Some (unat b)"
    using service_request [OF assms(1-3) b, of cl] by (elim exE conjE) (rule that)
  let ?u1 = "u\<lparr>packetData := p, devAddr := request_addr req (devAddr u), ctrlState := request_state req, bufAvail := m\<rparr>"
  have p1: "parted dev {} ?u1 v1" using 1(3) by (rule parted_cong) simp_all
  have wf: "wf_utils dev ?u1" using assms(2) 1(4) by (simp add: ready_def wf_utils_def)
  show ?thesis
  proof (cases "request_state req = Ctrl_Setup")
    case True
    have w0: "v_waiting v1 0 = None" using True 1(9) none_waits [OF 1(2)] by simp
    have "ready dev ?u1 v1" using True assms(2) p1 wf 1(5-7,9) by (simp add: ready_def)
    then obtain m2 s2 R where 2: "service dev cl ?u1 (collect s1) = Some (?u1\<lparr>bufAvail := m2\<rparr>, s2)" "shows_view s2 (v1\<lparr>v_rx := R\<rparr>)"
      "ready dev (?u1\<lparr>bufAvail := m2\<rparr>) (v1\<lparr>v_rx := R\<rparr>)"
      using service_idle [OF h_nothing [OF 1(2) w0], of ?u1 cl] by auto
    have n: "\<not> set_address req" "req ! 1 \<noteq> 9" using True by (auto simp: request_state_def set_address_def split: if_splits)
    show ?thesis
      using 1(1,8) 2 n
      by (intro exI [of _ ?u1] exI [of _ s1] exI [of _ "?u1\<lparr>bufAvail := m2\<rparr>"] exI [of _ s2] exI [of _ "v1\<lparr>v_rx := R\<rparr>"])
        (simp add: transfer_log_def transfer_state_def same_descriptors_def request_addr_def set_address_def)
  next
    case False
    then obtain b' where b': "v_tx v1 = {unat (b' :: u8)}" "v_waiting v1 0 = Some (unat b')" using 1(9) by auto
    have t: "tame ?u1"
      using assms(4) request_addr_byte [of req] by (auto simp: tame_def request_state_def set_address_def split: if_splits)
    have op: "open_transfer ?u1 v1 b'" using assms(2) wf p1 b' 1(5-7) t by (simp add: open_transfer_def ready_def)
    obtain m2 s2 v2 where 2: "service dev cl ?u1 (collect s1) = Some (?u1\<lparr>devState := device_after (request_state req) (devState u), ctrlState := Ctrl_Setup\<rparr>\<lparr>bufAvail := m2\<rparr>, s2)"
      "shows_view s2 v2" "ready dev (?u1\<lparr>devState := device_after (request_state req) (devState u), ctrlState := Ctrl_Setup\<rparr>\<lparr>bufAvail := m2\<rparr>) v2"
      "v_log v2 = v_log v1 @ (if ctrlState ?u1 = Ctrl_StatusSetAddr then [Address (devAddr ?u1)] else [])"
      using service_completes [OF 1(2) op, of cl] by auto
    have st: "request_state req = Ctrl_StatusSetAddr \<longleftrightarrow> set_address req" "request_state req = Ctrl_StatusSetConfig \<longleftrightarrow> req ! 1 = 9"
      by (auto simp: request_state_def set_address_def)
    have "v_log v2 = v_log v @ transfer_log u req"
      using 2(4) 1(8) request_addr_byte [of req] by (auto simp: transfer_log_def st)
    moreover have "(device_after (request_state req) (devState u), request_addr req (devAddr u)) = transfer_state req (devState u, devAddr u)"
      using st request_addr_byte [of req] by (cases "request_state req") (auto simp: transfer_state_def device_after_def request_addr_def set_address_def)
    ultimately show ?thesis
      using 1(1) 2(1-3)
      by (intro exI [of _ ?u1] exI [of _ s1] exI [of _ "?u1\<lparr>devState := device_after (request_state req) (devState u), ctrlState := Ctrl_Setup\<rparr>\<lparr>bufAvail := m2\<rparr>"]
        exI [of _ s2] exI [of _ v2]) (simp add: same_descriptors_def)
  qed
qed

lemma transfers_run:
  "shows_view s v \<Longrightarrow> ready dev u v \<Longrightarrow> \<forall>req\<in>set reqs. length req = 8 \<and> (set_address req \<longrightarrow> unat (req ! 2) < 128) \<Longrightarrow>
   \<exists>u' s' v'. control_transfers dev cl request collect reqs u s = Some (u', s') \<and> shows_view s' v' \<and> ready dev u' v' \<and>
     v_log v' = v_log v @ concat (map (transfer_log u) reqs) \<and> (devState u', devAddr u') = fold transfer_state reqs (devState u, devAddr u)"
proof (induction reqs arbitrary: u s v)
  case (Cons req reqs)
  obtain u1 s1 u2 s2 v2 where 1: "service dev cl u (request req s) = Some (u1, s1)" "service dev cl u1 (collect s1) = Some (u2, s2)"
    "shows_view s2 v2" "ready dev u2 v2" "v_log v2 = v_log v @ transfer_log u req" "same_descriptors u u2"
    "(devState u2, devAddr u2) = transfer_state req (devState u, devAddr u)"
    using one_transfer [OF Cons.prems(1,2), of req cl] Cons.prems(3) by auto
  with Cons.IH [OF 1(3,4)] Cons.prems(3) show ?case by (auto simp: transfer_log_same [OF 1(6)])
qed auto

end

section \<open>A simulated device, host and client\<close>

text \<open>
  The state of the device is its view and the packet that was taken last. It takes buffers for reception, lowest first, up to 20;
  the host uses the lowest of them. The client sends back what it receives.
\<close>

fun sim_give :: "nat list \<Rightarrow> u64 \<Rightarrow> nat set \<Rightarrow> u64 \<times> nat set" where
  "sim_give [] a R = (a, R)"
| "sim_give (b # bs) a R =
    (if bit a b \<and> card R < 20 then sim_give bs (a AND NOT (push_bit b 1)) (insert b R) else sim_give bs a R)"

definition sim_usb :: "(usb_view \<times> u8 list) usbdev_ops" where
  "sim_usb = \<lparr>BufferCount = 32, MaxEndpoints = 12, MaxPacketLength = 64,
     ud_init = (\<lambda>avail s. case sim_give [0..<64] avail {} of (a, R) \<Rightarrow>
       (0, a, \<lparr>v_rx = R, v_tx = {}, v_waiting = Map.empty, v_lost = {}, v_arrived = [], v_collected = [], v_log = []\<rparr>, [])),
     ud_connect = (\<lambda>s. (0, s)), ud_disconnect = (\<lambda>s. s), ud_connected = (\<lambda>s. (True, s)),
     ud_supply_buffers = (\<lambda>avail (v, d). case sim_give [0..<64] avail (v_rx v) of (a, R) \<Rightarrow> (a, v\<lparr>v_rx := R\<rparr>, d)),
     ud_out_endpoint_configure = (\<lambda>ep en st iso' s. (if unat ep < 12 then 0 else - 22, s)),
     ud_in_endpoint_configure = (\<lambda>ep en iso' s. (if unat ep < 12 then 0 else - 22, s)),
     ud_endpoint_stalling_set = (\<lambda>ep on (v, d). (0, v\<lparr>v_log := v_log v @ [Stalled ep on]\<rparr>, d)),
     ud_device_address_set = (\<lambda>a (v, d). if unat a < 128 then (0, v\<lparr>v_log := v_log v @ [Address a]\<rparr>, d) else (- 22, v, d)),
     ud_packet_send = (\<lambda>b ep data sz (v, d).
       ((v_sends (unat ep) (unat b) v)\<lparr>v_log := v_log v @ [Sent ep (take (unat sz) data)]\<rparr>, d)),
     ud_retrieve_collected_packet = (\<lambda>(v, d). case v_collected v of
       [] \<Rightarrow> (- 2, 0, 0, v, d) | (ep, b) # r \<Rightarrow> (0, ep, b, v\<lparr>v_collected := r, v_tx := v_tx v - {unat b}\<rparr>, d)),
     ud_packet_take = (\<lambda>(v, d). case v_arrived v of
       [] \<Rightarrow> (None, v, d) | (info, data) # r \<Rightarrow> (Some info, v\<lparr>v_arrived := r, v_rx := v_rx v - {unat (buffer_id info)}\<rparr>, data)),
     ud_packet_data_get = (\<lambda>info buf (v, d). (blit buf 0 d, v, d))\<rparr>"

definition sim_shows :: "usb_view \<times> u8 list \<Rightarrow> usb_view \<Rightarrow> bool" where
  "sim_shows s v \<longleftrightarrow> fst s = v \<and> sane sim_usb 20 v"

definition sim_request :: "u8 list \<Rightarrow> usb_view \<times> u8 list \<Rightarrow> usb_view \<times> u8 list" where
  "sim_request req s = ((fst s)\<lparr>v_arrived := [(\<lparr>buffer_id = of_nat (Min (v_rx (fst s))), endpoint_id = 0, is_setup = True, packet_size = 8\<rparr>, req)]\<rparr>, snd s)"

definition sim_collect :: "usb_view \<times> u8 list \<Rightarrow> usb_view \<times> u8 list" where
  "sim_collect s = (case v_waiting (fst s) 0 of None \<Rightarrow> s
     | Some b \<Rightarrow> ((fst s)\<lparr>v_collected := [(0, of_nat b)], v_waiting := (v_waiting (fst s))(0 := None)\<rparr>, snd s))"

definition echo_client :: "(usb_view \<times> u8 list) usb_client" where
  "echo_client = \<lparr>
     client_recv = (\<lambda>n ep su data len u s. map_option snd (send_data sim_usb ep data len u s)),
     client_done = (\<lambda>n rc u s. Some (u, s))\<rparr>"

lemma sim_give_moves:
  "sim_give bs a R = (a', R') \<Longrightarrow> finite R \<Longrightarrow>
   (\<forall>n. bit a' n \<longrightarrow> bit a n) \<and> R' = R \<union> {n. bit a n \<and> \<not> bit a' n} \<and> finite R' \<and> (card R \<le> 20 \<longrightarrow> card R' \<le> 20)"
proof (induction bs arbitrary: a R)
  case (Cons b bs)
  show ?case
  proof (cases "bit a b \<and> card R < 20")
    case True
    from Cons.IH [of "a AND NOT (push_bit b 1)" "insert b R"] Cons.prems True
    have i: "\<forall>n. bit a' n \<longrightarrow> bit a n \<and> n \<noteq> b" "R' = insert b R \<union> {n. (bit a n \<and> n \<noteq> b) \<and> \<not> bit a' n}" "finite R'"
      "card (insert b R) \<le> 20 \<longrightarrow> card R' \<le> 20" by (auto simp: bit_and_not_push)
    have "card (insert b R) \<le> 20" using True Cons.prems(2) by (simp add: card_insert_if)
    with i True show ?thesis by auto
  next
    case False
    with Cons show ?thesis by auto
  qed
qed auto

lemma sim_give_some: "sim_give bs a R = (a', R') \<Longrightarrow> bit a b \<Longrightarrow> b \<in> set bs \<Longrightarrow> finite R \<Longrightarrow> R' \<noteq> {}"
proof (induction bs arbitrary: a R)
  case (Cons c bs)
  show ?case
  proof (cases "bit a c \<and> card R < 20")
    case True
    then have "sim_give bs (a AND NOT (push_bit c 1)) (insert c R) = (a', R')" using Cons.prems(1) by simp
    from sim_give_moves [OF this] Cons.prems(4) show ?thesis by auto
  next
    case False
    then have g: "sim_give bs a R = (a', R')" using Cons.prems(1) by auto
    show ?thesis
    proof (cases "b = c")
      case True
      with False Cons.prems(2) have "R \<noteq> {}" by auto
      then show ?thesis using sim_give_moves [OF g Cons.prems(4)] by auto
    next
      case False
      with Cons.prems g show ?thesis by (intro Cons.IH [OF g]) auto
    qed
  qed
qed simp

lemma sane_tx_cong:
  "v_tx v' = v_tx v \<Longrightarrow> v_lost v' = v_lost v \<Longrightarrow> v_waiting v' = v_waiting v \<Longrightarrow> v_collected v' = v_collected v \<Longrightarrow>
   sane_tx dev v' \<longleftrightarrow> sane_tx dev v"
  by (simp add: sane_tx_def collected_bufs_def)

lemma sane_more_rx: "sane dev limit v \<Longrightarrow> v_rx v \<subseteq> R \<Longrightarrow> finite R \<Longrightarrow> card R \<le> limit \<Longrightarrow> R \<subseteq> {..<256} \<Longrightarrow> sane dev limit (v\<lparr>v_rx := R\<rparr>)"
  by (auto simp: sane_def sane_tx_def collected_bufs_def arrival_ok_def list_all_iff)

lemma sane_log: "sane dev limit (v\<lparr>v_log := l\<rparr>) \<longleftrightarrow> sane dev limit v"
  by (simp add: sane_def sane_tx_def collected_bufs_def arrival_ok_def list_all_iff)

lemma ran_upd_inj:
  assumes "inj_on w (dom w)"
  shows "ran (w(ep := None)) = ran w - set_option (w ep)" "ran (w(ep \<mapsto> b)) = insert b (ran w - set_option (w ep))"
proof -
  have "x \<in> ran (w(ep := None)) \<longleftrightarrow> x \<in> ran w - set_option (w ep)" for x
  proof -
    have one: "i = j" if "w i = Some x" "w j = Some x" for i j using assms that by (auto simp: inj_on_def dom_def)
    show ?thesis using one by (auto simp: ran_def) metis
  qed
  then show n: "ran (w(ep := None)) = ran w - set_option (w ep)" by blast
  have "ran ((w(ep := None))(ep \<mapsto> b)) = insert b (ran (w(ep := None)))" by (rule ran_map_upd) simp
  then show "ran (w(ep \<mapsto> b)) = insert b (ran w - set_option (w ep))" by (simp add: n)
qed

lemma sane_send:
  assumes "sane dev limit v" "b \<notin> v_tx v" "unat ep < MaxEndpoints dev" "told ep v"
  shows "sane dev limit (v_sends (unat ep) b v)"
proof -
  have t: "sane_tx dev v" using assms(1) by (simp add: sane_def)
  have inj: "inj_on (v_waiting v) (dom (v_waiting v))" using t by (simp add: sane_tx_def)
  have old: "set_option (v_waiting v (unat ep)) \<subseteq> ran (v_waiting v)" by (auto simp: ran_def)
  have "inj_on ((v_waiting v)(unat ep \<mapsto> b)) (dom ((v_waiting v)(unat ep \<mapsto> b)))"
    using inj assms(2) t by (auto simp: inj_on_def sane_tx_def dom_def ran_def)
  moreover have "\<forall>p\<in>set (v_collected v). unat (fst p) \<noteq> unat ep" using assms(4) by (force simp: told_def word_unat_eq_iff)
  moreover have "collected_bufs (v_sends (unat ep) b v) = collected_bufs v" by (simp add: collected_bufs_def)
  ultimately have "sane_tx dev (v_sends (unat ep) b v)"
    using t old assms(2,3) unfolding sane_tx_def by (simp add: ran_upd_inj(2) [OF inj]) blast
  moreover have "arrival_ok dev (v_sends (unat ep) b v) = arrival_ok dev v" by (simp add: arrival_ok_def fun_eq_iff)
  ultimately show ?thesis using assms(1) by (simp add: sane_def)
qed

lemma sane_collected:
  assumes "sane dev limit v" "v_collected v = (ep, b) # r"
  shows "sane dev limit (v\<lparr>v_collected := r, v_tx := v_tx v - {unat b}\<rparr>)"
proof -
  let ?v = "v\<lparr>v_collected := r, v_tx := v_tx v - {unat b}\<rparr>"
  have t: "sane_tx dev v" using assms(1) by (simp add: sane_def)
  have "unat b \<notin> collected_bufs ?v" using t assms(2) by (auto simp: sane_tx_def collected_bufs_def word_unat_eq_iff [symmetric] image_iff)
  moreover have "collected_bufs v = insert (unat b) (collected_bufs ?v)" using assms(2) by (simp add: collected_bufs_def)
  moreover have "v_tx v = v_lost v \<union> ran (v_waiting v) \<union> collected_bufs v" "v_lost v \<inter> ran (v_waiting v) = {}"
    "v_lost v \<inter> collected_bufs v = {}" "ran (v_waiting v) \<inter> collected_bufs v = {}" using t by (simp_all add: sane_tx_def)
  ultimately have "v_tx v - {unat b} = v_lost v \<union> ran (v_waiting v) \<union> collected_bufs ?v"
    "v_lost v \<inter> collected_bufs ?v = {}" "ran (v_waiting v) \<inter> collected_bufs ?v = {}" by blast+
  then have "sane_tx dev ?v" using t assms(2) by (simp add: sane_tx_def)
  moreover have "arrival_ok dev ?v = arrival_ok dev v" by (simp add: arrival_ok_def fun_eq_iff)
  ultimately show ?thesis using assms(1) by (simp add: sane_def)
qed

text \<open>The host collects the packet that waits at endpoint zero.\<close>

lemma sane_collect:
  assumes "sane dev limit v" "v_collected v = []" "v_waiting v 0 = Some (unat b)"
  shows "sane dev limit (v\<lparr>v_collected := [(0, b)], v_waiting := (v_waiting v)(0 := None)\<rparr>)"
proof -
  let ?v = "v\<lparr>v_collected := [(0, b)], v_waiting := (v_waiting v)(0 := None)\<rparr>"
  have t: "sane_tx dev v" using assms(1) by (simp add: sane_def)
  have inj: "inj_on (v_waiting v) (dom (v_waiting v))" using t by (simp add: sane_tx_def)
  have "unat b \<in> ran (v_waiting v)" using assms(3) by (auto simp: ran_def)
  moreover have "inj_on ((v_waiting v)(0 := None)) (dom (v_waiting v) - {0})" using inj by (auto simp: inj_on_def)
  moreover have "0 < MaxEndpoints dev" using t assms(3) by (auto simp: sane_tx_def)
  ultimately have "sane_tx dev ?v"
    using t assms(2,3) unfolding sane_tx_def by (simp add: ran_upd_inj(1) [OF inj] collected_bufs_def) blast
  moreover have "arrival_ok dev ?v = arrival_ok dev v" by (simp add: arrival_ok_def fun_eq_iff)
  ultimately show ?thesis using assms(1) by (simp add: sane_def)
qed

lemma sane_arrived:
  assumes "sane dev limit v" "v_arrived v = (info, data) # r"
  shows "sane dev limit (v\<lparr>v_arrived := r, v_rx := v_rx v - {unat (buffer_id info)}\<rparr>)"
proof -
  let ?v = "v\<lparr>v_arrived := r, v_rx := v_rx v - {unat (buffer_id info)}\<rparr>"
  have f: "finite (v_rx v)" "card (v_rx v) \<le> limit" "v_rx v \<subseteq> {..<256}" "buffer_id info \<notin> (buffer_id \<circ> fst) ` set r"
    "list_all (arrival_ok dev v) r" using assms by (simp_all add: sane_def)
  have "card (v_rx v - {unat (buffer_id info)}) \<le> limit" using f(1,2) by (meson card_Diff1_le le_trans)
  moreover have "list_all (arrival_ok dev ?v) r"
    unfolding list_all_iff
  proof
    fix p
    assume p: "p \<in> set r"
    then have "buffer_id (fst p) \<noteq> buffer_id info" using f(4) by (metis comp_apply image_eqI)
    then show "arrival_ok dev ?v p" using f(5) p by (auto simp: arrival_ok_def list_all_iff word_unat_eq_iff)
  qed
  moreover have "sane_tx dev ?v \<longleftrightarrow> sane_tx dev v" by (rule sane_tx_cong) simp_all
  ultimately show ?thesis using assms f(1,3) by (auto simp: sane_def)
qed

lemma sim_sel [simp]:
  "BufferCount sim_usb = 32" "MaxEndpoints sim_usb = 12" "MaxPacketLength sim_usb = 64"
  "ud_init sim_usb avail s = (case sim_give [0..<64] avail {} of (a, R) \<Rightarrow>
     (0, a, \<lparr>v_rx = R, v_tx = {}, v_waiting = Map.empty, v_lost = {}, v_arrived = [], v_collected = [], v_log = []\<rparr>, []))"
  "ud_connect sim_usb s = (0, s)" "ud_disconnect sim_usb s = s" "ud_connected sim_usb s = (True, s)"
  "ud_supply_buffers sim_usb avail (v, d) = (case sim_give [0..<64] avail (v_rx v) of (a, R) \<Rightarrow> (a, v\<lparr>v_rx := R\<rparr>, d))"
  "ud_out_endpoint_configure sim_usb ep en st iso' s = (if unat ep < 12 then 0 else - 22, s)"
  "ud_in_endpoint_configure sim_usb ep en iso' s = (if unat ep < 12 then 0 else - 22, s)"
  "ud_endpoint_stalling_set sim_usb ep on (v, d) = (0, v\<lparr>v_log := v_log v @ [Stalled ep on]\<rparr>, d)"
  "ud_device_address_set sim_usb x (v, d) = (if unat x < 128 then (0, v\<lparr>v_log := v_log v @ [Address x]\<rparr>, d) else (- 22, v, d))"
  "ud_packet_send sim_usb b ep data sz (v, d) = ((v_sends (unat ep) (unat b) v)\<lparr>v_log := v_log v @ [Sent ep (take (unat sz) data)]\<rparr>, d)"
  "ud_retrieve_collected_packet sim_usb (v, d) = (case v_collected v of
     [] \<Rightarrow> (- 2, 0, 0, v, d) | (ep, b) # r \<Rightarrow> (0, ep, b, v\<lparr>v_collected := r, v_tx := v_tx v - {unat b}\<rparr>, d))"
  "ud_packet_take sim_usb (v, d) = (case v_arrived v of
     [] \<Rightarrow> (None, v, d) | (info, data) # r \<Rightarrow> (Some info, v\<lparr>v_arrived := r, v_rx := v_rx v - {unat (buffer_id info)}\<rparr>, data))"
  "ud_packet_data_get sim_usb info buf (v, d) = (blit buf 0 d, v, d)"
  by (simp_all add: sim_usb_def)

lemma sim_supply:
  assumes "sane sim_usb 20 v" "sim_give [0..<64] a (v_rx v) = (a', R')"
  shows "(\<forall>n. bit a' n \<longrightarrow> bit a n) \<and> (a \<noteq> 0 \<longrightarrow> R' \<noteq> {}) \<and> R' = v_rx v \<union> {n. bit a n \<and> \<not> bit a' n} \<and> sane sim_usb 20 (v\<lparr>v_rx := R'\<rparr>)"
proof -
  have v: "finite (v_rx v)" "card (v_rx v) \<le> 20" "v_rx v \<subseteq> {..<256}" using assms(1) by (simp_all add: sane_def)
  note m = sim_give_moves [OF assms(2) v(1)]
  have "bit a n \<Longrightarrow> n < 256" for n using bit_imp_le_length [of a n] by simp
  then have "R' \<subseteq> {..<256}" using m v(3) by auto
  then have "sane sim_usb 20 (v\<lparr>v_rx := R'\<rparr>)" using m v(2) by (intro sane_more_rx [OF assms(1)]) auto
  moreover have "R' \<noteq> {}" if nz: "a \<noteq> 0"
  proof -
    obtain n where n: "bit a n" using nz bit_eq_iff [of a 0] by auto
    then have "n \<in> set [0..<64]" using bit_imp_le_length [of a n] by simp
    from sim_give_some [OF assms(2) n this v(1)] show ?thesis .
  qed
  ultimately show ?thesis using m by blast
qed

interpretation sim_port: usb_port sim_usb sim_shows 20
proof
  show "\<exists>avail' s'. ud_init sim_usb avail s = (0, avail', s') \<and> (\<forall>n. bit avail' n \<longrightarrow> bit avail n) \<and>
      sim_shows s' \<lparr>v_rx = {n. bit avail n \<and> \<not> bit avail' n}, v_tx = {}, v_waiting = Map.empty, v_lost = {}, v_arrived = [], v_collected = [], v_log = []\<rparr>"
    for avail s
  proof -
    let ?v = "\<lparr>v_rx = {}, v_tx = {}, v_waiting = Map.empty, v_lost = {}, v_arrived = [], v_collected = [], v_log = []\<rparr>"
    obtain a R where g: "sim_give [0..<64] avail (v_rx ?v) = (a, R)" by fastforce
    have "sane sim_usb 20 ?v" by (simp add: sane_def sane_tx_def collected_bufs_def)
    from sim_supply [OF this g] g show ?thesis by (auto simp: sim_shows_def)
  qed
next
  fix s v avail avail' s'
  assume 1: "sim_shows s v" "ud_supply_buffers sim_usb avail s = (avail', s')"
  obtain d where s: "s = (v, d)" "sane sim_usb 20 v" using 1(1) by (cases s) (simp add: sim_shows_def)
  obtain a R where g: "sim_give [0..<64] avail (v_rx v) = (a, R)" by fastforce
  then have "avail' = a" "s' = (v\<lparr>v_rx := R\<rparr>, d)" using 1(2) s(1) by simp_all
  with sim_supply [OF s(2) g] show "(\<forall>n. bit avail' n \<longrightarrow> bit avail n) \<and>
      (avail \<noteq> 0 \<longrightarrow> 0 < (20 :: nat) \<longrightarrow> v_rx v \<union> {n. bit avail n \<and> \<not> bit avail' n} \<noteq> {}) \<and>
      sim_shows s' (v\<lparr>v_rx := v_rx v \<union> {n. bit avail n \<and> \<not> bit avail' n}\<rparr>)"
    by (auto simp: sim_shows_def)
next
  fix s v info data rest buf
  assume 1: "sim_shows s v" "v_arrived v = (info, data) # rest"
  obtain d where s: "s = (v, d)" "sane sim_usb 20 v" using 1(1) by (cases s) (simp add: sim_shows_def)
  show "\<exists>s' s''. ud_packet_take sim_usb s = (Some info, s') \<and> ud_packet_data_get sim_usb info buf s' = (blit buf 0 data, s'') \<and>
      sim_shows s'' (v\<lparr>v_arrived := rest, v_rx := v_rx v - {unat (buffer_id info)}\<rparr>)"
    using sane_arrived [OF s(2) 1(2)] by (simp add: s(1) 1(2) sim_shows_def)
next
  fix s v ep b r
  assume 1: "sim_shows s v" "v_collected v = (ep, b) # r"
  obtain d where s: "s = (v, d)" "sane sim_usb 20 v" using 1(1) by (cases s) (simp add: sim_shows_def)
  show "\<exists>s'. ud_retrieve_collected_packet sim_usb s = (0, ep, b, s') \<and> sim_shows s' (v\<lparr>v_collected := r, v_tx := v_tx v - {unat b}\<rparr>)"
    using sane_collected [OF s(2) 1(2)] by (simp add: s(1) 1(2) sim_shows_def)
next
  fix s v data and ep sz b :: u8
  assume 1: "sim_shows s v" "unat ep < MaxEndpoints sim_usb" "unat b \<notin> v_rx v \<union> v_tx v" "told ep v"
  obtain d where s: "s = (v, d)" "sane sim_usb 20 v" using 1(1) by (cases s) (simp add: sim_shows_def)
  have "sane sim_usb 20 ((v_sends (unat ep) (unat b) v)\<lparr>v_log := v_log v @ [Sent ep (take (unat sz) data)]\<rparr>)"
    unfolding sane_log using 1(3) by (intro sane_send [OF s(2) _ 1(2,4)]) simp
  then show "sim_shows (ud_packet_send sim_usb b ep data sz s)
      ((v_sends (unat ep) (unat b) v)\<lparr>v_log := v_log v @ [Sent ep (take (unat sz) data)]\<rparr>)"
    by (simp add: s(1) sim_shows_def)
qed (auto simp: sim_shows_def sane_log split: if_splits)

interpretation sim_callbacks: usb_callbacks sim_usb sim_shows 20 echo_client
proof
  fix s v u n su and len :: u16 and ep :: u8 and data :: "u8 list"
  assume 1: "sim_shows s v" "wf_utils sim_usb u" "parted sim_usb {} u v" "unat len \<le> MaxPacketLength sim_usb"
    "length data = MaxPacketLength sim_usb" "unat ep < MaxEndpoints sim_usb" "v_collected v = []"
  from sim_port.send_data_step [OF 1(1-3,6), of len data] 1(4,5,7)
  show "\<exists>u' s' v'. client_recv echo_client n ep su data len u s = Some (u', s') \<and> sim_shows s' v' \<and> kept sim_usb u v u' v'"
    by (fastforce simp: echo_client_def)
qed (auto simp: echo_client_def kept_def)

interpretation sim_host: usb_host sim_usb sim_shows 20 sim_request sim_collect
proof
  fix s v and req :: "u8 list"
  assume 1: "sim_shows s v" "v_arrived v = []" "v_rx v \<noteq> {}" "length req = 8"
  let ?i = "\<lparr>buffer_id = of_nat (Min (v_rx v)), endpoint_id = 0, is_setup = True, packet_size = 8\<rparr> :: packet_info"
  have v: "sane sim_usb 20 v" "finite (v_rx v)" "v_rx v \<subseteq> {..<256}" using 1(1) by (simp_all add: sim_shows_def sane_def)
  then have "Min (v_rx v) \<in> v_rx v" using 1(3) by simp
  with v(3) have b: "unat (of_nat (Min (v_rx v)) :: u8) \<in> v_rx v" by (auto simp: unsigned_of_nat take_bit_nat_eq_self)
  have "sane_tx sim_usb (v\<lparr>v_arrived := [(?i, req)]\<rparr>) \<longleftrightarrow> sane_tx sim_usb v" by (rule sane_tx_cong) simp_all
  then have "sane sim_usb 20 (v\<lparr>v_arrived := [(?i, req)]\<rparr>)" using v(1) b 1(4) by (simp add: sane_def arrival_ok_def)
  with b 1(1) show "\<exists>b. unat b \<in> v_rx v \<and> sim_shows (sim_request req s)
      (v\<lparr>v_arrived := [(\<lparr>buffer_id = b, endpoint_id = 0, is_setup = True, packet_size = 8\<rparr>, req)]\<rparr>)"
    by (intro exI [of _ "of_nat (Min (v_rx v))"]) (simp add: sim_shows_def sim_request_def)
next
  fix s v and b :: u8
  assume 1: "sim_shows s v" "v_collected v = []" "v_waiting v 0 = Some (unat b)"
  then have "sane sim_usb 20 (v\<lparr>v_collected := [(0, b)], v_waiting := (v_waiting v)(0 := None)\<rparr>)"
    by (intro sane_collect) (simp_all add: sim_shows_def)
  with 1 show "sim_shows (sim_collect s) (v\<lparr>v_collected := [(0, b)], v_waiting := (v_waiting v)(0 := None)\<rparr>)"
    by (simp add: sim_shows_def sim_collect_def)
qed (auto simp: sim_collect_def sim_shows_def)

section \<open>Defects\<close>

text \<open>
  A request that arrives while a transfer is open is dropped: the pipe only returns to its first state. A host that gives up a
  transfer and asks again gets no answer to the second request.
\<close>

lemma utils_request_dropped:
  assumes "usb_port dev sv limit" "sv s v" "wf_utils dev u" "parted dev {} u v" "bufAvail u \<noteq> 0" "told 0 v" "ctrlState u \<noteq> Ctrl_Setup"
  shows "\<exists>u' s' v'. ep0_recv dev 0 True req 8 u s = Some (u', s') \<and> sv s' v' \<and> v_log v' = v_log v \<and> v_tx v' = v_tx v \<and> ctrlState u' = Ctrl_Setup"
  using usb_port.recv_step [OF assms(1-6), of 0 True req 8] assms(7) by auto

text \<open>The length of a reply is passed on as eight bits: of a longer configuration descriptor the remainder modulo 256 is sent.\<close>

lemma utils_long_descriptor_truncated:
  assumes "req ! 1 = 6" "req ! 3 = 2" "unat (cfgLen u) \<le> unat (le16 (req ! 6) (req ! 7))"
  shows "ep0_request dev b req u s = Some (False, u\<lparr>ctrlState := Ctrl_StatusGetDesc\<rparr>,
    ud_packet_send dev b 0 (cfgDscr u) (of_nat (unat (cfgLen u) mod 256)) s)"
proof -
  have "limited (le16 (req ! 6) (req ! 7)) (cfgLen u) = cfgLen u"
    using assms(3) by (auto simp: limited_def word_less_nat_alt word_unat_eq_iff)
  moreover have "(ucast (cfgLen u) :: u8) = of_nat (unat (cfgLen u) mod 256)"
    by (simp add: word_unat_eq_iff unsigned_ucast_eq unsigned_of_nat take_bit_eq_mod)
  ultimately show ?thesis using assms(1,2) by (simp add: ep0_request_def ep0_reply_def request_codes)
qed

text \<open>
  The assertion on the result of setting the address: when the driver refuses the address the host has named, \<open>service\<close> does not
  return once the host has collected the reply.
\<close>

lemma utils_bad_address_aborts:
  assumes "usb_port dev sv limit" "sv s v" "v_collected v = (ep, b) # r" "unat ep < length (epInCtx u)" "epInCtx u ! unat ep = ep0_sent_cb"
    "ctrlState u = Ctrl_StatusSetAddr" "\<And>s. fst (ud_device_address_set dev (devAddr u) s) \<noteq> 0"
  shows "service dev cl u s = None"
proof -
  obtain s1 where 1: "ud_retrieve_collected_packet dev s = (0, ep, b, s1)"
    using usb_port.p_collected [OF assms(1-3)] by blast
  obtain m s2 where 2: "ud_supply_buffers dev (bufAvail u OR push_bit (unat b) 1) s1 = (m, s2)" by fastforce
  obtain rc s3 where 3: "ud_device_address_set dev (devAddr u) s2 = (rc, s3)" "rc \<noteq> 0"
    using assms(7) [of s2] by (cases "ud_device_address_set dev (devAddr u) s2") simp
  have "call_done dev cl ep 0 (u\<lparr>bufAvail := m\<rparr>) s2 = None"
    using assms(4-6) 3 by (simp add: call_done_def ep0_sent_def)
  then have "retrieve_loop dev cl u s = None"
    by (subst retrieve_loop.simps) (simp add: 1 buf_release_def 2)
  then show ?thesis by (simp add: service_def)
qed

section \<open>Properties\<close>

text \<open>C11. Every packet buffer is accounted for: after construction and any order of public operations, with any moves of the device
  between them and callbacks that keep their contract, every buffer is in exactly one place: in the bitmap of the object, with the device for
  reception, waiting to be sent at one endpoint, collected by the host, or lost; so none is given out twice, and the arrays of the
  object keep their size. What is lost is what the one \<open>configin\<close> register of an endpoint loses (\<open>programmers_guide.md\<close> of the device):
  a packet that waits when the next is sent on its endpoint, or that a SETUP cancels. The class does not get such a buffer
  back. It is assumed that a client sends data only on an endpoint of whose collected packets it has been told.\<close>

theorem utils_buffers_partitioned:
  assumes "usb_callbacks dev sv limit cl" "0 < limit" "utils_reach dev cl sv u s"
  shows "\<exists>v. sv s v \<and> accounted dev u v \<and> wf_utils dev u"
proof -
  have port: "usb_port dev sv limit" using assms(1) by (simp add: usb_callbacks_def)
  obtain v where v: "sv s v" "wf_utils dev u" "parted dev {} u v" using usb_callbacks.reach_parted [OF assms] by blast
  then have "sane_tx dev v" using usb_port.p_sane [OF port v(1)] by (simp add: sane_def)
  with v parted_accounted show ?thesis by blast
qed

text \<open>C12. \<open>service\<close> returns: in every state that construction, public operations and moves of the device lead to, whatever
  packets have arrived and have been collected on whichever endpoints, no assertion fails and both loops end with nothing left to collect or
  to take, provided that the callbacks of the client keep their contract, that there is a buffer for every packet that waits, next to those
  with the device for sending and the most that reception takes (\<open>roomy\<close>), and that the address the pipe is about to set, if it is,
  is below 128 (\<open>tame\<close>). The last condition holds again afterwards if no request that has arrived asks for another address
  (\<open>polite\<close>); a host that asks for one, and collects the reply, makes the assertion in \<open>ep0_sent\<close> fail: \<open>utils_bad_address_aborts\<close>.\<close>

theorem utils_service_returns:
  assumes "usb_callbacks dev sv limit cl" "0 < limit" "utils_reach dev cl sv u s" "sv s v" "tame u" "roomy dev limit v"
  shows "\<exists>u' s' v'. service dev cl u s = Some (u', s') \<and> sv s' v' \<and> v_arrived v' = [] \<and> v_collected v' = [] \<and> parted dev {} u' v' \<and>
    (list_all polite (v_arrived v) \<longrightarrow> tame u')"
proof -
  have port: "usb_port dev sv limit" using assms(1) by (simp add: usb_callbacks_def)
  obtain w where w: "sv s w" "wf_utils dev u" "parted dev {} u w" using usb_callbacks.reach_parted [OF assms(1-3)] by blast
  then have "w = v" using usb_port.p_unique [OF port assms(4)] by blast
  with usb_callbacks.service_runs [OF assms(1) w] assms(5,6) show ?thesis by (cases "service dev cl u s") auto
qed

text \<open>C10. The control pipe implements control transfers: with descriptors that fit into one packet (\<open>descriptor_ok\<close>), a host that sends
  any sequence of eight-byte requests to a new device, none of which sets an address above 127, and that collects each reply before it sends the
  next request, sees, for each, exactly what it asked for (the descriptor up to the length it named, an empty acknowledgement, a
  stall or nothing), and the device ends in the state and with the address the requests prescribe. What happens outside these
  conditions is in \<open>utils_long_descriptor_truncated\<close>, \<open>utils_bad_address_aborts\<close> and \<open>utils_request_dropped\<close>.\<close>

theorem utils_control_transfers:
  assumes "usb_host dev sv limit request collect" "blank_members dev raw"
    and "descriptor_ok dev d (unat dl)" "descriptor_ok dev c (unat cfgl)" "descriptor_ok dev t (unat tl')"
    and "\<forall>req\<in>set reqs. length req = 8 \<and> (set_address req \<longrightarrow> unat (req ! 2) < 128)"
  shows "\<exists>u s u' s' v'. UsbdevUtils_new dev d dl c cfgl t tl' raw s0 = Some (u, s) \<and>
    devDscr u = d \<and> devLen u = dl \<and> cfgDscr u = c \<and> cfgLen u = cfgl \<and> testDscr u = t \<and> testLen u = tl' \<and>
    control_transfers dev cl request collect reqs u s = Some (u', s') \<and> sv s' v' \<and> v_log v' = concat (map (transfer_log u) reqs) \<and>
    (devState u', devAddr u') = fold transfer_state reqs (Device_Powered, 0)"
proof -
  have port: "usb_port dev sv limit" using assms(1) by (simp add: usb_host_def)
  have lim: "0 < limit" by (rule usb_host.some_limit(1) [OF assms(1)])
  obtain u s v where n: "UsbdevUtils_new dev d dl c cfgl t tl' raw s0 = Some (u, s)" "sv s v" "ready dev u v" "v_log v = []"
    "devState u = Device_Powered" "devAddr u = 0" "devDscr u = d" "devLen u = dl" "cfgDscr u = c" "cfgLen u = cfgl"
    "testDscr u = t" "testLen u = tl'"
    using usb_port.new_runs [OF port assms(2-5) lim, of s0] by (elim exE conjE) (rule that)
  obtain u' s' v' where "control_transfers dev cl request collect reqs u s = Some (u', s')" "sv s' v'"
    "v_log v' = v_log v @ concat (map (transfer_log u) reqs)" "(devState u', devAddr u') = fold transfer_state reqs (devState u, devAddr u)"
    using usb_host.transfers_run [OF assms(1) n(2,3) assms(6), of cl] by blast
  with n show ?thesis by (intro exI [of _ u] exI [of _ s] exI [of _ u'] exI [of _ s'] exI [of _ v']) simp
qed

section \<open>Witnesses on the simulated device\<close>

definition demo_device_dscr :: "u8 list" where
  "demo_device_dscr = [0x12, 1, 0, 2, 0, 0, 0, 64, 0xd1, 0x18, 0x3a, 0x50, 0, 1, 0, 0, 0, 1]"

definition demo_config_dscr :: "u8 list" where
  "demo_config_dscr = USB_CFG_DSCR_HEAD 32 1 @ VEND_INTERFACE_DSCR 0 2 0x50 1 @ USB_BULK_EP_DSCR 0 1 64 0 @ USB_BULK_EP_DSCR 1 1 64 4"

definition demo_raw :: UsbdevUtils where
  "demo_raw = \<lparr>devAddr = 0, devState = Device_Powered, ctrlState = Ctrl_Setup, devDscr = [], devLen = 0, cfgDscr = [], cfgLen = 0,
     testDscr = [], testLen = 0, bufAvail = 0, epInCtx = replicate 12 Done_null, epOutCtx = replicate 12 Recv_null,
     packetData = replicate 64 0\<rparr>"

lemma demo_utils_ok:
  "blank_members sim_usb demo_raw" "descriptor_ok sim_usb demo_device_dscr (unat (18 :: u8))"
  "descriptor_ok sim_usb demo_config_dscr (unat (32 :: u16))" "descriptor_ok sim_usb [] (unat (0 :: u8))"
  by (simp_all add: blank_members_def demo_raw_def descriptor_ok_def demo_device_dscr_def demo_config_dscr_def
    USB_CFG_DSCR_HEAD_def VEND_INTERFACE_DSCR_def USB_BULK_EP_DSCR_def)

lemma demo_new:
  "\<exists>u s v. utils_reach sim_usb echo_client sim_shows u s \<and> sim_shows s v \<and> ready sim_usb u v"
proof -
  obtain u s v where n: "UsbdevUtils_new sim_usb demo_device_dscr 18 demo_config_dscr 32 [] 0 demo_raw
      (\<lparr>v_rx = {}, v_tx = {}, v_waiting = Map.empty, v_lost = {}, v_arrived = [], v_collected = [], v_log = []\<rparr>, []) = Some (u, s)" "sim_shows s v" "ready sim_usb u v"
    using sim_port.new_runs [OF demo_utils_ok zero_less_numeral, of "(\<lparr>v_rx = {}, v_tx = {}, v_waiting = Map.empty, v_lost = {}, v_arrived = [], v_collected = [], v_log = []\<rparr>, [])"]
    by (elim exE conjE) (rule that)
  from r_new [OF demo_utils_ok n(1)] n(2,3) show ?thesis by blast
qed

text \<open>A client that sends on endpoint one twice before the host has collected the first packet loses its buffer, and no other.\<close>

theorem utils_buffers_partitioned_witness:
  "\<exists>u s v. utils_reach sim_usb echo_client sim_shows u s \<and> sim_shows s v \<and> accounted sim_usb u v \<and>
    card (v_lost v) = 1 \<and> card (ran (v_waiting v)) = 1"
proof -
  obtain u s v where n: "utils_reach sim_usb echo_client sim_shows u s" "sim_shows s v" "ready sim_usb u v" using demo_new by blast
  have r: "parted sim_usb {} u v" "v_tx v = {}" "told ep v" for ep using n(3) by (simp_all add: ready_def)
  have w0: "v_waiting v = Map.empty" "v_lost v = {}"
    using sim_port.none_waits [OF n(2) r(2)] sane_tx_none(2) [of sim_usb v] n(2) r(2) by (auto simp: sim_shows_def sane_def)
  have left: "bufAvail u \<noteq> 0" using r(2) by (intro sim_port.buffer_left [OF n(2) r(1)]) simp
  obtain b m where a: "buf_alloc sim_usb u = (Some b, u\<lparr>bufAvail := m\<rparr>)" "parted sim_usb {unat b} (u\<lparr>bufAvail := m\<rparr>) v"
    using sim_port.alloc_takes [OF r(1) left] by blast
  let ?v1 = "(v_sends 1 (unat b) v)\<lparr>v_log := v_log v @ [Sent 1 [1, 2, 3]]\<rparr>" and ?u1 = "u\<lparr>bufAvail := m\<rparr>"
  define s1 where "s1 = ud_packet_send sim_usb b 1 [1, 2, 3] 3 s"
  have 1: "sim_shows s1 ?v1" "parted sim_usb {} ?u1 ?v1"
    using sim_port.send_step [OF n(2) a(2), of 1 3 "[1, 2, 3]"] r(3) by (simp_all add: s1_def)
  have "send_data sim_usb 1 [1, 2, 3] 3 u s = Some (True, ?u1, s1)" by (simp add: send_data_def a(1) s1_def)
  from r_send [OF n(1,2) r(3) _ _ this] have reach1: "utils_reach sim_usb echo_client sim_shows ?u1 s1" by simp
  have left1: "bufAvail ?u1 \<noteq> 0" using r(2) by (intro sim_port.buffer_left [OF 1]) simp
  obtain c k where c: "buf_alloc sim_usb ?u1 = (Some c, ?u1\<lparr>bufAvail := k\<rparr>)" "parted sim_usb {unat c} (?u1\<lparr>bufAvail := k\<rparr>) ?v1"
    using sim_port.alloc_takes [OF 1(2) left1] by blast
  let ?v2 = "(v_sends 1 (unat c) ?v1)\<lparr>v_log := v_log ?v1 @ [Sent 1 [4]]\<rparr>" and ?u2 = "?u1\<lparr>bufAvail := k\<rparr>"
  define s2 where "s2 = ud_packet_send sim_usb c 1 [4] 1 s1"
  have t1: "told 1 ?v1" using n(3) by (simp add: ready_def)
  have 2: "sim_shows s2 ?v2"
    using sim_port.send_step [OF 1(1) c(2), of 1 1 "[4]"] t1 by (simp add: s2_def)
  have "send_data sim_usb 1 [4] 1 ?u1 s1 = Some (True, ?u2, s2)" by (simp add: send_data_def c(1) s2_def)
  from r_send [OF reach1 1(1) t1 _ _ this] have reach2: "utils_reach sim_usb echo_client sim_shows ?u2 s2" by simp
  from utils_buffers_partitioned [OF sim_callbacks.usb_callbacks_axioms _ this] obtain w where
    "sim_shows s2 w" "accounted sim_usb ?u2 w" by auto
  moreover have "w = ?v2" using sim_port.p_unique [OF 2 \<open>sim_shows s2 w\<close>] .
  ultimately show ?thesis using reach2
    by (intro exI [of _ ?u2] exI [of _ s2] exI [of _ w]) (simp add: w0)
qed

theorem utils_service_returns_witness:
  "\<exists>u s u' s'. utils_reach sim_usb echo_client sim_shows u s \<and> v_arrived (fst s) \<noteq> [] \<and>
    service sim_usb echo_client u s = Some (u', s') \<and> v_arrived (fst s') = []"
proof -
  obtain u s v where n: "utils_reach sim_usb echo_client sim_shows u s" "sim_shows s v" "ready sim_usb u v" using demo_new by blast
  have r: "v_arrived v = []" "v_rx v \<noteq> {}" "v_tx v = {}" "tame u" using n(3) by (simp_all add: ready_def tame_def)
  have w0: "v_waiting v 0 = None" using r(3) by (rule sim_port.none_waits [OF n(2)])
  let ?req = "[0x80, 6, 0, 1, 0, 0, 18, 0] :: u8 list"
  obtain b where b: "sim_shows (sim_request ?req s)
      (v\<lparr>v_arrived := [(\<lparr>buffer_id = b, endpoint_id = 0, is_setup = True, packet_size = 8\<rparr>, ?req)]\<rparr>)"
    using sim_host.h_request [OF n(2) r(1,2) w0, of ?req] by auto
  have reach: "utils_reach sim_usb echo_client sim_shows u (sim_request ?req s)"
    by (rule r_device [OF n(1,2) b]) (simp add: device_moves_def collected_bufs_def)
  have "\<exists>u' s' v'. service sim_usb echo_client u (sim_request ?req s) = Some (u', s') \<and> sim_shows s' v' \<and> v_arrived v' = [] \<and>
      v_collected v' = [] \<and> parted sim_usb {} u' v' \<and>
      (list_all polite (v_arrived (v\<lparr>v_arrived := [(\<lparr>buffer_id = b, endpoint_id = 0, is_setup = True, packet_size = 8\<rparr>, ?req)]\<rparr>)) \<longrightarrow> tame u')"
    by (rule utils_service_returns [OF sim_callbacks.usb_callbacks_axioms _ reach b r(4)]) (simp_all add: roomy_def r(3))
  then obtain u' s' v' where "service sim_usb echo_client u (sim_request ?req s) = Some (u', s')" "sim_shows s' v'" "v_arrived v' = []" by blast
  then show ?thesis using reach
    by (intro exI [of _ u] exI [of _ "sim_request ?req s"] exI [of _ u'] exI [of _ s']) (simp add: sim_shows_def, simp add: sim_request_def)
qed

theorem utils_control_transfers_witness:
  "\<exists>u s u' s'. UsbdevUtils_new sim_usb demo_device_dscr 18 demo_config_dscr 32 [] 0 demo_raw
      (\<lparr>v_rx = {}, v_tx = {}, v_waiting = Map.empty, v_lost = {}, v_arrived = [], v_collected = [], v_log = []\<rparr>, []) = Some (u, s) \<and>
    control_transfers sim_usb echo_client sim_request sim_collect
      [[0x80, 6, 0, 1, 0, 0, 18, 0], [0, 5, 7, 0, 0, 0, 0, 0], [0x80, 6, 0, 2, 0, 0, 9, 0], [0, 9, 1, 0, 0, 0, 0, 0]] u s = Some (u', s') \<and>
    configured u' \<and> devAddr u' = 7 \<and>
    v_log (fst s') = [Sent 0 demo_device_dscr, Sent 0 [], Address 7, Sent 0 [9, 2, 32, 0, 1, 1, 0, 0xC0, 50], Sent 0 []]"
proof -
  let ?reqs = "[[0x80, 6, 0, 1, 0, 0, 18, 0], [0, 5, 7, 0, 0, 0, 0, 0], [0x80, 6, 0, 2, 0, 0, 9, 0], [0, 9, 1, 0, 0, 0, 0, 0]] :: u8 list list"
  let ?s = "(\<lparr>v_rx = {}, v_tx = {}, v_waiting = Map.empty, v_lost = {}, v_arrived = [], v_collected = [], v_log = []\<rparr>, []) :: usb_view \<times> u8 list"
  have "\<forall>req\<in>set ?reqs. length req = 8 \<and> (set_address req \<longrightarrow> unat (req ! 2) < 128)" by (simp add: set_address_def)
  from utils_control_transfers [OF sim_host.usb_host_axioms demo_utils_ok this, of ?s echo_client]
  obtain u s u' s' v' where t: "UsbdevUtils_new sim_usb demo_device_dscr 18 demo_config_dscr 32 [] 0 demo_raw ?s = Some (u, s)"
    "devDscr u = demo_device_dscr" "devLen u = 18" "cfgDscr u = demo_config_dscr" "cfgLen u = 32"
    "control_transfers sim_usb echo_client sim_request sim_collect ?reqs u s = Some (u', s')" "sim_shows s' v'"
    "v_log v' = concat (map (transfer_log u) ?reqs)" "(devState u', devAddr u') = fold transfer_state ?reqs (Device_Powered, 0)"
    by (elim exE conjE) (rule that)
  have "v_log v' = [Sent 0 demo_device_dscr, Sent 0 [], Address 7, Sent 0 [9, 2, 32, 0, 1, 1, 0, 0xC0, 50], Sent 0 []]"
    unfolding t(8) by (simp add: transfer_log_def request_answer_def set_address_def le16_def t(2-5) demo_device_dscr_def demo_config_dscr_def
      USB_CFG_DSCR_HEAD_def)
  moreover have "devState u' = Device_Configured \<and> devAddr u' = 7"
    using t(9) by (simp add: transfer_state_def set_address_def)
  ultimately show ?thesis using t(1,6,7)
    by (intro exI [of _ u] exI [of _ s] exI [of _ u'] exI [of _ s']) (simp only: configured_def sim_shows_def simp_thms)
qed

end
