(* ===== verification/Spec2Isabelle.thy ===== *)
theory Spec2Isabelle
  imports Crc Spi_Flash Spi_Microsd Spi_Controller Sd_Card Sd_System Fat_System I2c_System Spi_Lcd Flash_System Rpi_Eeprom
    Usb_System Plic Boot_System Legacy_Spi Legacy_I2c Hal Usb_Utils_System
begin

text \<open>
  A verification library for the Sonata system: the storage stack and the bus models of its simulation, and drivers of its
  software, as C++ and C sources under \<open>src/\<close>.

  \<^bold>\<open>The program.\<close> Sonata is a development board for a capability processor. Two bodies of code carry its logic and are modelled here. The
  first is the simulation of the devices around the chip (\<open>dv/dpi\<close>): devices on SPI (a flash, a microSD card, a display) and on
  I2C (an EEPROM, two sensors), written against base classes that turn samples of the lines into bytes. The second is the
  software of the board (\<open>sw/cheri\<close>, \<open>sw/legacy\<close>): a boot loader that takes a program from flash, an SD card driver and a FAT32 file
  system on top of it, a flash driver, a parser for the identification EEPROM of extension boards, two USB device drivers, the interrupt
  controller, the machine timer, and an older stack with drivers of its own for SPI, I2C, pins and timers, in C and as classes
  over generated registers. Software and simulated devices meet at a controller, whose own registers are hardware.

  \<^bold>\<open>The theories and the code.\<close> A class or structure is a record with the members of the source, a member function is a function with
  the record as argument and result, an enumeration is a datatype, a fixed-width integer is a word of that width.

  \<^item> \<open>Prelude\<close>: the integer types, bits and bytes, buffers. \<open>Mmio\<close>: the loads and stores of \<open>dev_access.h\<close>.
  \<^item> \<open>Crc\<close>: CRC7 and CRC16, as the driver (\<open>sdcard-utils.hh\<close>) and as the card (\<open>spi_microsd.cc\<close>) compute them.
  \<^item> \<open>Spi_Device\<close>: the base class of the SPI devices (\<open>spidevicedpi.cc\<close>, \<open>.hh\<close>, \<open>.sv\<close>), edge by edge, and the proof that eight clock
    periods exchange a byte. A device is a \<open>spi_target\<close> (or a \<open>spi_silent_target\<close>, when reading does not change it): the
    locales state what a device must not touch. \<open>Spi_Flash\<close>, \<open>Spi_Microsd\<close> and \<open>Spi_Lcd\<close> are the devices and interpret them.
  \<^item> \<open>Spi_Controller\<close>: the controller the drivers use, a parameter \<open>spi_ops\<close> with its documented behaviour as the locale
    \<open>spi_controller\<close>, interpreted by a controller that clocks the simulated devices.
  \<^item> \<open>Sd_Card\<close>: the SD driver (\<open>sdcard-utils.hh\<close>). \<open>Sd_Protocol\<close> and \<open>Sd_System\<close>: the conversation of driver and card; the locale
    \<open>sd_slot\<close> extends \<open>spi_controller\<close> by a card on one of its lines.
  \<^item> \<open>Fat_Cache\<close>, \<open>Fat_Object\<close>, \<open>Fat_Names\<close>, \<open>Fat_Fs\<close>: the file system (\<open>filesys-utils.hh\<close>), from the block cache and the allocation table to
    files, directories with long names and handles. It is proved over the locale \<open>block_device\<close>; \<open>Fat_Live\<close> needs only
    \<open>responsive\<close>, a medium that answers, correctly or not (\<open>sublocale\<close>: every block device is one). \<open>Fat_System\<close> interprets
    \<open>block_device\<close> by the SD driver over the simulated card.
  \<^item> \<open>Flash_Driver\<close> and \<open>Flash_System\<close>: class \<open>SpiFlash\<close> (\<open>flash-utils.hh\<close>) and its conversation with the simulated flash.
  \<^item> \<open>I2c_Device\<close>, \<open>I2c_Bus\<close>, \<open>I2c_System\<close>: the I2C devices, the decoder of the bus (\<open>i2cdpi.cc\<close>) and whole transactions on the lines.
  \<^item> \<open>Rpi_Eeprom\<close>: the parser \<open>rpi-hat-eeprom.hh\<close> and the check of a Sense HAT in \<open>i2c_tests.hh\<close>, on the contents of the simulated
    EEPROM.
  \<^item> \<open>Usb_Device\<close>, \<open>Usb_Memory\<close>, \<open>Usb_Service\<close>, \<open>Usb_System\<close>: the USB device driver (\<open>usbdev.c\<close>) over the laws of its controller.
  \<^item> \<open>Usb_Utils\<close>, \<open>Usb_Utils_Steps\<close>, \<open>Usb_Utils_System\<close>: the class \<open>UsbdevUtils\<close> (\<open>usbdev-utils.hh\<close>), the control pipe and the pool of packet
    buffers over a driver class that is a submodule. The locales \<open>usb_port\<close> and \<open>usb_callbacks\<close> state what that class and the
    functions of the client keep to, \<open>usb_host\<close> adds a host that collects its replies; a simulated port interprets all three.
  \<^item> \<open>Console\<close>: \<open>uart-utils.hh\<close> and \<open>console.hh\<close>. \<open>Boot_Loader\<close>: \<open>boot.S\<close>, \<open>elf.h\<close> and \<open>boot_loader.cc\<close> from reset to the jump into the
    program, every load and store through a capability that is checked. \<open>Boot_System\<close>: its runs over the simulated flash.
  \<^item> \<open>Timer\<close>, \<open>Legacy_System\<close>: \<open>timer.c\<close>, \<open>sonata_system.c\<close>, \<open>uart.c\<close>. \<open>Plic\<close>: the interrupt controller, \<open>sonata_plic.hh\<close> and \<open>rv_plic.c\<close>.
  \<^item> \<open>Legacy_Spi\<close>: \<open>spi.c\<close> and the SPI block as a step relation that runs while software looks at it. \<open>Legacy_I2c\<close>: \<open>i2c.c\<close>, \<open>gpio.c\<close>,
    \<open>pwm.c\<close>. \<open>Hal\<close>: the template of register fields and the classes of \<open>sw/legacy/hal\<close>.

  \<^bold>\<open>What is shown.\<close>

  \<^item> The storage stack implements its abstractions: reading a file through file system, driver, controller and card, down to
    the clock edges, returns the bytes of the image along the cluster chain, for a chain that is laid out and a cache that
    holds no data of the file (C1; without that it can fail, C40); a block written is read back and leaves the
    other blocks alone; the flash driver over the simulated flash behaves like an array of bytes that is erased by sectors;
    initialisation succeeds; a damaged block is rejected. The CRC16 of card and driver
    is the remainder of polynomial division, and detects every error within two adjacent bytes.
  \<^item> The file system always returns, on every medium that answers, in every sequence of calls; its handles are accounted for and
    independent; long names round trip and never leave their buffer.
  \<^item> The bus decoders implement byte-level transactions whatever devices are attached; the display shows what a window was
    filled with and never writes outside its frame buffer; the image file is upright.
  \<^item> The check of an identification EEPROM counts exactly what is wrong with an image, and finds nothing wrong with the simulated one; the
    parser round trips atoms, rejects damage and stays in bounds.
  \<^item> The USB driver gives no packet buffer out twice and loses none but those of replies that a SETUP packet cancels; it answers requests for
    descriptors with the descriptors and changes its state only as the host asks; packets round trip through packet memory.
  \<^item> The boot loader puts exactly the segments of an ELF image into memory, clears what they leave open, and jumps to its entry;
    whatever the flash holds, it comes to an end, has stored through its capabilities only into the revocation bitmap and the two memories it loads into, has left the contents of the
    flash alone (after a trap it may leave it selected, in the middle of a read), and jumps
    only when the image is a valid executable.
  \<^item> The control pipe answers every sequence of requests of a host that collects its replies and sets valid addresses as the device
    states of USB prescribe, its service routine returns, and every packet buffer is in the pool, with the controller, or lost where the
    one register for replies of an endpoint is written again or cancelled.
  \<^item> The SPI driver and the SPI class exchange exactly their bytes, however the steps of the block fall between the accesses; the
    timing the I2C driver computes meets the tables in its source.
  \<^item> The timer returns a time that was, although it reads it in halves; an installed exception vector jumps to its handler;
    the interrupt controller's registers are a set of enabled interrupts and their priorities; the dispatcher claims, handles and
    completes what waits, in this order.
  \<^item> Defects of the code are theorems too: \<open>object_read_returns_table\<close>, \<open>eeprom_page_write_even_astray\<close>, \<open>as621x_restart_swaps\<close>,
    \<open>atom_read_overruns\<close>, \<open>usb_long_descriptor_aborts\<close>, \<open>utils_request_dropped\<close>, \<open>utils_bad_address_aborts\<close>,
    \<open>utils_long_descriptor_truncated\<close>, \<open>spi_tx_overruns\<close> (a FIFO
    shorter than the driver assumes), \<open>i2c_write_waits_wrong\<close>, \<open>hal_read_waits_wrong\<close>, \<open>hal_delay_ends_early\<close>.

  \<^bold>\<open>Conventions.\<close> An \<open>option\<close> around a result says that the code may not return: a polling loop that never ends (\<open>partial_function\<close>), an
  access outside an array or a failed assertion. Such functions have no fuel; that they return is proved where the properties
  say so. Loops with a bound in the code are functions with a termination proof. Memory the code leaves uninitialised is an
  argument \<open>raw\<close>. Assignments that go through a device twice are kept in the order of the source.

  \<^bold>\<open>Hypotheses.\<close> Hardware that is not modelled is a parameter, and what is assumed of it is a named predicate or locale: \<open>spi_controller\<close>
  (the documented register behaviour of the SPI block), \<open>usb_controller\<close> (the ownership of packet buffers by the USB block; what the host does,
  receiving, sending, collecting and cancelling, is the relation \<open>usb_run\<close> and falls between the calls of the driver), \<open>packet_memory\<close>, \<open>timer_counts\<close> (a time register that advances
  fewer than \<open>2\<^sup>29\<close> ticks in an access), \<open>timer_compares\<close>, \<open>plic_regs\<close> and \<open>plic_queue\<close>, \<open>spi_block\<close> and
  \<open>spi_control_block\<close> (the SPI block with its own pace), \<open>usb_port\<close>, \<open>usb_callbacks\<close> and \<open>usb_host\<close>, and for the boot loader
  \<open>cheri_encoding\<close> (how the bounds of a capability are rounded) and \<open>boot_board\<close> (its flash and memories), which \<open>stopping_board\<close> extends by
  what a read does whose store traps. Each is instantiated by a concrete machine in the witnesses.

  \<^bold>\<open>Not modelled.\<close> The stack of the boot loader, whose locals are values. Logging and the texts printed, other than by \<open>Console\<close> and the boot loader; the glue between simulator and device
  objects and the main program of the simulator; lists of registers that nothing but tests uses (\<open>sw/legacy/hal/mmio/usbdev.hh\<close>, \<open>i2c.hh\<close>) and the pin
  multiplexer, which are generated; tests, checks and demonstrations, which are programs for the board around images and
  expected values; inline assembly and the capability test harness, whose meaning is that of the instruction set; the
  hardware description; vendored code.
\<close>

end
